(* ===== verification/Prelude.thy ===== *)
theory Prelude
  imports Main "HOL-Library.Sublist" "HOL-Library.Code_Target_Nat"
begin

text \<open>
  Shared vocabulary of the development: the fragment of Python's \<open>str\<close>, \<open>int\<close> and exceptions
  that the modelled modules use, and the interfaces (locales) that several components implement.

  A Python \<open>str\<close> is a list of code points. Except in the path codec (theory Rbac, which works on
  arbitrary code points), strings are modelled as HOL \<open>string\<close>, i.e. the code points below 256
  (Latin-1); every character predicate below is the one CPython computes on these code points
  (\<open>isdigit\<close> therefore holds of the superscripts one, two and three, \<open>isspace\<close> of NEL and NBSP).
  Integers are unbounded. An exception is the \<open>Inl\<close> value of a sum type.
\<close>

section \<open>Automation\<close>

named_theorems py_simps \<open>evaluation of the Python string primitives\<close>
named_theorems chr_defs \<open>definitions of the character classes\<close>

section \<open>Exceptions\<close>

text \<open>The exceptions of the Python runtime that the modelled code lets escape or catches.\<close>

datatype py_exn = ValueError | UnicodeError | TypeError | KeyError | AttributeError | IndexError

text \<open>\<open>datetime\<close> covers the years 1 to 9999; \<open>fromtimestamp\<close> raises outside them.\<close>

definition representable :: "int \<Rightarrow> bool" where
  "representable us = (- 62135596800000000 \<le> us \<and> us < 253402300800000000)"

type_synonym ('e, 'a) result = "'e + 'a"

fun bind_res :: "'e + 'a \<Rightarrow> ('a \<Rightarrow> 'e + 'b) \<Rightarrow> 'e + 'b" where
  "bind_res (Inl e) f = Inl e"
| "bind_res (Inr x) f = f x"

lemma bind_res_Inr: "bind_res r f = Inr y \<longleftrightarrow> (\<exists>x. r = Inr x \<and> f x = Inr y)"
  by (cases r) auto

lemma bind_res_Inl:
  "bind_res r f = Inl e \<longleftrightarrow> r = Inl e \<or> (\<exists>x. r = Inr x \<and> f x = Inl e)"
  by (cases r) auto

fun map_res :: "('a \<Rightarrow> 'e + 'b) \<Rightarrow> 'a list \<Rightarrow> 'e + 'b list" where
  "map_res f [] = Inr []"
| "map_res f (x # xs) = bind_res (f x) (\<lambda>y. bind_res (map_res f xs) (\<lambda>ys. Inr (y # ys)))"

lemma list_all2_in_set1: "list_all2 P xs ys \<Longrightarrow> x \<in> set xs \<Longrightarrow> \<exists>y \<in> set ys. P x y"
  by (induction rule: list_all2_induct) auto

lemma list_all2_in_set2: "list_all2 P xs ys \<Longrightarrow> y \<in> set ys \<Longrightarrow> \<exists>x \<in> set xs. P x y"
  by (induction rule: list_all2_induct) auto

lemma map_res_Inr_list_all2:
  "map_res f xs = Inr ys \<longleftrightarrow> list_all2 (\<lambda>x y. f x = Inr y) xs ys"
  by (induction xs arbitrary: ys) (auto simp: bind_res_Inr list_all2_Cons1)

lemma map_res_source:
  "map_res f xs = Inr ys \<Longrightarrow> y \<in> set ys \<Longrightarrow> \<exists>x \<in> set xs. f x = Inr y"
  by (auto simp: map_res_Inr_list_all2 dest: list_all2_in_set2)

lemma map_res_total: "(\<And>x. x \<in> set xs \<Longrightarrow> f x = Inr (g x)) \<Longrightarrow> map_res f xs = Inr (map g xs)"
  by (induction xs) auto

section \<open>Character classes of Latin-1\<close>

abbreviation cp :: "char \<Rightarrow> nat" where
  "cp c \<equiv> of_char c"

definition is_space :: "char \<Rightarrow> bool" where
  "is_space c = (let n = cp c in (9 \<le> n \<and> n \<le> 13) \<or> (28 \<le> n \<and> n \<le> 32) \<or> n = 133 \<or> n = 160)"

definition is_decimal :: "char \<Rightarrow> bool" where
  "is_decimal c = (let n = cp c in 48 \<le> n \<and> n \<le> 57)"

definition is_digit :: "char \<Rightarrow> bool" where
  "is_digit c = (let n = cp c in (48 \<le> n \<and> n \<le> 57) \<or> n = 178 \<or> n = 179 \<or> n = 185)"

definition is_alpha :: "char \<Rightarrow> bool" where
  "is_alpha c = (let n = cp c in (65 \<le> n \<and> n \<le> 90) \<or> (97 \<le> n \<and> n \<le> 122) \<or> n = 170 \<or> n = 181
     \<or> n = 186 \<or> (192 \<le> n \<and> n \<le> 214) \<or> (216 \<le> n \<and> n \<le> 246) \<or> 248 \<le> n)"

definition is_alnum :: "char \<Rightarrow> bool" where
  "is_alnum c = (is_alpha c \<or> is_digit c \<or> (188 \<le> cp c \<and> cp c \<le> 190))"

definition lower_char :: "char \<Rightarrow> char" where
  "lower_char c = (let n = cp c in
     if (65 \<le> n \<and> n \<le> 90) \<or> (192 \<le> n \<and> n \<le> 214) \<or> (216 \<le> n \<and> n \<le> 222)
     then char_of (n + 32) else c)"

text \<open>
  \<open>upper_char\<close> is \<open>str.upper\<close> on the characters whose upper case is a single Latin-1 character.
  The micro sign, sharp s and y with diaeresis leave Latin-1 in Python and are kept here; no
  caller maps any of them to an ASCII letter.
\<close>

definition upper_char :: "char \<Rightarrow> char" where
  "upper_char c = (let n = cp c in
     if (97 \<le> n \<and> n \<le> 122) \<or> (224 \<le> n \<and> n \<le> 246) \<or> (248 \<le> n \<and> n \<le> 254)
     then char_of (n - 32) else c)"

lemmas [chr_defs] = is_space_def is_decimal_def is_digit_def is_alpha_def is_alnum_def
  lower_char_def upper_char_def Let_def

definition lower :: "string \<Rightarrow> string" where
  "lower s = map lower_char s"

lemma cp_char_of [simp]: "n < 256 \<Longrightarrow> cp (char_of n) = n"
  by simp

lemma char_cp_eq: "c = d \<longleftrightarrow> cp c = cp d"
  by auto

lemma decimal_is_digit: "is_decimal c \<Longrightarrow> is_digit c"
  by (simp add: chr_defs)

lemma decimal_not_space: "is_decimal c \<Longrightarrow> \<not> is_space c"
  by (simp add: chr_defs)

lemma decimal_not_alpha: "is_decimal c \<Longrightarrow> \<not> is_alpha c"
  by (simp add: chr_defs)

lemma lower_char_idem [simp]: "lower_char (lower_char c) = lower_char c"
proof -
  let ?up = "\<lambda>n::nat. (65 \<le> n \<and> n \<le> 90) \<or> (192 \<le> n \<and> n \<le> 214) \<or> (216 \<le> n \<and> n \<le> 222)"
  show ?thesis
  proof (cases "?up (cp c)")
    case True
    then have n: "cp (lower_char c) = cp c + 32"
      by (auto simp: lower_char_def Let_def)
    with True have "\<not> ?up (cp (lower_char c))" by auto
    then show ?thesis by (subst lower_char_def) (simp only: Let_def if_False)
  next
    case False
    then have "lower_char c = c" by (auto simp: lower_char_def Let_def)
    then show ?thesis by simp
  qed
qed

lemma lower_idem [simp]: "lower (lower s) = lower s"
  by (simp add: lower_def o_def)

lemma lower_Nil_iff [simp]: "lower s = [] \<longleftrightarrow> s = []" "lower [] = []"
  by (simp_all add: lower_def)

lemma lower_fixed_iff: "lower s = s \<longleftrightarrow> (\<forall>c \<in> set s. lower_char c = c)"
  unfolding lower_def by (metis list.map_cong0 list.map_id0 id_apply in_set_conv_nth length_map nth_map)

lemma lower_subset: "lower s = s \<Longrightarrow> set t \<subseteq> set s \<Longrightarrow> lower t = t"
  by (auto simp: lower_fixed_iff)

section \<open>String operations\<close>

definition startswith :: "'a list \<Rightarrow> 'a list \<Rightarrow> bool" where
  "startswith s p = (take (length p) s = p)"

lemma startswith_append [simp]: "startswith (p @ s) p"
  by (simp add: startswith_def)

lemma startswith_iff: "startswith s p \<longleftrightarrow> (\<exists>t. s = p @ t)"
  by (metis append_eq_conv_conj append_take_drop_id startswith_def)

lemma startswith_Nil [simp]: "startswith s []"
  by (simp add: startswith_def)

lemma startswith_Cons [py_simps]:
  "startswith (x # s) (y # p) \<longleftrightarrow> x = y \<and> startswith s p"
  "\<not> startswith [] (y # p)"
  by (auto simp: startswith_def)

text \<open>\<open>needle in haystack\<close>.\<close>

fun contains :: "'a list \<Rightarrow> 'a list \<Rightarrow> bool" where
  "contains p [] = (p = [])"
| "contains p (x # s) = (startswith (x # s) p \<or> contains p s)"

text \<open>\<open>s.split(sep)\<close> for a one-character separator.\<close>

fun cons_hd :: "'a \<Rightarrow> 'a list list \<Rightarrow> 'a list list" where
  "cons_hd x [] = [[x]]"
| "cons_hd x (y # ys) = (x # y) # ys"

fun split_on :: "'a \<Rightarrow> 'a list \<Rightarrow> 'a list list" where
  "split_on c [] = [[]]"
| "split_on c (x # xs) = (if x = c then [] # split_on c xs else cons_hd x (split_on c xs))"

fun join :: "'a list \<Rightarrow> 'a list list \<Rightarrow> 'a list" where
  "join sep [] = []"
| "join sep [x] = x"
| "join sep (x # y # ys) = x @ sep @ join sep (y # ys)"

lemma cons_hd_not_Nil [simp]: "cons_hd x ys \<noteq> []"
  by (cases ys) auto

lemma split_on_not_Nil [simp]: "split_on c s \<noteq> []"
  by (cases s) auto

lemma join_Cons: "ys \<noteq> [] \<Longrightarrow> join sep (x # ys) = x @ sep @ join sep ys"
  by (cases ys) auto

lemma join_cons_hd: "ys \<noteq> [] \<Longrightarrow> join sep (cons_hd x ys) = x # join sep ys"
proof (cases ys)
  case (Cons y zs)
  then show ?thesis by (cases zs) auto
qed simp

lemma join_split_on [simp]: "join [c] (split_on c s) = s"
  by (induction s) (auto simp: join_Cons join_cons_hd)

lemma split_on_no_sep: "c \<notin> set s \<Longrightarrow> split_on c s = [s]"
  by (induction s) auto

lemma split_on_append_sep: "c \<notin> set x \<Longrightarrow> split_on c (x @ c # s) = x # split_on c s"
  by (induction x) auto

lemma split_on_join:
  "xs \<noteq> [] \<Longrightarrow> (\<And>x. x \<in> set xs \<Longrightarrow> c \<notin> set x) \<Longrightarrow> split_on c (join [c] xs) = xs"
  by (induction "[c]" xs rule: join.induct) (auto simp: split_on_no_sep split_on_append_sep)

lemma set_cons_hd: "y \<in> set (cons_hd x ys) \<Longrightarrow> ys \<noteq> [] \<Longrightarrow> y = x # hd ys \<or> y \<in> set ys"
  by (cases ys) auto

lemma split_on_pieces: "x \<in> set (split_on c s) \<Longrightarrow> c \<notin> set x"
proof (induction s arbitrary: x)
  case (Cons a s)
  show ?case
  proof (cases "a = c")
    case False
    with Cons.prems consider "x = a # hd (split_on c s)" | "x \<in> set (split_on c s)"
      by (auto dest: set_cons_hd)
    then show ?thesis
    proof cases
      case 1
      with False Cons.IH [of "hd (split_on c s)"] show ?thesis by simp
    qed (rule Cons.IH)
  qed (use Cons in auto)
qed simp

lemma set_split_on_subset: "x \<in> set (split_on c s) \<Longrightarrow> set x \<subseteq> set s"
proof (induction s arbitrary: x)
  case (Cons a s)
  then have "set (hd (split_on c s)) \<subseteq> set s" by simp
  with Cons show ?case
    by (fastforce split: if_splits dest: set_cons_hd)
qed simp

text \<open>\<open>s.split(sep)\<close> for a non-empty separator string.\<close>

function split_str :: "'a list \<Rightarrow> 'a list \<Rightarrow> 'a list list" where
  "split_str sep s =
     (if s = [] then [[]]
      else if sep \<noteq> [] \<and> startswith s sep then [] # split_str sep (drop (length sep) s)
      else cons_hd (hd s) (split_str sep (tl s)))"
  by pat_completeness auto
termination
  by (relation "measure (\<lambda>(sep, s). length s)") auto

declare split_str.simps [simp del]

lemma split_str_Nil [py_simps]: "split_str sep [] = [[]]"
  by (simp add: split_str.simps)

lemma split_str_Cons [py_simps]:
  "split_str sep (x # s) =
     (if sep \<noteq> [] \<and> startswith (x # s) sep then [] # split_str sep (drop (length sep) (x # s))
      else cons_hd x (split_str sep s))"
  by (subst split_str.simps) simp

text \<open>\<open>strip\<close>, \<open>lstrip\<close>, \<open>rstrip\<close> with a character class.\<close>

definition lstrip :: "('a \<Rightarrow> bool) \<Rightarrow> 'a list \<Rightarrow> 'a list" where
  "lstrip p s = dropWhile p s"

definition rstrip :: "('a \<Rightarrow> bool) \<Rightarrow> 'a list \<Rightarrow> 'a list" where
  "rstrip p s = rev (dropWhile p (rev s))"

definition strip :: "('a \<Rightarrow> bool) \<Rightarrow> 'a list \<Rightarrow> 'a list" where
  "strip p s = rstrip p (lstrip p s)"

text \<open>\<open>s.split()\<close>: maximal runs of non-space characters.\<close>

fun words_acc :: "string \<Rightarrow> string \<Rightarrow> string list" where
  "words_acc [] cur = (if cur = [] then [] else [cur])"
| "words_acc (x # xs) cur =
     (if is_space x then (if cur = [] then words_acc xs [] else cur # words_acc xs [])
      else words_acc xs (cur @ [x]))"

definition words :: "string \<Rightarrow> string list" where
  "words s = words_acc s []"

text \<open>\<open>sorted(xs, key=f)\<close> is stable; so is \<open>sort_key\<close>. Strings are ordered by code points.\<close>

definition str_key :: "string \<Rightarrow> nat list" where
  "str_key s = map of_char s"

text \<open>
  In a regular expression \<open>$\<close> also matches before one trailing newline, which \<open>re.match\<close> allows;
  \<open>chomp\<close> takes that newline away.
\<close>

definition newline :: char where "newline = char_of (10::nat)"

definition chomp :: "string \<Rightarrow> string" where
  "chomp s = (if s \<noteq> [] \<and> last s = newline then butlast s else s)"

section \<open>Decimal numbers\<close>

fun dec_digits :: "nat \<Rightarrow> string" where
  "dec_digits n = (if n < 10 then [char_of (48 + n)]
     else dec_digits (n div 10) @ [char_of (48 + n mod 10)])"

declare dec_digits.simps [simp del]

definition dec_value :: "string \<Rightarrow> nat" where
  "dec_value s = foldl (\<lambda>a c. 10 * a + (cp c - 48)) 0 s"

text \<open>
  \<open>int(s)\<close> on a string all of whose characters satisfy \<open>isdigit\<close>: a non-decimal digit such as a
  superscript, or more than 4300 digits (CPython's \<open>int_max_str_digits\<close>), raises \<open>ValueError\<close>.
\<close>

definition int_max_str_digits :: nat where
  "int_max_str_digits = 4300"

definition py_int :: "string \<Rightarrow> py_exn + nat" where
  "py_int s = (if s \<noteq> [] \<and> list_all is_decimal s \<and> length s \<le> int_max_str_digits
     then Inr (dec_value s) else Inl ValueError)"

lemma is_decimal_char_of [simp]: "(n::nat) < 10 \<Longrightarrow> is_decimal (char_of (48 + n))"
  by (simp add: chr_defs)

lemma dec_digits_decimal: "list_all is_decimal (dec_digits n)"
proof (induction n rule: dec_digits.induct)
  case (1 n)
  then show ?case by (subst dec_digits.simps) simp
qed

lemma dec_digits_not_Nil [simp]: "dec_digits n \<noteq> []"
  by (subst dec_digits.simps) simp

lemma dec_value_dec_digits [simp]: "dec_value (dec_digits n) = n"
proof (induction n rule: dec_digits.induct)
  case (1 n)
  then show ?case by (subst dec_digits.simps) (auto simp: dec_value_def)
qed

lemma dec_digits_inj [simp]: "dec_digits m = dec_digits n \<longleftrightarrow> m = n"
  by (metis dec_value_dec_digits)

lemma dec_digits_in: "c \<in> set (dec_digits n) \<Longrightarrow> is_decimal c"
  using dec_digits_decimal by (auto simp: list_all_iff)

section \<open>JSON values\<close>

text \<open>
  The JSON values that wire contracts, metadata columns and serialised syntax trees hold. An object
  is an association list in insertion order, as a Python \<open>dict\<close> is. A finite floating-point number is
  held as the text that \<open>repr\<close> and \<open>json.dumps\<close> write for it, which determines it; \<open>NaN\<close> and the infinities are
  not JSON and are left out.
\<close>

datatype json = JNull | JBool bool | JInt int | JFloat string | JStr string | JList "json list"
  | JObj "(string \<times> json) list"

fun jopt :: "('a \<Rightarrow> json) \<Rightarrow> 'a option \<Rightarrow> json" where
  "jopt f None = JNull"
| "jopt f (Some x) = f x"

text \<open>\<open>d[k] = v\<close> on a dict keeps the position of an existing key and appends a new one.\<close>

fun dict_set :: "'k \<Rightarrow> 'v \<Rightarrow> ('k \<times> 'v) list \<Rightarrow> ('k \<times> 'v) list" where
  "dict_set k v [] = [(k, v)]"
| "dict_set k v ((k', v') # d) = (if k' = k then (k, v) # d else (k', v') # dict_set k v d)"

definition dict_pop :: "'k \<Rightarrow> ('k \<times> 'v) list \<Rightarrow> ('k \<times> 'v) list" where
  "dict_pop k d = filter (\<lambda>p. fst p \<noteq> k) d"

lemma map_of_dict_set [simp]: "map_of (dict_set k v d) = (map_of d)(k \<mapsto> v)"
  by (induction d) (auto simp: fun_eq_iff)

lemma keys_dict_set:
  "map fst (dict_set k v d) = (if k \<in> fst ` set d then map fst d else map fst d @ [k])"
  by (induction d) (auto split: if_splits)

lemma distinct_dict_set [simp]:
  "distinct (map fst d) \<Longrightarrow> distinct (map fst (dict_set k v d))"
  by (simp add: keys_dict_set)

lemma map_of_dict_pop [simp]: "map_of (dict_pop k d) = (map_of d)(k := None)"
  by (induction d) (auto simp: dict_pop_def fun_eq_iff)

section \<open>Interfaces shared by several components\<close>

text \<open>
  A lifecycle is a partial transition function (\<open>None\<close> is the \<open>ValueError\<close> the code raises on an
  event that is not in its transition table) with terminal states. A run applies events in order
  and fails at the first illegal one.
\<close>

fun run_steps :: "('s \<Rightarrow> 'e \<Rightarrow> 's option) \<Rightarrow> 's \<Rightarrow> 'e list \<Rightarrow> 's option" where
  "run_steps step s [] = Some s"
| "run_steps step s (e # es) =
     (case step s e of None \<Rightarrow> None | Some t \<Rightarrow> run_steps step t es)"

lemma run_steps_append:
  "run_steps step s (es @ fs) =
     (case run_steps step s es of None \<Rightarrow> None | Some t \<Rightarrow> run_steps step t fs)"
  by (induction es arbitrary: s) (auto split: option.split)

locale lifecycle =
  fixes step :: "'s \<Rightarrow> 'e \<Rightarrow> 's option"
    and terminal :: "'s \<Rightarrow> bool"
  assumes terminal_stuck: "terminal s \<Longrightarrow> step s e = None"
    and live_moves: "\<not> terminal s \<Longrightarrow> \<exists>e t. step s e = Some t \<and> terminal t"
begin

lemma stuck_iff_terminal: "(\<forall>e. step s e = None) \<longleftrightarrow> terminal s"
  using terminal_stuck live_moves by fastforce

lemma run_from_terminal: "terminal s \<Longrightarrow> run_steps step s es = Some t \<Longrightarrow> es = [] \<and> t = s"
  by (cases es) (auto simp: terminal_stuck)

lemma run_past_terminal:
  assumes "run_steps step s (es @ fs) = Some t" and "run_steps step s es = Some u" and "terminal u"
  shows "fs = [] \<and> t = u"
  using assms run_from_terminal [of u fs t] by (simp add: run_steps_append)

lemma can_always_finish: "\<exists>es t. run_steps step s es = Some t \<and> terminal t"
proof (cases "terminal s")
  case True
  then have "run_steps step s [] = Some s \<and> terminal s" by simp
  then show ?thesis by blast
next
  case False
  then obtain e t where "step s e = Some t" "terminal t" using live_moves by blast
  then have "run_steps step s [e] = Some t \<and> terminal t" by simp
  then show ?thesis by blast
qed

end

text \<open>A lifecycle without cycles: every legal step climbs a rank, so every run is bounded.\<close>

locale ranked_lifecycle = lifecycle +
  fixes rank :: "'s \<Rightarrow> nat" and top :: nat
  assumes step_climbs: "step s e = Some t \<Longrightarrow> rank s < rank t"
    and rank_bound: "rank s \<le> top"
begin

lemma run_climbs: "run_steps step s es = Some t \<Longrightarrow> rank s + length es \<le> rank t"
proof (induction es arbitrary: s)
  case (Cons e es)
  then obtain u where u: "step s e = Some u" "run_steps step u es = Some t"
    by (auto split: option.splits)
  with Cons.IH [of u] step_climbs [OF u(1)] show ?case by simp
qed simp

lemma run_bounded: "run_steps step s es = Some t \<Longrightarrow> length es \<le> top - rank s"
  using run_climbs [of s es t] rank_bound [of t] by simp

lemma no_revisit: "run_steps step s es = Some s \<Longrightarrow> es = []"
  using run_climbs [of s es s] by simp

end

text \<open>
  A codec is an encoder with a decoder that inverts it on the admissible values; encoders with a
  left inverse cannot merge two of them.
\<close>

locale codec =
  fixes enc :: "'a \<Rightarrow> 'b" and dec :: "'b \<Rightarrow> 'e + 'a" and ok :: "'a \<Rightarrow> bool"
  assumes dec_enc: "ok x \<Longrightarrow> dec (enc x) = Inr x"
begin

lemma enc_inj: "ok x \<Longrightarrow> ok y \<Longrightarrow> enc x = enc y \<Longrightarrow> x = y"
  by (metis Inr_inject dec_enc)

lemma map_enc_inj:
  "list_all ok xs \<Longrightarrow> list_all ok ys \<Longrightarrow> map enc xs = map enc ys \<Longrightarrow> xs = ys"
proof (induction xs arbitrary: ys)
  case (Cons x xs)
  then obtain y zs where "ys = y # zs" by (cases ys) auto
  with Cons enc_inj show ?case by auto
qed simp

lemma map_dec_enc: "list_all ok xs \<Longrightarrow> map_res dec (map enc xs) = Inr xs"
  by (induction xs) (auto simp: dec_enc)

end

text \<open>
  The longest-prefix loops of the code keep the best entry so far and replace it only by a
  strictly better one. The interface names the loop, what it accepts and how it ranks.
\<close>

locale best_scan =
  fixes covers :: "'m \<Rightarrow> bool" and score :: "'m \<Rightarrow> nat"
    and scan :: "'m option \<Rightarrow> 'm list \<Rightarrow> 'm option"
  assumes scan_Nil: "scan b [] = b"
    and scan_Cons: "scan b (m # ms) =
      scan (if covers m \<and> (case b of None \<Rightarrow> True | Some b' \<Rightarrow> score b' < score m)
            then Some m else b) ms"
begin

lemma scan_append: "scan b (ms @ ns) = scan (scan b ms) ns"
  by (induction ms arbitrary: b) (simp_all add: scan_Nil scan_Cons)

lemma scan_Some_stays: "\<exists>m. scan (Some b) ms = Some m \<and> score b \<le> score m"
proof (induction ms arbitrary: b)
  case (Cons m ms)
  show ?case
  proof (cases "covers m \<and> score b < score m")
    case True
    with Cons [of m] show ?thesis by (force simp: scan_Cons)
  next
    case False
    with Cons [of b] show ?thesis by (auto simp: scan_Cons)
  qed
qed (simp add: scan_Nil)

lemma scan_upper:
  "scan b ms = Some m \<Longrightarrow> m' \<in> set ms \<Longrightarrow> covers m' \<Longrightarrow> score m' \<le> score m"
proof (induction ms arbitrary: b)
  case (Cons x ms)
  let ?b = "if covers x \<and> (case b of None \<Rightarrow> True | Some b' \<Rightarrow> score b' < score x) then Some x else b"
  from Cons.prems have s: "scan ?b ms = Some m" by (simp add: scan_Cons)
  show ?case
  proof (cases "m' = x")
    case True
    with Cons.prems have "\<exists>b'. ?b = Some b' \<and> score x \<le> score b'"
      by (cases b) auto
    then obtain b' where "?b = Some b'" "score x \<le> score b'" by blast
    with s True scan_Some_stays [of b' ms] show ?thesis by auto
  next
    case False
    with Cons.IH [OF s] Cons.prems show ?thesis by simp
  qed
qed simp

lemma scan_member: "scan b ms = Some m \<Longrightarrow> b = Some m \<or> m \<in> set ms \<and> covers m"
proof (induction ms arbitrary: b)
  case (Cons x ms)
  then show ?case by (fastforce simp: scan_Cons split: if_splits)
qed (simp add: scan_Nil)

lemma scan_None: "scan None ms = None \<longleftrightarrow> (\<forall>m \<in> set ms. \<not> covers m)"
proof (induction ms)
  case (Cons x ms)
  then show ?case using scan_Some_stays [of x ms] by (auto simp: scan_Cons)
qed (simp add: scan_Nil)

lemma scan_best:
  assumes "scan None ms = Some m"
  shows "m \<in> set ms" and "covers m" and "\<And>m'. m' \<in> set ms \<Longrightarrow> covers m' \<Longrightarrow> score m' \<le> score m"
  using assms scan_member [of None ms m] scan_upper [of None ms m] by auto

end

end
