(* ===== verification/QueryDSL.thy ===== *)
theory QueryDSL
  imports Prelude
begin

text \<open>
  The local query language (\<open>backend/filearr/querydsl.py\<close>): typed syntax tree, printer, lexer and
  parser. The parser is modelled with the character positions it reports; the human-readable
  \<open>reason\<close> of an error is informational in the source and is left out. \<open>Raised\<close> is any exception
  other than \<open>ParseError\<close> that leaves a function.
\<close>

section \<open>Vocabulary\<close>

definition KEYS :: "string list" where
  "KEYS = [''kind'', ''group'', ''ext'', ''size'', ''modified'', ''created'', ''path'', ''tag'',
     ''hash'']"

definition LIST_KEYS :: "string list" where "LIST_KEYS = [''ext'']"
definition SIZE_KEYS :: "string list" where "SIZE_KEYS = [''size'']"
definition TIME_KEYS :: "string list" where "TIME_KEYS = [''modified'', ''created'']"
definition HASH_KEYS :: "string list" where "HASH_KEYS = [''hash'']"
definition LOWER_KEYS :: "string list" where
  "LOWER_KEYS = [''kind'', ''group'', ''ext'', ''hash'']"

definition SIZE_SUFFIX :: "(string \<times> nat) list" where
  "SIZE_SUFFIX = [('''', 1), (''K'', 1024), (''M'', 1024 ^ 2), (''G'', 1024 ^ 3), (''T'', 1024 ^ 4)]"

definition DURATION_UNIT :: "(char \<times> nat) list" where
  "DURATION_UNIT = [(CHR ''s'', 1), (CHR ''m'', 60), (CHR ''h'', 3600), (CHR ''d'', 86400),
     (CHR ''w'', 604800)]"

definition META_PREFIX :: string where "META_PREFIX = ''meta.''"
definition CF_PREFIX :: string where "CF_PREFIX = ''cf.''"
definition MAX_DYNAMIC_KEY_LEN :: nat where "MAX_DYNAMIC_KEY_LEN = 64"

lemmas vocab_defs = KEYS_def LIST_KEYS_def SIZE_KEYS_def TIME_KEYS_def HASH_KEYS_def LOWER_KEYS_def
  SIZE_SUFFIX_def DURATION_UNIT_def META_PREFIX_def CF_PREFIX_def MAX_DYNAMIC_KEY_LEN_def

datatype query_error = ParseError nat string | Raised py_exn

text \<open>The regular expressions (their \<open>$\<close> is \<open>chomp\<close>).\<close>

definition date_re :: "string \<Rightarrow> bool" where
  "date_re s = (let b = chomp s in length b = 10 \<and> list_all is_decimal (take 4 b) \<and> b ! 4 = CHR ''-''
     \<and> list_all is_decimal (take 2 (drop 5 b)) \<and> b ! 7 = CHR ''-''
     \<and> list_all is_decimal (drop 8 b))"

definition duration_re :: "string \<Rightarrow> (string \<times> char) option" where
  "duration_re s = (let b = chomp s in
     if 2 \<le> length b \<and> list_all is_decimal (butlast b) \<and> last b \<in> set ''smhdw''
     then Some (butlast b, last b) else None)"

definition is_hex :: "char \<Rightarrow> bool" where
  "is_hex c = (is_decimal c \<or> 97 \<le> cp c \<and> cp c \<le> 102)"

definition hex_re :: "string \<Rightarrow> bool" where
  "hex_re s = (let b = chomp s in b \<noteq> [] \<and> list_all is_hex b)"

definition key_char :: "char \<Rightarrow> bool" where
  "key_char c = (is_decimal c \<or> 97 \<le> cp c \<and> cp c \<le> 122 \<or> c = CHR ''_'')"

definition key_segment :: "string \<Rightarrow> bool" where
  "key_segment s = (s \<noteq> [] \<and> list_all key_char s)"

definition dynamic_key_re :: "string \<Rightarrow> bool" where
  "dynamic_key_re s = (let segs = split_on (CHR ''.'') s in
     list_all key_segment (butlast segs) \<and> (key_segment (last segs) \<or> last segs = ''*''))"

text \<open>\<open>datetime.date.fromisoformat\<close> on a ten-character \<open>YYYY-MM-DD\<close>.\<close>

definition leap_year :: "nat \<Rightarrow> bool" where
  "leap_year y = (y mod 4 = 0 \<and> (y mod 100 \<noteq> 0 \<or> y mod 400 = 0))"

definition days_in_month :: "nat \<Rightarrow> nat \<Rightarrow> nat" where
  "days_in_month y m = (if m = 2 then (if leap_year y then 29 else 28)
     else if m \<in> {4, 6, 9, 11} then 30 else 31)"

definition fromisoformat_ok :: "string \<Rightarrow> bool" where
  "fromisoformat_ok s = (length s = 10 \<and>
     (let y = dec_value (take 4 s); m = dec_value (take 2 (drop 5 s)); d = dec_value (drop 8 s)
      in 1 \<le> y \<and> 1 \<le> m \<and> m \<le> 12 \<and> 1 \<le> d \<and> d \<le> days_in_month y m))"

section \<open>Syntax tree\<close>

datatype FilterValue =
    StringValue string
  | ListValue "string list"
  | SizeValue string nat "nat option"
  | DurationValue string nat "nat option"
  | DateValue string string "string option"
  | MetaValue string string "string option"

record Term =
  term_value :: string
  term_negated :: bool
  term_fuzzy :: bool

record Filter =
  filter_key :: string
  filter_value :: FilterValue
  filter_negated :: bool

record Query =
  query_terms :: "Term list"
  query_filters :: "Filter list"

definition query_fuzzy :: "Query \<Rightarrow> bool" where
  "query_fuzzy q = (\<exists>t \<in> set (query_terms q). term_fuzzy t)"

section \<open>Printing\<close>

definition needs_quote :: "string \<Rightarrow> bool" where
  "needs_quote v = (v = [] \<or> (\<exists>c \<in> set v. is_space c) \<or> CHR '':'' \<in> set v
     \<or> hd v \<in> set [CHR ''-'', CHR ''!'', CHR ''~'', CHR 0x22])"

definition quoted :: "string \<Rightarrow> string" where
  "quoted v = (if needs_quote v then [CHR 0x22] @ v @ [CHR 0x22] else v)"

definition op_prefix :: "string \<Rightarrow> string" where
  "op_prefix opr = (if opr = ''='' then [] else opr)"

definition str_num :: "nat option \<Rightarrow> string" where
  "str_num n = (case n of None \<Rightarrow> ''None'' | Some k \<Rightarrow> dec_digits k)"

definition str_opt :: "string option \<Rightarrow> string" where
  "str_opt s = (case s of None \<Rightarrow> ''None'' | Some t \<Rightarrow> t)"

fun str_value :: "FilterValue \<Rightarrow> string" where
  "str_value (StringValue v) = quoted v"
| "str_value (ListValue vs) = join '';'' vs"
| "str_value (SizeValue opr lo hi) =
     (if opr = ''range'' then dec_digits lo @ ''..'' @ str_num hi
      else op_prefix opr @ dec_digits lo)"
| "str_value (DurationValue opr lo hi) =
     (if opr = ''range'' then dec_digits lo @ ''s..'' @ str_num hi @ ''s''
      else op_prefix opr @ dec_digits lo @ ''s'')"
| "str_value (DateValue opr lo hi) =
     (if opr = ''range'' then lo @ ''..'' @ str_opt hi else op_prefix opr @ lo)"
| "str_value (MetaValue opr lo hi) =
     (if opr = ''range'' then lo @ ''..'' @ str_opt hi else op_prefix opr @ lo)"

definition str_term :: "Term \<Rightarrow> string" where
  "str_term t = (if term_negated t then ''-'' else []) @ (if term_fuzzy t then ''~'' else [])
     @ quoted (term_value t)"

definition str_filter :: "Filter \<Rightarrow> string" where
  "str_filter f = (if filter_negated f then ''-'' else []) @ filter_key f @ '':''
     @ str_value (filter_value f)"

definition str_query :: "Query \<Rightarrow> string" where
  "str_query q = join '' '' (map str_filter (query_filters q) @ map str_term (query_terms q))"

subsection \<open>Serialisation\<close>

definition num_dict :: "string \<Rightarrow> string \<Rightarrow> string \<Rightarrow> nat \<Rightarrow> nat option \<Rightarrow> json" where
  "num_dict ty unit_key opr lo hi =
     (if opr = ''range''
      then JObj [(''type'', JStr ty), (''op'', JStr ''range''), (''lo'', JInt (int lo)),
             (''hi'', jopt (\<lambda>n. JInt (int n)) hi)]
      else JObj [(''type'', JStr ty), (''op'', JStr opr), (unit_key, JInt (int lo))])"

definition text_dict :: "string \<Rightarrow> string \<Rightarrow> string \<Rightarrow> string \<Rightarrow> string option \<Rightarrow> json" where
  "text_dict ty text_key opr lo hi =
     (if opr = ''range''
      then JObj [(''type'', JStr ty), (''op'', JStr ''range''), (''lo'', JStr lo),
             (''hi'', jopt JStr hi)]
      else JObj [(''type'', JStr ty), (''op'', JStr opr), (text_key, JStr lo)])"

fun value_to_dict :: "FilterValue \<Rightarrow> json" where
  "value_to_dict (StringValue v) = JObj [(''type'', JStr ''string''), (''value'', JStr v)]"
| "value_to_dict (ListValue vs) = JObj [(''type'', JStr ''list''), (''values'', JList (map JStr vs))]"
| "value_to_dict (SizeValue opr lo hi) = num_dict ''size'' ''bytes'' opr lo hi"
| "value_to_dict (DurationValue opr lo hi) = num_dict ''duration'' ''seconds'' opr lo hi"
| "value_to_dict (DateValue opr lo hi) = text_dict ''date'' ''iso'' opr lo hi"
| "value_to_dict (MetaValue opr lo hi) = text_dict ''meta'' ''value'' opr lo hi"

definition term_to_dict :: "Term \<Rightarrow> json" where
  "term_to_dict t = JObj [(''value'', JStr (term_value t)), (''negated'', JBool (term_negated t)),
     (''fuzzy'', JBool (term_fuzzy t))]"

definition filter_to_dict :: "Filter \<Rightarrow> json" where
  "filter_to_dict f = JObj [(''key'', JStr (filter_key f)), (''negated'', JBool (filter_negated f)),
     (''value'', value_to_dict (filter_value f))]"

definition query_to_dict :: "Query \<Rightarrow> json" where
  "query_to_dict q = JObj [(''terms'', JList (map term_to_dict (query_terms q))),
     (''filters'', JList (map filter_to_dict (query_filters q))),
     (''fuzzy'', JBool (query_fuzzy q))]"

section \<open>Value parsers\<close>

definition read_comparator :: "string \<Rightarrow> string option \<times> string" where
  "read_comparator val =
     (if take 2 val \<in> set [''>='', ''<=''] then (Some (take 2 val), drop 2 val)
      else if take 1 val \<in> set [''>'', ''<'', ''=''] then (Some (take 1 val), drop 1 val)
      else (None, val))"

definition lift_exn :: "py_exn + 'a \<Rightarrow> query_error + 'a" where
  "lift_exn r = (case r of Inl e \<Rightarrow> Inl (Raised e) | Inr x \<Rightarrow> Inr x)"

definition parse_size_num :: "string \<Rightarrow> nat \<Rightarrow> query_error + nat" where
  "parse_size_num s pos =
     (if s = [] then Inl (ParseError pos ''bad_size_value'')
      else let suffix = (if is_alpha (last s) then [upper_char (last s)] else []);
               numpart = (if is_alpha (last s) then butlast s else s)
        in case map_of SIZE_SUFFIX suffix of
             None \<Rightarrow> Inl (ParseError pos ''bad_size_suffix'')
           | Some mult \<Rightarrow>
               if numpart = [] \<or> \<not> list_all is_digit numpart
               then Inl (ParseError pos ''bad_size_value'')
               else bind_res (lift_exn (py_int numpart)) (\<lambda>n. Inr (n * mult)))"

text \<open>The three value parsers share the shape of a range; \<open>range_parts\<close> is its \<open>split\<close> check.\<close>

definition range_parts :: "string \<Rightarrow> nat \<Rightarrow> query_error + (string \<times> string)" where
  "range_parts val pos = (case split_str ''..'' val of
       [a, b] \<Rightarrow> if a = [] \<or> b = [] then Inl (ParseError pos ''bad_range'') else Inr (a, b)
     | _ \<Rightarrow> Inl (ParseError pos ''bad_range''))"

definition parse_size :: "string \<Rightarrow> nat \<Rightarrow> query_error + FilterValue" where
  "parse_size val pos = (case read_comparator val of
       (None, _) \<Rightarrow>
         if contains ''..'' val
         then bind_res (range_parts val pos) (\<lambda>(a, b).
                bind_res (parse_size_num a pos) (\<lambda>lo.
                bind_res (parse_size_num b pos) (\<lambda>hi. Inr (SizeValue ''range'' lo (Some hi)))))
         else bind_res (parse_size_num val pos) (\<lambda>n. Inr (SizeValue ''='' n None))
     | (Some opr, rest) \<Rightarrow>
         if contains ''..'' rest then Inl (ParseError pos ''bad_range'')
         else bind_res (parse_size_num rest pos) (\<lambda>n. Inr (SizeValue opr n None)))"

datatype time_atom = DateAtom string | DurationAtom nat

definition parse_time_atom :: "string \<Rightarrow> nat \<Rightarrow> query_error + time_atom" where
  "parse_time_atom s pos =
     (if s = [] then Inl (ParseError pos ''bad_time_value'')
      else if date_re s then
        (if fromisoformat_ok s then Inr (DateAtom s) else Inl (ParseError pos ''bad_date''))
      else case duration_re s of
             Some (ds, u) \<Rightarrow> bind_res (lift_exn (py_int ds)) (\<lambda>n.
                (case map_of DURATION_UNIT u of
                   Some k \<Rightarrow> Inr (DurationAtom (n * k))
                 | None \<Rightarrow> Inl (Raised KeyError)))
           | None \<Rightarrow> Inl (ParseError pos ''bad_time_value''))"

fun build_time :: "string \<Rightarrow> time_atom \<Rightarrow> FilterValue" where
  "build_time opr (DateAtom d) = DateValue opr d None"
| "build_time opr (DurationAtom n) = DurationValue opr n None"

fun build_time_range :: "time_atom \<Rightarrow> time_atom \<Rightarrow> nat \<Rightarrow> query_error + FilterValue" where
  "build_time_range (DateAtom a) (DateAtom b) pos = Inr (DateValue ''range'' a (Some b))"
| "build_time_range (DurationAtom a) (DurationAtom b) pos = Inr (DurationValue ''range'' a (Some b))"
| "build_time_range _ _ pos = Inl (ParseError pos ''bad_range'')"

definition parse_time :: "string \<Rightarrow> nat \<Rightarrow> query_error + FilterValue" where
  "parse_time val pos = (case read_comparator val of
       (None, _) \<Rightarrow>
         if contains ''..'' val
         then bind_res (range_parts val pos) (\<lambda>(a, b).
                bind_res (parse_time_atom a pos) (\<lambda>v1.
                bind_res (parse_time_atom b pos) (\<lambda>v2. build_time_range v1 v2 pos)))
         else bind_res (parse_time_atom val pos) (\<lambda>v. Inr (build_time ''='' v))
     | (Some opr, rest) \<Rightarrow>
         if contains ''..'' rest then Inl (ParseError pos ''bad_range'')
         else bind_res (parse_time_atom rest pos) (\<lambda>v. Inr (build_time opr v)))"

definition parse_meta_value :: "string \<Rightarrow> nat \<Rightarrow> query_error + FilterValue" where
  "parse_meta_value val pos = (case read_comparator val of
       (None, _) \<Rightarrow>
         if contains ''..'' val
         then bind_res (range_parts val pos) (\<lambda>(a, b). Inr (MetaValue ''range'' a (Some b)))
         else Inr (MetaValue ''='' val None)
     | (Some opr, rest) \<Rightarrow>
         if contains ''..'' rest then Inl (ParseError pos ''bad_range'')
         else if rest = [] then Inl (ParseError pos ''empty_value'')
         else Inr (MetaValue opr rest None))"

definition is_dynamic_key :: "string \<Rightarrow> bool" where
  "is_dynamic_key key = (startswith key META_PREFIX \<or> startswith key CF_PREFIX)"

definition validate_dynamic_key :: "string \<Rightarrow> nat \<Rightarrow> query_error + unit" where
  "validate_dynamic_key key pos =
     (let (pre, code) = (if startswith key META_PREFIX then (META_PREFIX, ''bad_meta_key'')
                         else (CF_PREFIX, ''bad_cf_key''));
          sub = drop (length pre) key
      in if sub = [] \<or> length sub > MAX_DYNAMIC_KEY_LEN \<or> \<not> dynamic_key_re sub
         then Inl (ParseError pos code) else Inr ())"

definition parse_list_part :: "nat \<Rightarrow> string \<Rightarrow> query_error + string" where
  "parse_list_part pos part = (let p = lstrip (\<lambda>c. c = CHR ''.'') part in
     if p = [] then Inl (ParseError pos ''empty_value'') else Inr p)"

definition parse_filter_value :: "string \<Rightarrow> string \<Rightarrow> nat \<Rightarrow> query_error + FilterValue" where
  "parse_filter_value key val0 pos =
     (if val0 = [] then Inl (ParseError pos ''empty_value'')
      else if is_dynamic_key key then parse_meta_value val0 pos
      else let val = (if key \<in> set LOWER_KEYS then lower val0 else val0)
        in if key \<in> set LIST_KEYS
           then bind_res (map_res (parse_list_part pos) (split_on (CHR '';'') val))
                  (\<lambda>out. Inr (ListValue out))
           else if key \<in> set HASH_KEYS
           then (if hex_re val then Inr (StringValue val) else Inl (ParseError pos ''bad_hash''))
           else if key \<in> set SIZE_KEYS then parse_size val pos
           else if key \<in> set TIME_KEYS then parse_time val pos
           else Inr (StringValue val))"

section \<open>Lexer and parser\<close>

text \<open>A lexed character carries whether it was quoted and its index in the input.\<close>

type_synonym qchar = "char \<times> bool \<times> nat"

text \<open>
  The loop of \<open>_lex\<close>: index \<open>i\<close>, current token \<open>cur\<close>, quote flag, start of the open quote, tokens
  so far. Inside a quote \<open>cur\<close> is never \<open>None\<close>, because the opening quote sets it.
\<close>

fun lex_loop :: "string \<Rightarrow> nat \<Rightarrow> qchar list option \<Rightarrow> bool \<Rightarrow> nat \<Rightarrow> qchar list list
    \<Rightarrow> query_error + qchar list list" where
  "lex_loop [] i cur in_quote quote_start tokens =
     (if in_quote then Inl (ParseError quote_start ''unterminated_quote'')
      else Inr (case cur of None \<Rightarrow> tokens | Some c \<Rightarrow> tokens @ [c]))"
| "lex_loop (c # s) i cur in_quote quote_start tokens =
     (if in_quote then
        (if c = CHR 0x22 then lex_loop s (Suc i) cur False quote_start tokens
         else lex_loop s (Suc i)
                (Some ((case cur of None \<Rightarrow> [] | Some cs \<Rightarrow> cs) @ [(c, True, i)])) True quote_start tokens)
      else if c = CHR 0x22 then
        lex_loop s (Suc i) (Some (case cur of None \<Rightarrow> [] | Some cs \<Rightarrow> cs)) True i tokens
      else if is_space c then
        (case cur of
           None \<Rightarrow> lex_loop s (Suc i) None False quote_start tokens
         | Some cs \<Rightarrow> lex_loop s (Suc i) None False quote_start (tokens @ [cs]))
      else lex_loop s (Suc i)
             (Some ((case cur of None \<Rightarrow> [] | Some cs \<Rightarrow> cs) @ [(c, False, i)])) False quote_start tokens)"

definition lex :: "string \<Rightarrow> query_error + qchar list list" where
  "lex s = lex_loop s 0 None False 0 []"

datatype node = TermNode Term | FilterNode Filter

definition chars :: "qchar list \<Rightarrow> string" where
  "chars ps = map fst ps"

abbreviation unq :: "qchar \<Rightarrow> bool" where
  "unq p \<equiv> \<not> fst (snd p)"

text \<open>The prefix markers: at most one negation, then at most one fuzzy marker with its position.\<close>

definition read_neg :: "qchar list \<Rightarrow> bool \<times> qchar list" where
  "read_neg ps = (case ps of
       [] \<Rightarrow> (False, ps)
     | p # r \<Rightarrow> if unq p \<and> fst p \<in> {CHR ''-'', CHR ''!''} then (True, r) else (False, ps))"

definition read_fuzzy :: "qchar list \<Rightarrow> nat option \<times> qchar list" where
  "read_fuzzy ps = (case ps of
       [] \<Rightarrow> (None, ps)
     | p # r \<Rightarrow> if unq p \<and> fst p = CHR ''~'' then (Some (snd (snd p)), r) else (None, ps))"

text \<open>Key characters before and value characters after the first unquoted colon.\<close>

definition is_colon :: "qchar \<Rightarrow> bool" where
  "is_colon p = (fst p = CHR '':'' \<and> unq p)"

definition split_colon :: "qchar list \<Rightarrow> (qchar list \<times> qchar \<times> qchar list) option" where
  "split_colon ps = (case dropWhile (\<lambda>p. \<not> is_colon p) ps of
       [] \<Rightarrow> None
     | c # v \<Rightarrow> Some (takeWhile (\<lambda>p. \<not> is_colon p) ps, c, v))"

definition mk_term :: "qchar list \<Rightarrow> bool \<Rightarrow> bool \<Rightarrow> node option" where
  "mk_term rest negated fuzzy = (if chars rest = [] then None
     else Some (TermNode \<lparr>term_value = chars rest, term_negated = negated, term_fuzzy = fuzzy\<rparr>))"

definition parse_filter_token ::
  "bool \<Rightarrow> nat option \<Rightarrow> qchar list \<Rightarrow> qchar \<Rightarrow> qchar list \<Rightarrow> query_error + node option" where
  "parse_filter_token negated fuzzy key_chars colon vchars =
     (case fuzzy of
        Some fpos \<Rightarrow> Inl (ParseError fpos ''fuzzy_on_filter'')
      | None \<Rightarrow>
          let key = chars key_chars; dyn = is_dynamic_key key;
              key_pos = snd (snd (hd key_chars));
              store_key = (if dyn then key else lower key)
          in bind_res (if dyn then validate_dynamic_key key key_pos else Inr ()) (\<lambda>_.
             bind_res (parse_filter_value store_key (chars vchars) (Suc (snd (snd colon)))) (\<lambda>fv.
             Inr (Some (FilterNode \<lparr>filter_key = store_key, filter_value = fv,
                filter_negated = negated\<rparr>)))))"

definition parse_token :: "qchar list \<Rightarrow> query_error + node option" where
  "parse_token pairs =
     (let (negated, r1) = read_neg pairs; (fuzzy, rest) = read_fuzzy r1
      in case split_colon rest of
           Some (key_chars, colon, vchars) \<Rightarrow>
             if key_chars \<noteq> [] \<and> list_all unq key_chars
                \<and> (lower (chars key_chars) \<in> set KEYS \<or> is_dynamic_key (chars key_chars))
             then parse_filter_token negated fuzzy key_chars colon vchars
             else Inr (mk_term rest negated (fuzzy \<noteq> None))
         | None \<Rightarrow> Inr (mk_term rest negated (fuzzy \<noteq> None)))"

fun add_node :: "node option \<Rightarrow> Query \<Rightarrow> Query" where
  "add_node None q = q"
| "add_node (Some (FilterNode f)) q = q\<lparr>query_filters := query_filters q @ [f]\<rparr>"
| "add_node (Some (TermNode t)) q = q\<lparr>query_terms := query_terms q @ [t]\<rparr>"

fun parse_tokens :: "qchar list list \<Rightarrow> Query \<Rightarrow> query_error + Query" where
  "parse_tokens [] q = Inr q"
| "parse_tokens (ps # pss) q =
     bind_res (parse_token ps) (\<lambda>n. parse_tokens pss (add_node n q))"

definition empty_query :: Query where
  "empty_query = \<lparr>query_terms = [], query_filters = []\<rparr>"

definition parse :: "string \<Rightarrow> query_error + Query" where
  "parse s = bind_res (lex s) (\<lambda>toks. parse_tokens toks empty_query)"

section \<open>What the lexer and the value parsers can report\<close>

definition ERROR_CODES :: "string list" where
  "ERROR_CODES = [''unterminated_quote'', ''empty_value'', ''fuzzy_on_filter'', ''bad_size_value'',
     ''bad_size_suffix'', ''bad_time_value'', ''bad_date'', ''bad_hash'', ''bad_range'',
     ''bad_meta_key'', ''bad_cf_key'']"

text \<open>
  A lexed token is well placed when each of its characters is an unescaped input character at the
  recorded index.
\<close>

definition placed :: "nat \<Rightarrow> char set \<Rightarrow> qchar list \<Rightarrow> bool" where
  "placed n S ps = (\<forall>p \<in> set ps. snd (snd p) < n \<and> fst p \<in> S)"

lemma placed_simps [simp]:
  "placed n S []"
  "placed n S [(c, q, i)] \<longleftrightarrow> i < n \<and> c \<in> S"
  "placed n S (ps @ [(c, q, i)]) \<longleftrightarrow> placed n S ps \<and> i < n \<and> c \<in> S"
  by (auto simp: placed_def)

lemma lex_loop_placed:
  assumes "lex_loop s i cur iq qs toks = Inr out" and "i + length s \<le> n"
    and "\<forall>c \<in> set s. c \<noteq> CHR 0x22 \<longrightarrow> c \<in> S"
    and "\<forall>ps \<in> set toks. placed n S ps" and "\<forall>ps. cur = Some ps \<longrightarrow> placed n S ps"
  shows "\<forall>ps \<in> set out. placed n S ps"
  using assms
proof (induction s i cur iq qs toks rule: lex_loop.induct)
  case (1 i cur in_quote quote_start tokens)
  then show ?case by (auto split: if_splits option.splits)
next
  case (2 c s i cur in_quote quote_start tokens)
  then show ?case
    by (cases cur) (simp_all split: if_splits)
qed

lemma lex_loop_error:
  assumes "lex_loop s i cur iq qs toks = Inl e" and "i + length s \<le> n" and "iq \<Longrightarrow> qs < n"
  shows "\<exists>p < n. e = ParseError p ''unterminated_quote''"
  using assms
proof (induction s i cur iq qs toks rule: lex_loop.induct)
  case (1 i cur in_quote quote_start tokens)
  then show ?case by (auto split: if_splits)
next
  case (2 c s i cur in_quote quote_start tokens)
  then show ?case
    by (cases cur) (simp_all split: if_splits)
qed

lemma lex_loop_length:
  assumes "lex_loop s i cur iq qs toks = Inr out"
  shows "length (concat out) \<le>
    length s + length (concat toks) + (case cur of None \<Rightarrow> 0 | Some c \<Rightarrow> length c)"
  using assms
proof (induction s i cur iq qs toks rule: lex_loop.induct)
  case (1 i cur in_quote quote_start tokens)
  then show ?case by (auto split: if_splits option.splits)
next
  case (2 c s i cur in_quote quote_start tokens)
  then show ?case
    by (cases cur) (auto split: if_splits)
qed

lemma member_length_concat: "x \<in> set xss \<Longrightarrow> length x \<le> length (concat xss)"
  by (induction xss) auto

lemma lex_placed:
  assumes "lex s = Inr toks" and "ps \<in> set toks"
  shows "placed (length s) (set s - {CHR 0x22}) ps" and "length ps \<le> length s"
proof -
  show "placed (length s) (set s - {CHR 0x22}) ps"
    using lex_loop_placed [of s 0 None False 0 "[]" toks "length s" "set s - {CHR 0x22}"] assms
    by (auto simp: lex_def)
  from assms(1) have "length (concat toks) \<le> length s"
    using lex_loop_length [of s 0 None False 0 "[]" toks] by (simp add: lex_def)
  with member_length_concat [OF assms(2)] show "length ps \<le> length s" by simp
qed

subsection \<open>Ranges\<close>

lemma split_str_not_Nil [simp]: "split_str sep s \<noteq> []"
  by (subst split_str.simps) simp

lemma join_split_str [simp]: "sep \<noteq> [] \<Longrightarrow> join sep (split_str sep s) = s"
proof (induction sep s rule: split_str.induct)
  case (1 sep s)
  then show ?case
    by (subst split_str.simps)
      (auto simp: join_Cons join_cons_hd startswith_iff)
qed

lemma range_parts_Inr:
  "range_parts val pos = Inr (a, b) \<longleftrightarrow>
     split_str ''..'' val = [a, b] \<and> a \<noteq> [] \<and> b \<noteq> []"
  by (auto simp: range_parts_def split: list.splits if_splits)

lemma range_parts_Inl: "range_parts val pos = Inl e \<Longrightarrow> e = ParseError pos ''bad_range''"
  by (auto simp: range_parts_def split: list.splits if_splits)

lemma range_parts_join: "range_parts val pos = Inr (a, b) \<Longrightarrow> val = a @ ''..'' @ b"
  using join_split_str [of "''..''" val] by (simp add: range_parts_Inr)

lemma read_comparator_rest:
  "read_comparator val = (opr, rest) \<Longrightarrow> set rest \<subseteq> set val \<and> length rest \<le> length val"
  by (auto simp: read_comparator_def split: if_splits dest: in_set_dropD)

lemma read_comparator_None: "read_comparator val = (None, rest) \<Longrightarrow> rest = val"
  by (auto simp: read_comparator_def split: if_splits)

subsection \<open>Errors of the value parsers\<close>

text \<open>Only these inputs make \<open>int()\<close> fail on a string that \<open>isdigit\<close> or \<open>\d+\<close> accepted.\<close>

definition int_trap :: "string \<Rightarrow> bool" where
  "int_trap s = ((\<exists>c \<in> set s. is_digit c \<and> \<not> is_decimal c) \<or> int_max_str_digits < length s)"

lemma int_trap_mono: "int_trap s \<Longrightarrow> set s \<subseteq> set t \<Longrightarrow> length s \<le> length t \<Longrightarrow> int_trap t"
  by (auto simp: int_trap_def)

definition reports :: "nat \<Rightarrow> string \<Rightarrow> query_error + 'a \<Rightarrow> bool" where
  "reports pos v r = (case r of
       Inr _ \<Rightarrow> True
     | Inl (ParseError p c) \<Rightarrow> p = pos \<and> c \<in> set ERROR_CODES
     | Inl (Raised e) \<Rightarrow> int_trap v)"

lemma reports_simps [simp]:
  "reports pos v (Inr x)"
  "reports pos v (Inl (ParseError p c)) \<longleftrightarrow> p = pos \<and> c \<in> set ERROR_CODES"
  "reports pos v (Inl (Raised e)) \<longleftrightarrow> int_trap v"
  by (simp_all add: reports_def)

lemma reports_bind:
  "reports pos v r \<Longrightarrow> (\<And>x. r = Inr x \<Longrightarrow> reports pos v (f x)) \<Longrightarrow> reports pos v (bind_res r f)"
  by (cases r) (auto simp: reports_def)

lemma reports_mono:
  "reports pos s r \<Longrightarrow> set s \<subseteq> set t \<Longrightarrow> length s \<le> length t \<Longrightarrow> reports pos t r"
  by (auto simp: reports_def int_trap_mono split: sum.splits query_error.splits)

lemma reports_py_int:
  assumes "list_all is_digit s" and "s \<noteq> []"
  shows "reports pos s (lift_exn (py_int s))"
  using assms
  by (fastforce simp: lift_exn_def py_int_def int_trap_def list_all_iff)

lemma reports_parse_size_num: "reports pos s (parse_size_num s pos)"
proof -
  have "reports pos s (lift_exn (py_int n))"
    if "n \<noteq> []" "list_all is_digit n" "n = s \<or> n = butlast s" for n
    using reports_py_int [of n pos] that
    by (auto intro: reports_mono dest: in_set_butlastD)
  then show ?thesis
    by (auto simp: parse_size_num_def Let_def ERROR_CODES_def intro!: reports_bind
        split: option.splits)
qed

lemma reports_parse_time_atom: "reports pos s (parse_time_atom s pos)"
proof -
  have "reports pos s (lift_exn (py_int ds))" if "duration_re s = Some (ds, u)" for ds u
  proof -
    from that have ds: "list_all is_decimal ds" "ds = butlast (chomp s)" "2 \<le> length (chomp s)"
      by (auto simp: duration_re_def Let_def split: if_splits)
    then have "length ds = length (chomp s) - 1" by simp
    with ds(3) have "ds \<noteq> []" by auto
    with ds have "reports pos ds (lift_exn (py_int ds))"
      by (intro reports_py_int) (auto simp: list_all_iff decimal_is_digit)
    moreover have "set ds \<subseteq> set s" "length ds \<le> length s"
      by (auto simp: ds(2) chomp_def dest!: in_set_butlastD split: if_splits)
    ultimately show ?thesis by (rule reports_mono)
  qed
  moreover have "\<exists>k. map_of DURATION_UNIT u = Some k" if "duration_re s = Some (ds, u)" for ds u
    using that by (auto simp: duration_re_def Let_def DURATION_UNIT_def split: if_splits)
  ultimately show ?thesis
    by (fastforce simp: parse_time_atom_def ERROR_CODES_def intro!: reports_bind
        split: option.splits)
qed

lemma reports_range:
  assumes "\<And>a b. set a \<union> set b \<subseteq> set val \<Longrightarrow> length a \<le> length val \<Longrightarrow> length b \<le> length val
    \<Longrightarrow> reports pos val (f (a, b))"
  shows "reports pos val (bind_res (range_parts val pos) f)"
proof (rule reports_bind)
  show "reports pos val (range_parts val pos)"
    by (cases "range_parts val pos") (auto dest: range_parts_Inl simp: ERROR_CODES_def)
  fix x assume "range_parts val pos = Inr x"
  then show "reports pos val (f x)"
    using assms [of "fst x" "snd x"] range_parts_join [of val pos "fst x" "snd x"] by auto
qed

lemma reports_parse_size: "reports pos val (parse_size val pos)"
proof -
  have num: "reports pos val (parse_size_num x pos)" if "set x \<subseteq> set val" "length x \<le> length val" for x
    using reports_parse_size_num that by (rule reports_mono)
  show ?thesis
  proof (cases "read_comparator val")
    case (Pair opr rest)
    show ?thesis
    proof (cases opr)
      case None
      with Pair show ?thesis
        by (auto simp: parse_size_def intro!: reports_range reports_bind num)
    next
      case (Some opr')
      with Pair read_comparator_rest [OF Pair] show ?thesis
        by (auto simp: parse_size_def ERROR_CODES_def intro!: reports_bind num)
    qed
  qed
qed

lemma reports_build_time_range: "reports pos val (build_time_range a b pos)"
  by (cases "(a, b, pos)" rule: build_time_range.cases) (auto simp: ERROR_CODES_def)

lemma reports_parse_time: "reports pos val (parse_time val pos)"
proof -
  have atom: "reports pos val (parse_time_atom x pos)"
    if "set x \<subseteq> set val" "length x \<le> length val" for x
    using reports_parse_time_atom that by (rule reports_mono)
  show ?thesis
  proof (cases "read_comparator val")
    case (Pair opr rest)
    show ?thesis
    proof (cases opr)
      case None
      with Pair show ?thesis
        by (auto simp: parse_time_def intro!: reports_range reports_bind atom reports_build_time_range)
    next
      case (Some opr')
      with Pair read_comparator_rest [OF Pair] show ?thesis
        by (auto simp: parse_time_def ERROR_CODES_def intro!: reports_bind atom)
    qed
  qed
qed

lemma reports_parse_meta: "reports pos val (parse_meta_value val pos)"
  by (auto simp: parse_meta_value_def ERROR_CODES_def intro!: reports_range split: prod.split option.split)

lemma map_res_error: "map_res f xs = Inl e \<Longrightarrow> \<exists>x \<in> set xs. f x = Inl e"
  by (induction xs) (auto simp: bind_res_Inl)

lemma reports_parse_list: "reports pos val (map_res (parse_list_part pos) xs)"
proof (cases "map_res (parse_list_part pos) xs")
  case (Inl e)
  then obtain x where "parse_list_part pos x = Inl e" by (blast dest: map_res_error)
  with Inl show ?thesis by (auto simp: parse_list_part_def Let_def ERROR_CODES_def split: if_splits)
qed simp

lemma reports_parse_filter_value: "reports pos val (parse_filter_value key val pos)"
proof -
  have "lower val = val" if "key \<notin> set LOWER_KEYS" "key \<in> set LOWER_KEYS"
    using that by simp
  moreover have "key \<notin> set LOWER_KEYS" if "key \<in> set SIZE_KEYS \<or> key \<in> set TIME_KEYS"
    using that by (auto simp: vocab_defs)
  ultimately show ?thesis
    by (auto simp: parse_filter_value_def Let_def ERROR_CODES_def
        intro!: reports_bind reports_parse_list reports_parse_size reports_parse_time reports_parse_meta)
qed

subsection \<open>Errors of the parser\<close>

lemma read_neg_rest: "read_neg ps = (b, r) \<Longrightarrow> set r \<subseteq> set ps \<and> length r \<le> length ps"
  by (auto simp: read_neg_def split: list.splits if_splits)

lemma read_fuzzy_rest:
  "read_fuzzy ps = (f, r) \<Longrightarrow> set r \<subseteq> set ps \<and> length r \<le> length ps
     \<and> (\<forall>k. f = Some k \<longrightarrow> (\<exists>p \<in> set ps. k = snd (snd p)))"
  by (auto simp: read_fuzzy_def split: list.splits if_splits)

lemma split_colon_Some:
  assumes "split_colon ps = Some (k, c, v)"
  shows "ps = k @ c # v" and "is_colon c" and "\<forall>p \<in> set k. \<not> is_colon p"
proof -
  have "ps = takeWhile (\<lambda>p. \<not> is_colon p) ps @ dropWhile (\<lambda>p. \<not> is_colon p) ps" by simp
  with assms show "ps = k @ c # v"
    by (auto simp: split_colon_def simp del: takeWhile_dropWhile_id split: list.splits)
  from assms show "is_colon c"
    by (auto simp: split_colon_def split: list.splits dest!: hd_dropWhile [of "\<lambda>p. \<not> is_colon p" ps, simplified])
      (metis dropWhile_eq_Cons_conv)
  from assms show "\<forall>p \<in> set k. \<not> is_colon p"
    by (auto simp: split_colon_def split: list.splits dest: set_takeWhileD)
qed

definition query_reports :: "nat \<Rightarrow> string \<Rightarrow> query_error \<Rightarrow> bool" where
  "query_reports n s e = (case e of
       ParseError p c \<Rightarrow> p \<le> n \<and> c \<in> set ERROR_CODES
     | Raised x \<Rightarrow> int_trap s)"

lemma reports_query:
  "reports pos v r \<Longrightarrow> r = Inl e \<Longrightarrow> pos \<le> n \<Longrightarrow> set v \<subseteq> set s \<Longrightarrow> length v \<le> length s
     \<Longrightarrow> query_reports n s e"
  by (auto simp: reports_def query_reports_def split: query_error.splits intro: int_trap_mono)

lemma parse_filter_token_reports:
  assumes pl: "placed n S (k @ c # v)" and "k \<noteq> []"
    and fz: "\<And>i. fuzzy = Some i \<Longrightarrow> i < n"
    and err: "parse_filter_token neg fuzzy k c v = Inl e"
    and sub: "set (chars v) \<subseteq> set s" "length v \<le> length s"
  shows "query_reports n s e"
proof (cases fuzzy)
  case (Some i)
  with err fz [OF Some] show ?thesis
    by (auto simp: parse_filter_token_def query_reports_def ERROR_CODES_def)
next
  case None
  let ?key = "chars k"
  let ?store = "if is_dynamic_key ?key then ?key else lower ?key"
  from pl \<open>k \<noteq> []\<close> have kpos: "snd (snd (hd k)) < n" and cpos: "snd (snd c) < n"
    by (auto simp: placed_def)
  from err None consider
      "validate_dynamic_key ?key (snd (snd (hd k))) = Inl e"
    | "parse_filter_value ?store (chars v) (Suc (snd (snd c))) = Inl e"
    by (auto simp: parse_filter_token_def Let_def bind_res_Inl split: if_splits)
  then show ?thesis
  proof cases
    case 1
    with kpos show ?thesis
      by (auto simp: validate_dynamic_key_def Let_def query_reports_def ERROR_CODES_def
          split: if_splits)
  next
    case 2
    with cpos sub show ?thesis
      using reports_query [OF reports_parse_filter_value 2, of n s]
      by (simp add: chars_def)
  qed
qed

lemma parse_token_reports:
  assumes pl: "placed n S ps" and sub: "set (chars ps) \<subseteq> set s" "length ps \<le> length s"
    and err: "parse_token ps = Inl e"
  shows "query_reports n s e"
proof -
  obtain neg r1 where rn: "read_neg ps = (neg, r1)" by fastforce
  obtain fuzzy rest where rf: "read_fuzzy r1 = (fuzzy, rest)" by fastforce
  from err rn rf obtain k c v where sc: "split_colon rest = Some (k, c, v)"
    and tok: "parse_filter_token neg fuzzy k c v = Inl e" and kne: "k \<noteq> []"
    by (auto simp: parse_token_def split: option.splits if_splits)
  from read_neg_rest [OF rn] read_fuzzy_rest [OF rf] split_colon_Some(1) [OF sc]
  have s: "set (k @ c # v) \<subseteq> set ps" and len: "length v \<le> length ps"
    and fz: "\<And>i. fuzzy = Some i \<Longrightarrow> \<exists>p \<in> set ps. i = snd (snd p)"
    by auto
  from s pl have "placed n S (k @ c # v)" by (auto simp: placed_def)
  moreover have "\<And>i. fuzzy = Some i \<Longrightarrow> i < n" using fz pl by (auto simp: placed_def)
  moreover have "set (chars v) \<subseteq> set s" using s sub by (auto simp: chars_def)
  moreover have "length v \<le> length s" using len sub by simp
  ultimately show ?thesis using parse_filter_token_reports tok kne by blast
qed

lemma parse_tokens_error:
  "parse_tokens pss q = Inl e \<Longrightarrow> \<exists>ps \<in> set pss. parse_token ps = Inl e"
  by (induction pss arbitrary: q) (auto simp: bind_res_Inl)

lemma parse_reports:
  assumes "parse s = Inl e"
  shows "query_reports (length s) s e"
proof (cases "lex s")
  case (Inl e')
  with assms lex_loop_error [of s 0 None False 0 "[]" e' "length s"] show ?thesis
    by (auto simp: parse_def lex_def query_reports_def ERROR_CODES_def)
next
  case (Inr toks)
  with assms obtain ps where ps: "ps \<in> set toks" "parse_token ps = Inl e"
    by (auto simp: parse_def dest: parse_tokens_error)
  have pl: "placed (length s) (set s - {CHR 0x22}) ps" and len: "length ps \<le> length s"
    using lex_placed [OF Inr ps(1)] by auto
  from pl have "set (chars ps) \<subseteq> set s" by (auto simp: placed_def chars_def)
  with pl len ps(2) show ?thesis by (blast intro: parse_token_reports)
qed

section \<open>Printing and parsing back\<close>

text \<open>Successful parses do not depend on positions.\<close>

lemma range_parts_pos: "range_parts v p = Inr x \<Longrightarrow> range_parts v p' = Inr x"
  by (cases x) (simp add: range_parts_Inr)

lemma parse_size_num_pos: "parse_size_num v p = Inr x \<Longrightarrow> parse_size_num v p' = Inr x"
  by (auto simp: parse_size_num_def Let_def split: if_splits option.splits)

lemma parse_time_atom_pos: "parse_time_atom v p = Inr x \<Longrightarrow> parse_time_atom v p' = Inr x"
  by (auto simp: parse_time_atom_def split: if_splits option.splits)

subsection \<open>What the parser guarantees of a value\<close>

definition OPS :: "string list" where
  "OPS = [''>='', ''<='', ''>'', ''<'', ''='']"

definition op_hi :: "string \<Rightarrow> 'a option \<Rightarrow> bool" where
  "op_hi opr hi = (if opr = ''range'' then hi \<noteq> None else opr \<in> set OPS \<and> hi = None)"

definition iso_date :: "string \<Rightarrow> bool" where
  "iso_date s = (date_re s \<and> fromisoformat_ok s)"

definition ops_chars :: string where "ops_chars = ''<>=''"

fun value_ok :: "string \<Rightarrow> FilterValue \<Rightarrow> bool" where
  "value_ok key (StringValue v) = (key \<in> set [''kind'', ''group'', ''path'', ''tag'', ''hash'']
     \<and> v \<noteq> [] \<and> (key \<in> set LOWER_KEYS \<longrightarrow> lower v = v) \<and> (key = ''hash'' \<longrightarrow> hex_re v))"
| "value_ok key (ListValue vs) = (key = ''ext'' \<and> vs \<noteq> [] \<and>
     (\<forall>v \<in> set vs. v \<noteq> [] \<and> hd v \<noteq> CHR ''.'' \<and> CHR '';'' \<notin> set v \<and> lower v = v))"
| "value_ok key (SizeValue opr lo hi) = (key = ''size'' \<and> op_hi opr hi)"
| "value_ok key (DurationValue opr lo hi) = (key \<in> set TIME_KEYS \<and> op_hi opr hi)"
| "value_ok key (DateValue opr lo hi) =
     (key \<in> set TIME_KEYS \<and> op_hi opr hi \<and> iso_date lo \<and> (\<forall>h. hi = Some h \<longrightarrow> iso_date h))"
| "value_ok key (MetaValue opr lo hi) = (is_dynamic_key key \<and> op_hi opr hi \<and> lo \<noteq> [] \<and>
     (case hi of
        Some h \<Rightarrow> h \<noteq> [] \<and> split_str ''..'' (lo @ ''..'' @ h) = [lo, h] \<and> hd lo \<notin> set ops_chars
      | None \<Rightarrow> \<not> contains ''..'' lo \<and> (opr \<in> set [''>'', ''<''] \<longrightarrow> hd lo \<noteq> CHR ''='')))"

definition value_text :: "FilterValue \<Rightarrow> string" where
  "value_text fv = (case fv of StringValue v \<Rightarrow> v | _ \<Rightarrow> str_value fv)"

text \<open>
  The additional conditions under which a value prints faithfully: list items and metadata operands
  are printed without quotes, so they must hold no white space; an explicit \<open>=\<close> is dropped, so its
  operand must not begin with a comparator; numbers must be printable and readable (4300 digits).
\<close>

definition num_printable :: "nat \<Rightarrow> bool" where
  "num_printable n = (length (dec_digits n) \<le> int_max_str_digits)"

abbreviation no_space :: "string \<Rightarrow> bool" where
  "no_space s \<equiv> \<forall>c \<in> set s. \<not> is_space c"

fun printable :: "FilterValue \<Rightarrow> bool" where
  "printable (StringValue v) = True"
| "printable (ListValue vs) = (\<forall>v \<in> set vs. no_space v)"
| "printable (SizeValue opr lo hi) = (num_printable lo \<and> (case hi of None \<Rightarrow> True | Some h \<Rightarrow> num_printable h))"
| "printable (DurationValue opr lo hi) = (num_printable lo \<and> (case hi of None \<Rightarrow> True | Some h \<Rightarrow> num_printable h))"
| "printable (DateValue opr lo hi) = True"
| "printable (MetaValue opr lo hi) = (no_space lo \<and> (case hi of None \<Rightarrow> True | Some h \<Rightarrow> no_space h)
     \<and> (opr = ''='' \<longrightarrow> hd lo \<notin> set ops_chars))"

declare printable.simps(3,4,6) [simp del]

lemma printable_ranged [simp]:
  "printable (SizeValue opr lo hi) = (num_printable lo \<and> (\<forall>h. hi = Some h \<longrightarrow> num_printable h))"
  "printable (DurationValue opr lo hi) = (num_printable lo \<and> (\<forall>h. hi = Some h \<longrightarrow> num_printable h))"
  "printable (MetaValue opr a b) = (no_space a \<and> (\<forall>h. b = Some h \<longrightarrow> no_space h)
     \<and> (opr = ''='' \<longrightarrow> hd a \<notin> set ops_chars))"
  by (auto simp: printable.simps(3,4,6) split: option.splits)

subsection \<open>Comparators and ranges\<close>

lemma read_comparator_cases:
  assumes "read_comparator val = (opr, rest)"
  obtains (none) "opr = None" "rest = val" "val = [] \<or> hd val \<notin> set ops_chars"
    | (some) o' where "opr = Some o'" "o' \<in> set OPS" "val = o' @ rest"
        "o' \<in> set [''>'', ''<''] \<Longrightarrow> rest = [] \<or> hd rest \<noteq> CHR ''=''"
proof (cases opr)
  case None
  with assms have "rest = val" "take 1 val \<notin> set [''>'', ''<'', ''='']"
    by (auto simp: read_comparator_def split: if_splits)
  then have "val = [] \<or> hd val \<notin> set ops_chars"
    by (cases val) (auto simp: ops_chars_def)
  with None \<open>rest = val\<close> show ?thesis by (rule none)
next
  case (Some o')
  with assms have r: "val = o' @ rest" "o' \<in> set OPS"
    by (auto simp: read_comparator_def OPS_def split: if_splits
        intro!: append_take_drop_id [symmetric, of _ 1, simplified])
      (metis append_take_drop_id append_Cons append_Nil)+
  moreover have "rest = [] \<or> hd rest \<noteq> CHR ''=''" if "o' \<in> set [''>'', ''<'']"
    using assms Some r that
    by (cases rest) (auto simp: read_comparator_def split: if_splits)
  ultimately show ?thesis using Some some by blast
qed

lemma read_comparator_plain:
  "v \<noteq> [] \<Longrightarrow> hd v \<notin> set ops_chars \<Longrightarrow> read_comparator v = (None, v)"
  by (cases v; cases "tl v") (auto simp: read_comparator_def ops_chars_def)

lemma read_comparator_op:
  assumes "opr \<in> set OPS" "opr \<noteq> ''=''" "v \<noteq> []" "opr \<in> set [''>'', ''<''] \<longrightarrow> hd v \<noteq> CHR ''=''"
  shows "read_comparator (opr @ v) = (Some opr, v)"
proof -
  from assms(3) obtain c w where v: "v = c # w" by (cases v) auto
  from assms(1,2) have "opr = ''>='' \<or> opr = ''<='' \<or> opr = ''>'' \<or> opr = ''<''"
    by (auto simp: OPS_def)
  then show ?thesis using assms(4) by (elim disjE) (simp_all add: read_comparator_def v)
qed

lemma not_contains_dots: "CHR ''.'' \<notin> set v \<Longrightarrow> \<not> contains ''..'' v"
  by (induction v) (auto simp: startswith_Cons)

lemma contains_mid: "contains p (a @ p @ b)"
proof (induction a)
  case Nil
  then show ?case by (cases "p @ b") (auto simp: startswith_def dest: arg_cong [of _ _ "take (length p)"])
qed (simp add: startswith_iff)

lemma split_str_no_dots: "CHR ''.'' \<notin> set v \<Longrightarrow> split_str ''..'' v = [v]"
  by (induction v) (auto simp: py_simps)

lemma split_str_range:
  "CHR ''.'' \<notin> set a \<Longrightarrow> CHR ''.'' \<notin> set b \<Longrightarrow> split_str ''..'' (a @ ''..'' @ b) = [a, b]"
  by (induction a) (auto simp: py_simps split_str_no_dots)

lemma contains_split: "split_str ''..'' v = [a, b] \<Longrightarrow> contains ''..'' v"
  using join_split_str [of "''..''" v] contains_mid [of "''..''" a b] by simp

subsection \<open>Parsed values satisfy \<open>value_ok\<close>\<close>

lemma OPS_not_range: "opr \<in> set OPS \<Longrightarrow> opr \<noteq> ''range''"
  by (auto simp: OPS_def)

lemma op_hi_simps [simp]:
  "op_hi ''range'' (Some h)" "opr \<in> set OPS \<Longrightarrow> op_hi opr None" "op_hi ''='' None"
  by (auto simp: op_hi_def OPS_def)

lemma parse_size_ok: "parse_size val pos = Inr fv \<Longrightarrow> value_ok ''size'' fv"
  by (auto simp: parse_size_def bind_res_Inr split: prod.splits option.splits if_splits
      elim!: read_comparator_cases)

lemma parse_time_atom_ok: "parse_time_atom s pos = Inr (DateAtom d) \<Longrightarrow> iso_date d"
  by (auto simp: parse_time_atom_def iso_date_def bind_res_Inr split: if_splits option.splits)

lemma build_time_range_ok:
  "build_time_range a b pos = Inr fv \<Longrightarrow> key \<in> set TIME_KEYS \<Longrightarrow>
     (\<And>d. a = DateAtom d \<or> b = DateAtom d \<Longrightarrow> iso_date d) \<Longrightarrow> value_ok key fv"
  by (cases "(a, b, pos)" rule: build_time_range.cases) auto

lemma build_time_ok:
  "opr \<in> set OPS \<Longrightarrow> key \<in> set TIME_KEYS \<Longrightarrow> (\<And>d. a = DateAtom d \<Longrightarrow> iso_date d) \<Longrightarrow>
     value_ok key (build_time opr a)"
  by (cases a) auto

lemma parse_time_ok:
  assumes "parse_time val pos = Inr fv" and key: "key \<in> set TIME_KEYS"
  shows "value_ok key fv"
proof (cases "read_comparator val")
  case (Pair opr rest)
  have eq: "''='' \<in> set OPS" by (simp add: OPS_def)
  from Pair show ?thesis
  proof (cases rule: read_comparator_cases)
    case none
    with assms Pair show ?thesis
      by (fastforce simp: parse_time_def bind_res_Inr split: if_splits
          intro: build_time_ok [OF eq] build_time_range_ok parse_time_atom_ok)
  next
    case (some o')
    with assms Pair show ?thesis
      by (fastforce simp: parse_time_def bind_res_Inr split: if_splits
          intro: build_time_ok parse_time_atom_ok)
  qed
qed

lemma parse_meta_ok:
  assumes "parse_meta_value val pos = Inr fv" and key: "is_dynamic_key key" and "val \<noteq> []"
  shows "value_ok key fv"
proof (cases "read_comparator val")
  case (Pair opr rest)
  then show ?thesis
  proof (cases rule: read_comparator_cases)
    case none
    show ?thesis
    proof (cases "contains ''..'' val")
      case True
      with none assms Pair obtain a b where r: "range_parts val pos = Inr (a, b)"
        and fv: "fv = MetaValue ''range'' a (Some b)"
        by (auto simp: parse_meta_value_def bind_res_Inr)
      from range_parts_join [OF r] r none \<open>val \<noteq> []\<close> show ?thesis
        by (auto simp: fv key range_parts_Inr hd_append split: if_splits)
    next
      case False
      with none assms Pair show ?thesis by (auto simp: parse_meta_value_def)
    qed
  next
    case (some o')
    with assms Pair show ?thesis
      by (auto simp: parse_meta_value_def split: if_splits dest: OPS_not_range)
  qed
qed

lemma parse_list_part_ok:
  "parse_list_part pos part = Inr p \<Longrightarrow> p \<noteq> [] \<and> hd p \<noteq> CHR ''.'' \<and> set p \<subseteq> set part"
  using hd_dropWhile [of "\<lambda>c. c = CHR ''.''" part]
  by (auto simp: parse_list_part_def lstrip_def Let_def split: if_splits dest: set_dropWhileD)

lemma parse_list_ok:
  assumes "map_res (parse_list_part pos) (split_on (CHR '';'') (lower val)) = Inr out"
  shows "value_ok ''ext'' (ListValue out)"
proof -
  have l2: "list_all2 (\<lambda>x y. parse_list_part pos x = Inr y) (split_on (CHR '';'') (lower val)) out"
    using assms by (simp add: map_res_Inr_list_all2)
  have "p \<noteq> [] \<and> hd p \<noteq> CHR ''.'' \<and> CHR '';'' \<notin> set p \<and> lower p = p" if p: "p \<in> set out" for p
  proof -
    from map_res_source [OF assms p] obtain part where part:
      "part \<in> set (split_on (CHR '';'') (lower val))" "parse_list_part pos part = Inr p" by blast
    then have "set part \<subseteq> set (lower val)" by (intro set_split_on_subset)
    with parse_list_part_ok [OF part(2)] have "set p \<subseteq> set (lower val)" by auto
    then have "lower p = p" by (rule lower_subset [OF lower_idem])
    with parse_list_part_ok [OF part(2)] split_on_pieces [OF part(1)] show ?thesis by auto
  qed
  moreover have "out \<noteq> []" using l2 by auto
  ultimately show ?thesis by auto
qed

lemma KEYS_classes:
  "key \<in> set KEYS \<Longrightarrow> key \<in> set [''kind'', ''group'', ''path'', ''tag''] \<or> key = ''ext'' \<or> key = ''size''
    \<or> key \<in> set TIME_KEYS \<or> key = ''hash''"
proof -
  have "list_all (\<lambda>key. key \<in> set [''kind'', ''group'', ''path'', ''tag''] \<or> key = ''ext'' \<or> key = ''size''
    \<or> key \<in> set TIME_KEYS \<or> key = ''hash'') KEYS" by code_simp
  then show "key \<in> set KEYS \<Longrightarrow> ?thesis" by (simp only: list_all_iff simp_thms)
qed

lemma plain_keys:
  "key \<in> set [''kind'', ''group'', ''path'', ''tag''] \<Longrightarrow>
     key \<notin> set LIST_KEYS \<and> key \<notin> set HASH_KEYS \<and> key \<notin> set SIZE_KEYS \<and> key \<notin> set TIME_KEYS
     \<and> key \<noteq> ''hash'' \<and> \<not> is_dynamic_key key"
proof -
  have "list_all (\<lambda>key. key \<notin> set LIST_KEYS \<and> key \<notin> set HASH_KEYS \<and> key \<notin> set SIZE_KEYS
    \<and> key \<notin> set TIME_KEYS \<and> key \<noteq> ''hash'' \<and> \<not> is_dynamic_key key) [''kind'', ''group'', ''path'', ''tag'']"
    by code_simp
  then show "key \<in> set [''kind'', ''group'', ''path'', ''tag''] \<Longrightarrow> ?thesis" by (simp only: list_all_iff simp_thms)
qed

lemma time_keys:
  "key \<in> set TIME_KEYS \<Longrightarrow>
     key \<notin> set LOWER_KEYS \<and> key \<notin> set LIST_KEYS \<and> key \<notin> set HASH_KEYS \<and> key \<notin> set SIZE_KEYS
     \<and> \<not> is_dynamic_key key"
proof -
  have "list_all (\<lambda>key. key \<notin> set LOWER_KEYS \<and> key \<notin> set LIST_KEYS \<and> key \<notin> set HASH_KEYS
    \<and> key \<notin> set SIZE_KEYS \<and> \<not> is_dynamic_key key) TIME_KEYS" by code_simp
  then show "key \<in> set TIME_KEYS \<Longrightarrow> ?thesis" by (simp only: list_all_iff simp_thms)
qed

lemma single_keys:
  "\<not> is_dynamic_key ''ext''" "''ext'' \<in> set LOWER_KEYS" "''ext'' \<in> set LIST_KEYS"
  "\<not> is_dynamic_key ''size''" "''size'' \<notin> set LOWER_KEYS" "''size'' \<notin> set LIST_KEYS"
  "''size'' \<notin> set HASH_KEYS" "''size'' \<in> set SIZE_KEYS"
  "\<not> is_dynamic_key ''hash''" "''hash'' \<in> set LOWER_KEYS" "''hash'' \<notin> set LIST_KEYS"
  "''hash'' \<in> set HASH_KEYS"
  by code_simp+

lemma parse_filter_value_ok:
  assumes "parse_filter_value key val pos = Inr fv" and "key \<in> set KEYS \<or> is_dynamic_key key"
  shows "value_ok key fv"
proof (cases "is_dynamic_key key")
  case True
  with assms show ?thesis
    by (auto simp: parse_filter_value_def split: if_splits intro: parse_meta_ok)
next
  case False
  with assms have "key \<in> set KEYS" by simp
  then have "key \<in> set [''kind'', ''group'', ''path'', ''tag''] \<or> key = ''ext'' \<or> key = ''size''
    \<or> key \<in> set TIME_KEYS \<or> key = ''hash''"
    by (rule KEYS_classes)
  then consider "key \<in> set [''kind'', ''group'', ''path'', ''tag'']" | "key = ''ext''" | "key = ''size''"
    | "key \<in> set TIME_KEYS" | "key = ''hash''"
    by argo
  then show ?thesis
  proof cases
    case 1
    with plain_keys [OF 1] assms(1) show ?thesis
      by (simp add: parse_filter_value_def split: if_splits) auto
  next
    case 2
    with assms(1) show ?thesis
      by (auto simp: parse_filter_value_def single_keys bind_res_Inr simp del: value_ok.simps
          split: if_splits intro: parse_list_ok)
  next
    case 3
    with assms(1) show ?thesis
      by (auto simp: parse_filter_value_def single_keys simp del: value_ok.simps
          split: if_splits intro: parse_size_ok)
  next
    case 4
    with time_keys [OF 4] assms(1) show ?thesis
      by (simp add: parse_filter_value_def parse_time_ok split: if_splits)
  next
    case 5
    with assms(1) show ?thesis
      by (auto simp: parse_filter_value_def single_keys Let_def split: if_splits)
  qed
qed

subsection \<open>Reading back a printed value\<close>

lemma dec_digits_hd: "is_decimal (hd (dec_digits n))"
  using dec_digits_in [of "hd (dec_digits n)" n] by simp

lemma decimal_not_ops: "is_decimal c \<Longrightarrow> c \<notin> set ops_chars"
  by (auto simp: ops_chars_def is_decimal_def)

lemma decimal_not_dot: "is_decimal c \<Longrightarrow> c \<noteq> CHR ''.''"
  by (auto simp: is_decimal_def)

lemma dec_digits_no_dot: "CHR ''.'' \<notin> set (dec_digits n)"
  using dec_digits_in decimal_not_dot by blast

lemma py_int_dec_digits: "num_printable n \<Longrightarrow> py_int (dec_digits n) = Inr n"
  by (simp add: py_int_def num_printable_def dec_digits_decimal)

lemma parse_size_num_dec: "num_printable n \<Longrightarrow> parse_size_num (dec_digits n) pos = Inr n"
proof -
  assume n: "num_printable n"
  have "is_decimal (last (dec_digits n))" by (rule dec_digits_in [of _ n]) simp
  then have "\<not> is_alpha (last (dec_digits n))" by (rule decimal_not_alpha)
  moreover have "list_all is_digit (dec_digits n)"
    using dec_digits_in decimal_is_digit by (auto simp: list_all_iff)
  ultimately show ?thesis
    using py_int_dec_digits [OF n] by (simp add: parse_size_num_def Let_def SIZE_SUFFIX_def lift_exn_def)
qed

lemma chomp_snoc: "c \<noteq> newline \<Longrightarrow> chomp (s @ [c]) = s @ [c]"
  by (simp add: chomp_def)

lemma date_re_last: "date_re s \<Longrightarrow> is_decimal (last (chomp s))"
proof -
  assume d: "date_re s"
  then have "length (chomp s) = 10" "list_all is_decimal (drop 8 (chomp s))"
    by (auto simp: date_re_def Let_def)
  then have "drop 8 (chomp s) \<noteq> []" by auto
  then have "last (drop 8 (chomp s)) \<in> set (drop 8 (chomp s))" by (rule last_in_set)
  with \<open>list_all is_decimal (drop 8 (chomp s))\<close> \<open>drop 8 (chomp s) \<noteq> []\<close> show ?thesis
    by (auto simp: list_all_iff last_drop)
qed

lemma parse_time_atom_seconds:
  assumes "num_printable n"
  shows "parse_time_atom (dec_digits n @ ''s'') pos = Inr (DurationAtom n)"
proof -
  have ch: "chomp (dec_digits n @ ''s'') = dec_digits n @ ''s''"
    by (rule chomp_snoc) (simp add: newline_def char_cp_eq)
  have "\<not> date_re (dec_digits n @ ''s'')"
  proof
    assume "date_re (dec_digits n @ ''s'')"
    then have "is_decimal (CHR ''s'')" using date_re_last ch by fastforce
    then show False by (simp add: is_decimal_def)
  qed
  moreover have "duration_re (dec_digits n @ ''s'') = Some (dec_digits n, CHR ''s'')"
  proof -
    have "Suc 0 \<le> length (dec_digits n)" by (simp add: Suc_le_eq)
    then show ?thesis by (simp add: duration_re_def ch dec_digits_decimal Let_def)
  qed
  ultimately show ?thesis
    using py_int_dec_digits [OF assms] by (simp add: parse_time_atom_def lift_exn_def DURATION_UNIT_def)
qed

lemma iso_date_chars:
  assumes "iso_date s"
  shows "length s = 10" and "\<forall>c \<in> set s. is_decimal c \<or> c = CHR ''-''" and "is_decimal (hd s)"
proof -
  from assms show len: "length s = 10" by (simp add: iso_date_def fromisoformat_ok_def)
  from assms have "length (chomp s) = 10" by (simp add: iso_date_def date_re_def Let_def)
  with len have ch: "chomp s = s" by (auto simp: chomp_def split: if_splits)
  from len have s: "s = take 4 s @ s ! 4 # take 2 (drop 5 s) @ s ! 7 # drop 8 s"
    by (intro nth_equalityI) (auto simp: nth_append nth_Cons' numeral_eq_Suc less_Suc_eq)
  from assms have d: "list_all is_decimal (take 4 s)" "s ! 4 = CHR ''-''"
    "list_all is_decimal (take 2 (drop 5 s))" "s ! 7 = CHR ''-''" "list_all is_decimal (drop 8 s)"
    by (auto simp: iso_date_def date_re_def ch Let_def)
  then show "\<forall>c \<in> set s. is_decimal c \<or> c = CHR ''-''"
    by (subst s) (auto simp: list_all_iff)
  from len have "hd s = hd (take 4 s)" "take 4 s \<noteq> []" by (cases s; auto)+
  with d(1) show "is_decimal (hd s)" by (metis list_all_iff hd_in_set)
qed

lemma iso_date_plain:
  assumes "iso_date s"
  shows "CHR ''.'' \<notin> set s" and "no_space s" and "CHR 0x22 \<notin> set s" and "s \<noteq> []"
    and "hd s \<notin> set ops_chars"
proof -
  note c = iso_date_chars [OF assms]
  show "s \<noteq> []" using c(1) by auto
  show "hd s \<notin> set ops_chars" using c(3) by (rule decimal_not_ops)
  show "CHR ''.'' \<notin> set s" using c(2) by (auto simp: is_decimal_def)
  show "CHR 0x22 \<notin> set s" using c(2) by (auto simp: is_decimal_def)
  have "\<not> is_space (CHR ''-'')" by (simp add: is_space_def)
  then show "no_space s" using c(2) decimal_not_space by blast
qed

lemma parse_time_atom_date: "iso_date s \<Longrightarrow> parse_time_atom s pos = Inr (DateAtom s)"
  using iso_date_plain(4) [of s] by (auto simp: parse_time_atom_def iso_date_def)

text \<open>One lemma for every single operand: an operator prefix is read back, \<open>=\<close> is implicit.\<close>

lemma op_prefix_read:
  assumes "opr \<in> set OPS" "v \<noteq> []" "hd v \<notin> set ops_chars"
  shows "read_comparator (op_prefix opr @ v) = (if opr = ''='' then None else Some opr, v)"
proof (cases "opr = ''=''")
  case True
  then show ?thesis using read_comparator_plain [of v] assms by (simp add: op_prefix_def)
next
  case False
  moreover have "hd v \<noteq> CHR ''=''" using assms(3) by (auto simp: ops_chars_def)
  ultimately show ?thesis using read_comparator_op [of opr v] assms by (simp add: op_prefix_def)
qed

lemma op_hi_cases:
  assumes "op_hi opr hi"
  obtains (range) h where "opr = ''range''" "hi = Some h" | (single) "opr \<in> set OPS" "opr \<noteq> ''range''" "hi = None"
  using assms by (auto simp: op_hi_def split: if_splits)

lemma range_read:
  assumes "CHR ''.'' \<notin> set a" "CHR ''.'' \<notin> set b" "a \<noteq> []" "b \<noteq> []" "hd a \<notin> set ops_chars"
  shows "read_comparator (a @ ''..'' @ b) = (None, a @ ''..'' @ b)"
    and "contains ''..'' (a @ ''..'' @ b)" and "range_parts (a @ ''..'' @ b) pos = Inr (a, b)"
proof -
  show "read_comparator (a @ ''..'' @ b) = (None, a @ ''..'' @ b)"
    using assms by (intro read_comparator_plain) (auto simp: hd_append)
  show "contains ''..'' (a @ ''..'' @ b)" by (rule contains_mid)
  show "range_parts (a @ ''..'' @ b) pos = Inr (a, b)"
    using split_str_range [OF assms(1,2)] assms(3,4) by (simp add: range_parts_Inr)
qed

lemma size_reads_back:
  assumes "op_hi opr hi" "printable (SizeValue opr lo hi)"
  shows "parse_size (str_value (SizeValue opr lo hi)) pos = Inr (SizeValue opr lo hi)"
  using assms(1)
proof (cases rule: op_hi_cases)
  case (range h)
  have "hd (dec_digits lo) \<notin> set ops_chars" by (intro decimal_not_ops dec_digits_hd)
  with range assms(2) show ?thesis
    using range_read [of "dec_digits lo" "dec_digits h"] dec_digits_no_dot
    by (simp add: parse_size_def parse_size_num_dec str_num_def)
next
  case single
  have "hd (dec_digits lo) \<notin> set ops_chars" by (intro decimal_not_ops dec_digits_hd)
  with single assms(2) show ?thesis
    using op_prefix_read [of opr "dec_digits lo"] not_contains_dots [OF dec_digits_no_dot [of lo]]
    by (auto simp: parse_size_def parse_size_num_dec op_prefix_def)
qed

lemma duration_reads_back:
  assumes "op_hi opr hi" "printable (DurationValue opr lo hi)"
  shows "parse_time (str_value (DurationValue opr lo hi)) pos = Inr (DurationValue opr lo hi)"
proof -
  let ?t = "\<lambda>n. dec_digits n @ ''s''"
  have nd: "CHR ''.'' \<notin> set (?t n)" for n using dec_digits_no_dot by simp
  have hd: "hd (?t n) \<notin> set ops_chars" for n
    using decimal_not_ops [OF dec_digits_hd [of n]] by (simp add: hd_append)
  from assms(1) show ?thesis
  proof (cases rule: op_hi_cases)
    case (range h)
    with assms(2) show ?thesis
      using range_read [of "?t lo" "?t h"] nd hd
      by (simp add: parse_time_def parse_time_atom_seconds str_num_def)
  next
    case single
    with assms(2) show ?thesis
      using op_prefix_read [OF single(1) _ hd, of lo] not_contains_dots [OF nd [of lo]]
      by (auto simp: parse_time_def parse_time_atom_seconds op_prefix_def)
  qed
qed

lemma date_reads_back:
  assumes "op_hi opr hi" "iso_date lo" "\<And>h. hi = Some h \<Longrightarrow> iso_date h"
  shows "parse_time (str_value (DateValue opr lo hi)) pos = Inr (DateValue opr lo hi)"
  using assms(1)
proof (cases rule: op_hi_cases)
  case (range h)
  with assms(2) assms(3) [of h] show ?thesis
    using range_read [of lo h] iso_date_plain [of lo] iso_date_plain [of h]
    by (simp add: parse_time_def parse_time_atom_date str_opt_def)
next
  case single
  with assms(2) show ?thesis
    using op_prefix_read [OF single(1) iso_date_plain(4,5), of lo]
      not_contains_dots [OF iso_date_plain(1), of lo]
    by (auto simp: parse_time_def parse_time_atom_date op_prefix_def)
qed

lemma meta_reads_back:
  assumes "value_ok key (MetaValue opr lo hi)" "printable (MetaValue opr lo hi)"
  shows "parse_meta_value (str_value (MetaValue opr lo hi)) pos = Inr (MetaValue opr lo hi)"
proof -
  from assms(1) have oh: "op_hi opr hi" and lo: "lo \<noteq> []" by auto
  from oh show ?thesis
  proof (cases rule: op_hi_cases)
    case (range h)
    with assms(1) have h: "h \<noteq> []" "split_str ''..'' (lo @ ''..'' @ h) = [lo, h]" "hd lo \<notin> set ops_chars"
      by auto
    then have "read_comparator (lo @ ''..'' @ h) = (None, lo @ ''..'' @ h)"
      using lo by (intro read_comparator_plain) (auto simp: hd_append)
    with range h lo contains_mid [of "''..''" lo h] show ?thesis
      by (simp add: parse_meta_value_def str_opt_def range_parts_def)
  next
    case single
    with assms(1) have nd: "\<not> contains ''..'' lo"
      and eq: "opr \<in> set [''>'', ''<''] \<longrightarrow> hd lo \<noteq> CHR ''=''" by auto
    show ?thesis
    proof (cases "opr = ''=''")
      case True
      with assms(2) have "read_comparator lo = (None, lo)"
        using lo by (intro read_comparator_plain) auto
      with True single nd show ?thesis by (simp add: parse_meta_value_def op_prefix_def)
    next
      case False
      with read_comparator_op [OF single(1) False lo eq] single nd lo show ?thesis
        by (simp add: parse_meta_value_def op_prefix_def)
    qed
  qed
qed

lemma list_reads_back:
  assumes "value_ok key (ListValue vs)"
  shows "map_res (parse_list_part pos) (split_on (CHR '';'') (lower (join '';'' vs))) = Inr vs"
    and "join '';'' vs \<noteq> []"
proof -
  from assms have vs: "vs \<noteq> []" and each: "\<And>v. v \<in> set vs \<Longrightarrow>
      v \<noteq> [] \<and> hd v \<noteq> CHR ''.'' \<and> CHR '';'' \<notin> set v \<and> lower v = v" by auto
  have "set (join '';'' ws) \<subseteq> insert (CHR '';'') (\<Union>v \<in> set ws. set v)" for ws
    by (induction "'';''" ws rule: join.induct) auto
  moreover have "lower_char (CHR '';'') = CHR '';''" by code_simp
  ultimately have "lower (join '';'' vs) = join '';'' vs"
    using each by (fastforce simp: lower_fixed_iff)
  moreover have "split_on (CHR '';'') (join '';'' vs) = vs"
    using vs each by (intro split_on_join) auto
  moreover have "map_res (parse_list_part pos) vs = Inr (map id vs)"
  proof (rule map_res_total)
    fix v assume "v \<in> set vs"
    with each [of v] show "parse_list_part pos v = Inr (id v)"
      by (cases v) (auto simp: parse_list_part_def lstrip_def Let_def)
  qed
  ultimately show "map_res (parse_list_part pos) (split_on (CHR '';'') (lower (join '';'' vs))) = Inr vs"
    by simp
  from vs each show "join '';'' vs \<noteq> []"
    by (cases vs; cases "tl vs") auto
qed

lemma value_text_not_Nil: "value_ok key fv \<Longrightarrow> value_text fv \<noteq> []"
proof (cases fv)
  case (ListValue vs)
  then show "value_ok key fv \<Longrightarrow> ?thesis" using list_reads_back(2) [of key vs] by (simp add: value_text_def)
qed (auto simp: value_text_def op_prefix_def dest: iso_date_plain(4))

lemma value_reads_back:
  assumes ok: "value_ok key fv" and pr: "printable fv"
  shows "parse_filter_value key (value_text fv) pos = Inr fv"
proof (cases fv)
  case (StringValue v)
  with ok consider "key \<in> set [''kind'', ''group'', ''path'', ''tag'']" | "key = ''hash''" by auto
  then show ?thesis
  proof cases
    case 1
    with StringValue ok plain_keys [OF 1] show ?thesis
      by (auto simp: parse_filter_value_def value_text_def Let_def)
  next
    case 2
    with StringValue ok show ?thesis
      by (auto simp: parse_filter_value_def value_text_def single_keys Let_def)
  qed
next
  case (ListValue vs)
  with ok list_reads_back [of key vs] show ?thesis
    by (auto simp: parse_filter_value_def value_text_def single_keys Let_def)
next
  case (SizeValue opr lo hi)
  with ok pr value_text_not_Nil [OF ok] size_reads_back [of opr hi lo pos] show ?thesis
    by (auto simp: parse_filter_value_def value_text_def single_keys Let_def simp del: str_value.simps)
next
  case (DurationValue opr lo hi)
  with ok have "key \<in> set TIME_KEYS" by simp
  with DurationValue ok pr value_text_not_Nil [OF ok] duration_reads_back [of opr hi lo pos]
    time_keys [of key] show ?thesis
    by (auto simp: parse_filter_value_def value_text_def Let_def simp del: str_value.simps)
next
  case (DateValue opr lo hi)
  with ok have "key \<in> set TIME_KEYS" by simp
  with DateValue ok value_text_not_Nil [OF ok] date_reads_back [of opr hi lo pos]
    time_keys [of key] show ?thesis
    by (auto simp: parse_filter_value_def value_text_def Let_def simp del: str_value.simps)
next
  case (MetaValue opr lo hi)
  with ok pr value_text_not_Nil [OF ok] meta_reads_back [of key opr lo hi pos] show ?thesis
    by (auto simp: parse_filter_value_def value_text_def simp del: str_value.simps)
qed

subsection \<open>Lexing a printed token\<close>

fun mark :: "bool \<Rightarrow> nat \<Rightarrow> string \<Rightarrow> qchar list" where
  "mark q i [] = []"
| "mark q i (c # s) = (c, q, i) # mark q (Suc i) s"

lemma mark_append [simp]: "mark q i (s @ t) = mark q i s @ mark q (i + length s) t"
  by (induction s arbitrary: i) auto

lemma chars_mark [simp]: "chars (mark q i s) = s" "chars (ps @ qs) = chars ps @ chars qs"
  by (induction s arbitrary: i) (auto simp: chars_def)

lemma set_mark: "p \<in> set (mark q i s) \<Longrightarrow> fst p \<in> set s \<and> fst (snd p) = q"
  by (induction s arbitrary: i) auto

lemma mark_Nil_iff [simp]: "mark q i s = [] \<longleftrightarrow> s = []"
  by (cases s) auto

definition bare :: "string \<Rightarrow> bool" where
  "bare t = (\<forall>c \<in> set t. \<not> is_space c \<and> c \<noteq> CHR 0x22)"

lemma lex_bare:
  "bare t \<Longrightarrow> lex_loop (t @ r) i (Some cs) False qs toks =
     lex_loop r (i + length t) (Some (cs @ mark False i t)) False qs toks"
  by (induction t arbitrary: i cs) (auto simp: bare_def)

lemma lex_in_quote:
  "CHR 0x22 \<notin> set v \<Longrightarrow> lex_loop (v @ CHR 0x22 # r) i (Some cs) True qs toks =
     lex_loop r (Suc (i + length v)) (Some (cs @ mark True i v)) False qs toks"
  by (induction v arbitrary: i cs) auto

lemma lex_start:
  "t \<noteq> [] \<Longrightarrow> \<not> is_space (hd t) \<Longrightarrow>
     lex_loop (t @ r) i None False qs toks = lex_loop (t @ r) i (Some []) False qs toks"
  by (cases t) auto

definition body_text :: "bool \<Rightarrow> string \<Rightarrow> string" where
  "body_text q v = (if q then [CHR 0x22] @ v @ [CHR 0x22] else v)"

definition token_of :: "string \<Rightarrow> bool \<Rightarrow> string \<Rightarrow> nat \<Rightarrow> qchar list" where
  "token_of pre q v i = mark False i pre @ mark q (i + length pre + (if q then 1 else 0)) v"

definition lexes :: "string \<Rightarrow> (nat \<Rightarrow> qchar list) \<Rightarrow> bool" where
  "lexes t f = (\<forall>r i qs toks. \<exists>qs'. lex_loop (t @ r) i None False qs toks =
     lex_loop r (i + length t) (Some (f i)) False qs' toks)"

lemma not_space_quote: "\<not> is_space (CHR 0x22)"
  by (simp add: is_space_def)

lemma lexes_token:
  assumes pre: "bare pre" and q: "q \<Longrightarrow> CHR 0x22 \<notin> set v" and nq: "\<not> q \<Longrightarrow> bare v \<and> v \<noteq> []"
  shows "lexes (pre @ body_text q v) (token_of pre q v)"
  unfolding lexes_def
proof (intro allI)
  fix r i qs toks
  have "pre @ body_text q v \<noteq> [] \<and> \<not> is_space (hd (pre @ body_text q v))"
    using pre nq by (cases pre; cases q; cases v) (auto simp: body_text_def bare_def not_space_quote)
  then have "lex_loop ((pre @ body_text q v) @ r) i None False qs toks =
      lex_loop (body_text q v @ r) (i + length pre) (Some (mark False i pre)) False qs toks"
    using lex_start [of "pre @ body_text q v" r] lex_bare [OF pre, of "body_text q v @ r" i "[]"] by simp
  also have "\<exists>qs'. \<dots> = lex_loop r (i + length (pre @ body_text q v)) (Some (token_of pre q v i)) False qs' toks"
  proof (cases q)
    case True
    with lex_in_quote [OF q, of r "Suc (i + length pre)" "mark False i pre" "i + length pre" toks]
    show ?thesis by (intro exI [of _ "i + length pre"]) (simp add: body_text_def token_of_def add.assoc)
  next
    case False
    with nq lex_bare [of v r "i + length pre" "mark False i pre" qs toks]
    show ?thesis by (intro exI [of _ qs]) (simp add: body_text_def token_of_def add.assoc)
  qed
  finally show "\<exists>qs'. lex_loop ((pre @ body_text q v) @ r) i None False qs toks =
      lex_loop r (i + length (pre @ body_text q v)) (Some (token_of pre q v i)) False qs' toks" .
qed

lemma lex_join:
  assumes "\<And>n. n \<in> set ns \<Longrightarrow> lexes (str n) (tok n)"
  shows "\<exists>js. length js = length ns \<and> lex_loop (join '' '' (map str ns)) i None False qs toks =
    Inr (toks @ map2 tok ns js)"
  using assms
proof (induction ns arbitrary: i qs toks)
  case Nil
  then show ?case by simp
next
  case (Cons n ns)
  then have n: "lexes (str n) (tok n)" by simp
  show ?case
  proof (cases ns)
    case Nil
    from n obtain qs' where "lex_loop (str n @ []) i None False qs toks =
        lex_loop [] (i + length (str n)) (Some (tok n i)) False qs' toks"
      unfolding lexes_def by blast
    with Nil show ?thesis by (intro exI [of _ "[i]"]) simp
  next
    case (Cons m ms)
    let ?rest = "join '' '' (map str ns)" and ?k = "i + length (str n)"
    from n obtain qs' where "lex_loop (str n @ '' '' @ ?rest) i None False qs toks =
        lex_loop ('' '' @ ?rest) ?k (Some (tok n i)) False qs' toks"
      unfolding lexes_def by blast
    then have "lex_loop (join '' '' (map str (n # ns))) i None False qs toks =
        lex_loop ?rest (Suc ?k) None False qs' (toks @ [tok n i])"
      using Cons by (simp add: is_space_def)
    moreover obtain js where "length js = length ns"
      "lex_loop ?rest (Suc ?k) None False qs' (toks @ [tok n i]) = Inr ((toks @ [tok n i]) @ map2 tok ns js)"
      using Cons.IH Cons.prems by (metis list.set_intros(2))
    ultimately show ?thesis by (intro exI [of _ "i # js"]) simp
  qed
qed

subsection \<open>Parsing a printed token\<close>

fun node_prefix :: "node \<Rightarrow> string" where
  "node_prefix (TermNode t) = (if term_negated t then ''-'' else []) @ (if term_fuzzy t then ''~'' else [])"
| "node_prefix (FilterNode f) = (if filter_negated f then ''-'' else []) @ filter_key f @ '':''"

fun node_body :: "node \<Rightarrow> string" where
  "node_body (TermNode t) = term_value t"
| "node_body (FilterNode f) = value_text (filter_value f)"

fun node_quoted :: "node \<Rightarrow> bool" where
  "node_quoted (TermNode t) = needs_quote (term_value t)"
| "node_quoted (FilterNode f) = (case filter_value f of StringValue v \<Rightarrow> needs_quote v | _ \<Rightarrow> False)"

fun str_node :: "node \<Rightarrow> string" where
  "str_node (TermNode t) = str_term t"
| "str_node (FilterNode f) = str_filter f"

definition node_token :: "node \<Rightarrow> nat \<Rightarrow> qchar list" where
  "node_token n = token_of (node_prefix n) (node_quoted n) (node_body n)"

text \<open>What the parser guarantees of a node: the key is a known or an allow-listed dynamic one.\<close>

definition dynamic_subkey :: "string \<Rightarrow> string" where
  "dynamic_subkey key = (if startswith key META_PREFIX then drop (length META_PREFIX) key
     else drop (length CF_PREFIX) key)"

definition key_ok :: "string \<Rightarrow> bool" where
  "key_ok key = (key \<in> set KEYS \<or> is_dynamic_key key \<and> dynamic_subkey key \<noteq> []
     \<and> length (dynamic_subkey key) \<le> MAX_DYNAMIC_KEY_LEN \<and> dynamic_key_re (dynamic_subkey key))"

fun node_ok :: "node \<Rightarrow> bool" where
  "node_ok (TermNode t) = (term_value t \<noteq> [] \<and> CHR 0x22 \<notin> set (term_value t))"
| "node_ok (FilterNode f) = (key_ok (filter_key f) \<and> value_ok (filter_key f) (filter_value f)
     \<and> CHR 0x22 \<notin> set (value_text (filter_value f)))"

fun node_printable :: "node \<Rightarrow> bool" where
  "node_printable (TermNode t) = True"
| "node_printable (FilterNode f) = printable (filter_value f)"

lemma str_node_text: "str_node n = node_prefix n @ body_text (node_quoted n) (node_body n)"
proof (cases n)
  case (TermNode t)
  then show ?thesis by (simp add: str_term_def quoted_def body_text_def)
next
  case (FilterNode f)
  then show ?thesis
    by (cases "filter_value f") (simp_all add: str_filter_def quoted_def body_text_def value_text_def)
qed

lemma not_needs_quote_bare:
  "\<not> needs_quote v \<Longrightarrow> CHR 0x22 \<notin> set v \<Longrightarrow> bare v \<and> v \<noteq> [] \<and> CHR '':'' \<notin> set v
     \<and> hd v \<notin> set [CHR ''-'', CHR ''!'', CHR ''~'', CHR 0x22]"
  by (auto simp: needs_quote_def bare_def)

lemma bare_append [simp]: "bare (s @ t) \<longleftrightarrow> bare s \<and> bare t"
  by (auto simp: bare_def)

lemma not_space_lits [simp]:
  "\<not> is_space (CHR ''.'')" "\<not> is_space (CHR '';'')" "\<not> is_space (CHR '':'')" "\<not> is_space (CHR ''-'')"
  "\<not> is_space (CHR ''~'')" "\<not> is_space (CHR ''s'')"
  by code_simp+

lemma bare_Cons [simp]: "bare (c # t) \<longleftrightarrow> \<not> is_space c \<and> c \<noteq> CHR 0x22 \<and> bare t" "bare []"
  by (auto simp: bare_def)

lemma decimal_not_quote: "is_decimal c \<Longrightarrow> c \<noteq> CHR 0x22"
  by (auto simp: is_decimal_def)

lemma bare_decimal: "list_all is_decimal s \<Longrightarrow> bare s"
  by (auto simp: bare_def list_all_iff dest: decimal_not_space decimal_not_quote)

lemma bare_dec [simp]: "bare (dec_digits n)"
  by (rule bare_decimal) (rule dec_digits_decimal)

lemma bare_op: "opr \<in> set OPS \<Longrightarrow> bare (op_prefix opr)"
proof -
  have "list_all (\<lambda>opr. bare (op_prefix opr)) OPS" by code_simp
  then show "opr \<in> set OPS \<Longrightarrow> ?thesis" by (simp only: list_all_iff simp_thms)
qed

lemma bare_join: "\<forall>v \<in> set vs. bare v \<Longrightarrow> bare (join '';'' vs)"
  by (induction "'';''" vs rule: join.induct) simp_all

lemma bare_value:
  assumes "value_ok key fv" "printable fv" "CHR 0x22 \<notin> set (value_text fv)" "\<And>v. fv \<noteq> StringValue v"
  shows "bare (value_text fv)"
proof -
  have iso: "bare d" if "iso_date d" for d using iso_date_plain [OF that] by (auto simp: bare_def)
  show ?thesis
  proof (cases fv)
    case (ListValue vs)
    have "CHR 0x22 \<notin> set v" if "v \<in> set vs" for v
    proof -
      have "v \<in> set ws \<Longrightarrow> set v \<subseteq> set (join '';'' ws)" for ws
        by (induction "'';''" ws rule: join.induct) auto
      with that assms(3) ListValue show ?thesis by (auto simp: value_text_def)
    qed
    with ListValue assms(2) have "\<forall>v \<in> set vs. bare v" by (simp add: bare_def) blast
    then show ?thesis by (simp add: ListValue value_text_def bare_join)
  next
    case (SizeValue opr lo hi)
    with assms show ?thesis
      by (auto simp: value_text_def str_num_def elim!: op_hi_cases dest: bare_op)
  next
    case (DurationValue opr lo hi)
    with assms show ?thesis
      by (auto simp: value_text_def str_num_def elim!: op_hi_cases dest: bare_op)
  next
    case (DateValue opr lo hi)
    with assms iso show ?thesis
      by (auto simp: value_text_def str_opt_def elim!: op_hi_cases dest: bare_op)
  next
    case (MetaValue opr lo hi)
    with assms show ?thesis
      by (auto simp: value_text_def str_opt_def elim!: op_hi_cases dest: bare_op) (auto simp: bare_def)
  qed (use assms in auto)
qed

subsection \<open>Keys\<close>

definition key_plain :: "string \<Rightarrow> bool" where
  "key_plain key = (key \<noteq> [] \<and> (\<forall>c \<in> set key. key_char c \<or> c \<in> {CHR ''.'', CHR ''*''}))"

lemma in_set_butlast_or_last: "xs \<noteq> [] \<Longrightarrow> x \<in> set xs \<longleftrightarrow> x \<in> set (butlast xs) \<or> x = last xs"
  by (induction xs) auto

lemma dynamic_key_re_chars:
  assumes "dynamic_key_re s" and "c \<in> set s"
  shows "key_char c \<or> c \<in> {CHR ''.'', CHR ''*''}"
proof -
  let ?segs = "split_on (CHR ''.'') s"
  have "c \<in> set (join ''.'' xs) \<Longrightarrow> c = CHR ''.'' \<or> (\<exists>x \<in> set xs. c \<in> set x)" for xs
    by (induction "''.''" xs rule: join.induct) auto
  from this [of ?segs] assms(2) have "c = CHR ''.'' \<or> (\<exists>x \<in> set ?segs. c \<in> set x)" by simp
  then consider "c = CHR ''.''" | x where "x \<in> set (butlast ?segs)" "c \<in> set x" | "c \<in> set (last ?segs)"
    using in_set_butlast_or_last [OF split_on_not_Nil [of "CHR ''.''" s]] by blast
  then show ?thesis
  proof cases
    case 3
    with assms(1) show ?thesis
      by (cases "last ?segs = ''*''") (auto simp: dynamic_key_re_def key_segment_def list_all_iff Let_def)
  qed (use assms(1) in \<open>auto simp: dynamic_key_re_def key_segment_def list_all_iff Let_def\<close>)
qed

lemma key_ok_plain: "key_ok key \<Longrightarrow> key_plain key"
proof -
  have "list_all key_plain (META_PREFIX # CF_PREFIX # KEYS)" by code_simp
  then have base: "key_plain META_PREFIX" "key_plain CF_PREFIX" "\<And>k. k \<in> set KEYS \<Longrightarrow> key_plain k"
    by (auto simp: list_all_iff)
  assume ok: "key_ok key"
  show ?thesis
  proof (cases "key \<in> set KEYS")
    case False
    with ok have dyn: "is_dynamic_key key" and re: "dynamic_key_re (dynamic_subkey key)"
      by (auto simp: key_ok_def)
    define pre where "pre = (if startswith key META_PREFIX then META_PREFIX else CF_PREFIX)"
    have "key = pre @ dynamic_subkey key"
      using dyn append_take_drop_id [of "length META_PREFIX" key] append_take_drop_id [of "length CF_PREFIX" key]
      by (auto simp: pre_def is_dynamic_key_def dynamic_subkey_def startswith_def
          simp del: append_take_drop_id split: if_splits)
    moreover have "key_plain pre" using base by (simp add: pre_def)
    ultimately show ?thesis
      using dynamic_key_re_chars [OF re]
      by (metis Un_iff append_is_Nil_conv key_plain_def set_append)
  qed (rule base(3))
qed

lemma key_plain_char:
  "key_plain key \<Longrightarrow> c \<in> set key \<Longrightarrow>
     c \<notin> {CHR '':'', CHR ''-'', CHR ''!'', CHR ''~'', CHR 0x22} \<and> \<not> is_space c"
proof -
  assume "key_plain key" "c \<in> set key"
  then have "key_char c \<or> c = CHR ''.'' \<or> c = CHR ''*''" by (auto simp: key_plain_def)
  then show ?thesis
  proof (elim disjE)
    assume "key_char c"
    then show ?thesis by (auto simp: key_char_def is_decimal_def is_space_def Let_def char_cp_eq)
  qed (simp_all add: is_space_def)
qed

lemma key_plain_bare: "key_plain key \<Longrightarrow> bare key"
  by (auto simp: bare_def dest: key_plain_char)

lemma known_key_lower: "key \<in> set KEYS \<Longrightarrow> lower key = key"
proof -
  have "list_all (\<lambda>k. lower k = k) KEYS" by code_simp
  then show "key \<in> set KEYS \<Longrightarrow> ?thesis" by (simp only: list_all_iff simp_thms)
qed

lemma known_key_not_dynamic: "key \<in> set KEYS \<Longrightarrow> \<not> is_dynamic_key key"
proof -
  have "list_all (\<lambda>k. \<not> is_dynamic_key k) KEYS" by code_simp
  then show "key \<in> set KEYS \<Longrightarrow> ?thesis" by (simp only: list_all_iff simp_thms)
qed

lemma validate_dynamic_key_iff:
  "validate_dynamic_key key pos = Inr () \<longleftrightarrow> dynamic_subkey key \<noteq> []
     \<and> length (dynamic_subkey key) \<le> MAX_DYNAMIC_KEY_LEN \<and> dynamic_key_re (dynamic_subkey key)"
  by (auto simp: validate_dynamic_key_def dynamic_subkey_def Let_def not_less)

subsection \<open>The printed token parses to its node\<close>

lemma read_neg_not:
  "ps = [] \<or> \<not> unq (hd ps) \<or> fst (hd ps) \<notin> {CHR ''-'', CHR ''!''} \<Longrightarrow> read_neg ps = (False, ps)"
  by (cases ps) (auto simp: read_neg_def)

lemma read_fuzzy_not:
  "ps = [] \<or> \<not> unq (hd ps) \<or> fst (hd ps) \<noteq> CHR ''~'' \<Longrightarrow> read_fuzzy ps = (None, ps)"
  by (cases ps) (auto simp: read_fuzzy_def)

lemma hd_mark: "s \<noteq> [] \<Longrightarrow> hd (mark q i s) = (hd s, q, i)"
  by (cases s) auto

lemma split_colon_none: "\<forall>p \<in> set ps. \<not> is_colon p \<Longrightarrow> split_colon ps = None"
  by (simp add: split_colon_def split: list.split) (metis dropWhile_eq_Nil_conv list.distinct(1))

lemma split_colon_at:
  "\<forall>p \<in> set k. \<not> is_colon p \<Longrightarrow> is_colon c \<Longrightarrow> split_colon (k @ c # v) = Some (k, c, v)"
  by (simp add: split_colon_def dropWhile_append takeWhile_append)

lemma term_token_parses:
  assumes "node_ok (TermNode t)"
  shows "parse_token (node_token (TermNode t) i) = Inr (Some (TermNode t))"
proof -
  let ?v = "term_value t" and ?q = "needs_quote (term_value t)"
  from assms have v: "?v \<noteq> []" "CHR 0x22 \<notin> set ?v" by auto
  have nq: "\<not> ?q \<Longrightarrow> CHR '':'' \<notin> set ?v \<and> hd ?v \<notin> {CHR ''-'', CHR ''!'', CHR ''~''}"
    using not_needs_quote_bare [of ?v] v by auto
  have nocolon: "split_colon (mark ?q j ?v) = None" for j
    using nq by (intro split_colon_none) (auto simp: is_colon_def dest!: set_mark)
  have neg: "read_neg (mark ?q j ?v) = (False, mark ?q j ?v)" for j
    using nq v by (intro read_neg_not) (auto simp: hd_mark)
  have fuz: "read_fuzzy (mark ?q j ?v) = (None, mark ?q j ?v)" for j
    using nq v by (intro read_fuzzy_not) (auto simp: hd_mark)
  have mk: "mk_term (mark ?q j ?v) a b = Some (TermNode \<lparr>term_value = ?v, term_negated = a, term_fuzzy = b\<rparr>)"
    for a b j using v by (simp add: mk_term_def)
  have eta: "\<lparr>term_value = ?v, term_negated = term_negated t, term_fuzzy = term_fuzzy t\<rparr> = t" by simp
  show ?thesis
    using eta
    by (cases "term_negated t"; cases "term_fuzzy t")
      (simp_all add: node_token_def token_of_def parse_token_def nocolon neg fuz mk
        read_neg_def [of "_ # _"] read_fuzzy_def [of "_ # _"])
qed

lemma filter_token_parses:
  assumes ok: "node_ok (FilterNode f)" and pr: "node_printable (FilterNode f)"
  shows "parse_token (node_token (FilterNode f) i) = Inr (Some (FilterNode f))"
proof -
  let ?k = "filter_key f" and ?v = "value_text (filter_value f)"
  define q where "q = node_quoted (FilterNode f)"
  let ?tok = "\<lambda>j m. mark False j ?k @ (CHR '':'', False, j + length ?k) # mark q m ?v"
  from ok have kp: "key_plain ?k" by (auto intro: key_ok_plain)
  then have kne: "?k \<noteq> []" by (simp add: key_plain_def)
  have hdk: "hd ?k \<notin> {CHR ''-'', CHR ''!'', CHR ''~''}"
    using key_plain_char [OF kp hd_in_set [OF kne]] by auto
  have sc: "split_colon (?tok j m) = Some (mark False j ?k, (CHR '':'', False, j + length ?k), mark q m ?v)"
    for j m
    using key_plain_char [OF kp]
    by (intro split_colon_at) (auto simp: is_colon_def dest!: set_mark)
  have hdt: "hd (?tok j m) = (hd ?k, False, j)" for j m using kne by (simp add: hd_mark hd_append)
  have neg: "read_neg (?tok j m) = (False, ?tok j m)" for j m
    using hdk by (intro read_neg_not) (simp only: hdt, auto)
  have fuz: "read_fuzzy (?tok j m) = (None, ?tok j m)" for j m
    using hdk by (intro read_fuzzy_not) (simp only: hdt, auto)
  have unq_k: "list_all unq (mark False j ?k)" for j by (auto simp: list_all_iff dest: set_mark)
  have known: "lower ?k \<in> set KEYS \<or> is_dynamic_key ?k"
    and store: "(if is_dynamic_key ?k then ?k else lower ?k) = ?k"
    and val: "(if is_dynamic_key ?k then validate_dynamic_key ?k p else Inr ()) = Inr ()" for p
    using ok by (auto simp: key_ok_def known_key_lower known_key_not_dynamic validate_dynamic_key_iff)
  have fv: "parse_filter_value ?k ?v p = Inr (filter_value f)" for p
    using ok pr by (intro value_reads_back) auto
  have eta: "\<lparr>filter_key = ?k, filter_value = filter_value f, filter_negated = filter_negated f\<rparr> = f" by simp
  have filt: "parse_filter_token (filter_negated f) None (mark False j ?k) (CHR '':'', False, l) (mark q m ?v)
      = Inr (Some (FilterNode f))" for j l m
    unfolding parse_filter_token_def by (simp only: chars_mark option.case Let_def store val fv bind_res.simps eta)
  have "parse_token ((if filter_negated f then [(CHR ''-'', False, l)] else []) @ ?tok j m)
      = Inr (Some (FilterNode f))" for l j m
    using filt kne
    by (cases "filter_negated f") (simp_all add: parse_token_def neg fuz sc unq_k known
        read_neg_def [of "_ # _"])
  from this [of i "i + length (if filter_negated f then ''-'' else [])"] show ?thesis
    by (cases "filter_negated f")
      (simp_all add: node_token_def token_of_def q_def [symmetric] del: node_quoted.simps)
qed

lemma node_token_parses:
  "node_ok n \<Longrightarrow> node_printable n \<Longrightarrow> parse_token (node_token n i) = Inr (Some n)"
  by (cases n) (auto simp del: node_ok.simps node_printable.simps intro: term_token_parses filter_token_parses)

lemma node_token_lexes:
  assumes "node_ok n" "node_printable n"
  shows "lexes (str_node n) (node_token n)"
  unfolding str_node_text node_token_def
proof (rule lexes_token)
  show "bare (node_prefix n)"
    using assms by (cases n) (auto simp: key_plain_bare [OF key_ok_plain])
  show "CHR 0x22 \<notin> set (node_body n)" using assms by (cases n) auto
  show "bare (node_body n) \<and> node_body n \<noteq> []" if "\<not> node_quoted n"
  proof (cases n)
    case (TermNode t)
    with that assms not_needs_quote_bare [of "term_value t"] show ?thesis by auto
  next
    case (FilterNode f)
    show ?thesis
    proof (cases "\<exists>v. filter_value f = StringValue v")
      case True
      then obtain v where "filter_value f = StringValue v" by blast
      with FilterNode that assms not_needs_quote_bare [of v] show ?thesis by (auto simp: value_text_def)
    next
      case False
      with FilterNode assms bare_value [of "filter_key f" "filter_value f"]
        value_text_not_Nil [of "filter_key f" "filter_value f"] show ?thesis by auto
    qed
  qed
qed

subsection \<open>Parsed queries are well formed\<close>

lemma lower_char_quote: "lower_char c = CHR 0x22 \<longleftrightarrow> c = CHR 0x22"
  by (auto simp: lower_char_def Let_def char_cp_eq split: if_splits)

lemma lower_no_quote: "CHR 0x22 \<in> set (lower s) \<longleftrightarrow> CHR 0x22 \<in> set s"
  unfolding lower_def by (metis imageE image_eqI list.set_map lower_char_quote)

lemma bare_no_quote: "bare s \<Longrightarrow> CHR 0x22 \<notin> set s"
  by (auto simp: bare_def)

lemma set_join: "set (join sep vs) \<subseteq> set sep \<union> (\<Union>v \<in> set vs. set v)"
  by (induction sep vs rule: join.induct) auto

lemma meta_text_subset:
  "parse_meta_value val pos = Inr fv \<Longrightarrow> set (value_text fv) \<subseteq> set val"
  by (auto simp: parse_meta_value_def value_text_def bind_res_Inr op_prefix_def str_opt_def OPS_not_range
      split: prod.splits option.splits if_splits dest!: range_parts_join elim!: read_comparator_cases)

lemma parse_size_shape: "parse_size val pos = Inr fv \<Longrightarrow> \<exists>opr lo hi. fv = SizeValue opr lo hi"
  by (auto simp: parse_size_def bind_res_Inr split: prod.splits option.splits if_splits)

fun is_time_value :: "FilterValue \<Rightarrow> bool" where
  "is_time_value (DurationValue opr lo hi) = True"
| "is_time_value (DateValue opr lo hi) = True"
| "is_time_value _ = False"

lemma build_time_is_time: "is_time_value (build_time opr a)"
  by (cases a) auto

lemma build_time_range_is_time: "build_time_range a b p = Inr x \<Longrightarrow> is_time_value x"
  by (cases "(a, b, p)" rule: build_time_range.cases) auto

lemma parse_time_shape: "parse_time val pos = Inr fv \<Longrightarrow> is_time_value fv"
  by (auto simp: parse_time_def bind_res_Inr build_time_is_time build_time_range_is_time
      split: prod.splits option.splits if_splits)

lemma number_text_no_quote:
  "op_hi opr hi \<Longrightarrow> CHR 0x22 \<notin> set (value_text (SizeValue opr lo hi))"
  "op_hi opr hi \<Longrightarrow> CHR 0x22 \<notin> set (value_text (DurationValue opr lo hi))"
  by (auto simp: value_text_def str_num_def elim!: op_hi_cases
      dest: bare_no_quote [OF bare_op] bare_no_quote [OF bare_dec, THEN notE])

lemma date_text_no_quote:
  "value_ok key (DateValue opr lo hi) \<Longrightarrow> CHR 0x22 \<notin> set (value_text (DateValue opr lo hi))"
  by (auto simp: value_text_def str_opt_def elim!: op_hi_cases
      dest: bare_no_quote [OF bare_op] iso_date_plain(3))

lemma value_text_no_quote:
  assumes p: "parse_filter_value key val pos = Inr fv" and key: "key \<in> set KEYS \<or> is_dynamic_key key"
    and nq: "CHR 0x22 \<notin> set val"
  shows "CHR 0x22 \<notin> set (value_text fv)"
proof (cases "is_dynamic_key key")
  case True
  with p have "parse_meta_value val pos = Inr fv" by (simp add: parse_filter_value_def split: if_splits)
  with meta_text_subset nq show ?thesis by blast
next
  case False
  with key have "key \<in> set KEYS" by simp
  note ok = parse_filter_value_ok [OF p key]
  have nq': "CHR 0x22 \<notin> set w" if "w = val \<or> w = lower val" for w
    using nq that by (auto simp: lower_no_quote)
  have "\<exists>w. (w = val \<or> w = lower val) \<and>
     ((\<exists>out. map_res (parse_list_part pos) (split_on (CHR '';'') w) = Inr out \<and> fv = ListValue out)
      \<or> fv = StringValue w \<or> parse_size w pos = Inr fv \<or> parse_time w pos = Inr fv)"
    using p False
    by (intro exI [of _ "if key \<in> set LOWER_KEYS then lower val else val"])
      (simp add: parse_filter_value_def Let_def bind_res_Inr split: if_splits; metis)
  then obtain w where w: "w = val \<or> w = lower val" and
    cs: "(\<exists>out. map_res (parse_list_part pos) (split_on (CHR '';'') w) = Inr out \<and> fv = ListValue out)
      \<or> fv = StringValue w \<or> parse_size w pos = Inr fv \<or> parse_time w pos = Inr fv" by blast
  from cs consider
      (list) out where "map_res (parse_list_part pos) (split_on (CHR '';'') w) = Inr out" "fv = ListValue out"
    | (str) "fv = StringValue w" | (size) "parse_size w pos = Inr fv"
    | (time) "parse_time w pos = Inr fv"
    by blast
  then show ?thesis
  proof cases
    case list
    have "CHR 0x22 \<notin> set v" if "v \<in> set out" for v
    proof -
      from map_res_source [OF list(1) that] obtain part
        where part: "part \<in> set (split_on (CHR '';'') w)" "parse_list_part pos part = Inr v" by blast
      have "set v \<subseteq> set part" using parse_list_part_ok [OF part(2)] by simp
      also have "set part \<subseteq> set w" by (rule set_split_on_subset [OF part(1)])
      finally show ?thesis using nq' [OF w] by blast
    qed
    then show ?thesis using set_join [of "'';''" out] by (auto simp: list(2) value_text_def)
  next
    case str
    with nq' [OF w] show ?thesis by (simp add: value_text_def)
  next
    case size
    with ok parse_size_shape [OF size] show ?thesis by (auto simp: number_text_no_quote)
  next
    case time
    with ok parse_time_shape [OF time] show ?thesis
      by (cases fv) (auto simp: number_text_no_quote simp del: value_ok.simps(5) dest: date_text_no_quote)
  qed
qed

lemma parse_token_ok:
  assumes tok: "parse_token ps = Inr (Some n)" and nq: "CHR 0x22 \<notin> set (chars ps)"
  shows "node_ok n"
proof -
  obtain neg r1 where rn: "read_neg ps = (neg, r1)" by fastforce
  obtain fuzzy rest where rf: "read_fuzzy r1 = (fuzzy, rest)" by fastforce
  from read_neg_rest [OF rn] read_fuzzy_rest [OF rf] nq have nqr: "CHR 0x22 \<notin> set (chars rest)"
    by (auto simp: chars_def)
  from tok rn rf consider (t) "mk_term rest neg (fuzzy \<noteq> None) = Some n"
    | (f) k c v where "split_colon rest = Some (k, c, v)" "parse_filter_token neg fuzzy k c v = Inr (Some n)"
        "lower (chars k) \<in> set KEYS \<or> is_dynamic_key (chars k)"
    by (auto simp: parse_token_def split: option.splits if_splits)
  then show ?thesis
  proof cases
    case t
    with nqr show ?thesis by (auto simp: mk_term_def split: if_splits)
  next
    case f
    let ?store = "if is_dynamic_key (chars k) then chars k else lower (chars k)"
    from f(2) obtain fv where n: "n = FilterNode \<lparr>filter_key = ?store, filter_value = fv, filter_negated = neg\<rparr>"
      and val: "is_dynamic_key (chars k) \<Longrightarrow> validate_dynamic_key (chars k) (snd (snd (hd k))) = Inr ()"
      and fv: "parse_filter_value ?store (chars v) (Suc (snd (snd c))) = Inr fv"
      by (auto simp: parse_filter_token_def Let_def bind_res_Inr split: option.splits if_splits)
    from f(3) have key: "?store \<in> set KEYS \<or> is_dynamic_key ?store" by auto
    have "key_ok ?store" using f(3) val by (auto simp: key_ok_def validate_dynamic_key_iff)
    moreover have "CHR 0x22 \<notin> set (chars v)"
      using nqr split_colon_Some(1) [OF f(1)] by (auto simp: chars_def)
    ultimately show ?thesis
      unfolding n using parse_filter_value_ok [OF fv key] value_text_no_quote [OF fv key] by simp
  qed
qed

definition query_ok :: "Query \<Rightarrow> bool" where
  "query_ok q = ((\<forall>t \<in> set (query_terms q). node_ok (TermNode t)) \<and>
     (\<forall>f \<in> set (query_filters q). node_ok (FilterNode f)))"

definition query_printable :: "Query \<Rightarrow> bool" where
  "query_printable q = (\<forall>f \<in> set (query_filters q). printable (filter_value f))"

lemma add_node_ok: "query_ok q \<Longrightarrow> (\<And>n. r = Some n \<Longrightarrow> node_ok n) \<Longrightarrow> query_ok (add_node r q)"
  by (cases "(r, q)" rule: add_node.cases) (auto simp: query_ok_def)

lemma parse_tokens_ok:
  "parse_tokens pss q = Inr q' \<Longrightarrow> \<forall>ps \<in> set pss. CHR 0x22 \<notin> set (chars ps) \<Longrightarrow> query_ok q \<Longrightarrow> query_ok q'"
proof (induction pss arbitrary: q)
  case (Cons ps pss)
  then obtain n where n: "parse_token ps = Inr n" "parse_tokens pss (add_node n q) = Inr q'"
    by (auto simp: bind_res_Inr)
  moreover have "query_ok (add_node n q)"
    using Cons.prems n(1) by (intro add_node_ok) (auto intro: parse_token_ok)
  ultimately show ?case using Cons by auto
qed simp

lemma parse_ok: "parse s = Inr q \<Longrightarrow> query_ok q"
proof -
  assume "parse s = Inr q"
  then obtain toks where toks: "lex s = Inr toks" "parse_tokens toks empty_query = Inr q"
    by (auto simp: parse_def bind_res_Inr)
  have "\<forall>ps \<in> set toks. CHR 0x22 \<notin> set (chars ps)"
    using lex_placed(1) [OF toks(1)] by (fastforce simp: placed_def chars_def)
  then show ?thesis
    using parse_tokens_ok [OF toks(2)] by (simp add: query_ok_def empty_query_def)
qed

subsection \<open>Round trip\<close>

lemma parse_tokens_nodes:
  assumes "length js = length ns" and "\<And>n i. n \<in> set ns \<Longrightarrow> parse_token (tok n i) = Inr (Some n)"
  shows "parse_tokens (map2 tok ns js) q = Inr (foldl (\<lambda>q n. add_node (Some n) q) q ns)"
  using assms by (induction js ns arbitrary: q rule: list_induct2) auto

lemma foldl_filters:
  "foldl (\<lambda>q n. add_node (Some n) q) q (map FilterNode fs) = q\<lparr>query_filters := query_filters q @ fs\<rparr>"
  by (induction fs arbitrary: q) auto

lemma foldl_terms:
  "foldl (\<lambda>q n. add_node (Some n) q) q (map TermNode ts) = q\<lparr>query_terms := query_terms q @ ts\<rparr>"
  by (induction ts arbitrary: q) auto

lemma print_parse:
  assumes "query_ok q" "query_printable q"
  shows "parse (str_query q) = Inr q"
proof -
  let ?ns = "map FilterNode (query_filters q) @ map TermNode (query_terms q)"
  have ok: "node_ok n \<and> node_printable n" if "n \<in> set ?ns" for n
    using assms that by (auto simp: query_ok_def query_printable_def)
  have str: "str_query q = join '' '' (map str_node ?ns)"
    by (simp add: str_query_def o_def)
  obtain js where js: "length js = length ?ns" "lex (str_query q) = Inr (map2 node_token ?ns js)"
    using lex_join [of ?ns str_node node_token 0 0 "[]"] ok node_token_lexes
    by (auto simp: lex_def str simp del: map_append)
  have "parse_tokens (map2 node_token ?ns js) empty_query = Inr (foldl (\<lambda>q n. add_node (Some n) q) empty_query ?ns)"
    using ok node_token_parses by (intro parse_tokens_nodes [OF js(1)]) blast
  also have "foldl (\<lambda>q n. add_node (Some n) q) empty_query ?ns = q"
    by (simp add: foldl_filters foldl_terms empty_query_def)
  finally show ?thesis by (simp add: parse_def js(2))
qed

lemma JStr_map_inj: "map JStr xs = map JStr ys \<longleftrightarrow> xs = ys"
  by (rule inj_map_eq_map) (simp add: inj_def)

lemma value_to_dict_inj:
  assumes "value_to_dict a = value_to_dict b" "value_ok k a" "value_ok k' b"
  shows "a = b"
proof (cases a)
  case (StringValue v)
  with assms(1) show ?thesis by (cases b) (auto simp: num_dict_def text_dict_def split: if_splits)
next
  case (ListValue vs)
  with assms(1) show ?thesis
    by (cases b) (auto simp: num_dict_def text_dict_def JStr_map_inj split: if_splits)
next
  case (SizeValue opr lo hi)
  with assms show ?thesis
    by (cases b) (auto simp: num_dict_def text_dict_def elim!: op_hi_cases split: if_splits)
next
  case (DurationValue opr lo hi)
  with assms show ?thesis
    by (cases b) (auto simp: num_dict_def text_dict_def elim!: op_hi_cases split: if_splits)
next
  case (DateValue opr lo hi)
  with assms show ?thesis
    by (cases b) (auto simp: num_dict_def text_dict_def elim!: op_hi_cases split: if_splits)
next
  case (MetaValue opr lo hi)
  with assms show ?thesis
    by (cases b) (auto simp: num_dict_def text_dict_def elim!: op_hi_cases split: if_splits)
qed

lemma map_inj_on_list:
  "map f xs = map f ys \<Longrightarrow> (\<And>x y. x \<in> set xs \<Longrightarrow> y \<in> set ys \<Longrightarrow> f x = f y \<Longrightarrow> x = y) \<Longrightarrow> xs = ys"
proof (induction xs arbitrary: ys)
  case (Cons x xs)
  then obtain y zs where "ys = y # zs" by (cases ys) auto
  with Cons show ?case by auto
qed simp

section \<open>Properties of the query language\<close>

text \<open>
  Property C37. A query that parses is printed to a text that parses back to the same tree, provided
  its list items and metadata operands carry no white space, no dropped \<open>=\<close> hides a comparator, and
  its numbers have at most 4300 digits.
\<close>

theorem query_roundtrip:
  assumes "parse s = Inr q" and "query_printable q"
  shows "parse (str_query q) = Inr q"
  using parse_ok [OF assms(1)] assms(2) by (rule print_parse)

definition sample_text :: string where
  "sample_text = ''KIND:Video -size:>10M modified:7d..2w ~foo meta.exif.iso:>=400 '' @ [CHR 0x22] @ ''a b'' @ [CHR 0x22]"

definition sample_query :: Query where
  "sample_query = \<lparr>query_terms = [\<lparr>term_value = ''foo'', term_negated = False, term_fuzzy = True\<rparr>,
       \<lparr>term_value = ''a b'', term_negated = False, term_fuzzy = False\<rparr>],
     query_filters = [\<lparr>filter_key = ''kind'', filter_value = StringValue ''video'', filter_negated = False\<rparr>,
       \<lparr>filter_key = ''size'', filter_value = SizeValue ''>'' 10485760 None, filter_negated = True\<rparr>,
       \<lparr>filter_key = ''modified'', filter_value = DurationValue ''range'' 604800 (Some 1209600),
         filter_negated = False\<rparr>,
       \<lparr>filter_key = ''meta.exif.iso'', filter_value = MetaValue ''>='' ''400'' None,
         filter_negated = False\<rparr>]\<rparr>"

theorem query_roundtrip_witness:
  "parse sample_text = Inr sample_query \<and> query_printable sample_query
   \<and> parse (str_query sample_query) = Inr sample_query"
proof -
  have p: "parse sample_text = Inr sample_query" by code_simp
  have r: "query_printable sample_query" by code_simp
  from p r query_roundtrip [OF p r] show ?thesis by blast
qed

text \<open>
  On an input of at most 4300 characters without the superscript digits (the characters
  that \<open>isdigit\<close> accepts and \<open>int\<close> rejects), the only exception \<open>parse\<close> raises is \<open>ParseError\<close>, with
  one of the eleven documented codes and a position inside the input.
\<close>

theorem query_errors_contained:
  assumes "parse s = Inl e" and "\<forall>c \<in> set s. is_digit c \<longrightarrow> is_decimal c" and "length s \<le> 4300"
  shows "\<exists>pos code. e = ParseError pos code \<and> pos \<le> length s \<and> code \<in> set ERROR_CODES"
proof -
  have "\<not> int_trap s" using assms(2,3) by (auto simp: int_trap_def int_max_str_digits_def)
  with parse_reports [OF assms(1)] show ?thesis
    by (auto simp: query_reports_def split: query_error.splits)
qed

theorem query_errors_contained_witness:
  "parse ''a ~size:3'' = Inl (ParseError 2 ''fuzzy_on_filter'') \<and>
   (\<exists>pos code. ParseError 2 ''fuzzy_on_filter'' = ParseError pos code \<and> pos \<le> length ''a ~size:3''
      \<and> code \<in> set ERROR_CODES)"
proof -
  have p: "parse ''a ~size:3'' = Inl (ParseError 2 ''fuzzy_on_filter'')" by code_simp
  have d: "\<forall>c \<in> set ''a ~size:3''. is_digit c \<longrightarrow> is_decimal c" by code_simp
  have l: "length ''a ~size:3'' \<le> 4300" by simp
  from p query_errors_contained [OF p d l] show ?thesis by blast
qed

text \<open>
  Every filter of a parsed query has a known key, or a \<open>meta.\<close>/\<open>cf.\<close> key whose subkey is
  non-empty, at most 64 characters long and made of lower-case letters, digits, \<open>_\<close>, \<open>.\<close> and \<open>*\<close>
  only: nothing else can reach the JSONB accessor path.
\<close>

theorem query_keys_allow_listed:
  assumes "parse s = Inr q" and "f \<in> set (query_filters q)"
  shows "filter_key f \<in> set KEYS \<or>
    (\<exists>pre sub. filter_key f = pre @ sub \<and> pre \<in> {''meta.'', ''cf.''} \<and> sub \<noteq> [] \<and> length sub \<le> 64
       \<and> (\<forall>c \<in> set sub. key_char c \<or> c = CHR ''.'' \<or> c = CHR ''*''))"
proof -
  from parse_ok [OF assms(1)] assms(2) have ok: "key_ok (filter_key f)" by (auto simp: query_ok_def)
  let ?k = "filter_key f" and ?sub = "dynamic_subkey (filter_key f)"
  show ?thesis
  proof (cases "?k \<in> set KEYS")
    case False
    with ok have dyn: "is_dynamic_key ?k" and sub: "?sub \<noteq> []" "length ?sub \<le> 64" "dynamic_key_re ?sub"
      by (auto simp: key_ok_def MAX_DYNAMIC_KEY_LEN_def)
    define pre where "pre = (if startswith ?k META_PREFIX then META_PREFIX else CF_PREFIX)"
    have "?k = pre @ ?sub"
      using dyn append_take_drop_id [of "length META_PREFIX" ?k] append_take_drop_id [of "length CF_PREFIX" ?k]
      by (auto simp: pre_def is_dynamic_key_def dynamic_subkey_def startswith_def
          simp del: append_take_drop_id split: if_splits)
    moreover have "pre \<in> {''meta.'', ''cf.''}" by (simp add: pre_def META_PREFIX_def CF_PREFIX_def)
    ultimately show ?thesis using sub dynamic_key_re_chars [OF sub(3)] by blast
  qed simp
qed

theorem query_keys_allow_listed_witness:
  "parse ''meta.exif.*:canon'' = Inr \<lparr>query_terms = [], query_filters =
     [\<lparr>filter_key = ''meta.exif.*'', filter_value = MetaValue ''='' ''canon'' None, filter_negated = False\<rparr>]\<rparr> \<and>
   (''meta.exif.*'' \<in> set KEYS \<or>
    (\<exists>pre sub. ''meta.exif.*'' = pre @ sub \<and> pre \<in> {''meta.'', ''cf.''} \<and> sub \<noteq> [] \<and> length sub \<le> 64
       \<and> (\<forall>c \<in> set sub. key_char c \<or> c = CHR ''.'' \<or> c = CHR ''*'')))"
proof -
  let ?f = "\<lparr>filter_key = ''meta.exif.*'', filter_value = MetaValue ''='' ''canon'' None, filter_negated = False\<rparr>"
  have p: "parse ''meta.exif.*:canon'' = Inr \<lparr>query_terms = [], query_filters = [?f]\<rparr>" by code_simp
  have "?f \<in> set (query_filters \<lparr>query_terms = [], query_filters = [?f]\<rparr>)" by simp
  from p query_keys_allow_listed [OF p this] show ?thesis by (simp only: Filter.select_convs)
qed

text \<open>
  The serialised form of a parsed query determines the query: two queries with the same
  dictionary are equal.
\<close>

theorem query_to_dict_determines:
  assumes "parse s = Inr q" and "parse s' = Inr q'" and "query_to_dict q = query_to_dict q'"
  shows "q = q'"
proof -
  have ok: "query_ok q" "query_ok q'" using assms(1,2) parse_ok by auto
  from assms(3) have ts: "map term_to_dict (query_terms q) = map term_to_dict (query_terms q')"
    and fs: "map filter_to_dict (query_filters q) = map filter_to_dict (query_filters q')"
    by (auto simp: query_to_dict_def)
  have "query_terms q = query_terms q'"
    using ts by (rule map_inj_on_list) (simp add: term_to_dict_def)
  moreover have "query_filters q = query_filters q'"
    using fs
  proof (rule map_inj_on_list)
    fix x y assume xy: "x \<in> set (query_filters q)" "y \<in> set (query_filters q')"
      "filter_to_dict x = filter_to_dict y"
    then have "value_ok (filter_key x) (filter_value x)" "value_ok (filter_key y) (filter_value y)"
      using ok by (auto simp: query_ok_def)
    with xy(3) show "x = y"
      by (auto simp: filter_to_dict_def intro!: Filter.equality dest: value_to_dict_inj)
  qed
  ultimately show ?thesis by simp
qed

theorem query_to_dict_determines_witness:
  "query_to_dict \<lparr>query_terms = [], query_filters =
     [\<lparr>filter_key = ''ext'', filter_value = ListValue [''mp4''], filter_negated = False\<rparr>]\<rparr> =
   query_to_dict \<lparr>query_terms = [], query_filters =
     [\<lparr>filter_key = ''ext'', filter_value = ListValue [''mp4''], filter_negated = False\<rparr>]\<rparr> \<and>
   parse ''EXT:.MP4'' = parse ''ext:mp4''"
proof -
  let ?q = "\<lparr>query_terms = [], query_filters =
     [\<lparr>filter_key = ''ext'', filter_value = ListValue [''mp4''], filter_negated = False\<rparr>]\<rparr> :: Query"
  have a: "parse ''EXT:.MP4'' = Inr ?q" and b: "parse ''ext:mp4'' = Inr ?q" by code_simp+
  have "?q = ?q" by (rule query_to_dict_determines [OF a b refl])
  with a b show ?thesis by simp
qed

text \<open>
  The size parser lets a \<open>ValueError\<close> of \<open>int()\<close> escape: a superscript two satisfies
  \<open>isdigit\<close> but is not a decimal digit.
\<close>

theorem query_superscript_escapes:
  "parse (''size:'' @ [CHR 0xB2]) = Inl (Raised ValueError)"
  by code_simp

text \<open>
  The printer does not quote list items, and it drops an explicit \<open>=\<close> in front of an
  operand that starts with a comparator; in both cases the printed query parses to another tree.
\<close>

theorem query_roundtrip_gaps:
  "(\<exists>q q'. parse (''ext:'' @ [CHR 0x22] @ ''a b'' @ [CHR 0x22]) = Inr q \<and> parse (str_query q) = Inr q' \<and> q' \<noteq> q)
   \<and> (\<exists>q q'. parse ''meta.a:=>5'' = Inr q \<and> parse (str_query q) = Inr q' \<and> q' \<noteq> q)"
proof (intro conjI)
  let ?a = "\<lparr>query_terms = [], query_filters =
    [\<lparr>filter_key = ''ext'', filter_value = ListValue [''a b''], filter_negated = False\<rparr>]\<rparr> :: Query"
  let ?b = "\<lparr>query_terms = [\<lparr>term_value = ''b'', term_negated = False, term_fuzzy = False\<rparr>], query_filters =
    [\<lparr>filter_key = ''ext'', filter_value = ListValue [''a''], filter_negated = False\<rparr>]\<rparr> :: Query"
  have "parse (''ext:'' @ [CHR 0x22] @ ''a b'' @ [CHR 0x22]) = Inr ?a" by code_simp
  moreover have "parse (str_query ?a) = Inr ?b" by code_simp
  ultimately show "\<exists>q q'. parse (''ext:'' @ [CHR 0x22] @ ''a b'' @ [CHR 0x22]) = Inr q
    \<and> parse (str_query q) = Inr q' \<and> q' \<noteq> q" by fastforce
  let ?c = "\<lparr>query_terms = [], query_filters =
    [\<lparr>filter_key = ''meta.a'', filter_value = MetaValue ''='' ''>5'' None, filter_negated = False\<rparr>]\<rparr> :: Query"
  let ?d = "\<lparr>query_terms = [], query_filters =
    [\<lparr>filter_key = ''meta.a'', filter_value = MetaValue ''>'' ''5'' None, filter_negated = False\<rparr>]\<rparr> :: Query"
  have "parse ''meta.a:=>5'' = Inr ?c" by code_simp
  moreover have "parse (str_query ?c) = Inr ?d" by code_simp
  ultimately show "\<exists>q q'. parse ''meta.a:=>5'' = Inr q \<and> parse (str_query q) = Inr q' \<and> q' \<noteq> q"
    by fastforce
qed

end
