(* ===== verification/Rbac.thy ===== *)
theory Rbac
  imports Prelude "HOL-Library.List_Lexorder"
begin

text \<open>
  Role based access control (\<open>backend/filearr/rbac.py\<close>, \<open>backend/filearr/roles.py\<close>, the scope helper
  of \<open>backend/filearr/api/rbac.py\<close> and the grant flattener of \<open>backend/filearr/policy.py\<close>): the codec
  of path segments into ltree labels, path grants, the permission decision, the role registry and
  the path scope sent to agents.

  A path is a list of code points (all of Unicode, surrogates included); an ltree label or path is
  a \<open>string\<close>. BLAKE2b is the parameter \<open>dig\<close>, from the bytes of a segment to an eight-byte digest.
\<close>

section \<open>UTF-8\<close>

type_synonym codepoints = "nat list"
type_synonym bytes = "nat list"

definition is_scalar :: "nat \<Rightarrow> bool" where
  "is_scalar c = (c < 0xD800 \<or> 0xE000 \<le> c \<and> c \<le> 0x10FFFF)"

definition utf8_bytes :: "nat \<Rightarrow> bytes" where
  "utf8_bytes c =
     (if c < 0x80 then [c]
      else if c < 0x800 then [0xC0 + c div 64, 0x80 + c mod 64]
      else if c < 0x10000 then [0xE0 + c div 4096, 0x80 + c div 64 mod 64, 0x80 + c mod 64]
      else [0xF0 + c div 262144, 0x80 + c div 4096 mod 64, 0x80 + c div 64 mod 64, 0x80 + c mod 64])"

definition utf8_char :: "nat \<Rightarrow> py_exn + bytes" where
  "utf8_char c = (if is_scalar c then Inr (utf8_bytes c) else Inl UnicodeError)"

definition utf8_encode :: "codepoints \<Rightarrow> py_exn + bytes" where
  "utf8_encode s = bind_res (map_res utf8_char s) (\<lambda>bss. Inr (concat bss))"

definition is_cont :: "nat \<Rightarrow> bool" where
  "is_cont b = (0x80 \<le> b \<and> b < 0xC0)"

text \<open>The strict decoder: overlong forms, surrogates and values above U+10FFFF are errors.\<close>

fun utf8_decode :: "bytes \<Rightarrow> py_exn + codepoints" where
  "utf8_decode [] = Inr []"
| "utf8_decode (b # bs) =
     (if b < 0x80 then bind_res (utf8_decode bs) (\<lambda>cs. Inr (b # cs))
      else if 0xC2 \<le> b \<and> b < 0xE0 then
        (case bs of
           x # r \<Rightarrow> if is_cont x
             then bind_res (utf8_decode r) (\<lambda>cs. Inr (((b - 0xC0) * 64 + (x - 0x80)) # cs))
             else Inl UnicodeError
         | _ \<Rightarrow> Inl UnicodeError)
      else if 0xE0 \<le> b \<and> b < 0xF0 then
        (case bs of
           x # y # r \<Rightarrow>
             (let v = (b - 0xE0) * 4096 + (x - 0x80) * 64 + (y - 0x80) in
              if is_cont x \<and> is_cont y \<and> 0x800 \<le> v \<and> is_scalar v
              then bind_res (utf8_decode r) (\<lambda>cs. Inr (v # cs)) else Inl UnicodeError)
         | _ \<Rightarrow> Inl UnicodeError)
      else if 0xF0 \<le> b \<and> b < 0xF5 then
        (case bs of
           x # y # z # r \<Rightarrow>
             (let v = (b - 0xF0) * 262144 + (x - 0x80) * 4096 + (y - 0x80) * 64 + (z - 0x80) in
              if is_cont x \<and> is_cont y \<and> is_cont z \<and> 0x10000 \<le> v \<and> is_scalar v
              then bind_res (utf8_decode r) (\<lambda>cs. Inr (v # cs)) else Inl UnicodeError)
         | _ \<Rightarrow> Inl UnicodeError)
      else Inl UnicodeError)"

section \<open>Path labels\<close>

definition HEXDIGITS :: string where "HEXDIGITS = ''0123456789abcdef''"

definition hex_digit :: "nat \<Rightarrow> char" where
  "hex_digit d = HEXDIGITS ! d"

definition hex_value :: "char \<Rightarrow> nat" where
  "hex_value c = (let n = cp c in if n < 58 then n - 48 else n - 87)"

text \<open>\<open>f"{n:0wx}"\<close> for a number of at most \<open>w\<close> hexadecimal digits.\<close>

fun hex_fixed :: "nat \<Rightarrow> nat \<Rightarrow> string" where
  "hex_fixed 0 n = []"
| "hex_fixed (Suc w) n = hex_fixed w (n div 16) @ [hex_digit (n mod 16)]"

definition is_passthrough :: "nat \<Rightarrow> bool" where
  "is_passthrough c = (97 \<le> c \<and> c \<le> 122 \<or> 48 \<le> c \<and> c \<le> 57)"

definition LTREE_LABEL_MAX_ENCODED :: nat where "LTREE_LABEL_MAX_ENCODED = 200"
definition HASH_SENTINEL :: string where "HASH_SENTINEL = ''h__''"

definition HASHED_LABEL :: codepoints where
  "HASHED_LABEL = [0xFFFD] @ map of_char ''hashed'' @ [0xFFFD]"

definition hash_label :: "(bytes \<Rightarrow> bytes) \<Rightarrow> codepoints \<Rightarrow> py_exn + string" where
  "hash_label dig segment = bind_res (utf8_encode segment)
     (\<lambda>bs. Inr (HASH_SENTINEL @ concat (map (hex_fixed 2) (dig bs))))"

definition escape_byte :: "nat \<Rightarrow> string" where
  "escape_byte b = CHR ''_'' # hex_fixed 2 b"

definition encode_char :: "nat \<Rightarrow> py_exn + string" where
  "encode_char c = (if is_passthrough c then Inr [char_of c]
     else bind_res (utf8_char c) (\<lambda>bs. Inr (concat (map escape_byte bs))))"

definition encode_path_label :: "(bytes \<Rightarrow> bytes) \<Rightarrow> codepoints \<Rightarrow> py_exn + string" where
  "encode_path_label dig segment =
     (if segment = [] then Inr ''_''
      else bind_res (map_res encode_char segment) (\<lambda>out.
        let label = concat out in
        if LTREE_LABEL_MAX_ENCODED < length label then hash_label dig segment else Inr label))"

text \<open>The loop of \<open>decode_path_label\<close>: one byte per passthrough character or \<open>_XX\<close> escape.\<close>

fun decode_bytes :: "string \<Rightarrow> py_exn + bytes" where
  "decode_bytes [] = Inr []"
| "decode_bytes (c # s) =
     (if c \<noteq> CHR ''_'' then bind_res (decode_bytes s) (\<lambda>bs. Inr (cp c # bs))
      else (case s of
              h # l # r \<Rightarrow>
                if h \<in> set HEXDIGITS \<and> l \<in> set HEXDIGITS
                then bind_res (decode_bytes r) (\<lambda>bs. Inr ((16 * hex_value h + hex_value l) # bs))
                else Inl ValueError
            | _ \<Rightarrow> Inl ValueError))"

definition decode_path_label :: "string \<Rightarrow> py_exn + codepoints" where
  "decode_path_label label =
     (if label = ''_'' then Inr []
      else if startswith label HASH_SENTINEL then Inr HASHED_LABEL
      else bind_res (decode_bytes label) utf8_decode)"

text \<open>A library id is a \<open>uuid.UUID\<close>, a 128-bit number; \<open>uuid.hex\<close> is its 32 hexadecimal digits.\<close>

type_synonym uuid = nat

definition library_label :: "uuid \<Rightarrow> string" where
  "library_label library_id = ''lib_'' @ hex_fixed 32 library_id"

definition slash :: nat where "slash = 47"

definition encode_rel_path :: "(bytes \<Rightarrow> bytes) \<Rightarrow> codepoints \<Rightarrow> py_exn + string" where
  "encode_rel_path dig rel_path =
     bind_res (map_res (encode_path_label dig) (split_on slash rel_path)) (\<lambda>ls. Inr (join ''.'' ls))"

definition path_to_ltree :: "(bytes \<Rightarrow> bytes) \<Rightarrow> codepoints \<Rightarrow> uuid option \<Rightarrow> py_exn + string" where
  "path_to_ltree dig rel_path library_id =
     bind_res (encode_rel_path dig rel_path) (\<lambda>encoded.
       case library_id of
         None \<Rightarrow> Inr encoded
       | Some l \<Rightarrow> Inr (library_label l @ ''.'' @ encoded))"

text \<open>\<open>_scope_for\<close> of the API: the root of a library is its bare label.\<close>

definition scope_for :: "(bytes \<Rightarrow> bytes) \<Rightarrow> uuid \<Rightarrow> codepoints \<Rightarrow> py_exn + string" where
  "scope_for dig library_id rel_path =
     (let rel = strip (\<lambda>c. c = slash) rel_path in
      if rel = [] then Inr (library_label library_id)
      else path_to_ltree dig rel (Some library_id))"

section \<open>Roles, grants and decisions\<close>

definition ACTIONS :: "string set" where
  "ACTIONS = {''search_metadata'', ''search_content'', ''download'', ''upload'', ''modify'', ''delete'',
     ''edit_metadata'', ''manage_alerts''}"

record Role =
  role_name :: string
  ceiling :: "string set"
  scopes :: "string set"
  bypass :: bool

definition USER_CEILING :: "string set" where
  "USER_CEILING = {''search_metadata'', ''search_content'', ''download'', ''upload'', ''modify'',
     ''edit_metadata'', ''manage_alerts''}"

definition VIEWER_CEILING :: "string set" where
  "VIEWER_CEILING = {''search_metadata'', ''search_content''}"

definition ADMIN :: Role where
  "ADMIN = \<lparr>role_name = ''admin'', ceiling = ACTIONS, scopes = {''admin'', ''write'', ''read''}, bypass = True\<rparr>"

definition USER :: Role where
  "USER = \<lparr>role_name = ''user'', ceiling = USER_CEILING, scopes = {''write'', ''read''}, bypass = False\<rparr>"

definition VIEWER :: Role where
  "VIEWER = \<lparr>role_name = ''viewer'', ceiling = VIEWER_CEILING, scopes = {''read''}, bypass = False\<rparr>"

definition BUILTIN_ROLES :: "Role list" where
  "BUILTIN_ROLES = [ADMIN, USER, VIEWER]"

record PathGrant =
  grant_path :: string
  grant_action :: string
  allow :: bool
  group_ref :: "string option"
  principal_ref :: "string option"

definition specificity :: "PathGrant \<Rightarrow> nat" where
  "specificity g = length (split_on (CHR ''.'') (grant_path g))"

datatype DecisionReason = AdminBypass | ExplicitDeny | ExplicitAllow | NoGrantDefaultDeny
  | CeilingClamped

record Decision =
  allowed :: bool
  reason :: DecisionReason
  winner :: "PathGrant option"

definition is_ancestor_or_self :: "string \<Rightarrow> string \<Rightarrow> bool" where
  "is_ancestor_or_self gp item_path =
     (let g = split_on (CHR ''.'') gp; it = split_on (CHR ''.'') item_path
      in if length g > length it then False else take (length g) it = g)"

definition evaluate :: "PathGrant list \<Rightarrow> Role \<Rightarrow> string \<Rightarrow> string \<Rightarrow> Decision" where
  "evaluate grants role item_path action =
     (if bypass role then \<lparr>allowed = True, reason = AdminBypass, winner = None\<rparr>
      else if action \<notin> ceiling role then \<lparr>allowed = False, reason = CeilingClamped, winner = None\<rparr>
      else let matching = filter (\<lambda>g. grant_action g = action
                  \<and> is_ancestor_or_self (grant_path g) item_path) grants
        in if matching = [] then \<lparr>allowed = False, reason = NoGrantDefaultDeny, winner = None\<rparr>
           else let best_specificity = Max (set (map specificity matching));
                    finalists = filter (\<lambda>g. specificity g = best_specificity) matching;
                    denies = filter (\<lambda>g. \<not> allow g) finalists
             in if denies \<noteq> [] then \<lparr>allowed = False, reason = ExplicitDeny, winner = Some (hd denies)\<rparr>
                else \<lparr>allowed = True, reason = ExplicitAllow, winner = Some (hd finalists)\<rparr>)"

section \<open>The role registry\<close>

text \<open>The process-wide cache of \<open>roles.py\<close>; the descriptive \<open>RoleInfo\<close> fields are left out.\<close>

record RoleDef =
  def_name :: string
  def_scopes :: "string list"
  def_ceiling_actions :: "string list"

record registry =
  reg_roles :: "(string \<times> Role) list"
  generation :: int
  loaded_generation :: int
  loaded_until :: int

definition builtins :: "(string \<times> Role) list" where
  "builtins = map (\<lambda>r. (role_name r, r)) BUILTIN_ROLES"

definition bump_generation :: "registry \<Rightarrow> registry" where
  "bump_generation g = g\<lparr>generation := generation g + 1\<rparr>"

definition empty_role :: "string \<Rightarrow> Role" where
  "empty_role name = \<lparr>role_name = name, ceiling = {}, scopes = {}, bypass = False\<rparr>"

definition get :: "registry \<Rightarrow> string option \<Rightarrow> Role" where
  "get g name = (case name of
       None \<Rightarrow> empty_role []
     | Some n \<Rightarrow>
         if n = [] then empty_role []
         else (case map_of (reg_roles g) n of
                 Some r \<Rightarrow> r
               | None \<Rightarrow> (case map_of builtins n of Some b \<Rightarrow> b | None \<Rightarrow> empty_role n)))"

definition known :: "registry \<Rightarrow> string option \<Rightarrow> bool" where
  "known g name = (case name of
       None \<Rightarrow> False
     | Some n \<Rightarrow> n \<noteq> [] \<and> (map_of (reg_roles g) n \<noteq> None \<or> map_of builtins n \<noteq> None))"

definition builtin_rank :: "string \<Rightarrow> int" where
  "builtin_rank n = (if n = ''viewer'' then 0 else if n = ''user'' then 1
     else if n = ''admin'' then 2 else -1)"

text \<open>The privilege key, as a list of integers; tuples and strings compare lexicographically.\<close>

definition privilege_key :: "registry \<Rightarrow> string \<Rightarrow> int list" where
  "privilege_key g name =
     (let r = get g (Some name);
          scope_rank = (if ''write'' \<in> scopes r then 2 else if ''read'' \<in> scopes r then 1 else 0)
      in [if bypass r then 1 else 0, scope_rank, int (card (ceiling r)), builtin_rank name]
         @ map of_char name)"

fun max_by :: "('a \<Rightarrow> 'k::linorder) \<Rightarrow> 'a \<Rightarrow> 'a list \<Rightarrow> 'a" where
  "max_by k b [] = b"
| "max_by k b (x # xs) = max_by k (if k b < k x then x else b) xs"

definition pick_highest :: "registry \<Rightarrow> string list \<Rightarrow> string option" where
  "pick_highest g candidates = (case filter (\<lambda>c. known g (Some c)) candidates of
       [] \<Rightarrow> None
     | c # cs \<Rightarrow> Some (max_by (privilege_key g) c cs))"

definition role_of_row :: "RoleDef \<Rightarrow> Role" where
  "role_of_row row = \<lparr>role_name = def_name row,
     ceiling = set (filter (\<lambda>a. a \<in> ACTIONS) (def_ceiling_actions row)),
     scopes = set (def_scopes row), bypass = ''admin'' \<in> set (def_scopes row)\<rparr>"

fun setdefaults :: "(string \<times> Role) list \<Rightarrow> (string \<times> Role) list \<Rightarrow> (string \<times> Role) list" where
  "setdefaults [] d = d"
| "setdefaults ((k, v) # bs) d = setdefaults bs (if map_of d k = None then d @ [(k, v)] else d)"

definition install :: "RoleDef list \<Rightarrow> registry \<Rightarrow> registry" where
  "install rows g = g\<lparr>reg_roles :=
     setdefaults builtins (foldl (\<lambda>d row. dict_set (def_name row) (role_of_row row) d) [] rows)\<rparr>"

definition TTL_SECONDS :: int where "TTL_SECONDS = 30000000"

text \<open>\<open>rows = None\<close> is a failing query: the previous view keeps serving.\<close>

definition ensure_loaded :: "int \<Rightarrow> bool \<Rightarrow> RoleDef list option \<Rightarrow> registry \<Rightarrow> registry" where
  "ensure_loaded now force rows g =
     (if \<not> force \<and> loaded_generation g = generation g \<and> loaded_until g > now then g
      else case rows of
             None \<Rightarrow> g
           | Some rs \<Rightarrow> (install rs g)\<lparr>loaded_generation := generation g,
               loaded_until := now + TTL_SECONDS\<rparr>)"

section \<open>Path scopes for agents\<close>

datatype flatten_error = PathScopeFlattenError | DecodeError py_exn

definition lib_label_re :: "string \<Rightarrow> bool" where
  "lib_label_re s = (let b = chomp s in length b = 36 \<and> take 4 b = ''lib_''
     \<and> list_all (\<lambda>c. c \<in> set HEXDIGITS) (drop 4 b))"

definition label_segment :: "string \<Rightarrow> flatten_error + codepoints" where
  "label_segment label = (case decode_path_label label of
       Inl e \<Rightarrow> Inl (DecodeError e)
     | Inr seg \<Rightarrow> if seg = HASHED_LABEL then Inl PathScopeFlattenError else Inr seg)"

definition ltree_to_rel_path :: "string \<Rightarrow> bool \<Rightarrow> flatten_error + codepoints" where
  "ltree_to_rel_path path strip_library_prefix =
     (let labels0 = split_on (CHR ''.'') path;
          labels = (if strip_library_prefix \<and> labels0 \<noteq> [] \<and> lib_label_re (hd labels0)
                    then tl labels0 else labels0)
      in bind_res (map_res label_segment labels) (\<lambda>segments. Inr (join [slash] segments)))"

definition STAR_STAR :: codepoints where "STAR_STAR = [42, 42]"

definition grant_predicates :: "bool \<Rightarrow> PathGrant \<Rightarrow> flatten_error + codepoints list" where
  "grant_predicates strip_library_prefix g =
     (if \<not> allow g then Inl PathScopeFlattenError
      else bind_res (ltree_to_rel_path (grant_path g) strip_library_prefix) (\<lambda>rel.
        if rel = [] then Inr [STAR_STAR] else Inr [rel, rel @ [slash] @ STAR_STAR]))"

definition flatten_path_grants :: "PathGrant list \<Rightarrow> string \<Rightarrow> bool \<Rightarrow> flatten_error + codepoints list" where
  "flatten_path_grants grants read_action strip_library_prefix =
     bind_res (map_res (grant_predicates strip_library_prefix)
                 (filter (\<lambda>g. grant_action g = read_action) grants))
       (\<lambda>ps. Inr (sort (remdups (concat ps))))"

section \<open>The label codec\<close>

lemma hex_digit_facts:
  "list_all (\<lambda>d. hex_value (hex_digit d) = d \<and> hex_digit d \<in> set HEXDIGITS
     \<and> is_passthrough (cp (hex_digit d))) [0..<16]"
  by code_simp

lemma hex_digit_ok:
  assumes "d < 16"
  shows "hex_value (hex_digit d) = d" "hex_digit d \<in> set HEXDIGITS" "is_passthrough (cp (hex_digit d))"
  using hex_digit_facts assms by (simp_all only: list_all_iff set_upt atLeastLessThan_iff zero_le simp_thms Ball_def)

lemma hex_digit_eq: "d < 16 \<Longrightarrow> e < 16 \<Longrightarrow> hex_digit d = hex_digit e \<longleftrightarrow> d = e"
  using hex_digit_ok(1) by metis

lemma length_hex_fixed [simp]: "length (hex_fixed w n) = w"
  by (induction w arbitrary: n) auto

lemma hex_fixed_inj: "n < 16 ^ w \<Longrightarrow> m < 16 ^ w \<Longrightarrow> hex_fixed w n = hex_fixed w m \<Longrightarrow> n = m"
proof (induction w arbitrary: n m)
  case (Suc w)
  then have "n div 16 = m div 16" "n mod 16 = m mod 16"
    by (auto simp: hex_digit_eq less_mult_imp_div_less)
  then show ?case by (metis div_mult_mod_eq)
qed simp

lemma hex_fixed_chars: "c \<in> set (hex_fixed w n) \<Longrightarrow> c \<in> set HEXDIGITS"
  by (induction w arbitrary: n) (auto simp: hex_digit_ok)

lemma concat_same_length_inj:
  assumes "\<And>x. length (f x) = k" "0 < k"
  shows "concat (map f xs) = concat (map f ys) \<Longrightarrow>
   (\<And>x y. x \<in> set xs \<Longrightarrow> y \<in> set ys \<Longrightarrow> f x = f y \<Longrightarrow> x = y) \<Longrightarrow> xs = ys"
proof (induction xs arbitrary: ys)
  case Nil
  have "f y \<noteq> []" for y using assms(1) [of y] assms(2) by auto
  with Nil show ?case by (cases ys) auto
next
  case (Cons x xs)
  have ne: "f x \<noteq> []" using assms(1) [of x] assms(2) by auto
  then obtain y zs where ys: "ys = y # zs" using Cons.prems(1) by (cases ys) auto
  have "length (f x) = length (f y)" using assms(1) by simp
  with Cons.prems(1) ys have eq: "f x = f y" "concat (map f xs) = concat (map f zs)" by simp_all
  from Cons.prems(2) ys eq(1) have "x = y" by simp
  moreover have "xs = zs" using eq(2) Cons.prems(2) ys by (intro Cons.IH) auto
  ultimately show ?case using ys by simp
qed

lemma hex_bytes_inj:
  assumes "concat (map (hex_fixed 2) xs) = concat (map (hex_fixed 2) ys)" "\<forall>b \<in> set xs \<union> set ys. b < 256"
  shows "xs = ys"
  using _ _ assms(1)
proof (rule concat_same_length_inj [where k = 2])
  fix x y assume "x \<in> set xs" "y \<in> set ys" "hex_fixed 2 x = hex_fixed 2 y"
  with assms(2) hex_fixed_inj [of x 2 y] show "x = y" by simp
qed simp_all

lemma hex_fixed_2: "hex_fixed 2 b = [hex_digit (b div 16 mod 16), hex_digit (b mod 16)]"
  by (simp add: numeral_2_eq_2)

lemma decode_escape:
  assumes "b < 256"
  shows "decode_bytes (escape_byte b @ s) = bind_res (decode_bytes s) (\<lambda>bs. Inr (b # bs))"
  using assms by (simp add: escape_byte_def hex_fixed_2 hex_digit_ok less_mult_imp_div_less)

lemma decode_escapes:
  "\<forall>b \<in> set bs. b < 256 \<Longrightarrow>
   decode_bytes (concat (map escape_byte bs) @ s) = bind_res (decode_bytes s) (\<lambda>r. Inr (bs @ r))"
proof (induction bs)
  case Nil
  then show ?case by (cases "decode_bytes s") auto
next
  case (Cons b bs)
  then show ?case by (cases "decode_bytes s") (auto simp: decode_escape)
qed

lemma utf8_bytes_bound: "is_scalar c \<Longrightarrow> b \<in> set (utf8_bytes c) \<Longrightarrow> b < 256"
  by (auto simp: utf8_bytes_def is_scalar_def split: if_splits)

lemma passthrough_byte: "is_passthrough c \<Longrightarrow> is_scalar c \<and> utf8_bytes c = [c] \<and> c < 256 \<and> c \<noteq> 95"
  by (auto simp: is_passthrough_def is_scalar_def utf8_bytes_def)

lemma decode_char:
  assumes "encode_char c = Inr l"
  shows "is_scalar c \<and> decode_bytes (l @ s) = bind_res (decode_bytes s) (\<lambda>r. Inr (utf8_bytes c @ r))"
proof (cases "is_passthrough c")
  case True
  with assms passthrough_byte [OF True] show ?thesis
    by (auto simp: encode_char_def char_cp_eq)
next
  case False
  with assms have "is_scalar c" "l = concat (map escape_byte (utf8_bytes c))"
    by (auto simp: encode_char_def utf8_char_def split: if_splits)
  then show ?thesis using decode_escapes utf8_bytes_bound by auto
qed

lemma decode_chars:
  "map_res encode_char seg = Inr out \<Longrightarrow>
   list_all is_scalar seg \<and> decode_bytes (concat out) = Inr (concat (map utf8_bytes seg))"
proof (induction seg arbitrary: out)
  case (Cons c seg)
  then obtain l ls where "encode_char c = Inr l" "map_res encode_char seg = Inr ls" "out = l # ls"
    by (auto simp: bind_res_Inr)
  with Cons.IH [of ls] decode_char [of c l "concat ls"] show ?case by simp
qed simp

lemma base64_digits:
  fixes c :: nat
  shows "c = 64 * (c div 64) + c mod 64"
    and "c = 4096 * (c div 4096) + 64 * (c div 64 mod 64) + c mod 64"
    and "c = 262144 * (c div 262144) + 4096 * (c div 4096 mod 64) + 64 * (c div 64 mod 64) + c mod 64"
proof -
  have split: "n = 64 * (n div 64) + n mod 64" for n :: nat by simp
  have d: "c div 64 div 64 = c div 4096" "c div 4096 div 64 = c div 262144"
    by (simp_all add: div_mult2_eq [symmetric])
  show "c = 64 * (c div 64) + c mod 64" by (rule split)
  show "c = 4096 * (c div 4096) + 64 * (c div 64 mod 64) + c mod 64"
    using split [of c] split [of "c div 64"] unfolding d by linarith
  show "c = 262144 * (c div 262144) + 4096 * (c div 4096 mod 64) + 64 * (c div 64 mod 64) + c mod 64"
    using split [of c] split [of "c div 64"] split [of "c div 4096"] unfolding d by linarith
qed

lemma utf8_decode_char:
  assumes "is_scalar c"
  shows "utf8_decode (utf8_bytes c @ bs) = bind_res (utf8_decode bs) (\<lambda>cs. Inr (c # cs))"
proof -
  consider "c < 0x80" | "0x80 \<le> c" "c < 0x800" | "0x800 \<le> c" "c < 0x10000" | "0x10000 \<le> c" by linarith
  then show ?thesis
  proof cases
    case 1
    then show ?thesis by (simp add: utf8_bytes_def)
  next
    case 2
    define a d where "a = c div 64" and "d = c mod 64"
    have c: "c = 64 * a + d" "d < 64" using base64_digits(1) [of c] by (simp_all add: a_def d_def)
    have "utf8_bytes c = [0xC0 + a, 0x80 + d]" using 2 by (simp add: utf8_bytes_def a_def d_def)
    moreover have "2 \<le> a" "a < 32" using 2 c by linarith+
    ultimately show ?thesis using c by (simp add: is_cont_def mult.commute)
  next
    case 3
    define a b d where "a = c div 4096" and "b = c div 64 mod 64" and "d = c mod 64"
    have c: "c = 4096 * a + 64 * b + d" "b < 64" "d < 64"
      using base64_digits(2) [of c] by (simp_all add: a_def b_def d_def)
    have "utf8_bytes c = [0xE0 + a, 0x80 + b, 0x80 + d]"
      using 3 by (simp add: utf8_bytes_def a_def b_def d_def)
    moreover have "a < 16" using 3 c by linarith
    ultimately show ?thesis using c 3 assms by (simp add: is_cont_def mult.commute Let_def)
  next
    case 4
    define a x b d where "a = c div 262144" and "x = c div 4096 mod 64" and "b = c div 64 mod 64"
      and "d = c mod 64"
    have c: "c = 262144 * a + 4096 * x + 64 * b + d" "x < 64" "b < 64" "d < 64"
      using base64_digits(3) [of c] by (simp_all add: a_def b_def d_def x_def)
    have "utf8_bytes c = [0xF0 + a, 0x80 + x, 0x80 + b, 0x80 + d]"
      using 4 by (simp add: utf8_bytes_def a_def b_def d_def x_def)
    moreover have "a < 5" using 4 c assms by (simp add: is_scalar_def)
    ultimately show ?thesis using c 4 assms by (simp add: is_cont_def mult.commute Let_def)
  qed
qed

lemma utf8_decode_encode:
  "list_all is_scalar s \<Longrightarrow> utf8_decode (concat (map utf8_bytes s)) = Inr s"
  by (induction s) (auto simp: utf8_decode_char)

text \<open>The label of a segment before the length check, and the segments that are hashed.\<close>

definition char_label :: "nat \<Rightarrow> string" where
  "char_label c = (if is_passthrough c then [char_of c] else concat (map escape_byte (utf8_bytes c)))"

definition seg_label :: "codepoints \<Rightarrow> string" where
  "seg_label s = concat (map char_label s)"

definition over_long :: "codepoints \<Rightarrow> bool" where
  "over_long s = (200 < length (seg_label s))"

definition seg_digest :: "(bytes \<Rightarrow> bytes) \<Rightarrow> codepoints \<Rightarrow> bytes" where
  "seg_digest dig s = dig (concat (map utf8_bytes s))"

text \<open>What \<open>hashlib.blake2b(digest_size=8)\<close> documents: eight bytes.\<close>

definition digest_ok :: "(bytes \<Rightarrow> bytes) \<Rightarrow> bool" where
  "digest_ok dig = (\<forall>bs. length (dig bs) = 8 \<and> (\<forall>b \<in> set (dig bs). b < 256))"

definition collision_free :: "(bytes \<Rightarrow> bytes) \<Rightarrow> codepoints set \<Rightarrow> bool" where
  "collision_free dig S = inj_on (seg_digest dig) {s \<in> S. over_long s}"

lemma encode_char_eq:
  "encode_char c = (if is_scalar c then Inr (char_label c) else Inl UnicodeError)"
  using passthrough_byte [of c] by (auto simp: encode_char_def char_label_def utf8_char_def)

lemma map_encode_char:
  "map_res encode_char s = (if list_all is_scalar s then Inr (map char_label s) else Inl UnicodeError)"
  by (induction s) (auto simp: encode_char_eq)

lemma utf8_encode_eq:
  "list_all is_scalar s \<Longrightarrow> utf8_encode s = Inr (concat (map utf8_bytes s))"
  using map_res_total [of s utf8_char utf8_bytes] by (auto simp: utf8_encode_def utf8_char_def list_all_iff)

lemma encode_path_label_eq:
  "encode_path_label dig s =
     (if s = [] then Inr ''_''
      else if \<not> list_all is_scalar s then Inl UnicodeError
      else if over_long s then Inr (HASH_SENTINEL @ concat (map (hex_fixed 2) (seg_digest dig s)))
      else Inr (seg_label s))"
  by (auto simp: encode_path_label_def map_encode_char Let_def seg_label_def [symmetric] over_long_def
      LTREE_LABEL_MAX_ENCODED_def hash_label_def utf8_encode_eq seg_digest_def)

lemma not_long_Nil [simp]: "\<not> over_long []"
  by (simp add: over_long_def seg_label_def)

lemma decode_seg_label:
  assumes "list_all is_scalar s"
  shows "decode_bytes (seg_label s) = Inr (concat (map utf8_bytes s))"
  using decode_chars [of s "map char_label s"] assms by (simp add: map_encode_char seg_label_def)

lemma seg_label_not_special:
  assumes "list_all is_scalar s"
  shows "seg_label s \<noteq> ''_''" "\<not> startswith (seg_label s) HASH_SENTINEL"
proof -
  have "decode_bytes ''_'' = Inl ValueError" by simp
  with decode_seg_label [OF assms] show "seg_label s \<noteq> ''_''" by auto
  have "CHR ''_'' \<notin> set HEXDIGITS" by (simp add: HEXDIGITS_def)
  then have "decode_bytes (HASH_SENTINEL @ t) = Inl ValueError" for t
    by (cases t) (auto simp: HASH_SENTINEL_def)
  with decode_seg_label [OF assms] show "\<not> startswith (seg_label s) HASH_SENTINEL"
    by (auto simp: startswith_iff)
qed

lemma decode_encode_label:
  assumes "encode_path_label dig s = Inr l" "\<not> over_long s"
  shows "decode_path_label l = Inr s"
proof (cases "s = []")
  case True
  with assms show ?thesis by (simp add: encode_path_label_eq decode_path_label_def)
next
  case False
  with assms have l: "l = seg_label s" and sc: "list_all is_scalar s"
    by (auto simp: encode_path_label_eq split: if_splits)
  with seg_label_not_special [OF sc] show ?thesis
    by (simp add: decode_path_label_def decode_seg_label utf8_decode_encode)
qed

text \<open>The codec interface, on the segments that fit into a label.\<close>

definition fits :: "codepoints \<Rightarrow> bool" where
  "fits s = (list_all is_scalar s \<and> \<not> over_long s)"

definition plain_label :: "codepoints \<Rightarrow> string" where
  "plain_label s = (if s = [] then ''_'' else seg_label s)"

lemma encode_fits: "fits s \<Longrightarrow> encode_path_label dig s = Inr (plain_label s)"
  by (simp add: fits_def encode_path_label_eq plain_label_def)

interpretation path_label: codec plain_label decode_path_label fits
proof
  fix s assume "fits s"
  with encode_fits [of s "\<lambda>_. []"] show "decode_path_label (plain_label s) = Inr s"
    by (auto intro: decode_encode_label simp: fits_def)
qed

lemma encode_label_cases:
  assumes "encode_path_label dig s = Inr l"
  obtains (plain) "fits s" "l = plain_label s"
  | (hashed) "list_all is_scalar s" "over_long s"
      "l = HASH_SENTINEL @ concat (map (hex_fixed 2) (seg_digest dig s))"
  using assms by (auto simp: encode_path_label_eq fits_def plain_label_def split: if_splits)

lemma plain_label_not_hashed: "fits s \<Longrightarrow> \<not> startswith (plain_label s) HASH_SENTINEL"
  using seg_label_not_special(2) [of s]
  by (auto simp: fits_def plain_label_def HASH_SENTINEL_def py_simps)

lemma encode_label_inj:
  assumes s: "encode_path_label dig s = Inr l" and t: "encode_path_label dig t = Inr l"
    and dig: "digest_ok dig" "collision_free dig S" and S: "s \<in> S" "t \<in> S"
  shows "s = t"
  using s
proof (cases rule: encode_label_cases)
  case plain
  from t show ?thesis
  proof (cases rule: encode_label_cases)
    case plain': plain
    with plain path_label.enc_inj show ?thesis by blast
  next
    case hashed
    then have "startswith l HASH_SENTINEL" by simp
    with plain plain_label_not_hashed [of s] show ?thesis by simp
  qed
next
  case hashed
  from t show ?thesis
  proof (cases rule: encode_label_cases)
    case plain
    from hashed have "startswith l HASH_SENTINEL" by simp
    with plain plain_label_not_hashed [of t] show ?thesis by simp
  next
    case hashed': hashed
    with hashed have "concat (map (hex_fixed 2) (seg_digest dig s)) = concat (map (hex_fixed 2) (seg_digest dig t))"
      by simp
    then have "seg_digest dig s = seg_digest dig t"
      using dig(1) by (intro hex_bytes_inj) (auto simp: digest_ok_def seg_digest_def)
    with hashed hashed' dig(2) S show ?thesis by (auto simp: collision_free_def inj_on_def)
  qed
qed

subsection \<open>Labels are valid ltree labels\<close>

definition label_char :: "char \<Rightarrow> bool" where
  "label_char c = (is_passthrough (cp c) \<or> c = CHR ''_'')"

lemma hexdigit_label_char: "c \<in> set HEXDIGITS \<Longrightarrow> label_char c"
proof -
  have "list_all label_char HEXDIGITS" by code_simp
  then show "c \<in> set HEXDIGITS \<Longrightarrow> label_char c" by (simp only: list_all_iff)
qed

lemma seg_label_chars: "c \<in> set (seg_label s) \<Longrightarrow> label_char c"
  by (auto simp: seg_label_def char_label_def escape_byte_def label_char_def passthrough_byte
      split: if_splits dest: hex_fixed_chars hexdigit_label_char [unfolded label_char_def])

lemma encode_label_chars:
  assumes "encode_path_label dig s = Inr l" "c \<in> set l"
  shows "label_char c"
  using assms(1)
proof (cases rule: encode_label_cases)
  case plain
  with assms(2) show ?thesis
    by (auto simp: plain_label_def label_char_def [of "CHR ''_''"] intro: seg_label_chars split: if_splits)
next
  case hashed
  have h: "list_all label_char HASH_SENTINEL" by code_simp
  from hashed assms(2) consider "c \<in> set HASH_SENTINEL" | b where "c \<in> set (hex_fixed 2 b)" by auto
  then show ?thesis using h hex_fixed_chars hexdigit_label_char by cases (auto simp: list_all_iff)
qed

lemma library_label_chars: "c \<in> set (library_label l) \<Longrightarrow> label_char c"
proof -
  have h: "list_all label_char ''lib_''" by code_simp
  assume "c \<in> set (library_label l)"
  then consider "c \<in> set ''lib_''" | "c \<in> set (hex_fixed 32 l)" by (auto simp: library_label_def)
  then show ?thesis using h hex_fixed_chars hexdigit_label_char by cases (auto simp: list_all_iff)
qed

lemma label_char_not_dot [simp]: "\<not> label_char (CHR ''.'')"
  by code_simp

section \<open>Paths and ancestors\<close>

abbreviation segments :: "codepoints \<Rightarrow> codepoints list" where
  "segments p \<equiv> split_on slash p"

lemma split_on_append:
  "split_on c (x @ c # y) = split_on c x @ split_on c y"
proof (induction x)
  case (Cons a x)
  have "cons_hd a (xs @ ys) = cons_hd a xs @ ys" if "xs \<noteq> []" for xs ys using that by (cases xs) auto
  with Cons show ?case by simp
qed simp

lemma split_on_inj: "split_on c x = split_on c y \<Longrightarrow> x = y"
  by (metis join_split_on)

lemma join_append: "xs \<noteq> [] \<Longrightarrow> ys \<noteq> [] \<Longrightarrow> join sep (xs @ ys) = join sep xs @ sep @ join sep ys"
proof (induction xs)
  case (Cons x xs)
  then show ?case by (cases "xs = []") (simp_all add: join_Cons)
qed simp

lemma prefix_segments:
  "prefix (split_on c r) (split_on c q) \<longleftrightarrow> q = r \<or> startswith q (r @ [c])"
proof
  assume "prefix (split_on c r) (split_on c q)"
  then obtain zs where zs: "split_on c q = split_on c r @ zs" by (auto simp: prefix_def)
  show "q = r \<or> startswith q (r @ [c])"
  proof (cases "zs = []")
    case True
    with zs split_on_inj show ?thesis by auto
  next
    case False
    from zs have "join [c] (split_on c q) = join [c] (split_on c r @ zs)" by simp
    with False have "q = r @ [c] @ join [c] zs" by (simp add: join_append)
    then show ?thesis by (auto simp: startswith_iff)
  qed
qed (auto simp: startswith_iff split_on_append)

lemma is_ancestor_prefix:
  "is_ancestor_or_self g i \<longleftrightarrow> prefix (split_on (CHR ''.'') g) (split_on (CHR ''.'') i)"
proof -
  have "take (length xs) ys = xs \<longleftrightarrow> prefix xs ys" for xs ys :: "string list"
    by (metis append_eq_conv_conj prefix_def take_is_prefix)
  then show ?thesis by (auto simp: is_ancestor_or_self_def Let_def dest: prefix_length_le)
qed

lemma no_dot_label: "(\<And>c. c \<in> set l \<Longrightarrow> label_char c) \<Longrightarrow> CHR ''.'' \<notin> set l"
  using label_char_not_dot by blast

lemma path_labels:
  assumes "path_to_ltree dig p (Some l) = Inr x"
  obtains ls where "split_on (CHR ''.'') x = library_label l # ls"
    and "list_all2 (\<lambda>s k. encode_path_label dig s = Inr k) (segments p) ls"
proof -
  from assms obtain ls where ls: "map_res (encode_path_label dig) (segments p) = Inr ls"
    and x: "x = library_label l @ ''.'' @ join ''.'' ls"
    by (auto simp: path_to_ltree_def encode_rel_path_def bind_res_Inr)
  from ls have rel: "list_all2 (\<lambda>s k. encode_path_label dig s = Inr k) (segments p) ls"
    by (simp add: map_res_Inr_list_all2)
  then have "ls \<noteq> []" by auto
  moreover have "CHR ''.'' \<notin> set k" if "k \<in> set ls" for k
    using list_all2_in_set2 [OF rel that] encode_label_chars no_dot_label by metis
  ultimately have "split_on (CHR ''.'') (join ''.'' ls) = ls" by (intro split_on_join) auto
  moreover have "CHR ''.'' \<notin> set (library_label l)" using no_dot_label library_label_chars by blast
  ultimately have "split_on (CHR ''.'') x = library_label l # ls" by (simp add: x split_on_append_sep)
  with rel that show thesis by blast
qed

lemma library_label_inj:
  "l < 2 ^ 128 \<Longrightarrow> m < 2 ^ 128 \<Longrightarrow> library_label l = library_label m \<longleftrightarrow> l = m"
  using hex_fixed_inj [of l 32 m] by (auto simp: library_label_def)

lemma list_all2_prefix_iff:
  assumes "list_all2 R xs ls" "list_all2 R ys ms"
    and inj: "\<And>x y l. x \<in> set xs \<Longrightarrow> y \<in> set ys \<Longrightarrow> R x l \<Longrightarrow> R y l \<Longrightarrow> x = y"
    and fn: "\<And>x l m. R x l \<Longrightarrow> R x m \<Longrightarrow> l = m"
  shows "prefix ls ms \<longleftrightarrow> prefix xs ys"
  using assms(1,2) inj
proof (induction xs ls arbitrary: ys ms rule: list_all2_induct)
  case (Cons x xs l ls)
  show ?case
  proof (cases ys)
    case (Cons y ys')
    with Cons.prems obtain m ms' where ms: "ms = m # ms'" "R y m" "list_all2 R ys' ms'"
      by (auto simp: list_all2_Cons1)
    have "l = m \<longleftrightarrow> x = y" using Cons Cons.prems(2) [of x y] Cons.hyps(1) ms fn by auto
    moreover have "prefix ls ms' \<longleftrightarrow> prefix xs ys'"
      using Cons.prems(2) Cons ms by (intro Cons.IH) auto
    ultimately show ?thesis using Cons ms by simp
  qed (use Cons.prems in auto)
qed simp

lemma labels_prefix_iff:
  assumes "list_all2 (\<lambda>s k. encode_path_label dig s = Inr k) xs ls"
    and "list_all2 (\<lambda>s k. encode_path_label dig s = Inr k) ys ms"
    and "digest_ok dig" "collision_free dig (set xs \<union> set ys)"
  shows "prefix ls ms \<longleftrightarrow> prefix xs ys"
  using assms(1,2)
proof (rule list_all2_prefix_iff)
  fix x y l assume "x \<in> set xs" "y \<in> set ys" "encode_path_label dig x = Inr l" "encode_path_label dig y = Inr l"
  with assms(3,4) show "x = y" by (intro encode_label_inj [of dig x l y "set xs \<union> set ys"]) auto
qed simp

lemma ltree_prefix_iff:
  assumes "path_to_ltree dig p (Some l) = Inr x" "path_to_ltree dig q (Some m) = Inr y"
    and "l < 2 ^ 128" "m < 2 ^ 128"
    and "digest_ok dig" "collision_free dig (set (segments p) \<union> set (segments q))"
  shows "is_ancestor_or_self x y \<longleftrightarrow> l = m \<and> prefix (segments p) (segments q)"
proof -
  from assms(1) obtain ls where ls: "split_on (CHR ''.'') x = library_label l # ls"
    "list_all2 (\<lambda>s k. encode_path_label dig s = Inr k) (segments p) ls" by (rule path_labels)
  from assms(2) obtain ms where ms: "split_on (CHR ''.'') y = library_label m # ms"
    "list_all2 (\<lambda>s k. encode_path_label dig s = Inr k) (segments q) ms" by (rule path_labels)
  from labels_prefix_iff [OF ls(2) ms(2) assms(5,6)] library_label_inj [OF assms(3,4)] show ?thesis
    by (simp add: is_ancestor_prefix ls(1) ms(1))
qed

text \<open>The part of a library a grant names: no segments for the root.\<close>

definition scope_segments :: "codepoints \<Rightarrow> codepoints list" where
  "scope_segments p = (let r = strip (\<lambda>c. c = slash) p in if r = [] then [] else segments r)"

lemma root_scope_iff:
  assumes "path_to_ltree dig q (Some m) = Inr y" and "l < 2 ^ 128" "m < 2 ^ 128"
  shows "is_ancestor_or_self (library_label l) y \<longleftrightarrow> l = m"
proof -
  from assms(1) obtain ms where ms: "split_on (CHR ''.'') y = library_label m # ms" by (rule path_labels)
  have "CHR ''.'' \<notin> set (library_label l)" using no_dot_label library_label_chars by blast
  then have "split_on (CHR ''.'') (library_label l) = [library_label l]" by (rule split_on_no_sep)
  with ms library_label_inj [OF assms(2,3)] show ?thesis by (simp add: is_ancestor_prefix)
qed

lemma scope_prefix_iff:
  assumes "scope_for dig l p = Inr x" "path_to_ltree dig q (Some m) = Inr y"
    and "l < 2 ^ 128" "m < 2 ^ 128"
    and "digest_ok dig" "collision_free dig (set (scope_segments p) \<union> set (segments q))"
  shows "is_ancestor_or_self x y \<longleftrightarrow> l = m \<and> prefix (scope_segments p) (segments q)"
  using assms ltree_prefix_iff [of dig "strip (\<lambda>c. c = slash) p" l x q m y] root_scope_iff [of dig q m y l]
  by (auto simp: scope_for_def scope_segments_def Let_def split: if_splits)

section \<open>Decisions\<close>

abbreviation matches :: "string \<Rightarrow> string \<Rightarrow> PathGrant \<Rightarrow> bool" where
  "matches item_path action g \<equiv> grant_action g = action \<and> is_ancestor_or_self (grant_path g) item_path"

text \<open>A grant is decisive when it matches and no matching grant is more specific.\<close>

definition decisive :: "PathGrant list \<Rightarrow> string \<Rightarrow> string \<Rightarrow> PathGrant \<Rightarrow> bool" where
  "decisive grants item_path action g = (g \<in> set grants \<and> matches item_path action g
     \<and> (\<forall>h \<in> set grants. matches item_path action h \<longrightarrow> specificity h \<le> specificity g))"

lemma finalists_decisive:
  assumes "matching = filter (matches item_path action) grants" "matching \<noteq> []"
  shows "g \<in> set (filter (\<lambda>g. specificity g = Max (set (map specificity matching))) matching)
    \<longleftrightarrow> decisive grants item_path action g"
proof -
  let ?S = "set (map specificity matching)"
  have fin: "finite ?S" "?S \<noteq> {}" using assms(2) by simp_all
  have "specificity g = Max ?S \<longleftrightarrow> (\<forall>h \<in> set matching. specificity h \<le> specificity g)"
    if "g \<in> set matching"
  proof
    assume "specificity g = Max ?S"
    with fin show "\<forall>h \<in> set matching. specificity h \<le> specificity g" by simp
  next
    assume "\<forall>h \<in> set matching. specificity h \<le> specificity g"
    with that fin show "specificity g = Max ?S" by (intro Max_eqI [symmetric]) auto
  qed
  then show ?thesis using assms by (auto simp: decisive_def)
qed

lemma decisive_exists:
  assumes "h \<in> set grants" "matches item_path action h"
  shows "\<exists>g. decisive grants item_path action g"
proof -
  define matching where "matching = filter (matches item_path action) grants"
  with assms have ne: "matching \<noteq> []" by (auto simp: filter_empty_conv)
  then have "Max (set (map specificity matching)) \<in> set (map specificity matching)" by (intro Max_in) auto
  then obtain g where "g \<in> set matching" "specificity g = Max (set (map specificity matching))" by auto
  then have "g \<in> set (filter (\<lambda>g. specificity g = Max (set (map specificity matching))) matching)" by simp
  with finalists_decisive [OF matching_def ne] show ?thesis by blast
qed

lemma evaluate_cases:
  obtains (admin) "bypass role" "evaluate grants role ip a = \<lparr>allowed = True, reason = AdminBypass, winner = None\<rparr>"
  | (clamped) "\<not> bypass role" "a \<notin> ceiling role"
      "evaluate grants role ip a = \<lparr>allowed = False, reason = CeilingClamped, winner = None\<rparr>"
  | (none) "\<not> bypass role" "a \<in> ceiling role" "\<forall>g \<in> set grants. \<not> matches ip a g"
      "evaluate grants role ip a = \<lparr>allowed = False, reason = NoGrantDefaultDeny, winner = None\<rparr>"
  | (denied) d where "\<not> bypass role" "a \<in> ceiling role" "decisive grants ip a d" "\<not> allow d"
      "evaluate grants role ip a = \<lparr>allowed = False, reason = ExplicitDeny, winner = Some d\<rparr>"
  | (granted) g where "\<not> bypass role" "a \<in> ceiling role" "decisive grants ip a g" "allow g"
      "\<forall>d. decisive grants ip a d \<longrightarrow> allow d"
      "evaluate grants role ip a = \<lparr>allowed = True, reason = ExplicitAllow, winner = Some g\<rparr>"
proof (cases "bypass role \<or> a \<notin> ceiling role")
  case True
  then show thesis using admin clamped by (cases "bypass role") (simp_all add: evaluate_def)
next
  case False
  define matching where "matching = filter (matches ip a) grants"
  define finalists where "finalists = filter (\<lambda>g. specificity g = Max (set (map specificity matching))) matching"
  define denies where "denies = filter (\<lambda>g. \<not> allow g) finalists"
  have ev: "evaluate grants role ip a =
    (if matching = [] then \<lparr>allowed = False, reason = NoGrantDefaultDeny, winner = None\<rparr>
     else if denies \<noteq> [] then \<lparr>allowed = False, reason = ExplicitDeny, winner = Some (hd denies)\<rparr>
     else \<lparr>allowed = True, reason = ExplicitAllow, winner = Some (hd finalists)\<rparr>)"
    using False by (simp add: evaluate_def Let_def matching_def finalists_def denies_def)
  show thesis
  proof (cases "matching = []")
    case True
    then show thesis using False none ev by (auto simp: matching_def filter_empty_conv)
  next
    case ne: False
    note dec = finalists_decisive [OF matching_def ne, folded finalists_def]
    show thesis
    proof (cases "denies = []")
      case True
      then have all: "\<forall>d. decisive grants ip a d \<longrightarrow> allow d"
        using dec by (auto simp: denies_def filter_empty_conv)
      from ne obtain h where "h \<in> set grants" "matches ip a h" by (auto simp: matching_def filter_empty_conv)
      then obtain g where "decisive grants ip a g" using decisive_exists by blast
      then have "finalists \<noteq> []" using dec by force
      then have "decisive grants ip a (hd finalists)" using dec hd_in_set by blast
      with all True ne False ev show thesis by (intro granted [of "hd finalists"]) auto
    next
      case dn: False
      then have "hd denies \<in> set denies" by simp
      then have "decisive grants ip a (hd denies)" "\<not> allow (hd denies)"
        using dec by (auto simp: denies_def)
      with dn ne False ev show thesis by (intro denied [of "hd denies"]) auto
    qed
  qed
qed

lemma decisive_set_cong: "set gs = set hs \<Longrightarrow> decisive gs = decisive hs"
  by (simp add: decisive_def fun_eq_iff)

section \<open>Flattening grants\<close>

lemma fits_label_inj:
  assumes "fits s" "encode_path_label dig s = Inr l" "encode_path_label dig t = Inr l"
  shows "s = t"
  using assms(3)
proof (cases rule: encode_label_cases)
  case plain
  with assms encode_fits [of s dig] path_label.enc_inj [of s t] show ?thesis by simp
next
  case hashed
  then have "startswith l HASH_SENTINEL" by simp
  with assms encode_fits [of s dig] plain_label_not_hashed [of s] show ?thesis by simp
qed

lemma label_segment_encode:
  assumes "encode_path_label dig s = Inr l" "label_segment l = Inr r"
  shows "fits s \<and> r = s"
  using assms(1)
proof (cases rule: encode_label_cases)
  case plain
  with assms path_label.dec_enc [of s] show ?thesis by (auto simp: label_segment_def split: if_splits)
next
  case hashed
  then have "decode_path_label l = Inr HASHED_LABEL"
    by (auto simp: decode_path_label_def HASH_SENTINEL_def py_simps)
  with assms show ?thesis by (simp add: label_segment_def)
qed

lemma label_segments_encode:
  assumes "list_all2 (\<lambda>s k. encode_path_label dig s = Inr k) xs ls" "map_res label_segment ls = Inr rs"
  shows "list_all fits xs \<and> rs = xs"
  using assms
proof (induction xs ls arbitrary: rs rule: list_all2_induct)
  case (Cons s xs l ls)
  from Cons.prems obtain r rs' where "label_segment l = Inr r" "map_res label_segment ls = Inr rs'" "rs = r # rs'"
    by (auto simp: bind_res_Inr)
  with Cons label_segment_encode show ?case by simp
qed simp

lemma lib_label_re_library: "lib_label_re (library_label l)"
proof -
  have ne: "library_label l \<noteq> []" by (simp add: library_label_def)
  then have "last (library_label l) \<in> set (library_label l)" by (rule last_in_set)
  then have "label_char (last (library_label l))" by (rule library_label_chars)
  moreover have "\<not> label_char newline" by code_simp
  ultimately have "chomp (library_label l) = library_label l" by (auto simp: chomp_def)
  then show ?thesis
    using hex_fixed_chars by (auto simp: lib_label_re_def library_label_def list_all_iff Let_def)
qed

lemma scope_rel_path:
  assumes "scope_for dig l p = Inr x" "ltree_to_rel_path x True = Inr rel"
  shows "rel = strip (\<lambda>c. c = slash) p \<and> list_all fits (scope_segments p)"
proof (cases "strip (\<lambda>c. c = slash) p = []")
  case True
  have "CHR ''.'' \<notin> set (library_label l)" using no_dot_label library_label_chars by blast
  then have "split_on (CHR ''.'') (library_label l) = [library_label l]" by (rule split_on_no_sep)
  moreover have "x = library_label l" using True assms(1) by (simp add: scope_for_def)
  ultimately show ?thesis using True assms(2)
    by (simp add: ltree_to_rel_path_def lib_label_re_library scope_segments_def)
next
  case False
  let ?r = "strip (\<lambda>c. c = slash) p"
  from False assms(1) have "path_to_ltree dig ?r (Some l) = Inr x" by (simp add: scope_for_def)
  then obtain ls where ls: "split_on (CHR ''.'') x = library_label l # ls"
    "list_all2 (\<lambda>s k. encode_path_label dig s = Inr k) (segments ?r) ls" by (rule path_labels)
  from assms(2) obtain rs where rs: "map_res label_segment ls = Inr rs" "rel = join [slash] rs"
    by (auto simp: ltree_to_rel_path_def ls(1) lib_label_re_library bind_res_Inr)
  from label_segments_encode [OF ls(2) rs(1)] rs(2) False show ?thesis by (simp add: scope_segments_def)
qed

text \<open>
  The agent keeps a local row when its path matches one of the predicates with SQLite's \<open>GLOB\<close>, or when there are
  none: an empty list restricts nothing. The matcher is a parameter. What is used of it: a pattern without \<open>*\<close>, \<open>?\<close>
  and \<open>[\<close> matches only itself, and a trailing \<open>**\<close> matches anything.
\<close>

definition applyScope :: "(codepoints \<Rightarrow> codepoints \<Rightarrow> bool) \<Rightarrow> codepoints list \<Rightarrow> codepoints \<Rightarrow> bool" where
  "applyScope glob scope q = (scope = [] \<or> list_ex (\<lambda>g. glob g q) scope)"

definition glob_plain :: "codepoints \<Rightarrow> bool" where
  "glob_plain p = (set p \<inter> {42, 63, 91} = {})"

definition glob_documented :: "(codepoints \<Rightarrow> codepoints \<Rightarrow> bool) \<Rightarrow> bool" where
  "glob_documented glob = (\<forall>p q. glob_plain p \<longrightarrow> (glob p q \<longleftrightarrow> q = p) \<and> (glob (p @ STAR_STAR) q \<longleftrightarrow> startswith q p))"

lemma glob_shapes:
  assumes "glob_documented glob"
  shows "glob STAR_STAR q" "glob_plain rel \<Longrightarrow> glob rel q \<longleftrightarrow> q = rel"
    "glob_plain rel \<Longrightarrow> glob (rel @ [slash] @ STAR_STAR) q \<longleftrightarrow> startswith q (rel @ [slash])"
proof -
  have plain: "glob_plain []" "glob_plain rel \<Longrightarrow> glob_plain (rel @ [slash])" by (auto simp: glob_plain_def slash_def)
  have at_end: "glob_plain p \<Longrightarrow> glob (p @ STAR_STAR) q \<longleftrightarrow> startswith q p" for p
    using assms unfolding glob_documented_def by blast
  from at_end [OF plain(1)] have "glob ([] @ STAR_STAR) q" by (simp add: startswith_def)
  then show "glob STAR_STAR q" by simp
  show "glob rel q \<longleftrightarrow> q = rel" if "glob_plain rel" using assms that unfolding glob_documented_def by blast
  have "glob ((rel @ [slash]) @ STAR_STAR) q \<longleftrightarrow> startswith q (rel @ [slash])" if "glob_plain rel"
    by (rule at_end [OF plain(2) [OF that]])
  then show "glob (rel @ [slash] @ STAR_STAR) q \<longleftrightarrow> startswith q (rel @ [slash])" if "glob_plain rel" using that by simp
qed

lemma set_strip: "set (strip P p) \<subseteq> set p"
  unfolding strip_def rstrip_def lstrip_def by (metis set_dropWhileD set_rev subsetI)

lemma grant_predicates_cover:
  assumes "scope_for dig l p = Inr (grant_path g)" "glob_plain p" "l < 2 ^ 128"
    and "path_to_ltree dig q (Some l) = Inr ip" "grant_predicates True g = Inr ps" and doc: "glob_documented glob"
  shows "allow g \<and> ((\<exists>pr \<in> set ps. glob pr q) \<longleftrightarrow> is_ancestor_or_self (grant_path g) ip)"
proof -
  let ?r = "strip (\<lambda>c. c = slash) p"
  from assms(5) obtain rel where al: "allow g" and rel: "ltree_to_rel_path (grant_path g) True = Inr rel"
    and ps: "ps = (if rel = [] then [STAR_STAR] else [rel, rel @ [slash] @ STAR_STAR])"
    by (auto simp: grant_predicates_def bind_res_Inr split: if_splits)
  from scope_rel_path [OF assms(1) rel] have r: "rel = ?r" and f: "list_all fits (scope_segments p)" by auto
  show ?thesis
  proof (cases "rel = []")
    case True
    with assms(1) r have "grant_path g = library_label l" by (simp add: scope_for_def)
    with root_scope_iff [OF assms(4,3,3)] True ps al glob_shapes(1) [OF doc] show ?thesis by simp
  next
    case False
    with assms(1) r have "path_to_ltree dig rel (Some l) = Inr (grant_path g)" by (simp add: scope_for_def)
    then obtain ls where ls: "split_on (CHR ''.'') (grant_path g) = library_label l # ls"
      "list_all2 (\<lambda>s k. encode_path_label dig s = Inr k) (segments rel) ls" by (rule path_labels)
    from assms(4) obtain ms where ms: "split_on (CHR ''.'') ip = library_label l # ms"
      "list_all2 (\<lambda>s k. encode_path_label dig s = Inr k) (segments q) ms" by (rule path_labels)
    from f False r have fs: "list_all fits (segments rel)" by (simp add: scope_segments_def)
    have "prefix ls ms \<longleftrightarrow> prefix (segments rel) (segments q)"
      using ls(2) ms(2)
    proof (rule list_all2_prefix_iff)
      fix x y k assume "x \<in> set (segments rel)" "encode_path_label dig x = Inr k" "encode_path_label dig y = Inr k"
      with fs fits_label_inj [of x dig k y] show "x = y" by (auto simp: list_all_iff)
    qed simp
    then have anc: "is_ancestor_or_self (grant_path g) ip \<longleftrightarrow> q = rel \<or> startswith q (rel @ [slash])"
      by (simp add: is_ancestor_prefix ls(1) ms(1) prefix_segments)
    have "glob_plain rel" using assms(2) r set_strip [of "\<lambda>c. c = slash" p] unfolding glob_plain_def by blast
    with False ps al anc glob_shapes(2,3) [OF doc, of rel q] show ?thesis by auto
  qed
qed

section \<open>The role registry\<close>

lemma map_of_setdefaults:
  "map_of (setdefaults bs d) k = (case map_of d k of Some v \<Rightarrow> Some v | None \<Rightarrow> map_of bs k)"
  by (induction bs d rule: setdefaults.induct) (auto simp: map_add_def split: option.splits if_splits)

lemma map_of_rows:
  "map_of (foldl (\<lambda>d row. dict_set (def_name row) (role_of_row row) d) d rows) k =
     (case map_of (rev (map (\<lambda>r. (def_name r, role_of_row r)) rows)) k of Some r \<Rightarrow> Some r | None \<Rightarrow> map_of d k)"
  by (induction rows arbitrary: d) (auto simp: map_add_def split: option.splits)

lemma max_by_ge: "y \<in> set (b # xs) \<Longrightarrow> k y \<le> k (max_by k b xs)"
proof (induction xs arbitrary: b y)
  case (Cons x xs)
  let ?b = "if k b < k x then x else b"
  have "k b \<le> k ?b" "k x \<le> k ?b" by auto
  moreover have "k ?b \<le> k (max_by k ?b xs)" by (rule Cons.IH) simp
  ultimately show ?case using Cons.prems Cons.IH [of y ?b] by (auto intro: order.trans)
qed simp

lemma max_by_in: "max_by k b xs \<in> set (b # xs)"
proof (induction xs arbitrary: b)
  case (Cons x xs)
  from Cons.IH [of "if k b < k x then x else b"] show ?case by (auto split: if_splits)
qed simp

lemma collision_free_short: "list_all (\<lambda>s. \<not> over_long s) xs \<Longrightarrow> set xs = S \<Longrightarrow> collision_free dig S"
  by (auto simp: collision_free_def inj_on_def list_all_iff)

lemma registry_lookup:
  "map_of (reg_roles (install rows g)) n =
     (case map_of (rev (map (\<lambda>r. (def_name r, role_of_row r)) rows)) n of
        Some r \<Rightarrow> Some r | None \<Rightarrow> map_of builtins n)"
  by (simp add: install_def map_of_setdefaults map_of_rows split: option.splits)

lemma builtins_keyed: "map_of builtins n = Some r \<Longrightarrow> role_name r = n \<and> r \<in> set BUILTIN_ROLES"
  by (drule map_of_SomeD) (auto simp: builtins_def)

lemma rows_keyed:
  "map_of (rev (map (\<lambda>r. (def_name r, role_of_row r)) rows)) n = Some r \<Longrightarrow>
   \<exists>row \<in> set rows. def_name row = n \<and> r = role_of_row row"
  by (drule map_of_SomeD) auto

section \<open>Properties of access control\<close>

text \<open>
  A segment is encoded exactly when it holds no surrogate (otherwise \<open>UnicodeError\<close>),
  and decoding its label gives the segment back, or the marker of a one-way label when the encoded
  form has more than 200 characters.
\<close>

theorem path_label_roundtrip:
  "case encode_path_label dig s of
     Inl e \<Rightarrow> e = UnicodeError \<and> \<not> list_all is_scalar s
   | Inr l \<Rightarrow> list_all is_scalar s \<and> decode_path_label l = Inr (if over_long s then HASHED_LABEL else s)"
proof (cases "encode_path_label dig s")
  case (Inl e)
  then show ?thesis by (auto simp: encode_path_label_eq split: if_splits)
next
  case (Inr l)
  then show ?thesis
  proof (cases rule: encode_label_cases)
    case plain
    with Inr decode_encode_label [OF Inr] show ?thesis by (simp add: fits_def)
  next
    case hashed
    with Inr show ?thesis by (simp add: decode_path_label_def HASH_SENTINEL_def py_simps)
  qed
qed

text \<open>
  Property C2. Two items have the same ltree scope only when they are in the same library and at the
  same path, as long as no two over-long segments of their paths collide under BLAKE2b.
\<close>

theorem path_to_ltree_injective:
  assumes "path_to_ltree dig p (Some l) = Inr x" and "path_to_ltree dig q (Some m) = Inr x"
    and "l < 2 ^ 128" and "m < 2 ^ 128"
    and "digest_ok dig" and "collision_free dig (set (segments p) \<union> set (segments q))"
  shows "l = m \<and> p = q"
proof -
  have self: "is_ancestor_or_self x x" by (simp add: is_ancestor_prefix)
  have "collision_free dig (set (segments q) \<union> set (segments p))"
    using assms(6) by (simp add: Un_commute)
  note rev = ltree_prefix_iff [OF assms(2,1,4,3,5) this]
  from self ltree_prefix_iff [OF assms] rev
  have "l = m" "prefix (segments p) (segments q)" "prefix (segments q) (segments p)" by (iprover dest: iffD1)+
  then show ?thesis using split_on_inj [of slash p q] prefix_order.antisym [of "segments p" "segments q"]
    by iprover
qed

definition zero_digest :: "bytes \<Rightarrow> bytes" where
  "zero_digest bs = replicate 8 0"

lemma zero_digest_ok: "digest_ok zero_digest"
  by (simp add: digest_ok_def zero_digest_def)

abbreviation cps :: "string \<Rightarrow> codepoints" where
  "cps s \<equiv> map of_char s"

theorem path_to_ltree_injective_witness:
  "path_to_ltree zero_digest (cps ''Foo/b.c'') (Some 5) =
     Inr ''lib_00000000000000000000000000000005._46oo.b_2ec'' \<and> (5::nat) = 5 \<and> cps ''Foo/b.c'' = cps ''Foo/b.c''"
proof -
  let ?p = "cps ''Foo/b.c''"
  have x: "path_to_ltree zero_digest ?p (Some 5) = Inr ''lib_00000000000000000000000000000005._46oo.b_2ec''"
    by code_simp
  have "list_all (\<lambda>s. \<not> over_long s) (segments ?p)" by code_simp
  then have "collision_free zero_digest (set (segments ?p) \<union> set (segments ?p))"
    by (rule collision_free_short) simp
  from path_to_ltree_injective [OF x x _ _ zero_digest_ok this] x show ?thesis by simp
qed

text \<open>
  Property C3. The scope of a grant covers an item exactly when the item is in the granted library
  and the granted directory is an ancestor of the item's path or the path itself, segment by
  segment; the root grant covers the whole library and nothing of another one.
\<close>

theorem scope_covers_subtree:
  assumes "scope_for dig l p = Inr x" and "path_to_ltree dig q (Some m) = Inr y"
    and "l < 2 ^ 128" and "m < 2 ^ 128"
    and "digest_ok dig" and "collision_free dig (set (scope_segments p) \<union> set (segments q))"
  shows "is_ancestor_or_self x y \<longleftrightarrow> l = m \<and> prefix (scope_segments p) (segments q)"
  using assms by (rule scope_prefix_iff)

theorem scope_covers_subtree_witness:
  "\<not> is_ancestor_or_self ''lib_00000000000000000000000000000001.movies''
       ''lib_00000000000000000000000000000001.movies_5fextra.a''
   \<and> \<not> prefix (scope_segments (cps ''/movies/'')) (segments (cps ''movies_extra/a''))"
proof -
  let ?p = "cps ''/movies/''" and ?q = "cps ''movies_extra/a''"
  have x: "scope_for zero_digest 1 ?p = Inr ''lib_00000000000000000000000000000001.movies''"
    and y: "path_to_ltree zero_digest ?q (Some 1) = Inr ''lib_00000000000000000000000000000001.movies_5fextra.a''"
    by code_simp+
  have "list_all (\<lambda>s. \<not> over_long s) (scope_segments ?p @ segments ?q)" by code_simp
  then have "collision_free zero_digest (set (scope_segments ?p) \<union> set (segments ?q))"
    by (rule collision_free_short) simp
  from scope_covers_subtree [OF x y _ _ zero_digest_ok this]
  have "is_ancestor_or_self ''lib_00000000000000000000000000000001.movies''
       ''lib_00000000000000000000000000000001.movies_5fextra.a'' \<longleftrightarrow>
    prefix (scope_segments ?p) (segments ?q)" by simp
  moreover have "\<not> prefix (scope_segments ?p) (segments ?q)" by code_simp
  ultimately show ?thesis by simp
qed

text \<open>
  Property C1. Access is allowed exactly for a bypass role, or when the action is inside the role's
  ceiling, some grant for the action matches the item, and no deny is among the most specific
  matching grants.
\<close>

theorem evaluate_decision:
  "allowed (evaluate grants role ip a) \<longleftrightarrow>
     bypass role \<or> (a \<in> ceiling role \<and> (\<exists>g. decisive grants ip a g)
       \<and> \<not> (\<exists>d. decisive grants ip a d \<and> \<not> allow d))"
proof (cases rule: evaluate_cases [of role grants ip a])
  case none
  then show ?thesis by (auto simp: decisive_def)
qed auto

text \<open>
  The decision and its reason depend on the set of grants only, not on their order or
  multiplicity, and a decision that names a grant names one of the most specific matching grants,
  whose effect is the decision.
\<close>

theorem evaluate_order_irrelevant:
  assumes "set gs = set hs"
  shows "allowed (evaluate gs role ip a) = allowed (evaluate hs role ip a)
    \<and> reason (evaluate gs role ip a) = reason (evaluate hs role ip a)
    \<and> (case winner (evaluate gs role ip a) of
         None \<Rightarrow> reason (evaluate gs role ip a) \<in> {AdminBypass, CeilingClamped, NoGrantDefaultDeny}
       | Some g \<Rightarrow> decisive gs ip a g \<and> allow g = allowed (evaluate gs role ip a))"
proof -
  have "allowed (evaluate gs role ip a) = allowed (evaluate hs role ip a)
    \<and> reason (evaluate gs role ip a) = reason (evaluate hs role ip a)"
    using assms decisive_set_cong [OF assms] decisive_exists
    by (cases rule: evaluate_cases [of role gs ip a]; cases rule: evaluate_cases [of role hs ip a])
      (auto simp: decisive_def)
  moreover have "case winner (evaluate gs role ip a) of
         None \<Rightarrow> reason (evaluate gs role ip a) \<in> {AdminBypass, CeilingClamped, NoGrantDefaultDeny}
       | Some g \<Rightarrow> decisive gs ip a g \<and> allow g = allowed (evaluate gs role ip a)"
    by (cases rule: evaluate_cases [of role gs ip a]) auto
  ultimately show ?thesis by blast
qed

definition sample_grant :: "string \<Rightarrow> bool \<Rightarrow> PathGrant" where
  "sample_grant p ok = \<lparr>grant_path = p, grant_action = ''download'', allow = ok, group_ref = None,
     principal_ref = None\<rparr>"

theorem evaluate_order_irrelevant_witness:
  "set [sample_grant ''lib_1'' True, sample_grant ''lib_1.a'' False] =
     set [sample_grant ''lib_1.a'' False, sample_grant ''lib_1'' True]
   \<and> evaluate [sample_grant ''lib_1'' True, sample_grant ''lib_1.a'' False] USER ''lib_1.a.b'' ''download''
       = \<lparr>allowed = False, reason = ExplicitDeny, winner = Some (sample_grant ''lib_1.a'' False)\<rparr>
   \<and> \<not> allowed (evaluate [sample_grant ''lib_1.a'' False, sample_grant ''lib_1'' True] USER ''lib_1.a.b'' ''download'')"
proof -
  have s: "set [sample_grant ''lib_1'' True, sample_grant ''lib_1.a'' False] =
     set [sample_grant ''lib_1.a'' False, sample_grant ''lib_1'' True]" by auto
  have e: "evaluate [sample_grant ''lib_1'' True, sample_grant ''lib_1.a'' False] USER ''lib_1.a.b'' ''download''
       = \<lparr>allowed = False, reason = ExplicitDeny, winner = Some (sample_grant ''lib_1.a'' False)\<rparr>" by code_simp
  from s e evaluate_order_irrelevant [OF s, of USER "''lib_1.a.b''" "''download''"] show ?thesis by simp
qed

text \<open>
  The registry fails closed: after any load, a name resolves to the last row of that
  name (its ceiling cut to the known actions, bypass exactly with the admin scope), else to the
  shipped builtin, else to a role to which no grants give anything.
\<close>

theorem registry_fails_closed:
  assumes "n \<noteq> []"
  shows "(\<exists>row \<in> set rows. def_name row = n \<and> get (install rows g) (Some n) = role_of_row row
            \<and> ceiling (role_of_row row) \<subseteq> ACTIONS)
    \<or> ((\<nexists>row. row \<in> set rows \<and> def_name row = n)
       \<and> (get (install rows g) (Some n) \<in> set BUILTIN_ROLES
          \<or> (\<forall>grants ip a. allowed (evaluate grants (get (install rows g) (Some n)) ip a) = False)))"
proof (cases "map_of (rev (map (\<lambda>r. (def_name r, role_of_row r)) rows)) n")
  case None
  then have "\<nexists>row. row \<in> set rows \<and> def_name row = n" by (auto simp: map_of_eq_None_iff image_image)
  moreover have "get (install rows g) (Some n) \<in> set BUILTIN_ROLES \<or>
      get (install rows g) (Some n) = empty_role n"
    using None assms builtins_keyed by (auto simp: get_def registry_lookup split: option.splits)
  moreover have "allowed (evaluate grants (empty_role n) ip a) = False" for grants ip a
    by (simp add: evaluate_def empty_role_def)
  ultimately show ?thesis by auto
next
  case (Some r)
  with rows_keyed obtain row where "row \<in> set rows" "def_name row = n" "r = role_of_row row" by blast
  with Some assms show ?thesis by (force simp: get_def registry_lookup role_of_row_def)
qed

theorem registry_fails_closed_witness:
  "get (install [\<lparr>def_name = ''ops'', def_scopes = [''read''], def_ceiling_actions = [''download'', ''fly'']\<rparr>]
      \<lparr>reg_roles = [], generation = 0, loaded_generation = -1, loaded_until = 0\<rparr>) (Some ''nobody'') = empty_role ''nobody''
   \<and> (\<forall>grants ip a. allowed (evaluate grants (empty_role ''nobody'') ip a) = False)"
proof -
  let ?rows = "[\<lparr>def_name = ''ops'', def_scopes = [''read''], def_ceiling_actions = [''download'', ''fly'']\<rparr> :: RoleDef]"
  let ?g = "\<lparr>reg_roles = [], generation = 0, loaded_generation = -1, loaded_until = 0\<rparr> :: registry"
  have g: "get (install ?rows ?g) (Some ''nobody'') = empty_role ''nobody''"
    by (simp add: get_def registry_lookup builtins_def BUILTIN_ROLES_def ADMIN_def USER_def VIEWER_def)
  have "empty_role ''nobody'' \<notin> set BUILTIN_ROLES"
    by (simp add: BUILTIN_ROLES_def ADMIN_def USER_def VIEWER_def empty_role_def)
  with registry_fails_closed [of "''nobody''" ?rows ?g] g show ?thesis by simp
qed

text \<open>
  Property C4. When flattening gives a non-empty list, the agent admits with it exactly the items of the library that
  the central evaluation allows. This is for read grants that all lie in that library, made by the API on paths
  without the characters \<open>*\<close>, \<open>?\<close> and \<open>[\<close> (both are gaps the flattener documents), a role without bypass whose ceiling
  holds the read action, and a \<open>GLOB\<close> as SQLite documents it on such patterns. When flattening gives the empty list,
  which it does without read grants, the agent admits every item although the evaluation allows none.
\<close>

theorem flatten_matches_evaluate:
  assumes "glob_documented glob" and "\<forall>g \<in> set grants. grant_action g = read \<longrightarrow>
      (\<exists>p. scope_for dig l p = Inr (grant_path g) \<and> glob_plain p)"
    and "flatten_path_grants grants read True = Inr preds"
    and "l < 2 ^ 128" and "path_to_ltree dig q (Some l) = Inr ip"
    and "\<not> bypass role" and "read \<in> ceiling role"
  shows "if preds = [] then applyScope glob preds q \<and> \<not> allowed (evaluate grants role ip read)
    else applyScope glob preds q \<longleftrightarrow> allowed (evaluate grants role ip read)"
proof -
  let ?gs = "filter (\<lambda>g. grant_action g = read) grants"
  from assms(3) obtain ps where "map_res (grant_predicates True) ?gs = Inr ps" and preds: "set preds = set (concat ps)"
    by (auto simp: flatten_path_grants_def bind_res_Inr)
  then have rel: "list_all2 (\<lambda>g x. grant_predicates True g = Inr x) ?gs ps" by (simp add: map_res_Inr_list_all2)
  have one: "allow g \<and> ((\<exists>pr \<in> set x. glob pr q) \<longleftrightarrow> is_ancestor_or_self (grant_path g) ip)"
    if "g \<in> set ?gs" "grant_predicates True g = Inr x" for g x
    using assms(1,2,4,5) that grant_predicates_cover by fastforce
  have "(\<exists>pr \<in> set preds. glob pr q) \<longleftrightarrow> (\<exists>x \<in> set ps. \<exists>pr \<in> set x. glob pr q)"
    by (auto simp: preds)
  also have "\<dots> \<longleftrightarrow> (\<exists>g \<in> set ?gs. is_ancestor_or_self (grant_path g) ip)"
    using rel one by (meson list_all2_in_set1 list_all2_in_set2)
  also have "\<dots> \<longleftrightarrow> allowed (evaluate grants role ip read)"
  proof -
    have al: "allow g" if "g \<in> set grants" "grant_action g = read" for g
      using that rel one list_all2_in_set1 [OF rel, of g] by auto
    with assms(6,7) decisive_exists [of _ grants read ip] show ?thesis
      by (cases rule: evaluate_cases [of role grants ip read]) (auto simp: decisive_def)
  qed
  finally show ?thesis by (auto simp: applyScope_def list_ex_iff)
qed

text \<open>A matcher for \<open>*\<close> and \<open>?\<close>.\<close>

fun sample_glob :: "codepoints \<Rightarrow> codepoints \<Rightarrow> bool" where
  "sample_glob [] s = (s = [])"
| "sample_glob (c # p) [] = (c = 42 \<and> sample_glob p [])"
| "sample_glob (c # p) (x # s) = (if c = 42 then sample_glob p (x # s) \<or> sample_glob (c # p) s
     else (c = 63 \<or> c = x) \<and> sample_glob p s)"

lemma sample_glob_documented: "glob_documented sample_glob"
proof -
  have star: "sample_glob STAR_STAR q" for q by (induction q) (simp_all add: STAR_STAR_def)
  have lit: "sample_glob p q \<longleftrightarrow> q = p" if "glob_plain p" for p q
    using that by (induction p q rule: sample_glob.induct) (auto simp: glob_plain_def)
  have sub: "sample_glob (p @ STAR_STAR) q \<longleftrightarrow> startswith q p" if "glob_plain p" for p q
    using that
  proof (induction p arbitrary: q)
    case Nil
    show ?case by (simp add: star startswith_def)
  next
    case (Cons c p)
    then show ?case by (cases q) (auto simp: glob_plain_def startswith_def)
  qed
  show ?thesis unfolding glob_documented_def using lit sub by blast
qed

definition read_grant :: "string \<Rightarrow> PathGrant" where
  "read_grant p = \<lparr>grant_path = p, grant_action = ''search_metadata'', allow = True, group_ref = None,
     principal_ref = None\<rparr>"

theorem flatten_matches_evaluate_witness:
  "flatten_path_grants [read_grant ''lib_00000000000000000000000000000001._41.b''] ''search_metadata'' True
     = Inr [cps ''A/b'', cps ''A/b/**'']
   \<and> (applyScope sample_glob [cps ''A/b'', cps ''A/b/**''] (cps ''A/b/x'')
        \<longleftrightarrow> allowed (evaluate [read_grant ''lib_00000000000000000000000000000001._41.b''] VIEWER
          ''lib_00000000000000000000000000000001._41.b.x'' ''search_metadata''))"
proof -
  let ?g = "read_grant ''lib_00000000000000000000000000000001._41.b''"
  have s: "scope_for zero_digest 1 (cps ''A/b'') = Inr ''lib_00000000000000000000000000000001._41.b''" by code_simp
  have "glob_plain (cps ''A/b'')" by code_simp
  with s have grants: "\<forall>g \<in> set [?g]. grant_action g = ''search_metadata'' \<longrightarrow>
      (\<exists>p. scope_for zero_digest 1 p = Inr (grant_path g) \<and> glob_plain p)"
    unfolding read_grant_def by (auto simp del: set_map)
  have f: "flatten_path_grants [?g] ''search_metadata'' True = Inr [cps ''A/b'', cps ''A/b/**'']" by code_simp
  have q: "path_to_ltree zero_digest (cps ''A/b/x'') (Some 1) = Inr ''lib_00000000000000000000000000000001._41.b.x''"
    by code_simp
  have r: "\<not> bypass VIEWER" "''search_metadata'' \<in> ceiling VIEWER" by (simp_all add: VIEWER_def VIEWER_CEILING_def)
  from f flatten_matches_evaluate [OF sample_glob_documented grants f _ q r] show ?thesis by simp
qed

text \<open>
  The flattener fails closed: a deny for the read action, or a path with a one-way
  label, makes it raise instead of emitting a scope.
\<close>

theorem flatten_fails_closed:
  assumes "g \<in> set grants" and "grant_action g = read"
    and "\<not> allow g \<or> (\<exists>s dig l p. scope_for dig l p = Inr (grant_path g) \<and> s \<in> set (scope_segments p) \<and> over_long s)"
  shows "\<exists>e. flatten_path_grants grants read True = Inl e"
proof (rule ccontr)
  assume "\<nexists>e. flatten_path_grants grants read True = Inl e"
  then obtain preds where "flatten_path_grants grants read True = Inr preds"
    by (cases "flatten_path_grants grants read True") auto
  then obtain ps where "list_all2 (\<lambda>g x. grant_predicates True g = Inr x) (filter (\<lambda>g. grant_action g = read) grants) ps"
    by (auto simp: flatten_path_grants_def bind_res_Inr map_res_Inr_list_all2)
  from list_all2_in_set1 [OF this, of g] assms(1,2) obtain x where "grant_predicates True g = Inr x" by auto
  then obtain rel where al: "allow g" and rel: "ltree_to_rel_path (grant_path g) True = Inr rel"
    by (auto simp: grant_predicates_def bind_res_Inr split: if_splits)
  from assms(3) al obtain s dig l p where "scope_for dig l p = Inr (grant_path g)" "s \<in> set (scope_segments p)"
    "over_long s" by blast
  moreover from this(1) have "list_all fits (scope_segments p)" using rel by (rule scope_rel_path [THEN conjunct2])
  ultimately show False unfolding list_all_iff fits_def by blast
qed

theorem flatten_fails_closed_witness:
  "flatten_path_grants [sample_grant ''lib_00000000000000000000000000000001'' False] ''download'' True
     = Inl PathScopeFlattenError
   \<and> (\<exists>e. flatten_path_grants [sample_grant ''lib_00000000000000000000000000000001'' False] ''download'' True = Inl e)"
proof -
  let ?g = "sample_grant ''lib_00000000000000000000000000000001'' False"
  have "?g \<in> set [?g]" "grant_action ?g = ''download''" "\<not> allow ?g" by (simp_all add: sample_grant_def)
  from flatten_fails_closed [OF this(1,2) disjI1 [OF this(3)]]
  have "\<exists>e. flatten_path_grants [?g] ''download'' True = Inl e" .
  moreover have "flatten_path_grants [?g] ''download'' True = Inl PathScopeFlattenError" by code_simp
  ultimately show ?thesis by blast
qed

text \<open>
  Every label is a valid ltree label of at most 200 characters from \<open>[a-z0-9_]\<close>, and
  never empty.
\<close>

theorem path_label_valid:
  assumes "digest_ok dig" and "encode_path_label dig s = Inr l"
  shows "l \<noteq> [] \<and> length l \<le> 200 \<and> (\<forall>c \<in> set l. label_char c)"
proof -
  have cs: "\<forall>c \<in> set l. label_char c" using encode_label_chars [OF assms(2)] by blast
  from assms(2) show ?thesis
  proof (cases rule: encode_label_cases)
    case plain
    have "char_label c \<noteq> []" for c by (auto simp: char_label_def utf8_bytes_def escape_byte_def)
    then have "seg_label s \<noteq> []" if "s \<noteq> []" using that by (cases s) (auto simp: seg_label_def)
    with plain cs show ?thesis by (auto simp: plain_label_def fits_def over_long_def)
  next
    case hashed
    have "length (concat (map (hex_fixed 2) bs)) = 2 * length bs" for bs by (induction bs) auto
    with hashed assms(1) cs show ?thesis by (auto simp: digest_ok_def seg_digest_def HASH_SENTINEL_def)
  qed
qed

theorem path_label_valid_witness:
  "encode_path_label zero_digest (cps ''a B'') = Inr ''a_20_42'' \<and> length ''a_20_42'' \<le> 200
   \<and> list_all label_char ''a_20_42''"
proof -
  have e: "encode_path_label zero_digest (cps ''a B'') = Inr ''a_20_42''" by code_simp
  from e path_label_valid [OF zero_digest_ok e] show ?thesis unfolding list_all_iff by blast
qed

text \<open>
  The label spaces of libraries and of path segments overlap: an unprefixed grant on a
  directory named \<open>libA\<close> and thirty hexadecimal digits is taken for a library label, and flattening
  it yields the whole library.
\<close>

theorem library_label_collision:
  "path_to_ltree dig (cps ''libA'' @ replicate 30 48) None = Inr (library_label (0x41 * 16 ^ 30))
   \<and> flatten_path_grants [read_grant (library_label (0x41 * 16 ^ 30))] ''search_metadata'' True = Inr [STAR_STAR]"
proof
  let ?s = "cps ''libA'' @ replicate 30 48"
  have segs: "segments ?s = [?s]" by code_simp
  have "encode_path_label dig ?s = Inr (plain_label ?s)" by (rule encode_fits) code_simp
  moreover have "plain_label ?s = library_label (0x41 * 16 ^ 30)" by code_simp
  ultimately show "path_to_ltree dig ?s None = Inr (library_label (0x41 * 16 ^ 30))"
    by (simp only: path_to_ltree_def encode_rel_path_def segs) simp
  show "flatten_path_grants [read_grant (library_label (0x41 * 16 ^ 30))] ''search_metadata'' True = Inr [STAR_STAR]"
    by code_simp
qed

text \<open>
  A directory name of 67 upper-case letters, well below the 255 bytes a file system
  allows, is already replaced by its one-way hash.
\<close>

theorem label_hash_threshold:
  "over_long (replicate 67 65) \<and>
   encode_path_label dig (replicate 67 65) = Inr (''h__'' @ concat (map (hex_fixed 2) (dig (replicate 67 65))))"
proof -
  have o: "over_long (replicate 67 65)" and sc: "list_all is_scalar (replicate 67 65)"
    and ne: "replicate 67 (65::nat) \<noteq> []" and bs: "concat (map utf8_bytes (replicate 67 65)) = replicate 67 65"
    by code_simp+
  from o sc ne show ?thesis
    by (simp only: encode_path_label_eq seg_digest_def bs HASH_SENTINEL_def if_True if_False simp_thms)
qed

text \<open>
  Role mapping picks a known candidate of the highest privilege; it gives none exactly
  when no candidate is known.
\<close>

theorem pick_highest_max:
  "case pick_highest g cs of
     None \<Rightarrow> \<not> (\<exists>c \<in> set cs. known g (Some c))
   | Some r \<Rightarrow> r \<in> set cs \<and> known g (Some r)
       \<and> \<not> (\<exists>c \<in> set cs. known g (Some c) \<and> privilege_key g r < privilege_key g c)"
proof (cases "filter (\<lambda>c. known g (Some c)) cs")
  case Nil
  then show ?thesis by (auto simp: pick_highest_def filter_empty_conv)
next
  case (Cons b bs)
  let ?r = "max_by (privilege_key g) b bs"
  have mem: "c \<in> set (b # bs) \<longleftrightarrow> c \<in> set cs \<and> known g (Some c)" for c
    by (simp add: Cons [symmetric])
  have "?r \<in> set (b # bs)" by (rule max_by_in)
  moreover have "\<not> privilege_key g ?r < privilege_key g c" if "c \<in> set (b # bs)" for c
    using max_by_ge [OF that, of "privilege_key g"] by simp
  ultimately show ?thesis using mem Cons by (auto simp: pick_highest_def)
qed

end
