(* ===== verification/Scopes.thy ===== *)
theory Scopes
  imports Rbac
begin

text \<open>
  The two compilations of a principal's grants into row filters: the SQL predicate of
  \<open>backend/filearr/rbac_sql.py\<close> and the search-engine filter of \<open>backend/filearr/tenant_tokens.py\<close>, each
  compared with the reference decision \<open>evaluate\<close> of theory Rbac. An SQL expression is a term of the
  datatype \<open>clause\<close> with SQL's three-valued reading; a filter is a term of \<open>mfilter\<close> with the text the code
  emits for it.
\<close>

section \<open>SQL predicates\<close>

text \<open>
  The column expressions the module builds, with SQL's three-valued reading: \<open>None\<close> is \<open>NULL\<close>, and a row
  is selected when the predicate is true. The descendant operator of the \<open>ltree\<close> type is a parameter.
\<close>

datatype clause = CFalse | CEq string | CStartsWith string | CDescendant string | CNot clause | CAnd clause clause | COr "clause list"

fun not3 :: "bool option \<Rightarrow> bool option" where
  "not3 None = None"
| "not3 (Some b) = Some (\<not> b)"

definition and3 :: "bool option \<Rightarrow> bool option \<Rightarrow> bool option" where
  "and3 a b = (if a = Some False \<or> b = Some False then Some False else if a = None \<or> b = None then None else Some True)"

definition or3 :: "bool option \<Rightarrow> bool option \<Rightarrow> bool option" where
  "or3 a b = not3 (and3 (not3 a) (not3 b))"

fun sat3 :: "(string \<Rightarrow> string \<Rightarrow> bool) \<Rightarrow> string option \<Rightarrow> clause \<Rightarrow> bool option" where
  "sat3 desc col CFalse = Some False"
| "sat3 desc col (CEq s) = map_option (\<lambda>c. c = s) col"
| "sat3 desc col (CStartsWith s) = map_option (\<lambda>c. startswith c s) col"
| "sat3 desc col (CDescendant s) = map_option (\<lambda>c. desc c s) col"
| "sat3 desc col (CNot c) = not3 (sat3 desc col c)"
| "sat3 desc col (CAnd c d) = and3 (sat3 desc col c) (sat3 desc col d)"
| "sat3 desc col (COr cs) = foldr or3 (map (sat3 desc col) cs) (Some False)"

text \<open>A query with no clause selects every row.\<close>

definition selected :: "(string \<Rightarrow> string \<Rightarrow> bool) \<Rightarrow> clause option \<Rightarrow> string option \<Rightarrow> bool" where
  "selected desc cl col = (case cl of None \<Rightarrow> True | Some c \<Rightarrow> sat3 desc col c = Some True)"

definition dot :: string where "dot = ''.''"

definition scope_char :: "char \<Rightarrow> bool" where
  "scope_char c = (let n = cp c in (97 \<le> n \<and> n \<le> 122) \<or> (48 \<le> n \<and> n \<le> 57) \<or> n = 95 \<or> n = 46)"

definition valid_scope :: "string \<Rightarrow> bool" where
  "valid_scope s = (let b = chomp s in b \<noteq> [] \<and> list_all scope_char b)"

definition covers_clause :: "bool \<Rightarrow> string \<Rightarrow> clause" where
  "covers_clause use_ltree scope = (if use_ltree then CDescendant scope else COr [CEq scope, CStartsWith (scope @ dot)])"

definition allow_scopes :: "PathGrant list \<Rightarrow> string \<Rightarrow> string list" where
  "allow_scopes grants action = remdups (map grant_path (filter (\<lambda>g. grant_action g = action \<and> allow g) grants))"

definition deny_scopes :: "PathGrant list \<Rightarrow> string \<Rightarrow> string list" where
  "deny_scopes grants action = remdups (map grant_path (filter (\<lambda>g. grant_action g = action \<and> \<not> allow g) grants))"

text \<open>The allow scopes less the deny scopes, in the order \<open>sorted\<close> gives them.\<close>

definition effective_scopes :: "PathGrant list \<Rightarrow> string \<Rightarrow> string list" where
  "effective_scopes grants action =
     sort_key str_key (filter (\<lambda>s. s \<notin> set (deny_scopes grants action)) (allow_scopes grants action))"

definition disj :: "clause list \<Rightarrow> clause" where
  "disj terms = (if length terms = 1 then hd terms else COr terms)"

definition scope_where_clause :: "Role \<Rightarrow> PathGrant list \<Rightarrow> string \<Rightarrow> bool \<Rightarrow> clause option" where
  "scope_where_clause role grants action use_ltree =
     (if bypass role then None
      else if action \<notin> ceiling role then Some CFalse
      else let deny = deny_scopes grants action; allow = effective_scopes grants action
           in if list_ex (\<lambda>s. \<not> valid_scope s) (allow @ deny) then Some CFalse
              else if allow = [] then Some CFalse
              else let terms = map (\<lambda>a.
                         let covered = covers_clause use_ltree a; under = filter (\<lambda>d. startswith d (a @ dot)) deny
                         in if under \<noteq> [] then CAnd covered (CNot (COr (map (covers_clause use_ltree) under))) else covered) allow
                   in Some (disj terms))"

section \<open>Search filters\<close>

text \<open>
  The filter expressions, their text, and how a document is matched: \<open>=\<close> and \<open>IN\<close> on the array attribute
  \<open>path_scope\<close> test membership.
\<close>

datatype mfilter = MIn "string list" | MEqNotIn string "string list" | MOr "mfilter list" | MPrimary mfilter

record mdoc =
  doc_scopes :: "string list"
  is_sidecar :: bool

fun msat :: "mdoc \<Rightarrow> mfilter \<Rightarrow> bool" where
  "msat d (MIn ss) = list_ex (\<lambda>s. s \<in> set (doc_scopes d)) ss"
| "msat d (MEqNotIn a ds) = (a \<in> set (doc_scopes d) \<and> \<not> list_ex (\<lambda>s. s \<in> set (doc_scopes d)) ds)"
| "msat d (MOr fs) = list_ex (msat d) fs"
| "msat d (MPrimary f) = (msat d f \<and> \<not> is_sidecar d)"

definition FILTER_SIZE_CEILING :: nat where "FILTER_SIZE_CEILING = 4096"
definition PATH_SCOPE_ATTR :: string where "PATH_SCOPE_ATTR = ''path_scope''"
definition ATTR_IS_SIDECAR :: string where "ATTR_IS_SIDECAR = ''is_sidecar''"

definition SEARCH_ACTIONS :: "string list" where
  "SEARCH_ACTIONS = [''search_metadata'', ''search_content'']"

datatype compile_error = CompilationRefused nat nat nat

definition escape_scope :: "string \<Rightarrow> string" where
  "escape_scope s = [CHR 0x22] @ s @ [CHR 0x22]"

definition in_text :: "string list \<Rightarrow> string" where
  "in_text ss = PATH_SCOPE_ATTR @ '' IN ['' @ join '', '' (map escape_scope ss) @ '']''"

fun filter_text :: "mfilter \<Rightarrow> string" where
  "filter_text (MIn ss) = in_text ss"
| "filter_text (MEqNotIn a ds) = ''('' @ PATH_SCOPE_ATTR @ '' = '' @ escape_scope a @ '' AND NOT '' @ in_text ds @ '')''"
| "filter_text (MOr fs) = ''('' @ join '' OR '' (map filter_text fs) @ '')''"
| "filter_text (MPrimary f) = ''('' @ filter_text f @ '') AND '' @ ATTR_IS_SIDECAR @ '' = false''"

record CompiledFilter =
  expression :: string
  cf_scopes :: "string list"

datatype grant_source = OfGrant PathGrant | OfDecision Decision

definition source_grant :: "grant_source \<Rightarrow> PathGrant option" where
  "source_grant g = (case g of OfGrant p \<Rightarrow> Some p | OfDecision d \<Rightarrow> winner d)"

definition source_grants :: "grant_source list \<Rightarrow> PathGrant list" where
  "source_grants gs = map the (filter (\<lambda>g. g \<noteq> None) (map source_grant gs))"

definition guard :: "string \<Rightarrow> nat \<Rightarrow> nat \<Rightarrow> CompiledFilter \<Rightarrow> compile_error + CompiledFilter" where
  "guard text clause_count ceil cf =
     (if length text > ceil then Inl (CompilationRefused (length text) ceil clause_count) else Inr cf)"

definition compile_filter :: "grant_source list \<Rightarrow> bool \<Rightarrow> compile_error + CompiledFilter" where
  "compile_filter grants include_sidecars =
     (let ordered = sort_key str_key (remdups (map grant_path
            (filter (\<lambda>g. allow g \<and> grant_action g \<in> set SEARCH_ACTIONS) (source_grants grants))));
          text = in_text ordered @ (if include_sidecars then [] else '' AND '' @ ATTR_IS_SIDECAR @ '' = false'')
      in guard text (length ordered) FILTER_SIZE_CEILING \<lparr>expression = text, cf_scopes = ordered\<rparr>)"

definition scope_ancestors :: "string \<Rightarrow> string list" where
  "scope_ancestors p = (if p = [] then []
     else let labels = split_on (CHR ''.'') p in map (\<lambda>i. join dot (take (i + 1) labels)) [0..<length labels])"

definition descendant_denies :: "string \<Rightarrow> string list \<Rightarrow> string list" where
  "descendant_denies a deny = sort_key str_key (filter (\<lambda>d. startswith d (a @ dot)) deny)"

definition scope_filter :: "PathGrant list \<Rightarrow> string \<Rightarrow> bool \<Rightarrow> mfilter" where
  "scope_filter grants action include_sidecars =
     (let deny = deny_scopes grants action; allow = effective_scopes grants action;
          simple = filter (\<lambda>a. descendant_denies a deny = []) allow;
          complex_terms = map (\<lambda>a. MEqNotIn a (descendant_denies a deny)) (filter (\<lambda>a. descendant_denies a deny \<noteq> []) allow);
          terms = (if simple \<noteq> [] then [MIn simple] else []) @ complex_terms;
          allow_expr = (if terms = [] then MIn [] else if length terms = 1 then hd terms else MOr terms)
      in if include_sidecars then allow_expr else MPrimary allow_expr)"

definition compile_scope_filter :: "grant_source list \<Rightarrow> string \<Rightarrow> bool \<Rightarrow> nat \<Rightarrow> compile_error + CompiledFilter" where
  "compile_scope_filter grants action include_sidecars ceil =
     (let gs = source_grants grants;
          text = filter_text (scope_filter gs action include_sidecars);
          allow = effective_scopes gs action
      in guard text (length allow + length (deny_scopes gs action)) ceil \<lparr>expression = text, cf_scopes = allow\<rparr>)"

definition rbac_filter_for :: "Role \<Rightarrow> grant_source list \<Rightarrow> string \<Rightarrow> bool \<Rightarrow> nat \<Rightarrow> compile_error + string option" where
  "rbac_filter_for role grants action include_sidecars ceil =
     (if bypass role then Inr None
      else bind_res (compile_scope_filter grants action include_sidecars ceil) (\<lambda>cf. Inr (Some (expression cf))))"

section \<open>Ancestors of one scope form a chain\<close>

abbreviation labels :: "string \<Rightarrow> string list" where
  "labels s \<equiv> split_on (CHR ''.'') s"

lemma labels_inj: "labels s = labels t \<Longrightarrow> s = t"
  by (metis join_split_on)

lemma startswith_dot: "startswith d (a @ dot) \<longleftrightarrow> strict_prefix (labels a) (labels d)"
proof
  assume "startswith d (a @ dot)"
  then obtain t where "d = a @ CHR ''.'' # t" by (auto simp: startswith_iff dot_def)
  then show "strict_prefix (labels a) (labels d)" by (auto simp: split_on_append strict_prefix_def)
next
  assume "strict_prefix (labels a) (labels d)"
  then obtain r where r: "labels d = labels a @ r" "r \<noteq> []" by (auto simp: strict_prefix_def prefix_def)
  have "d = join dot (labels d)" by (simp add: dot_def)
  also have "\<dots> = a @ dot @ join dot r" unfolding r(1) using r(2) by (simp add: join_append dot_def)
  finally show "startswith d (a @ dot)" by (auto simp: startswith_iff)
qed

lemma covers_text: "c = s \<or> startswith c (s @ dot) \<longleftrightarrow> is_ancestor_or_self s c"
  unfolding startswith_dot is_ancestor_prefix using labels_inj by (auto simp: strict_prefix_def)

lemma scope_ancestors_iff: "s \<in> set (scope_ancestors p) \<longleftrightarrow> p \<noteq> [] \<and> is_ancestor_or_self s p"
proof -
  have "s \<in> set (map (\<lambda>i. join dot (take (i + 1) (labels p))) [0..<length (labels p)]) \<longleftrightarrow> prefix (labels s) (labels p)"
  proof
    assume "s \<in> set (map (\<lambda>i. join dot (take (i + 1) (labels p))) [0..<length (labels p)])"
    then obtain i where i: "i < length (labels p)" "s = join dot (take (i + 1) (labels p))" by auto
    then have "take (i + 1) (labels p) \<noteq> []" by (cases "labels p") auto
    moreover have "CHR ''.'' \<notin> set x" if "x \<in> set (take (i + 1) (labels p))" for x
      using that split_on_pieces by (metis in_set_takeD)
    ultimately have "labels s = take (i + 1) (labels p)" using i(2) split_on_join by (metis dot_def)
    then show "prefix (labels s) (labels p)" by (simp add: take_is_prefix)
  next
    assume pre: "prefix (labels s) (labels p)"
    define i where "i = length (labels s) - 1"
    have "length (labels s) = i + 1" by (simp add: i_def)
    with pre have "take (i + 1) (labels p) = labels s" "i < length (labels p)"
      using prefix_length_le [OF pre] by (auto simp: prefix_def)
    then have "s = join dot (take (i + 1) (labels p))" by (simp add: dot_def)
    with \<open>i < length (labels p)\<close> show "s \<in> set (map (\<lambda>i. join dot (take (i + 1) (labels p))) [0..<length (labels p)])" by auto
  qed
  then show ?thesis by (simp add: scope_ancestors_def Let_def is_ancestor_prefix)
qed

lemma chain:
  assumes "is_ancestor_or_self a p" "is_ancestor_or_self d p"
  shows "length (labels a) < length (labels d) \<longleftrightarrow> startswith d (a @ dot)"
    and "length (labels a) = length (labels d) \<Longrightarrow> a = d"
proof -
  from assms have ab: "prefix (labels a) (labels p)" "prefix (labels d) (labels p)" by (simp_all add: is_ancestor_prefix)
  then have c: "prefix (labels a) (labels d) \<or> prefix (labels d) (labels a)" by (rule prefix_same_cases)
  then show "length (labels a) < length (labels d) \<longleftrightarrow> startswith d (a @ dot)"
    unfolding startswith_dot by (metis less_le_not_le prefix_length_le prefix_length_less prefix_order.less_le not_le)
  show "a = d" if "length (labels a) = length (labels d)"
    using c that labels_inj by (metis append_eq_append_conv append_Nil2 prefix_def)
qed

definition scope_admits :: "PathGrant list \<Rightarrow> string \<Rightarrow> string \<Rightarrow> bool" where
  "scope_admits grants action p = (\<exists>a \<in> set (effective_scopes grants action). is_ancestor_or_self a p
     \<and> \<not> (\<exists>d \<in> set (deny_scopes grants action). startswith d (a @ dot) \<and> is_ancestor_or_self d p))"

lemma deny_scopes_iff: "s \<in> set (deny_scopes grants action) \<longleftrightarrow> (\<exists>g \<in> set grants. grant_action g = action \<and> \<not> allow g \<and> grant_path g = s)"
  by (auto simp: deny_scopes_def)

lemma effective_scopes_iff: "s \<in> set (effective_scopes grants action) \<longleftrightarrow>
    s \<notin> set (deny_scopes grants action) \<and> (\<exists>g \<in> set grants. grant_action g = action \<and> allow g \<and> grant_path g = s)"
  by (auto simp: effective_scopes_def allow_scopes_def)

lemma decisive_same_path: "decisive gs p a g \<Longrightarrow> decisive gs p a h \<Longrightarrow> grant_path g = grant_path h"
  by (rule chain(2) [of _ p]) (auto simp: decisive_def specificity_def intro: antisym)

lemma admits_iff_decisive:
  "scope_admits grants action p \<longleftrightarrow> (\<exists>g. decisive grants p action g) \<and> (\<forall>g. decisive grants p action g \<longrightarrow> allow g)"
proof
  assume "scope_admits grants action p"
  then obtain a where a: "a \<in> set (effective_scopes grants action)" "is_ancestor_or_self a p"
    "\<And>d. d \<in> set (deny_scopes grants action) \<Longrightarrow> is_ancestor_or_self d p \<Longrightarrow> \<not> startswith d (a @ dot)" by (auto simp: scope_admits_def)
  then obtain h where h: "h \<in> set grants" "matches p action h" "grant_path h = a" by (auto simp: effective_scopes_iff)
  have "allow g" if g: "decisive grants p action g" for g
  proof (rule ccontr)
    assume "\<not> allow g"
    with g have d: "grant_path g \<in> set (deny_scopes grants action)" "is_ancestor_or_self (grant_path g) p"
      by (auto simp: deny_scopes_iff decisive_def)
    have "length (labels a) \<le> length (labels (grant_path g))" using g h by (auto simp: decisive_def specificity_def)
    moreover have "a \<noteq> grant_path g" using a(1) d(1) by (auto simp: effective_scopes_iff)
    ultimately have "length (labels a) < length (labels (grant_path g))" using chain(2) [OF a(2) d(2)] by linarith
    then show False using chain(1) [OF a(2) d(2)] a(3) [OF d] by blast
  qed
  moreover have "\<exists>g. decisive grants p action g" using decisive_exists [OF h(1,2)] .
  ultimately show "(\<exists>g. decisive grants p action g) \<and> (\<forall>g. decisive grants p action g \<longrightarrow> allow g)" by blast
next
  assume r: "(\<exists>g. decisive grants p action g) \<and> (\<forall>g. decisive grants p action g \<longrightarrow> allow g)"
  then obtain g where g: "decisive grants p action g" "allow g" by blast
  have max: "length (labels (grant_path h)) \<le> length (labels (grant_path g))" if "h \<in> set grants" "matches p action h" for h
    using g that by (auto simp: decisive_def specificity_def)
  have nd: "grant_path g \<notin> set (deny_scopes grants action)"
  proof
    assume "grant_path g \<in> set (deny_scopes grants action)"
    then obtain h where h: "h \<in> set grants" "grant_action h = action" "\<not> allow h" "grant_path h = grant_path g" by (auto simp: deny_scopes_iff)
    with g have "decisive grants p action h" by (auto simp: decisive_def specificity_def)
    with r h(3) show False by blast
  qed
  show "scope_admits grants action p"
    unfolding scope_admits_def
  proof (intro bexI conjI notI)
    show "grant_path g \<in> set (effective_scopes grants action)" using g nd by (auto simp: effective_scopes_iff decisive_def)
    show anc: "is_ancestor_or_self (grant_path g) p" using g by (simp add: decisive_def)
    assume "\<exists>d \<in> set (deny_scopes grants action). startswith d (grant_path g @ dot) \<and> is_ancestor_or_self d p"
    then obtain h where h: "h \<in> set grants" "matches p action h" "startswith (grant_path h) (grant_path g @ dot)" by (auto simp: deny_scopes_iff)
    with chain(1) [OF anc, of "grant_path h"] max [OF h(1,2)] show False by simp
  qed
qed

lemma evaluate_admits:
  "allowed (evaluate grants role p action) \<longleftrightarrow> bypass role \<or> action \<in> ceiling role \<and> scope_admits grants action p"
  unfolding admits_iff_decisive
  by (cases rule: evaluate_cases [of role grants p action]) (auto simp: decisive_def)

section \<open>The SQL predicate\<close>

lemma foldr_or3: "foldr or3 (map (\<lambda>x. Some (f x)) xs) (Some False) = Some (list_ex f xs)"
  by (induction xs) (auto simp: or3_def and3_def)

lemma foldr_or3_None: "xs \<noteq> [] \<Longrightarrow> (\<And>x. x \<in> set xs \<Longrightarrow> f x = None) \<Longrightarrow> foldr or3 (map f xs) (Some False) = None"
proof (induction xs)
  case (Cons x xs)
  then show ?case by (cases "xs = []") (auto simp: or3_def and3_def)
qed simp

text \<open>What the operator \<open><@\<close> of the \<open>ltree\<close> extension computes: the left path is below or equal to the right one.\<close>

definition ltree_descendant :: "(string \<Rightarrow> string \<Rightarrow> bool) \<Rightarrow> bool" where
  "ltree_descendant desc = (\<forall>c s. desc c s \<longleftrightarrow> is_ancestor_or_self s c)"

lemma sat3_covers:
  assumes "use_ltree \<longrightarrow> ltree_descendant desc"
  shows "sat3 desc (Some c) (covers_clause use_ltree s) = Some (is_ancestor_or_self s c)"
    and "sat3 desc None (covers_clause use_ltree s) = None"
  using assms covers_text [of c s] by (auto simp: covers_clause_def ltree_descendant_def or3_def and3_def)

definition scope_term :: "bool \<Rightarrow> string list \<Rightarrow> string \<Rightarrow> clause" where
  "scope_term use_ltree deny a =
     (let covered = covers_clause use_ltree a; under = filter (\<lambda>d. startswith d (a @ dot)) deny
      in if under \<noteq> [] then CAnd covered (CNot (COr (map (covers_clause use_ltree) under))) else covered)"

lemma sat3_term:
  assumes "use_ltree \<longrightarrow> ltree_descendant desc"
  shows "sat3 desc (Some c) (scope_term use_ltree deny a) =
      Some (is_ancestor_or_self a c \<and> \<not> (\<exists>d \<in> set deny. startswith d (a @ dot) \<and> is_ancestor_or_self d c))"
    and "sat3 desc None (scope_term use_ltree deny a) = None"
proof -
  have "sat3 desc (Some c) (COr (map (covers_clause use_ltree) ds)) = Some (list_ex (\<lambda>d. is_ancestor_or_self d c) ds)" for ds
    by (simp add: o_def sat3_covers(1) [OF assms] foldr_or3)
  then show "sat3 desc (Some c) (scope_term use_ltree deny a) =
      Some (is_ancestor_or_self a c \<and> \<not> (\<exists>d \<in> set deny. startswith d (a @ dot) \<and> is_ancestor_or_self d c))"
    by (auto simp: scope_term_def Let_def sat3_covers(1) [OF assms] and3_def list_ex_iff filter_empty_conv)
  show "sat3 desc None (scope_term use_ltree deny a) = None"
    using foldr_or3_None [of _ "\<lambda>d. sat3 desc None (covers_clause use_ltree d)"]
    by (auto simp: scope_term_def Let_def sat3_covers(2) [OF assms] and3_def o_def)
qed

lemma sat3_disj:
  assumes "use_ltree \<longrightarrow> ltree_descendant desc" "xs \<noteq> []"
  shows "sat3 desc (Some c) (disj (map (scope_term use_ltree deny) xs)) =
      Some (\<exists>a \<in> set xs. is_ancestor_or_self a c \<and> \<not> (\<exists>d \<in> set deny. startswith d (a @ dot) \<and> is_ancestor_or_self d c))"
    and "sat3 desc None (disj (map (scope_term use_ltree deny) xs)) = None"
proof -
  show "sat3 desc (Some c) (disj (map (scope_term use_ltree deny) xs)) =
      Some (\<exists>a \<in> set xs. is_ancestor_or_self a c \<and> \<not> (\<exists>d \<in> set deny. startswith d (a @ dot) \<and> is_ancestor_or_self d c))"
    using assms(2) by (cases xs) (auto simp: disj_def sat3_term(1) [OF assms(1)] o_def foldr_or3 list_ex_iff or3_def and3_def)
  have "foldr or3 (map (sat3 desc None \<circ> scope_term use_ltree deny) xs) (Some False) = None"
    using assms(2) by (rule foldr_or3_None) (simp add: sat3_term(2) [OF assms(1)])
  then show "sat3 desc None (disj (map (scope_term use_ltree deny) xs)) = None"
    using assms(2) by (cases xs) (auto simp: disj_def sat3_term(2) [OF assms(1)])
qed

lemma scope_where_clause_cases:
  obtains (all) "bypass role" "scope_where_clause role grants action u = None"
  | (clamped) "\<not> bypass role" "action \<notin> ceiling role" "scope_where_clause role grants action u = Some CFalse"
  | (invalid) s where "\<not> bypass role" "action \<in> ceiling role" "s \<in> set (effective_scopes grants action) \<union> set (deny_scopes grants action)"
      "\<not> valid_scope s" "scope_where_clause role grants action u = Some CFalse"
  | (empty) "\<not> bypass role" "action \<in> ceiling role" "effective_scopes grants action = []" "scope_where_clause role grants action u = Some CFalse"
  | (terms) ts where "\<not> bypass role" "action \<in> ceiling role" "effective_scopes grants action \<noteq> []"
      "ts = map (scope_term u (deny_scopes grants action)) (effective_scopes grants action)"
      "scope_where_clause role grants action u = Some (disj ts)"
proof -
  have t: "(\<lambda>a. let covered = covers_clause u a; under = filter (\<lambda>d. startswith d (a @ dot)) (deny_scopes grants action)
        in if under \<noteq> [] then CAnd covered (CNot (COr (map (covers_clause u) under))) else covered) = scope_term u (deny_scopes grants action)"
    by (simp add: scope_term_def fun_eq_iff)
  show thesis
  proof (cases "bypass role \<or> action \<notin> ceiling role")
    case True
    then show thesis using all clamped by (cases "bypass role") (simp_all add: scope_where_clause_def)
  next
    case False
    show thesis
    proof (cases "list_ex (\<lambda>s. \<not> valid_scope s) (effective_scopes grants action @ deny_scopes grants action)")
      case True
      then obtain s where "s \<in> set (effective_scopes grants action) \<union> set (deny_scopes grants action)" "\<not> valid_scope s"
        by (auto simp: list_ex_iff)
      with False True invalid show thesis by (simp add: scope_where_clause_def)
    next
      case ok: False
      show thesis
      proof (cases "effective_scopes grants action = []")
        case True
        with False ok empty show thesis by (simp add: scope_where_clause_def)
      next
        case ne: False
        with False ok terms show thesis by (simp add: scope_where_clause_def Let_def t [unfolded Let_def])
      qed
    qed
  qed
qed

lemma sql_scope_evaluate:
  assumes "use_ltree \<longrightarrow> ltree_descendant desc"
  shows "(selected desc (scope_where_clause role grants action use_ltree) None \<longleftrightarrow> bypass role)
    \<and> (selected desc (scope_where_clause role grants action use_ltree) (Some p) \<longrightarrow> allowed (evaluate grants role p action))
    \<and> (list_all (\<lambda>g. grant_action g = action \<longrightarrow> valid_scope (grant_path g)) grants \<longrightarrow>
      (selected desc (scope_where_clause role grants action use_ltree) (Some p) \<longleftrightarrow> allowed (evaluate grants role p action)))"
proof (intro conjI)
  note t = sat3_disj [OF assms]
  have e: "scope_admits grants action p \<Longrightarrow> effective_scopes grants action \<noteq> []" by (auto simp: scope_admits_def)
  show "selected desc (scope_where_clause role grants action use_ltree) None \<longleftrightarrow> bypass role"
    by (cases rule: scope_where_clause_cases [of role grants action use_ltree]) (auto simp: selected_def t(2))
  show "selected desc (scope_where_clause role grants action use_ltree) (Some p) \<longrightarrow> allowed (evaluate grants role p action)"
    by (cases rule: scope_where_clause_cases [of role grants action use_ltree])
      (auto simp: selected_def t(1) evaluate_admits scope_admits_def)
  have v: "\<not> list_all (\<lambda>g. grant_action g = action \<longrightarrow> valid_scope (grant_path g)) grants"
    if "s \<in> set (effective_scopes grants action) \<union> set (deny_scopes grants action)" "\<not> valid_scope s" for s
    using that by (auto simp: list_all_iff effective_scopes_iff deny_scopes_iff)
  show "list_all (\<lambda>g. grant_action g = action \<longrightarrow> valid_scope (grant_path g)) grants \<longrightarrow>
      (selected desc (scope_where_clause role grants action use_ltree) (Some p) \<longleftrightarrow> allowed (evaluate grants role p action))"
    using e v by (cases rule: scope_where_clause_cases [of role grants action use_ltree])
      (auto simp: selected_def t(1) evaluate_admits scope_admits_def)
qed

text \<open>
  Property C5. The row filter that listings, reports and exports add to their queries selects, among the
  stamped rows, only rows for which the permission evaluation allows the action, and exactly those when
  every grant for the action has a scope in the encoded alphabet; a row without a scope is selected only
  for a role that bypasses path checks. This holds for the text column and, with the documented
  meaning of the descendant operator, for the \<open>ltree\<close> column.
\<close>

theorem sql_scope_matches_evaluate:
  assumes "use_ltree \<longrightarrow> ltree_descendant desc"
  shows "(selected desc (scope_where_clause role grants action use_ltree) None \<longleftrightarrow> bypass role)
    \<and> (selected desc (scope_where_clause role grants action use_ltree) (Some p) \<longrightarrow> allowed (evaluate grants role p action))
    \<and> (list_all (\<lambda>g. grant_action g = action \<longrightarrow> valid_scope (grant_path g)) grants \<longrightarrow>
      (selected desc (scope_where_clause role grants action use_ltree) (Some p) \<longleftrightarrow> allowed (evaluate grants role p action)))"
  using assms by (rule sql_scope_evaluate)

theorem sql_scope_matches_evaluate_witness:
  "ltree_descendant (\<lambda>c s. is_ancestor_or_self s c)
   \<and> \<not> selected (\<lambda>c s. is_ancestor_or_self s c) (scope_where_clause USER [sample_grant ''a'' True, sample_grant ''a.b'' False] ''download'' True) (Some ''a.b.c'')
   \<and> selected (\<lambda>c s. is_ancestor_or_self s c) (scope_where_clause USER [sample_grant ''a'' True, sample_grant ''a.b'' False] ''download'' True) (Some ''a.c'')"
proof -
  let ?gs = "[sample_grant ''a'' True, sample_grant ''a.b'' False]"
  have l: "ltree_descendant (\<lambda>c s. is_ancestor_or_self s c)" by (simp add: ltree_descendant_def)
  have v: "list_all (\<lambda>g. grant_action g = ''download'' \<longrightarrow> valid_scope (grant_path g)) ?gs" by code_simp
  have "\<not> allowed (evaluate ?gs USER ''a.b.c'' ''download'')" "allowed (evaluate ?gs USER ''a.c'' ''download'')" by code_simp+
  with l v sql_scope_matches_evaluate [of True "\<lambda>c s. is_ancestor_or_self s c"] show ?thesis by blast
qed

section \<open>The search filter\<close>

lemma msat_scope_filter:
  assumes "doc_scopes d = scope_ancestors p" "p \<noteq> []"
  shows "msat d (scope_filter grants action inc) \<longleftrightarrow> (inc \<or> \<not> is_sidecar d) \<and> scope_admits grants action p"
proof -
  define deny where "deny = deny_scopes grants action"
  define under where "under = (\<lambda>a. descendant_denies a deny)"
  define simple where "simple = filter (\<lambda>a. under a = []) (effective_scopes grants action)"
  define complex_terms where "complex_terms = map (\<lambda>a. MEqNotIn a (under a)) (filter (\<lambda>a. under a \<noteq> []) (effective_scopes grants action))"
  define terms where "terms = (if simple \<noteq> [] then [MIn simple] else []) @ complex_terms"
  have f: "scope_filter grants action inc = (let allow_expr = (if terms = [] then MIn [] else if length terms = 1 then hd terms else MOr terms)
      in if inc then allow_expr else MPrimary allow_expr)"
    by (simp add: scope_filter_def terms_def complex_terms_def simple_def under_def deny_def Let_def)
  have in_doc: "s \<in> set (doc_scopes d) \<longleftrightarrow> is_ancestor_or_self s p" for s
    using assms by (simp add: scope_ancestors_iff)
  have u: "s \<in> set (under a) \<longleftrightarrow> s \<in> set deny \<and> startswith s (a @ dot)" for s a
    by (auto simp: under_def descendant_denies_def)
  have terms: "list_ex (msat d) terms \<longleftrightarrow> scope_admits grants action p"
  proof
    assume "list_ex (msat d) terms"
    then consider (simple) a where "a \<in> set simple" "is_ancestor_or_self a p" | (complex) a where "a \<in> set (effective_scopes grants action)" "msat d (MEqNotIn a (under a))"
      by (fastforce simp: terms_def complex_terms_def list_ex_iff in_doc split: if_splits)
    then show "scope_admits grants action p"
    proof cases
      case simple
      then have e: "under a = []" "a \<in> set (effective_scopes grants action)" by (auto simp: simple_def)
      have "\<not> startswith s (a @ dot)" if "s \<in> set deny" for s using u [of s a] that e(1) by simp
      with e(2) simple(2) show ?thesis by (auto simp: scope_admits_def deny_def)
    next
      case complex
      then have c: "is_ancestor_or_self a p" "\<not> (\<exists>s \<in> set (under a). is_ancestor_or_self s p)" by (auto simp: in_doc list_ex_iff)
      have "\<not> is_ancestor_or_self s p" if "s \<in> set deny" "startswith s (a @ dot)" for s using u [of s a] that c(2) by blast
      with complex(1) c(1) show ?thesis by (auto simp: scope_admits_def deny_def)
    qed
  next
    assume "scope_admits grants action p"
    then obtain a where a: "a \<in> set (effective_scopes grants action)" "is_ancestor_or_self a p"
      "\<And>d. d \<in> set deny \<Longrightarrow> startswith d (a @ dot) \<Longrightarrow> \<not> is_ancestor_or_self d p" by (auto simp: scope_admits_def deny_def)
    then have n: "\<not> (\<exists>s \<in> set (under a). is_ancestor_or_self s p)" using u [of _ a] by simp
    show "list_ex (msat d) terms"
    proof (cases "under a = []")
      case True
      with a have "a \<in> set simple" by (simp add: simple_def)
      with a(2) in_doc have "simple \<noteq> []" "msat d (MIn simple)" by (auto simp: list_ex_iff)
      then show ?thesis by (simp add: terms_def)
    next
      case False
      with a n in_doc have "MEqNotIn a (under a) \<in> set terms" "msat d (MEqNotIn a (under a))"
        by (auto simp: terms_def complex_terms_def list_ex_iff)
      then show ?thesis unfolding list_ex_iff by blast
    qed
  qed
  have "msat d (if terms = [] then MIn [] else if length terms = 1 then hd terms else MOr terms) \<longleftrightarrow> list_ex (msat d) terms"
    by (cases terms) auto
  then show ?thesis unfolding f using terms by (auto simp: Let_def)
qed

lemma rbac_filter_text:
  "rbac_filter_for role grants action inc ceil = Inr (Some e) \<longleftrightarrow>
     \<not> bypass role \<and> e = filter_text (scope_filter (source_grants grants) action inc) \<and> length e \<le> ceil"
  by (auto simp: rbac_filter_for_def compile_scope_filter_def guard_def Let_def)

text \<open>
  Property C6. When a search filter is compiled for a role whose ceiling contains the action, the engine
  shows a document carrying the ancestors of its item's scope exactly when the permission evaluation
  allows the action on that item (and, if sidecars are excluded, the document is not one). The filter is
  the complete one or none: compilation is refused exactly when its text is longer than the limit.
\<close>

theorem search_filter_matches_evaluate:
  assumes "action \<in> ceiling role" and "\<not> bypass role"
    and "doc_scopes d = scope_ancestors p" and "p \<noteq> []"
    and "f = scope_filter (source_grants grants) action inc"
    and "meili (filter_text f) d \<longleftrightarrow> msat d f"
  shows "case rbac_filter_for role grants action inc ceil of
      Inr (Some e) \<Rightarrow> (meili e d \<longleftrightarrow> (inc \<or> \<not> is_sidecar d) \<and> allowed (evaluate (source_grants grants) role p action))
    | Inr None \<Rightarrow> False
    | Inl (CompilationRefused n limit k) \<Rightarrow> n = length (filter_text f) \<and> limit = ceil \<and> ceil < n"
proof -
  have r: "rbac_filter_for role grants action inc ceil = (if ceil < length (filter_text f)
      then Inl (CompilationRefused (length (filter_text f)) ceil (length (effective_scopes (source_grants grants) action) + length (deny_scopes (source_grants grants) action)))
      else Inr (Some (filter_text f)))"
    using assms(2,5) by (simp add: rbac_filter_for_def compile_scope_filter_def guard_def Let_def)
  show ?thesis
    using assms(1,2,6) msat_scope_filter [OF assms(3,4)] unfolding r assms(5) by (simp add: evaluate_admits)
qed

definition sample_filter :: mfilter where
  "sample_filter = scope_filter [sample_grant ''a'' True, sample_grant ''a.b'' False] ''download'' True"

theorem search_filter_matches_evaluate_witness:
  "filter_text sample_filter = ''(path_scope = '' @ escape_scope ''a'' @ '' AND NOT path_scope IN ['' @ escape_scope ''a.b'' @ ''])''
   \<and> (\<exists>e. rbac_filter_for USER [OfGrant (sample_grant ''a'' True), OfGrant (sample_grant ''a.b'' False)] ''download'' True 4096 = Inr (Some e)
        \<and> allowed (evaluate [sample_grant ''a'' True, sample_grant ''a.b'' False] USER ''a.c'' ''download''))"
proof -
  let ?gs = "[OfGrant (sample_grant ''a'' True), OfGrant (sample_grant ''a.b'' False)]"
  let ?d = "\<lparr>doc_scopes = scope_ancestors ''a.c'', is_sidecar = False\<rparr>"
  have c: "''download'' \<in> ceiling USER" "\<not> bypass USER" by code_simp+
  have gs: "source_grants ?gs = [sample_grant ''a'' True, sample_grant ''a.b'' False]" by (simp add: source_grants_def source_grant_def)
  have t: "filter_text sample_filter = ''(path_scope = '' @ escape_scope ''a'' @ '' AND NOT path_scope IN ['' @ escape_scope ''a.b'' @ ''])''" by code_simp
  have m: "msat ?d sample_filter" by code_simp
  have l: "length (filter_text sample_filter) \<le> 4096" by code_simp
  then have e: "rbac_filter_for USER ?gs ''download'' True 4096 = Inr (Some (filter_text sample_filter))"
    unfolding rbac_filter_text gs using c(2) by (simp add: sample_filter_def)
  from search_filter_matches_evaluate [of "''download''" USER ?d "''a.c''" sample_filter ?gs True "\<lambda>e d. msat d sample_filter" 4096] c gs m e t
  show ?thesis by (simp add: sample_filter_def)
qed

text \<open>
  The search filter does not apply the role's ceiling: for a role whose ceiling lacks
  \<open>search_metadata\<close>, an allow grant (held through a group, say) opens search results that the permission
  evaluation and the SQL filter both refuse.
\<close>

theorem search_filter_ignores_ceiling:
  "\<exists>role grants p f. \<not> bypass role \<and> f = scope_filter (source_grants grants) ''search_metadata'' True
     \<and> rbac_filter_for role grants ''search_metadata'' True FILTER_SIZE_CEILING = Inr (Some (filter_text f))
     \<and> msat \<lparr>doc_scopes = scope_ancestors p, is_sidecar = False\<rparr> f
     \<and> reason (evaluate (source_grants grants) role p ''search_metadata'') = CeilingClamped
     \<and> scope_where_clause role (source_grants grants) ''search_metadata'' use_ltree = Some CFalse"
proof -
  let ?role = "\<lparr>role_name = ''courier'', ceiling = {''download''}, scopes = {''read''}, bypass = False\<rparr>"
  let ?g = "\<lparr>grant_path = ''lib_1'', grant_action = ''search_metadata'', allow = True, group_ref = Some ''g'', principal_ref = None\<rparr>"
  let ?f = "scope_filter (source_grants [OfGrant ?g]) ''search_metadata'' True"
  have gs: "source_grants [OfGrant ?g] = [?g]" by (simp add: source_grants_def source_grant_def)
  have "rbac_filter_for ?role [OfGrant ?g] ''search_metadata'' True FILTER_SIZE_CEILING = Inr (Some (filter_text ?f))"
    unfolding rbac_filter_text gs by code_simp
  moreover have "msat \<lparr>doc_scopes = scope_ancestors ''lib_1.a'', is_sidecar = False\<rparr> ?f" unfolding gs by code_simp
  moreover have "reason (evaluate [?g] ?role ''lib_1.a'' ''search_metadata'') = CeilingClamped" by (simp add: evaluate_def)
  moreover have "scope_where_clause ?role [?g] ''search_metadata'' use_ltree = Some CFalse" by (simp add: scope_where_clause_def)
  ultimately show ?thesis using gs by (intro exI [of _ ?role] exI [of _ "[OfGrant ?g]"] exI [of _ "''lib_1.a''"] exI [of _ ?f]) auto
qed

text \<open>Without denies both compilers emit the same text.\<close>

lemma compile_filter_agrees:
  assumes "action \<in> set SEARCH_ACTIONS" "list_all (\<lambda>g. grant_action g = action \<and> allow g) (source_grants grants)"
  shows "map_sum id expression (compile_scope_filter grants action True FILTER_SIZE_CEILING) = map_sum id expression (compile_filter grants True)"
proof -
  let ?gs = "source_grants grants"
  have d: "deny_scopes ?gs action = []" using assms(2) by (auto simp: deny_scopes_def list_all_iff filter_empty_conv)
  have a: "filter (\<lambda>g. grant_action g = action \<and> allow g) ?gs = filter (\<lambda>g. allow g \<and> grant_action g \<in> set SEARCH_ACTIONS) ?gs"
    using assms by (intro filter_cong) (auto simp: list_all_iff)
  have e: "effective_scopes ?gs action = sort_key str_key (remdups (map grant_path (filter (\<lambda>g. allow g \<and> grant_action g \<in> set SEARCH_ACTIONS) ?gs)))"
    by (simp add: effective_scopes_def d allow_scopes_def a)
  have "scope_filter ?gs action True = MIn (effective_scopes ?gs action)"
    by (auto simp: scope_filter_def d descendant_denies_def Let_def)
  then show ?thesis by (simp add: compile_scope_filter_def compile_filter_def Let_def d e guard_def)
qed

end
