(* ===== verification/PyFloat.thy ===== *)
theory PyFloat
  imports Prelude Complex_Main
begin

text \<open>
  Python's \<open>float\<close> as the rational number it denotes, and the conversions between float seconds and
  integer microseconds of the agent protocol (\<open>mtime_to_us\<close> of \<open>backend/filearr/agentsync.py\<close>,
  \<open>datetime.fromtimestamp\<close> and \<open>datetime.timestamp\<close> of the standard library). \<open>fl\<close> is the IEEE 754
  rounding to 53 significant bits, ties to even; overflow and subnormal numbers, which no time
  stamp reaches, are not modelled.
\<close>

section \<open>Rounding\<close>

definition round_half_even :: "rat \<Rightarrow> int" where
  "round_half_even x =
     (let f = \<lfloor>x\<rfloor>; d = x - of_int f
      in if d < 1 / 2 then f else if d > 1 / 2 then f + 1 else if even f then f else f + 1)"

fun ilog2 :: "nat \<Rightarrow> nat" where
  "ilog2 n = (if n < 2 then 0 else Suc (ilog2 (n div 2)))"

declare ilog2.simps [simp del]

definition flog2 :: "rat \<Rightarrow> int" where
  "flog2 x = (let (p, q) = quotient_of x; k = int (ilog2 (nat p)) - int (ilog2 (nat q))
     in if x < 2 powi k then k - 1 else k)"

definition fl :: "rat \<Rightarrow> rat" where
  "fl x = (if x = 0 then 0
     else let e = flog2 \<bar>x\<bar> - 52 in of_int (round_half_even (x / 2 powi e)) * 2 powi e)"

section \<open>Times\<close>

definition mtime_to_us :: "rat \<Rightarrow> int" where
  "mtime_to_us mtime = round_half_even (fl (mtime * 1000000))"

text \<open>\<open>d.timestamp()\<close> of an aware datetime \<open>us\<close> microseconds after the epoch: one true division.\<close>

definition timestamp :: "int \<Rightarrow> rat" where
  "timestamp us = fl (of_int us / 1000000)"

text \<open>
  \<open>datetime.fromtimestamp\<close>: the integral part (towards zero) is taken off exactly, the fractional
  part is scaled to microseconds and rounded half to even.
\<close>

definition trunc :: "rat \<Rightarrow> int" where
  "trunc x = (if x < 0 then - \<lfloor>- x\<rfloor> else \<lfloor>x\<rfloor>)"

definition fromtimestamp :: "rat \<Rightarrow> int" where
  "fromtimestamp t = (let i = trunc t in i * 1000000 + round_half_even (fl ((t - of_int i) * 1000000)))"

section \<open>Error bounds\<close>

lemma round_half_even_error: "\<bar>of_int (round_half_even x) - x\<bar> \<le> 1 / 2"
proof -
  have "of_int \<lfloor>x\<rfloor> \<le> x" "x < of_int \<lfloor>x\<rfloor> + 1" by linarith+
  then show ?thesis by (auto simp: round_half_even_def Let_def)
qed

lemma round_half_even_near: "\<bar>x - of_int n\<bar> < 1 / 2 \<Longrightarrow> round_half_even x = n"
proof -
  assume a: "\<bar>x - of_int n\<bar> < 1 / 2"
  have "\<bar>of_int (round_half_even x) - x\<bar> \<le> 1 / 2" by (rule round_half_even_error)
  with a have "\<bar>of_int (round_half_even x) - of_int n\<bar> < (1::rat)" by linarith
  then have "\<bar>of_int (round_half_even x - n)\<bar> < (1::rat)" by simp
  then show ?thesis by linarith
qed

lemma ilog2_bounds: "0 < n \<Longrightarrow> 2 ^ ilog2 n \<le> n \<and> n < 2 ^ Suc (ilog2 n)"
proof (induction n rule: ilog2.induct)
  case (1 n)
  show ?case
  proof (cases "n < 2")
    case True
    with 1 show ?thesis by (subst (1 2) ilog2.simps) auto
  next
    case False
    with 1 have "2 ^ ilog2 (n div 2) \<le> n div 2 \<and> n div 2 < 2 ^ Suc (ilog2 (n div 2))" by simp
    with False show ?thesis by (subst (1 2) ilog2.simps) auto
  qed
qed

lemma flog2_lower:
  assumes "0 < x"
  shows "2 powi flog2 x \<le> x"
proof -
  obtain p q where pq: "quotient_of x = (p, q)" by force
  then have q: "0 < q" and x: "x = of_int p / of_int q" by (simp_all add: quotient_of_denom_pos quotient_of_div)
  with assms have p: "0 < p" by (simp add: zero_less_divide_iff)
  define a b where "a = ilog2 (nat p)" and "b = ilog2 (nat q)"
  have "int (2 ^ a) \<le> int (nat p)" "int (nat q) \<le> int (2 ^ Suc b)"
    using p q ilog2_bounds [of "nat p"] ilog2_bounds [of "nat q"] unfolding a_def b_def of_nat_le_iff
    by linarith+
  then have "2 ^ a \<le> p" "q \<le> 2 ^ Suc b" using p q by simp_all
  then have ab: "(2::rat) ^ a \<le> of_int p" "of_int q \<le> (2::rat) ^ Suc b"
    by (metis of_int_le_iff of_int_numeral of_int_power)+
  have "2 powi (int a - int b - 1) = (2::rat) ^ a / 2 ^ Suc b"
    by (simp add: power_int_diff)
  also have "\<dots> \<le> of_int p / of_int q" using ab p q by (intro frac_le) auto
  finally have "2 powi (int a - int b - 1) \<le> x" by (simp add: x)
  then show ?thesis by (simp add: flog2_def pq a_def b_def Let_def)
qed

lemma flog2_upper:
  assumes "0 < x"
  shows "x < 2 powi (flog2 x + 1)"
proof -
  obtain p q where pq: "quotient_of x = (p, q)" by force
  then have q: "0 < q" and x: "x = of_int p / of_int q" by (simp_all add: quotient_of_denom_pos quotient_of_div)
  with assms have p: "0 < p" by (simp add: zero_less_divide_iff)
  define a b where "a = ilog2 (nat p)" and "b = ilog2 (nat q)"
  have "int (nat p) < int (2 ^ Suc a)" "int (2 ^ b) \<le> int (nat q)"
    using p q ilog2_bounds [of "nat p"] ilog2_bounds [of "nat q"] unfolding a_def b_def of_nat_le_iff of_nat_less_iff
    by linarith+
  then have "p < 2 ^ Suc a" "2 ^ b \<le> q" using p q by simp_all
  then have ab: "of_int p < (2::rat) ^ Suc a" "(2::rat) ^ b \<le> of_int q"
    by (metis of_int_le_iff of_int_less_iff of_int_numeral of_int_power)+
  have "x < (2::rat) ^ Suc a / 2 ^ b" unfolding x using ab p by (intro frac_less) auto
  also have "\<dots> = 2 powi (int a - int b + 1)" by (simp add: power_int_diff power_int_add)
  finally show ?thesis by (simp add: flog2_def pq a_def b_def Let_def)
qed

lemma flog2_eqI:
  assumes "2 powi k \<le> x" "x < 2 powi (k + 1)"
  shows "flog2 x = k"
proof -
  have x: "0 < x" using assms(1) by (rule less_le_trans [rotated]) simp
  have "(2::rat) powi k < 2 powi (flog2 x + 1)" "(2::rat) powi flog2 x < 2 powi (k + 1)"
    using assms flog2_lower [OF x] flog2_upper [OF x] by linarith+
  then have "k < flog2 x + 1" "flog2 x < k + 1"
    using power_int_increasing [of "flog2 x + 1" k "2::rat"] power_int_increasing [of "k + 1" "flog2 x" "2::rat"]
    by (auto simp: not_less [symmetric])
  then show ?thesis by simp
qed

lemma fl_eqI:
  assumes "2 powi k \<le> x" "x < 2 powi (k + 1)" "\<bar>x / 2 powi (k - 52) - of_int n\<bar> < 1 / 2"
  shows "fl x = of_int n * 2 powi (k - 52)"
proof -
  have "0 < x" using assms(1) by (rule less_le_trans [rotated]) simp
  with flog2_eqI [OF assms(1,2)] round_half_even_near [OF assms(3)] show ?thesis by (simp add: fl_def Let_def)
qed

lemma fl_error: "\<bar>fl x - x\<bar> \<le> \<bar>x\<bar> / 2 ^ 53"
proof (cases "x = 0")
  case False
  define e where "e = flog2 \<bar>x\<bar> - 52"
  define u where "u = (2::rat) powi e"
  have u: "0 < u" by (simp add: u_def)
  have low: "2 ^ 52 * u \<le> \<bar>x\<bar>"
    using flog2_lower [of "\<bar>x\<bar>"] False by (simp add: u_def e_def power_int_diff)
  have "fl x - x = (of_int (round_half_even (x / u)) - x / u) * u"
    using False u by (simp add: fl_def e_def [symmetric] u_def [symmetric] Let_def field_simps)
  then have "\<bar>fl x - x\<bar> = \<bar>of_int (round_half_even (x / u)) - x / u\<bar> * u"
    using u by (simp add: abs_mult)
  also have "\<dots> \<le> 1 / 2 * u" using round_half_even_error [of "x / u"] u by (intro mult_right_mono) auto
  also have "\<dots> \<le> \<bar>x\<bar> / 2 ^ 53" using low by simp
  finally show ?thesis .
qed (simp add: fl_def)

lemma mtime_to_us_timestamp:
  assumes "0 \<le> us" "us < 2 ^ 51"
  shows "mtime_to_us (timestamp us) = us"
proof -
  define x y where "x = (of_int us :: rat)" and "y = timestamp us * 1000000"
  have x: "0 \<le> x" "x \<le> 2 ^ 51 - 1" using assms by (simp_all add: x_def)
  have "\<bar>timestamp us - x / 1000000\<bar> \<le> \<bar>x / 1000000\<bar> / 2 ^ 53"
    unfolding timestamp_def x_def by (rule fl_error)
  then have y: "\<bar>y - x\<bar> \<le> x / 2 ^ 53" using x(1) by (simp add: y_def abs_le_iff field_simps)
  then have "\<bar>y\<bar> \<le> x + x / 2 ^ 53" using x(1) by linarith
  then have "\<bar>y\<bar> / 2 ^ 53 \<le> (x + x / 2 ^ 53) / 2 ^ 53" by (rule divide_right_mono) simp
  moreover have "\<bar>fl y - y\<bar> \<le> \<bar>y\<bar> / 2 ^ 53" by (rule fl_error)
  ultimately have "\<bar>fl y - x\<bar> \<le> x / 2 ^ 53 + (x + x / 2 ^ 53) / 2 ^ 53" using y by linarith
  also have "\<dots> < 1 / 2" using x by simp
  finally show ?thesis by (simp add: mtime_to_us_def y_def [symmetric] x_def round_half_even_near)
qed

lemma fromtimestamp_timestamp:
  assumes "0 \<le> us" "us < 2 ^ 51"
  shows "fromtimestamp (timestamp us) = us"
proof -
  define x t where "x = (of_int us :: rat)" and "t = timestamp us"
  define i where "i = trunc t"
  define f where "f = (t - of_int i) * 1000000"
  have x: "0 \<le> x" "x < 2 ^ 51" using assms by (simp_all add: x_def)
  have "\<bar>t - x / 1000000\<bar> \<le> \<bar>x / 1000000\<bar> / 2 ^ 53"
    unfolding t_def timestamp_def x_def by (rule fl_error)
  then have y: "\<bar>t * 1000000 - x\<bar> \<le> x / 2 ^ 53" using x(1) by (simp add: abs_le_iff field_simps)
  then have "x - x / 2 ^ 53 \<le> t * 1000000" by linarith
  moreover have "0 \<le> x - x / 2 ^ 53" using x(1) by simp
  ultimately have "0 \<le> t" by linarith
  then have "of_int i \<le> t" "t < of_int i + 1" using floor_correct [of t] by (simp_all add: i_def trunc_def)
  then have f: "0 \<le> f" "f < 1000000" by (simp_all add: f_def)
  have "\<bar>fl f - f\<bar> \<le> \<bar>f\<bar> / 2 ^ 53" by (rule fl_error)
  moreover have "\<bar>f\<bar> / 2 ^ 53 \<le> 1 / 8" using f by simp
  moreover have "x / 2 ^ 53 \<le> 1 / 4" using x by simp
  moreover have "of_int (us - i * 1000000) = f - (t * 1000000 - x)" by (simp add: f_def x_def algebra_simps)
  ultimately have "\<bar>fl f - of_int (us - i * 1000000)\<bar> < 1 / 2" using y by linarith
  then have "round_half_even (fl f) = us - i * 1000000" by (rule round_half_even_near)
  then show ?thesis unfolding fromtimestamp_def Let_def t_def [symmetric] i_def [symmetric] f_def [symmetric]
    by simp
qed

lemma drift_floats:
  "fl (7137679482365277 / 4194304) = 7137679482365277 / 4194304"
  "fl (111526241911957453125 / 65536) = 3403510800535811 / 2"
  "fl (17557453125 / 65536) = 17557453125 / 65536"
  using fl_eqI [of 30 "7137679482365277 / 4194304" 7137679482365277]
    fl_eqI [of 50 "111526241911957453125 / 65536" 6807021601071622]
    fl_eqI [of 18 "17557453125 / 65536" 4602580992000000]
  by (simp_all add: power_int_def power_divide)

lemma drift_floors:
  "\<lfloor>7137679482365277 / 4194304 :: rat\<rfloor> = 1701755400"
  "\<lfloor>3403510800535811 / 2 :: rat\<rfloor> = 1701755400267905"
  "\<lfloor>17557453125 / 65536 :: rat\<rfloor> = 267905"
  by (simp_all add: floor_eq_iff)

lemma drift_values:
  "mtime_to_us (7137679482365277 / 4194304) = 1701755400267906"
  "fromtimestamp (7137679482365277 / 4194304) = 1701755400267905"
  by (simp_all add: mtime_to_us_def fromtimestamp_def trunc_def drift_floats drift_floors round_half_even_def Let_def)

section \<open>Properties of time stamps\<close>

text \<open>
  Property C19. A stored time stamp of microsecond resolution survives the trip through a float: both
  \<open>mtime_to_us\<close> and \<open>fromtimestamp\<close> give back the microseconds of \<open>timestamp\<close>, from the epoch until
  2041 (2^51 microseconds).
\<close>

theorem time_quantum_roundtrip:
  assumes "0 \<le> us" and "us < 2 ^ 51"
  shows "mtime_to_us (timestamp us) = us \<and> fromtimestamp (timestamp us) = us"
  using mtime_to_us_timestamp [OF assms] fromtimestamp_timestamp [OF assms] by blast

theorem time_quantum_roundtrip_witness:
  "mtime_to_us (timestamp 1701755400267905) = 1701755400267905
   \<and> fromtimestamp (timestamp 1701755400267905) = 1701755400267905"
  using time_quantum_roundtrip [of 1701755400267905] by simp

text \<open>
  On a float with more than microsecond precision, as an agent sends it, the time that
  replication stores (\<open>fromtimestamp\<close>) and the time that the reconciliation compares (\<open>mtime_to_us\<close>)
  differ: the double \<open>7137679482365277 / 2^22\<close> is 1701755400.2679055 seconds.
\<close>

theorem replication_time_drift:
  "\<exists>m. fl m = m \<and> fromtimestamp m = 1701755400267905 \<and> mtime_to_us m = 1701755400267906"
  using drift_floats(1) drift_values by blast

end
