(* ===== verification/Manifest.thy ===== *)
theory Manifest
  imports Prelude PyFloat "HOL-Library.List_Lexorder" "HOL-Library.Multiset"
begin

text \<open>
  The reconciliation manifest of \<open>backend/filearr/agentsync.py\<close>: the canonical JSON serialisation
  and its digest. SHA-256 is the parameter \<open>sha\<close>, from the serialised text to its hex digest.
\<close>

section \<open>Serialisation\<close>

record ManifestRow =
  m_rel_path :: string
  m_size :: int
  m_mtime :: rat
  m_quick_hash :: "string option"
  m_content_hash :: "string option"

text \<open>A row as the digest sees it: path, size, microseconds, quick hash, content hash.\<close>

type_synonym mrow = "string \<times> int \<times> int \<times> string option \<times> string option"

text \<open>\<open>json.dumps(s, ensure_ascii=True)\<close> on a string.\<close>

definition escape_char :: "char \<Rightarrow> string" where
  "escape_char c = (let n = cp c in
     if n = 34 then [CHR 0x5C, CHR 0x22]
     else if n = 92 then [CHR 0x5C, CHR 0x5C]
     else if n = 10 then [CHR 0x5C, CHR ''n'']
     else if n = 13 then [CHR 0x5C, CHR ''r'']
     else if n = 9 then [CHR 0x5C, CHR ''t'']
     else if n = 12 then [CHR 0x5C, CHR ''f'']
     else if n = 8 then [CHR 0x5C, CHR ''b'']
     else if 32 \<le> n \<and> n \<le> 126 then [c]
     else [CHR 0x5C, CHR ''u'', CHR ''0'', CHR ''0'', ''0123456789abcdef'' ! (n div 16),
           ''0123456789abcdef'' ! (n mod 16)])"

definition json_str :: "string \<Rightarrow> string" where
  "json_str s = [CHR 0x22] @ concat (map escape_char s) @ [CHR 0x22]"

definition json_opt :: "string option \<Rightarrow> string" where
  "json_opt v = (case v of None \<Rightarrow> ''null'' | Some s \<Rightarrow> json_str s)"

definition json_int :: "int \<Rightarrow> string" where
  "json_int i = (if i < 0 then CHR ''-'' # dec_digits (nat (- i)) else dec_digits (nat i))"

definition json_field :: "string \<Rightarrow> string" where
  "json_field k = [CHR 0x22] @ k @ [CHR 0x22, CHR '':'']"

fun row_json :: "mrow \<Rightarrow> string" where
  "row_json (rel_path, sz, mtime_us, quick_hash, content_hash) =
     ''{'' @ json_field ''content_hash'' @ json_opt content_hash
     @ '','' @ json_field ''mtime'' @ json_int mtime_us
     @ '','' @ json_field ''quick_hash'' @ json_opt quick_hash
     @ '','' @ json_field ''rel_path'' @ json_str rel_path
     @ '','' @ json_field ''size'' @ json_int sz @ ''}''"

definition manifest_blob :: "mrow list \<Rightarrow> string" where
  "manifest_blob rows =
     ''['' @ join '','' (map row_json (sort_key (\<lambda>t. str_key (fst t)) rows)) @ '']''"

definition quantize :: "ManifestRow \<Rightarrow> mrow" where
  "quantize r = (m_rel_path r, m_size r, mtime_to_us (m_mtime r), m_quick_hash r, m_content_hash r)"

definition manifest_digest :: "(string \<Rightarrow> string) \<Rightarrow> ManifestRow list \<Rightarrow> string" where
  "manifest_digest sha rows = sha (manifest_blob (map quantize rows))"

section \<open>The serialisation is uniquely readable\<close>

definition readable :: "('a \<Rightarrow> string) \<Rightarrow> (string \<Rightarrow> bool) \<Rightarrow> bool" where
  "readable f ok = (\<forall>x y r s. ok r \<longrightarrow> ok s \<longrightarrow> f x @ r = f y @ s \<longrightarrow> x = y \<and> r = s)"

lemma readableD: "readable f ok \<Longrightarrow> ok r \<Longrightarrow> ok s \<Longrightarrow> f x @ r = f y @ s \<Longrightarrow> x = y \<and> r = s"
  unfolding readable_def by blast

definition no_digit :: "string \<Rightarrow> bool" where
  "no_digit r = (r = [] \<or> \<not> is_decimal (hd r))"

lemma hex_nth_inj: "i < 16 \<Longrightarrow> j < 16 \<Longrightarrow> ''0123456789abcdef'' ! i = ''0123456789abcdef'' ! j \<Longrightarrow> i = j"
proof -
  have "distinct ''0123456789abcdef''" "length ''0123456789abcdef'' = 16" by code_simp+
  then show "i < 16 \<Longrightarrow> j < 16 \<Longrightarrow> ''0123456789abcdef'' ! i = ''0123456789abcdef'' ! j \<Longrightarrow> i = j"
    using nth_eq_iff_index_eq by metis
qed

text \<open>The escape of a character is one of three shapes, told apart by the first two characters.\<close>

definition short_escape :: "nat \<Rightarrow> char" where
  "short_escape n = (if n = 34 then CHR 0x22 else if n = 92 then CHR 0x5C else if n = 10 then CHR ''n''
     else if n = 13 then CHR ''r'' else if n = 9 then CHR ''t'' else if n = 12 then CHR ''f'' else CHR ''b'')"

lemma short_escape_inj:
  assumes "m \<in> {34, 92, 10, 13, 9, 12, 8}" "n \<in> {34, 92, 10, 13, 9, 12, 8}" "short_escape m = short_escape n"
  shows "m = n"
  using assms by (auto simp: short_escape_def split: if_splits)

lemma escape_char_cases:
  obtains (short) "cp c \<in> {34, 92, 10, 13, 9, 12, 8}" "escape_char c = [CHR 0x5C, short_escape (cp c)]"
  | (plain) "escape_char c = [c]" "c \<noteq> CHR 0x5C" "c \<noteq> CHR 0x22"
  | (long) "escape_char c = [CHR 0x5C, CHR ''u'', CHR ''0'', CHR ''0'', ''0123456789abcdef'' ! (cp c div 16),
           ''0123456789abcdef'' ! (cp c mod 16)]"
proof (cases "cp c \<in> {34, 92, 10, 13, 9, 12, 8}")
  case True
  then show thesis using short by (auto simp: escape_char_def short_escape_def Let_def)
next
  case False
  then have "c \<noteq> CHR 0x5C" "c \<noteq> CHR 0x22" by auto
  with False show thesis using plain long
    by (cases "32 \<le> cp c \<and> cp c \<le> 126") (auto simp: escape_char_def Let_def)
qed

lemma short_escape_not_u: "short_escape n \<noteq> CHR ''u''"
  by (simp add: short_escape_def)

lemma escape_char_readable: "escape_char c @ r = escape_char d @ s \<Longrightarrow> c = d \<and> r = s"
proof -
  assume eq: "escape_char c @ r = escape_char d @ s"
  note u = short_escape_not_u [of "cp c"] short_escape_not_u [of "cp d"]
  show ?thesis
  proof (cases c rule: escape_char_cases)
    case c: short
    show ?thesis
    proof (cases d rule: escape_char_cases)
      case short
      with eq c have "short_escape (cp c) = short_escape (cp d)" "r = s" by simp_all
      with short_escape_inj [OF c(1) short(1)] show ?thesis unfolding char_cp_eq by blast
    qed (use eq c(2) u in \<open>simp_all only: append.simps list.inject\<close>, (blast | simp)+)
  next
    case c: plain
    show ?thesis
      by (cases d rule: escape_char_cases) (use eq c in \<open>simp_all only: append.simps list.inject simp_thms\<close>)
  next
    case c: long
    show ?thesis
    proof (cases d rule: escape_char_cases)
      case long
      have b: "cp x div 16 < 16" "cp x mod 16 < 16" for x using nat_of_char_less_256 [of x]
        by (simp_all add: less_mult_imp_div_less)
      from eq c long have h: "''0123456789abcdef'' ! (cp c div 16) = ''0123456789abcdef'' ! (cp d div 16)"
        "''0123456789abcdef'' ! (cp c mod 16) = ''0123456789abcdef'' ! (cp d mod 16)" "r = s"
        by (simp_all only: append.simps list.inject)
      have "cp c div 16 = cp d div 16" by (rule hex_nth_inj [OF b(1) b(1) h(1)])
      moreover have "cp c mod 16 = cp d mod 16" by (rule hex_nth_inj [OF b(2) b(2) h(2)])
      ultimately have "cp c = cp d" using div_mult_mod_eq [of "cp c" 16] div_mult_mod_eq [of "cp d" 16] by linarith
      then have "c = d" unfolding char_cp_eq .
      with h(3) show ?thesis by blast
    qed (use eq c u in \<open>simp_all only: append.simps list.inject\<close>, (blast | simp)+)
  qed
qed

lemma escape_char_start: "escape_char c @ r \<noteq> CHR 0x22 # s" "CHR 0x22 # s \<noteq> escape_char c @ r"
  by (cases c rule: escape_char_cases; auto)+

lemma escapes_readable:
  "concat (map escape_char x) @ CHR 0x22 # r = concat (map escape_char y) @ CHR 0x22 # s \<Longrightarrow> x = y \<and> r = s"
proof (induction x arbitrary: y)
  case Nil
  then show ?case by (cases y) (auto simp: escape_char_start)
next
  case (Cons c x)
  show ?case
  proof (cases y)
    case Nil
    with Cons.prems show ?thesis by (simp add: escape_char_start)
  next
    case (Cons d y')
    with Cons.prems have "escape_char c @ (concat (map escape_char x) @ CHR 0x22 # r) =
      escape_char d @ (concat (map escape_char y') @ CHR 0x22 # s)" by simp
    then have "c = d \<and> concat (map escape_char x) @ CHR 0x22 # r = concat (map escape_char y') @ CHR 0x22 # s"
      by (rule escape_char_readable)
    with Cons Cons.IH [of y'] show ?thesis by simp
  qed
qed

lemma json_str_readable: "readable json_str (\<lambda>_. True)"
  unfolding readable_def
proof (intro allI impI)
  fix x y r s assume "json_str x @ r = json_str y @ s"
  then have "concat (map escape_char x) @ CHR 0x22 # r = concat (map escape_char y) @ CHR 0x22 # s"
    by (simp add: json_str_def)
  then show "x = y \<and> r = s" by (rule escapes_readable)
qed

lemma json_opt_readable: "readable json_opt (\<lambda>_. True)"
  unfolding readable_def
proof (intro allI impI)
  fix x y r s assume eq: "json_opt x @ r = json_opt y @ s"
  show "x = y \<and> r = s"
  proof (cases x)
    case None
    with eq show ?thesis by (cases y) (simp_all add: json_opt_def json_str_def)
  next
    case (Some a)
    with eq obtain b where "y = Some b" by (cases y) (simp_all add: json_opt_def json_str_def)
    with Some eq readableD [OF json_str_readable TrueI TrueI, of a r b s] show ?thesis by (simp add: json_opt_def)
  qed
qed

lemma digits_readable:
  assumes "list_all is_decimal x" "list_all is_decimal y" "no_digit r" "no_digit s" "x @ r = y @ s"
  shows "x = y \<and> r = s"
proof -
  have "takeWhile is_decimal r = []" "takeWhile is_decimal s = []"
    using assms(3,4) by (cases r; cases s; simp add: no_digit_def)+
  then have "takeWhile is_decimal (x @ r) = x" "takeWhile is_decimal (y @ s) = y"
    using assms(1,2) by (simp_all add: list_all_iff takeWhile_append2)
  with assms(5) show ?thesis by simp
qed

lemma json_int_readable: "readable json_int no_digit"
  unfolding readable_def
proof (intro allI impI)
  fix x y r s assume a: "no_digit r" "no_digit s" "json_int x @ r = json_int y @ s"
  have m: "\<not> is_decimal (CHR ''-'')" by code_simp
  have nd: "dec_digits n @ u \<noteq> CHR ''-'' # v" "CHR ''-'' # v \<noteq> dec_digits n @ u" for n u v
    using dec_digits_in [of "hd (dec_digits n)" n] m by (cases "dec_digits n"; auto)+
  have *: "dec_digits m @ r = dec_digits n @ s \<Longrightarrow> m = n \<and> r = s" for m n
    using digits_readable [OF dec_digits_decimal dec_digits_decimal a(1,2)] dec_value_dec_digits by metis
  show "x = y \<and> r = s"
  proof (cases "x < 0")
    case True
    with a(3) nd have "y < 0" by (auto simp: json_int_def split: if_splits)
    with True a(3) * [of "nat (- x)" "nat (- y)"] show ?thesis by (auto simp: json_int_def)
  next
    case False
    with a(3) nd have "\<not> y < 0" by (auto simp: json_int_def split: if_splits)
    with False a(3) * [of "nat x" "nat y"] show ?thesis by (auto simp: json_int_def)
  qed
qed

lemma no_digit_lits: "no_digit (CHR '','' # r)" "no_digit (CHR ''}'' # r)"
  by (simp_all add: no_digit_def is_decimal_def)

lemma row_json_readable: "row_json x @ r = row_json y @ s \<Longrightarrow> x = y \<and> r = s"
proof -
  obtain p n t q c where x: "x = (p, n, t, q, c)" by (metis prod.exhaust)
  obtain p' n' t' q' c' where y: "y = (p', n', t', q', c')" by (metis prod.exhaust)
  define size_part where "size_part = (\<lambda>n r. '','' @ json_field ''size'' @ json_int n @ CHR ''}'' # r)"
  define path_part where "path_part = (\<lambda>p n r. '','' @ json_field ''rel_path'' @ json_str p @ size_part n r)"
  define quick_part where "quick_part = (\<lambda>q p n r. '','' @ json_field ''quick_hash'' @ json_opt q @ path_part p n r)"
  define time_part where "time_part = (\<lambda>t q p n r. '','' @ json_field ''mtime'' @ json_int t @ quick_part q p n r)"
  have row: "row_json (p, n, t, q, c) @ r = ''{'' @ json_field ''content_hash'' @ json_opt c @ time_part t q p n r"
    for p n t q c r by (simp add: size_part_def path_part_def quick_part_def time_part_def)
  have nd: "no_digit (quick_part q p n r)" for q p n r by (simp add: quick_part_def no_digit_lits)
  assume "row_json x @ r = row_json y @ s"
  then have "json_opt c @ time_part t q p n r = json_opt c' @ time_part t' q' p' n' s"
    unfolding x y row by (simp only: append_same_eq same_append_eq)
  from readableD [OF json_opt_readable TrueI TrueI this] have c: "c = c'"
    and "time_part t q p n r = time_part t' q' p' n' s" by blast+
  then have "json_int t @ quick_part q p n r = json_int t' @ quick_part q' p' n' s"
    unfolding time_part_def by (simp only: same_append_eq)
  from readableD [OF json_int_readable nd nd this] have t: "t = t'"
    and "quick_part q p n r = quick_part q' p' n' s" by blast+
  then have "json_opt q @ path_part p n r = json_opt q' @ path_part p' n' s"
    unfolding quick_part_def by (simp only: same_append_eq)
  from readableD [OF json_opt_readable TrueI TrueI this] have q: "q = q'"
    and "path_part p n r = path_part p' n' s" by blast+
  then have "json_str p @ size_part n r = json_str p' @ size_part n' s"
    unfolding path_part_def by (simp only: same_append_eq)
  from readableD [OF json_str_readable TrueI TrueI this] have p: "p = p'"
    and "size_part n r = size_part n' s" by blast+
  then have "json_int n @ CHR ''}'' # r = json_int n' @ CHR ''}'' # s"
    unfolding size_part_def by (simp only: same_append_eq)
  from readableD [OF json_int_readable no_digit_lits(2) no_digit_lits(2) this] c t q p show ?thesis
    unfolding x y by simp
qed

lemma row_json_start: "\<exists>t. row_json x = CHR ''{'' # t"
  by (cases x rule: row_json.cases) simp

lemma rows_json_readable:
  "join '','' (map row_json xs) @ '']'' = join '','' (map row_json ys) @ '']'' \<Longrightarrow> xs = ys"
proof (induction xs arbitrary: ys)
  case Nil
  show ?case
  proof (cases ys)
    case (Cons y zs)
    obtain t where t: "row_json y = CHR ''{'' # t" using row_json_start by blast
    have "join '','' (row_json y # map row_json zs) @ '']'' = CHR ''{'' # (t @ tl (join '','' (''x'' # map row_json zs)) @ '']'')"
      by (cases zs) (simp_all add: t)
    with Nil Cons show ?thesis by simp
  qed simp
next
  case (Cons x xs)
  define rest where "rest = (\<lambda>zs. (if zs = [] then [] else '','' @ join '','' (map row_json zs)) @ '']'')"
  have rest: "join '','' (map row_json (z # zs)) @ '']'' = row_json z @ rest zs" for z zs
    by (cases zs) (simp_all add: rest_def)
  show ?case
  proof (cases ys)
    case Nil
    obtain t where "row_json x = CHR ''{'' # t" using row_json_start by blast
    with Nil Cons.prems show ?thesis unfolding rest by simp
  next
    case (Cons y zs)
    with Cons.prems have "row_json x @ rest xs = row_json y @ rest zs" unfolding rest Cons by blast
    from row_json_readable [OF this] have xy: "x = y" and r: "rest xs = rest zs" by blast+
    have "xs = zs"
    proof (cases "xs = [] \<or> zs = []")
      case True
      with r show ?thesis by (auto simp: rest_def split: if_splits)
    next
      case False
      with r have "join '','' (map row_json xs) @ '']'' = join '','' (map row_json zs) @ '']''"
        by (simp add: rest_def)
      then show ?thesis by (rule Cons.IH)
    qed
    with xy Cons show ?thesis by simp
  qed
qed

lemma manifest_blob_eq:
  "manifest_blob xs = manifest_blob ys \<longleftrightarrow>
   sort_key (\<lambda>t. str_key (fst t)) xs = sort_key (\<lambda>t. str_key (fst t)) ys"
  using rows_json_readable by (auto simp: manifest_blob_def)

lemma str_key_inj: "str_key a = str_key b \<Longrightarrow> a = b"
  unfolding str_key_def by (rule map_injective [OF _ inj_of_char])

lemma keyed_rows_same:
  assumes "distinct (map fst xs)" "distinct (map fst ys)" "set xs = set (ys :: mrow list)"
  shows "sort_key (\<lambda>t. str_key (fst t)) xs = sort_key (\<lambda>t. str_key (fst t)) ys"
proof -
  have d: "distinct xs" "distinct ys" using assms(1,2) by (auto simp: distinct_map)
  have "mset xs = mset ys" using d assms(3) set_eq_iff_mset_eq_distinct by blast
  moreover have "inj_on (\<lambda>t. str_key (fst t)) (set xs)"
    using assms(1) by (auto simp: distinct_map inj_on_def dest: str_key_inj)
  ultimately show ?thesis by (intro sort_key_inj_key_eq) auto
qed

lemma manifest_blob_set:
  assumes "distinct (map fst xs)" "distinct (map fst ys)"
  shows "manifest_blob xs = manifest_blob ys \<longleftrightarrow> set xs = set ys"
  using keyed_rows_same [OF assms] manifest_blob_eq [of xs ys] by (metis set_sort)

section \<open>Properties of the manifest digest\<close>

text \<open>
  Property C39. Two manifests, each without a repeated path, have the same digest exactly when they
  hold the same rows up to the microsecond quantum, in whatever order they were produced; only a
  collision of SHA-256 on the two serialised texts could break this.
\<close>

theorem manifest_digest_faithful:
  assumes "distinct (map m_rel_path rows)" and "distinct (map m_rel_path rows')"
    and "sha (manifest_blob (map quantize rows)) = sha (manifest_blob (map quantize rows')) \<longrightarrow>
      manifest_blob (map quantize rows) = manifest_blob (map quantize rows')"
  shows "manifest_digest sha rows = manifest_digest sha rows' \<longleftrightarrow>
    set (map quantize rows) = set (map quantize rows')"
proof -
  have "fst \<circ> quantize = m_rel_path" by (auto simp: quantize_def)
  with assms(1,2) have "distinct (map fst (map quantize rows))" "distinct (map fst (map quantize rows'))"
    by simp_all
  from manifest_blob_set [OF this] assms(3) show ?thesis unfolding manifest_digest_def by auto
qed

definition sample_row :: "string \<Rightarrow> int \<Rightarrow> ManifestRow" where
  "sample_row p n = \<lparr>m_rel_path = p, m_size = n, m_mtime = 3 / 2, m_quick_hash = None, m_content_hash = Some ''ab''\<rparr>"

theorem manifest_digest_faithful_witness:
  "manifest_digest id [sample_row ''b'' 1, sample_row ''a'' 2] = manifest_digest id [sample_row ''a'' 2, sample_row ''b'' 1]
   \<and> manifest_digest id [sample_row ''a'' 2] \<noteq> manifest_digest id [sample_row ''a'' 3]"
proof
  have d: "distinct (map m_rel_path [sample_row ''b'' 1, sample_row ''a'' 2])"
    "distinct (map m_rel_path [sample_row ''a'' 2, sample_row ''b'' 1])"
    "distinct (map m_rel_path [sample_row ''a'' n])" for n by (simp_all add: sample_row_def)
  show "manifest_digest id [sample_row ''b'' 1, sample_row ''a'' 2] = manifest_digest id [sample_row ''a'' 2, sample_row ''b'' 1]"
    using manifest_digest_faithful [OF d(1,2), of id] by auto
  show "manifest_digest id [sample_row ''a'' 2] \<noteq> manifest_digest id [sample_row ''a'' 3]"
    using manifest_digest_faithful [OF d(3) d(3), of id 2 3] by (simp add: quantize_def sample_row_def)
qed

end
