(* ===== verification/AgentSync.thy ===== *)
theory AgentSync
  imports Rbac Manifest
begin

text \<open>
  Agent replication (\<open>backend/filearr/agentsync.py\<close> and the replication endpoint of
  \<open>backend/filearr/api/agent_commands.py\<close>): the wire events, the fold of an agent's extraction into an
  item's metadata, the sequence guard, the collapse of a batch into a plan, and the application of
  the plan to the central tables.

  A table is the list of its rows; a select is a filter, an update replaces rows in place, an insert
  appends. Ids are numbers drawn from a counter. Times are microseconds since the epoch. A raised
  exception rolls the transaction back, so it is the \<open>Inl\<close> of a function that otherwise returns the
  new tables. The configuration that the code reads from its settings, the taxonomy snapshot and the
  BLAKE2b digest are the fields of \<open>env\<close>.
\<close>

section \<open>Wire contract\<close>

datatype EventType = Created | Modified | Deleted | Moved

type_synonym dict = "(string \<times> json) list"

record ExtractedPayload =
  schema_version :: int
  meta :: dict
  body_text :: "string option"
  body_text_truncated :: bool

record AgentEvent =
  seq_no :: int
  event_type :: EventType
  library_ref :: string
  rel_path :: string
  from_rel_path :: "string option"
  ev_size :: "int option"
  ev_mtime :: "rat option"
  ev_quick_hash :: "string option"
  ev_content_hash :: "string option"
  ev_share_hint :: "dict option"
  extracted :: "ExtractedPayload option"

section \<open>Size of an extraction\<close>

text \<open>\<open>json.dumps(.., separators=(",", ":"), ensure_ascii=False)\<close> and its length in UTF-8.\<close>

definition raw_escape :: "char \<Rightarrow> string" where
  "raw_escape c = (if cp c < 32 \<or> c = CHR 0x22 \<or> c = CHR 0x5C then escape_char c else [c])"

definition raw_str :: "string \<Rightarrow> string" where
  "raw_str s = [CHR 0x22] @ concat (map raw_escape s) @ [CHR 0x22]"

fun json_text :: "json \<Rightarrow> string" where
  "json_text JNull = ''null''"
| "json_text (JBool b) = (if b then ''true'' else ''false'')"
| "json_text (JInt i) = json_int i"
| "json_text (JFloat r) = r"
| "json_text (JStr s) = raw_str s"
| "json_text (JList xs) = ''['' @ join '','' (map json_text xs) @ '']''"
| "json_text (JObj d) = ''{'' @ join '','' (map (\<lambda>p. raw_str (fst p) @ '':'' @ json_text (snd p)) d) @ ''}''"

definition utf8_len :: "string \<Rightarrow> nat" where
  "utf8_len s = length (concat (map (\<lambda>c. utf8_bytes (cp c)) s))"

definition extracted_json_len :: "ExtractedPayload \<Rightarrow> nat" where
  "extracted_json_len p = utf8_len (json_text (JObj [
     (''schema'', JInt (schema_version p)), (''meta'', JObj (meta p)),
     (''body_text'', jopt JStr (body_text p)), (''body_text_truncated'', JBool (body_text_truncated p))]))"

section \<open>Folding an extraction into metadata\<close>

definition EXTRACTED_BY_KEY :: string where "EXTRACTED_BY_KEY = ''_extracted_by''"
definition EXTRACT_SCHEMA_KEY :: string where "EXTRACT_SCHEMA_KEY = ''_extract_schema''"
definition EXTRACTED_AT_KEY :: string where "EXTRACTED_AT_KEY = ''_extracted_at''"
definition EXTRACTED_BY_AGENT :: string where "EXTRACTED_BY_AGENT = ''agent''"
definition CHUNKS_FP_KEY :: string where "CHUNKS_FP_KEY = ''_chunks_fp''"
definition EMBEDDING_KEY :: string where "EMBEDDING_KEY = ''_embedding''"
definition FINGERPRINT_KEY :: string where "FINGERPRINT_KEY = ''_embedding_fp''"

definition AGENT_WRITABLE_UNDERSCORE_KEYS :: "string list" where
  "AGENT_WRITABLE_UNDERSCORE_KEYS = [''_extract_error'', ''_extract_error_kind'', ''_exif_error'', ''_ocr_error'']"

definition AGENT_ERROR_MAX_CHARS :: nat where "AGENT_ERROR_MAX_CHARS = 500"

text \<open>\<open>str(value)\<close>: the \<open>repr\<close> of a container, the text of a scalar.\<close>

definition is_printable :: "char \<Rightarrow> bool" where
  "is_printable c = (32 \<le> cp c \<and> cp c \<le> 126 \<or> 161 \<le> cp c \<and> cp c \<noteq> 173)"

definition repr_char :: "char \<Rightarrow> char \<Rightarrow> string" where
  "repr_char q c = (if c = q \<or> c = CHR 0x5C then [CHR 0x5C, c]
     else if cp c = 10 then [CHR 0x5C, CHR ''n''] else if cp c = 13 then [CHR 0x5C, CHR ''r'']
     else if cp c = 9 then [CHR 0x5C, CHR ''t''] else if is_printable c then [c]
     else [CHR 0x5C, CHR ''x''] @ hex_fixed 2 (cp c))"

definition repr_str :: "string \<Rightarrow> string" where
  "repr_str s = (let q = (if CHR 0x27 \<in> set s \<and> CHR 0x22 \<notin> set s then CHR 0x22 else CHR 0x27)
     in [q] @ concat (map (repr_char q) s) @ [q])"

fun py_repr :: "json \<Rightarrow> string" where
  "py_repr JNull = ''None''"
| "py_repr (JBool b) = (if b then ''True'' else ''False'')"
| "py_repr (JInt i) = json_int i"
| "py_repr (JFloat r) = r"
| "py_repr (JStr s) = repr_str s"
| "py_repr (JList xs) = ''['' @ join '', '' (map py_repr xs) @ '']''"
| "py_repr (JObj d) = ''{'' @ join '', '' (map (\<lambda>p. repr_str (fst p) @ '': '' @ py_repr (snd p)) d) @ ''}''"

fun py_str :: "json \<Rightarrow> string" where
  "py_str (JStr s) = s"
| "py_str v = py_repr v"

definition is_blank_control :: "char \<Rightarrow> bool" where
  "is_blank_control c = (9 \<le> cp c \<and> cp c \<le> 13)"

definition agent_error_text :: "json \<Rightarrow> string" where
  "agent_error_text value =
     (if value = JNull then []
      else let text = py_str value;
               text1 = map (\<lambda>ch. if is_blank_control ch then CHR '' '' else ch)
                         (filter (\<lambda>ch. is_blank_control ch \<or> (32 \<le> cp ch \<and> \<not> (127 \<le> cp ch \<and> cp ch \<le> 159))) text);
               text2 = join '' '' (words text1)
        in take AGENT_ERROR_MAX_CHARS text2)"

fun truthy :: "json \<Rightarrow> bool" where
  "truthy JNull = False"
| "truthy (JBool b) = b"
| "truthy (JInt i) = (i \<noteq> 0)"
| "truthy (JFloat r) = (r \<noteq> ''0.0'' \<and> r \<noteq> ''-0.0'')"
| "truthy (JStr s) = (s \<noteq> [])"
| "truthy (JList xs) = (xs \<noteq> [])"
| "truthy (JObj d) = (d \<noteq> [])"

fun member_name :: "json \<Rightarrow> string list" where
  "member_name (JObj m) = (case map_of m ''name'' of Some v \<Rightarrow> if truthy v then [py_str v] else [] | None \<Rightarrow> [])"
| "member_name _ = []"

text \<open>\<open>cap\<close> is \<open>archive_members_index_chars\<close>; \<open>flat[:cap]\<close> for a positive cap.\<close>

definition derive_archive_members :: "nat \<Rightarrow> dict \<Rightarrow> dict" where
  "derive_archive_members cap merged =
     (case map_of merged ''archive'' of
        Some (JObj archive) \<Rightarrow>
          if map_of merged ''archive_members'' \<noteq> None then merged
          else (case map_of archive ''members'' of
                  Some (JList members) \<Rightarrow>
                    let names = concat (map member_name members) in
                    if names = [] then merged
                    else let flat = join [newline] names in
                      dict_set ''archive_members''
                        (JStr (if cap \<noteq> 0 \<and> length flat > cap then take cap flat else flat)) merged
                | _ \<Rightarrow> merged)
      | _ \<Rightarrow> merged)"

text \<open>\<open>source_text\<close> calls \<open>strip\<close> on whatever value comes first: only a string has that method.\<close>

definition source_text :: "dict \<Rightarrow> py_exn + string" where
  "source_text m =
     (let pick = (\<lambda>k. case map_of m k of Some v \<Rightarrow> if truthy v then Some v else None | None \<Rightarrow> None) in
      case (case pick ''body_text'' of Some v \<Rightarrow> Some v | None \<Rightarrow> pick ''ocr_text'') of
        None \<Rightarrow> Inr []
      | Some (JStr s) \<Rightarrow> Inr (strip is_space s)
      | Some _ \<Rightarrow> Inl AttributeError)"

definition strip_embedding :: "dict \<Rightarrow> dict" where
  "strip_embedding m = filter (\<lambda>p. fst p \<notin> {EMBEDDING_KEY, FINGERPRINT_KEY}) m"

fun apply_meta :: "dict \<Rightarrow> dict \<Rightarrow> dict" where
  "apply_meta [] merged = merged"
| "apply_meta ((key, value) # kvs) merged =
     apply_meta kvs
       (if startswith key ''_'' then
          (if key \<notin> set AGENT_WRITABLE_UNDERSCORE_KEYS then merged
           else let text = agent_error_text value in
             if text \<noteq> [] then dict_set key (JStr text) merged else merged)
        else dict_set key value merged)"

definition merge_extracted_metadata :: "nat \<Rightarrow> dict \<Rightarrow> ExtractedPayload \<Rightarrow> string \<Rightarrow> py_exn + dict" where
  "merge_extracted_metadata cap old payload now_iso =
     (let m1 = apply_meta (meta payload) old;
          m2 = (case body_text payload of
                  None \<Rightarrow> m1
                | Some b \<Rightarrow> dict_set ''body_text_truncated'' (JBool (body_text_truncated payload))
                              (dict_set ''body_text'' (JStr b) m1));
          m3 = dict_set EXTRACTED_AT_KEY (JStr now_iso)
                 (dict_set EXTRACT_SCHEMA_KEY (JInt (schema_version payload))
                   (dict_set EXTRACTED_BY_KEY (JStr EXTRACTED_BY_AGENT) m2));
          merged = derive_archive_members cap m3
      in bind_res (source_text merged) (\<lambda>new_text.
         bind_res (source_text old) (\<lambda>old_text.
         if new_text \<noteq> old_text then Inr (dict_pop CHUNKS_FP_KEY (strip_embedding merged))
         else Inr merged)))"

section \<open>The sequence guard\<close>

record BatchVerdict =
  ok :: bool
  verdict_reason :: "string option"
  expected_seq_no :: "int option"
  accepted_from :: "int option"
  accepted_to :: "int option"

definition refuse :: "string \<Rightarrow> int \<Rightarrow> BatchVerdict" where
  "refuse why expected = \<lparr>ok = False, verdict_reason = Some why, expected_seq_no = Some expected,
     accepted_from = None, accepted_to = None\<rparr>"

fun check_rest :: "int \<Rightarrow> int \<Rightarrow> AgentEvent list \<Rightarrow> BatchVerdict" where
  "check_rest first prev [] = \<lparr>ok = True, verdict_reason = None, expected_seq_no = None,
     accepted_from = Some first, accepted_to = Some prev\<rparr>"
| "check_rest first prev (ev # evs) =
     (let s = seq_no ev in
      if s = prev then refuse ''duplicate'' (prev + 1)
      else if s < prev then refuse ''non_monotonic'' (prev + 1)
      else if s \<noteq> prev + 1 then refuse ''internal_gap'' (prev + 1)
      else check_rest first s evs)"

definition check_batch :: "AgentEvent list \<Rightarrow> int \<Rightarrow> BatchVerdict" where
  "check_batch entries last_seq = (case entries of
       [] \<Rightarrow> refuse ''empty'' (last_seq + 1)
     | e # es \<Rightarrow>
         if seq_no e \<le> last_seq then refuse ''stale'' (last_seq + 1)
         else if seq_no e \<noteq> last_seq + 1 then refuse ''gap'' (last_seq + 1)
         else check_rest (seq_no e) (seq_no e) es)"

section \<open>The plan of a batch\<close>

datatype plan_op = PUpsert AgentEvent | PDelete

definition plan_step :: "(string \<times> plan_op) list \<Rightarrow> AgentEvent \<Rightarrow> (string \<times> plan_op) list" where
  "plan_step state ev = (case event_type ev of
       Moved \<Rightarrow> dict_set (rel_path ev) (PUpsert ev)
                 (case from_rel_path ev of Some p \<Rightarrow> dict_set p PDelete state | None \<Rightarrow> state)
     | Deleted \<Rightarrow> dict_set (rel_path ev) PDelete state
     | _ \<Rightarrow> dict_set (rel_path ev) (PUpsert ev) state)"

record UpsertPlan =
  upserts :: "AgentEvent list"
  deletes :: "string list"

fun op_event :: "plan_op \<Rightarrow> AgentEvent list" where
  "op_event (PUpsert ev) = [ev]"
| "op_event PDelete = []"

definition plan_upserts :: "AgentEvent list \<Rightarrow> UpsertPlan" where
  "plan_upserts events =
     (let state = foldl plan_step [] events
      in \<lparr>upserts = sort_key (\<lambda>e. str_key (rel_path e)) (concat (map (\<lambda>p. op_event (snd p)) state)),
          deletes = sort_key str_key (map fst (filter (\<lambda>p. snd p = PDelete) state))\<rparr>)"

section \<open>The central tables\<close>

datatype ItemStatus = active | missing | trashed

record Item =
  item_id :: nat
  library_id :: nat
  file_category :: string
  file_group :: string
  item_path :: string
  item_rel_path :: string
  filename :: string
  extension :: "string option"
  item_size :: int
  item_mtime :: int
  quick_hash :: "string option"
  content_hash :: "string option"
  item_status :: ItemStatus
  source_agent_id :: "nat option"
  first_seen :: int
  last_seen :: int
  path_scope :: string
  share_hint :: "dict option"
  metadata :: dict

record Library =
  lib_id :: nat
  lib_name :: string
  root_path :: string
  lib_source_agent :: "nat option"
  agent_library_ref :: "string option"
  lib_enabled :: bool

record Agent =
  agent_id :: nat
  agent_name :: "string option"
  hostname :: string
  last_contiguous_seq_no :: int
  last_seen_at :: "int option"
  last_reconcile_at :: "int option"

record ledger_row =
  log_agent :: nat
  log_seq :: int
  log_item :: "nat option"
  log_op :: EventType
  applied_at :: int

record central =
  items :: "Item list"
  libraries :: "Library list"
  replication_log :: "ledger_row list"
  next_id :: nat

record env =
  extracted_cap :: nat
  archive_chars :: nat
  ext_to_group :: "string \<Rightarrow> string option"
  group_to_category :: "string \<Rightarrow> string option"
  blake2b :: "bytes \<Rightarrow> bytes"
  isoformat :: "int \<Rightarrow> string"

subsection \<open>Taxonomy lookup\<close>

text \<open>\<open>os.path.splitext\<close> of a file name: the last dot, unless only dots precede it.\<close>

definition splitext :: "string \<Rightarrow> string \<times> string" where
  "splitext name =
     (let suf = takeWhile (\<lambda>c. c \<noteq> CHR ''.'') (rev name);
          stem = take (length name - length suf - 1) name
      in if CHR ''.'' \<in> set name \<and> \<not> list_all (\<lambda>c. c = CHR ''.'') stem
         then (stem, drop (length stem) name) else (name, []))"

definition path_name :: "string \<Rightarrow> string" where
  "path_name p = (case filter (\<lambda>s. s \<noteq> [] \<and> s \<noteq> ''.'') (split_on (CHR ''/'') p) of [] \<Rightarrow> [] | ss \<Rightarrow> last ss)"

definition suffix_key :: "string \<Rightarrow> string" where
  "suffix_key s = lower (lstrip (\<lambda>c. c = CHR ''.'') s)"

definition COMPOUND_WRAPPERS :: "string list" where
  "COMPOUND_WRAPPERS = [''gz'', ''bz2'', ''xz'', ''zst'', ''zstd'', ''lz'', ''lz4'', ''lzma'', ''lzo'', ''z'', ''br'']"

definition detect :: "env \<Rightarrow> string \<Rightarrow> string \<times> string" where
  "detect cfg p =
     (let (stem, last_suffix) = splitext (path_name p);
          prev_suffix = snd (splitext stem);
          ext = suffix_key last_suffix;
          by_extension = (case ext_to_group cfg ext of
              None \<Rightarrow> (''other'', ''other'')
            | Some gid \<Rightarrow> (case group_to_category cfg gid of None \<Rightarrow> ''other'' | Some c \<Rightarrow> c, gid))
      in if last_suffix \<noteq> [] \<and> prev_suffix \<noteq> [] \<and> suffix_key prev_suffix = ''tar'' \<and> ext \<in> set COMPOUND_WRAPPERS
         then (case group_to_category cfg ''archive'' of Some c \<Rightarrow> (c, ''archive'') | None \<Rightarrow> by_extension)
         else by_extension)"

subsection \<open>Libraries of an agent\<close>

definition to_slash :: "string \<Rightarrow> string" where
  "to_slash s = map (\<lambda>c. if c = CHR 0x5C then CHR ''/'' else c) s"

definition last_segment :: "string \<Rightarrow> string" where
  "last_segment s = last (split_on (CHR ''/'') s)"

definition agent_library_basename :: "string \<Rightarrow> string" where
  "agent_library_basename ref =
     (let base = last_segment (rstrip (\<lambda>c. c = CHR ''/'') (to_slash ref))
      in if base = [] then ref else base)"

definition suffixed :: "string \<Rightarrow> nat \<Rightarrow> string" where
  "suffixed base k = base @ '' ('' @ dec_digits k @ '')''"

lemma suffixed_inj: "suffixed base j = suffixed base k \<longleftrightarrow> j = k"
  by (simp add: suffixed_def)

lemma finite_suffixed: "finite {j. suffixed base j \<in> set taken}"
proof -
  have "finite (suffixed base -` set taken)" by (rule finite_vimageI) (auto simp: inj_def suffixed_inj)
  then show ?thesis by (simp add: vimage_def)
qed

text \<open>The loop that numbers a library name until it is free.\<close>

function next_free :: "string list \<Rightarrow> string \<Rightarrow> nat \<Rightarrow> string" where
  "next_free taken base k =
     (if suffixed base k \<in> set taken then next_free taken base (Suc k) else suffixed base k)"
  by pat_completeness auto
termination
proof (relation "measure (\<lambda>(taken, base, k). card {j. k \<le> j \<and> suffixed base j \<in> set taken})")
  fix taken base k assume "suffixed base k \<in> set taken"
  moreover have "finite {j. k \<le> j \<and> suffixed base j \<in> set taken}"
    by (rule finite_subset [OF _ finite_suffixed]) auto
  ultimately have "card {j. Suc k \<le> j \<and> suffixed base j \<in> set taken} < card {j. k \<le> j \<and> suffixed base j \<in> set taken}"
    by (intro psubset_card_mono) (auto simp: psubset_eq set_eq_iff Suc_le_eq intro: exI [of _ k])
  then show "((taken, base, Suc k), taken, base, k)
    \<in> measure (\<lambda>(taken, base, k). card {j. k \<le> j \<and> suffixed base j \<in> set taken})" by simp
qed simp

declare next_free.simps [simp del]

definition display_name :: "Agent \<Rightarrow> string" where
  "display_name a = (case agent_name a of None \<Rightarrow> hostname a | Some n \<Rightarrow> if n = [] then hostname a else n)"

definition agent_library :: "central \<Rightarrow> Agent \<Rightarrow> string \<Rightarrow> Library option" where
  "agent_library st a ref =
     find (\<lambda>l. lib_source_agent l = Some (agent_id a) \<and> agent_library_ref l = Some ref) (libraries st)"

definition provision_agent_library :: "central \<Rightarrow> Agent \<Rightarrow> string \<Rightarrow> Library \<times> bool \<times> central" where
  "provision_agent_library st a ref = (case agent_library st a ref of
       Some l \<Rightarrow> (l, False, st)
     | None \<Rightarrow>
         (let base_name = display_name a @ '': '' @ agent_library_basename ref;
              taken = map lib_name (libraries st);
              name = (if base_name \<in> set taken then next_free taken base_name 2 else base_name);
              l = \<lparr>lib_id = next_id st, lib_name = name, root_path = ref, lib_source_agent = Some (agent_id a),
                   agent_library_ref = Some ref, lib_enabled = True\<rparr>
          in (l, True, st\<lparr>libraries := libraries st @ [l], next_id := Suc (next_id st)\<rparr>)))"

subsection \<open>Applying a batch\<close>

definition del_step :: "(string \<times> string) list \<Rightarrow> AgentEvent \<Rightarrow> (string \<times> string) list" where
  "del_step d ev = (case event_type ev of
       Moved \<Rightarrow> (case from_rel_path ev of Some p \<Rightarrow> dict_set p (library_ref ev) d | None \<Rightarrow> d)
     | Deleted \<Rightarrow> dict_set (rel_path ev) (library_ref ev) d
     | _ \<Rightarrow> d)"

definition delete_refs :: "AgentEvent list \<Rightarrow> (string \<times> string) list" where
  "delete_refs entries = foldl del_step [] entries"

text \<open>The references of the plan; Python iterates over a set, here in order of first occurrence.\<close>

definition plan_refs :: "UpsertPlan \<Rightarrow> (string \<times> string) list \<Rightarrow> string list" where
  "plan_refs plan refs = remdups (map library_ref (upserts plan)
     @ concat (map (\<lambda>p. case map_of refs p of Some r \<Rightarrow> [r] | None \<Rightarrow> []) (deletes plan)))"

fun provision_all :: "string list \<Rightarrow> central \<Rightarrow> Agent \<Rightarrow> (string \<times> nat) list \<Rightarrow> nat
    \<Rightarrow> (string \<times> nat) list \<times> nat \<times> central" where
  "provision_all [] st a cache n = (cache, n, st)"
| "provision_all (ref # refs) st a cache n =
     (let (l, created, st') = provision_agent_library st a ref
      in provision_all refs st' a (dict_set ref (lib_id l) cache) (if created then Suc n else n))"

definition find_item :: "central \<Rightarrow> nat \<Rightarrow> string \<Rightarrow> Item option" where
  "find_item st lib p = find (\<lambda>i. library_id i = lib \<and> item_rel_path i = p) (items st)"

definition update_item :: "nat \<Rightarrow> (Item \<Rightarrow> Item) \<Rightarrow> central \<Rightarrow> central" where
  "update_item k f st = st\<lparr>items := map (\<lambda>i. if item_id i = k then f i else i) (items st)\<rparr>"

text \<open>An oversize extraction is dropped; the event still applies.\<close>

definition accepted_extract :: "env \<Rightarrow> AgentEvent \<Rightarrow> ExtractedPayload option" where
  "accepted_extract cfg ev = (case extracted ev of
       None \<Rightarrow> None
     | Some x \<Rightarrow> if extracted_json_len x > extracted_cap cfg then None else Some x)"

definition merge_opt :: "env \<Rightarrow> dict \<Rightarrow> ExtractedPayload option \<Rightarrow> int \<Rightarrow> py_exn + dict" where
  "merge_opt cfg old x now = (case x of
       None \<Rightarrow> Inr old
     | Some p \<Rightarrow> merge_extracted_metadata (archive_chars cfg) old p (isoformat cfg now))"

definition file_extension :: "string \<Rightarrow> string option" where
  "file_extension name = (if CHR ''.'' \<in> set name then Some (lower (last (split_on (CHR ''.'') name))) else None)"

definition new_item :: "env \<Rightarrow> Agent \<Rightarrow> nat \<Rightarrow> int \<Rightarrow> nat \<Rightarrow> string \<Rightarrow> int \<Rightarrow> int \<Rightarrow> string option \<Rightarrow> string option
    \<Rightarrow> dict option \<Rightarrow> dict \<Rightarrow> py_exn + Item" where
  "new_item cfg a lib now k p sz mt qh ch hint md =
     (let name = last_segment (to_slash p); (category, group) = detect cfg p in
      bind_res (path_to_ltree (blake2b cfg) (cps p) (Some lib)) (\<lambda>scope.
        Inr \<lparr>item_id = k, library_id = lib, file_category = category, file_group = group,
          item_path = p, item_rel_path = p, filename = name, extension = file_extension name,
          item_size = sz, item_mtime = mt, quick_hash = qh, content_hash = ch, item_status = active,
          source_agent_id = Some (agent_id a), first_seen = now, last_seen = now, path_scope = scope,
          share_hint = hint, metadata = md\<rparr>))"

definition refresh_item :: "Agent \<Rightarrow> int \<Rightarrow> AgentEvent \<Rightarrow> dict \<Rightarrow> Item \<Rightarrow> Item" where
  "refresh_item a now ev md i = i\<lparr>
     item_size := (case ev_size ev of Some s \<Rightarrow> s | None \<Rightarrow> item_size i),
     item_mtime := (case ev_mtime ev of Some t \<Rightarrow> fromtimestamp t | None \<Rightarrow> item_mtime i),
     quick_hash := ev_quick_hash ev, content_hash := ev_content_hash ev, item_path := rel_path ev,
     item_status := active, last_seen := now, source_agent_id := Some (agent_id a),
     share_hint := (case ev_share_hint ev of Some h \<Rightarrow> Some h | None \<Rightarrow> share_hint i),
     metadata := md\<rparr>"

definition upsert_item :: "env \<Rightarrow> Agent \<Rightarrow> int \<Rightarrow> nat \<Rightarrow> AgentEvent \<Rightarrow> central \<Rightarrow> py_exn + (nat \<times> central)" where
  "upsert_item cfg a now lib ev st =
     (if (case ev_mtime ev of Some t \<Rightarrow> \<not> representable (fromtimestamp t) | None \<Rightarrow> False) then Inl ValueError
      else case find_item st lib (rel_path ev) of
       None \<Rightarrow>
         bind_res (merge_opt cfg [] (accepted_extract cfg ev) now) (\<lambda>md.
         bind_res (new_item cfg a lib now (next_id st) (rel_path ev)
                     (case ev_size ev of Some s \<Rightarrow> s | None \<Rightarrow> 0)
                     (case ev_mtime ev of Some t \<Rightarrow> fromtimestamp t | None \<Rightarrow> now)
                     (ev_quick_hash ev) (ev_content_hash ev) (ev_share_hint ev) md) (\<lambda>i.
         Inr (next_id st, st\<lparr>items := items st @ [i], next_id := Suc (next_id st)\<rparr>)))
     | Some row \<Rightarrow>
         bind_res (merge_opt cfg (metadata row) (accepted_extract cfg ev) now) (\<lambda>md.
         Inr (item_id row, update_item (item_id row) (refresh_item a now ev md) st)))"

record tally =
  item_id_by_rel :: "(string \<times> nat) list"
  touched_ids :: "nat list"
  upserted :: nat
  tombstoned :: nat
  noop_tombstones :: nat

definition touch :: "string \<Rightarrow> nat \<Rightarrow> tally \<Rightarrow> tally" where
  "touch p k t = t\<lparr>item_id_by_rel := dict_set p k (item_id_by_rel t), touched_ids := touched_ids t @ [k]\<rparr>"

fun apply_upserts :: "env \<Rightarrow> Agent \<Rightarrow> int \<Rightarrow> (string \<times> nat) list \<Rightarrow> AgentEvent list \<Rightarrow> central \<times> tally
    \<Rightarrow> py_exn + (central \<times> tally)" where
  "apply_upserts cfg a now cache [] s = Inr s"
| "apply_upserts cfg a now cache (ev # evs) (st, t) =
     (case map_of cache (library_ref ev) of
        None \<Rightarrow> Inl KeyError
      | Some lib \<Rightarrow>
          bind_res (upsert_item cfg a now lib ev st) (\<lambda>(k, st').
            apply_upserts cfg a now cache evs (st', (touch (rel_path ev) k t)\<lparr>upserted := Suc (upserted t)\<rparr>)))"

definition bury :: "Agent \<Rightarrow> int \<Rightarrow> Item \<Rightarrow> Item" where
  "bury a now i = i\<lparr>item_status := missing, last_seen := now, source_agent_id := Some (agent_id a)\<rparr>"

definition delete_row :: "(string \<times> string) list \<Rightarrow> (string \<times> nat) list \<Rightarrow> central \<Rightarrow> string \<Rightarrow> Item option" where
  "delete_row refs cache st p = (case map_of refs p of
       None \<Rightarrow> None
     | Some ref \<Rightarrow> (case map_of cache ref of None \<Rightarrow> None | Some lib \<Rightarrow> find_item st lib p))"

fun apply_deletes :: "Agent \<Rightarrow> int \<Rightarrow> (string \<times> string) list \<Rightarrow> (string \<times> nat) list \<Rightarrow> string list
    \<Rightarrow> central \<times> tally \<Rightarrow> central \<times> tally" where
  "apply_deletes a now refs cache [] s = s"
| "apply_deletes a now refs cache (p # ps) (st, t) =
     apply_deletes a now refs cache ps
       (case delete_row refs cache st p of
          None \<Rightarrow> (st, t\<lparr>noop_tombstones := Suc (noop_tombstones t)\<rparr>)
        | Some row \<Rightarrow> (update_item (item_id row) (bury a now) st,
            (touch p (item_id row) t)\<lparr>tombstoned := Suc (tombstoned t)\<rparr>))"

text \<open>\<open>INSERT .. ON CONFLICT DO NOTHING\<close> on (agent, seq_no).\<close>

definition log_entry :: "Agent \<Rightarrow> int \<Rightarrow> (string \<times> nat) list \<Rightarrow> ledger_row list \<Rightarrow> AgentEvent \<Rightarrow> ledger_row list" where
  "log_entry a now ids lg ev =
     (if \<exists>r \<in> set lg. log_agent r = agent_id a \<and> log_seq r = seq_no ev then lg
      else lg @ [\<lparr>log_agent = agent_id a, log_seq = seq_no ev, log_item = map_of ids (rel_path ev),
        log_op = event_type ev, applied_at = now\<rparr>])"

record apply_result =
  applied :: nat
  res_tally :: tally
  libraries_created :: nat
  last_seq :: int
  library_ids :: "nat list"

definition empty_tally :: tally where
  "empty_tally = \<lparr>item_id_by_rel = [], touched_ids = [], upserted = 0, tombstoned = 0, noop_tombstones = 0\<rparr>"

definition apply_batch :: "env \<Rightarrow> central \<Rightarrow> Agent \<Rightarrow> AgentEvent list \<Rightarrow> int \<Rightarrow> py_exn + (central \<times> Agent \<times> apply_result)" where
  "apply_batch cfg st a entries now =
     (let plan = plan_upserts entries; refs = delete_refs entries;
          (cache, n_created, st1) = provision_all (plan_refs plan refs) st a [] 0
      in bind_res (apply_upserts cfg a now cache (upserts plan) (st1, empty_tally)) (\<lambda>s.
         let (st2, t) = apply_deletes a now refs cache (deletes plan) s;
             st3 = st2\<lparr>replication_log := foldl (log_entry a now (item_id_by_rel t)) (replication_log st2) entries\<rparr>
         in if entries = [] then Inl IndexError
            else let top = seq_no (last entries);
                     a' = a\<lparr>last_contiguous_seq_no := max top (last_contiguous_seq_no a), last_seen_at := Some now\<rparr>
              in Inr (st3, a', \<lparr>applied = length entries, res_tally = t, libraries_created = n_created,
                   last_seq = last_contiguous_seq_no a', library_ids = sort (remdups (map snd cache))\<rparr>)))"

section \<open>The replication endpoint\<close>

datatype response = Forbidden | Maintenance | TooLarge | Conflict "string option" "int option"
  | Applied apply_result

text \<open>
  The endpoint after authentication: \<open>body_agent\<close> is the agent id inside the batch, \<open>maintenance\<close> the
  global maintenance mode, \<open>max_entries\<close> the entry cap.
\<close>

definition apply_replication_batch :: "env \<Rightarrow> nat \<Rightarrow> bool \<Rightarrow> central \<Rightarrow> Agent \<Rightarrow> nat \<Rightarrow> AgentEvent list \<Rightarrow> int
    \<Rightarrow> py_exn + (central \<times> Agent \<times> response)" where
  "apply_replication_batch cfg max_entries maintenance st a body_agent entries now =
     (if body_agent \<noteq> agent_id a then Inr (st, a, Forbidden)
      else if maintenance then Inr (st, a\<lparr>last_seen_at := Some now\<rparr>, Maintenance)
      else if length entries > max_entries then Inr (st, a, TooLarge)
      else let verdict = check_batch entries (last_contiguous_seq_no a) in
        if \<not> ok verdict
        then Inr (st, a\<lparr>last_seen_at := Some now\<rparr>, Conflict (verdict_reason verdict) (expected_seq_no verdict))
        else bind_res (apply_batch cfg st a entries now) (\<lambda>(st', a', r). Inr (st', a', Applied r)))"

section \<open>Rows of a keyed table\<close>

lemma find_map_same_key:
  assumes "\<And>x. P (f x) = P x"
  shows "find P (map f xs) = map_option f (find P xs)"
  by (induction xs) (auto simp: assms)

lemma find_append: "find P (xs @ ys) = (case find P xs of Some x \<Rightarrow> Some x | None \<Rightarrow> find P ys)"
  by (induction xs) auto

lemma find_SomeD: "find P xs = Some x \<Longrightarrow> x \<in> set xs \<and> P x"
  by (auto simp: find_Some_iff)

lemma find_NoneD: "find P xs = None \<Longrightarrow> x \<in> set xs \<Longrightarrow> \<not> P x"
  by (auto simp: find_None_iff)

lemma distinct_map_eqD: "distinct (map f xs) \<Longrightarrow> x \<in> set xs \<Longrightarrow> y \<in> set xs \<Longrightarrow> f x = f y \<Longrightarrow> x = y"
  by (auto simp: distinct_map inj_on_def)

text \<open>The table invariants: primary keys, the unique indexes, and the id counter.\<close>

definition item_key :: "Item \<Rightarrow> nat \<times> string" where
  "item_key i = (library_id i, item_rel_path i)"

definition items_ok :: "central \<Rightarrow> bool" where
  "items_ok st = (distinct (map item_id (items st)) \<and> distinct (map item_key (items st))
     \<and> (\<forall>i \<in> set (items st). item_id i < next_id st \<and> library_id i < next_id st))"

definition lib_key :: "Library \<Rightarrow> nat option \<times> string option" where
  "lib_key l = (lib_source_agent l, agent_library_ref l)"

definition libs_ok :: "central \<Rightarrow> bool" where
  "libs_ok st = (distinct (map lib_id (libraries st)) \<and> distinct (map lib_name (libraries st))
     \<and> distinct (map lib_key (filter (\<lambda>l. lib_source_agent l \<noteq> None) (libraries st)))
     \<and> (\<forall>l \<in> set (libraries st). lib_id l < next_id st))"

definition central_ok :: "central \<Rightarrow> bool" where
  "central_ok st = (items_ok st \<and> libs_ok st
     \<and> distinct (map (\<lambda>r. (log_agent r, log_seq r)) (replication_log st)))"

lemma find_item_eq: "find_item st lib p = find (\<lambda>i. item_key i = (lib, p)) (items st)"
  by (simp add: find_item_def item_key_def)

lemma find_item_update:
  assumes "\<And>i. item_key (f i) = item_key i"
  shows "find_item (update_item k f st) lib p =
    map_option (\<lambda>i. if item_id i = k then f i else i) (find_item st lib p)"
  by (simp add: find_item_eq update_item_def find_map_same_key assms)

lemma find_item_update_other:
  assumes "items_ok st" "\<And>i. item_key (f i) = item_key i" "find_item st lib p = Some row" "(l, q) \<noteq> (lib, p)"
  shows "find_item (update_item (item_id row) f st) l q = find_item st l q"
proof (cases "find_item st l q")
  case None
  then show ?thesis by (simp add: find_item_update assms(2))
next
  case (Some i)
  from Some assms(3) have "i \<in> set (items st)" "row \<in> set (items st)" "item_key i = (l, q)" "item_key row = (lib, p)"
    by (auto simp: find_item_eq dest: find_SomeD)
  with assms(1,4) have "item_id i \<noteq> item_id row"
    unfolding items_ok_def by (metis distinct_map_eqD)
  with Some show ?thesis by (simp add: find_item_update assms(2))
qed

lemma items_ok_update:
  assumes "items_ok st" "\<And>i. item_key (f i) = item_key i" "\<And>i. item_id (f i) = item_id i"
  shows "items_ok (update_item k f st)"
proof -
  let ?g = "\<lambda>i. if item_id i = k then f i else i"
  have l: "library_id (f i) = library_id i" for i using assms(2) [of i] by (simp add: item_key_def)
  have g: "item_id (?g i) = item_id i" "item_key (?g i) = item_key i" "library_id (?g i) = library_id i" for i
    using assms(2,3) l by auto
  have "map item_id (map ?g (items st)) = map item_id (items st)" "map item_key (map ?g (items st)) = map item_key (items st)"
    using g by (simp_all del: if_split)
  with assms(1) g show ?thesis unfolding items_ok_def update_item_def using assms(3) l by (auto simp del: map_map)
qed

lemma items_ok_insert:
  assumes "items_ok st" "find_item st (library_id i) (item_rel_path i) = None" "item_id i = next_id st"
    and "library_id i < next_id st"
  shows "items_ok (st\<lparr>items := items st @ [i], next_id := Suc (next_id st)\<rparr>)"
proof -
  have "item_key j \<noteq> item_key i" if "j \<in> set (items st)" for j
    using find_NoneD [OF assms(2) [unfolded find_item_eq] that] by (simp add: item_key_def)
  with assms show ?thesis by (auto simp: items_ok_def less_Suc_eq dest: sym)
qed

lemma refresh_item_keys [simp]:
  "item_key (refresh_item a now ev md i) = item_key i" "item_id (refresh_item a now ev md i) = item_id i"
  "item_status (refresh_item a now ev md i) = active"
  "quick_hash (refresh_item a now ev md i) = ev_quick_hash ev"
  "content_hash (refresh_item a now ev md i) = ev_content_hash ev"
  by (simp_all add: refresh_item_def item_key_def)

lemma bury_keys [simp]:
  "item_key (bury a now i) = item_key i" "item_id (bury a now i) = item_id i"
  "item_status (bury a now i) = missing"
  by (simp_all add: bury_def item_key_def)

lemma new_item_fields:
  assumes "new_item cfg a lib now k p sz mt qh ch hint md = Inr i"
  shows "item_id i = k" "item_key i = (lib, p)" "item_status i = active" "quick_hash i = qh" "content_hash i = ch"
    "item_size i = sz" "item_mtime i = mt"
  using assms by (auto simp: new_item_def item_key_def bind_res_Inr Let_def split: prod.splits)

section \<open>What one operation does to the tables\<close>

text \<open>The live content of a library: hashes, size and time of the active items, by path.\<close>

type_synonym content = "string option \<times> string option \<times> int \<times> int"
type_synonym view = "string \<Rightarrow> content option"

definition live :: "Item option \<Rightarrow> content option" where
  "live i = (case i of
       Some r \<Rightarrow> if item_status r = active then Some (quick_hash r, content_hash r, item_size r, item_mtime r) else None
     | None \<Rightarrow> None)"

definition view :: "central \<Rightarrow> nat \<Rightarrow> view" where
  "view st lib p = live (find_item st lib p)"

definition event_content :: "AgentEvent \<Rightarrow> content" where
  "event_content ev = (ev_quick_hash ev, ev_content_hash ev, case ev_size ev of Some s \<Rightarrow> s | None \<Rightarrow> 0,
     case ev_mtime ev of Some t \<Rightarrow> fromtimestamp t | None \<Rightarrow> 0)"

text \<open>An event that says all there is to know of the file.\<close>

definition stamped :: "AgentEvent \<Rightarrow> bool" where
  "stamped ev = (event_type ev \<noteq> Deleted \<longrightarrow> ev_size ev \<noteq> None \<and> ev_mtime ev \<noteq> None)"

text \<open>The row at a path after the operation planned for it: every column.\<close>

fun row_after :: "env \<Rightarrow> Agent \<Rightarrow> int \<Rightarrow> nat \<Rightarrow> plan_op option \<Rightarrow> Item option \<Rightarrow> Item option \<Rightarrow> bool" where
  "row_after cfg a now lib None old new = (new = old)"
| "row_after cfg a now lib (Some PDelete) old new = (new = map_option (bury a now) old)"
| "row_after cfg a now lib (Some (PUpsert ev)) None new =
     (\<exists>md k i. merge_opt cfg [] (accepted_extract cfg ev) now = Inr md
        \<and> new_item cfg a lib now k (rel_path ev) (case ev_size ev of Some s \<Rightarrow> s | None \<Rightarrow> 0)
            (case ev_mtime ev of Some t \<Rightarrow> fromtimestamp t | None \<Rightarrow> now) (ev_quick_hash ev) (ev_content_hash ev)
            (ev_share_hint ev) md = Inr i
        \<and> new = Some i)"
| "row_after cfg a now lib (Some (PUpsert ev)) (Some row) new =
     (\<exists>md. merge_opt cfg (metadata row) (accepted_extract cfg ev) now = Inr md \<and> new = Some (refresh_item a now ev md row))"

lemma row_after_live:
  assumes "row_after cfg a now lib op old new" "\<And>ev. op = Some (PUpsert ev) \<Longrightarrow> ev_size ev \<noteq> None \<and> ev_mtime ev \<noteq> None"
  shows "live new = (case op of None \<Rightarrow> live old | Some PDelete \<Rightarrow> None | Some (PUpsert ev) \<Rightarrow> Some (event_content ev))"
  using assms(1,2)
proof (cases rule: row_after.cases [of "(cfg, a, now, lib, op, old, new)"])
  case (3 _ _ _ _ ev)
  with assms obtain md k i where "new_item cfg a lib now k (rel_path ev) (case ev_size ev of Some s \<Rightarrow> s | None \<Rightarrow> 0)
      (case ev_mtime ev of Some t \<Rightarrow> fromtimestamp t | None \<Rightarrow> now) (ev_quick_hash ev) (ev_content_hash ev)
      (ev_share_hint ev) md = Inr i" "new = Some i" by auto
  with 3 assms(2) [of ev] new_item_fields show ?thesis by (fastforce simp: live_def event_content_def)
next
  case (4 _ _ _ _ ev row)
  with assms(1) assms(2) [of ev] show ?thesis by (auto simp: live_def event_content_def refresh_item_def)
qed (auto simp: live_def split: option.split)

text \<open>Only the items change, ids below the counter stay taken.\<close>

definition same_rest :: "central \<Rightarrow> central \<Rightarrow> bool" where
  "same_rest st st' = (libraries st' = libraries st \<and> replication_log st' = replication_log st \<and> next_id st \<le> next_id st')"

lemma same_rest_refl [simp]: "same_rest st st"
  by (simp add: same_rest_def)

lemma same_rest_trans: "same_rest s t \<Longrightarrow> same_rest t u \<Longrightarrow> same_rest s u"
  by (auto simp: same_rest_def)

lemma same_rest_update [simp]: "same_rest st (update_item k f st)"
  by (simp add: same_rest_def update_item_def)

lemma upsert_item_effect:
  assumes "items_ok st" "lib < next_id st" "upsert_item cfg a now lib ev st = Inr (k, st')"
  shows "items_ok st'" "same_rest st st'"
    "row_after cfg a now lib (Some (PUpsert ev)) (find_item st lib (rel_path ev)) (find_item st' lib (rel_path ev))"
    "(l, q) \<noteq> (lib, rel_path ev) \<Longrightarrow> find_item st' l q = find_item st l q"
proof -
  have "items_ok st' \<and> same_rest st st'
    \<and> row_after cfg a now lib (Some (PUpsert ev)) (find_item st lib (rel_path ev)) (find_item st' lib (rel_path ev))
    \<and> (\<forall>l q. (l, q) \<noteq> (lib, rel_path ev) \<longrightarrow> find_item st' l q = find_item st l q)"
  proof (cases "find_item st lib (rel_path ev)")
    case None
    with assms(3) obtain md i where md: "merge_opt cfg [] (accepted_extract cfg ev) now = Inr md" and
      i: "new_item cfg a lib now (next_id st) (rel_path ev) (case ev_size ev of Some s \<Rightarrow> s | None \<Rightarrow> 0)
        (case ev_mtime ev of Some t \<Rightarrow> fromtimestamp t | None \<Rightarrow> now) (ev_quick_hash ev) (ev_content_hash ev)
        (ev_share_hint ev) md = Inr i"
      and st': "st' = st\<lparr>items := items st @ [i], next_id := Suc (next_id st)\<rparr>"
      by (auto simp: upsert_item_def bind_res_Inr split: if_splits)
    note f = new_item_fields [OF i]
    have key: "library_id i = lib" "item_rel_path i = rel_path ev" using f(2) by (simp_all add: item_key_def)
    have "items_ok st'" unfolding st' using assms(1,2) None f(1) key by (intro items_ok_insert) simp_all
    moreover have "find_item st' l q = (case find_item st l q of Some r \<Rightarrow> Some r
        | None \<Rightarrow> if (l, q) = (lib, rel_path ev) then Some i else None)" for l q
      using f(2) by (auto simp: find_item_eq st' find_append split: option.splits)
    moreover have "same_rest st st'" by (simp add: st' same_rest_def)
    ultimately show ?thesis using None md i by (auto split: option.splits)
  next
    case (Some row)
    with assms(3) obtain md where md: "merge_opt cfg (metadata row) (accepted_extract cfg ev) now = Inr md" and st': "st' = update_item (item_id row) (refresh_item a now ev md) st"
      by (auto simp: upsert_item_def bind_res_Inr split: if_splits)
    have "items_ok st'" unfolding st' using assms(1) by (intro items_ok_update) simp_all
    moreover have "find_item st' lib (rel_path ev) = Some (refresh_item a now ev md row)"
      using Some by (simp add: st' find_item_update)
    moreover have "find_item st' l q = find_item st l q" if "(l, q) \<noteq> (lib, rel_path ev)" for l q
      unfolding st' using assms(1) Some that by (intro find_item_update_other) simp_all
    moreover have "same_rest st st'" by (simp add: st')
    ultimately show ?thesis using Some md by auto
  qed
  then show "items_ok st'" "same_rest st st'"
    "row_after cfg a now lib (Some (PUpsert ev)) (find_item st lib (rel_path ev)) (find_item st' lib (rel_path ev))"
    "(l, q) \<noteq> (lib, rel_path ev) \<Longrightarrow> find_item st' l q = find_item st l q"
    by blast+
qed

lemma bury_effect:
  assumes "items_ok st" "find_item st lib p = Some row"
  shows "find_item (update_item (item_id row) (bury a now) st) l q =
    (if l = lib \<and> q = p then Some (bury a now row) else find_item st l q)"
proof (cases "l = lib \<and> q = p")
  case True
  with assms(2) show ?thesis by (simp add: find_item_update)
next
  case False
  with find_item_update_other [OF assms(1) _ assms(2), of "bury a now" l q] show ?thesis by auto
qed

section \<open>The plan is last-event-wins\<close>

text \<open>The effect of the events on each path: the last one that touches it.\<close>

definition effect :: "(string \<rightharpoonup> plan_op) \<Rightarrow> AgentEvent \<Rightarrow> (string \<rightharpoonup> plan_op)" where
  "effect m ev = (case event_type ev of
       Moved \<Rightarrow> (case from_rel_path ev of Some p \<Rightarrow> m(p \<mapsto> PDelete) | None \<Rightarrow> m)(rel_path ev \<mapsto> PUpsert ev)
     | Deleted \<Rightarrow> m(rel_path ev \<mapsto> PDelete)
     | _ \<Rightarrow> m(rel_path ev \<mapsto> PUpsert ev))"

definition last_effect :: "AgentEvent list \<Rightarrow> (string \<rightharpoonup> plan_op)" where
  "last_effect evs = foldl effect Map.empty evs"

lemma map_of_plan_step: "map_of (plan_step d ev) = effect (map_of d) ev"
  by (auto simp: plan_step_def effect_def split: EventType.splits option.splits)

lemma map_of_plan: "map_of (foldl plan_step d evs) = foldl effect (map_of d) evs"
  by (induction evs arbitrary: d) (simp_all add: map_of_plan_step)

lemma distinct_plan_step: "distinct (map fst d) \<Longrightarrow> distinct (map fst (plan_step d ev))"
  by (auto simp: plan_step_def split: EventType.splits option.splits)

lemma distinct_plan: "distinct (map fst d) \<Longrightarrow> distinct (map fst (foldl plan_step d evs))"
  by (induction evs arbitrary: d) (simp_all add: distinct_plan_step)

lemma effect_keyed:
  "(\<And>p e. m p = Some (PUpsert e) \<Longrightarrow> rel_path e = p) \<Longrightarrow> effect m ev p = Some (PUpsert e) \<Longrightarrow> rel_path e = p"
  by (auto simp: effect_def split: EventType.splits option.splits if_splits)

lemma foldl_effect_keyed:
  "(\<And>p e. m p = Some (PUpsert e) \<Longrightarrow> rel_path e = p) \<Longrightarrow> foldl effect m evs p = Some (PUpsert e) \<Longrightarrow> rel_path e = p"
proof (induction evs arbitrary: m)
  case (Cons ev evs)
  then show ?case using effect_keyed [of m ev] by (metis foldl_Cons)
qed simp

lemma last_effect_keyed: "last_effect evs p = Some (PUpsert e) \<Longrightarrow> rel_path e = p"
  unfolding last_effect_def by (rule foldl_effect_keyed [of Map.empty]) simp_all

lemma foldl_effect_source:
  "foldl effect m evs p = Some op \<Longrightarrow> m p = Some op \<or> (\<exists>ev \<in> set evs. \<exists>m'. effect m' ev p = Some op \<and> effect Map.empty ev p \<noteq> None)"
proof (induction evs arbitrary: m)
  case (Cons ev evs)
  then have "effect m ev p = Some op \<or> (\<exists>ev \<in> set evs. \<exists>m'. effect m' ev p = Some op \<and> effect Map.empty ev p \<noteq> None)"
    by simp
  moreover have "m p = Some op \<or> effect Map.empty ev p \<noteq> None" if "effect m ev p = Some op"
    using that by (auto simp: effect_def split: EventType.splits option.splits if_splits)
  ultimately show ?case by auto
qed simp

definition plan_state :: "AgentEvent list \<Rightarrow> (string \<times> plan_op) list" where
  "plan_state evs = foldl plan_step [] evs"

lemma plan_state_iff: "(p, op) \<in> set (plan_state evs) \<longleftrightarrow> last_effect evs p = Some op"
proof -
  have "distinct (map fst (plan_state evs))" by (simp add: plan_state_def distinct_plan)
  then have "(p, op) \<in> set (plan_state evs) \<longleftrightarrow> map_of (plan_state evs) p = Some op" by simp
  then show ?thesis by (simp add: plan_state_def map_of_plan last_effect_def)
qed

lemma op_event_in: "e \<in> set (op_event op) \<longleftrightarrow> op = PUpsert e"
  by (cases op) auto

lemma upserts_iff: "e \<in> set (upserts (plan_upserts evs)) \<longleftrightarrow> last_effect evs (rel_path e) = Some (PUpsert e)"
proof -
  have "e \<in> set (upserts (plan_upserts evs)) \<longleftrightarrow> (\<exists>p. (p, PUpsert e) \<in> set (plan_state evs))"
  proof -
    have "e \<in> set (upserts (plan_upserts evs)) \<longleftrightarrow> (\<exists>x \<in> set (plan_state evs). snd x = PUpsert e)"
      by (auto simp: plan_upserts_def plan_state_def Let_def op_event_in)
    then show ?thesis by force
  qed
  then show ?thesis using last_effect_keyed by (auto simp: plan_state_iff)
qed

lemma deletes_iff: "p \<in> set (deletes (plan_upserts evs)) \<longleftrightarrow> last_effect evs p = Some PDelete"
proof -
  have "p \<in> set (deletes (plan_upserts evs)) \<longleftrightarrow> (p, PDelete) \<in> set (plan_state evs)"
    by (force simp: plan_upserts_def plan_state_def Let_def)
  then show ?thesis by (simp add: plan_state_iff)
qed

lemma distinct_op_paths:
  "distinct (map fst d) \<Longrightarrow> (\<And>p e. (p, PUpsert e) \<in> set d \<Longrightarrow> rel_path e = p) \<Longrightarrow>
   distinct (map rel_path (concat (map (\<lambda>x. op_event (snd x)) d)))
   \<and> set (map rel_path (concat (map (\<lambda>x. op_event (snd x)) d))) \<subseteq> set (map fst d)"
proof (induction d)
  case (Cons x d)
  then have IH: "distinct (map rel_path (concat (map (\<lambda>x. op_event (snd x)) d)))"
    "set (map rel_path (concat (map (\<lambda>x. op_event (snd x)) d))) \<subseteq> set (map fst d)" by auto
  show ?case
  proof (cases "snd x")
    case (PUpsert e)
    with Cons.prems(2) [of "fst x" e] have "rel_path e = fst x" by (metis list.set_intros(1) prod.collapse)
    with PUpsert IH Cons.prems(1) show ?thesis by auto
  next
    case PDelete
    with IH show ?thesis by auto
  qed
qed simp

lemma upserts_distinct: "distinct (map rel_path (upserts (plan_upserts evs)))"
proof -
  have "distinct (map rel_path (concat (map (\<lambda>x. op_event (snd x)) (plan_state evs))))"
    using distinct_op_paths [of "plan_state evs"] last_effect_keyed
    by (auto simp: plan_state_iff) (simp_all add: plan_state_def distinct_plan)
  then show ?thesis by (simp add: plan_upserts_def plan_state_def Let_def distinct_map)
qed

section \<open>Applying the plan\<close>

lemma apply_upserts_effect:
  assumes "apply_upserts cfg a now cache evs (st, t) = Inr (st', t')" "items_ok st"
    and "\<And>ev. ev \<in> set evs \<Longrightarrow> map_of cache (library_ref ev) = Some lib" "lib < next_id st"
    and "distinct (map rel_path evs)"
  shows "items_ok st' \<and> same_rest st st' \<and>
    (\<forall>ev \<in> set evs. row_after cfg a now lib (Some (PUpsert ev)) (find_item st lib (rel_path ev)) (find_item st' lib (rel_path ev))) \<and>
    (\<forall>l q. \<not> (l = lib \<and> q \<in> rel_path ` set evs) \<longrightarrow> find_item st' l q = find_item st l q)"
  using assms
proof (induction evs arbitrary: st t)
  case (Cons ev evs)
  from Cons.prems(1,3) obtain k st1 t1 where up: "upsert_item cfg a now lib ev st = Inr (k, st1)"
    and rest: "apply_upserts cfg a now cache evs (st1, t1) = Inr (st', t')"
    by (auto simp: bind_res_Inr)
  note e = upsert_item_effect [OF Cons.prems(2,4) up]
  have "lib < next_id st1" using e(2) Cons.prems(4) by (simp add: same_rest_def)
  with Cons.IH [OF rest e(1)] Cons.prems(3,5) have ih: "items_ok st'" "same_rest st1 st'"
    "\<forall>ev \<in> set evs. row_after cfg a now lib (Some (PUpsert ev)) (find_item st1 lib (rel_path ev)) (find_item st' lib (rel_path ev))"
    "\<forall>l q. \<not> (l = lib \<and> q \<in> rel_path ` set evs) \<longrightarrow> find_item st' l q = find_item st1 l q" by simp_all
  have other: "find_item st1 lib (rel_path f) = find_item st lib (rel_path f)" if "f \<in> set evs" for f
    using Cons.prems(5) that by (intro e(4)) (auto simp: image_iff)
  have "row_after cfg a now lib (Some (PUpsert ev)) (find_item st lib (rel_path ev)) (find_item st' lib (rel_path ev))"
    using ih(4) e(3) Cons.prems(5) by auto
  moreover have "find_item st' l q = find_item st l q" if "\<not> (l = lib \<and> q \<in> rel_path ` set (ev # evs))" for l q
    using that ih(4) e(4) [of l q] by auto
  ultimately show ?case using ih other same_rest_trans [OF e(2) ih(2)] by auto
qed simp

lemma bury_twice [simp]: "bury a now (bury a now i) = bury a now i"
  by (simp add: bury_def)

lemma apply_deletes_effect:
  assumes "apply_deletes a now refs cache ps (st, t) = (st', t')" "items_ok st"
    and "\<And>p. p \<in> set ps \<Longrightarrow> \<exists>ref. map_of refs p = Some ref \<and> map_of cache ref = Some lib"
  shows "items_ok st' \<and> same_rest st st' \<and>
    (\<forall>l q. find_item st' l q = (if l = lib \<and> q \<in> set ps then map_option (bury a now) (find_item st l q) else find_item st l q))"
  using assms
proof (induction ps arbitrary: st t)
  case (Cons p ps)
  from Cons.prems(3) have d: "delete_row refs cache st p = find_item st lib p" by (force simp: delete_row_def)
  show ?case
  proof (cases "find_item st lib p")
    case None
    with Cons.prems(1) d obtain t1 where "apply_deletes a now refs cache ps (st, t1) = (st', t')" by simp
    with Cons.IH [of st t1] Cons.prems None show ?thesis by auto
  next
    case (Some row)
    define st1 where "st1 = update_item (item_id row) (bury a now) st"
    have ok: "items_ok st1" unfolding st1_def using Cons.prems(2) by (rule items_ok_update) simp_all
    from Cons.prems(1) d Some obtain t1 where "apply_deletes a now refs cache ps (st1, t1) = (st', t')"
      by (auto simp: st1_def)
    with Cons.IH [of st1 t1] Cons.prems(3) ok have ih: "items_ok st'" "same_rest st1 st'"
      "\<forall>l q. find_item st' l q = (if l = lib \<and> q \<in> set ps then map_option (bury a now) (find_item st1 l q) else find_item st1 l q)" by simp_all
    have "find_item st1 l q = (if l = lib \<and> q = p then Some (bury a now row) else find_item st l q)" for l q
      unfolding st1_def by (rule bury_effect [OF Cons.prems(2) Some])
    with ih Some show ?thesis
      using same_rest_trans [of st st1 st'] by (auto simp: st1_def)
  qed
qed simp

subsection \<open>The libraries of a batch\<close>

lemma next_free_fresh: "next_free taken base k \<notin> set taken"
  by (induction taken base k rule: next_free.induct) (simp add: next_free.simps)

lemma provision_effect:
  assumes "libs_ok st" "provision_agent_library st a ref = (l, created, st')"
  shows "libs_ok st'" "items st' = items st" "replication_log st' = replication_log st"
    "next_id st \<le> next_id st'" "lib_id l < next_id st'" "agent_library st' a ref = Some l"
    "\<not> created \<Longrightarrow> st' = st" "created \<Longrightarrow> lib_id l = next_id st"
    "agent_library st b r = Some x \<Longrightarrow> agent_library st' b r = Some x"
proof -
  have "libs_ok st' \<and> items st' = items st \<and> replication_log st' = replication_log st \<and> next_id st \<le> next_id st'
    \<and> lib_id l < next_id st' \<and> agent_library st' a ref = Some l \<and> (\<not> created \<longrightarrow> st' = st)
    \<and> (created \<longrightarrow> lib_id l = next_id st) \<and> (agent_library st b r = Some x \<longrightarrow> agent_library st' b r = Some x)"
  proof (cases "agent_library st a ref")
    case None
    have fresh: "lib_name l \<notin> set (map lib_name (libraries st))"
    proof -
      let ?b = "display_name a @ '': '' @ agent_library_basename ref" and ?t = "map lib_name (libraries st)"
      have "lib_name l = (if ?b \<in> set ?t then next_free ?t ?b 2 else ?b)"
        using None assms(2) by (auto simp: provision_agent_library_def Let_def)
      then show ?thesis using next_free_fresh [of ?t ?b 2] by (auto simp del: set_map)
    qed
    have l: "lib_id l = next_id st" "lib_key l = (Some (agent_id a), Some ref)" "created"
      "st' = st\<lparr>libraries := libraries st @ [l], next_id := Suc (next_id st)\<rparr>"
      using None assms(2) by (auto simp: provision_agent_library_def lib_key_def Let_def)
    have "lib_key x \<noteq> lib_key l" if "x \<in> set (libraries st)" for x
      using find_NoneD [OF None [unfolded agent_library_def] that] l(2) by (auto simp: lib_key_def)
    then have "libs_ok st'" using assms(1) fresh l by (auto simp: libs_ok_def less_Suc_eq dest: sym)
    moreover have "agent_library st' a ref = Some l" using None l
      by (auto simp: agent_library_def find_append lib_key_def split: option.splits)
    ultimately show ?thesis using l by (auto simp: agent_library_def find_append)
  next
    case (Some y)
    then have "y \<in> set (libraries st)" by (auto simp: agent_library_def dest: find_SomeD)
    with Some assms show ?thesis by (auto simp: provision_agent_library_def libs_ok_def)
  qed
  then show "libs_ok st'" "items st' = items st" "replication_log st' = replication_log st"
    "next_id st \<le> next_id st'" "lib_id l < next_id st'" "agent_library st' a ref = Some l"
    "\<not> created \<Longrightarrow> st' = st" "created \<Longrightarrow> lib_id l = next_id st"
    "agent_library st b r = Some x \<Longrightarrow> agent_library st' b r = Some x" by blast+
qed

subsection \<open>The references of the deletes\<close>

lemma del_step_keeps: "map_of d p \<noteq> None \<Longrightarrow> map_of (del_step d ev) p \<noteq> None"
  by (auto simp: del_step_def split: EventType.splits option.splits)

lemma del_refs_keeps: "map_of d p \<noteq> None \<Longrightarrow> map_of (foldl del_step d evs) p \<noteq> None"
proof (induction evs arbitrary: d)
  case (Cons ev evs)
  from Cons.IH [OF del_step_keeps [OF Cons.prems]] show ?case by simp
qed simp

lemma del_refs_cover:
  "foldl effect m evs p = Some PDelete \<Longrightarrow> m p = Some PDelete \<or> map_of (foldl del_step d evs) p \<noteq> None"
proof (induction evs arbitrary: m d)
  case (Cons ev evs)
  then have "effect m ev p = Some PDelete \<or> map_of (foldl del_step (del_step d ev) evs) p \<noteq> None" by simp
  moreover have "m p = Some PDelete \<or> map_of (del_step d ev) p \<noteq> None" if "effect m ev p = Some PDelete"
    using that by (auto simp: effect_def del_step_def split: EventType.splits option.splits if_splits)
  ultimately show ?case using del_refs_keeps [of "del_step d ev" p evs] by auto
qed simp

lemma del_refs_range:
  "map_of (foldl del_step d evs) p = Some r \<Longrightarrow> map_of d p = Some r \<or> r \<in> library_ref ` set evs"
proof (induction evs arbitrary: d)
  case (Cons ev evs)
  then have "map_of (del_step d ev) p = Some r \<or> r \<in> library_ref ` set evs" by simp
  then show ?case by (auto simp: del_step_def split: EventType.splits option.splits if_splits)
qed simp

lemma deletes_have_refs:
  assumes "p \<in> set (deletes (plan_upserts evs))"
  shows "\<exists>r \<in> library_ref ` set evs. map_of (delete_refs evs) p = Some r"
  using assms del_refs_cover [of Map.empty evs p "[]"] del_refs_range [of "[]" evs p]
  by (auto simp: deletes_iff last_effect_def delete_refs_def)

lemma effect_event: "effect m ev p = Some (PUpsert e) \<Longrightarrow> m p = Some (PUpsert e) \<or> e = ev"
  by (auto simp: effect_def split: EventType.splits option.splits if_splits)

lemma foldl_effect_event: "foldl effect m evs p = Some (PUpsert e) \<Longrightarrow> m p = Some (PUpsert e) \<or> e \<in> set evs"
proof (induction evs arbitrary: m)
  case (Cons ev evs)
  then show ?case using effect_event [of m ev p e] by fastforce
qed simp

lemma upserts_subset: "set (upserts (plan_upserts evs)) \<subseteq> set evs"
  using foldl_effect_event [of Map.empty evs] by (auto simp: upserts_iff last_effect_def)

subsection \<open>Invariants of a batch\<close>

lemma provision_all_effect:
  assumes "libs_ok st" "provision_all refs st a cache n = (cache', n', st')"
    and "\<forall>l \<in> snd ` set cache. l < next_id st"
  shows "libs_ok st' \<and> items st' = items st \<and> replication_log st' = replication_log st \<and> next_id st \<le> next_id st'
    \<and> (\<forall>l \<in> snd ` set cache'. l < next_id st')"
  using assms
proof (induction refs arbitrary: st cache n)
  case (Cons ref refs)
  obtain l c st1 where p: "provision_agent_library st a ref = (l, c, st1)" by (metis prod.exhaust)
  note e = provision_effect [OF Cons.prems(1) p]
  have "set (dict_set ref (lib_id l) cache) \<subseteq> insert (ref, lib_id l) (set cache)"
    by (induction cache) (auto split: if_splits)
  then have "\<forall>k \<in> snd ` set (dict_set ref (lib_id l) cache). k < next_id st1"
    using Cons.prems(3) e(4,5) by fastforce
  with Cons.IH [OF e(1)] Cons.prems(2) p e show ?case by (fastforce simp: Let_def)
qed simp

lemma apply_upserts_ok:
  assumes "apply_upserts cfg a now cache evs (st, t) = Inr (st', t')" "items_ok st"
    and "\<forall>l \<in> snd ` set cache. l < next_id st"
  shows "items_ok st' \<and> same_rest st st'"
  using assms
proof (induction evs arbitrary: st t)
  case (Cons ev evs)
  from Cons.prems(1) obtain lib k st1 t1 where lib: "map_of cache (library_ref ev) = Some lib"
    and up: "upsert_item cfg a now lib ev st = Inr (k, st1)"
    and rest: "apply_upserts cfg a now cache evs (st1, t1) = Inr (st', t')"
    by (auto simp: bind_res_Inr split: option.splits)
  have "lib < next_id st" using lib Cons.prems(3) by (force dest: map_of_SomeD)
  note e = upsert_item_effect(1,2) [OF Cons.prems(2) this up]
  then have "\<forall>l \<in> snd ` set cache. l < next_id st1" using Cons.prems(3) by (auto simp: same_rest_def)
  from Cons.IH [OF rest e(1) this] e(2) same_rest_trans show ?case by blast
qed simp

lemma apply_deletes_ok:
  "apply_deletes a now refs cache ps (st, t) = (st', t') \<Longrightarrow> items_ok st \<Longrightarrow> items_ok st' \<and> same_rest st st'"
proof (induction ps arbitrary: st t)
  case (Cons p ps)
  show ?case
  proof (cases "delete_row refs cache st p")
    case None
    with Cons show ?thesis by auto
  next
    case (Some row)
    have "items_ok (update_item (item_id row) (bury a now) st)" using Cons.prems(2) by (rule items_ok_update) simp_all
    with Some Cons have "items_ok st'" "same_rest (update_item (item_id row) (bury a now) st) st'" by auto
    then show ?thesis using same_rest_trans [OF same_rest_update] by blast
  qed
qed simp

lemma log_entry_distinct:
  "distinct (map (\<lambda>r. (log_agent r, log_seq r)) lg) \<Longrightarrow> distinct (map (\<lambda>r. (log_agent r, log_seq r)) (log_entry a now ids lg ev))"
  by (auto simp: log_entry_def)

lemma log_entries_distinct:
  "distinct (map (\<lambda>r. (log_agent r, log_seq r)) lg) \<Longrightarrow>
   distinct (map (\<lambda>r. (log_agent r, log_seq r)) (foldl (log_entry a now ids) lg evs))"
  by (induction evs arbitrary: lg) (simp_all add: log_entry_distinct)

lemma log_entry_has:
  "\<exists>r \<in> set (log_entry a now ids lg ev). log_agent r = agent_id a \<and> log_seq r = seq_no ev"
  by (auto simp: log_entry_def)

lemma log_entry_mono: "set lg \<subseteq> set (log_entry a now ids lg ev)"
  by (auto simp: log_entry_def)

lemma log_entries_mono: "set lg \<subseteq> set (foldl (log_entry a now ids) lg evs)"
proof (induction evs arbitrary: lg)
  case (Cons ev evs)
  then show ?case using log_entry_mono [of lg a now ids ev] by (auto dest: subsetD)
qed simp

lemma log_entries_has:
  "ev \<in> set evs \<Longrightarrow> \<exists>r \<in> set (foldl (log_entry a now ids) lg evs). log_agent r = agent_id a \<and> log_seq r = seq_no ev"
proof (induction evs arbitrary: lg)
  case (Cons e evs)
  then show ?case
    using log_entry_has [of a now ids lg e] log_entries_mono [of "log_entry a now ids lg e" a now ids evs] by auto
qed simp

lemma apply_batch_Inr:
  assumes "apply_batch cfg st a entries now = Inr (st', a', r)"
  obtains cache n st1 s st2 t where
    "provision_all (plan_refs (plan_upserts entries) (delete_refs entries)) st a [] 0 = (cache, n, st1)"
    "apply_upserts cfg a now cache (upserts (plan_upserts entries)) (st1, empty_tally) = Inr s"
    "apply_deletes a now (delete_refs entries) cache (deletes (plan_upserts entries)) s = (st2, t)"
    "st' = st2\<lparr>replication_log := foldl (log_entry a now (item_id_by_rel t)) (replication_log st2) entries\<rparr>"
    "entries \<noteq> []"
    "a' = a\<lparr>last_contiguous_seq_no := max (seq_no (last entries)) (last_contiguous_seq_no a), last_seen_at := Some now\<rparr>"
proof -
  obtain cache n st1 where prov:
    "provision_all (plan_refs (plan_upserts entries) (delete_refs entries)) st a [] 0 = (cache, n, st1)"
    by (metis prod.exhaust)
  with assms obtain s where ups: "apply_upserts cfg a now cache (upserts (plan_upserts entries)) (st1, empty_tally) = Inr s"
    by (auto simp: apply_batch_def bind_res_Inr Let_def)
  obtain st2 t where dels: "apply_deletes a now (delete_refs entries) cache (deletes (plan_upserts entries)) s = (st2, t)"
    by force
  from assms show thesis
    by (intro that [OF prov ups dels]) (auto simp: apply_batch_def prov ups dels Let_def split: if_splits)
qed

lemma central_ok_cong:
  "items_ok st' \<Longrightarrow> libs_ok st \<Longrightarrow> libraries st' = libraries st \<Longrightarrow> next_id st \<le> next_id st' \<Longrightarrow>
   distinct (map (\<lambda>r. (log_agent r, log_seq r)) (replication_log st')) \<Longrightarrow> central_ok st'"
  by (auto simp: central_ok_def libs_ok_def)

lemma items_ok_provisioned:
  "items_ok st \<Longrightarrow> items st' = items st \<Longrightarrow> next_id st \<le> next_id st' \<Longrightarrow> items_ok st'"
  by (force simp: items_ok_def)

lemma items_ok_log [simp]: "items_ok (st\<lparr>replication_log := x\<rparr>) = items_ok st"
  by (simp add: items_ok_def)

lemma find_item_log [simp]: "find_item (st\<lparr>replication_log := x\<rparr>) = find_item st"
  by (simp add: find_item_def fun_eq_iff)

lemma apply_batch_ok:
  assumes "central_ok st" "apply_batch cfg st a entries now = Inr (st', a', r)"
  shows "central_ok st'"
  using assms(2)
proof (rule apply_batch_Inr)
  fix cache n st1 s st2 t
  assume prov: "provision_all (plan_refs (plan_upserts entries) (delete_refs entries)) st a [] 0 = (cache, n, st1)"
    and ups: "apply_upserts cfg a now cache (upserts (plan_upserts entries)) (st1, empty_tally) = Inr s"
    and dels: "apply_deletes a now (delete_refs entries) cache (deletes (plan_upserts entries)) s = (st2, t)"
    and st': "st' = st2\<lparr>replication_log := foldl (log_entry a now (item_id_by_rel t)) (replication_log st2) entries\<rparr>"
  obtain sa ta where s: "s = (sa, ta)" by force
  have libs: "libs_ok st" and its: "items_ok st" using assms(1) by (auto simp: central_ok_def)
  from provision_all_effect [OF libs prov] have p: "libs_ok st1" "items st1 = items st"
    "replication_log st1 = replication_log st" "next_id st \<le> next_id st1" "\<forall>l \<in> snd ` set cache. l < next_id st1" by auto
  have "items_ok st1" by (rule items_ok_provisioned [OF its p(2,4)])
  from apply_upserts_ok [OF ups [unfolded s] this p(5)] have u: "items_ok sa" "same_rest st1 sa" by auto
  from apply_deletes_ok [OF dels [unfolded s] u(1)] have d: "items_ok st2" "same_rest sa st2" by auto
  have rest: "same_rest st1 st2" by (rule same_rest_trans [OF u(2) d(2)])
  have "distinct (map (\<lambda>r. (log_agent r, log_seq r)) (replication_log st2))"
    using assms(1) p(3) rest by (simp add: central_ok_def same_rest_def)
  then have "distinct (map (\<lambda>r. (log_agent r, log_seq r)) (replication_log st'))"
    unfolding st' by (simp add: log_entries_distinct)
  with d(1) rest p(1) show ?thesis
    by (intro central_ok_cong [of st' st1]) (simp_all add: st' same_rest_def)
qed

section \<open>The sequence guard characterised\<close>

lemma check_rest_ok: "ok (check_rest f p es) \<longleftrightarrow> map seq_no es = [p + 1..p + int (length es)]"
proof (induction es arbitrary: p)
  case (Cons e es)
  have up: "[p + 1..p + int (length (e # es))] = (p + 1) # [p + 1 + 1..(p + 1) + int (length es)]"
    by (simp add: upto_rec1 algebra_simps)
  show ?case unfolding up using Cons.IH [of "p + 1"] by (auto simp: Let_def refuse_def)
qed (simp add: refuse_def)

lemma check_batch_ok:
  "ok (check_batch es l) \<longleftrightarrow> es \<noteq> [] \<and> map seq_no es = [l + 1..l + int (length es)]"
proof (cases es)
  case (Cons e r)
  have up: "[l + 1..l + int (length es)] = (l + 1) # [l + 1 + 1..(l + 1) + int (length r)]"
    by (simp add: Cons upto_rec1 algebra_simps)
  show ?thesis unfolding up using check_rest_ok [of "seq_no e" "seq_no e" r]
    by (auto simp: Cons check_batch_def refuse_def)
qed (simp add: check_batch_def refuse_def)

lemma check_batch_stale:
  "es \<noteq> [] \<Longrightarrow> seq_no (hd es) \<le> l \<Longrightarrow> check_batch es l = refuse ''stale'' (l + 1)"
  by (cases es) (simp_all add: check_batch_def)

section \<open>Replaying the events one by one\<close>

definition replay :: "view \<Rightarrow> AgentEvent \<Rightarrow> view" where
  "replay v ev = (case event_type ev of
       Moved \<Rightarrow> (case from_rel_path ev of Some p \<Rightarrow> v(p := None) | None \<Rightarrow> v)(rel_path ev := Some (event_content ev))
     | Deleted \<Rightarrow> v(rel_path ev := None)
     | _ \<Rightarrow> v(rel_path ev := Some (event_content ev)))"

definition overlay :: "(string \<rightharpoonup> plan_op) \<Rightarrow> view \<Rightarrow> view" where
  "overlay m v p = (case m p of None \<Rightarrow> v p | Some PDelete \<Rightarrow> None | Some (PUpsert e) \<Rightarrow> Some (event_content e))"

lemma overlay_effect: "overlay (effect m ev) v = replay (overlay m v) ev"
  by (auto simp: overlay_def effect_def replay_def fun_eq_iff split: EventType.splits option.splits)

lemma overlay_last_effect: "overlay (foldl effect m evs) v = foldl replay (overlay m v) evs"
  by (induction evs arbitrary: m) (simp_all add: overlay_effect)

lemma remdups_const: "\<forall>x \<in> set xs. x = a \<Longrightarrow> xs \<noteq> [] \<Longrightarrow> remdups xs = [a]"
proof (induction xs)
  case (Cons x xs)
  then show ?case by (cases xs) auto
qed simp

lemma plan_refs_single:
  assumes "\<forall>ev \<in> set evs. library_ref ev = ref" "evs \<noteq> []"
  shows "plan_refs (plan_upserts evs) (delete_refs evs) = [ref]"
proof -
  let ?xs = "map library_ref (upserts (plan_upserts evs))
     @ concat (map (\<lambda>p. case map_of (delete_refs evs) p of Some r \<Rightarrow> [r] | None \<Rightarrow> []) (deletes (plan_upserts evs)))"
  have dr: "map_of (delete_refs evs) p = Some ref" if "p \<in> set (deletes (plan_upserts evs))" for p
    using deletes_have_refs [OF that] assms(1) by auto
  have "\<forall>x \<in> set ?xs. x = ref" using assms(1) upserts_subset [of evs] dr by auto
  moreover have "?xs \<noteq> []"
  proof -
    obtain xs ev where evs: "evs = xs @ [ev]" using assms(2) by (metis rev_exhaust)
    have "last_effect evs (rel_path ev) \<noteq> None"
      by (auto simp: evs last_effect_def effect_def split: EventType.splits option.splits)
    then obtain op where op: "last_effect evs (rel_path ev) = Some op" by blast
    show ?thesis
    proof (cases op)
      case (PUpsert e)
      with op last_effect_keyed [of evs "rel_path ev" e] have "e \<in> set (upserts (plan_upserts evs))"
        by (simp add: upserts_iff)
      then show ?thesis by force
    next
      case PDelete
      with op have d: "rel_path ev \<in> set (deletes (plan_upserts evs))" by (simp add: deletes_iff)
      with dr [OF d] show ?thesis by (force simp: concat_eq_Nil_conv)
    qed
  qed
  ultimately have "remdups ?xs = [ref]" by (intro remdups_const)
  then show ?thesis by (simp add: plan_refs_def)
qed

lemma upsert_not_deleted: "last_effect evs p = Some (PUpsert e) \<Longrightarrow> event_type e \<noteq> Deleted"
proof (induction evs rule: rev_induct)
  case (snoc ev evs)
  then show ?case by (auto simp: last_effect_def effect_def split: EventType.splits option.splits if_splits)
qed (simp add: last_effect_def)

lemma apply_batch_single:
  assumes ok: "central_ok st" and app: "apply_batch cfg st a entries now = Inr (st', a', r)"
    and one: "\<forall>ev \<in> set entries. library_ref ev = ref"
  shows "\<exists>l. agent_library st' a ref = Some l
    \<and> (\<forall>p. row_after cfg a now (lib_id l) (last_effect entries p) (find_item st (lib_id l) p) (find_item st' (lib_id l) p))
    \<and> (\<forall>m p. m \<noteq> lib_id l \<longrightarrow> find_item st' m p = find_item st m p)"
  using app
proof (rule apply_batch_Inr)
  fix cache n st1 s st2 t
  assume prov: "provision_all (plan_refs (plan_upserts entries) (delete_refs entries)) st a [] 0 = (cache, n, st1)"
    and ups: "apply_upserts cfg a now cache (upserts (plan_upserts entries)) (st1, empty_tally) = Inr s"
    and dels: "apply_deletes a now (delete_refs entries) cache (deletes (plan_upserts entries)) s = (st2, t)"
    and st': "st' = st2\<lparr>replication_log := foldl (log_entry a now (item_id_by_rel t)) (replication_log st2) entries\<rparr>"
    and ne: "entries \<noteq> []"
  obtain sa ta where s: "s = (sa, ta)" by force
  obtain l c where pl: "provision_agent_library st a ref = (l, c, st1)" and cache: "cache = [(ref, lib_id l)]"
    using prov plan_refs_single [OF one ne] by (auto split: prod.splits)
  have libs: "libs_ok st" and its: "items_ok st" using ok by (auto simp: central_ok_def)
  note p = provision_effect [OF libs pl]
  have its1: "items_ok st1" by (rule items_ok_provisioned [OF its p(2,4)])
  have v1: "find_item st1 = find_item st" using p(2) by (simp add: fun_eq_iff find_item_def)
  let ?u = "upserts (plan_upserts entries)" and ?d = "deletes (plan_upserts entries)"
  have "map_of cache (library_ref ev) = Some (lib_id l)" if "ev \<in> set ?u" for ev
    using that upserts_subset [of entries] one by (auto simp: cache)
  from apply_upserts_effect [OF ups [unfolded s] its1 this p(5) upserts_distinct]
  have u: "items_ok sa" "same_rest st1 sa"
    "\<forall>ev \<in> set ?u. row_after cfg a now (lib_id l) (Some (PUpsert ev)) (find_item st1 (lib_id l) (rel_path ev)) (find_item sa (lib_id l) (rel_path ev))"
    "\<forall>k q. \<not> (k = lib_id l \<and> q \<in> rel_path ` set ?u) \<longrightarrow> find_item sa k q = find_item st1 k q" by auto
  have "\<exists>ref'. map_of (delete_refs entries) q = Some ref' \<and> map_of cache ref' = Some (lib_id l)" if "q \<in> set ?d" for q
    using deletes_have_refs [OF that] one by (auto simp: cache)
  from apply_deletes_effect [OF dels [unfolded s] u(1) this]
  have d: "same_rest sa st2"
    "\<forall>k q. find_item st2 k q = (if k = lib_id l \<and> q \<in> set ?d then map_option (bury a now) (find_item sa k q) else find_item sa k q)" by auto
  have "row_after cfg a now (lib_id l) (last_effect entries q) (find_item st (lib_id l) q) (find_item st2 (lib_id l) q)" for q
  proof (cases "last_effect entries q")
    case None
    then have "q \<notin> set ?d" "q \<notin> rel_path ` set ?u" by (auto simp: deletes_iff upserts_iff)
    with u(4) d(2) v1 None show ?thesis by simp
  next
    case (Some op)
    show ?thesis
    proof (cases op)
      case (PUpsert e)
      with Some last_effect_keyed [of entries q e] have q: "rel_path e = q" by simp
      with Some PUpsert have "e \<in> set ?u" "q \<notin> set ?d" by (simp_all add: upserts_iff deletes_iff)
      with u(3) d(2) q Some PUpsert v1 show ?thesis by auto
    next
      case PDelete
      with Some have "q \<in> set ?d" "q \<notin> rel_path ` set ?u" by (auto simp: deletes_iff upserts_iff)
      with PDelete Some d(2) u(4) v1 show ?thesis by simp
    qed
  qed
  moreover have "find_item st2 m q = find_item st m q" if "m \<noteq> lib_id l" for m q using that u(4) d(2) v1 by simp
  moreover have "agent_library st' a ref = Some l"
    using p(6) u(2) d(1) by (simp add: st' agent_library_def same_rest_def)
  ultimately show ?thesis by (auto simp: st')
qed

lemma replayed:
  assumes "\<And>p. row_after cfg a now lib (last_effect entries p) (find_item st lib p) (find_item st' lib p)"
    and "list_all stamped entries"
  shows "view st' lib = foldl replay (view st lib) entries"
proof -
  have "view st' lib p = overlay (last_effect entries) (view st lib) p" for p
    unfolding view_def overlay_def
  proof (rule row_after_live [OF assms(1)])
    fix ev assume "last_effect entries p = Some (PUpsert ev)"
    then have "ev \<in> set entries" "event_type ev \<noteq> Deleted"
      using foldl_effect_event [of Map.empty entries p ev] upsert_not_deleted by (auto simp: last_effect_def)
    with assms(2) show "ev_size ev \<noteq> None \<and> ev_mtime ev \<noteq> None" by (simp add: list_all_iff stamped_def)
  qed
  then show ?thesis
    using overlay_last_effect [of Map.empty entries "view st lib"]
    by (auto simp: fun_eq_iff last_effect_def) (simp add: overlay_def [abs_def])
qed

section \<open>Properties of replication\<close>

text \<open>
  A batch is accepted exactly when it is non-empty and its sequence numbers are the
  contiguous continuation of the watermark.
\<close>

theorem check_batch_contiguous:
  "ok (check_batch es l) \<longleftrightarrow> es \<noteq> [] \<and> map seq_no es = [l + 1..l + int (length es)]"
  by (rule check_batch_ok)

text \<open>
  Property C8. Applying a batch of one library through the collapsed plan leaves at every path of that library the row
  that the last event on the path asks for, in all columns: untouched without an event, marked missing after a deletion
  or a move away, and otherwise created or refreshed from the event, with its extraction merged into the old metadata. When
  every event of a present file carries size and time, the live content (hashes, size and time of the active
  items) is the one of replaying the events one by one. Items of other libraries stay as they were.
\<close>

theorem apply_batch_refines_replay:
  assumes "central_ok st" and "apply_batch cfg st a entries now = Inr (st', a', r)"
    and "\<forall>ev \<in> set entries. library_ref ev = ref"
  shows "\<exists>l. agent_library st' a ref = Some l
    \<and> (\<forall>p. row_after cfg a now (lib_id l) (last_effect entries p) (find_item st (lib_id l) p) (find_item st' (lib_id l) p))
    \<and> (list_all stamped entries \<longrightarrow> view st' (lib_id l) = foldl replay (view st (lib_id l)) entries)
    \<and> (\<forall>m p. m \<noteq> lib_id l \<longrightarrow> find_item st' m p = find_item st m p)"
  using apply_batch_single [OF assms] replayed by blast

definition sample_env :: env where
  "sample_env = \<lparr>extracted_cap = 1000, archive_chars = 100, ext_to_group = Map.empty, group_to_category = Map.empty,
     blake2b = zero_digest, isoformat = (\<lambda>_. ''now'')\<rparr>"

definition empty_central :: central where
  "empty_central = \<lparr>items = [], libraries = [], replication_log = [], next_id = 1\<rparr>"

definition sample_agent :: Agent where
  "sample_agent = \<lparr>agent_id = 7, agent_name = None, hostname = ''nas'', last_contiguous_seq_no = 0,
     last_seen_at = None, last_reconcile_at = None\<rparr>"

definition sample_event :: "int \<Rightarrow> EventType \<Rightarrow> string \<Rightarrow> string \<Rightarrow> string \<Rightarrow> AgentEvent" where
  "sample_event n t ref p h = \<lparr>seq_no = n, event_type = t, library_ref = ref, rel_path = p, from_rel_path = None,
     ev_size = Some 3, ev_mtime = Some 5, ev_quick_hash = Some h, ev_content_hash = None, ev_share_hint = None,
     extracted = None\<rparr>"

definition sample_batch :: "AgentEvent list" where
  "sample_batch = [sample_event 1 Created ''/m'' ''a'' ''h1'', sample_event 2 Modified ''/m'' ''a'' ''h2'',
     sample_event 3 Created ''/m'' ''b'' ''h3'', sample_event 4 Deleted ''/m'' ''b'' ''h3'']"

lemma empty_central_ok: "central_ok empty_central"
  by (simp add: central_ok_def items_ok_def libs_ok_def empty_central_def)

lemma sample_batch_applies:
  "\<exists>st' a' r. apply_batch sample_env empty_central sample_agent sample_batch 9 = Inr (st', a', r)"
proof -
  have "case apply_batch sample_env empty_central sample_agent sample_batch 9 of Inl _ \<Rightarrow> False | Inr _ \<Rightarrow> True"
    by code_simp
  then show ?thesis by (cases "apply_batch sample_env empty_central sample_agent sample_batch 9") auto
qed

theorem apply_batch_refines_replay_witness:
  "\<exists>st' a' r l. apply_batch sample_env empty_central sample_agent sample_batch 9 = Inr (st', a', r)
     \<and> agent_library st' sample_agent ''/m'' = Some l
     \<and> view st' (lib_id l) = foldl replay (view empty_central (lib_id l)) sample_batch"
proof -
  obtain st' a' r where app: "apply_batch sample_env empty_central sample_agent sample_batch 9 = Inr (st', a', r)"
    using sample_batch_applies by blast
  have "\<forall>ev \<in> set sample_batch. library_ref ev = ''/m''" by (simp add: sample_batch_def sample_event_def)
  moreover have "list_all stamped sample_batch" by (simp add: sample_batch_def sample_event_def stamped_def)
  ultimately show ?thesis using apply_batch_refines_replay [OF empty_central_ok app] app by blast
qed

text \<open>
  Applying a batch keeps the tables well formed: ids and (library, path) pairs of items
  stay unique, so do library names and (agent, reference) pairs, and the ledger has one row per
  agent and sequence number.
\<close>

theorem apply_batch_keeps_keys:
  assumes "central_ok st" and "apply_batch cfg st a entries now = Inr (st', a', r)"
  shows "central_ok st'"
  using assms by (rule apply_batch_ok)

theorem apply_batch_keeps_keys_witness:
  "\<exists>st' a' r. apply_batch sample_env empty_central sample_agent sample_batch 9 = Inr (st', a', r) \<and> central_ok st'"
proof -
  obtain st' a' r where app: "apply_batch sample_env empty_central sample_agent sample_batch 9 = Inr (st', a', r)"
    using sample_batch_applies by blast
  from app apply_batch_keeps_keys [OF empty_central_ok app] show ?thesis by blast
qed

text \<open>
  Property C9. The endpoint applies every event exactly once: an accepted batch advances the watermark
  by its length and logs each of its sequence numbers, and sending it again is refused as stale with
  the tables unchanged.
\<close>

theorem replication_exactly_once:
  assumes "apply_replication_batch cfg mx maint st a b entries now = Inr (st', a', Applied r)"
  shows "last_contiguous_seq_no a' = last_contiguous_seq_no a + int (length entries)
    \<and> map seq_no entries = [last_contiguous_seq_no a + 1..last_contiguous_seq_no a']
    \<and> (\<forall>ev \<in> set entries. \<exists>row \<in> set (replication_log st'). log_agent row = agent_id a \<and> log_seq row = seq_no ev)
    \<and> apply_replication_batch cfg mx False st' a' b entries now' =
        Inr (st', a'\<lparr>last_seen_at := Some now'\<rparr>, Conflict (Some ''stale'') (Some (last_contiguous_seq_no a' + 1)))"
proof -
  let ?l = "last_contiguous_seq_no a"
  from assms have b: "b = agent_id a" and mx: "\<not> mx < length entries" and ok: "ok (check_batch entries ?l)"
    and app: "apply_batch cfg st a entries now = Inr (st', a', r)"
    by (auto simp: apply_replication_batch_def bind_res_Inr Let_def split: if_splits)
  from ok have ne: "entries \<noteq> []" and seqs: "map seq_no entries = [?l + 1..?l + int (length entries)]"
    by (simp_all add: check_batch_ok)
  have len: "0 < int (length entries)" using ne by simp
  then have le: "?l + 1 \<le> ?l + int (length entries)" by linarith
  have "last (map seq_no entries) = ?l + int (length entries)"
    unfolding seqs upto_rec2 [OF le] by simp
  then have top: "seq_no (last entries) = ?l + int (length entries)" using ne by (simp add: last_map)
  have "hd (map seq_no entries) = ?l + 1" unfolding seqs upto_rec1 [OF le] by simp
  then have hd: "seq_no (hd entries) = ?l + 1" using ne by (simp add: hd_map)
  from app show ?thesis
  proof (rule apply_batch_Inr)
    fix cache n st1 s st2 t
    assume st': "st' = st2\<lparr>replication_log := foldl (log_entry a now (item_id_by_rel t)) (replication_log st2) entries\<rparr>"
      and a': "a' = a\<lparr>last_contiguous_seq_no := max (seq_no (last entries)) ?l, last_seen_at := Some now\<rparr>"
    have last: "last_contiguous_seq_no a' = ?l + int (length entries)" using len by (simp add: a' top)
    have "check_batch entries (last_contiguous_seq_no a') = refuse ''stale'' (last_contiguous_seq_no a' + 1)"
      using ne hd le last by (intro check_batch_stale) linarith+
    moreover have "agent_id a' = agent_id a" by (simp add: a')
    ultimately show ?thesis using last seqs b mx log_entries_has
      by (auto simp: st' apply_replication_batch_def refuse_def)
  qed
qed

theorem replication_exactly_once_witness:
  "\<exists>st' a' r. apply_replication_batch sample_env 10 False empty_central sample_agent 7 sample_batch 9 = Inr (st', a', Applied r)
     \<and> last_contiguous_seq_no a' = 4
     \<and> apply_replication_batch sample_env 10 False st' a' 7 sample_batch 10 =
         Inr (st', a'\<lparr>last_seen_at := Some 10\<rparr>, Conflict (Some ''stale'') (Some 5))"
proof -
  obtain st' a' r where app: "apply_batch sample_env empty_central sample_agent sample_batch 9 = Inr (st', a', r)"
    using sample_batch_applies by blast
  have "ok (check_batch sample_batch 0)" "length sample_batch = 4" by code_simp+
  with app have rep: "apply_replication_batch sample_env 10 False empty_central sample_agent 7 sample_batch 9 = Inr (st', a', Applied r)"
    by (simp add: apply_replication_batch_def sample_agent_def)
  from replication_exactly_once [OF rep, of 10] rep \<open>length sample_batch = 4\<close> show ?thesis
    by (auto simp: sample_agent_def)
qed

text \<open>
  The plan keys paths without their library: a batch with events for the same relative
  path in two libraries is acknowledged in full, and the event of the first library is lost.
\<close>

theorem cross_library_event_lost:
  "\<exists>st' a' r. apply_replication_batch sample_env 10 False empty_central sample_agent 7
      [sample_event 1 Created ''/photos'' ''x'' ''h1'', sample_event 2 Created ''/music'' ''x'' ''h2''] 9
      = Inr (st', a', Applied r)
    \<and> last_contiguous_seq_no a' = 2 \<and> upserted (res_tally r) = 1
    \<and> agent_library st' sample_agent ''/photos'' = None"
proof -
  let ?r = "apply_replication_batch sample_env 10 False empty_central sample_agent 7
      [sample_event 1 Created ''/photos'' ''x'' ''h1'', sample_event 2 Created ''/music'' ''x'' ''h2''] 9"
  have "case ?r of
      Inr (st', a', Applied r) \<Rightarrow> last_contiguous_seq_no a' = 2 \<and> upserted (res_tally r) = 1
        \<and> agent_library st' sample_agent ''/photos'' = None
    | _ \<Rightarrow> False" by code_simp
  then show ?thesis by (auto split: sum.splits prod.splits response.splits)
qed

section \<open>Agent metadata\<close>

lemma apply_meta_protected:
  "startswith k ''_'' \<Longrightarrow> k \<notin> set AGENT_WRITABLE_UNDERSCORE_KEYS \<Longrightarrow> map_of (apply_meta kvs d) k = map_of d k"
proof (induction kvs arbitrary: d)
  case (Cons kv kvs)
  obtain key v where "kv = (key, v)" by force
  with Cons show ?case by (auto simp: Let_def)
qed simp

lemma derive_keeps: "k \<noteq> ''archive_members'' \<Longrightarrow> map_of (derive_archive_members cap m) k = map_of m k"
  by (auto simp: derive_archive_members_def Let_def split: option.splits json.splits)

lemma map_of_strip_embedding:
  "map_of (strip_embedding m) k = (if k \<in> {EMBEDDING_KEY, FINGERPRINT_KEY} then None else map_of m k)"
  by (induction m) (auto simp: strip_embedding_def)

lemma source_text_cong:
  assumes "map_of m ''body_text'' = map_of n ''body_text''" "map_of m ''ocr_text'' = map_of n ''ocr_text''"
  shows "source_text m = source_text n"
  unfolding source_text_def assms Let_def ..

lemma merge_cases:
  assumes "merge_extracted_metadata cap old p now = Inr m"
  obtains merged where "\<And>k. startswith k ''_'' \<Longrightarrow> k \<notin> set AGENT_WRITABLE_UNDERSCORE_KEYS \<Longrightarrow>
      k \<notin> {EXTRACTED_BY_KEY, EXTRACT_SCHEMA_KEY, EXTRACTED_AT_KEY} \<Longrightarrow> map_of merged k = map_of old k"
    "map_of merged EXTRACTED_BY_KEY = Some (JStr ''agent'')"
    "map_of merged EXTRACT_SCHEMA_KEY = Some (JInt (schema_version p))"
    "map_of merged EXTRACTED_AT_KEY = Some (JStr now)"
    "m = (if source_text merged = source_text old then merged else dict_pop CHUNKS_FP_KEY (strip_embedding merged))"
proof -
  define m2 where "m2 = (case body_text p of
      None \<Rightarrow> apply_meta (meta p) old
    | Some b \<Rightarrow> dict_set ''body_text_truncated'' (JBool (body_text_truncated p))
                  (dict_set ''body_text'' (JStr b) (apply_meta (meta p) old)))"
  define m3 where "m3 = dict_set EXTRACTED_AT_KEY (JStr now) (dict_set EXTRACT_SCHEMA_KEY (JInt (schema_version p))
      (dict_set EXTRACTED_BY_KEY (JStr EXTRACTED_BY_AGENT) m2))"
  define merged where "merged = derive_archive_members cap m3"
  have und: "k \<noteq> ''archive_members'' \<and> k \<noteq> ''body_text'' \<and> k \<noteq> ''body_text_truncated''" if "startswith k ''_''" for k
    using that by (auto simp: py_simps)
  have keys: "startswith EXTRACTED_BY_KEY ''_''" "startswith EXTRACT_SCHEMA_KEY ''_''" "startswith EXTRACTED_AT_KEY ''_''"
    by (simp_all add: EXTRACTED_BY_KEY_def EXTRACT_SCHEMA_KEY_def EXTRACTED_AT_KEY_def py_simps)
  have dist: "EXTRACTED_BY_KEY \<noteq> EXTRACT_SCHEMA_KEY" "EXTRACTED_BY_KEY \<noteq> EXTRACTED_AT_KEY" "EXTRACT_SCHEMA_KEY \<noteq> EXTRACTED_AT_KEY"
    by (simp_all add: EXTRACTED_BY_KEY_def EXTRACT_SCHEMA_KEY_def EXTRACTED_AT_KEY_def)
  have mg: "map_of merged k = map_of m3 k" if "startswith k ''_''" for k
    using und [OF that] by (simp add: merged_def derive_keeps)
  have "map_of m2 k = map_of old k" if "startswith k ''_''" "k \<notin> set AGENT_WRITABLE_UNDERSCORE_KEYS" for k
    using und [OF that(1)] apply_meta_protected [OF that, of "meta p" old] by (simp add: m2_def split: option.splits)
  then have "map_of merged k = map_of old k" if "startswith k ''_''" "k \<notin> set AGENT_WRITABLE_UNDERSCORE_KEYS"
    "k \<notin> {EXTRACTED_BY_KEY, EXTRACT_SCHEMA_KEY, EXTRACTED_AT_KEY}" for k
    using that by (simp add: mg m3_def)
  moreover have "map_of merged EXTRACTED_BY_KEY = Some (JStr ''agent'')"
    "map_of merged EXTRACT_SCHEMA_KEY = Some (JInt (schema_version p))" "map_of merged EXTRACTED_AT_KEY = Some (JStr now)"
    using dist by (simp_all add: mg keys m3_def EXTRACTED_BY_AGENT_def)
  moreover have "m = (if source_text merged = source_text old then merged else dict_pop CHUNKS_FP_KEY (strip_embedding merged))"
    using assms unfolding merge_extracted_metadata_def Let_def m2_def [symmetric] m3_def [symmetric] merged_def [symmetric]
    by (auto simp: bind_res_Inr split: if_splits)
  ultimately show thesis by (rule that)
qed

text \<open>
  An agent cannot forge central bookkeeping: in the merged metadata the provenance stamps
  are central's, an underscore key outside the four diagnostics has its old value, and the chunk and
  embedding fingerprints are dropped exactly when the source text changed.
\<close>

theorem merge_protects_bookkeeping:
  assumes "merge_extracted_metadata cap old p now = Inr m"
  shows "map_of m EXTRACTED_BY_KEY = Some (JStr ''agent'')
    \<and> map_of m EXTRACT_SCHEMA_KEY = Some (JInt (schema_version p)) \<and> map_of m EXTRACTED_AT_KEY = Some (JStr now)
    \<and> (\<forall>k. startswith k ''_'' \<longrightarrow> k \<notin> set AGENT_WRITABLE_UNDERSCORE_KEYS \<longrightarrow>
         k \<notin> {EXTRACTED_BY_KEY, EXTRACT_SCHEMA_KEY, EXTRACTED_AT_KEY} \<longrightarrow>
         map_of m k = (if k \<in> {CHUNKS_FP_KEY, EMBEDDING_KEY, FINGERPRINT_KEY} \<and> source_text m \<noteq> source_text old
                       then None else map_of old k))"
  using assms
proof (rule merge_cases)
  fix merged
  assume a: "\<And>k. startswith k ''_'' \<Longrightarrow> k \<notin> set AGENT_WRITABLE_UNDERSCORE_KEYS \<Longrightarrow>
      k \<notin> {EXTRACTED_BY_KEY, EXTRACT_SCHEMA_KEY, EXTRACTED_AT_KEY} \<Longrightarrow> map_of merged k = map_of old k"
    and b: "map_of merged EXTRACTED_BY_KEY = Some (JStr ''agent'')"
      "map_of merged EXTRACT_SCHEMA_KEY = Some (JInt (schema_version p))" "map_of merged EXTRACTED_AT_KEY = Some (JStr now)"
    and m: "m = (if source_text merged = source_text old then merged else dict_pop CHUNKS_FP_KEY (strip_embedding merged))"
  have ne: "EXTRACTED_BY_KEY \<notin> {CHUNKS_FP_KEY, EMBEDDING_KEY, FINGERPRINT_KEY}"
    "EXTRACT_SCHEMA_KEY \<notin> {CHUNKS_FP_KEY, EMBEDDING_KEY, FINGERPRINT_KEY}"
    "EXTRACTED_AT_KEY \<notin> {CHUNKS_FP_KEY, EMBEDDING_KEY, FINGERPRINT_KEY}"
    "''body_text'' \<notin> {CHUNKS_FP_KEY, EMBEDDING_KEY, FINGERPRINT_KEY}"
    "''ocr_text'' \<notin> {CHUNKS_FP_KEY, EMBEDDING_KEY, FINGERPRINT_KEY}"
    by (simp_all add: EXTRACTED_BY_KEY_def EXTRACT_SCHEMA_KEY_def EXTRACTED_AT_KEY_def CHUNKS_FP_KEY_def
        EMBEDDING_KEY_def FINGERPRINT_KEY_def)
  have pop: "map_of (dict_pop CHUNKS_FP_KEY (strip_embedding merged)) k =
      (if k \<in> {CHUNKS_FP_KEY, EMBEDDING_KEY, FINGERPRINT_KEY} then None else map_of merged k)" for k
    by (simp add: map_of_strip_embedding)
  have same_text: "source_text m = source_text merged"
    using ne by (intro source_text_cong) (simp_all add: m pop del: map_of_dict_pop)
  show ?thesis
  proof (cases "source_text merged = source_text old")
    case True
    with a b same_text show ?thesis by (simp add: m)
  next
    case False
    with a b same_text ne pop show ?thesis by (simp add: m del: map_of_dict_pop)
  qed
qed

theorem merge_protects_bookkeeping_witness:
  "\<exists>m. merge_extracted_metadata 10 [(''_chunks_fp'', JStr ''old'')]
      \<lparr>schema_version = 2, meta = [(''_chunks_fp'', JStr ''forged''), (''width'', JInt 4)], body_text = None,
       body_text_truncated = False\<rparr> ''now'' = Inr m
    \<and> map_of m ''_chunks_fp'' = Some (JStr ''old'') \<and> map_of m EXTRACTED_BY_KEY = Some (JStr ''agent'')"
proof -
  let ?old = "[(''_chunks_fp'', JStr ''old'')]"
  let ?p = "\<lparr>schema_version = 2, meta = [(''_chunks_fp'', JStr ''forged''), (''width'', JInt 4)], body_text = None,
       body_text_truncated = False\<rparr> :: ExtractedPayload"
  let ?m = "[(''_chunks_fp'', JStr ''old''), (''width'', JInt 4), (''_extracted_by'', JStr ''agent''),
    (''_extract_schema'', JInt 2), (''_extracted_at'', JStr ''now'')]"
  have e: "merge_extracted_metadata 10 ?old ?p ''now'' = Inr ?m" by code_simp
  have "startswith ''_chunks_fp'' ''_'' \<and> ''_chunks_fp'' \<notin> set AGENT_WRITABLE_UNDERSCORE_KEYS
    \<and> ''_chunks_fp'' \<notin> {EXTRACTED_BY_KEY, EXTRACT_SCHEMA_KEY, EXTRACTED_AT_KEY} \<and> source_text ?m = source_text ?old"
    by code_simp
  with merge_protects_bookkeeping [OF e] have "map_of ?m ''_chunks_fp'' = map_of ?old ''_chunks_fp''"
    "map_of ?m EXTRACTED_BY_KEY = Some (JStr ''agent'')" by auto
  with e show ?thesis by (intro exI [of _ ?m]) simp
qed

text \<open>
  A non-string \<open>ocr_text\<close> in an agent's extraction raises out of the whole batch: the
  watermark does not move, so the agent keeps resending a batch that can never apply.
\<close>

theorem extraction_wedges_replication:
  "apply_replication_batch sample_env 10 False empty_central sample_agent 7
     [(sample_event 1 Created ''/m'' ''a.png'' ''h'')\<lparr>extracted := Some \<lparr>schema_version = 1,
        meta = [(''ocr_text'', JInt 5)], body_text = None, body_text_truncated = False\<rparr>\<rparr>] 9
   = Inl AttributeError"
  by code_simp

end
