(* ===== verification/Reconcile.thy ===== *)
theory Reconcile
  imports AgentSync
begin

text \<open>
  The full-manifest reconciliation of \<open>backend/filearr/agentsync.py\<close>: \<open>reconcile_start\<close>,
  \<open>reconcile_stage_rows\<close> and \<open>reconcile_finish\<close> over the central tables, the session table and the
  staging table. Deleting a session cascades to its staged rows.
\<close>

section \<open>State\<close>

record ReconcileSession =
  session_id :: nat
  session_agent :: nat
  session_ref :: string
  started_at :: int
  staged_rows :: nat

record rdb =
  base :: central
  sessions :: "ReconcileSession list"
  staging :: "(nat \<times> mrow) list"
  next_session :: nat

datatype reconcile_error = UnknownSession | DigestMismatch | RaisedPy py_exn

definition drop_sessions :: "(ReconcileSession \<Rightarrow> bool) \<Rightarrow> rdb \<Rightarrow> rdb" where
  "drop_sessions P db = db\<lparr>sessions := filter (\<lambda>s. \<not> P s) (sessions db),
     staging := filter (\<lambda>r. \<not> (\<exists>s \<in> set (sessions db). session_id s = fst r \<and> P s)) (staging db)\<rparr>"

section \<open>The projection of the central tables\<close>

definition active_items :: "central \<Rightarrow> nat \<Rightarrow> Item list" where
  "active_items st lib = filter (\<lambda>i. library_id i = lib \<and> item_status i = active) (items st)"

definition manifest_row :: "Item \<Rightarrow> ManifestRow" where
  "manifest_row i = \<lparr>m_rel_path = item_rel_path i, m_size = item_size i, m_mtime = timestamp (item_mtime i),
     m_quick_hash = quick_hash i, m_content_hash = content_hash i\<rparr>"

definition compute_central_digest :: "(string \<Rightarrow> string) \<Rightarrow> central \<Rightarrow> Agent \<Rightarrow> string \<Rightarrow> string \<times> nat" where
  "compute_central_digest sha st a ref = (case agent_library st a ref of
       None \<Rightarrow> (manifest_digest sha [], 0)
     | Some l \<Rightarrow> (let manifest = map manifest_row (active_items st (lib_id l))
                  in (manifest_digest sha manifest, length manifest)))"

section \<open>Sessions\<close>

definition expiry_cutoff :: "int \<Rightarrow> int \<Rightarrow> int" where
  "expiry_cutoff now ttl_seconds = now - ttl_seconds * 1000000"

definition sweep_expired_sessions :: "rdb \<Rightarrow> int \<Rightarrow> int \<Rightarrow> rdb" where
  "sweep_expired_sessions db now ttl = drop_sessions (\<lambda>s. started_at s < expiry_cutoff now ttl) db"

text \<open>The session, or the error with the tables that were committed before it was raised.\<close>

definition load_live_session :: "rdb \<Rightarrow> Agent \<Rightarrow> nat \<Rightarrow> int \<Rightarrow> int \<Rightarrow> (rdb \<times> reconcile_error) + ReconcileSession" where
  "load_live_session db a sid now ttl = (case find (\<lambda>s. session_id s = sid) (sessions db) of
       None \<Rightarrow> Inl (db, UnknownSession)
     | Some row \<Rightarrow>
         if session_agent row \<noteq> agent_id a then Inl (db, UnknownSession)
         else if started_at row < expiry_cutoff now ttl
         then Inl (drop_sessions (\<lambda>s. session_id s = sid) db, UnknownSession)
         else Inr row)"

datatype start_status = Match | Mismatch nat

definition reconcile_start :: "(string \<Rightarrow> string) \<Rightarrow> rdb \<Rightarrow> Agent \<Rightarrow> string \<Rightarrow> string \<Rightarrow> nat \<Rightarrow> bool \<Rightarrow> int \<Rightarrow> int
    \<Rightarrow> rdb \<times> Agent \<times> start_status" where
  "reconcile_start sha db a ref digest row_count rebuilt now ttl =
     (let db1 = sweep_expired_sessions db now ttl;
          (central_digest, central_count) = compute_central_digest sha (base db1) a ref;
          a1 = a\<lparr>last_seen_at := Some now\<rparr>;
          db2 = drop_sessions (\<lambda>s. session_agent s = agent_id a) db1
      in if central_digest = digest \<and> central_count = row_count
         then (db2, a1\<lparr>last_reconcile_at := Some now,
                 last_contiguous_seq_no := (if rebuilt then 0 else last_contiguous_seq_no a1)\<rparr>, Match)
         else let sid = next_session db2
           in (db2\<lparr>sessions := sessions db2 @ [\<lparr>session_id = sid, session_agent = agent_id a, session_ref = ref,
                 started_at = now, staged_rows = 0\<rparr>], next_session := Suc sid\<rparr>, a1, Mismatch sid))"

section \<open>Staging\<close>

definition stage_row :: "nat \<Rightarrow> (nat \<times> mrow) list \<Rightarrow> ManifestRow \<Rightarrow> (nat \<times> mrow) list" where
  "stage_row sid rows r =
     (if \<exists>x \<in> set rows. fst x = sid \<and> fst (snd x) = m_rel_path r
      then map (\<lambda>x. if fst x = sid \<and> fst (snd x) = m_rel_path r then (sid, quantize r) else x) rows
      else rows @ [(sid, quantize r)])"

definition staged_of :: "rdb \<Rightarrow> nat \<Rightarrow> mrow list" where
  "staged_of db sid = map snd (filter (\<lambda>x. fst x = sid) (staging db))"

definition reconcile_stage_rows :: "rdb \<Rightarrow> Agent \<Rightarrow> nat \<Rightarrow> ManifestRow list \<Rightarrow> int \<Rightarrow> int
    \<Rightarrow> (rdb \<times> reconcile_error) + (rdb \<times> nat)" where
  "reconcile_stage_rows db a sid rows now ttl =
     bind_res (load_live_session db a sid now ttl) (\<lambda>row.
       let db1 = db\<lparr>staging := foldl (stage_row (session_id row)) (staging db) rows\<rparr>;
           staged = length (staged_of db1 (session_id row))
       in Inr (db1\<lparr>sessions := map (\<lambda>s. if session_id s = session_id row then s\<lparr>staged_rows := staged\<rparr> else s)
                 (sessions db1)\<rparr>, staged))"

section \<open>Finishing\<close>

record counts =
  c_upserted :: nat
  c_tombstoned :: nat
  c_reactivated :: nat
  c_updated :: nat
  c_trashed_conflicts :: nat
  c_unchanged :: nat

definition zero_counts :: counts where
  "zero_counts = \<lparr>c_upserted = 0, c_tombstoned = 0, c_reactivated = 0, c_updated = 0, c_trashed_conflicts = 0,
     c_unchanged = 0\<rparr>"

definition differs :: "Item \<Rightarrow> mrow \<Rightarrow> bool" where
  "differs row s = (case s of (p, sz, us, qh, ch) \<Rightarrow>
     item_size row \<noteq> sz \<or> mtime_to_us (timestamp (item_mtime row)) \<noteq> us \<or> quick_hash row \<noteq> qh \<or> content_hash row \<noteq> ch)"

definition overwrite :: "Agent \<Rightarrow> int \<Rightarrow> mrow \<Rightarrow> Item \<Rightarrow> Item" where
  "overwrite a now s i = (case s of (p, sz, us, qh, ch) \<Rightarrow>
     i\<lparr>item_status := active, item_size := sz, item_mtime := fromtimestamp (timestamp us), quick_hash := qh,
       content_hash := ch, item_path := p, last_seen := now, source_agent_id := Some (agent_id a)\<rparr>)"

definition reconcile_row :: "env \<Rightarrow> Agent \<Rightarrow> int \<Rightarrow> nat \<Rightarrow> mrow \<Rightarrow> central \<times> counts \<times> nat list
    \<Rightarrow> py_exn + (central \<times> counts \<times> nat list)" where
  "reconcile_row cfg a now lib s acc = (case acc of (st, c, touched) \<Rightarrow>
     (case s of (p, sz, us, qh, ch) \<Rightarrow>
       (if \<not> representable (fromtimestamp (timestamp us)) then Inl ValueError
        else case find_item st lib p of
          None \<Rightarrow>
            bind_res (new_item cfg a lib now (next_id st) p sz (fromtimestamp (timestamp us)) qh ch None []) (\<lambda>i.
              Inr (st\<lparr>items := items st @ [i], next_id := Suc (next_id st)\<rparr>,
                   c\<lparr>c_upserted := Suc (c_upserted c)\<rparr>, touched @ [next_id st]))
        | Some row \<Rightarrow>
            if item_status row = trashed
            then Inr (st, c\<lparr>c_trashed_conflicts := Suc (c_trashed_conflicts c)\<rparr>, touched)
            else if item_status row = missing
            then Inr (update_item (item_id row) (overwrite a now s) st,
                   c\<lparr>c_reactivated := Suc (c_reactivated c)\<rparr>, touched @ [item_id row])
            else if differs row s
            then Inr (update_item (item_id row) (overwrite a now s) st,
                   c\<lparr>c_updated := Suc (c_updated c)\<rparr>, touched @ [item_id row])
            else Inr (st, c\<lparr>c_unchanged := Suc (c_unchanged c)\<rparr>, touched))))"

fun reconcile_rows :: "env \<Rightarrow> Agent \<Rightarrow> int \<Rightarrow> nat \<Rightarrow> mrow list \<Rightarrow> central \<times> counts \<times> nat list
    \<Rightarrow> py_exn + (central \<times> counts \<times> nat list)" where
  "reconcile_rows cfg a now lib [] acc = Inr acc"
| "reconcile_rows cfg a now lib (s # ss) acc =
     bind_res (reconcile_row cfg a now lib s acc) (\<lambda>acc'. reconcile_rows cfg a now lib ss acc')"

definition absent :: "nat \<Rightarrow> string list \<Rightarrow> Item \<Rightarrow> bool" where
  "absent lib agent_paths i = (library_id i = lib \<and> item_status i = active \<and> item_rel_path i \<notin> set agent_paths)"

definition tombstone_absent :: "Agent \<Rightarrow> int \<Rightarrow> nat \<Rightarrow> string list \<Rightarrow> central \<times> counts \<times> nat list
    \<Rightarrow> central \<times> counts \<times> nat list" where
  "tombstone_absent a now lib agent_paths acc = (case acc of (st, c, touched) \<Rightarrow>
     (let gone = filter (absent lib agent_paths) (items st)
      in (st\<lparr>items := map (\<lambda>i. if absent lib agent_paths i then bury a now i else i) (items st)\<rparr>,
          c\<lparr>c_tombstoned := c_tombstoned c + length gone\<rparr>, touched @ map item_id gone)))"

definition reconcile_finish :: "(string \<Rightarrow> string) \<Rightarrow> env \<Rightarrow> rdb \<Rightarrow> Agent \<Rightarrow> nat \<Rightarrow> string \<Rightarrow> nat \<Rightarrow> bool \<Rightarrow> int \<Rightarrow> int
    \<Rightarrow> (rdb \<times> reconcile_error) + (rdb \<times> Agent \<times> counts \<times> nat list)" where
  "reconcile_finish sha cfg db a sid digest row_count reset_seq now ttl =
     bind_res (load_live_session db a sid now ttl) (\<lambda>sess.
       let staged = staged_of db (session_id sess);
           closed = drop_sessions (\<lambda>s. session_id s = session_id sess) db
       in if length staged \<noteq> row_count \<or> sha (manifest_blob staged) \<noteq> digest
          then Inl (closed, DigestMismatch)
          else let (l, created, st1) = provision_agent_library (base db) a (session_ref sess)
            in case reconcile_rows cfg a now (lib_id l) staged (st1, zero_counts, []) of
                 Inl e \<Rightarrow> Inl (db, RaisedPy e)
               | Inr acc \<Rightarrow>
                   (let (st2, c, touched) = tombstone_absent a now (lib_id l) (map fst staged) acc
                    in Inr (closed\<lparr>base := st2\<rparr>,
                         a\<lparr>last_reconcile_at := Some now, last_seen_at := Some now,
                           last_contiguous_seq_no := (if reset_seq then 0 else last_contiguous_seq_no a)\<rparr>, c, touched)))"

section \<open>Rows of the projection\<close>

definition item_row :: "Item \<Rightarrow> mrow" where
  "item_row i = quantize (manifest_row i)"

definition row_of :: "Item option \<Rightarrow> mrow option" where
  "row_of c = (case c of Some i \<Rightarrow> if item_status i = active then Some (item_row i) else None | None \<Rightarrow> None)"

definition in_trash :: "Item option \<Rightarrow> bool" where
  "in_trash c = (case c of Some i \<Rightarrow> item_status i = trashed | None \<Rightarrow> False)"

definition time_ok :: "mrow \<Rightarrow> bool" where
  "time_ok s = (case s of (p, sz, us, qh, ch) \<Rightarrow> 0 \<le> us \<and> us < 2 ^ 51)"

lemma item_row_fields:
  "item_row i = (item_rel_path i, item_size i, mtime_to_us (timestamp (item_mtime i)), quick_hash i, content_hash i)"
  by (simp add: item_row_def quantize_def manifest_row_def)

lemma find_item_unique:
  assumes "items_ok st" "i \<in> set (items st)"
  shows "find_item st (library_id i) (item_rel_path i) = Some i"
proof (cases "find_item st (library_id i) (item_rel_path i)")
  case None
  with assms(2) show ?thesis by (auto simp: find_item_eq item_key_def dest: find_NoneD)
next
  case (Some j)
  then have "j \<in> set (items st)" "item_key j = item_key i"
    by (auto simp: find_item_eq item_key_def dest: find_SomeD)
  with assms Some show ?thesis unfolding items_ok_def by (metis distinct_map_eqD)
qed

lemma projection_iff:
  assumes "items_ok st"
  shows "x \<in> item_row ` set (active_items st lib) \<longleftrightarrow> row_of (find_item st lib (fst x)) = Some x"
proof
  assume "x \<in> item_row ` set (active_items st lib)"
  then obtain i where "i \<in> set (items st)" "library_id i = lib" "item_status i = active" "x = item_row i"
    by (auto simp: active_items_def)
  with find_item_unique [OF assms, of i] show "row_of (find_item st lib (fst x)) = Some x"
    by (simp add: row_of_def item_row_fields)
next
  assume r: "row_of (find_item st lib (fst x)) = Some x"
  then obtain i where i: "find_item st lib (fst x) = Some i" "item_status i = active" "x = item_row i"
    by (auto simp: row_of_def split: option.splits if_splits)
  then have "i \<in> set (items st)" "library_id i = lib" by (auto simp: find_item_eq item_key_def dest: find_SomeD)
  with i show "x \<in> item_row ` set (active_items st lib)" by (auto simp: active_items_def)
qed

lemma distinct_projection:
  assumes "items_ok st"
  shows "distinct (map fst (map item_row (active_items st lib)))"
proof -
  have "distinct (map item_key (active_items st lib))"
    using assms by (simp add: items_ok_def active_items_def distinct_map_filter)
  moreover have "\<forall>i \<in> set (active_items st lib). library_id i = lib" by (simp add: active_items_def)
  ultimately show ?thesis by (auto simp: distinct_map inj_on_def item_row_fields item_key_def)
qed

lemma overwrite_keys [simp]:
  "item_key (overwrite a now s i) = item_key i" "item_id (overwrite a now s i) = item_id i"
  by (auto simp: overwrite_def item_key_def split: prod.splits)

lemma overwrite_row:
  assumes "time_ok s" "item_rel_path i = fst s"
  shows "row_of (Some (overwrite a now s i)) = Some s"
  using assms by (auto simp: time_ok_def row_of_def overwrite_def item_row_fields
      mtime_to_us_timestamp fromtimestamp_timestamp split: prod.splits)

lemma new_item_row:
  assumes "new_item cfg a lib now k p sz (fromtimestamp (timestamp us)) qh ch hint md = Inr i" "0 \<le> us" "us < 2 ^ 51"
  shows "row_of (Some i) = Some (p, sz, us, qh, ch)"
  using new_item_fields [OF assms(1)] assms(2,3)
  by (simp add: row_of_def item_row_fields item_key_def mtime_to_us_timestamp fromtimestamp_timestamp)

text \<open>One staged row: its cell becomes the row, or stays in the trash; nothing else moves.\<close>

lemma reconcile_row_effect:
  assumes "items_ok st" "lib < next_id st" "time_ok s" "reconcile_row cfg a now lib s (st, c, t) = Inr (st', c', t')"
  shows "items_ok st'" "same_rest st st'"
    "(l, q) \<noteq> (lib, fst s) \<Longrightarrow> find_item st' l q = find_item st l q"
    "if in_trash (find_item st lib (fst s)) then find_item st' lib (fst s) = find_item st lib (fst s)
       \<and> c_trashed_conflicts c' = Suc (c_trashed_conflicts c)
     else row_of (find_item st' lib (fst s)) = Some s \<and> c_trashed_conflicts c' = c_trashed_conflicts c"
proof -
  obtain p sz us qh ch where s: "s = (p, sz, us, qh, ch)" by (metis prod.exhaust)
  have us: "0 \<le> us" "us < 2 ^ 51" using assms(3) by (simp_all add: s time_ok_def)
  have "items_ok st' \<and> same_rest st st' \<and> (\<forall>l q. (l, q) \<noteq> (lib, p) \<longrightarrow> find_item st' l q = find_item st l q)
    \<and> (if in_trash (find_item st lib p) then find_item st' lib p = find_item st lib p
         \<and> c_trashed_conflicts c' = Suc (c_trashed_conflicts c)
       else row_of (find_item st' lib p) = Some s \<and> c_trashed_conflicts c' = c_trashed_conflicts c)"
  proof (cases "find_item st lib p")
    case None
    with assms(4) obtain i where i: "new_item cfg a lib now (next_id st) p sz (fromtimestamp (timestamp us)) qh ch None [] = Inr i"
      and st': "st' = st\<lparr>items := items st @ [i], next_id := Suc (next_id st)\<rparr>"
      and c': "c_trashed_conflicts c' = c_trashed_conflicts c"
      by (auto simp: reconcile_row_def s bind_res_Inr split: if_splits)
    note f = new_item_fields [OF i]
    have key: "library_id i = lib" "item_rel_path i = p" using f(2) by (simp_all add: item_key_def)
    have "items_ok st'" unfolding st' using assms(1,2) None f(1) key by (intro items_ok_insert) simp_all
    moreover have "find_item st' l q = (case find_item st l q of Some r \<Rightarrow> Some r
        | None \<Rightarrow> if (l, q) = (lib, p) then Some i else None)" for l q
      using f(2) by (auto simp: find_item_eq st' find_append split: option.splits)
    ultimately show ?thesis using None new_item_row [OF i us] c'
      by (auto simp: st' same_rest_def in_trash_def s split: option.splits)
  next
    case (Some row)
    have rp: "item_rel_path row = fst s" using Some by (auto simp: s find_item_def dest: find_SomeD)
    consider (trash) "item_status row = trashed" "st' = st" "c_trashed_conflicts c' = Suc (c_trashed_conflicts c)"
      | (same) "item_status row = active" "\<not> differs row s" "st' = st" "c_trashed_conflicts c' = c_trashed_conflicts c"
      | (put) "item_status row \<noteq> trashed" "st' = update_item (item_id row) (overwrite a now s) st"
          "c_trashed_conflicts c' = c_trashed_conflicts c"
      using assms(4) Some by (cases "item_status row") (auto simp: reconcile_row_def s split: if_splits)
    then show ?thesis
    proof cases
      case trash
      with Some assms(1) show ?thesis by (simp add: in_trash_def)
    next
      case same
      then have "item_row row = s" using rp by (simp add: s differs_def item_row_fields)
      with same Some assms(1) show ?thesis by (simp add: in_trash_def row_of_def)
    next
      case put
      have "items_ok st'" unfolding put(2) using assms(1) by (intro items_ok_update) simp_all
      moreover have "find_item st' l q = find_item st l q" if "(l, q) \<noteq> (lib, p)" for l q
        unfolding put(2) using assms(1) Some that by (intro find_item_update_other) simp_all
      moreover have "find_item st' lib p = Some (overwrite a now s row)"
        using Some by (simp add: put(2) find_item_update)
      ultimately show ?thesis using put Some overwrite_row [OF assms(3) rp] by (simp add: in_trash_def)
    qed
  qed
  then show "items_ok st'" "same_rest st st'"
    "(l, q) \<noteq> (lib, fst s) \<Longrightarrow> find_item st' l q = find_item st l q"
    "if in_trash (find_item st lib (fst s)) then find_item st' lib (fst s) = find_item st lib (fst s)
       \<and> c_trashed_conflicts c' = Suc (c_trashed_conflicts c)
     else row_of (find_item st' lib (fst s)) = Some s \<and> c_trashed_conflicts c' = c_trashed_conflicts c"
    by (simp_all add: s)
qed

lemma reconcile_rows_effect:
  assumes "reconcile_rows cfg a now lib ss (st, c, t) = Inr (st', c', t')" "items_ok st" "lib < next_id st"
    and "list_all time_ok ss" "distinct (map fst ss)"
  shows "items_ok st' \<and> same_rest st st'
    \<and> (\<forall>l q. \<not> (l = lib \<and> q \<in> fst ` set ss) \<longrightarrow> find_item st' l q = find_item st l q)
    \<and> (\<forall>s \<in> set ss. if in_trash (find_item st lib (fst s)) then find_item st' lib (fst s) = find_item st lib (fst s)
         else row_of (find_item st' lib (fst s)) = Some s)
    \<and> c_trashed_conflicts c' = c_trashed_conflicts c + length (filter (\<lambda>s. in_trash (find_item st lib (fst s))) ss)"
  using assms
proof (induction ss arbitrary: st c t)
  case (Cons s ss)
  from Cons.prems(1) obtain st1 c1 t1 where one: "reconcile_row cfg a now lib s (st, c, t) = Inr (st1, c1, t1)"
    and rest: "reconcile_rows cfg a now lib ss (st1, c1, t1) = Inr (st', c', t')"
    by (auto simp: bind_res_Inr)
  have tk: "time_ok s" and ts: "list_all time_ok ss" and dn: "fst s \<notin> fst ` set ss" and ds: "distinct (map fst ss)"
    using Cons.prems(4,5) by auto
  note e = reconcile_row_effect [OF Cons.prems(2,3) tk one]
  have "lib < next_id st1" using e(2) Cons.prems(3) by (simp add: same_rest_def)
  note ih = Cons.IH [OF rest e(1) this ts ds]
  have same: "find_item st1 lib (fst x) = find_item st lib (fst x)" if "x \<in> set ss" for x
    using e(3) [of lib "fst x"] dn that by (metis image_eqI prod.inject)
  have here: "find_item st' lib (fst s) = find_item st1 lib (fst s)" using ih dn by blast
  have "filter (\<lambda>s. in_trash (find_item st1 lib (fst s))) ss = filter (\<lambda>s. in_trash (find_item st lib (fst s))) ss"
    using same by (auto intro: filter_cong)
  moreover have "find_item st' l q = find_item st l q" if "\<not> (l = lib \<and> q \<in> fst ` set (s # ss))" for l q
    using that ih e(3) [of l q] by auto
  ultimately show ?case using ih e(4) same_rest_trans [OF e(2)] same here by auto
qed simp

lemma tombstone_effect:
  assumes "tombstone_absent a now lib paths (st, c, t) = (st', c', t')" "items_ok st"
  shows "items_ok st'" "same_rest st st'" "c_trashed_conflicts c' = c_trashed_conflicts c"
    "find_item st' l q = map_option (\<lambda>i. if absent lib paths i then bury a now i else i) (find_item st l q)"
proof -
  let ?g = "\<lambda>i. if absent lib paths i then bury a now i else i"
  have st': "st' = st\<lparr>items := map ?g (items st)\<rparr>" and c': "c_trashed_conflicts c' = c_trashed_conflicts c"
    using assms(1) by (auto simp: tombstone_absent_def Let_def)
  have l: "library_id (bury a now i) = library_id i" for i by (simp add: bury_def)
  have g: "item_id (?g i) = item_id i" "item_key (?g i) = item_key i" for i by auto
  have "map item_id (map ?g (items st)) = map item_id (items st)" "map item_key (map ?g (items st)) = map item_key (items st)"
    using g by (simp_all del: if_split)
  with assms(2) l show "items_ok st'" unfolding items_ok_def st' by (auto simp del: map_map)
  show "same_rest st st'" "c_trashed_conflicts c' = c_trashed_conflicts c" by (simp_all add: st' same_rest_def c')
  show "find_item st' l q = map_option ?g (find_item st l q)"
    unfolding find_item_eq st' by (simp add: find_map_same_key)
qed

lemma sweep_effect:
  assumes "reconcile_rows cfg a now lib ss (st, c, t) = Inr acc" "tombstone_absent a now lib (map fst ss) acc = (st', c', t')"
    and "items_ok st" "lib < next_id st" "list_all time_ok ss" "distinct (map fst ss)"
  shows "items_ok st' \<and> same_rest st st'
    \<and> item_row ` set (active_items st' lib) = {s \<in> set ss. \<not> in_trash (find_item st lib (fst s))}
    \<and> (\<forall>l q i. find_item st l q = Some i \<and> (l \<noteq> lib \<or> item_status i = trashed) \<longrightarrow> find_item st' l q = Some i)
    \<and> c_trashed_conflicts c' = c_trashed_conflicts c + length (filter (\<lambda>s. in_trash (find_item st lib (fst s))) ss)"
proof -
  obtain st1 c1 t1 where acc: "acc = (st1, c1, t1)" by (metis prod.exhaust)
  note r = reconcile_rows_effect [OF assms(1) [unfolded acc] assms(3-6)]
  then have ok1: "items_ok st1" by blast
  note b = tombstone_effect [OF assms(2) [unfolded acc] ok1]
  have set_eq: "x \<in> item_row ` set (active_items st' lib) \<longleftrightarrow> x \<in> set ss \<and> \<not> in_trash (find_item st lib (fst x))" for x
  proof (cases "fst x \<in> fst ` set ss")
    case True
    then obtain s where s: "s \<in> set ss" "fst s = fst x" by auto
    have "find_item st' lib (fst x) = find_item st1 lib (fst x)"
    proof (cases "find_item st1 lib (fst x)")
      case (Some i)
      then have "item_rel_path i = fst x" by (auto simp: find_item_def dest: find_SomeD)
      with True Some show ?thesis by (simp add: b(4) absent_def)
    qed (simp add: b(4))
    moreover have uniq: "s = x" if "x \<in> set ss" using that s assms(6) by (metis distinct_map_eqD)
    ultimately have lhs: "x \<in> item_row ` set (active_items st' lib) \<longleftrightarrow> row_of (find_item st1 lib (fst s)) = Some x"
      using projection_iff [OF b(1), of x lib] s by simp
    have cell: "if in_trash (find_item st lib (fst s)) then find_item st1 lib (fst s) = find_item st lib (fst s)
        else row_of (find_item st1 lib (fst s)) = Some s" using r s(1) by blast
    show ?thesis
    proof (cases "in_trash (find_item st lib (fst s))")
      case True
      then have "row_of (find_item st lib (fst s)) = None"
        by (auto simp: in_trash_def row_of_def split: option.splits)
      with True cell lhs s(2) show ?thesis by simp
    next
      case False
      with cell lhs s uniq show ?thesis by auto
    qed
  next
    case False
    have "row_of (find_item st' lib (fst x)) = None"
    proof (cases "find_item st1 lib (fst x)")
      case (Some i)
      then have "item_rel_path i = fst x" "library_id i = lib" by (auto simp: find_item_def dest: find_SomeD)
      with False Some show ?thesis by (auto simp: b(4) absent_def row_of_def)
    qed (simp add: b(4) row_of_def)
    with False projection_iff [OF b(1), of x lib] show ?thesis by auto
  qed
  moreover have "find_item st' l q = Some i" if i: "find_item st l q = Some i" "l \<noteq> lib \<or> item_status i = trashed" for l q i
  proof -
    have il: "library_id i = l" using i(1) by (auto simp: find_item_def dest: find_SomeD)
    have "find_item st1 l q = Some i"
    proof (cases "l = lib \<and> q \<in> fst ` set ss")
      case True
      then have "in_trash (find_item st lib q)" using i by (simp add: in_trash_def)
      with r True i show ?thesis by fastforce
    qed (use r i in auto)
    with i il show ?thesis by (auto simp: b(4) absent_def)
  qed
  ultimately show ?thesis using r b same_rest_trans by (auto simp: set_eq_iff)
qed

section \<open>The invariant of the reconciliation tables\<close>

definition staging_key :: "nat \<times> mrow \<Rightarrow> nat \<times> string" where
  "staging_key x = (fst x, fst (snd x))"

definition rdb_ok :: "rdb \<Rightarrow> bool" where
  "rdb_ok db = (central_ok (base db) \<and> distinct (map session_id (sessions db)) \<and> distinct (map session_agent (sessions db))
     \<and> (\<forall>s \<in> set (sessions db). session_id s < next_session db)
     \<and> distinct (map staging_key (staging db))
     \<and> (\<forall>x \<in> set (staging db). fst x \<in> session_id ` set (sessions db)))"

lemma rdb_ok_drop: "rdb_ok db \<Longrightarrow> rdb_ok (drop_sessions P db)"
  by (fastforce simp: rdb_ok_def drop_sessions_def distinct_map_filter)

lemma rdb_ok_base: "rdb_ok db \<Longrightarrow> central_ok st \<Longrightarrow> rdb_ok (db\<lparr>base := st\<rparr>)"
  by (simp add: rdb_ok_def)

lemma drop_sessions_fields [simp]:
  "base (drop_sessions P db) = base db" "next_session (drop_sessions P db) = next_session db"
  by (simp_all add: drop_sessions_def)

lemma load_live_session_ok:
  assumes "load_live_session db a sid now ttl = Inr row"
  shows "row \<in> set (sessions db)" "session_id row = sid" "session_agent row = agent_id a"
    "expiry_cutoff now ttl \<le> started_at row"
  using assms by (auto simp: load_live_session_def split: option.splits if_splits dest: find_SomeD)

lemma load_live_session_err:
  assumes "load_live_session db a sid now ttl = Inl (db', e)"
  shows "e = UnknownSession" "db' = db \<or> db' = drop_sessions (\<lambda>s. session_id s = sid) db"
  using assms by (auto simp: load_live_session_def split: option.splits if_splits)

lemma start_ok:
  assumes "rdb_ok db" "reconcile_start sha db a ref d n rb now ttl = (db', a', s)"
  shows "rdb_ok db'" "base db' = base db"
proof -
  define db2 where "db2 = drop_sessions (\<lambda>s. session_agent s = agent_id a) (sweep_expired_sessions db now ttl)"
  have ok: "rdb_ok db2" unfolding db2_def sweep_expired_sessions_def by (intro rdb_ok_drop assms(1))
  have b: "base db2 = base db" by (simp add: db2_def sweep_expired_sessions_def)
  have gone: "\<forall>s \<in> set (sessions db2). session_agent s \<noteq> agent_id a" by (simp add: db2_def drop_sessions_def)
  have "db' = db2 \<or> db' = db2\<lparr>sessions := sessions db2 @ [\<lparr>session_id = next_session db2, session_agent = agent_id a,
      session_ref = ref, started_at = now, staged_rows = 0\<rparr>], next_session := Suc (next_session db2)\<rparr>"
    using assms(2) by (auto simp: reconcile_start_def Let_def db2_def [symmetric] split: prod.splits if_splits)
  moreover have "next_session db2 \<notin> session_id ` set (sessions db2)" "agent_id a \<notin> session_agent ` set (sessions db2)"
    using ok gone by (auto simp: rdb_ok_def)
  moreover have "\<forall>x \<in> set (staging db2). fst x \<in> insert (next_session db2) (session_id ` set (sessions db2))"
    using ok by (simp add: rdb_ok_def)
  ultimately show "rdb_ok db'" "base db' = base db"
    using ok b unfolding rdb_ok_def by (elim disjE; simp add: less_Suc_eq)+
qed

lemma stage_row_keys:
  "map staging_key (stage_row sid rows r) =
     (if (sid, m_rel_path r) \<in> set (map staging_key rows) then map staging_key rows
      else map staging_key rows @ [(sid, m_rel_path r)])"
  by (auto simp: stage_row_def staging_key_def quantize_def image_iff)

lemma stage_row_sessions: "fst ` set (stage_row sid rows r) \<subseteq> insert sid (fst ` set rows)"
  by (auto simp: stage_row_def image_iff)

lemma stage_rows_effect:
  "distinct (map staging_key rows) \<Longrightarrow> distinct (map staging_key (foldl (stage_row sid) rows rs))
   \<and> fst ` set (foldl (stage_row sid) rows rs) \<subseteq> insert sid (fst ` set rows)"
proof (induction rs arbitrary: rows)
  case (Cons r rs)
  from Cons.prems have "distinct (map staging_key (stage_row sid rows r))" by (simp add: stage_row_keys)
  note ih = Cons.IH [OF this]
  have "fst ` set (foldl (stage_row sid) rows (r # rs)) \<subseteq> insert sid (fst ` set (stage_row sid rows r))" using ih by simp
  also have "\<dots> \<subseteq> insert sid (fst ` set rows)" using stage_row_sessions [of sid rows r] by blast
  finally show ?case using ih by simp
qed auto

lemma stage_ok:
  assumes "rdb_ok db" "reconcile_stage_rows db a sid rows now ttl = Inr (db', n)"
  shows "rdb_ok db'" "base db' = base db"
proof -
  from assms(2) obtain row where row: "load_live_session db a sid now ttl = Inr row" by (auto simp: reconcile_stage_rows_def bind_res_Inr)
  note l = load_live_session_ok [OF row]
  let ?f = "\<lambda>s. if session_id s = sid then s\<lparr>staged_rows := n\<rparr> else s"
  have db': "db' = db\<lparr>staging := foldl (stage_row sid) (staging db) rows, sessions := map ?f (sessions db)\<rparr>"
    using assms(2) l(2) by (auto simp: reconcile_stage_rows_def row Let_def)
  have f: "session_id (?f s) = session_id s" "session_agent (?f s) = session_agent s" for s by auto
  have m: "map session_id (map ?f (sessions db)) = map session_id (sessions db)"
    "map session_agent (map ?f (sessions db)) = map session_agent (sessions db)" using f by (simp_all del: if_split)
  have ids: "session_id ` set (map ?f (sessions db)) = session_id ` set (sessions db)" using m(1) by (metis set_map)
  have sk: "distinct (map staging_key (staging db))" using assms(1) by (simp add: rdb_ok_def)
  have "fst ` set (foldl (stage_row sid) (staging db) rows) \<subseteq> session_id ` set (sessions db)"
    using stage_rows_effect [OF sk, of sid rows] l(1,2) assms(1) by (fastforce simp: rdb_ok_def)
  moreover have "\<forall>s \<in> set (map ?f (sessions db)). session_id s < next_session db"
    using assms(1) by (auto simp: rdb_ok_def)
  ultimately show "rdb_ok db'" using stage_rows_effect [OF sk, of sid rows] m ids assms(1)
    unfolding rdb_ok_def db' by (simp del: map_map set_map) blast
  show "base db' = base db" by (simp add: db')
qed

lemma reconcile_row_ok:
  assumes "items_ok st" "lib < next_id st" "reconcile_row cfg a now lib s (st, c, t) = Inr (st', c', t')"
  shows "items_ok st' \<and> same_rest st st'"
proof -
  obtain p sz us qh ch where s: "s = (p, sz, us, qh, ch)" by (metis prod_cases5)
  show ?thesis
  proof (cases "find_item st lib p")
    case None
    then obtain i where i: "new_item cfg a lib now (next_id st) p sz (fromtimestamp (timestamp us)) qh ch None [] = Inr i"
      and st': "st' = st\<lparr>items := items st @ [i], next_id := Suc (next_id st)\<rparr>"
      using assms(3) by (auto simp: reconcile_row_def s bind_res_Inr split: if_splits)
    note f = new_item_fields [OF i]
    have "items_ok st'" unfolding st' using assms(1,2) None f by (intro items_ok_insert) (auto simp: item_key_def)
    then show ?thesis by (simp add: st' same_rest_def)
  next
    case (Some row)
    then have "st' = st \<or> st' = update_item (item_id row) (overwrite a now s) st"
      using assms(3) by (auto simp: reconcile_row_def s split: if_splits)
    moreover have "items_ok (update_item (item_id row) (overwrite a now s) st)"
      using assms(1) by (intro items_ok_update) simp_all
    ultimately show ?thesis using assms(1) by auto
  qed
qed

lemma reconcile_rows_ok:
  "reconcile_rows cfg a now lib ss (st, c, t) = Inr (st', c', t') \<Longrightarrow> items_ok st \<Longrightarrow> lib < next_id st
   \<Longrightarrow> items_ok st' \<and> same_rest st st'"
proof (induction ss arbitrary: st c t)
  case (Cons s ss)
  from Cons.prems(1) obtain st1 c1 t1 where one: "reconcile_row cfg a now lib s (st, c, t) = Inr (st1, c1, t1)"
    and rest: "reconcile_rows cfg a now lib ss (st1, c1, t1) = Inr (st', c', t')" by (auto simp: bind_res_Inr)
  from reconcile_row_ok [OF Cons.prems(2,3) one] have e: "items_ok st1" "same_rest st st1" by auto
  then have "lib < next_id st1" using Cons.prems(3) by (simp add: same_rest_def)
  from Cons.IH [OF rest e(1) this] same_rest_trans [OF e(2)] show ?case by auto
qed simp

lemma find_item_cong: "items st' = items st \<Longrightarrow> find_item st' = find_item st"
  by (simp add: find_item_def fun_eq_iff)

text \<open>What a successful finish did, step by step.\<close>

lemma finish_Inr:
  assumes "reconcile_finish sha cfg db a sid digest n reset now ttl = Inr (db', a', c, touched)"
  obtains sess l created st1 acc st2 where
    "load_live_session db a sid now ttl = Inr sess" "session_id sess = sid"
    "length (staged_of db sid) = n" "sha (manifest_blob (staged_of db sid)) = digest"
    "provision_agent_library (base db) a (session_ref sess) = (l, created, st1)"
    "reconcile_rows cfg a now (lib_id l) (staged_of db sid) (st1, zero_counts, []) = Inr acc"
    "tombstone_absent a now (lib_id l) (map fst (staged_of db sid)) acc = (st2, c, touched)"
    "db' = (drop_sessions (\<lambda>s. session_id s = sid) db)\<lparr>base := st2\<rparr>"
    "a' = a\<lparr>last_reconcile_at := Some now, last_seen_at := Some now,
       last_contiguous_seq_no := (if reset then 0 else last_contiguous_seq_no a)\<rparr>"
proof -
  from assms obtain sess where s: "load_live_session db a sid now ttl = Inr sess"
    by (auto simp: reconcile_finish_def bind_res_Inr)
  then have sid: "session_id sess = sid" by (rule load_live_session_ok)
  obtain l created st1 where p: "provision_agent_library (base db) a (session_ref sess) = (l, created, st1)"
    by (metis prod_cases3)
  have "length (staged_of db sid) = n \<and> sha (manifest_blob (staged_of db sid)) = digest"
    using assms by (auto simp: reconcile_finish_def s sid Let_def split: if_splits)
  moreover from this assms obtain acc where
    r: "reconcile_rows cfg a now (lib_id l) (staged_of db sid) (st1, zero_counts, []) = Inr acc"
    by (auto simp: reconcile_finish_def s sid p Let_def split: sum.splits)
  moreover obtain st2 c2 t2 where
    t: "tombstone_absent a now (lib_id l) (map fst (staged_of db sid)) acc = (st2, c2, t2)" by (metis prod_cases3)
  ultimately show ?thesis using assms s sid p
    by (intro that [of sess l created st1 acc st2]) (auto simp: reconcile_finish_def Let_def)
qed

lemma finish_ok:
  assumes "rdb_ok db" "reconcile_finish sha cfg db a sid digest n reset now ttl = Inr (db', a', c, touched)"
  shows "rdb_ok db'"
  using assms(2)
proof (rule finish_Inr)
  fix sess l created st1 acc st2
  assume p: "provision_agent_library (base db) a (session_ref sess) = (l, created, st1)"
    and r: "reconcile_rows cfg a now (lib_id l) (staged_of db sid) (st1, zero_counts, []) = Inr acc"
    and t: "tombstone_absent a now (lib_id l) (map fst (staged_of db sid)) acc = (st2, c, touched)"
    and db': "db' = (drop_sessions (\<lambda>s. session_id s = sid) db)\<lparr>base := st2\<rparr>"
  obtain st3 c3 t3 where acc: "acc = (st3, c3, t3)" by (metis prod_cases3)
  have b: "items_ok (base db)" "libs_ok (base db)" "distinct (map (\<lambda>r. (log_agent r, log_seq r)) (replication_log (base db)))"
    using assms(1) by (auto simp: rdb_ok_def central_ok_def)
  note pe = provision_effect [OF b(2) p]
  have "items_ok st1" by (rule items_ok_provisioned [OF b(1) pe(2,4)])
  from reconcile_rows_ok [OF r [unfolded acc] this pe(5)] have re: "items_ok st3" "same_rest st1 st3" by auto
  note te = tombstone_effect [OF t [unfolded acc] re(1)]
  have "same_rest st1 st2" by (rule same_rest_trans [OF re(2) te(2)])
  then have "central_ok st2" using te(1) pe(1,3) b(3) by (intro central_ok_cong [of st2 st1]) (auto simp: same_rest_def)
  with assms(1) show "rdb_ok db'" unfolding db' by (intro rdb_ok_base rdb_ok_drop)
qed

lemma staged_distinct:
  assumes "rdb_ok db"
  shows "distinct (map fst (staged_of db sid))"
proof -
  let ?f = "filter (\<lambda>x. fst x = sid) (staging db)"
  have "distinct (map staging_key ?f)" using assms by (simp add: rdb_ok_def distinct_map_filter)
  moreover have "map staging_key ?f = map (\<lambda>p. (sid, p)) (map fst (map snd ?f))"
    by (auto simp: staging_key_def)
  ultimately show ?thesis unfolding staged_of_def by (simp add: distinct_map del: map_map)
qed

lemma finish_effect:
  assumes "rdb_ok db" "list_all time_ok (staged_of db sid)"
    and "reconcile_finish sha cfg db a sid digest n reset now ttl = Inr (db', a', c, touched)"
  obtains sess l where "sess \<in> set (sessions db)" "session_id sess = sid" "session_agent sess = agent_id a"
    "agent_library (base db') a (session_ref sess) = Some l"
    "item_row ` set (active_items (base db') (lib_id l))
       = {s \<in> set (staged_of db sid). \<not> in_trash (find_item (base db) (lib_id l) (fst s))}"
    "\<And>k q i. find_item (base db) k q = Some i \<Longrightarrow> k \<noteq> lib_id l \<or> item_status i = trashed
       \<Longrightarrow> find_item (base db') k q = Some i"
    "c_trashed_conflicts c = length (filter (\<lambda>s. in_trash (find_item (base db) (lib_id l) (fst s))) (staged_of db sid))"
  using assms(3)
proof (rule finish_Inr)
  fix sess l created st1 acc st2
  assume s: "load_live_session db a sid now ttl = Inr sess"
    and p: "provision_agent_library (base db) a (session_ref sess) = (l, created, st1)"
    and r: "reconcile_rows cfg a now (lib_id l) (staged_of db sid) (st1, zero_counts, []) = Inr acc"
    and t: "tombstone_absent a now (lib_id l) (map fst (staged_of db sid)) acc = (st2, c, touched)"
    and db': "db' = (drop_sessions (\<lambda>s. session_id s = sid) db)\<lparr>base := st2\<rparr>"
  have b: "items_ok (base db)" "libs_ok (base db)" using assms(1) by (auto simp: rdb_ok_def central_ok_def)
  note pe = provision_effect [OF b(2) p]
  have ok: "items_ok st1" by (rule items_ok_provisioned [OF b(1) pe(2,4)])
  note e = sweep_effect [OF r t ok pe(5) assms(2) staged_distinct [OF assms(1)]]
  have f: "find_item st1 = find_item (base db)" by (rule find_item_cong [OF pe(2)])
  have "agent_library st2 a (session_ref sess) = Some l"
    using e pe(6) by (simp add: agent_library_def same_rest_def)
  moreover note load_live_session_ok [OF s]
  ultimately show ?thesis using e f by (intro that [of sess l]) (auto simp: db' zero_counts_def)
qed

section \<open>Errors and isolation\<close>

text \<open>The sessions of other agents, with their staged rows.\<close>

definition foreign :: "Agent \<Rightarrow> rdb \<Rightarrow> ReconcileSession list \<times> (nat \<times> mrow) list" where
  "foreign a db = (filter (\<lambda>s. session_agent s \<noteq> agent_id a) (sessions db),
     filter (\<lambda>x. \<exists>s \<in> set (sessions db). session_id s = fst x \<and> session_agent s \<noteq> agent_id a) (staging db))"

lemma session_unique:
  "rdb_ok db \<Longrightarrow> s \<in> set (sessions db) \<Longrightarrow> s' \<in> set (sessions db) \<Longrightarrow> session_id s = session_id s' \<Longrightarrow> s = s'"
  by (auto simp: rdb_ok_def dest: distinct_map_eqD)

lemma foreign_drop:
  assumes "rdb_ok db" "s \<in> set (sessions db)" "session_id s = sid" "session_agent s = agent_id a"
  shows "foreign a (drop_sessions (\<lambda>s. session_id s = sid) db) = foreign a db"
proof -
  have own: "session_agent s' = agent_id a" if "s' \<in> set (sessions db)" "session_id s' = sid" for s'
    using session_unique [OF assms(1) that(1) assms(2)] that assms by simp
  then show ?thesis
    by (auto simp: foreign_def drop_sessions_def filter_filter intro!: filter_cong)
qed

lemma load_err_foreign:
  assumes "rdb_ok db" "load_live_session db a sid now ttl = Inl (db', e)"
  shows "foreign a db' = foreign a db"
  using assms(2) foreign_drop [OF assms(1)]
  by (auto simp: load_live_session_def split: option.splits if_splits dest: find_SomeD)

lemma stage_rows_foreign:
  assumes "\<And>q. \<not> P (sid, q)"
  shows "filter P (foldl (stage_row sid) rows rs) = filter P rows"
proof (induction rs arbitrary: rows)
  case (Cons r rs)
  have "filter P (map (\<lambda>x. if fst x = sid \<and> fst (snd x) = m_rel_path r then (sid, quantize r) else x) xs) = filter P xs" for xs
    using assms by (induction xs) auto
  then have "filter P (stage_row sid rows r) = filter P rows" using assms by (simp add: stage_row_def)
  with Cons.IH show ?case by simp
qed simp

lemma stage_foreign:
  assumes "rdb_ok db" "reconcile_stage_rows db a sid rows now ttl = Inr (db', n)"
  shows "foreign a db' = foreign a db"
proof -
  from assms(2) obtain row where row: "load_live_session db a sid now ttl = Inr row"
    by (auto simp: reconcile_stage_rows_def bind_res_Inr)
  note l = load_live_session_ok [OF row]
  let ?f = "\<lambda>s. if session_id s = sid then s\<lparr>staged_rows := n\<rparr> else s"
  have db': "db' = db\<lparr>staging := foldl (stage_row sid) (staging db) rows, sessions := map ?f (sessions db)\<rparr>"
    using assms(2) l(2) by (auto simp: reconcile_stage_rows_def row Let_def)
  have own: "session_agent s = agent_id a" if "s \<in> set (sessions db)" "session_id s = sid" for s
    using session_unique [OF assms(1) that(1) l(1)] that l by simp
  have "filter (\<lambda>s. session_agent s \<noteq> agent_id a) (map ?f xs) = filter (\<lambda>s. session_agent s \<noteq> agent_id a) xs"
    if "set xs \<subseteq> set (sessions db)" for xs using that own by (induction xs) auto
  moreover have "(\<exists>s \<in> set (map ?f (sessions db)). session_id s = k \<and> session_agent s \<noteq> agent_id a)
      \<longleftrightarrow> (\<exists>s \<in> set (sessions db). session_id s = k \<and> session_agent s \<noteq> agent_id a)" for k
  proof -
    have f: "session_id (?f s) = session_id s" "session_agent (?f s) = session_agent s" for s by auto
    show ?thesis by (simp only: set_map bex_simps f)
  qed
  moreover have "filter (\<lambda>x. \<exists>s \<in> set (sessions db). session_id s = fst x \<and> session_agent s \<noteq> agent_id a)
      (foldl (stage_row sid) (staging db) rows) = filter (\<lambda>x. \<exists>s \<in> set (sessions db). session_id s = fst x \<and> session_agent s \<noteq> agent_id a) (staging db)"
    using own by (intro stage_rows_foreign) auto
  ultimately show ?thesis unfolding foreign_def db' by simp
qed

lemma finish_Inl:
  assumes "reconcile_finish sha cfg db a sid digest n reset now ttl = Inl (db', e)"
  shows "load_live_session db a sid now ttl = Inl (db', e)
    \<or> db' = db \<or> (\<exists>sess. load_live_session db a sid now ttl = Inr sess \<and> db' = drop_sessions (\<lambda>s. session_id s = sid) db)"
proof (cases "load_live_session db a sid now ttl")
  case (Inr sess)
  then have "session_id sess = sid" by (rule load_live_session_ok)
  with Inr assms show ?thesis
    by (auto simp: reconcile_finish_def Let_def split: if_splits sum.splits prod.splits)
qed (use assms in \<open>auto simp: reconcile_finish_def\<close>)

lemma finish_err:
  assumes "rdb_ok db" "reconcile_finish sha cfg db a sid digest n reset now ttl = Inl (db', e)"
  shows "rdb_ok db'" "base db' = base db" "foreign a db' = foreign a db"
  using finish_Inl [OF assms(2)] assms(1) load_live_session_err [of db a sid now ttl db' e]
    load_err_foreign [OF assms(1)] foreign_drop [OF assms(1)] load_live_session_ok [of db a sid now ttl]
  by (auto simp: rdb_ok_drop)

lemma stage_err:
  assumes "rdb_ok db" "reconcile_stage_rows db a sid rows now ttl = Inl (db', e)"
  shows "rdb_ok db'" "base db' = base db" "foreign a db' = foreign a db"
proof -
  have l: "load_live_session db a sid now ttl = Inl (db', e)"
    using assms(2) by (cases "load_live_session db a sid now ttl") (auto simp: reconcile_stage_rows_def Let_def)
  from load_live_session_err [OF l] load_err_foreign [OF assms(1) l] assms(1)
  show "rdb_ok db'" "base db' = base db" "foreign a db' = foreign a db" by (auto simp: rdb_ok_drop)
qed

lemma finish_foreign:
  assumes "rdb_ok db" "reconcile_finish sha cfg db a sid digest n reset now ttl = Inr (db', a', c, touched)"
  shows "foreign a db' = foreign a db"
  using assms(2)
proof (rule finish_Inr)
  fix sess st2
  assume l: "load_live_session db a sid now ttl = Inr sess"
    and db': "db' = (drop_sessions (\<lambda>s. session_id s = sid) db)\<lparr>base := st2\<rparr>"
  have "foreign a (drop_sessions (\<lambda>s. session_id s = sid) db) = foreign a db"
    by (rule foreign_drop [OF assms(1) load_live_session_ok(1-3) [OF l]])
  then show ?thesis by (simp add: db' foreign_def)
qed

section \<open>Reachable states\<close>

text \<open>
  What agents can do to the tables: the three phases of a reconciliation, each succeeding or
  failing, interleaved with replication batches, by any agent at any time.
\<close>

inductive rstep :: "(string \<Rightarrow> string) \<Rightarrow> env \<Rightarrow> rdb \<Rightarrow> rdb \<Rightarrow> bool" for sha cfg where
  Start: "reconcile_start sha db a ref d n rb now ttl = (db', a', s) \<Longrightarrow> rstep sha cfg db db'"
| Stage: "reconcile_stage_rows db a sid rows now ttl = Inr (db', n) \<Longrightarrow> rstep sha cfg db db'"
| StageFails: "reconcile_stage_rows db a sid rows now ttl = Inl (db', e) \<Longrightarrow> rstep sha cfg db db'"
| Finish: "reconcile_finish sha cfg db a sid d n reset now ttl = Inr (db', a', c, t) \<Longrightarrow> rstep sha cfg db db'"
| FinishFails: "reconcile_finish sha cfg db a sid d n reset now ttl = Inl (db', e) \<Longrightarrow> rstep sha cfg db db'"
| Replicate: "apply_batch cfg (base db) a es now = Inr (st', a', r) \<Longrightarrow> rstep sha cfg db (db\<lparr>base := st'\<rparr>)"

lemma rstep_ok: "rstep sha cfg db db' \<Longrightarrow> rdb_ok db \<Longrightarrow> rdb_ok db'"
proof (induction rule: rstep.induct)
  case (Replicate db a es now st' a' r)
  then have "central_ok (base db)" by (simp add: rdb_ok_def)
  from apply_batch_ok [OF this Replicate(1)] Replicate(2) show ?case by (intro rdb_ok_base)
qed (auto intro: start_ok stage_ok stage_err finish_ok finish_err)

lemma rsteps_ok: "(rstep sha cfg)\<^sup>*\<^sup>* db db' \<Longrightarrow> rdb_ok db \<Longrightarrow> rdb_ok db'"
  by (induction rule: rtranclp_induct) (auto intro: rstep_ok)

definition empty_rdb :: rdb where
  "empty_rdb = \<lparr>base = empty_central, sessions = [], staging = [], next_session = 1\<rparr>"

lemma empty_rdb_ok: "rdb_ok empty_rdb"
  by (simp add: rdb_ok_def empty_rdb_def empty_central_ok)

section \<open>Properties of the reconciliation\<close>

text \<open>A sweep with one staged row that is about to finish.\<close>

definition sample_rdb :: rdb where
  "sample_rdb = empty_rdb\<lparr>sessions := [\<lparr>session_id = 5, session_agent = 7, session_ref = ''/m'', started_at = 0, staged_rows = 1\<rparr>],
     staging := [(5, (''a'', 3, 0, None, Some ''h''))], next_session := 6\<rparr>"

definition sample_digest :: string where
  "sample_digest = manifest_blob [(''a'', 3, 0, None, Some ''h'')]"

lemma sample_rdb_ok: "rdb_ok sample_rdb"
  using empty_central_ok by (simp add: rdb_ok_def sample_rdb_def empty_rdb_def staging_key_def)

lemma sample_staged: "staged_of sample_rdb 5 = [(''a'', 3, 0, None, Some ''h'')]"
  by (simp add: staged_of_def sample_rdb_def)

lemma sample_times: "list_all time_ok (staged_of sample_rdb 5)"
  by (simp add: sample_staged time_ok_def)

lemma sample_finish:
  "\<exists>db' a' c t. reconcile_finish id sample_env sample_rdb sample_agent 5 sample_digest 1 False 1 60 = Inr (db', a', c, t)
     \<and> c_trashed_conflicts c = 0 \<and> c_upserted c = 1"
proof -
  let ?r = "reconcile_finish id sample_env sample_rdb sample_agent 5 sample_digest 1 False 1 60"
  have "case ?r of Inl _ \<Rightarrow> False | Inr (db', a', c, t) \<Rightarrow> c_trashed_conflicts c = 0 \<and> c_upserted c = 1" by code_simp
  then show ?thesis by (cases ?r) auto
qed

text \<open>
  Property C12. In every state that agents can reach from empty tables by reconciling and replicating
  in any interleaving, failures included, each agent has at most one open session, every staged row
  belongs to an open session and is staged once per path, and the catalogue's unique keys hold.
\<close>

theorem reconcile_reachable_ok:
  assumes "(rstep sha cfg)\<^sup>*\<^sup>* empty_rdb db"
  shows "distinct (map session_agent (sessions db)) \<and> distinct (map session_id (sessions db))
    \<and> list_all (\<lambda>x. fst x \<in> session_id ` set (sessions db)) (staging db)
    \<and> distinct (map staging_key (staging db)) \<and> central_ok (base db)"
  using rsteps_ok [OF assms empty_rdb_ok] by (auto simp: rdb_ok_def list_all_iff)

theorem reconcile_reachable_ok_witness:
  "\<exists>db s. reconcile_start id empty_rdb sample_agent ''/m'' ''x'' 1 False 0 60 = (db, sample_agent\<lparr>last_seen_at := Some 0\<rparr>, s)
    \<and> length (sessions db) = 1 \<and> distinct (map session_agent (sessions db))"
proof -
  let ?r = "reconcile_start id empty_rdb sample_agent ''/m'' ''x'' 1 False 0 60"
  have m: "manifest_digest id [] \<noteq> ''x''" by code_simp
  obtain db a s where r: "?r = (db, a, s)" by (metis prod_cases3)
  then have "a = sample_agent\<lparr>last_seen_at := Some 0\<rparr>" "length (sessions db) = 1" using m
    by (auto simp: reconcile_start_def empty_rdb_def sweep_expired_sessions_def drop_sessions_def
        compute_central_digest_def agent_library_def empty_central_def Let_def)
  moreover have "(rstep id sample_env)\<^sup>*\<^sup>* empty_rdb db" using rstep.Start [OF r] by blast
  then have "distinct (map session_agent (sessions db))" using reconcile_reachable_ok by blast
  ultimately show ?thesis using r by blast
qed

text \<open>
  Property C10. When every staged modification time lies between 1970 and 2041 (\<open>time_ok\<close>: from 0 to below
  \<open>2 ^ 51\<close> microseconds, where the round trip through a Python float is exact), a successful finish makes the library's
  active content exactly the staged manifest, minus the paths a user has trashed: no row is lost or invented, a trashed
  item is never resurrected, and no item of another library changes.
\<close>

theorem reconcile_finish_converges:
  assumes "rdb_ok db" "list_all time_ok (staged_of db sid)"
    and "reconcile_finish sha cfg db a sid digest n reset now ttl = Inr (db', a', c, touched)"
  shows "\<exists>sess l. sess \<in> set (sessions db) \<and> session_id sess = sid \<and> session_agent sess = agent_id a
    \<and> agent_library (base db') a (session_ref sess) = Some l
    \<and> item_row ` set (active_items (base db') (lib_id l))
        = {s \<in> set (staged_of db sid). \<not> in_trash (find_item (base db) (lib_id l) (fst s))}
    \<and> (\<forall>k q i. find_item (base db) k q = Some i \<and> (k \<noteq> lib_id l \<or> item_status i = trashed)
         \<longrightarrow> find_item (base db') k q = Some i)
    \<and> rdb_ok db'"
  using assms
  by (rule finish_effect) (use finish_ok [OF assms(1,3)] in blast)

theorem reconcile_finish_converges_witness:
  "\<exists>db' a' c t (l :: Library). reconcile_finish id sample_env sample_rdb sample_agent 5 sample_digest 1 False 1 60 = Inr (db', a', c, t)
     \<and> item_row ` set (active_items (base db') (lib_id l)) = {(''a'', 3, 0, None, Some ''h'')}"
proof -
  obtain db' a' c t where f: "reconcile_finish id sample_env sample_rdb sample_agent 5 sample_digest 1 False 1 60 = Inr (db', a', c, t)"
    using sample_finish by blast
  from reconcile_finish_converges [OF sample_rdb_ok sample_times f] obtain l :: Library where
    "item_row ` set (active_items (base db') (lib_id l))
      = {s \<in> set (staged_of sample_rdb 5). \<not> in_trash (find_item (base sample_rdb) (lib_id l) (fst s))}" by blast
  moreover have "find_item (base sample_rdb) k q = None" for k q
    by (simp add: sample_rdb_def empty_rdb_def empty_central_def find_item_def)
  ultimately have "item_row ` set (active_items (base db') (lib_id l)) = {(''a'', 3, 0, None, Some ''h'')}"
    by (auto simp: sample_staged in_trash_def)
  with f show ?thesis by blast
qed

lemma finish_facts:
  assumes "reconcile_finish sha cfg db a sid digest n reset now ttl = Inr (db', a', c, touched)"
  shows "length (staged_of db sid) = n" "sha (manifest_blob (staged_of db sid)) = digest" "agent_id a' = agent_id a"
  using assms by (rule finish_Inr, simp)+

lemma length_kept:
  assumes "distinct xs" "distinct ys" "set xs = {y \<in> set ys. \<not> P y}"
  shows "length xs + length (filter P ys) = length ys"
proof -
  have "length xs = length (filter (\<lambda>y. \<not> P y) ys)"
    using assms by (metis distinct_card distinct_filter set_filter)
  then show ?thesis using sum_length_filter_compl [of P ys] by simp
qed

lemma item_row_comp: "item_row = quantize \<circ> manifest_row"
  by (simp add: item_row_def fun_eq_iff)

lemma central_count:
  "agent_library st a ref = Some l \<Longrightarrow> compute_central_digest sha st a ref =
     (sha (manifest_blob (map item_row (active_items st (lib_id l)))), length (active_items st (lib_id l)))"
  unfolding compute_central_digest_def manifest_digest_def item_row_comp by simp

text \<open>
  Property C11. After a successful finish of a manifest whose modification times all lie between 1970 and 2041
  (\<open>time_ok\<close>, as above), a start that sends the same digest and row count is answered with a match exactly when the
  finish reported no trashed conflict: for such times the protocol reaches its fixed point in one sweep, and a trashed
  path is the only reason it may not.
\<close>

theorem reconcile_then_match:
  assumes "rdb_ok db" "list_all time_ok (staged_of db sid)"
    and "reconcile_finish sha cfg db a sid digest n reset now ttl = Inr (db', a', c, touched)"
    and "find (\<lambda>s. session_id s = sid) (sessions db) = Some sess"
  shows "snd (snd (reconcile_start sha db' a' (session_ref sess) digest n rebuilt now' ttl')) = Match
    \<longleftrightarrow> c_trashed_conflicts c = 0"
proof -
  from assms(1-3) obtain sess' l where s: "sess' \<in> set (sessions db)" "session_id sess' = sid"
    and lib: "agent_library (base db') a (session_ref sess') = Some l"
    and rows: "item_row ` set (active_items (base db') (lib_id l))
       = {s \<in> set (staged_of db sid). \<not> in_trash (find_item (base db) (lib_id l) (fst s))}"
    and cnt: "c_trashed_conflicts c = length (filter (\<lambda>s. in_trash (find_item (base db) (lib_id l) (fst s))) (staged_of db sid))"
    by (rule finish_effect) (rule that; assumption)
  from find_SomeD [OF assms(4)] have "sess \<in> set (sessions db)" "session_id sess = sid" by auto
  with s have same: "sess' = sess" by (intro session_unique [OF assms(1)]) simp_all
  note fin = finish_facts [OF assms(3)]
  let ?rows = "map item_row (active_items (base db') (lib_id l))"
  have "items_ok (base db')" using finish_ok [OF assms(1,3)] by (simp add: rdb_ok_def central_ok_def)
  then have d: "distinct (map fst ?rows)" by (rule distinct_projection)
  have len: "length ?rows + c_trashed_conflicts c = n"
    using length_kept [OF distinct_map [THEN iffD1, THEN conjunct1, OF d]
        distinct_map [THEN iffD1, THEN conjunct1, OF staged_distinct [OF assms(1), of sid]]] rows cnt fin(1) by simp
  have "manifest_blob ?rows = manifest_blob (staged_of db sid)" if "c_trashed_conflicts c = 0"
    unfolding manifest_blob_set [OF d staged_distinct [OF assms(1)]]
    using rows cnt that by (auto simp: filter_empty_conv)
  moreover have "agent_library (base db') a' (session_ref sess) = Some l"
    using lib fin(3) same by (simp add: agent_library_def)
  moreover have "snd (snd (reconcile_start sha db' a' (session_ref sess) digest n rebuilt now' ttl')) = Match \<longleftrightarrow>
     compute_central_digest sha (base db') a' (session_ref sess) = (digest, n)"
    by (auto simp: reconcile_start_def sweep_expired_sessions_def Let_def split: prod.splits)
  ultimately show ?thesis using len fin by (auto simp: central_count)
qed

theorem reconcile_then_match_witness:
  "\<exists>db' a' c t. reconcile_finish id sample_env sample_rdb sample_agent 5 sample_digest 1 False 1 60 = Inr (db', a', c, t)
     \<and> snd (snd (reconcile_start id db' a' ''/m'' sample_digest 1 False 2 60)) = Match"
proof -
  obtain db' a' c t where f: "reconcile_finish id sample_env sample_rdb sample_agent 5 sample_digest 1 False 1 60 = Inr (db', a', c, t)"
    and c: "c_trashed_conflicts c = 0" using sample_finish by blast
  have "find (\<lambda>s. session_id s = 5) (sessions sample_rdb) = Some (hd (sessions sample_rdb))" by (simp add: sample_rdb_def)
  from reconcile_then_match [OF sample_rdb_ok sample_times f this] f c show ?thesis
    by (auto simp: sample_rdb_def)
qed

text \<open>
  A staging page or a finish touches only the calling agent's session, whatever its
  outcome: other agents' sessions and their staged rows stay as they were, and a refused request
  leaves the whole catalogue as it was.
\<close>

theorem reconcile_isolated:
  assumes "rdb_ok db"
  shows "(case reconcile_stage_rows db a sid rows now ttl of
       Inl (db', e) \<Rightarrow> foreign a db' = foreign a db \<and> base db' = base db
     | Inr (db', k) \<Rightarrow> foreign a db' = foreign a db \<and> base db' = base db)
   \<and> (case reconcile_finish sha cfg db a sid digest n reset now ttl of
       Inl (db', e) \<Rightarrow> foreign a db' = foreign a db \<and> base db' = base db
     | Inr (db', _) \<Rightarrow> foreign a db' = foreign a db)"
  using stage_err [OF assms] stage_foreign [OF assms] stage_ok [OF assms] finish_err [OF assms] finish_foreign [OF assms]
  by (auto split: sum.splits)

theorem reconcile_isolated_witness:
  "\<exists>db'. reconcile_stage_rows sample_rdb (sample_agent\<lparr>agent_id := 8\<rparr>) 5 [] 1 60 = Inl (db', UnknownSession)
     \<and> base db' = base sample_rdb"
proof -
  have r: "reconcile_stage_rows sample_rdb (sample_agent\<lparr>agent_id := 8\<rparr>) 5 [] 1 60 = Inl (sample_rdb, UnknownSession)"
    by (simp add: reconcile_stage_rows_def load_live_session_def sample_rdb_def)
  with reconcile_isolated [OF sample_rdb_ok, of "sample_agent\<lparr>agent_id := 8\<rparr>" 5 "[]" 1 60] show ?thesis by auto
qed

end
