(* ===== verification/ShareMap.thy ===== *)
theory ShareMap
  imports AgentSync
begin

text \<open>
  Network locations of files: the share-URL core of \<open>backend/filearr/transfers.py\<close> (prefix
  classification, joining, the canonical choice of a mapping) and \<open>backend/filearr/share_map.py\<close> (the
  deploy-time mount map with its cache, SMB URL and UNC renderings, per-library, per-item and per-agent
  resolution). Reading the map file is an argument: what \<open>stat\<close> and \<open>read\<close> gave. \<open>json.loads\<close> and the
  schema validation of a row are parameters.
\<close>

section \<open>Share prefixes\<close>

abbreviation bslash :: char where "bslash \<equiv> CHR 0x5C"

abbreviation slash :: char where "slash \<equiv> CHR ''/''"

text \<open>\<open>s.find(p)\<close>, with \<open>None\<close> for \<open>-1\<close>.\<close>

fun find_sub :: "string \<Rightarrow> string \<Rightarrow> nat option" where
  "find_sub p [] = (if p = [] then Some 0 else None)"
| "find_sub p (x # s) = (if startswith (x # s) p then Some 0 else map_option Suc (find_sub p s))"

datatype ShareScheme = Unc | Url | Posix | Unknown

definition url_char :: "char \<Rightarrow> bool" where
  "url_char c = (is_alnum c \<or> c \<in> set ''+.-'')"

definition classify_prefix :: "string \<Rightarrow> ShareScheme" where
  "classify_prefix pfx =
     (if pfx = [] then Unknown
      else if startswith pfx [bslash, bslash] then Unc
      else if (case find_sub ''://'' pfx of
                 Some i \<Rightarrow> 0 < i \<and> is_alpha (hd pfx) \<and> list_all url_char (take i pfx)
               | None \<Rightarrow> False) then Url
      else if startswith pfx ''/'' then Posix
      else Unknown)"

definition norm_local :: "string \<Rightarrow> string" where
  "norm_local path = strip (\<lambda>c. c = slash) (to_slash path)"

definition join_share :: "string \<Rightarrow> string list \<Rightarrow> string" where
  "join_share share_prefix remainder =
     (if classify_prefix share_prefix = Unc
      then (let base = rstrip (\<lambda>c. c = bslash) share_prefix; rel = join [bslash] remainder
            in if rel \<noteq> [] then base @ bslash # rel else base)
      else (let base = rstrip (\<lambda>c. c = slash) share_prefix; rel = join [slash] remainder
            in if rel \<noteq> [] then base @ slash # rel else base))"

definition segments :: "string \<Rightarrow> string list" where
  "segments s = filter (\<lambda>x. x \<noteq> []) (split_on slash s)"

section \<open>Choosing a mapping\<close>

record ShareMapping =
  local_prefix :: string
  share_prefix :: string
  map_agent_id :: "string option"
  map_library_id :: "string option"
  map_unc :: "string option"

definition covers :: "string \<Rightarrow> string \<Rightarrow> bool" where
  "covers target base = (target = base \<or> base = [] \<or> startswith target (base @ ''/''))"

fun select_loop :: "string option \<Rightarrow> string \<Rightarrow> ShareMapping list \<Rightarrow> ShareMapping option \<times> int \<times> bool
    \<Rightarrow> ShareMapping option \<times> int \<times> bool" where
  "select_loop ag target [] st = st"
| "select_loop ag target (m # ms) (best, best_len, best_agent_specific) =
     (if map_agent_id m \<noteq> None \<and> map_agent_id m \<noteq> ag
      then select_loop ag target ms (best, best_len, best_agent_specific)
      else let base = norm_local (local_prefix m) in
        if \<not> covers target base then select_loop ag target ms (best, best_len, best_agent_specific)
        else let agent_specific = (map_agent_id m \<noteq> None) in
          if int (length base) > best_len \<or> (int (length base) = best_len \<and> agent_specific \<and> \<not> best_agent_specific)
          then select_loop ag target ms (Some m, int (length base), agent_specific)
          else select_loop ag target ms (best, best_len, best_agent_specific))"

definition select_mapping :: "ShareMapping list \<Rightarrow> string option \<Rightarrow> string \<Rightarrow> (ShareMapping \<times> string list) option" where
  "select_mapping mappings ag local_path =
     (let target = norm_local local_path
      in case fst (select_loop ag target mappings (None, -1, False)) of
           None \<Rightarrow> None
         | Some best \<Rightarrow> Some (best, drop (length (segments (norm_local (local_prefix best)))) (segments target)))"

definition resolve_share_url :: "ShareMapping list \<Rightarrow> string option \<Rightarrow> string \<Rightarrow> string option" where
  "resolve_share_url mappings ag local_path = (case select_mapping mappings ag local_path of
       None \<Rightarrow> None
     | Some (best, remainder) \<Rightarrow> Some (join_share (share_prefix best) remainder))"

section \<open>The deploy-time mount map\<close>

record ShareMapEntry =
  container_prefix :: string
  entry_url :: string
  storage_type :: "string option"
  entry_host :: "string option"
  entry_unc :: "string option"

record ShareHint =
  hint_url :: string
  hint_scheme :: ShareScheme
  hint_unc :: "string option"
  hint_storage_type :: "string option"
  hint_host :: "string option"

record ShareLocation =
  loc_url :: "string option"
  loc_unc :: "string option"

text \<open>
  \<open>_parse\<close>: \<open>data\<close> is what \<open>json.loads\<close> made of the file, \<open>None\<close> when it raised; \<open>validate\<close> is the
  schema validation of one row.
\<close>

definition blank :: "string \<Rightarrow> bool" where
  "blank s = (strip is_space s = [])"

fun parse_rows :: "((string \<times> json) list \<Rightarrow> ShareMapEntry option) \<Rightarrow> json list \<Rightarrow> ShareMapEntry list" where
  "parse_rows validate [] = []"
| "parse_rows validate (row # rows) = (case row of
       JObj d \<Rightarrow> (case validate d of
           None \<Rightarrow> parse_rows validate rows
         | Some e \<Rightarrow> if blank (container_prefix e) \<or> blank (entry_url e) then parse_rows validate rows
                    else e # parse_rows validate rows)
     | _ \<Rightarrow> parse_rows validate rows)"

definition parse_map :: "(string \<Rightarrow> json option) \<Rightarrow> ((string \<times> json) list \<Rightarrow> ShareMapEntry option) \<Rightarrow> string \<Rightarrow> ShareMapEntry list" where
  "parse_map loads validate raw = (case loads raw of Some (JList rows) \<Rightarrow> parse_rows validate rows | _ \<Rightarrow> [])"

text \<open>
  The file as one call finds it: absent, or with its modification time and what reading it gives (an
  \<open>OSError\<close>, bytes that are not UTF-8, or the text). The module state is the cache and whether the
  absence was logged.
\<close>

datatype file_text = Unreadable | NotUtf8 | Text string

datatype share_file = Absent | Present rat file_text

record share_cache =
  cached :: "(rat \<times> ShareMapEntry list) option"
  missing_logged :: bool

definition get_entries :: "(string \<Rightarrow> ShareMapEntry list) \<Rightarrow> share_file \<Rightarrow> share_cache
    \<Rightarrow> py_exn + (share_cache \<times> ShareMapEntry list)" where
  "get_entries parse f c = (case f of
       Absent \<Rightarrow>
         (case cached c of
            Some (t, es) \<Rightarrow> if t = -1 then Inr (c, es) else Inr (\<lparr>cached = Some (-1, []), missing_logged = True\<rparr>, [])
          | None \<Rightarrow> Inr (\<lparr>cached = Some (-1, []), missing_logged = True\<rparr>, []))
     | Present mtime raw \<Rightarrow>
         (case (case cached c of Some (t, es) \<Rightarrow> if t = mtime then Some es else None | None \<Rightarrow> None) of
            Some es \<Rightarrow> Inr (c, es)
          | None \<Rightarrow> (case raw of
                Unreadable \<Rightarrow> Inr (c\<lparr>cached := Some (mtime, [])\<rparr>, [])
              | NotUtf8 \<Rightarrow> Inl UnicodeError
              | Text s \<Rightarrow> Inr (\<lparr>cached = Some (mtime, parse s), missing_logged = False\<rparr>, parse s))))"

definition reset_cache :: share_cache where
  "reset_cache = \<lparr>cached = None, missing_logged = False\<rparr>"

fun resolve_loop :: "string \<Rightarrow> ShareMapEntry list \<Rightarrow> ShareMapEntry option \<times> int \<Rightarrow> ShareMapEntry option \<times> int" where
  "resolve_loop target [] st = st"
| "resolve_loop target (e # es) (best, best_len) =
     (let base = norm_local (container_prefix e) in
      if (base = [] \<or> target = base \<or> startswith target (base @ ''/'')) \<and> int (length base) > best_len
      then resolve_loop target es (Some e, int (length base))
      else resolve_loop target es (best, best_len))"

definition truthy_str :: "string option \<Rightarrow> string option" where
  "truthy_str s = (if s = Some [] then None else s)"

definition resolve_path :: "string \<Rightarrow> ShareMapEntry list \<Rightarrow> ShareHint option" where
  "resolve_path path entries =
     (let target = norm_local path
      in case fst (resolve_loop target entries (None, -1)) of
           None \<Rightarrow> None
         | Some best \<Rightarrow>
             (let remainder = drop (length (segments (norm_local (container_prefix best)))) (segments target)
              in Some \<lparr>hint_url = join_share (entry_url best) remainder,
                   hint_scheme = classify_prefix (entry_url best),
                   hint_unc = map_option (\<lambda>u. join_share u remainder) (truthy_str (entry_unc best)),
                   hint_storage_type = storage_type best, hint_host = entry_host best\<rparr>))"

datatype share_source = Manual | MountMap | NoShare

definition effective_library_share :: "ShareMapEntry list \<Rightarrow> string option \<Rightarrow> string \<Rightarrow> string option \<times> share_source" where
  "effective_library_share entries pfx root_dir = (case truthy_str pfx of
       Some p \<Rightarrow> (Some p, Manual)
     | None \<Rightarrow> (case resolve_path root_dir entries of
           Some h \<Rightarrow> (Some (hint_url h), MountMap)
         | None \<Rightarrow> (None, NoShare)))"

definition item_share_url :: "ShareMapEntry list \<Rightarrow> string option \<Rightarrow> string \<Rightarrow> string \<Rightarrow> string option" where
  "item_share_url entries pfx item_path_arg rel = (case truthy_str pfx of
       Some p \<Rightarrow> Some (join_share p (segments (to_slash rel)))
     | None \<Rightarrow> map_option hint_url (resolve_path item_path_arg entries))"

section \<open>SMB URLs and UNC paths\<close>

definition find_char :: "char \<Rightarrow> string \<Rightarrow> nat option" where
  "find_char c s = (if c \<in> set s then Some (length (takeWhile (\<lambda>x. x \<noteq> c) s)) else None)"

definition endswith :: "string \<Rightarrow> string \<Rightarrow> bool" where
  "endswith s p = startswith (rev s) (rev p)"

definition replace_char :: "char \<Rightarrow> char \<Rightarrow> string \<Rightarrow> string" where
  "replace_char a b s = map (\<lambda>c. if c = a then b else c) s"

definition strip_userinfo :: "string \<Rightarrow> string" where
  "strip_userinfo rest = (case find_char (CHR ''@'') rest of
       None \<Rightarrow> rest
     | Some k \<Rightarrow> (case find_char slash rest of
           None \<Rightarrow> drop (k + 1) rest
         | Some sl \<Rightarrow> if k < sl then drop (k + 1) rest else rest))"

definition unc_host :: "string \<Rightarrow> string option" where
  "unc_host hostport =
     (if startswith hostport ''[''
      then (case find_char (CHR '']'') hostport of
          None \<Rightarrow> None
        | Some e \<Rightarrow>
            if startswith (drop (e + 1) hostport) '':'' then None
            else Some (replace_char (CHR '':'') (CHR ''-'') (take (e - 1) (drop 1 hostport)) @ ''.ipv6-literal.net''))
      else if CHR '':'' \<in> set hostport then None
      else Some hostport)"

definition derive_unc_from_url :: "string \<Rightarrow> string option" where
  "derive_unc_from_url url =
     (if url = [] \<or> \<not> startswith (lower url) ''smb://'' then None
      else let rest = strip_userinfo (drop (length ''smb://'') url);
               sl = find_char slash rest;
               hostport = (case sl of None \<Rightarrow> rest | Some i \<Rightarrow> take i rest);
               pathpart = (case sl of None \<Rightarrow> [] | Some i \<Rightarrow> drop (i + 1) rest)
           in case unc_host hostport of
                None \<Rightarrow> None
              | Some host \<Rightarrow>
                  if host = [] then None
                  else let body = join [bslash] (segments pathpart)
                       in Some (if body \<noteq> [] then [bslash, bslash] @ host @ bslash # body else [bslash, bslash] @ host))"

definition ipv6_suffix :: string where "ipv6_suffix = ''.ipv6-literal.net''"

definition derive_url_from_unc :: "string \<Rightarrow> string option" where
  "derive_url_from_unc u =
     (if u = [] \<or> \<not> startswith u [bslash, bslash] then None
      else case segments (to_slash (drop 2 u)) of
             [] \<Rightarrow> None
           | seg # segs \<Rightarrow>
               (let host = (if endswith (lower seg) ipv6_suffix
                            then ''['' @ replace_char (CHR ''-'') (CHR '':'') (take (length seg - length ipv6_suffix) seg) @ '']''
                            else seg);
                    body = join [slash] segs
                in Some (if body \<noteq> [] then ''smb://'' @ host @ slash # body else ''smb://'' @ host)))"

definition location_from_prefix :: "string \<Rightarrow> ShareLocation" where
  "location_from_prefix pfx =
     (if classify_prefix pfx = Unc then \<lparr>loc_url = derive_url_from_unc pfx, loc_unc = Some pfx\<rparr>
      else if classify_prefix pfx = Url \<and> startswith (lower pfx) ''smb://''
      then \<lparr>loc_url = Some pfx, loc_unc = derive_unc_from_url pfx\<rparr>
      else \<lparr>loc_url = Some pfx, loc_unc = None\<rparr>)"

definition hint_location :: "ShareHint \<Rightarrow> ShareLocation" where
  "hint_location h = \<lparr>loc_url = Some (hint_url h), loc_unc = hint_unc h\<rparr>"

definition empty_location :: ShareLocation where
  "empty_location = \<lparr>loc_url = None, loc_unc = None\<rparr>"

definition effective_library_share_location :: "ShareMapEntry list \<Rightarrow> string option \<Rightarrow> string \<Rightarrow> ShareLocation \<times> share_source" where
  "effective_library_share_location entries pfx root_dir = (case truthy_str pfx of
       Some p \<Rightarrow> (location_from_prefix p, Manual)
     | None \<Rightarrow> (case resolve_path root_dir entries of
           Some h \<Rightarrow> (hint_location h, MountMap)
         | None \<Rightarrow> (empty_location, NoShare)))"

definition item_share_location :: "ShareMapEntry list \<Rightarrow> string option \<Rightarrow> string \<Rightarrow> string \<Rightarrow> ShareLocation" where
  "item_share_location entries pfx item_path_arg rel = (case truthy_str pfx of
       Some p \<Rightarrow> location_from_prefix (join_share p (segments (to_slash rel)))
     | None \<Rightarrow> (case resolve_path item_path_arg entries of
           Some h \<Rightarrow> hint_location h
         | None \<Rightarrow> empty_location))"

definition resolve_for_agent :: "ShareMapping list \<Rightarrow> string option \<Rightarrow> string \<Rightarrow> ShareLocation option" where
  "resolve_for_agent mappings ag local_path = (case select_mapping mappings ag local_path of
       None \<Rightarrow> None
     | Some (best, remainder) \<Rightarrow>
         (let url = join_share (share_prefix best) remainder
          in case truthy_str (map_unc best) of
               Some u \<Rightarrow> Some \<lparr>loc_url = Some url, loc_unc = Some (join_share u remainder)\<rparr>
             | None \<Rightarrow> Some (location_from_prefix url)))"

section \<open>The chosen mapping is the most specific one\<close>

lemma segments_append: "segments (x @ slash # s) = segments x @ segments s"
  by (simp add: segments_def split_on_append)

lemma segments_Nil [simp]: "segments [] = []"
  by (simp add: segments_def)

lemma covers_segments:
  assumes "covers target base"
  shows "segments target = segments base @ drop (length (segments base)) (segments target)"
proof -
  from assms consider "target = base" | "base = []" | t where "target = base @ slash # t"
    by (auto simp: covers_def startswith_iff)
  then show ?thesis by cases (auto simp: segments_append)
qed

definition mapping_base :: "ShareMapping \<Rightarrow> string" where
  "mapping_base m = norm_local (local_prefix m)"

definition eligible :: "string option \<Rightarrow> string \<Rightarrow> ShareMapping \<Rightarrow> bool" where
  "eligible ag target m = ((map_agent_id m = None \<or> map_agent_id m = ag) \<and> covers target (mapping_base m))"

text \<open>Longer prefixes rank higher, and of two equally long ones the agent's own.\<close>

definition specificity :: "ShareMapping \<Rightarrow> nat" where
  "specificity m = 2 * length (mapping_base m) + (if map_agent_id m = None then 0 else 1)"

fun select_state :: "ShareMapping option \<Rightarrow> ShareMapping option \<times> int \<times> bool" where
  "select_state None = (None, -1, False)"
| "select_state (Some m) = (Some m, int (length (mapping_base m)), map_agent_id m \<noteq> None)"

definition select_scan :: "string option \<Rightarrow> string \<Rightarrow> ShareMapping option \<Rightarrow> ShareMapping list \<Rightarrow> ShareMapping option" where
  "select_scan ag target b ms = fst (select_loop ag target ms (select_state b))"

lemma select_scan_Cons:
  "select_scan ag target b (m # ms) =
     select_scan ag target (if eligible ag target m \<and> (case b of None \<Rightarrow> True | Some b' \<Rightarrow> specificity b' < specificity m)
       then Some m else b) ms"
proof (cases b)
  case None
  then show ?thesis by (auto simp: select_scan_def eligible_def mapping_base_def Let_def)
next
  case (Some b')
  have "specificity b' < specificity m \<longleftrightarrow> int (length (mapping_base m)) > int (length (mapping_base b'))
      \<or> int (length (mapping_base m)) = int (length (mapping_base b')) \<and> map_agent_id m \<noteq> None \<and> map_agent_id b' = None"
    by (auto simp: specificity_def)
  then show ?thesis by (auto simp: Some select_scan_def eligible_def mapping_base_def [symmetric] Let_def)
qed

interpretation sel: best_scan "eligible ag target" specificity "select_scan ag target" for ag target
proof unfold_locales
  show "select_scan ag target b [] = b" for b by (cases b) (simp_all add: select_scan_def)
qed (rule select_scan_Cons)

text \<open>
  Selecting a share mapping finds one exactly when some mapping for this agent (or for
  any agent) covers the path on a segment boundary. The one found has the longest local prefix, an
  agent-specific one before a global one of equal length, and the remainder completes the segments
  of its prefix to those of the path.
\<close>

theorem select_mapping_best:
  "case select_mapping ms ag p of
     None \<Rightarrow> list_all (\<lambda>m. \<not> eligible ag (norm_local p) m) ms
   | Some (m, remainder) \<Rightarrow> m \<in> set ms \<and> eligible ag (norm_local p) m
       \<and> list_all (\<lambda>m'. eligible ag (norm_local p) m' \<longrightarrow> specificity m' \<le> specificity m) ms
       \<and> segments (norm_local p) = segments (mapping_base m) @ remainder"
proof (cases "select_scan ag (norm_local p) None ms")
  case None
  moreover from this have "list_all (\<lambda>m. \<not> eligible ag (norm_local p) m) ms"
    by (simp add: sel.scan_None list_all_iff)
  ultimately show ?thesis by (simp add: select_mapping_def select_scan_def Let_def)
next
  case (Some m)
  note b = sel.scan_best [OF Some]
  have "select_mapping ms ag p = Some (m, drop (length (segments (mapping_base m))) (segments (norm_local p)))"
    using Some by (simp add: select_mapping_def select_scan_def mapping_base_def Let_def)
  moreover have "segments (norm_local p) = segments (mapping_base m) @ drop (length (segments (mapping_base m))) (segments (norm_local p))"
    using b(2) by (intro covers_segments) (simp add: eligible_def)
  ultimately show ?thesis using b by (simp add: list_all_iff)
qed

definition sample_maps :: "ShareMapping list" where
  "sample_maps = [
     \<lparr>local_prefix = ''/srv'', share_prefix = ''smb://nas/srv'', map_agent_id = None, map_library_id = None, map_unc = None\<rparr>,
     \<lparr>local_prefix = ''/srv/media'', share_prefix = ''smb://nas/media'', map_agent_id = Some ''a'', map_library_id = None, map_unc = None\<rparr>]"

theorem select_mapping_best_witness:
  "case select_mapping sample_maps (Some ''a'') ''/srv/media/x/y.mp3'' of
     Some (m, remainder) \<Rightarrow> share_prefix m = ''smb://nas/media'' \<and> remainder = [''x'', ''y.mp3'']
       \<and> list_all (\<lambda>m'. eligible (Some ''a'') (norm_local ''/srv/media/x/y.mp3'') m' \<longrightarrow> specificity m' \<le> specificity m) sample_maps
   | None \<Rightarrow> False"
proof -
  have "case select_mapping sample_maps (Some ''a'') ''/srv/media/x/y.mp3'' of
     Some (m, remainder) \<Rightarrow> share_prefix m = ''smb://nas/media'' \<and> remainder = [''x'', ''y.mp3''] | None \<Rightarrow> False" by code_simp
  with select_mapping_best [where ms = sample_maps and ag = "Some ''a''" and p = "''/srv/media/x/y.mp3''"] show ?thesis
    by (simp split: option.splits prod.splits)
qed

section \<open>The mount map\<close>

definition entry_base :: "ShareMapEntry \<Rightarrow> string" where
  "entry_base e = norm_local (container_prefix e)"

fun resolve_state :: "ShareMapEntry option \<Rightarrow> ShareMapEntry option \<times> int" where
  "resolve_state None = (None, -1)"
| "resolve_state (Some e) = (Some e, int (length (entry_base e)))"

definition resolve_scan :: "string \<Rightarrow> ShareMapEntry option \<Rightarrow> ShareMapEntry list \<Rightarrow> ShareMapEntry option" where
  "resolve_scan target b es = fst (resolve_loop target es (resolve_state b))"

interpretation mount: best_scan "\<lambda>e. covers target (entry_base e)" "\<lambda>e. length (entry_base e)" "resolve_scan target" for target
proof unfold_locales
  show "resolve_scan target b [] = b" for b by (cases b) (simp_all add: resolve_scan_def)
  show "resolve_scan target b (e # es) = resolve_scan target
      (if covers target (entry_base e) \<and> (case b of None \<Rightarrow> True | Some b' \<Rightarrow> length (entry_base b') < length (entry_base e))
       then Some e else b) es" for b e es
    by (cases b) (auto simp: resolve_scan_def covers_def entry_base_def Let_def)
qed

text \<open>
  The mount map resolves a path exactly when an entry covers it; the location is the
  share of the entry with the longest container prefix followed by the rest of the path.
\<close>

theorem resolve_path_best:
  "case resolve_path p es of
     None \<Rightarrow> list_all (\<lambda>e. \<not> covers (norm_local p) (entry_base e)) es
   | Some h \<Rightarrow> \<exists>e \<in> set es. covers (norm_local p) (entry_base e)
       \<and> list_all (\<lambda>e'. covers (norm_local p) (entry_base e') \<longrightarrow> length (entry_base e') \<le> length (entry_base e)) es
       \<and> (\<exists>remainder. segments (norm_local p) = segments (entry_base e) @ remainder
            \<and> hint_url h = join_share (entry_url e) remainder)"
proof (cases "resolve_scan (norm_local p) None es")
  case None
  moreover from this have "list_all (\<lambda>e. \<not> covers (norm_local p) (entry_base e)) es"
    by (simp add: mount.scan_None list_all_iff)
  ultimately show ?thesis by (simp add: resolve_path_def resolve_scan_def Let_def)
next
  case (Some e)
  note b = mount.scan_best [OF Some]
  have "segments (norm_local p) = segments (entry_base e) @ drop (length (segments (entry_base e))) (segments (norm_local p))"
    by (rule covers_segments [OF b(2)])
  moreover obtain h where h: "resolve_path p es = Some h"
    and "hint_url h = join_share (entry_url e) (drop (length (segments (entry_base e))) (segments (norm_local p)))"
    using Some by (simp add: resolve_path_def resolve_scan_def entry_base_def Let_def)
  ultimately show ?thesis using b by (auto simp: h list_all_iff)
qed

definition sample_entries :: "ShareMapEntry list" where
  "sample_entries = [
     \<lparr>container_prefix = ''/data'', entry_url = ''sftp://box/data'', storage_type = None, entry_host = None, entry_unc = None\<rparr>,
     \<lparr>container_prefix = ''/data/media/'', entry_url = ''smb://nas/media/'', storage_type = None, entry_host = None, entry_unc = None\<rparr>]"

theorem resolve_path_best_witness:
  "case resolve_path ''/data/media/a b/c'' sample_entries of
     Some h \<Rightarrow> hint_url h = ''smb://nas/media/a b/c'' \<and> (\<exists>e \<in> set sample_entries. covers ''data/media/a b/c'' (entry_base e))
   | None \<Rightarrow> False"
proof -
  have "norm_local ''/data/media/a b/c'' = ''data/media/a b/c''" by code_simp
  moreover have "case resolve_path ''/data/media/a b/c'' sample_entries of
     Some h \<Rightarrow> hint_url h = ''smb://nas/media/a b/c'' | None \<Rightarrow> False" by code_simp
  ultimately show ?thesis using resolve_path_best [of "''/data/media/a b/c''" sample_entries]
    by (auto split: option.splits)
qed

section \<open>The cache of the mount map\<close>

text \<open>What loading the file afresh would give.\<close>

fun fresh :: "(string \<Rightarrow> ShareMapEntry list) \<Rightarrow> share_file \<Rightarrow> ShareMapEntry list" where
  "fresh parse (Present t (Text s)) = parse s"
| "fresh parse f = []"

fun serve :: "(string \<Rightarrow> ShareMapEntry list) \<Rightarrow> share_file list \<Rightarrow> share_cache \<Rightarrow> py_exn + ShareMapEntry list list" where
  "serve parse [] c = Inr []"
| "serve parse (f # fs) c = bind_res (get_entries parse f c) (\<lambda>(c', es).
     bind_res (serve parse fs c') (\<lambda>rest. Inr (es # rest)))"

text \<open>A history in which the modification time identifies the text, is never the sentinel, and the text decodes.\<close>

definition honest :: "(rat \<Rightarrow> file_text) \<Rightarrow> share_file \<Rightarrow> bool" where
  "honest content f = (case f of Absent \<Rightarrow> True | Present t x \<Rightarrow> t \<noteq> -1 \<and> x = content t \<and> x \<noteq> NotUtf8)"

definition cache_ok :: "(string \<Rightarrow> ShareMapEntry list) \<Rightarrow> (rat \<Rightarrow> file_text) \<Rightarrow> share_cache \<Rightarrow> bool" where
  "cache_ok parse content c = (case cached c of None \<Rightarrow> True
     | Some (t, es) \<Rightarrow> es = (if t = -1 then [] else fresh parse (Present t (content t))))"

lemma get_entries_fresh:
  assumes "honest content f" "cache_ok parse content c"
  shows "\<exists>c'. get_entries parse f c = Inr (c', fresh parse f) \<and> cache_ok parse content c'"
proof (cases f)
  case Absent
  then show ?thesis using assms by (auto simp: get_entries_def cache_ok_def split: option.splits)
next
  case (Present t x)
  with assms(1) have t: "t \<noteq> -1" "content t = x" "x \<noteq> NotUtf8" by (auto simp: honest_def)
  have "case get_entries parse f c of Inl _ \<Rightarrow> False | Inr (c', es) \<Rightarrow> es = fresh parse f \<and> cache_ok parse content c'"
    using assms(2) t Present by (cases x) (auto simp: get_entries_def cache_ok_def split: option.splits)
  then show ?thesis by (auto split: sum.splits)
qed

text \<open>
  The cache is transparent: over any history of the file in which its modification time
  identifies its text, and the text is valid UTF-8, every call returns what parsing the file at that
  moment would return, an absent or unreadable file giving the empty map.
\<close>

theorem share_cache_transparent:
  assumes "list_all (honest content) fs"
  shows "serve parse fs reset_cache = Inr (map (fresh parse) fs)"
proof -
  have "cache_ok parse content c \<Longrightarrow> serve parse fs c = Inr (map (fresh parse) fs)" for c
    using assms
  proof (induction fs arbitrary: c)
    case (Cons f fs)
    then obtain c' where "get_entries parse f c = Inr (c', fresh parse f)" "cache_ok parse content c'"
      using get_entries_fresh [of content f parse c] by auto
    with Cons show ?case by simp
  qed simp
  then show ?thesis by (simp add: cache_ok_def reset_cache_def)
qed

theorem share_cache_transparent_witness:
  "serve (\<lambda>s. if s = ''one'' then sample_entries else []) [Absent, Present 5 (Text ''one''), Present 5 (Text ''one''), Absent] reset_cache
     = Inr [[], sample_entries, sample_entries, []]"
  using share_cache_transparent [of "\<lambda>t. Text ''one''" "[Absent, Present 5 (Text ''one''), Present 5 (Text ''one''), Absent]"
      "\<lambda>s. if s = ''one'' then sample_entries else []"] by (simp add: honest_def)

text \<open>
  A map file that is not valid UTF-8 makes the loader raise on every call, although it
  promises never to raise: only operating-system errors are caught around the read.
\<close>

theorem share_map_raises_on_bytes:
  "get_entries parse (Present t NotUtf8) reset_cache = Inl UnicodeError
   \<and> serve parse (Present t NotUtf8 # fs) reset_cache = Inl UnicodeError"
  by (simp add: get_entries_def reset_cache_def)

section \<open>SMB locations in both renderings\<close>

datatype smb_host = Name string | V6 string

fun host_ok :: "smb_host \<Rightarrow> bool" where
  "host_ok (Name h) = (h \<noteq> [] \<and> list_all (\<lambda>c. c \<notin> {slash, bslash, CHR '':'', CHR ''@''}) h
     \<and> hd h \<noteq> CHR ''['' \<and> \<not> endswith (lower h) ipv6_suffix)"
| "host_ok (V6 a) = list_all (\<lambda>c. c \<notin> {slash, bslash, CHR '']'', CHR ''-'', CHR ''@''}) a"

definition seg_ok :: "string \<Rightarrow> bool" where
  "seg_ok s = (s \<noteq> [] \<and> slash \<notin> set s \<and> bslash \<notin> set s)"

fun url_name :: "smb_host \<Rightarrow> string" where
  "url_name (Name h) = h"
| "url_name (V6 a) = ''['' @ a @ '']''"

fun unc_name :: "smb_host \<Rightarrow> string" where
  "unc_name (Name h) = h"
| "unc_name (V6 a) = replace_char (CHR '':'') (CHR ''-'') a @ ipv6_suffix"

definition smb_url :: "smb_host \<Rightarrow> string list \<Rightarrow> string" where
  "smb_url h segs = ''smb://'' @ url_name h @ (if segs = [] then [] else slash # join [slash] segs)"

definition smb_unc :: "smb_host \<Rightarrow> string list \<Rightarrow> string" where
  "smb_unc h segs = [bslash, bslash] @ unc_name h @ (if segs = [] then [] else bslash # join [bslash] segs)"

lemma find_char_append: "c \<notin> set x \<Longrightarrow> find_char c (x @ s) = map_option ((+) (length x)) (find_char c s)"
  by (auto simp: find_char_def, subst takeWhile_append2, auto)

lemma find_char_None: "c \<notin> set x \<Longrightarrow> find_char c x = None"
  by (simp add: find_char_def)

lemma find_char_hd: "find_char c (c # s) = Some 0"
  by (simp add: find_char_def)

lemma lower_append: "lower (a @ b) = lower a @ lower b"
  by (simp add: lower_def)

lemma lower_smb: "lower ''smb://'' = ''smb://''"
  by code_simp

lemma lower_suffix: "lower ipv6_suffix = ipv6_suffix"
  by code_simp

lemma suffix_chars: "list_all (\<lambda>c. c \<noteq> slash \<and> c \<noteq> bslash) ipv6_suffix"
  by code_simp

lemma segments_join: "list_all seg_ok segs \<Longrightarrow> segments (join [slash] segs) = segs"
  by (cases "segs = []") (auto simp: segments_def split_on_join list_all_iff seg_ok_def filter_id_conv)

lemma join_Nil_iff: "list_all seg_ok segs \<Longrightarrow> join [c] segs = [] \<longleftrightarrow> segs = []"
proof (cases segs)
  case (Cons x xs)
  then show "list_all seg_ok segs \<Longrightarrow> join [c] segs = [] \<longleftrightarrow> segs = []" by (cases xs) (simp_all add: seg_ok_def)
qed simp

lemma to_slash_append: "to_slash (a @ b) = to_slash a @ to_slash b"
  by (simp add: to_slash_def)

lemma to_slash_bslash: "to_slash (bslash # s) = slash # to_slash s"
  by (simp add: to_slash_def)

lemma to_slash_id: "bslash \<notin> set s \<Longrightarrow> to_slash s = s"
  by (induction s) (auto simp: to_slash_def)

lemma to_slash_join: "list_all seg_ok segs \<Longrightarrow> to_slash (join [bslash] segs) = join [slash] segs"
proof (induction segs)
  case (Cons s segs)
  then show ?case by (cases segs) (auto simp: to_slash_id to_slash_append seg_ok_def, simp_all add: to_slash_def)
qed (simp add: to_slash_def)

lemma url_name_chars: "host_ok h \<Longrightarrow> slash \<notin> set (url_name h) \<and> CHR ''@'' \<notin> set (url_name h)"
  by (cases h) (auto simp: list_all_iff)

lemma unc_name_chars: "host_ok h \<Longrightarrow> slash \<notin> set (unc_name h) \<and> bslash \<notin> set (unc_name h) \<and> unc_name h \<noteq> []"
  using suffix_chars by (cases h) (auto simp: list_all_iff replace_char_def ipv6_suffix_def)

lemma unc_host_url_name:
  assumes "host_ok h"
  shows "unc_host (url_name h) = Some (unc_name h)"
proof (cases h)
  case (Name x)
  then show ?thesis using assms by (cases x) (auto simp: unc_host_def startswith_def list_all_iff)
next
  case (V6 a)
  then have "CHR '']'' \<notin> set (CHR ''['' # a)" using assms by (auto simp: list_all_iff)
  then have "find_char (CHR '']'') ((CHR ''['' # a) @ '']'') = Some (length a + 1)"
    by (subst find_char_append) (simp_all add: find_char_hd)
  then show ?thesis by (simp add: V6 unc_host_def py_simps ipv6_suffix_def)
qed

lemma strip_userinfo_clean:
  assumes "CHR ''@'' \<notin> set h" "slash \<notin> set h" "t = [] \<or> hd t = slash"
  shows "strip_userinfo (h @ t) = h @ t"
  using assms by (cases t) (auto simp: strip_userinfo_def find_char_append find_char_hd find_char_None split: option.splits)

lemma derive_unc_core:
  assumes "host_ok h" "list_all seg_ok segs"
    and "strip_userinfo rest = url_name h @ (if segs = [] then [] else slash # join [slash] segs)"
  shows "derive_unc_from_url (''smb://'' @ rest) = Some (smb_unc h segs)"
proof -
  let ?t = "if segs = [] then [] else slash # join [slash] segs"
  have sl: "find_char slash (url_name h @ ?t) = (if segs = [] then None else Some (length (url_name h)))"
    using url_name_chars [OF assms(1)] by (auto simp: find_char_append find_char_hd find_char_None)
  have d: "drop (length ''smb://'') (''smb://'' @ rest) = rest" by simp
  have s: "startswith (lower (''smb://'' @ rest)) ''smb://''" by (simp only: lower_append lower_smb startswith_append)
  show ?thesis
    unfolding derive_unc_from_url_def d assms(3) Let_def sl
    using s unc_host_url_name [OF assms(1)] unc_name_chars [OF assms(1)] assms(2)
    by (auto simp: smb_unc_def segments_join join_Nil_iff)
qed

lemma derive_unc_smb:
  assumes "host_ok h" "list_all seg_ok segs"
  shows "derive_unc_from_url (smb_url h segs) = Some (smb_unc h segs)"
  unfolding smb_url_def using url_name_chars [OF assms(1)]
  by (intro derive_unc_core assms strip_userinfo_clean) auto

lemma segments_Cons: "seg_ok x \<Longrightarrow> segments (x @ slash # t) = x # segments t"
  by (simp add: segments_def split_on_append_sep seg_ok_def)

lemma segments_single: "seg_ok x \<Longrightarrow> segments x = [x]"
  by (simp add: segments_def split_on_no_sep seg_ok_def)

lemma endswith_append: "endswith (a @ b) b"
  by (simp add: endswith_def)

lemma replace_char_back: "b \<notin> set s \<Longrightarrow> replace_char b a (replace_char a b s) = s"
  by (induction s) (auto simp: replace_char_def)

lemma url_host_restored:
  assumes "host_ok h"
  shows "(if endswith (lower (unc_name h)) ipv6_suffix
     then ''['' @ replace_char (CHR ''-'') (CHR '':'') (take (length (unc_name h) - length ipv6_suffix) (unc_name h)) @ '']''
     else unc_name h) = url_name h"
proof (cases h)
  case (V6 a)
  have "replace_char (CHR ''-'') (CHR '':'') (replace_char (CHR '':'') (CHR ''-'') a) = a"
    using assms unfolding V6 by (intro replace_char_back) (auto simp: list_all_iff)
  moreover have "endswith (lower (unc_name h)) ipv6_suffix" by (simp add: V6 lower_append lower_suffix endswith_append)
  ultimately show ?thesis by (simp add: V6)
qed (use assms in simp)

lemma derive_url_smb:
  assumes "host_ok h" "list_all seg_ok segs"
  shows "derive_url_from_unc (smb_unc h segs) = Some (smb_url h segs)"
proof -
  have u: "seg_ok (unc_name h)" using unc_name_chars [OF assms(1)] by (simp add: seg_ok_def)
  have "to_slash (drop 2 (smb_unc h segs)) = unc_name h @ (if segs = [] then [] else slash # join [slash] segs)"
  proof (cases "segs = []")
    case False
    have "to_slash (bslash # join [bslash] segs) = slash # join [slash] segs"
      by (simp only: to_slash_bslash to_slash_join [OF assms(2)])
    moreover have "to_slash (unc_name h) = unc_name h" using u by (intro to_slash_id) (simp add: seg_ok_def)
    ultimately show ?thesis using False by (simp add: smb_unc_def to_slash_append)
  qed (use u in \<open>simp add: smb_unc_def to_slash_id seg_ok_def\<close>)
  then have "segments (to_slash (drop 2 (smb_unc h segs))) = unc_name h # segs"
    using u assms(2) by (simp add: segments_Cons segments_single segments_join)
  moreover have "startswith (smb_unc h segs) [bslash, bslash]" "smb_unc h segs \<noteq> []" by (simp_all add: smb_unc_def startswith_def)
  ultimately show ?thesis unfolding derive_url_from_unc_def
    using url_host_restored [OF assms(1)] assms(2)
    by (simp add: Let_def smb_url_def join_Nil_iff del: append.simps)
qed

text \<open>
  For every SMB location (a host name or an IPv6 literal, and path segments without
  separators) the URL and the UNC rendering convert into each other, and credentials that contain no
  at-sign are dropped on the way to the UNC form.
\<close>

theorem smb_renderings_roundtrip:
  assumes "host_ok h" and "list_all seg_ok segs"
  shows "derive_unc_from_url (smb_url h segs) = Some (smb_unc h segs)
    \<and> derive_url_from_unc (smb_unc h segs) = Some (smb_url h segs)
    \<and> (CHR ''@'' \<notin> set user \<and> slash \<notin> set user \<longrightarrow>
         derive_unc_from_url (''smb://'' @ user @ CHR ''@'' # drop 6 (smb_url h segs)) = Some (smb_unc h segs))"
proof (intro conjI impI)
  assume u: "CHR ''@'' \<notin> set user \<and> slash \<notin> set user"
  let ?t = "drop 6 (smb_url h segs)"
  have t: "?t = url_name h @ (if segs = [] then [] else slash # join [slash] segs)" by (simp add: smb_url_def)
  have "find_char (CHR ''@'') (user @ CHR ''@'' # ?t) = Some (length user)"
    using u by (simp add: find_char_append find_char_hd)
  moreover have "find_char slash (user @ CHR ''@'' # ?t) = map_option (\<lambda>k. length user + k) (find_char slash (CHR ''@'' # ?t))"
    using u by (simp add: find_char_append)
  moreover have "find_char slash (CHR ''@'' # ?t) \<noteq> Some 0" by (simp add: find_char_def)
  ultimately have "strip_userinfo (user @ CHR ''@'' # ?t) = ?t"
    by (auto simp: strip_userinfo_def split: option.splits)
  with t show "derive_unc_from_url (''smb://'' @ user @ CHR ''@'' # ?t) = Some (smb_unc h segs)"
    by (intro derive_unc_core assms) simp
qed (simp_all add: derive_unc_smb derive_url_smb assms)

theorem smb_renderings_roundtrip_witness:
  "derive_unc_from_url ''smb://bob:pw@nas/media/a b'' = Some (smb_unc (Name ''nas'') [''media'', ''a b''])
   \<and> derive_url_from_unc (smb_unc (V6 ''fe80::1'') [''media'']) = Some ''smb://[fe80::1]/media''"
proof -
  have ok: "host_ok (Name ''nas'')" "host_ok (V6 ''fe80::1'')" "list_all seg_ok [''media'', ''a b'']" "list_all seg_ok [''media'']"
    by code_simp+
  have lit: "''smb://'' @ ''bob:pw'' @ CHR ''@'' # drop 6 (smb_url (Name ''nas'') [''media'', ''a b'']) = ''smb://bob:pw@nas/media/a b''"
    "smb_url (V6 ''fe80::1'') [''media''] = ''smb://[fe80::1]/media''" by code_simp+
  show ?thesis
    using smb_renderings_roundtrip [OF ok(1,3), of "''bob:pw''"] smb_renderings_roundtrip [OF ok(2,4), of "[]"]
    unfolding lit by simp
qed

text \<open>
  Credentials are cut at the first at-sign: when the password itself contains one, its
  tail is kept as part of the host of the UNC path that is displayed.
\<close>

theorem unc_leaks_password_tail:
  "derive_unc_from_url ''smb://bob:s@cret@nas/media'' = Some ([bslash, bslash] @ ''cret@nas'' @ bslash # ''media'')"
  by code_simp

end
