(* ===== verification/Transfers.thy ===== *)
theory Transfers
  imports ShareMap
begin

text \<open>
  The retrieve lifecycle and the staging path of \<open>backend/filearr/transfers.py\<close>, with the parts of
  Python's \<open>uuid.UUID\<close> and \<open>int(s, 16)\<close> they use.
\<close>

section \<open>The transfer state machine\<close>

datatype TransferState = t_pending | t_uploading | t_staged | t_downloaded | t_expired | t_failed

datatype TransferEvent = ev_start_upload | ev_staged | ev_download | ev_expire | ev_fail

definition TRANSITIONS :: "((TransferState \<times> TransferEvent) \<times> TransferState) list" where
  "TRANSITIONS = [
     ((t_pending, ev_start_upload), t_uploading),
     ((t_pending, ev_expire), t_expired),
     ((t_pending, ev_fail), t_failed),
     ((t_uploading, ev_staged), t_staged),
     ((t_uploading, ev_expire), t_expired),
     ((t_uploading, ev_fail), t_failed),
     ((t_staged, ev_download), t_downloaded),
     ((t_staged, ev_expire), t_expired),
     ((t_staged, ev_fail), t_failed)]"

text \<open>\<open>None\<close> is the \<open>ValueError\<close> of a pair that is not in the table.\<close>

definition transfer_state_machine :: "TransferState \<Rightarrow> TransferEvent \<Rightarrow> TransferState option" where
  "transfer_state_machine current event = map_of TRANSITIONS (current, event)"

section \<open>UUIDs\<close>

definition hex_digit :: "nat \<Rightarrow> char" where
  "hex_digit d = ''0123456789abcdef'' ! d"

fun hex_pad :: "nat \<Rightarrow> nat \<Rightarrow> string" where
  "hex_pad 0 n = []"
| "hex_pad (Suc k) n = hex_pad k (n div 16) @ [hex_digit (n mod 16)]"

text \<open>\<open>str(uuid)\<close> of the 128-bit number: 8-4-4-4-12 hexadecimal digits.\<close>

definition dashed :: "string \<Rightarrow> string" where
  "dashed h = take 8 h @ ''-'' @ take 4 (drop 8 h) @ ''-'' @ take 4 (drop 12 h) @ ''-'' @ take 4 (drop 16 h) @ ''-'' @ drop 20 h"

definition uuid_str :: "nat \<Rightarrow> string" where
  "uuid_str n = dashed (hex_pad 32 n)"

definition hex_value :: "char \<Rightarrow> nat option" where
  "hex_value c = (let n = cp c in
     if 48 \<le> n \<and> n \<le> 57 then Some (n - 48)
     else if 97 \<le> n \<and> n \<le> 102 then Some (n - 87)
     else if 65 \<le> n \<and> n \<le> 70 then Some (n - 55) else None)"

text \<open>Digits with single underscores between them, as \<open>int\<close> reads them.\<close>

fun hex_run :: "nat \<Rightarrow> bool \<Rightarrow> string \<Rightarrow> nat option" where
  "hex_run acc us [] = (if us then None else Some acc)"
| "hex_run acc us (c # s) =
     (if c = CHR ''_'' then (if us then None else hex_run acc True s)
      else case hex_value c of None \<Rightarrow> None | Some d \<Rightarrow> hex_run (16 * acc + d) False s)"

definition int_base16 :: "string \<Rightarrow> py_exn + nat" where
  "int_base16 s =
     (let t = strip is_space s;
          t = (if startswith t ''+'' then tl t else t);
          t = (if startswith t ''0x'' \<or> startswith t ''0X''
               then (let u = drop 2 t in if startswith u ''_'' then tl u else u) else t)
      in if t = [] \<or> hd t = CHR ''_'' then Inl ValueError
         else case hex_run 0 False t of None \<Rightarrow> Inl ValueError | Some n \<Rightarrow> Inr n)"

definition remove_str :: "string \<Rightarrow> string \<Rightarrow> string" where
  "remove_str p s = concat (split_str p s)"

text \<open>\<open>uuid.UUID(s)\<close>; the dashes are gone before \<open>int\<close>, so a minus sign cannot reach it.\<close>

definition uuid_parse :: "string \<Rightarrow> py_exn + nat" where
  "uuid_parse s =
     (let h = remove_str ''uuid:'' (remove_str ''urn:'' s);
          h = filter (\<lambda>c. c \<noteq> CHR ''-'') (strip (\<lambda>c. c = CHR ''{'' \<or> c = CHR ''}'') h)
      in if length h \<noteq> 32 then Inl ValueError
         else bind_res (int_base16 h) (\<lambda>n. if n < 2 ^ 128 then Inr n else Inl ValueError))"

section \<open>The staging path\<close>

definition STAGING_ROOT :: string where "STAGING_ROOT = ''/config/staging''"

definition staging_path_for :: "string \<Rightarrow> py_exn + string" where
  "staging_path_for transfer_id =
     bind_res (uuid_parse transfer_id) (\<lambda>n. Inr (STAGING_ROOT @ ''/'' @ uuid_str n @ ''.bin''))"

section \<open>The lifecycle\<close>

definition transfer_terminal :: "TransferState \<Rightarrow> bool" where
  "transfer_terminal s = (s \<in> {t_downloaded, t_expired, t_failed})"

fun transfer_rank :: "TransferState \<Rightarrow> nat" where
  "transfer_rank t_pending = 0"
| "transfer_rank t_uploading = 1"
| "transfer_rank t_staged = 2"
| "transfer_rank _ = 3"

lemma transfer_steps:
  "transfer_state_machine s e = Some t \<longleftrightarrow>
     (s = t_pending \<and> e = ev_start_upload \<and> t = t_uploading) \<or> (s = t_uploading \<and> e = ev_staged \<and> t = t_staged)
     \<or> (s = t_staged \<and> e = ev_download \<and> t = t_downloaded)
     \<or> \<not> transfer_terminal s \<and> (e = ev_expire \<and> t = t_expired \<or> e = ev_fail \<and> t = t_failed)"
  by (cases s; cases e; auto simp: transfer_state_machine_def TRANSITIONS_def transfer_terminal_def)

interpretation transfer: ranked_lifecycle transfer_state_machine transfer_terminal transfer_rank 3
proof unfold_locales
  show "transfer_terminal s \<Longrightarrow> transfer_state_machine s e = None" for s e
    using transfer_steps [of s e] by (cases "transfer_state_machine s e") (auto simp: transfer_terminal_def)
  show "\<not> transfer_terminal s \<Longrightarrow> \<exists>e t. transfer_state_machine s e = Some t \<and> transfer_terminal t" for s
    by (auto simp: transfer_steps transfer_terminal_def)
  show "transfer_state_machine s e = Some t \<Longrightarrow> transfer_rank s < transfer_rank t" for s e t
    by (cases s) (auto simp: transfer_steps transfer_terminal_def)
  show "transfer_rank s \<le> 3" for s by (cases s) simp_all
qed

text \<open>
  Property C40. Every sequence of transfer events that the state machine accepts has at most three
  events; a transfer that reached a terminal state accepts nothing more, any other can still finish,
  and a downloaded transfer was uploaded, staged and downloaded in that order.
\<close>

theorem transfer_lifecycle_bounded:
  assumes "run_steps transfer_state_machine t_pending es = Some t"
  shows "length es \<le> 3 \<and> (t = t_downloaded \<longrightarrow> es = [ev_start_upload, ev_staged, ev_download])
    \<and> (transfer_terminal t \<longleftrightarrow> (\<forall>e. transfer_state_machine t e = None))
    \<and> (\<exists>fs u. run_steps transfer_state_machine t fs = Some u \<and> transfer_terminal u)"
proof -
  have "length es \<le> 3" using transfer.run_bounded [OF assms] by simp
  moreover have "es = [ev_start_upload, ev_staged, ev_download]" if d: "t = t_downloaded"
  proof -
    have len: "length es = 3 \<or> length es < 3" using \<open>length es \<le> 3\<close> by auto
    from assms d show ?thesis
      by (cases es; cases "tl es"; cases "tl (tl es)"; cases "tl (tl (tl es))")
        (auto split: option.splits simp: transfer_steps transfer_terminal_def)
  qed
  ultimately show ?thesis using transfer.stuck_iff_terminal transfer.can_always_finish by blast
qed

theorem transfer_lifecycle_bounded_witness:
  "run_steps transfer_state_machine t_pending [ev_start_upload, ev_staged, ev_download] = Some t_downloaded
   \<and> (\<forall>e. transfer_state_machine t_downloaded e = None)"
proof -
  have r: "run_steps transfer_state_machine t_pending [ev_start_upload, ev_staged, ev_download] = Some t_downloaded" by code_simp
  with transfer_lifecycle_bounded [OF r] show ?thesis by (simp add: transfer_terminal_def)
qed

section \<open>Staging paths are confined\<close>

definition hex_char :: "char \<Rightarrow> bool" where
  "hex_char c = (c \<in> set ''0123456789abcdef'')"

lemma hex_digit_char: "d < 16 \<Longrightarrow> hex_char (hex_digit d)"
  unfolding hex_char_def hex_digit_def by (intro nth_mem) simp

lemma length_hex_pad [simp]: "length (hex_pad k n) = k"
  by (induction k arbitrary: n) auto

lemma hex_pad_chars: "list_all hex_char (hex_pad k n)"
  by (induction k arbitrary: n) (auto simp: hex_digit_char)

lemma dashed_parts: "take 8 h @ take 4 (drop 8 h) @ take 4 (drop 12 h) @ take 4 (drop 16 h) @ drop 20 h = h"
proof -
  have "take 4 (drop 16 h) @ drop 20 h = drop 16 h" "take 4 (drop 12 h) @ drop 16 h = drop 12 h"
    "take 4 (drop 8 h) @ drop 12 h = drop 8 h"
    using append_take_drop_id [of 4 "drop 16 h"] append_take_drop_id [of 4 "drop 12 h"] append_take_drop_id [of 4 "drop 8 h"]
    by simp_all
  then show ?thesis by simp
qed

lemma dashed_set: "set (dashed h) = insert (CHR ''-'') (set h)"
proof -
  have "set h = set (take 8 h) \<union> set (take 4 (drop 8 h)) \<union> set (take 4 (drop 12 h)) \<union> set (take 4 (drop 16 h)) \<union> set (drop 20 h)"
    by (subst dashed_parts [symmetric]) (simp only: set_append Un_assoc)
  then show ?thesis by (auto simp: dashed_def)
qed

lemma filter_dashed: "CHR ''-'' \<notin> set h \<Longrightarrow> filter (\<lambda>c. c \<noteq> CHR ''-'') (dashed h) = h"
proof -
  assume "CHR ''-'' \<notin> set h"
  then have f: "filter (\<lambda>c. c \<noteq> CHR ''-'') h = h" by (auto simp: filter_id_conv)
  have "filter (\<lambda>c. c \<noteq> CHR ''-'') (dashed h) = filter (\<lambda>c. c \<noteq> CHR ''-'')
      (take 8 h @ take 4 (drop 8 h) @ take 4 (drop 12 h) @ take 4 (drop 16 h) @ drop 20 h)" by (simp add: dashed_def)
  then show ?thesis by (simp only: dashed_parts f)
qed

lemma hex_pad_in: "c \<in> set (hex_pad k n) \<Longrightarrow> hex_char c"
  using hex_pad_chars by (auto simp: list_all_iff)

lemma uuid_str_shape: "length (uuid_str n) = 36" "list_all (\<lambda>c. hex_char c \<or> c = CHR ''-'') (uuid_str n)"
  unfolding uuid_str_def list_all_iff dashed_set by (auto simp: dashed_def dest: hex_pad_in)

text \<open>
  Whatever string is given as a transfer id, the staging path is either refused with a
  \<open>ValueError\<close> or lies directly under the staging root, with a name made only of hexadecimal digits and
  dashes: no separator, no dot-dot and no other component can escape.
\<close>

theorem staging_path_confined:
  "case staging_path_for transfer_id of
     Inl e \<Rightarrow> e = ValueError
   | Inr p \<Rightarrow> \<exists>name. p = ''/config/staging/'' @ name @ ''.bin'' \<and> length name = 36
       \<and> list_all (\<lambda>c. c \<in> set ''0123456789abcdef-'') name"
proof (cases "staging_path_for transfer_id")
  case (Inl e)
  then have "e = ValueError"
    by (auto simp: staging_path_for_def uuid_parse_def int_base16_def Let_def bind_res_Inl split: if_splits option.splits)
  with Inl show ?thesis by simp
next
  case (Inr p)
  then obtain n where "p = STAGING_ROOT @ ''/'' @ uuid_str n @ ''.bin''" by (auto simp: staging_path_for_def bind_res_Inr)
  moreover have "list_all (\<lambda>c. c \<in> set ''0123456789abcdef-'') (uuid_str n)"
    using uuid_str_shape(2) [of n] by (auto simp: list_all_iff hex_char_def)
  ultimately show ?thesis using Inr uuid_str_shape(1) [of n] by (auto simp: STAGING_ROOT_def)
qed

section \<open>UUIDs round trip\<close>

lemma hex_value_digit: "d < 16 \<Longrightarrow> hex_value (hex_digit d) = Some d"
proof -
  have "list_all (\<lambda>d. hex_value (hex_digit d) = Some d) [0..<16]" by code_simp
  then show "d < 16 \<Longrightarrow> hex_value (hex_digit d) = Some d" by (simp only: list_all_iff set_upt) simp
qed

lemma hex_char_plain:
  assumes "hex_char c"
  shows "c \<noteq> CHR ''_'' \<and> c \<noteq> CHR ''-'' \<and> c \<noteq> CHR ''+'' \<and> c \<noteq> CHR ''u'' \<and> c \<noteq> CHR ''x'' \<and> c \<noteq> CHR ''X''
    \<and> c \<noteq> CHR ''{'' \<and> c \<noteq> CHR ''}'' \<and> \<not> is_space c"
proof -
  have "list_all (\<lambda>c. c \<noteq> CHR ''_'' \<and> c \<noteq> CHR ''-'' \<and> c \<noteq> CHR ''+'' \<and> c \<noteq> CHR ''u'' \<and> c \<noteq> CHR ''x'' \<and> c \<noteq> CHR ''X''
    \<and> c \<noteq> CHR ''{'' \<and> c \<noteq> CHR ''}'' \<and> \<not> is_space c) ''0123456789abcdef''" by code_simp
  with assms show ?thesis unfolding hex_char_def list_all_iff by blast
qed

lemma hex_run_append:
  "list_all hex_char s \<Longrightarrow> hex_run acc False s = Some v \<Longrightarrow> hex_run acc False (s @ t) = hex_run v False t"
proof (induction s arbitrary: acc)
  case (Cons c s)
  then show ?case using hex_char_plain [of c] by (auto split: option.splits if_splits)
qed simp

lemma hex_run_pad: "hex_run 0 False (hex_pad k n) = Some (n mod 16 ^ k)"
proof (induction k arbitrary: n)
  case (Suc k)
  have "hex_digit (n mod 16) \<noteq> CHR ''_''" using hex_char_plain [OF hex_digit_char, of "n mod 16"] by simp
  then have "hex_run 0 False (hex_pad (Suc k) n) = Some (16 * (n div 16 mod 16 ^ k) + n mod 16)"
    using hex_run_append [OF hex_pad_chars Suc.IH [of "n div 16"]] by (simp add: hex_value_digit)
  also have "16 * (n div 16 mod 16 ^ k) + n mod 16 = n mod 16 ^ Suc k" by (simp add: mod_mult2_eq)
  finally show ?case .
qed simp

lemma split_str_absent: "CHR ''u'' \<notin> set s \<Longrightarrow> split_str (CHR ''u'' # p) s = [s]"
  by (induction s) (auto simp: py_simps)

lemma strip_id: "(\<And>c. c \<in> set s \<Longrightarrow> \<not> P c) \<Longrightarrow> strip P s = s"
proof -
  assume a: "\<And>c. c \<in> set s \<Longrightarrow> \<not> P c"
  have "dropWhile P t = t" if "set t \<subseteq> set s" for t using a that by (cases t) auto
  from this [of s] this [of "rev s"] show ?thesis by (simp add: strip_def lstrip_def rstrip_def)
qed

lemma int_base16_pad: "0 < k \<Longrightarrow> int_base16 (hex_pad k n) = Inr (n mod 16 ^ k)"
proof -
  assume k: "0 < k"
  let ?h = "hex_pad k n"
  have ne: "?h \<noteq> []" using k by (metis length_0_conv length_hex_pad less_irrefl)
  have c: "c \<noteq> CHR ''_'' \<and> c \<noteq> CHR ''+'' \<and> c \<noteq> CHR ''x'' \<and> c \<noteq> CHR ''X'' \<and> \<not> is_space c" if "c \<in> set ?h" for c
    using hex_char_plain [OF hex_pad_in [OF that]] by simp
  have "\<not> startswith ?h ''+''" using ne c by (cases ?h) (auto simp: py_simps)
  moreover have "\<not> startswith ?h ''0x''" "\<not> startswith ?h ''0X''"
    using c [of "CHR ''x''"] c [of "CHR ''X''"] by (auto simp: startswith_iff)
  moreover have "strip is_space ?h = ?h" using c by (intro strip_id) blast
  moreover have "hd ?h \<noteq> CHR ''_''" using ne c by auto
  ultimately show ?thesis using ne by (simp add: int_base16_def Let_def hex_run_pad)
qed

lemma uuid_parse_str: "n < 2 ^ 128 \<Longrightarrow> uuid_parse (uuid_str n) = Inr n"
proof -
  assume n: "n < 2 ^ 128"
  let ?s = "uuid_str n"
  have c: "c \<noteq> CHR ''u'' \<and> c \<noteq> CHR ''{'' \<and> c \<noteq> CHR ''}''" if "c \<in> set ?s" for c
    using uuid_str_shape(2) [of n] that hex_char_plain [of c] by (auto simp: list_all_iff)
  then have u: "CHR ''u'' \<notin> set ?s" by blast
  have r: "remove_str (CHR ''u'' # p) ?s = ?s" for p by (simp add: remove_str_def split_str_absent [OF u])
  have st: "strip (\<lambda>c. c = CHR ''{'' \<or> c = CHR ''}'') ?s = ?s" using c by (intro strip_id) blast
  have f: "filter (\<lambda>c. c \<noteq> CHR ''-'') ?s = hex_pad 32 n"
    unfolding uuid_str_def using hex_char_plain hex_pad_in by (intro filter_dashed) blast
  have "(16 :: nat) ^ 32 = 2 ^ 128" by simp
  with n have "int_base16 (hex_pad 32 n) = Inr n" by (simp add: int_base16_pad)
  with n show ?thesis unfolding uuid_parse_def Let_def r st f by simp
qed

text \<open>
  Parsing the canonical text of a UUID gives it back, so two different transfers never
  share a staging file.
\<close>

theorem staging_path_injective:
  assumes "m < 2 ^ 128" and "n < 2 ^ 128"
  shows "uuid_parse (uuid_str m) = Inr m \<and> (staging_path_for (uuid_str m) = staging_path_for (uuid_str n) \<longleftrightarrow> m = n)"
proof -
  note p = uuid_parse_str [OF assms(1)] uuid_parse_str [OF assms(2)]
  have "uuid_str m = uuid_str n \<Longrightarrow> m = n" using p by (metis Inr_inject)
  then show ?thesis by (auto simp: staging_path_for_def p)
qed

theorem staging_path_injective_witness:
  "uuid_parse (uuid_str 77) = Inr 77 \<and> staging_path_for (uuid_str 77) \<noteq> staging_path_for (uuid_str 78)"
  using staging_path_injective [of 77 78] by simp

end
