(* ===== verification/AgentPlane.thy ===== *)
theory AgentPlane
  imports Transfers
begin

text \<open>
  Authentication of agent-plane requests (\<open>backend/filearr/api/agent_commands.py\<close>,
  \<open>_authenticate_agent\<close> and its bearer and mTLS halves) over the columns of the agents table it reads
  and writes. Agent ids are the 128-bit numbers of their UUIDs.
\<close>

section \<open>State\<close>

datatype http_error = HTTPException nat

datatype auth_mode = fingerprint_mode | mtls_header_mode | both_mode

record FleetAgent =
  fa_id :: nat
  cert_fingerprint :: "string option"
  revoked_at :: "int option"
  fa_last_seen_at :: "int option"
  agent_version :: "string option"
  capabilities :: "dict option"
  capabilities_at :: "int option"
  health :: "dict option"
  health_at :: "int option"
  last_auth_mode :: "string option"

record agent_request =
  hdr_authorization :: "string option"
  hdr_proxy_auth :: "string option"
  hdr_agent_san :: "string option"
  hdr_agent_fp :: "string option"

definition or_empty :: "string option \<Rightarrow> string" where
  "or_empty h = (case h of None \<Rightarrow> [] | Some s \<Rightarrow> s)"

definition find_agent :: "FleetAgent list \<Rightarrow> nat \<Rightarrow> FleetAgent option" where
  "find_agent flt k = find (\<lambda>a. fa_id a = k) flt"

definition put_agent :: "FleetAgent \<Rightarrow> FleetAgent list \<Rightarrow> FleetAgent list" where
  "put_agent a flt = map (\<lambda>x. if fa_id x = fa_id a then a else x) flt"

section \<open>Authentication of the agent plane\<close>

text \<open>
  An authenticated request yields the agents table as committed so far and the agent's row with the
  changes that ride the caller's commit. A refused request commits nothing.
\<close>

definition bearer_token :: "agent_request \<Rightarrow> string" where
  "bearer_token rq = (let auth = or_empty (hdr_authorization rq)
     in if lower (take 7 auth) = ''bearer '' then strip is_space (drop 7 auth) else [])"

definition authenticate_agent_bearer :: "FleetAgent list \<Rightarrow> nat \<Rightarrow> agent_request \<Rightarrow> http_error + (FleetAgent list \<times> FleetAgent)" where
  "authenticate_agent_bearer flt k rq =
     (let token = bearer_token rq
      in if token = [] then Inl (HTTPException 401)
         else case find_agent flt k of
                None \<Rightarrow> Inl (HTTPException 404)
              | Some a \<Rightarrow>
                  if revoked_at a \<noteq> None then Inl (HTTPException 403)
                  else if or_empty (cert_fingerprint a) = [] then Inl (HTTPException 403)
                  else if token \<noteq> or_empty (cert_fingerprint a) then Inl (HTTPException 401)
                  else Inr (flt, a\<lparr>last_auth_mode := Some ''bearer''\<rparr>))"

definition authenticate_agent_mtls :: "string option \<Rightarrow> FleetAgent list \<Rightarrow> nat \<Rightarrow> agent_request
    \<Rightarrow> http_error + (FleetAgent list \<times> FleetAgent)" where
  "authenticate_agent_mtls proxy_shared_secret flt k rq =
     (let secret = or_empty proxy_shared_secret; provided = or_empty (hdr_proxy_auth rq)
      in if secret = [] \<or> provided = [] \<or> provided \<noteq> secret then Inl (HTTPException 401)
         else let san = or_empty (hdr_agent_san rq)
              in if san = [] \<or> san \<noteq> uuid_str k then Inl (HTTPException 403)
                 else case find_agent flt k of
                        None \<Rightarrow> Inl (HTTPException 404)
                      | Some a \<Rightarrow>
                          if revoked_at a \<noteq> None then Inl (HTTPException 403)
                          else let fp = or_empty (hdr_agent_fp rq); bound = or_empty (cert_fingerprint a)
                               in if bound \<noteq> [] \<and> fp \<noteq> [] \<and> fp \<noteq> bound
                                  then let a' = a\<lparr>cert_fingerprint := Some fp\<rparr>
                                       in Inr (put_agent a' flt, a'\<lparr>last_auth_mode := Some ''mtls''\<rparr>)
                                  else Inr (flt, a\<lparr>last_auth_mode := Some ''mtls''\<rparr>))"

definition authenticate_agent :: "auth_mode \<Rightarrow> string option \<Rightarrow> FleetAgent list \<Rightarrow> nat \<Rightarrow> agent_request
    \<Rightarrow> http_error + (FleetAgent list \<times> FleetAgent)" where
  "authenticate_agent mode proxy_shared_secret flt k rq =
     (if mode = mtls_header_mode \<or> (mode = both_mode \<and> hdr_proxy_auth rq \<noteq> None)
      then authenticate_agent_mtls proxy_shared_secret flt k rq
      else authenticate_agent_bearer flt k rq)"

section \<open>What an authenticated request proves\<close>

lemma find_agent_Some: "find_agent flt k = Some a \<Longrightarrow> a \<in> set flt \<and> fa_id a = k"
  by (auto simp: find_agent_def dest: find_SomeD)

text \<open>
  Property C29. A request to the agent plane is authenticated only for an agent that exists and is not
  revoked, and only if it carries that agent's bound, non-empty fingerprint as a bearer token, or
  comes through the proxy with the configured, non-empty secret and a certificate whose name is the
  agent's id. In mTLS-only mode the bearer never suffices. No other agent's row changes.
\<close>

theorem agent_authentication_sound:
  assumes "authenticate_agent mode secret flt k rq = Inr (flt', a')"
  shows "\<exists>a. a \<in> set flt \<and> fa_id a = k \<and> fa_id a' = k \<and> revoked_at a = None
    \<and> ((mode \<noteq> mtls_header_mode \<and> cert_fingerprint a \<noteq> Some [] \<and> cert_fingerprint a = Some (bearer_token rq) \<and> flt' = flt)
       \<or> (mode \<noteq> fingerprint_mode \<and> secret \<noteq> Some [] \<and> secret \<noteq> None \<and> hdr_proxy_auth rq = secret
          \<and> hdr_agent_san rq = Some (uuid_str k)))
    \<and> filter (\<lambda>x. fa_id x \<noteq> k) flt' = filter (\<lambda>x. fa_id x \<noteq> k) flt"
proof (cases "mode = mtls_header_mode \<or> (mode = both_mode \<and> hdr_proxy_auth rq \<noteq> None)")
  case True
  then have r: "authenticate_agent_mtls secret flt k rq = Inr (flt', a')" using assms by (simp add: authenticate_agent_def)
  then obtain a where a: "find_agent flt k = Some a"
    by (auto simp: authenticate_agent_mtls_def Let_def split: if_splits option.splits)
  have h: "secret \<noteq> Some [] \<and> secret \<noteq> None \<and> hdr_proxy_auth rq = secret \<and> hdr_agent_san rq = Some (uuid_str k)
      \<and> revoked_at a = None \<and> fa_id a' = fa_id a"
    using r a by (auto simp: authenticate_agent_mtls_def Let_def or_empty_def split: if_splits option.splits)
  have "filter (\<lambda>x. fa_id x \<noteq> k) (put_agent b xs) = filter (\<lambda>x. fa_id x \<noteq> k) xs" if "fa_id b = k" for b xs
    using that by (induction xs) (auto simp: put_agent_def)
  then have "filter (\<lambda>x. fa_id x \<noteq> k) flt' = filter (\<lambda>x. fa_id x \<noteq> k) flt"
    using r a find_agent_Some [OF a] by (auto simp: authenticate_agent_mtls_def Let_def split: if_splits option.splits)
  with h True find_agent_Some [OF a] show ?thesis by (intro exI [of _ a]) auto
next
  case False
  then have r: "authenticate_agent_bearer flt k rq = Inr (flt', a')" using assms unfolding authenticate_agent_def by (simp only: if_False)
  then obtain a where a: "find_agent flt k = Some a" "revoked_at a = None" "flt' = flt" "fa_id a' = fa_id a"
    "or_empty (cert_fingerprint a) \<noteq> []" "bearer_token rq = or_empty (cert_fingerprint a)"
    by (auto simp: authenticate_agent_bearer_def Let_def split: if_splits option.splits)
  with False find_agent_Some [OF a(1)] show ?thesis
    by (intro exI [of _ a]) (auto simp: or_empty_def split: option.splits)
qed

definition sample_fleet :: "FleetAgent list" where
  "sample_fleet = [\<lparr>fa_id = 7, cert_fingerprint = Some ''ab12'', revoked_at = None, fa_last_seen_at = None, agent_version = None,
     capabilities = None, capabilities_at = None, health = None, health_at = None, last_auth_mode = None\<rparr>]"

definition bearer_request :: "string \<Rightarrow> agent_request" where
  "bearer_request t = \<lparr>hdr_authorization = Some (''Bearer '' @ t), hdr_proxy_auth = None, hdr_agent_san = None, hdr_agent_fp = None\<rparr>"

theorem agent_authentication_sound_witness:
  "\<exists>flt' a'. authenticate_agent both_mode None sample_fleet 7 (bearer_request ''ab12'') = Inr (flt', a') \<and> fa_id a' = 7 \<and> flt' = sample_fleet
     \<and> bearer_token (bearer_request ''ab12'') = ''ab12''"
proof -
  let ?r = "authenticate_agent both_mode None sample_fleet 7 (bearer_request ''ab12'')"
  have "case ?r of Inl _ \<Rightarrow> False | Inr (flt', a') \<Rightarrow> True" by code_simp
  then obtain flt' a' where r: "?r = Inr (flt', a')" by (auto split: sum.splits)
  have "bearer_token (bearer_request ''ab12'') = ''ab12''" by code_simp
  moreover from agent_authentication_sound [OF r] have "fa_id a' = 7 \<and> flt' = sample_fleet" by auto
  ultimately show ?thesis using r by blast
qed

text \<open>
  The proxy path does not look at the binding: an agent whose certificate was never bound
  is authenticated in the mTLS modes.
\<close>

theorem pending_agent_passes_mtls:
  "\<exists>flt' a'. authenticate_agent mtls_header_mode (Some ''s'') (map (cert_fingerprint_update (\<lambda>_. None)) sample_fleet) 7
      \<lparr>hdr_authorization = None, hdr_proxy_auth = Some ''s'', hdr_agent_san = Some (uuid_str 7), hdr_agent_fp = Some ''cd34''\<rparr>
    = Inr (flt', a') \<and> cert_fingerprint a' = None"
proof -
  let ?r = "authenticate_agent mtls_header_mode (Some ''s'') (map (cert_fingerprint_update (\<lambda>_. None)) sample_fleet) 7
      \<lparr>hdr_authorization = None, hdr_proxy_auth = Some ''s'', hdr_agent_san = Some (uuid_str 7), hdr_agent_fp = Some ''cd34''\<rparr>"
  have "case ?r of Inl _ \<Rightarrow> False | Inr (flt', a') \<Rightarrow> cert_fingerprint a' = None" by code_simp
  then show ?thesis by (auto split: sum.splits)
qed

end
