(* ===== verification/AgentCommands.thy ===== *)
theory AgentCommands
  imports AgentPlane Reconcile
begin

text \<open>
  The agent command queue: the lifecycle and sweep of \<open>backend/filearr/agentsync.py\<close>, the enqueue,
  cancel, poll, acknowledge and complete handlers of \<open>backend/filearr/api/agent_commands.py\<close>, and the
  verification of items by \<open>backend/filearr/verify.py\<close>. A handler takes the scopes the caller was granted
  and the current time, and returns the committed tables with the error or the response; row locks of
  concurrent transactions are a predicate on command ids. Audit records, alerts, permission snapshots
  and index jobs go to other subsystems and are not part of the state.
\<close>

section \<open>Commands\<close>

datatype CommandKind = stat_check | rehash_check | stage_upload | inventory | self_update | suspend
  | agent_maintenance | reextract | rehash_sweep | reconcile

definition AGENT_SCOPED_KINDS :: "CommandKind list" where
  "AGENT_SCOPED_KINDS = [inventory, self_update, suspend, agent_maintenance, reextract, rehash_sweep, reconcile]"

datatype CommandState = c_pending | c_picked_up | c_done | c_failed | c_expired | c_cancelled

datatype CommandEvent = cv_deliver | cv_ack | cv_complete | cv_fail | cv_redeliver | cv_expire | cv_cancel

definition COMMAND_TERMINAL :: "CommandState list" where
  "COMMAND_TERMINAL = [c_done, c_failed, c_expired, c_cancelled]"

definition COMMAND_TRANSITIONS :: "((CommandState \<times> CommandEvent) \<times> CommandState) list" where
  "COMMAND_TRANSITIONS = [
     ((c_pending, cv_deliver), c_picked_up),
     ((c_pending, cv_expire), c_expired),
     ((c_pending, cv_cancel), c_cancelled),
     ((c_picked_up, cv_ack), c_picked_up),
     ((c_picked_up, cv_complete), c_done),
     ((c_picked_up, cv_fail), c_failed),
     ((c_picked_up, cv_redeliver), c_pending),
     ((c_picked_up, cv_expire), c_expired),
     ((c_picked_up, cv_cancel), c_cancelled)]"

text \<open>\<open>None\<close> is the \<open>ValueError\<close> of a pair that is not in the table.\<close>

definition command_state_machine :: "CommandState \<Rightarrow> CommandEvent \<Rightarrow> CommandState option" where
  "command_state_machine current event = map_of COMMAND_TRANSITIONS (current, event)"

definition command_is_terminal :: "CommandState \<Rightarrow> bool" where
  "command_is_terminal s = (s \<in> set COMMAND_TERMINAL)"

record Command =
  cmd_id :: nat
  cmd_agent :: nat
  cmd_kind :: CommandKind
  cmd_item :: "nat option"
  payload :: dict
  cmd_status :: CommandState
  attempts :: nat
  created_at :: int
  updated_at :: int
  expires_at :: int
  picked_up_at :: "int option"
  completed_at :: "int option"
  cmd_result :: "dict option"
  requested_by :: "nat option"

text \<open>Times are in microseconds, spans of the settings in seconds.\<close>

record command_settings =
  ttl_seconds :: int
  ttl_max_seconds :: int
  poll_max :: nat
  payload_max_bytes :: nat
  result_max_bytes :: nat
  capabilities_max_bytes :: nat
  agent_auth_mode :: auth_mode
  proxy_shared_secret :: "string option"

record cdb =
  commands :: "Command list"
  fleet :: "FleetAgent list"
  catalogue :: central
  last_verified_at :: "(nat \<times> int) list"
  next_cmd :: nat

definition seconds :: "int \<Rightarrow> int" where
  "seconds s = s * 1000000"

definition find_cmd :: "cdb \<Rightarrow> nat \<Rightarrow> Command option" where
  "find_cmd db k = find (\<lambda>c. cmd_id c = k) (commands db)"

definition put_cmd :: "Command \<Rightarrow> cdb \<Rightarrow> cdb" where
  "put_cmd c db = db\<lparr>commands := map (\<lambda>x. if cmd_id x = cmd_id c then c else x) (commands db)\<rparr>"

definition add_cmd :: "Command \<Rightarrow> cdb \<Rightarrow> cdb" where
  "add_cmd c db = db\<lparr>commands := commands db @ [c], next_cmd := Suc (next_cmd db)\<rparr>"

section \<open>The sweep\<close>

datatype sweep_action = Expire | Exhaust | Redeliver

definition sweep_decision :: "CommandState \<Rightarrow> int \<Rightarrow> int option \<Rightarrow> nat \<Rightarrow> int \<Rightarrow> int \<Rightarrow> nat \<Rightarrow> sweep_action option" where
  "sweep_decision st expires picked att now lease_seconds max_attempts =
     (if st \<noteq> c_pending \<and> st \<noteq> c_picked_up then None
      else if expires \<le> now then Some Expire
      else case picked of
             Some p \<Rightarrow>
               if st = c_picked_up \<and> p \<le> now - seconds lease_seconds
               then (if max_attempts \<le> att then Some Exhaust else Some Redeliver)
               else None
           | None \<Rightarrow> None)"

definition sweep_target :: "int \<Rightarrow> int \<Rightarrow> Command \<Rightarrow> bool" where
  "sweep_target now lease_seconds c = ((cmd_status c = c_pending \<or> cmd_status c = c_picked_up)
     \<and> (expires_at c \<le> now
        \<or> (cmd_status c = c_picked_up \<and> (case picked_up_at c of Some p \<Rightarrow> p \<le> now - seconds lease_seconds | None \<Rightarrow> False))))"

record sweep_counts =
  n_expired :: nat
  n_redelivered :: nat
  n_exhausted :: nat

definition sweep_cmd :: "int \<Rightarrow> int \<Rightarrow> nat \<Rightarrow> Command \<Rightarrow> sweep_counts \<Rightarrow> py_exn + (Command \<times> sweep_counts)" where
  "sweep_cmd now lease max_attempts c n =
     (case sweep_decision (cmd_status c) (expires_at c) (picked_up_at c) (attempts c) now lease max_attempts of
        None \<Rightarrow> Inr (c, n)
      | Some Expire \<Rightarrow> (case command_state_machine (cmd_status c) cv_expire of
            None \<Rightarrow> Inl ValueError
          | Some s \<Rightarrow> Inr (c\<lparr>cmd_status := s, completed_at := Some now, updated_at := now\<rparr>,
                           n\<lparr>n_expired := Suc (n_expired n)\<rparr>))
      | Some Exhaust \<Rightarrow> (case command_state_machine (cmd_status c) cv_fail of
            None \<Rightarrow> Inl ValueError
          | Some s \<Rightarrow> Inr (c\<lparr>cmd_status := s,
                cmd_result := Some [(''error'', JStr ''max_delivery_attempts''), (''attempts'', JInt (int (attempts c)))],
                completed_at := Some now, updated_at := now\<rparr>, n\<lparr>n_exhausted := Suc (n_exhausted n)\<rparr>))
      | Some Redeliver \<Rightarrow> (case command_state_machine (cmd_status c) cv_redeliver of
            None \<Rightarrow> Inl ValueError
          | Some s \<Rightarrow> Inr (c\<lparr>cmd_status := s, picked_up_at := None, updated_at := now\<rparr>,
                           n\<lparr>n_redelivered := Suc (n_redelivered n)\<rparr>)))"

fun sweep_rows :: "int \<Rightarrow> int \<Rightarrow> nat \<Rightarrow> Command list \<Rightarrow> cdb \<times> sweep_counts \<Rightarrow> py_exn + (cdb \<times> sweep_counts)" where
  "sweep_rows now lease max_attempts [] acc = Inr acc"
| "sweep_rows now lease max_attempts (c # cs) (db, n) =
     bind_res (sweep_cmd now lease max_attempts c n) (\<lambda>(c', n'). sweep_rows now lease max_attempts cs (put_cmd c' db, n'))"

definition zero_sweep :: sweep_counts where
  "zero_sweep = \<lparr>n_expired = 0, n_redelivered = 0, n_exhausted = 0\<rparr>"

text \<open>
  \<open>locked\<close> holds of the rows that another transaction has locked and this one skips. Rows with equal
  expiry are taken in table order.
\<close>

definition run_agent_command_sweep :: "(nat \<Rightarrow> bool) \<Rightarrow> int \<Rightarrow> int \<Rightarrow> nat \<Rightarrow> nat \<Rightarrow> cdb \<Rightarrow> py_exn + (cdb \<times> sweep_counts)" where
  "run_agent_command_sweep locked now lease max_attempts limit db =
     sweep_rows now lease max_attempts
       (take limit (sort_key expires_at (filter (\<lambda>c. sweep_target now lease c \<and> \<not> locked (cmd_id c)) (commands db))))
       (db, zero_sweep)"

section \<open>Enqueueing\<close>

text \<open>A handler returns the committed tables and either the error or the response.\<close>

type_synonym 'a reply = "cdb \<times> (http_error + 'a)"

definition json_len :: "dict \<Rightarrow> nat" where
  "json_len obj = utf8_len (json_text (JObj obj))"

record CommandEnqueueIn =
  en_kind :: CommandKind
  en_item :: "nat option"
  en_payload :: dict
  en_ttl_seconds :: "int option"

text \<open>The bounds of a body's fields are validated before the handler runs: an optional number, absent or within them.\<close>

definition field_between :: "int \<Rightarrow> int option \<Rightarrow> int option \<Rightarrow> bool" where
  "field_between lo hi v = (case v of None \<Rightarrow> True | Some n \<Rightarrow> lo \<le> n \<and> (case hi of None \<Rightarrow> True | Some h \<Rightarrow> n \<le> h))"

definition new_command :: "cdb \<Rightarrow> nat \<Rightarrow> CommandKind \<Rightarrow> nat option \<Rightarrow> dict \<Rightarrow> int \<Rightarrow> int \<Rightarrow> nat option \<Rightarrow> Command" where
  "new_command db k kind item pl now ttl actor =
     \<lparr>cmd_id = next_cmd db, cmd_agent = k, cmd_kind = kind, cmd_item = item, payload = pl, cmd_status = c_pending,
       attempts = 0, created_at = now, updated_at = now, expires_at = now + seconds ttl, picked_up_at = None,
       completed_at = None, cmd_result = None, requested_by = actor\<rparr>"

definition enqueue_command :: "command_settings \<Rightarrow> string list \<Rightarrow> nat option \<Rightarrow> cdb \<Rightarrow> nat \<Rightarrow> CommandEnqueueIn \<Rightarrow> int \<Rightarrow> Command reply" where
  "enqueue_command cfg granted actor db k body now =
     (if ''write'' \<notin> set granted then (db, Inl (HTTPException 403))
      else if \<not> field_between 60 None (en_ttl_seconds body) then (db, Inl (HTTPException 422))
      else if json_len (en_payload body) > payload_max_bytes cfg then (db, Inl (HTTPException 413))
      else case find_agent (fleet db) k of
             None \<Rightarrow> (db, Inl (HTTPException 404))
           | Some a \<Rightarrow>
               if revoked_at a \<noteq> None then (db, Inl (HTTPException 409))
               else if en_kind body \<in> set AGENT_SCOPED_KINDS \<and> en_item body \<noteq> None then (db, Inl (HTTPException 422))
               else if en_kind body \<notin> set AGENT_SCOPED_KINDS \<and> en_item body = None then (db, Inl (HTTPException 422))
               else if en_kind body \<notin> set AGENT_SCOPED_KINDS
                 \<and> find (\<lambda>i. Some (item_id i) = en_item body) (items (catalogue db)) = None
               then (db, Inl (HTTPException 404))
               else let t0 = (case en_ttl_seconds body of Some t \<Rightarrow> if t = 0 then ttl_seconds cfg else t | None \<Rightarrow> ttl_seconds cfg);
                        t = max 60 (min t0 (ttl_max_seconds cfg));
                        c = new_command db k (en_kind body) (en_item body) (en_payload body) now t actor
                    in (add_cmd c db, Inr c))"

definition live_agent :: "cdb \<Rightarrow> nat \<Rightarrow> http_error + FleetAgent" where
  "live_agent db k = (case find_agent (fleet db) k of
       None \<Rightarrow> Inl (HTTPException 404)
     | Some a \<Rightarrow> if revoked_at a \<noteq> None then Inl (HTTPException 409) else Inr a)"

definition enqueue_agent_scoped :: "command_settings \<Rightarrow> cdb \<Rightarrow> nat \<Rightarrow> CommandKind \<Rightarrow> dict \<Rightarrow> int option \<Rightarrow> int \<Rightarrow> nat option \<Rightarrow> Command" where
  "enqueue_agent_scoped cfg db k kind pl ttl_override now actor =
     (let t = (case ttl_override of None \<Rightarrow> ttl_seconds cfg
                | Some o' \<Rightarrow> min (max o' (ttl_seconds cfg)) (ttl_max_seconds cfg))
      in new_command db k kind None pl now t actor)"

definition suspend_agent :: "command_settings \<Rightarrow> string list \<Rightarrow> nat option \<Rightarrow> (nat \<Rightarrow> bool) \<Rightarrow> cdb \<Rightarrow> nat \<Rightarrow> bool \<Rightarrow> int \<Rightarrow> Command reply" where
  "suspend_agent cfg granted actor locked db k suspended now =
     (if ''write'' \<notin> set granted then (db, Inl (HTTPException 403))
      else case live_agent db k of
             Inl e \<Rightarrow> (db, Inl e)
           | Inr a \<Rightarrow>
               (case find (\<lambda>c. cmd_agent c = k \<and> cmd_kind c = suspend \<and> cmd_status c = c_pending \<and> \<not> locked (cmd_id c)) (commands db) of
                  Some c \<Rightarrow> (let c' = c\<lparr>payload := [(''suspended'', JBool suspended)], updated_at := now\<rparr>
                             in (put_cmd c' db, Inr c'))
                | None \<Rightarrow> (let c = enqueue_agent_scoped cfg db k suspend [(''suspended'', JBool suspended)] None now actor
                           in (add_cmd c db, Inr c))))"

definition in_flight :: "cdb \<Rightarrow> nat \<Rightarrow> CommandKind \<Rightarrow> Command list" where
  "in_flight db k kind = filter (\<lambda>c. cmd_agent c = k \<and> cmd_kind c = kind \<and> (cmd_status c = c_pending \<or> cmd_status c = c_picked_up))
     (commands db)"

text \<open>The shared tail of the job endpoints: refuse while one is queued or running, else queue it.\<close>

definition queue_job :: "command_settings \<Rightarrow> nat option \<Rightarrow> cdb \<Rightarrow> nat \<Rightarrow> CommandKind \<Rightarrow> dict \<Rightarrow> int option \<Rightarrow> int \<Rightarrow> Command reply" where
  "queue_job cfg actor db k kind pl ttl_override now =
     (if in_flight db k kind \<noteq> [] then (db, Inl (HTTPException 409))
      else let c = enqueue_agent_scoped cfg db k kind pl ttl_override now actor in (add_cmd c db, Inr c))"

definition run_agent_maintenance :: "command_settings \<Rightarrow> string list \<Rightarrow> nat option \<Rightarrow> cdb \<Rightarrow> nat \<Rightarrow> int \<Rightarrow> Command reply" where
  "run_agent_maintenance cfg granted actor db k now =
     (if ''write'' \<notin> set granted then (db, Inl (HTTPException 403))
      else case live_agent db k of
             Inl e \<Rightarrow> (db, Inl e)
           | Inr a \<Rightarrow> queue_job cfg actor db k agent_maintenance [] None now)"

definition REEXTRACT_MAX_ITEMS_CEILING :: int where "REEXTRACT_MAX_ITEMS_CEILING = 10000000"
definition REEXTRACT_TTL_SECONDS :: int where "REEXTRACT_TTL_SECONDS = 86400"

definition reextract_agent :: "command_settings \<Rightarrow> string list \<Rightarrow> nat option \<Rightarrow> cdb \<Rightarrow> nat \<Rightarrow> bool \<Rightarrow> int option \<Rightarrow> int \<Rightarrow> Command reply" where
  "reextract_agent cfg granted actor db k force max_items now =
     (if ''write'' \<notin> set granted then (db, Inl (HTTPException 403))
      else if \<not> field_between 1 (Some REEXTRACT_MAX_ITEMS_CEILING) max_items then (db, Inl (HTTPException 422))
      else case live_agent db k of
             Inl e \<Rightarrow> (db, Inl e)
           | Inr a \<Rightarrow> queue_job cfg actor db k reextract [(''force'', JBool force), (''max_items'', jopt JInt max_items)]
                        (Some REEXTRACT_TTL_SECONDS) now)"

definition RECONCILE_TTL_SECONDS :: int where "RECONCILE_TTL_SECONDS = 21600"

definition reconcile_agent :: "command_settings \<Rightarrow> string list \<Rightarrow> nat option \<Rightarrow> cdb \<Rightarrow> nat \<Rightarrow> bool \<Rightarrow> int \<Rightarrow> Command reply" where
  "reconcile_agent cfg granted actor db k force_reset now =
     (if ''write'' \<notin> set granted then (db, Inl (HTTPException 403))
      else case live_agent db k of
             Inl e \<Rightarrow> (db, Inl e)
           | Inr a \<Rightarrow> queue_job cfg actor db k reconcile [(''force_reset'', JBool force_reset)] (Some RECONCILE_TTL_SECONDS) now)"

definition REHASH_DEFAULT_MIN_SIZE :: int where "REHASH_DEFAULT_MIN_SIZE = 65537"
definition REHASH_DEFAULT_MAX_SIZE :: int where "REHASH_DEFAULT_MAX_SIZE = 131072"
definition REHASH_MAX_SIZE_CEILING :: int where "REHASH_MAX_SIZE_CEILING = 131072"
definition REHASH_MAX_ITEMS_CEILING :: int where "REHASH_MAX_ITEMS_CEILING = 10000000"
definition REHASH_TTL_SECONDS :: int where "REHASH_TTL_SECONDS = 86400"

definition rehash_body_ok :: "int option \<Rightarrow> int option \<Rightarrow> int option \<Rightarrow> bool" where
  "rehash_body_ok max_items min_size max_size \<longleftrightarrow> field_between 1 (Some REHASH_MAX_ITEMS_CEILING) max_items
     \<and> field_between 1 (Some REHASH_MAX_SIZE_CEILING) min_size \<and> field_between 1 (Some REHASH_MAX_SIZE_CEILING) max_size"

definition rehash_sweep_agent :: "command_settings \<Rightarrow> string list \<Rightarrow> nat option \<Rightarrow> cdb \<Rightarrow> nat \<Rightarrow> bool \<Rightarrow> int option \<Rightarrow> int option \<Rightarrow> int option
    \<Rightarrow> int \<Rightarrow> Command reply" where
  "rehash_sweep_agent cfg granted actor db k force max_items min_size max_size now =
     (if ''admin'' \<notin> set granted then (db, Inl (HTTPException 403))
      else if \<not> rehash_body_ok max_items min_size max_size then (db, Inl (HTTPException 422))
      else case live_agent db k of
             Inl e \<Rightarrow> (db, Inl e)
           | Inr a \<Rightarrow>
               (let lo = (case min_size of Some n \<Rightarrow> n | None \<Rightarrow> REHASH_DEFAULT_MIN_SIZE);
                    hi = (case max_size of Some n \<Rightarrow> n | None \<Rightarrow> REHASH_DEFAULT_MAX_SIZE)
                in if lo > hi then (db, Inl (HTTPException 422))
                   else queue_job cfg actor db k rehash_sweep [(''force'', JBool force), (''max_items'', jopt JInt max_items),
                          (''min_size'', JInt lo), (''max_size'', JInt hi)] (Some REHASH_TTL_SECONDS) now))"

section \<open>Reading and cancelling\<close>

definition list_commands :: "cdb \<Rightarrow> nat option \<Rightarrow> CommandState option \<Rightarrow> CommandKind option \<Rightarrow> nat option \<Rightarrow> nat \<Rightarrow> Command list" where
  "list_commands db k st kind before limit =
     take (max 1 (min limit 200))
       (filter (\<lambda>c. (k = None \<or> Some (cmd_agent c) = k) \<and> (st = None \<or> Some (cmd_status c) = st)
          \<and> (kind = None \<or> Some (cmd_kind c) = kind) \<and> (case before of None \<Rightarrow> True | Some b \<Rightarrow> cmd_id c < b))
         (rev (sort_key cmd_id (commands db))))"

definition get_command :: "cdb \<Rightarrow> nat \<Rightarrow> http_error + Command" where
  "get_command db k = (case find_cmd db k of None \<Rightarrow> Inl (HTTPException 404) | Some c \<Rightarrow> Inr c)"

definition cancel_command :: "string list \<Rightarrow> cdb \<Rightarrow> nat \<Rightarrow> int \<Rightarrow> Command reply" where
  "cancel_command granted db k now =
     (if ''write'' \<notin> set granted then (db, Inl (HTTPException 403))
      else case find_cmd db k of
             None \<Rightarrow> (db, Inl (HTTPException 404))
           | Some c \<Rightarrow>
               if command_is_terminal (cmd_status c) then (db, Inl (HTTPException 409))
               else case command_state_machine (cmd_status c) cv_cancel of
                      None \<Rightarrow> (db, Inl (HTTPException 500))
                    | Some s \<Rightarrow> (let c' = c\<lparr>cmd_status := s, completed_at := Some now, updated_at := now\<rparr>
                                in (put_cmd c' db, Inr c')))"

section \<open>Verification of items\<close>

record CommandResult =
  r_exists :: bool
  r_size :: "int option"
  r_mtime :: "rat option"
  r_quick_hash :: "string option"
  r_content_hash :: "string option"
  r_content_skipped :: bool

definition VERIFY_KINDS :: "CommandKind list" where
  "VERIFY_KINDS = [stat_check, rehash_check]"

datatype mismatch_kind = Deleted_file | Changed_file

record VerifyOutcome =
  vo_item_id :: nat
  vo_library_id :: nat
  vo_rel_path :: string
  mismatch :: "mismatch_kind option"
  differed :: "string list"
  mutated_projection :: bool
  tombstoned :: bool

definition MTIME_EPSILON :: rat where "MTIME_EPSILON = 1"

definition mtime_differs :: "int \<Rightarrow> rat \<Rightarrow> bool" where
  "mtime_differs stored reported = (MTIME_EPSILON \<le> \<bar>fl (timestamp stored - reported)\<bar>)"

text \<open>\<open>datetime.fromtimestamp\<close> raises outside the years 1 to 9999.\<close>

definition datetime_of :: "rat \<Rightarrow> py_exn + int" where
  "datetime_of t = (let us = fromtimestamp t
     in if seconds (-62135596800) \<le> us \<and> us < seconds 253402300800 then Inr us else Inl ValueError)"

text \<open>The comparisons of a file that exists, each on the item and the list of differing fields.\<close>

definition verify_status :: "Item \<Rightarrow> Item \<times> string list" where
  "verify_status item = (if item_status item = missing then (item\<lparr>item_status := active\<rparr>, [''restored'']) else (item, []))"

definition verify_size :: "CommandResult \<Rightarrow> Item \<times> string list \<Rightarrow> Item \<times> string list" where
  "verify_size parsed s = (case s of (item, d) \<Rightarrow> (case r_size parsed of
       Some n \<Rightarrow> if n \<noteq> item_size item then (item\<lparr>item_size := n\<rparr>, d @ [''size'']) else (item, d)
     | None \<Rightarrow> (item, d)))"

definition verify_mtime :: "CommandResult \<Rightarrow> Item \<times> string list \<Rightarrow> py_exn + (Item \<times> string list)" where
  "verify_mtime parsed s = (case s of (item, d) \<Rightarrow> (case r_mtime parsed of
       Some t \<Rightarrow> if mtime_differs (item_mtime item) t
                 then bind_res (datetime_of t) (\<lambda>us. Inr (item\<lparr>item_mtime := us\<rparr>, d @ [''mtime'']))
                 else Inr (item, d)
     | None \<Rightarrow> Inr (item, d)))"

definition verify_quick_hash :: "CommandResult \<Rightarrow> Item \<times> string list \<Rightarrow> Item \<times> string list" where
  "verify_quick_hash parsed s = (case s of (item, d) \<Rightarrow>
     if r_quick_hash parsed \<noteq> None \<and> r_quick_hash parsed \<noteq> quick_hash item
     then (item\<lparr>quick_hash := r_quick_hash parsed\<rparr>, d @ [''quick_hash'']) else (item, d))"

definition verify_content_hash :: "CommandResult \<Rightarrow> Item \<times> string list \<Rightarrow> Item \<times> string list" where
  "verify_content_hash parsed s = (case s of (item, d) \<Rightarrow>
     if r_content_hash parsed \<noteq> None \<and> r_content_hash parsed \<noteq> content_hash item
     then (item\<lparr>content_hash := r_content_hash parsed\<rparr>, d @ [''content_hash'']) else (item, d))"

definition verify_present :: "CommandResult \<Rightarrow> Item \<Rightarrow> py_exn + (Item \<times> string list)" where
  "verify_present parsed item =
     bind_res (verify_mtime parsed (verify_size parsed (verify_status item)))
       (\<lambda>s. Inr (verify_content_hash parsed (verify_quick_hash parsed s)))"

definition verify_item :: "CommandResult \<Rightarrow> Item \<Rightarrow> py_exn + (Item \<times> VerifyOutcome)" where
  "verify_item parsed item =
     (let blank_outcome = \<lparr>vo_item_id = item_id item, vo_library_id = library_id item, vo_rel_path = item_rel_path item,
            mismatch = None, differed = [], mutated_projection = False, tombstoned = False\<rparr>
      in if \<not> r_exists parsed
         then (if item_status item = active
               then Inr (item\<lparr>item_status := missing\<rparr>, blank_outcome\<lparr>mismatch := Some Deleted_file, differed := [''exists''],
                      tombstoned := True, mutated_projection := True\<rparr>)
               else Inr (item, blank_outcome))
         else bind_res (verify_present parsed item) (\<lambda>(item', d).
           Inr (item', if d \<noteq> [] then blank_outcome\<lparr>mismatch := Some Changed_file, differed := d, mutated_projection := True\<rparr>
                       else blank_outcome)))"

text \<open>
  \<open>parse\<close> is the schema validation of the reported result, \<open>None\<close> when it fails. The verify kinds are
  queued with an item, so the command without one does not occur.
\<close>

definition reconcile_completion :: "(dict \<Rightarrow> CommandResult option) \<Rightarrow> cdb \<Rightarrow> Command \<Rightarrow> dict \<Rightarrow> int \<Rightarrow> py_exn + (cdb \<times> VerifyOutcome option)" where
  "reconcile_completion parse db c reported now =
     (if cmd_kind c \<notin> set VERIFY_KINDS then Inr (db, None)
      else case parse reported of
             None \<Rightarrow> Inr (db, None)
           | Some parsed \<Rightarrow>
               (case find (\<lambda>i. Some (item_id i) = cmd_item c) (items (catalogue db)) of
                  None \<Rightarrow> Inr (db, None)
                | Some item \<Rightarrow>
                    bind_res (verify_item parsed item) (\<lambda>(item', outcome).
                      Inr (db\<lparr>catalogue := update_item (item_id item) (\<lambda>_. item') (catalogue db),
                              last_verified_at := dict_set (item_id item) now (last_verified_at db)\<rparr>, Some outcome))))"

section \<open>The agent plane: poll, acknowledge, complete\<close>

record PollIn =
  po_max :: nat
  po_capabilities :: "dict option"
  po_health :: "dict option"
  po_version :: "string option"

definition accept_sized :: "command_settings \<Rightarrow> dict option \<Rightarrow> bool" where
  "accept_sized cfg body = (case body of None \<Rightarrow> False | Some d \<Rightarrow> json_len d \<le> capabilities_max_bytes cfg)"

definition poll_stamp :: "command_settings \<Rightarrow> PollIn \<Rightarrow> int \<Rightarrow> FleetAgent \<Rightarrow> FleetAgent" where
  "poll_stamp cfg body now a0 =
     (let a1 = (if accept_sized cfg (po_capabilities body)
                then a0\<lparr>capabilities := po_capabilities body, capabilities_at := Some now\<rparr> else a0);
          a2 = (if accept_sized cfg (po_health body) then a1\<lparr>health := po_health body, health_at := Some now\<rparr> else a1);
          a3 = (if or_empty (po_version body) \<noteq> [] then a2\<lparr>agent_version := po_version body\<rparr> else a2)
      in a3\<lparr>fa_last_seen_at := Some now\<rparr>)"

definition deliverable :: "(nat \<Rightarrow> bool) \<Rightarrow> nat \<Rightarrow> int \<Rightarrow> Command \<Rightarrow> bool" where
  "deliverable locked k now c = (cmd_agent c = k \<and> cmd_status c = c_pending \<and> now < expires_at c \<and> \<not> locked (cmd_id c))"

definition deliver :: "int \<Rightarrow> Command \<Rightarrow> CommandState \<Rightarrow> Command" where
  "deliver now c s = c\<lparr>cmd_status := s, picked_up_at := Some now, attempts := Suc (attempts c), updated_at := now\<rparr>"

fun deliver_rows :: "int \<Rightarrow> Command list \<Rightarrow> cdb \<Rightarrow> py_exn + (cdb \<times> Command list)" where
  "deliver_rows now [] db = Inr (db, [])"
| "deliver_rows now (c # cs) db = (case command_state_machine (cmd_status c) cv_deliver of
       None \<Rightarrow> Inl ValueError
     | Some s \<Rightarrow> bind_res (deliver_rows now cs (put_cmd (deliver now c s) db)) (\<lambda>(db', out). Inr (db', deliver now c s # out)))"

text \<open>The flag of the reply is the maintenance header.\<close>

definition poll_commands :: "command_settings \<Rightarrow> bool \<Rightarrow> (nat \<Rightarrow> bool) \<Rightarrow> cdb \<Rightarrow> nat \<Rightarrow> PollIn \<Rightarrow> agent_request \<Rightarrow> int
    \<Rightarrow> (bool \<times> Command list) reply" where
  "poll_commands cfg maintenance locked db k body rq now =
     (case authenticate_agent (agent_auth_mode cfg) (proxy_shared_secret cfg) (fleet db) k rq of
        Inl e \<Rightarrow> (db, Inl e)
      | Inr (flt, a) \<Rightarrow>
          (let want = min (po_max body) (poll_max cfg);
               rows = take want (sort_key created_at (filter (deliverable locked k now) (commands db)))
           in case deliver_rows now rows db of
                Inl e \<Rightarrow> (db\<lparr>fleet := flt\<rparr>, Inl (HTTPException 500))
              | Inr (db', out) \<Rightarrow> (db'\<lparr>fleet := put_agent (poll_stamp cfg body now a) flt\<rparr>, Inr (maintenance, out))))"

definition owned_command :: "cdb \<Rightarrow> nat \<Rightarrow> nat \<Rightarrow> http_error + Command" where
  "owned_command db k cid = (case find_cmd db cid of
       None \<Rightarrow> Inl (HTTPException 404)
     | Some c \<Rightarrow> if cmd_agent c \<noteq> k then Inl (HTTPException 404) else Inr c)"

definition ack_command :: "command_settings \<Rightarrow> cdb \<Rightarrow> nat \<Rightarrow> nat \<Rightarrow> agent_request \<Rightarrow> int \<Rightarrow> Command reply" where
  "ack_command cfg db k cid rq now =
     (case authenticate_agent (agent_auth_mode cfg) (proxy_shared_secret cfg) (fleet db) k rq of
        Inl e \<Rightarrow> (db, Inl e)
      | Inr (flt, a) \<Rightarrow>
          (let db1 = db\<lparr>fleet := flt\<rparr> in
           case owned_command db1 k cid of
             Inl e \<Rightarrow> (db1, Inl e)
           | Inr c \<Rightarrow>
               if cmd_status c \<noteq> c_picked_up then (db1, Inl (HTTPException 409))
               else case command_state_machine (cmd_status c) cv_ack of
                      None \<Rightarrow> (db1, Inl (HTTPException 500))
                    | Some s \<Rightarrow> (let c' = c\<lparr>cmd_status := s, picked_up_at := Some now, updated_at := now\<rparr>
                                in (put_cmd c' (db1\<lparr>fleet := put_agent a flt\<rparr>), Inr c'))))"

record CompleteIn =
  co_ok :: bool
  co_result :: "dict option"

definition result_too_large :: "command_settings \<Rightarrow> CompleteIn \<Rightarrow> bool" where
  "result_too_large cfg body = (case co_result body of None \<Rightarrow> False | Some d \<Rightarrow> json_len d > result_max_bytes cfg)"

definition complete_command :: "command_settings \<Rightarrow> (dict \<Rightarrow> CommandResult option) \<Rightarrow> cdb \<Rightarrow> nat \<Rightarrow> nat \<Rightarrow> CompleteIn \<Rightarrow> agent_request \<Rightarrow> int
    \<Rightarrow> (Command \<times> VerifyOutcome option) reply" where
  "complete_command cfg parse db k cid body rq now =
     (case authenticate_agent (agent_auth_mode cfg) (proxy_shared_secret cfg) (fleet db) k rq of
        Inl e \<Rightarrow> (db, Inl e)
      | Inr (flt, a) \<Rightarrow>
          (let db1 = db\<lparr>fleet := flt\<rparr> in
           case owned_command db1 k cid of
             Inl e \<Rightarrow> (db1, Inl e)
           | Inr c \<Rightarrow>
               if cmd_status c = c_done then (db1, Inr (c, None))
               else if cmd_status c \<noteq> c_picked_up then (db1, Inl (HTTPException 409))
               else if result_too_large cfg body then (db1, Inl (HTTPException 413))
               else case command_state_machine (cmd_status c) (if co_ok body then cv_complete else cv_fail) of
                      None \<Rightarrow> (db1, Inl (HTTPException 500))
                    | Some s \<Rightarrow>
                        (let c' = c\<lparr>cmd_status := s, cmd_result := co_result body, completed_at := Some now, updated_at := now\<rparr>;
                             db2 = put_cmd c' (db1\<lparr>fleet := put_agent a flt\<rparr>)
                         in case (case co_result body of
                                    Some d \<Rightarrow> if co_ok body \<and> cmd_kind c \<in> set VERIFY_KINDS
                                               then reconcile_completion parse db2 c' d now else Inr (db2, None)
                                  | None \<Rightarrow> Inr (db2, None)) of
                              Inl e \<Rightarrow> (db1, Inl (HTTPException 500))
                            | Inr (db3, outcome) \<Rightarrow> (db3, Inr (c', outcome)))))"

section \<open>The lifecycle\<close>

lemma command_steps:
  "command_state_machine s e = Some t \<longleftrightarrow>
     (s = c_pending \<and> e = cv_deliver \<and> t = c_picked_up) \<or> (s = c_picked_up \<and> e = cv_ack \<and> t = c_picked_up)
     \<or> (s = c_picked_up \<and> e = cv_complete \<and> t = c_done) \<or> (s = c_picked_up \<and> e = cv_fail \<and> t = c_failed)
     \<or> (s = c_picked_up \<and> e = cv_redeliver \<and> t = c_pending)
     \<or> (s = c_pending \<or> s = c_picked_up) \<and> (e = cv_expire \<and> t = c_expired \<or> e = cv_cancel \<and> t = c_cancelled)"
  by (cases s; cases e; auto simp: command_state_machine_def COMMAND_TRANSITIONS_def)

lemma terminal_iff: "command_is_terminal s \<longleftrightarrow> s \<noteq> c_pending \<and> s \<noteq> c_picked_up"
  by (cases s) (auto simp: command_is_terminal_def COMMAND_TERMINAL_def)

interpretation command: lifecycle command_state_machine command_is_terminal
proof unfold_locales
  show "command_is_terminal s \<Longrightarrow> command_state_machine s e = None" for s e
    using command_steps [of s e] by (cases "command_state_machine s e") (auto simp: terminal_iff)
  show "\<not> command_is_terminal s \<Longrightarrow> \<exists>e t. command_state_machine s e = Some t \<and> command_is_terminal t" for s
    by (rule exI [of _ cv_cancel], rule exI [of _ c_cancelled]) (auto simp: command_steps terminal_iff)
qed

section \<open>Well-formed commands and how they move\<close>

text \<open>\<open>m\<close> is the number of deliveries the sweep grants.\<close>

definition cmd_ok :: "nat \<Rightarrow> Command \<Rightarrow> bool" where
  "cmd_ok m c = ((cmd_status c = c_pending \<longrightarrow> picked_up_at c = None \<and> attempts c < max 1 m)
     \<and> (cmd_status c = c_picked_up \<longrightarrow> picked_up_at c \<noteq> None)
     \<and> attempts c \<le> max 1 m
     \<and> (command_is_terminal (cmd_status c) \<longleftrightarrow> completed_at c \<noteq> None)
     \<and> (cmd_kind c \<in> set AGENT_SCOPED_KINDS \<longleftrightarrow> cmd_item c = None))"

definition same_identity :: "Command \<Rightarrow> Command \<Rightarrow> bool" where
  "same_identity c c' = (cmd_id c' = cmd_id c \<and> cmd_agent c' = cmd_agent c \<and> cmd_kind c' = cmd_kind c \<and> cmd_item c' = cmd_item c
     \<and> created_at c' = created_at c \<and> expires_at c' = expires_at c)"

definition moves :: "nat \<Rightarrow> Command \<Rightarrow> Command \<Rightarrow> bool" where
  "moves m c c' = (same_identity c c' \<and> \<not> command_is_terminal (cmd_status c) \<and> (cmd_ok m c \<longrightarrow> cmd_ok m c'))"

definition cdb_ok :: "nat \<Rightarrow> cdb \<Rightarrow> bool" where
  "cdb_ok m db = (distinct (map cmd_id (commands db)) \<and> list_all (\<lambda>c. cmd_id c < next_cmd db \<and> cmd_ok m c) (commands db))"

text \<open>What any number of operations do to the table: rows move or stay, fresh rows are added.\<close>

definition evolves :: "nat \<Rightarrow> cdb \<Rightarrow> cdb \<Rightarrow> bool" where
  "evolves m db db' = (\<exists>f new. commands db' = map f (commands db) @ new
     \<and> (\<forall>c \<in> set (commands db). f c = c \<or> moves m c (f c))
     \<and> (\<forall>c \<in> set new. cmd_ok m c \<and> next_cmd db \<le> cmd_id c \<and> cmd_id c < next_cmd db')
     \<and> distinct (map cmd_id new) \<and> next_cmd db \<le> next_cmd db')"

lemma evolves_same: "commands db' = commands db \<Longrightarrow> next_cmd db' = next_cmd db \<Longrightarrow> evolves m db db'"
  unfolding evolves_def by (intro exI [of _ id] exI [of _ "[]"]) simp

lemma evolves_terminal:
  assumes "evolves m db db'" "c \<in> set (commands db)" "command_is_terminal (cmd_status c)"
  shows "c \<in> set (commands db')"
  using assms by (force simp: evolves_def moves_def)

lemma evolves_ok:
  assumes "evolves m db db'" "cdb_ok m db"
  shows "cdb_ok m db'"
proof -
  from assms(1) obtain f new where e: "commands db' = map f (commands db) @ new"
    "\<forall>c \<in> set (commands db). f c = c \<or> moves m c (f c)"
    "\<forall>c \<in> set new. cmd_ok m c \<and> next_cmd db \<le> cmd_id c \<and> cmd_id c < next_cmd db'"
    "distinct (map cmd_id new)" "next_cmd db \<le> next_cmd db'" by (auto simp: evolves_def)
  have ids: "map cmd_id (map f (commands db)) = map cmd_id (commands db)"
    using e(2) by (auto simp: moves_def same_identity_def)
  have lt: "\<forall>c \<in> set (commands db). cmd_id c < next_cmd db" and ok: "\<forall>c \<in> set (commands db). cmd_ok m c"
    using assms(2) by (auto simp: cdb_ok_def list_all_iff)
  have "\<forall>c \<in> set (map f (commands db)). cmd_id c < next_cmd db' \<and> cmd_ok m c"
  proof
    fix x assume "x \<in> set (map f (commands db))"
    then obtain c where c: "c \<in> set (commands db)" "x = f c" by auto
    with e(2) have "cmd_id x = cmd_id c" "cmd_ok m c \<longrightarrow> cmd_ok m x" by (auto simp: moves_def same_identity_def)
    moreover have "cmd_id c < next_cmd db" "cmd_ok m c" using lt ok c(1) by blast+
    ultimately show "cmd_id x < next_cmd db' \<and> cmd_ok m x" using e(5) by simp
  qed
  moreover have "distinct (map cmd_id (commands db'))"
  proof -
    have "set (map cmd_id (commands db)) \<inter> set (map cmd_id new) = {}" using lt e(3) by fastforce
    then show ?thesis using e(1,4) ids assms(2) by (simp add: cdb_ok_def del: map_map set_map)
  qed
  ultimately show ?thesis using e(1,3) by (auto simp: cdb_ok_def list_all_iff)
qed

lemma evolves_put:
  assumes "cdb_ok m db" "c \<in> set (commands db)" "moves m c c'"
  shows "evolves m db (put_cmd c' db)"
proof -
  have "moves m x c'" if "x \<in> set (commands db)" "cmd_id x = cmd_id c'" for x
    using assms that distinct_map_eqD [of cmd_id "commands db" x c] by (auto simp: cdb_ok_def moves_def same_identity_def)
  then show ?thesis unfolding evolves_def put_cmd_def
    by (intro exI [of _ "\<lambda>x. if cmd_id x = cmd_id c' then c' else x"] exI [of _ "[]"]) simp
qed

lemma evolves_add: "cmd_ok m c \<Longrightarrow> cmd_id c = next_cmd db \<Longrightarrow> evolves m db (add_cmd c db)"
  unfolding evolves_def add_cmd_def by (intro exI [of _ id] exI [of _ "[c]"]) simp

section \<open>Updating many rows\<close>

definition put_all :: "(Command \<Rightarrow> Command) \<Rightarrow> Command list \<Rightarrow> cdb \<Rightarrow> cdb" where
  "put_all g rows db = foldl (\<lambda>db c. put_cmd (g c) db) db rows"

lemma put_all_other [simp]:
  "fleet (put_all g rows db) = fleet db" "next_cmd (put_all g rows db) = next_cmd db" "catalogue (put_all g rows db) = catalogue db"
  "last_verified_at (put_all g rows db) = last_verified_at db"
  by (induction rows arbitrary: db) (simp_all add: put_all_def put_cmd_def)

lemma commands_put_all:
  assumes "\<And>c. cmd_id (g c) = cmd_id c" "distinct (map cmd_id (commands db))" "set rows \<subseteq> set (commands db)" "distinct rows"
  shows "commands (put_all g rows db) = map (\<lambda>x. if x \<in> set rows then g x else x) (commands db)"
proof -
  have "commands (put_all g rows db') = map (\<lambda>x. if cmd_id x \<in> cmd_id ` set rows then g (the (find (\<lambda>c. cmd_id c = cmd_id x) rows)) else x) (commands db')"
    if "distinct (map cmd_id rows)" for db' rows
    using that
  proof (induction rows arbitrary: db')
    case (Cons c rows)
    have "put_all g (c # rows) db' = put_all g rows (put_cmd (g c) db')" by (simp add: put_all_def)
    then show ?case using Cons assms(1) by (auto simp: put_cmd_def)
  qed (simp add: put_all_def)
  moreover have "distinct (map cmd_id rows)"
    using assms(2-4) by (auto simp: distinct_map inj_on_def)
  moreover have "cmd_id x \<in> cmd_id ` set rows \<longleftrightarrow> x \<in> set rows" if "x \<in> set (commands db)" for x
    using that assms(2,3) by (auto simp: distinct_map inj_on_def)
  moreover have "find (\<lambda>c. cmd_id c = cmd_id x) rows = Some x" if "x \<in> set rows" for x
  proof (cases "find (\<lambda>c. cmd_id c = cmd_id x) rows")
    case None
    with that show ?thesis by (auto dest: find_NoneD)
  next
    case (Some y)
    then have "y \<in> set rows" "cmd_id y = cmd_id x" by (auto dest: find_SomeD)
    moreover have "y = x" using calculation that assms(2,3) by (auto simp: distinct_map inj_on_def)
    ultimately show ?thesis using Some by simp
  qed
  ultimately show ?thesis by simp
qed

lemma evolves_put_all:
  assumes "cdb_ok m db" "\<And>c. cmd_id (g c) = cmd_id c" "set rows \<subseteq> set (commands db)" "distinct rows"
    and "\<And>c. c \<in> set rows \<Longrightarrow> moves m c (g c)"
  shows "evolves m db (put_all g rows db)"
  unfolding evolves_def using assms
  by (intro exI [of _ "\<lambda>x. if x \<in> set rows then g x else x"] exI [of _ "[]"]) (simp add: commands_put_all cdb_ok_def)

lemma distinct_commands: "cdb_ok m db \<Longrightarrow> distinct (commands db)"
  by (auto simp: cdb_ok_def distinct_map)

lemma picked_rows:
  assumes "cdb_ok m db"
  shows "set (take n (sort_key k (filter P (commands db)))) \<subseteq> set (commands db)"
    "distinct (take n (sort_key k (filter P (commands db))))"
    "c \<in> set (take n (sort_key k (filter P (commands db)))) \<Longrightarrow> P c"
  using distinct_commands [OF assms] by (auto dest: in_set_takeD)

section \<open>Every operation evolves the queue\<close>

lemma new_command_ok:
  "(kind \<in> set AGENT_SCOPED_KINDS \<longleftrightarrow> item = None) \<Longrightarrow> cmd_ok m (new_command db k kind item pl now ttl actor)"
  by (simp add: cmd_ok_def new_command_def terminal_iff)

lemma evolves_new:
  assumes "kind \<in> set AGENT_SCOPED_KINDS \<longleftrightarrow> item = None"
  shows "evolves m db (add_cmd (new_command db k kind item pl now ttl actor) db)"
  by (rule evolves_add [OF new_command_ok [OF assms]]) (simp add: new_command_def)

lemma evolves_refl [simp]: "evolves m db db"
  by (rule evolves_same) simp_all

lemma enqueue_evolves: "evolves m db (fst (enqueue_command cfg granted actor db k body now))"
  by (auto simp: enqueue_command_def Let_def intro!: evolves_new split: option.splits)

lemma evolves_scoped:
  "kind \<in> set AGENT_SCOPED_KINDS \<Longrightarrow> evolves m db (add_cmd (enqueue_agent_scoped cfg db k kind pl t now actor) db)"
  by (simp add: enqueue_agent_scoped_def Let_def evolves_new)

lemma queue_job_evolves: "kind \<in> set AGENT_SCOPED_KINDS \<Longrightarrow> evolves m db (fst (queue_job cfg actor db k kind pl t now))"
  by (simp add: queue_job_def evolves_scoped Let_def)

lemma job_kinds: "list_all (\<lambda>k. k \<in> set AGENT_SCOPED_KINDS) [suspend, agent_maintenance, reextract, reconcile, rehash_sweep]"
  by code_simp

lemma jobs_evolve:
  "evolves m db (fst (run_agent_maintenance cfg granted actor db k now))"
  "evolves m db (fst (reextract_agent cfg granted actor db k force max_items now))"
  "evolves m db (fst (reconcile_agent cfg granted actor db k force now))"
  "evolves m db (fst (rehash_sweep_agent cfg granted actor db k force max_items lo hi now))"
  using job_kinds
  by (auto simp: run_agent_maintenance_def reextract_agent_def reconcile_agent_def rehash_sweep_agent_def Let_def
      queue_job_evolves split: sum.splits)

lemma suspend_evolves: "cdb_ok m db \<Longrightarrow> evolves m db (fst (suspend_agent cfg granted actor locked db k b now))"
  using job_kinds
  by (auto simp: suspend_agent_def Let_def evolves_scoped moves_def same_identity_def cmd_ok_def terminal_iff
      intro!: evolves_put dest: find_SomeD split: sum.splits option.splits)

lemma find_cmd_SomeD: "find_cmd db k = Some c \<Longrightarrow> c \<in> set (commands db) \<and> cmd_id c = k"
  by (auto simp: find_cmd_def dest: find_SomeD)

lemma cancel_evolves: "cdb_ok m db \<Longrightarrow> evolves m db (fst (cancel_command granted db k now))"
  by (auto simp: cancel_command_def Let_def moves_def same_identity_def cmd_ok_def terminal_iff command_steps
      intro!: evolves_put dest!: find_cmd_SomeD split: option.splits)

lemma evolves_cong: "evolves m db db' \<Longrightarrow> commands db'' = commands db' \<Longrightarrow> next_cmd db'' = next_cmd db' \<Longrightarrow> evolves m db db''"
  by (simp add: evolves_def)

lemma evolves_cong_left: "evolves m db db' \<Longrightarrow> commands db = commands db0 \<Longrightarrow> next_cmd db = next_cmd db0 \<Longrightarrow> evolves m db0 db'"
  by (simp add: evolves_def)

lemma put_cmd_fields [simp]:
  "next_cmd (put_cmd c db) = next_cmd db" "fleet (put_cmd c db) = fleet db" "catalogue (put_cmd c db) = catalogue db"
  "commands (put_cmd c (db\<lparr>fleet := x\<rparr>)) = commands (put_cmd c db)"
  by (simp_all add: put_cmd_def)

lemma find_cmd_fleet [simp]: "find_cmd (db\<lparr>fleet := x\<rparr>) k = find_cmd db k" "owned_command (db\<lparr>fleet := x\<rparr>) k cid = owned_command db k cid"
  by (simp_all add: find_cmd_def owned_command_def)

lemma owned_command_ok: "owned_command db k cid = Inr c \<Longrightarrow> c \<in> set (commands db) \<and> cmd_id c = cid \<and> cmd_agent c = k"
  by (auto simp: owned_command_def dest: find_cmd_SomeD split: option.splits if_splits)

lemma ack_evolves:
  assumes "cdb_ok m db"
  shows "evolves m db (fst (ack_command cfg db k cid rq now))"
proof -
  have step: "evolves m db (put_cmd (c\<lparr>cmd_status := c_picked_up, picked_up_at := Some now, updated_at := now\<rparr>) (db\<lparr>fleet := x\<rparr>))"
    if "c \<in> set (commands db)" "cmd_status c = c_picked_up" for c x
    by (rule evolves_cong [OF evolves_put [OF assms that(1)]])
      (use that in \<open>auto simp: moves_def same_identity_def cmd_ok_def terminal_iff\<close>)
  have same: "evolves m db (db\<lparr>fleet := x\<rparr>)" for x by (rule evolves_same) simp_all
  have "command_state_machine c_picked_up cv_ack = Some c_picked_up" by (simp add: command_steps)
  then show ?thesis using step same owned_command_ok
    by (auto simp: ack_command_def Let_def split: sum.splits prod.splits)
qed

lemma reconcile_completion_cmds:
  "reconcile_completion parse db c d now = Inr (db', out) \<Longrightarrow> commands db' = commands db \<and> next_cmd db' = next_cmd db \<and> fleet db' = fleet db"
  by (auto simp: reconcile_completion_def bind_res_Inr split: if_splits option.splits)

lemma complete_cases:
  assumes "authenticate_agent (agent_auth_mode cfg) (proxy_shared_secret cfg) (fleet db) k rq = Inr (flt, a)"
    and "complete_command cfg parse db k cid body rq now = (db', r)"
  shows "db' = db\<lparr>fleet := flt\<rparr> \<or> (\<exists>c s. c \<in> set (commands db) \<and> cmd_status c = c_picked_up \<and> command_is_terminal s
    \<and> commands db' = commands (put_cmd (c\<lparr>cmd_status := s, cmd_result := co_result body, completed_at := Some now, updated_at := now\<rparr>) db)
    \<and> next_cmd db' = next_cmd db)"
proof (cases "owned_command db k cid")
  case (Inr c)
  let ?s = "if co_ok body then c_done else c_failed"
  have st: "command_state_machine c_picked_up (if co_ok body then cv_complete else cv_fail) = Some ?s" by (simp add: command_steps)
  show ?thesis
  proof (cases "cmd_status c = c_picked_up \<and> \<not> result_too_large cfg body")
    case True
    let ?c = "c\<lparr>cmd_status := ?s, cmd_result := co_result body, completed_at := Some now, updated_at := now\<rparr>"
    let ?db2 = "put_cmd ?c (db\<lparr>fleet := put_agent a flt\<rparr>)"
    have "db' = db\<lparr>fleet := flt\<rparr> \<or> db' = ?db2 \<or> (\<exists>d out. reconcile_completion parse ?db2 ?c d now = Inr (db', out))"
      using assms Inr True st
      by (auto simp: complete_command_def Let_def split: option.splits sum.splits prod.splits if_splits)
    then have "db' = db\<lparr>fleet := flt\<rparr> \<or> commands db' = commands (put_cmd ?c db) \<and> next_cmd db' = next_cmd db"
      using reconcile_completion_cmds [of parse ?db2 ?c _ now db'] by auto
    moreover have "command_is_terminal ?s" by (simp add: terminal_iff)
    moreover have "c \<in> set (commands db)" using owned_command_ok [OF Inr] by blast
    ultimately show ?thesis using True by blast
  next
    case False
    with assms Inr show ?thesis by (auto simp: complete_command_def Let_def split: if_splits)
  qed
qed (use assms in \<open>auto simp: complete_command_def Let_def\<close>)

lemma complete_evolves:
  assumes "cdb_ok m db"
  shows "evolves m db (fst (complete_command cfg parse db k cid body rq now))"
proof (cases "authenticate_agent (agent_auth_mode cfg) (proxy_shared_secret cfg) (fleet db) k rq")
  case (Inr p)
  obtain flt a where p: "p = (flt, a)" by force
  obtain db' r where r: "complete_command cfg parse db k cid body rq now = (db', r)" by force
  have put: "evolves m db db'" if "c \<in> set (commands db)" "cmd_status c = c_picked_up" "command_is_terminal s"
    "commands db' = commands (put_cmd (c\<lparr>cmd_status := s, cmd_result := co_result body, completed_at := Some now, updated_at := now\<rparr>) db)"
    "next_cmd db' = next_cmd db" for c s
    by (rule evolves_cong [OF evolves_put [OF assms that(1)] that(4)])
      (use that in \<open>auto simp: moves_def same_identity_def cmd_ok_def terminal_iff\<close>)
  have same: "evolves m db (db\<lparr>fleet := flt\<rparr>)" by (rule evolves_same) simp_all
  show ?thesis using complete_cases [OF Inr [unfolded p] r] put same r by auto
qed (simp add: complete_command_def)

section \<open>Polling\<close>

lemma deliver_rows_eq:
  "list_all (\<lambda>c. cmd_status c = c_pending) rows \<Longrightarrow>
   deliver_rows now rows db = Inr (put_all (\<lambda>c. deliver now c c_picked_up) rows db, map (\<lambda>c. deliver now c c_picked_up) rows)"
proof (induction rows arbitrary: db)
  case (Cons c rows)
  have "command_state_machine c_pending cv_deliver = Some c_picked_up" by (simp add: command_steps)
  with Cons show ?case by (simp add: put_all_def)
qed (simp add: put_all_def)

lemma deliver_fields [simp]: "cmd_id (deliver now c s) = cmd_id c"
  by (simp add: deliver_def)

lemma deliver_moves: "cmd_status c = c_pending \<Longrightarrow> moves m c (deliver now c c_picked_up)"
  by (auto simp: moves_def same_identity_def cmd_ok_def deliver_def terminal_iff)

definition poll_rows :: "command_settings \<Rightarrow> (nat \<Rightarrow> bool) \<Rightarrow> cdb \<Rightarrow> nat \<Rightarrow> PollIn \<Rightarrow> int \<Rightarrow> Command list" where
  "poll_rows cfg locked db k body now =
     take (min (po_max body) (poll_max cfg)) (sort_key created_at (filter (deliverable locked k now) (commands db)))"

lemma poll_rows_pending: "list_all (\<lambda>c. cmd_status c = c_pending) (poll_rows cfg locked db k body now)"
  by (auto simp: poll_rows_def list_all_iff deliverable_def dest!: in_set_takeD)

lemma poll_eq:
  assumes "authenticate_agent (agent_auth_mode cfg) (proxy_shared_secret cfg) (fleet db) k rq = Inr (flt, a)"
  shows "poll_commands cfg mt locked db k body rq now =
    ((put_all (\<lambda>c. deliver now c c_picked_up) (poll_rows cfg locked db k body now) db)\<lparr>fleet := put_agent (poll_stamp cfg body now a) flt\<rparr>,
     Inr (mt, map (\<lambda>c. deliver now c c_picked_up) (poll_rows cfg locked db k body now)))"
  using assms deliver_rows_eq [OF poll_rows_pending, of now cfg locked db k body now db]
  by (simp add: poll_commands_def Let_def poll_rows_def)

lemma poll_put_all_evolves:
  assumes "cdb_ok m db"
  shows "evolves m db (put_all (\<lambda>c. deliver now c c_picked_up) (poll_rows cfg locked db k body now) db)"
proof (rule evolves_put_all [OF assms])
  show "set (poll_rows cfg locked db k body now) \<subseteq> set (commands db)" "distinct (poll_rows cfg locked db k body now)"
    unfolding poll_rows_def by (rule picked_rows [OF assms])+
  show "moves m c (deliver now c c_picked_up)" if "c \<in> set (poll_rows cfg locked db k body now)" for c
    using that poll_rows_pending [of cfg locked db k body now] by (intro deliver_moves) (simp add: list_all_iff)
qed simp

lemma poll_evolves:
  assumes "cdb_ok m db"
  shows "evolves m db (fst (poll_commands cfg mt locked db k body rq now))"
proof (cases "authenticate_agent (agent_auth_mode cfg) (proxy_shared_secret cfg) (fleet db) k rq")
  case (Inr p)
  obtain flt a where "p = (flt, a)" by force
  with Inr poll_eq show ?thesis by (auto intro: evolves_cong [OF poll_put_all_evolves [OF assms]])
qed (simp add: poll_commands_def)

section \<open>Sweeping\<close>

definition decision :: "int \<Rightarrow> int \<Rightarrow> nat \<Rightarrow> Command \<Rightarrow> sweep_action option" where
  "decision now lease m c = sweep_decision (cmd_status c) (expires_at c) (picked_up_at c) (attempts c) now lease m"

definition swept :: "int \<Rightarrow> int \<Rightarrow> nat \<Rightarrow> Command \<Rightarrow> Command" where
  "swept now lease m c = (case decision now lease m c of
       None \<Rightarrow> c
     | Some Expire \<Rightarrow> c\<lparr>cmd_status := c_expired, completed_at := Some now, updated_at := now\<rparr>
     | Some Exhaust \<Rightarrow> c\<lparr>cmd_status := c_failed,
         cmd_result := Some [(''error'', JStr ''max_delivery_attempts''), (''attempts'', JInt (int (attempts c)))],
         completed_at := Some now, updated_at := now\<rparr>
     | Some Redeliver \<Rightarrow> c\<lparr>cmd_status := c_pending, picked_up_at := None, updated_at := now\<rparr>)"

lemma decision_cases:
  "decision now lease m c = Some Expire \<Longrightarrow> \<not> command_is_terminal (cmd_status c) \<and> expires_at c \<le> now"
  "decision now lease m c = Some Exhaust \<Longrightarrow> cmd_status c = c_picked_up \<and> now < expires_at c \<and> m \<le> attempts c"
  "decision now lease m c = Some Redeliver \<Longrightarrow> cmd_status c = c_picked_up \<and> now < expires_at c \<and> attempts c < m"
  by (auto simp: decision_def sweep_decision_def terminal_iff split: if_splits option.splits)

lemma target_decides: "sweep_target now lease c \<longleftrightarrow> decision now lease m c \<noteq> None"
  by (auto simp: sweep_target_def decision_def sweep_decision_def split: option.splits)

lemma sweep_cmd_eq:
  "\<exists>n'. sweep_cmd now lease m c n = Inr (swept now lease m c, n')
     \<and> n_expired n' + n_redelivered n' + n_exhausted n' =
        n_expired n + n_redelivered n + n_exhausted n + (if decision now lease m c = None then 0 else 1)"
proof (cases "decision now lease m c")
  case None
  then show ?thesis by (simp add: sweep_cmd_def swept_def decision_def)
next
  case (Some d)
  have s: "command_state_machine c_picked_up cv_fail = Some c_failed" "command_state_machine c_picked_up cv_redeliver = Some c_pending"
    by (simp_all add: command_steps)
  have e: "\<not> command_is_terminal st \<Longrightarrow> command_state_machine st cv_expire = Some c_expired" for st
    by (auto simp: command_steps terminal_iff)
  show ?thesis unfolding sweep_cmd_def decision_def [symmetric] swept_def Some
    using Some decision_cases [of now lease m c] s e by (cases d) simp_all
qed

lemma sweep_rows_eq:
  "\<exists>n'. sweep_rows now lease m rows (db, n) = Inr (put_all (swept now lease m) rows db, n')
     \<and> n_expired n' + n_redelivered n' + n_exhausted n' =
        n_expired n + n_redelivered n + n_exhausted n + length (filter (\<lambda>c. decision now lease m c \<noteq> None) rows)"
proof (induction rows arbitrary: db n)
  case (Cons c rows)
  obtain n1 where one: "sweep_cmd now lease m c n = Inr (swept now lease m c, n1)"
    and c1: "n_expired n1 + n_redelivered n1 + n_exhausted n1 =
        n_expired n + n_redelivered n + n_exhausted n + (if decision now lease m c = None then 0 else 1)"
    using sweep_cmd_eq by blast
  obtain n2 where "sweep_rows now lease m rows (put_cmd (swept now lease m c) db, n1)
      = Inr (put_all (swept now lease m) rows (put_cmd (swept now lease m c) db), n2)"
    and "n_expired n2 + n_redelivered n2 + n_exhausted n2 =
        n_expired n1 + n_redelivered n1 + n_exhausted n1 + length (filter (\<lambda>c. decision now lease m c \<noteq> None) rows)"
    using Cons.IH by blast
  with one c1 show ?case by (auto simp: put_all_def)
qed (simp add: put_all_def)

lemma swept_id [simp]: "cmd_id (swept now lease m c) = cmd_id c"
  by (simp add: swept_def split: option.splits sweep_action.splits)

lemma swept_moves: "sweep_target now lease c \<Longrightarrow> moves m c (swept now lease m c)"
proof -
  assume "sweep_target now lease c"
  then obtain d where d: "decision now lease m c = Some d" using target_decides by blast
  with decision_cases [of now lease m c] show ?thesis
    by (cases d) (auto simp: swept_def moves_def same_identity_def cmd_ok_def terminal_iff)
qed

definition sweep_list :: "(nat \<Rightarrow> bool) \<Rightarrow> int \<Rightarrow> int \<Rightarrow> nat \<Rightarrow> cdb \<Rightarrow> Command list" where
  "sweep_list locked now lease limit db =
     take limit (sort_key expires_at (filter (\<lambda>c. sweep_target now lease c \<and> \<not> locked (cmd_id c)) (commands db)))"

lemma sweep_eq:
  "\<exists>n. run_agent_command_sweep locked now lease m limit db = Inr (put_all (swept now lease m) (sweep_list locked now lease limit db) db, n)
     \<and> n_expired n + n_redelivered n + n_exhausted n = length (sweep_list locked now lease limit db)"
proof -
  let ?rows = "sweep_list locked now lease limit db"
  have "filter (\<lambda>c. decision now lease m c \<noteq> None) ?rows = ?rows"
    by (auto simp: filter_id_conv sweep_list_def target_decides [of now lease _ m] dest!: in_set_takeD)
  with sweep_rows_eq [of now lease m ?rows db zero_sweep] show ?thesis
    by (simp add: run_agent_command_sweep_def sweep_list_def zero_sweep_def)
qed

lemma sweep_evolves:
  assumes "cdb_ok m db" "run_agent_command_sweep locked now lease m limit db = Inr (db', n)"
  shows "evolves m db db'"
proof -
  have "db' = put_all (swept now lease m) (sweep_list locked now lease limit db) db"
    using sweep_eq [of locked now lease m limit db] assms(2) by auto
  moreover have "evolves m db (put_all (swept now lease m) (sweep_list locked now lease limit db) db)"
  proof (rule evolves_put_all [OF assms(1)])
    show "set (sweep_list locked now lease limit db) \<subseteq> set (commands db)" "distinct (sweep_list locked now lease limit db)"
      unfolding sweep_list_def by (rule picked_rows [OF assms(1)])+
    show "moves m c (swept now lease m c)" if "c \<in> set (sweep_list locked now lease limit db)" for c
      using that by (intro swept_moves) (auto simp: sweep_list_def dest!: in_set_takeD)
  qed simp
  ultimately show ?thesis by simp
qed

section \<open>Reachable queues\<close>

text \<open>Anything operators, agents and the periodic sweep can do, in any order and with any outcome.\<close>

inductive cstep :: "command_settings \<Rightarrow> nat \<Rightarrow> cdb \<Rightarrow> cdb \<Rightarrow> bool" for cfg m where
  Enqueue: "enqueue_command cfg granted actor db k body now = (db', r) \<Longrightarrow> cstep cfg m db db'"
| Suspend: "suspend_agent cfg granted actor locked db k b now = (db', r) \<Longrightarrow> cstep cfg m db db'"
| Maintain: "run_agent_maintenance cfg granted actor db k now = (db', r) \<Longrightarrow> cstep cfg m db db'"
| Reextract: "reextract_agent cfg granted actor db k force max_items now = (db', r) \<Longrightarrow> cstep cfg m db db'"
| Reconcile: "reconcile_agent cfg granted actor db k force now = (db', r) \<Longrightarrow> cstep cfg m db db'"
| Rehash: "rehash_sweep_agent cfg granted actor db k force max_items lo hi now = (db', r) \<Longrightarrow> cstep cfg m db db'"
| Cancel: "cancel_command granted db cid now = (db', r) \<Longrightarrow> cstep cfg m db db'"
| Poll: "poll_commands cfg mt locked db k po rq now = (db', rs) \<Longrightarrow> cstep cfg m db db'"
| Ack: "ack_command cfg db k cid rq now = (db', r) \<Longrightarrow> cstep cfg m db db'"
| Complete: "complete_command cfg parse db k cid co rq now = (db', rc) \<Longrightarrow> cstep cfg m db db'"
| Sweep: "run_agent_command_sweep locked now lease m limit db = Inr (db', n) \<Longrightarrow> cstep cfg m db db'"

lemma cstep_evolves: "cstep cfg m db db' \<Longrightarrow> cdb_ok m db \<Longrightarrow> evolves m db db'"
proof (induction rule: cstep.induct)
  case Enqueue
  then show ?case by (metis enqueue_evolves fst_conv)
next
  case Suspend
  then show ?case by (metis suspend_evolves fst_conv)
next
  case Maintain
  then show ?case by (metis jobs_evolve(1) fst_conv)
next
  case Reextract
  then show ?case by (metis jobs_evolve(2) fst_conv)
next
  case Reconcile
  then show ?case by (metis jobs_evolve(3) fst_conv)
next
  case Rehash
  then show ?case by (metis jobs_evolve(4) fst_conv)
next
  case Cancel
  then show ?case by (metis cancel_evolves fst_conv)
next
  case Poll
  then show ?case by (metis poll_evolves fst_conv)
next
  case Ack
  then show ?case by (metis ack_evolves fst_conv)
next
  case Complete
  then show ?case by (metis complete_evolves fst_conv)
next
  case Sweep
  then show ?case by (metis sweep_evolves)
qed

lemma csteps_ok: "(cstep cfg m)\<^sup>*\<^sup>* db db' \<Longrightarrow> cdb_ok m db \<Longrightarrow> cdb_ok m db'"
  by (induction rule: rtranclp_induct) (auto intro: evolves_ok cstep_evolves)

lemma csteps_terminal:
  "(cstep cfg m)\<^sup>*\<^sup>* db db' \<Longrightarrow> cdb_ok m db \<Longrightarrow> c \<in> set (commands db) \<Longrightarrow> command_is_terminal (cmd_status c) \<Longrightarrow> c \<in> set (commands db')"
proof (induction rule: rtranclp_induct)
  case (step db1 db2)
  then show ?case by (meson csteps_ok cstep_evolves evolves_terminal)
qed

lemma find_cmd_in: "cdb_ok m db \<Longrightarrow> c \<in> set (commands db) \<Longrightarrow> find_cmd db (cmd_id c) = Some c"
proof -
  assume ok: "cdb_ok m db" and c: "c \<in> set (commands db)"
  show ?thesis
  proof (cases "find_cmd db (cmd_id c)")
    case None
    with c show ?thesis by (auto simp: find_cmd_def dest: find_NoneD)
  next
    case (Some d)
    from find_cmd_SomeD [OF Some] ok c have "d = c" by (auto simp: cdb_ok_def distinct_map inj_on_def)
    with Some show ?thesis by simp
  qed
qed

section \<open>Samples\<close>

definition sample_cmd_settings :: command_settings where
  "sample_cmd_settings = \<lparr>ttl_seconds = 3600, ttl_max_seconds = 86400, poll_max = 50, payload_max_bytes = 16384,
     result_max_bytes = 65536, capabilities_max_bytes = 16384, agent_auth_mode = fingerprint_mode, proxy_shared_secret = None\<rparr>"

definition sample_item :: Item where
  "sample_item = \<lparr>item_id = 3, library_id = 2, file_category = ''audio'', file_group = ''music'', item_path = ''a'', item_rel_path = ''a'',
     filename = ''a'', extension = None, item_size = 5, item_mtime = 0, quick_hash = Some ''q'', content_hash = Some ''h'',
     item_status = active, source_agent_id = Some 7, first_seen = 0, last_seen = 0, path_scope = [], share_hint = None, metadata = []\<rparr>"

definition sample_cdb :: cdb where
  "sample_cdb = \<lparr>commands = [], fleet = sample_fleet, catalogue = empty_central\<lparr>items := [sample_item], next_id := 9\<rparr>,
     last_verified_at = [], next_cmd = 1\<rparr>"

definition stat_body :: CommandEnqueueIn where
  "stat_body = \<lparr>en_kind = stat_check, en_item = Some 3, en_payload = [], en_ttl_seconds = None\<rparr>"

definition queued_cdb :: cdb where
  "queued_cdb = fst (enqueue_command sample_cmd_settings [''write''] None sample_cdb 7 stat_body 10)"

definition any_poll :: PollIn where
  "any_poll = \<lparr>po_max = 10, po_capabilities = None, po_health = None, po_version = None\<rparr>"

definition polled_cdb :: cdb where
  "polled_cdb = fst (poll_commands sample_cmd_settings False (\<lambda>_. False) queued_cdb 7 any_poll (bearer_request ''ab12'') 20)"

lemma sample_cdb_ok: "cdb_ok m sample_cdb"
  by (simp add: cdb_ok_def sample_cdb_def)

lemma queued_reached: "(cstep sample_cmd_settings m)\<^sup>*\<^sup>* sample_cdb queued_cdb"
  unfolding queued_cdb_def using cstep.Enqueue [OF prod.collapse [symmetric]] by blast

lemma polled_reached: "(cstep sample_cmd_settings m)\<^sup>*\<^sup>* sample_cdb polled_cdb"
  unfolding polled_cdb_def using queued_reached cstep.Poll [OF prod.collapse [symmetric]] by (meson rtranclp.rtrancl_into_rtrancl)

section \<open>Properties of the queue\<close>

text \<open>
  Property C13. Starting from an empty queue, whatever operators, agents and sweeps do: ids stay
  unique; no command is delivered more often than the attempt limit allows; a pending command has no
  lease and a running one has; a completion time is present exactly in the terminal states; and
  exactly the item-scoped kinds carry an item.
\<close>

theorem commands_reachable_ok:
  assumes "(cstep cfg m)\<^sup>*\<^sup>* db0 db" and "commands db0 = []"
  shows "distinct (map cmd_id (commands db))
    \<and> list_all (\<lambda>c. attempts c \<le> max 1 m
        \<and> (case cmd_status c of c_pending \<Rightarrow> picked_up_at c = None | c_picked_up \<Rightarrow> picked_up_at c \<noteq> None | _ \<Rightarrow> True)
        \<and> (completed_at c \<noteq> None \<longleftrightarrow> command_is_terminal (cmd_status c))
        \<and> (cmd_item c = None \<longleftrightarrow> cmd_kind c \<in> set AGENT_SCOPED_KINDS)) (commands db)"
proof -
  have "cdb_ok m db" using csteps_ok [OF assms(1)] assms(2) by (simp add: cdb_ok_def)
  then show ?thesis by (auto simp: cdb_ok_def cmd_ok_def list_all_iff split: CommandState.splits)
qed

theorem commands_reachable_ok_witness:
  "length (commands polled_cdb) = 1 \<and> list_all (\<lambda>c. cmd_status c = c_picked_up \<and> attempts c = 1) (commands polled_cdb)
   \<and> distinct (map cmd_id (commands polled_cdb))"
proof -
  have "length (commands polled_cdb) = 1" "list_all (\<lambda>c. cmd_status c = c_picked_up \<and> attempts c = 1) (commands polled_cdb)"
    by code_simp+
  with commands_reachable_ok [OF polled_reached [of 5]] show ?thesis by (simp add: sample_cdb_def)
qed



lemma sweep_empty: "sweep_list locked now lease limit db = [] \<Longrightarrow> run_agent_command_sweep locked now lease m limit db = Inr (db, zero_sweep)"
  by (simp only: run_agent_command_sweep_def sweep_list_def [symmetric] sweep_rows.simps)

text \<open>
  Property C15. A sweep that meets no locked rows and is not cut off by its limit settles the queue: it
  succeeds, afterwards nothing is overdue (every command past its time to live is terminal and every
  running one has a fresh lease), and sweeping again at the same time changes nothing.
\<close>

theorem command_sweep_settles:
  assumes "cdb_ok m db" and "length (commands db) \<le> limit"
  shows "\<exists>db' n. run_agent_command_sweep (\<lambda>_. False) now lease m limit db = Inr (db', n)
    \<and> list_all (\<lambda>c. (expires_at c \<le> now \<longrightarrow> command_is_terminal (cmd_status c))
         \<and> (cmd_status c = c_picked_up \<longrightarrow> (\<exists>p. picked_up_at c = Some p \<and> now - seconds lease < p))) (commands db')
    \<and> run_agent_command_sweep (\<lambda>_. False) now lease m limit db' = Inr (db', zero_sweep)"
proof -
  let ?rows = "sweep_list (\<lambda>_. False) now lease limit db"
  let ?db = "put_all (swept now lease m) ?rows db"
  obtain n where run: "run_agent_command_sweep (\<lambda>_. False) now lease m limit db = Inr (?db, n)" using sweep_eq by blast
  have "length (filter (sweep_target now lease) (commands db)) \<le> limit"
    using assms(2) length_filter_le [of "sweep_target now lease" "commands db"] by linarith
  then have rows: "x \<in> set ?rows \<longleftrightarrow> x \<in> set (commands db) \<and> sweep_target now lease x" for x
    by (simp add: sweep_list_def)
  have "commands ?db = map (\<lambda>x. if x \<in> set ?rows then swept now lease m x else x) (commands db)"
  proof (rule commands_put_all)
    show "set ?rows \<subseteq> set (commands db)" "distinct ?rows" unfolding sweep_list_def by (rule picked_rows [OF assms(1)])+
  qed (use assms(1) in \<open>simp_all add: cdb_ok_def\<close>)
  then have cmds: "commands ?db = map (swept now lease m) (commands db)"
    using target_decides [of now lease _ m] by (auto simp: rows swept_def)
  have quiet: "\<not> sweep_target now lease (swept now lease m c)" for c
    using decision_cases [of now lease m c] target_decides [of now lease c m]
    by (cases "decision now lease m c") (auto simp: swept_def sweep_target_def split: sweep_action.splits)
  have ok': "cdb_ok m ?db" by (rule evolves_ok [OF sweep_evolves [OF assms(1) run] assms(1)])
  have "(expires_at c \<le> now \<longrightarrow> command_is_terminal (cmd_status c))
      \<and> (cmd_status c = c_picked_up \<longrightarrow> (\<exists>p. picked_up_at c = Some p \<and> now - seconds lease < p))" if "c \<in> set (commands ?db)" for c
  proof -
    have "\<not> sweep_target now lease c" using that quiet by (auto simp: cmds)
    moreover have "cmd_ok m c" using that ok' by (auto simp: cdb_ok_def list_all_iff)
    ultimately show ?thesis by (auto simp: sweep_target_def cmd_ok_def terminal_iff)
  qed
  moreover have "sweep_list (\<lambda>_. False) now lease limit ?db = []"
  proof -
    have "filter (sweep_target now lease) (commands ?db) = []" unfolding cmds using quiet by (simp add: filter_empty_conv)
    then show ?thesis by (simp add: sweep_list_def [of _ _ _ _ ?db])
  qed
  then have "run_agent_command_sweep (\<lambda>_. False) now lease m limit ?db = Inr (?db, zero_sweep)"
    by (simp add: sweep_empty)
  ultimately show ?thesis using run by (auto simp: list_all_iff)
qed

theorem command_sweep_settles_witness:
  "\<exists>db' n. run_agent_command_sweep (\<lambda>_. False) (seconds 5000) 300 5 500 polled_cdb = Inr (db', n)
     \<and> list_all (\<lambda>c. cmd_status c = c_expired) (commands db')
     \<and> run_agent_command_sweep (\<lambda>_. False) (seconds 5000) 300 5 500 db' = Inr (db', zero_sweep)"
proof -
  have ok: "cdb_ok 5 polled_cdb" using csteps_ok [OF polled_reached sample_cdb_ok] .
  have len: "length (commands polled_cdb) \<le> 500" by code_simp
  have "case run_agent_command_sweep (\<lambda>_. False) (seconds 5000) 300 5 500 polled_cdb of
      Inr (db', n) \<Rightarrow> list_all (\<lambda>c. cmd_status c = c_expired) (commands db') | Inl _ \<Rightarrow> False" by code_simp
  with command_sweep_settles [OF ok len, of "seconds 5000" 300] show ?thesis by auto
qed

text \<open>
  A poll delivers the oldest of the agent's own pending, unexpired and unlocked commands,
  as many as the agent asked for and the server allows; each is marked running with one more attempt
  and a lease from now, and no other command of the table changes.
\<close>

theorem poll_delivers_oldest:
  assumes "cdb_ok m db"
    and "authenticate_agent (agent_auth_mode cfg) (proxy_shared_secret cfg) (fleet db) k rq = Inr (flt, a)"
  shows "\<exists>rows db'. poll_commands cfg mt locked db k body rq now = (db', Inr (mt, map (\<lambda>c. deliver now c c_picked_up) rows))
    \<and> length rows = min (min (po_max body) (poll_max cfg)) (length (filter (deliverable locked k now) (commands db)))
    \<and> list_all (deliverable locked k now) rows
    \<and> list_all (\<lambda>c. deliverable locked k now c \<and> c \<notin> set rows \<longrightarrow> list_all (\<lambda>r. created_at r \<le> created_at c) rows) (commands db)
    \<and> commands db' = map (\<lambda>c. if c \<in> set rows then deliver now c c_picked_up else c) (commands db)"
proof -
  let ?rows = "poll_rows cfg locked db k body now" and ?n = "min (po_max body) (poll_max cfg)"
  let ?s = "sort_key created_at (filter (deliverable locked k now) (commands db))"
  have rows: "?rows = take ?n ?s" by (simp add: poll_rows_def)
  have "created_at r \<le> created_at c" if "c \<in> set ?s" "c \<notin> set ?rows" "r \<in> set ?rows" for c r
  proof -
    have "sorted (map created_at (take ?n ?s @ drop ?n ?s))" by (simp only: append_take_drop_id sorted_sort_key)
    moreover have "c \<in> set (drop ?n ?s)" using that(1,2) by (metis Un_iff append_take_drop_id rows set_append)
    ultimately show ?thesis using that(3) by (auto simp: rows sorted_append simp del: append_take_drop_id)
  qed
  then have fifo: "list_all (\<lambda>c. deliverable locked k now c \<and> c \<notin> set ?rows \<longrightarrow> list_all (\<lambda>r. created_at r \<le> created_at c) ?rows) (commands db)"
    by (simp add: list_all_iff)
  have "list_all (deliverable locked k now) ?rows"
    using picked_rows(3) [OF assms(1)] unfolding rows list_all_iff by blast
  moreover have "commands (put_all (\<lambda>c. deliver now c c_picked_up) ?rows db) = map (\<lambda>c. if c \<in> set ?rows then deliver now c c_picked_up else c) (commands db)"
  proof (rule commands_put_all)
    show "set ?rows \<subseteq> set (commands db)" "distinct ?rows" unfolding rows by (rule picked_rows [OF assms(1)])+
  qed (use assms(1) in \<open>simp_all add: cdb_ok_def\<close>)
  moreover have "length ?rows = min ?n (length (filter (deliverable locked k now) (commands db)))" by (simp add: rows min.commute)
  ultimately show ?thesis unfolding poll_eq [OF assms(2)] using fifo
    by (intro exI [of _ ?rows] exI) (auto intro!: prod.inject [THEN iffD2])
qed

theorem poll_delivers_oldest_witness:
  "\<exists>db' c. poll_commands sample_cmd_settings False (\<lambda>_. False) queued_cdb 7 any_poll (bearer_request ''ab12'') 20 = (db', Inr (False, [c]))
     \<and> cmd_status c = c_picked_up"
proof -
  have ok: "cdb_ok 5 queued_cdb" using csteps_ok [OF queued_reached sample_cdb_ok] .
  have "case authenticate_agent (agent_auth_mode sample_cmd_settings) (proxy_shared_secret sample_cmd_settings) (fleet queued_cdb) 7 (bearer_request ''ab12'')
      of Inr (flt, a) \<Rightarrow> True | Inl _ \<Rightarrow> False" by code_simp
  then obtain flt a where au: "authenticate_agent (agent_auth_mode sample_cmd_settings) (proxy_shared_secret sample_cmd_settings)
      (fleet queued_cdb) 7 (bearer_request ''ab12'') = Inr (flt, a)" by (auto split: sum.splits)
  have one: "min (min (po_max any_poll) (poll_max sample_cmd_settings)) (length (filter (deliverable (\<lambda>_. False) 7 20) (commands queued_cdb))) = 1"
    by code_simp
  from poll_delivers_oldest [OF ok au, of False "\<lambda>_. False" any_poll 20, unfolded one]
  obtain rows db' where r: "poll_commands sample_cmd_settings False (\<lambda>_. False) queued_cdb 7 any_poll (bearer_request ''ab12'') 20
      = (db', Inr (False, map (\<lambda>c. deliver 20 c c_picked_up) rows))" "length rows = 1" by blast
  then obtain c where "rows = [c]" by (metis One_nat_def Suc_length_conv length_0_conv)
  with r show ?thesis by (simp add: deliver_def)
qed

lemma verify_size_spec:
  "verify_size parsed (item, d) = (item', d') \<Longrightarrow> item' = item\<lparr>item_size := (case r_size parsed of Some n \<Rightarrow> n | None \<Rightarrow> item_size item)\<rparr>
     \<and> (d' = [] \<longrightarrow> d = [] \<and> item' = item)"
  by (auto simp: verify_size_def split: option.splits if_splits)

lemma verify_mtime_spec:
  "verify_mtime parsed (item, d) = Inr (item', d') \<Longrightarrow> (\<exists>us. item' = item\<lparr>item_mtime := us\<rparr>) \<and> (d' = [] \<longrightarrow> d = [] \<and> item' = item)"
  "verify_mtime parsed (item, d) = Inl e \<Longrightarrow> \<exists>t. r_mtime parsed = Some t \<and> datetime_of t = Inl e"
proof -
  have "\<exists>us. item = item\<lparr>item_mtime := us\<rparr>" by (rule exI [of _ "item_mtime item"]) simp
  then show "verify_mtime parsed (item, d) = Inr (item', d') \<Longrightarrow> (\<exists>us. item' = item\<lparr>item_mtime := us\<rparr>) \<and> (d' = [] \<longrightarrow> d = [] \<and> item' = item)"
    by (auto simp: verify_mtime_def bind_res_Inr split: option.splits if_splits)
qed (auto simp: verify_mtime_def bind_res_Inl split: option.splits if_splits)

lemma verify_hashes_spec:
  "verify_content_hash parsed (verify_quick_hash parsed (item, d)) = (item', d') \<Longrightarrow>
   item' = item\<lparr>quick_hash := (if r_quick_hash parsed = None then quick_hash item else r_quick_hash parsed),
     content_hash := (if r_content_hash parsed = None then content_hash item else r_content_hash parsed)\<rparr>
     \<and> (d' = [] \<longrightarrow> d = [] \<and> item' = item)"
  by (auto simp: verify_quick_hash_def verify_content_hash_def split: if_splits)

lemma verify_present_spec:
  "case verify_present parsed item of
      Inl e \<Rightarrow> \<exists>t. r_mtime parsed = Some t \<and> datetime_of t = Inl e
    | Inr (item', d) \<Rightarrow> item_key item' = item_key item \<and> item_id item' = item_id item
       \<and> (item_status item' = (if item_status item = trashed then trashed else active))
       \<and> (r_content_hash parsed = None \<longrightarrow> content_hash item' = content_hash item)
       \<and> (r_content_hash parsed \<noteq> None \<longrightarrow> content_hash item' = r_content_hash parsed)
       \<and> (r_quick_hash parsed \<noteq> None \<longrightarrow> quick_hash item' = r_quick_hash parsed)
       \<and> (r_size parsed \<noteq> None \<longrightarrow> Some (item_size item') = r_size parsed)
       \<and> (d = [] \<longrightarrow> item' = item)"
proof -
  obtain i1 d1 where 1: "verify_status item = (i1, d1)" by force
  obtain i2 d2 where 2: "verify_size parsed (i1, d1) = (i2, d2)" by force
  have s1: "i1 = item\<lparr>item_status := (if item_status item = missing then active else item_status item)\<rparr>" "d1 = [] \<longrightarrow> i1 = item"
    using 1 by (auto simp: verify_status_def split: if_splits)
  show ?thesis
  proof (cases "verify_mtime parsed (i2, d2)")
    case (Inl e)
    with 1 2 verify_mtime_spec(2) [OF Inl] show ?thesis by (simp add: verify_present_def)
  next
    case (Inr p)
    obtain i3 d3 where p: "p = (i3, d3)" by force
    obtain i4 d4 where 4: "verify_content_hash parsed (verify_quick_hash parsed (i3, d3)) = (i4, d4)" by force
    note 3 = Inr [unfolded p]
    from verify_mtime_spec(1) [OF 3] obtain us where us: "i3 = i2\<lparr>item_mtime := us\<rparr>" by blast
    have r: "verify_present parsed item = Inr (i4, d4)" using 1 2 3 4 by (simp add: verify_present_def)
    have same: "d4 = [] \<longrightarrow> i4 = item"
      using verify_hashes_spec [OF 4] verify_mtime_spec(1) [OF 3] verify_size_spec [OF 2] s1(2) by auto
    have i4: "i4 = i3\<lparr>quick_hash := (if r_quick_hash parsed = None then quick_hash i3 else r_quick_hash parsed),
        content_hash := (if r_content_hash parsed = None then content_hash i3 else r_content_hash parsed)\<rparr>"
      using verify_hashes_spec [OF 4] by blast
    have i2: "i2 = i1\<lparr>item_size := (case r_size parsed of Some n \<Rightarrow> n | None \<Rightarrow> item_size i1)\<rparr>" using verify_size_spec [OF 2] by blast
    have "item_key i4 = item_key item" "item_id i4 = item_id item" "item_status i4 = (if item_status item = trashed then trashed else active)"
      "content_hash i4 = (if r_content_hash parsed = None then content_hash item else r_content_hash parsed)"
      "r_quick_hash parsed \<noteq> None \<longrightarrow> quick_hash i4 = r_quick_hash parsed"
      unfolding i4 us i2 s1(1) by (cases "item_status item"; simp add: item_key_def)+
    moreover have "r_size parsed \<noteq> None \<longrightarrow> Some (item_size i4) = r_size parsed"
      unfolding i4 us i2 by (cases "r_size parsed") simp_all
    ultimately show ?thesis using same by (simp add: r)
  qed
qed

text \<open>
  Verifying an item against what the agent found never touches a trashed item's status;
  otherwise the item is active exactly when the file exists. A hash the agent did not report is kept,
  a reported one is stored, and an unreported mismatch leaves the item as it was. The only failure is
  a modification time outside the range of a timestamp.
\<close>

theorem verify_item_spec:
  "case verify_item parsed item of
     Inl e \<Rightarrow> \<exists>t. r_mtime parsed = Some t \<and> datetime_of t = Inl e
   | Inr (item', out) \<Rightarrow>
       item_key item' = item_key item \<and> item_id item' = item_id item
       \<and> (item_status item' = (if item_status item = trashed then trashed else if r_exists parsed then active else missing))
       \<and> (r_content_hash parsed = None \<longrightarrow> content_hash item' = content_hash item)
       \<and> (r_exists parsed \<and> r_content_hash parsed \<noteq> None \<longrightarrow> content_hash item' = r_content_hash parsed)
       \<and> (r_exists parsed \<and> r_quick_hash parsed \<noteq> None \<longrightarrow> quick_hash item' = r_quick_hash parsed)
       \<and> (r_exists parsed \<and> r_size parsed \<noteq> None \<longrightarrow> Some (item_size item') = r_size parsed)
       \<and> (mismatch out = None \<longrightarrow> item' = item)
       \<and> (mutated_projection out \<longleftrightarrow> mismatch out \<noteq> None)"
proof (cases "r_exists parsed")
  case False
  then show ?thesis by (cases "item_status item") (auto simp: verify_item_def Let_def item_key_def)
next
  case True
  note verify_present_spec [of parsed item]
  with True show ?thesis
    by (cases "verify_present parsed item") (auto simp: verify_item_def Let_def split: prod.splits)
qed

theorem verify_item_spec_witness:
  "case verify_item \<lparr>r_exists = True, r_size = Some 5, r_mtime = None, r_quick_hash = None, r_content_hash = Some ''x'', r_content_skipped = False\<rparr>
       (sample_item\<lparr>item_status := trashed\<rparr>) of
     Inl e \<Rightarrow> False | Inr (item', out) \<Rightarrow> item_status item' = trashed \<and> content_hash item' = Some ''x'' \<and> mismatch out \<noteq> None"
proof -
  let ?p = "\<lparr>r_exists = True, r_size = Some 5, r_mtime = None, r_quick_hash = None, r_content_hash = Some ''x'', r_content_skipped = False\<rparr>"
  let ?i = "sample_item\<lparr>item_status := trashed\<rparr>"
  have "content_hash ?i \<noteq> Some ''x''" by (simp add: sample_item_def)
  then show ?thesis using verify_item_spec [of ?p ?i] by (cases "verify_item ?p ?i") auto
qed

section \<open>Findings\<close>

definition sweep_body :: CommandEnqueueIn where
  "sweep_body = \<lparr>en_kind = rehash_sweep, en_item = None, en_payload = [(''max_size'', JInt 1000000000000)], en_ttl_seconds = None\<rparr>"

text \<open>
  The guards of the rehash-sweep endpoint do not protect the agent: it demands the admin
  scope, bounds the size band and refuses a second sweep, but the generic endpoint queues the same
  command with the write scope, any band, while one is already in flight.
\<close>

theorem generic_enqueue_bypasses_guards:
  "let db1 = fst (rehash_sweep_agent sample_cmd_settings [''read'', ''write'', ''admin''] None sample_cdb 7 False None None None 10) in
     snd (rehash_sweep_agent sample_cmd_settings [''read'', ''write''] None db1 7 False None None None 11) = Inl (HTTPException 403)
   \<and> snd (rehash_sweep_agent sample_cmd_settings [''read'', ''write'', ''admin''] None db1 7 False None None None 11) = Inl (HTTPException 409)
   \<and> snd (rehash_sweep_agent sample_cmd_settings [''read'', ''write'', ''admin''] None sample_cdb 7 False None None (Some 1000000000000) 11)
       = Inl (HTTPException 422)
   \<and> length (in_flight (fst (enqueue_command sample_cmd_settings [''read'', ''write''] None db1 7 sweep_body 11)) 7 rehash_sweep) = 2"
  by code_simp

definition late_result :: CommandResult where
  "late_result = \<lparr>r_exists = True, r_size = None, r_mtime = Some 1000000000000, r_quick_hash = None, r_content_hash = None, r_content_skipped = False\<rparr>"

text \<open>
  A verification result with a modification time beyond the year 9999 makes the completion
  fail with a server error, and the command stays in flight, although a malformed result is documented
  never to fail a completion.
\<close>

theorem verify_mtime_fails_completion:
  "snd (complete_command sample_cmd_settings (\<lambda>_. Some late_result) polled_cdb 7 1 \<lparr>co_ok = True, co_result = Some []\<rparr> (bearer_request ''ab12'') 30)
     = Inl (HTTPException 500)"
  by code_simp

end
