(* ===== verification/Permissions.thy ===== *)
theory Permissions
  imports Scopes AgentPlane
begin

text \<open>
  Permissions as requests see them: the tables behind \<open>backend/filearr/api/rbac.py\<close>, \<open>api/roles.py\<close> and the
  account endpoints of \<open>api/auth.py\<close>, the effective grants of \<open>search_scope.py\<close>, the two-tier cache of
  \<open>grant_cache.py\<close>, and \<open>PermissionContext\<close> and \<open>require_permission\<close> of \<open>security.py\<close>. Credentials are
  arguments: a caller arrives as a verified or rejected key, or as the principal its session names.
  Contact fields, passwords, sessions and audit records are not part of the state.
\<close>

section \<open>Tables and process state\<close>

record Principal =
  pr_id :: nat
  global_role :: string
  disabled_at :: "int option"

record PrincipalGroup =
  pg_id :: nat
  pg_name :: string
  pg_description :: "string option"
  pg_source :: string

datatype SubjectKind = ToPrincipal | ToGroup

record GrantRow =
  gr_id :: nat
  subject_kind :: SubjectKind
  subject_id :: nat
  gr_library :: nat
  gr_scope :: string
  gr_action :: string
  effect_allow :: bool

record RoleRow = RoleDef +
  display_name :: string
  role_description :: string
  builtin :: bool
  role_updated_at :: int

record pdb =
  principals :: "Principal list"
  usernames :: "(nat \<times> string) list"
  groups :: "PrincipalGroup list"
  members :: "(nat \<times> nat) list"
  grant_rows :: "GrantRow list"
  role_rows :: "RoleRow list"
  library_ids :: "nat list"
  next_row :: nat

text \<open>
  An entry of the grant cache has the generation it was stored under, its expiry on the monotonic clock
  (in microseconds), the role and the grants. Memberships are pairs of group and principal.
\<close>

type_synonym cache_entry = "nat \<times> int \<times> Role \<times> PathGrant list"

record pstate =
  tables :: pdb
  role_registry :: registry
  cache_generation :: nat
  grant_entries :: "(nat \<times> cache_entry) list"

type_synonym 'a preply = "pstate \<times> (http_error + 'a)"

definition find_principal :: "pdb \<Rightarrow> nat \<Rightarrow> Principal option" where
  "find_principal db k = find (\<lambda>p. pr_id p = k) (principals db)"

definition find_group :: "pdb \<Rightarrow> nat \<Rightarrow> PrincipalGroup option" where
  "find_group db k = find (\<lambda>g. pg_id g = k) (groups db)"

definition find_grant :: "pdb \<Rightarrow> nat \<Rightarrow> GrantRow option" where
  "find_grant db k = find (\<lambda>g. gr_id g = k) (grant_rows db)"

definition find_role :: "pdb \<Rightarrow> string \<Rightarrow> RoleRow option" where
  "find_role db n = find (\<lambda>r. def_name r = n) (role_rows db)"

definition role_from_name :: "pstate \<Rightarrow> string option \<Rightarrow> Role" where
  "role_from_name s n = get (role_registry s) n"

section \<open>Effective grants\<close>

definition grant_of_row :: "GrantRow \<Rightarrow> PathGrant" where
  "grant_of_row r = \<lparr>grant_path = gr_scope r, grant_action = gr_action r, allow = effect_allow r,
     group_ref = (if subject_kind r = ToGroup then Some (uuid_str (subject_id r)) else None),
     principal_ref = (if subject_kind r = ToPrincipal then Some (uuid_str (subject_id r)) else None)\<rparr>"

definition group_ids :: "pdb \<Rightarrow> nat \<Rightarrow> nat list" where
  "group_ids db k = map fst (filter (\<lambda>m. snd m = k) (members db))"

definition effective_grants :: "pdb \<Rightarrow> nat \<Rightarrow> PathGrant list" where
  "effective_grants db k = map grant_of_row (filter (\<lambda>r. (subject_kind r = ToPrincipal \<and> subject_id r = k)
     \<or> (subject_kind r = ToGroup \<and> subject_id r \<in> set (group_ids db k))) (grant_rows db))"

definition load_principal_grants :: "pstate \<Rightarrow> nat \<Rightarrow> Role \<times> PathGrant list" where
  "load_principal_grants s k = (case find_principal (tables s) k of
       None \<Rightarrow> (role_from_name s None, [])
     | Some p \<Rightarrow> (role_from_name s (Some (global_role p)), effective_grants (tables s) k))"

definition resolve_principal_grants :: "pstate \<Rightarrow> nat \<Rightarrow> http_error + (Role \<times> PathGrant list)" where
  "resolve_principal_grants s k = (case find_principal (tables s) k of
       None \<Rightarrow> Inl (HTTPException 404)
     | Some p \<Rightarrow> Inr (role_from_name s (Some (global_role p)), effective_grants (tables s) k))"

section \<open>The grant cache\<close>

definition GRANT_TTL :: int where "GRANT_TTL = 30000000"

definition bump_grants :: "pstate \<Rightarrow> pstate" where
  "bump_grants s = s\<lparr>cache_generation := Suc (cache_generation s)\<rparr>"

definition cached_grants :: "int \<Rightarrow> pstate \<Rightarrow> nat \<Rightarrow> (Role \<times> PathGrant list) option" where
  "cached_grants now s k = (case map_of (grant_entries s) k of
       Some (g, expires, role, gs) \<Rightarrow> if g = cache_generation s \<and> expires > now then Some (role, gs) else None
     | None \<Rightarrow> None)"

definition store_grants :: "int \<Rightarrow> nat \<Rightarrow> Role \<times> PathGrant list \<Rightarrow> pstate \<Rightarrow> pstate" where
  "store_grants now k rg s =
     s\<lparr>grant_entries := dict_set k (cache_generation s, now + GRANT_TTL, fst rg, snd rg) (grant_entries s)\<rparr>"

type_synonym memo = "(nat \<times> (Role \<times> PathGrant list)) list"

text \<open>
  \<open>awaited\<close> is what other requests do while this one waits for its query; the clock is read before it, the
  generation after it.
\<close>

definition load_grants :: "(pstate \<Rightarrow> pstate) \<Rightarrow> int \<Rightarrow> memo option \<Rightarrow> pstate \<Rightarrow> nat \<Rightarrow> pstate \<times> memo option \<times> (Role \<times> PathGrant list)" where
  "load_grants awaited now memo s k =
     (case Option.bind memo (\<lambda>m. map_of m k) of
        Some hit \<Rightarrow> (s, memo, hit)
      | None \<Rightarrow>
          (case cached_grants now s k of
             Some rg \<Rightarrow> (s, map_option (dict_set k rg) memo, rg)
           | None \<Rightarrow>
               (let rg = load_principal_grants s k
                in (store_grants now k rg (awaited s), map_option (dict_set k rg) memo, rg))))"

section \<open>Permission contexts\<close>

definition VISIBILITY_ACTION :: string where "VISIBILITY_ACTION = ''search_metadata''"

definition ACTION_COARSE_SCOPE :: "(string \<times> string) list" where
  "ACTION_COARSE_SCOPE = [(''search_metadata'', ''read''), (''search_content'', ''read''), (''download'', ''read''),
     (''upload'', ''write''), (''modify'', ''write''), (''delete'', ''write''), (''edit_metadata'', ''write''), (''manage_alerts'', ''write'')]"

text \<open>Only an unrestricted context has no role.\<close>

record PermissionContext =
  unrestricted :: bool
  ctx_action :: string
  ctx_role :: "Role option"
  ctx_grants :: "PathGrant list"

definition ctx_allows :: "PermissionContext \<Rightarrow> string option \<Rightarrow> string \<Rightarrow> bool" where
  "ctx_allows ctx scope action =
     (if unrestricted ctx then True
      else case scope of
             None \<Rightarrow> False
           | Some p \<Rightarrow> (case ctx_role ctx of None \<Rightarrow> False | Some r \<Rightarrow> allowed (evaluate (ctx_grants ctx) r p action)))"

definition or_default :: "string option \<Rightarrow> string \<Rightarrow> string" where
  "or_default a d = (case a of None \<Rightarrow> d | Some x \<Rightarrow> if x = [] then d else x)"

text \<open>\<open>None\<close> is a return without an exception.\<close>

definition authorize_item :: "PermissionContext \<Rightarrow> string option \<Rightarrow> string option \<Rightarrow> http_error option" where
  "authorize_item ctx scope action =
     (if unrestricted ctx then None
      else let act = or_default action (ctx_action ctx)
           in if act = VISIBILITY_ACTION
              then (if \<not> ctx_allows ctx scope VISIBILITY_ACTION then Some (HTTPException 404) else None)
              else if ctx_allows ctx scope act then None
              else if ctx_allows ctx scope VISIBILITY_ACTION then Some (HTTPException 403)
              else Some (HTTPException 404))"

definition can_item :: "PermissionContext \<Rightarrow> string option \<Rightarrow> string option \<Rightarrow> bool" where
  "can_item ctx scope action = (if unrestricted ctx then True else ctx_allows ctx scope (or_default action (ctx_action ctx)))"

definition require_capability :: "PermissionContext \<Rightarrow> string \<Rightarrow> http_error option" where
  "require_capability ctx action =
     (if unrestricted ctx then None
      else case ctx_role ctx of
             None \<Rightarrow> Some (HTTPException 403)
           | Some r \<Rightarrow>
               if action \<notin> Role.ceiling r then Some (HTTPException 403)
               else if \<not> list_ex (\<lambda>g. grant_action g = action \<and> allow g) (ctx_grants ctx) then Some (HTTPException 403)
               else None)"

definition ctx_sql_clause :: "PermissionContext \<Rightarrow> bool \<Rightarrow> string option \<Rightarrow> clause option" where
  "ctx_sql_clause ctx use_ltree action =
     (if unrestricted ctx then None
      else case ctx_role ctx of
             None \<Rightarrow> Some CFalse
           | Some r \<Rightarrow> scope_where_clause r (ctx_grants ctx) (or_default action VISIBILITY_ACTION) use_ltree)"

definition ctx_search_filter :: "PermissionContext \<Rightarrow> nat \<Rightarrow> string option \<Rightarrow> bool \<Rightarrow> compile_error + string option" where
  "ctx_search_filter ctx ceil action include_sidecars =
     (if unrestricted ctx then Inr None
      else case ctx_role ctx of
             None \<Rightarrow> Inr None
           | Some r \<Rightarrow> rbac_filter_for r (map OfGrant (ctx_grants ctx)) (or_default action VISIBILITY_ACTION) include_sidecars ceil)"

text \<open>
  A caller is a bearer key with the outcome of its verification, a session cookie with the principal it
  names (if it is valid), or nobody.
\<close>

datatype caller = Bearer "http_error option" | Cookie nat | Anonymous

text \<open>\<open>up\<close> tells whether the query on the role table succeeds; a failure keeps the registry as it is.\<close>

definition refresh_roles :: "bool \<Rightarrow> int \<Rightarrow> bool \<Rightarrow> pstate \<Rightarrow> pstate" where
  "refresh_roles up now force s =
     s\<lparr>role_registry := ensure_loaded now force (if up then Some (map RoleDef.truncate (role_rows (tables s))) else None) (role_registry s)\<rparr>"

definition resolve_session_principal :: "bool \<Rightarrow> int \<Rightarrow> pstate \<Rightarrow> nat \<Rightarrow> pstate \<times> Principal option" where
  "resolve_session_principal up now s k =
     (let s1 = refresh_roles up now False s
      in (s1, case find_principal (tables s1) k of
                None \<Rightarrow> None
              | Some p \<Rightarrow> if disabled_at p \<noteq> None then None else Some p))"

definition open_context :: "string \<Rightarrow> PermissionContext" where
  "open_context action = \<lparr>unrestricted = True, ctx_action = action, ctx_role = None, ctx_grants = []\<rparr>"

definition require_permission :: "string \<Rightarrow> string option \<Rightarrow> bool \<Rightarrow> bool \<Rightarrow> (pstate \<Rightarrow> pstate) \<Rightarrow> int \<Rightarrow> pstate \<Rightarrow> caller
    \<Rightarrow> PermissionContext preply" where
  "require_permission action coarse auth_enabled up awaited now s who =
     (let coarse_scope = or_default coarse (case map_of ACTION_COARSE_SCOPE action of Some c \<Rightarrow> c | None \<Rightarrow> ''read'')
      in if \<not> auth_enabled then (s, Inr (open_context action))
         else case who of
                Bearer (Some e) \<Rightarrow> (s, Inl e)
              | Bearer None \<Rightarrow> (s, Inr (open_context action))
              | Anonymous \<Rightarrow> (s, Inl (HTTPException 401))
              | Cookie k \<Rightarrow>
                  (case resolve_session_principal up now s k of
                     (s1, None) \<Rightarrow> (s1, Inl (HTTPException 401))
                   | (s1, Some p) \<Rightarrow>
                       if coarse_scope \<notin> scopes (role_from_name s1 (Some (global_role p))) then (s1, Inl (HTTPException 403))
                       else if bypass (role_from_name s1 (Some (global_role p))) then (s1, Inr (open_context action))
                       else (case load_grants awaited now (Some []) s1 (pr_id p) of
                               (s2, _, role, gs) \<Rightarrow>
                                 (s2, Inr \<lparr>unrestricted = False, ctx_action = action, ctx_role = Some role, ctx_grants = gs\<rparr>))))"

section \<open>Administration: groups\<close>

definition on_tables :: "(pdb \<Rightarrow> pdb) \<Rightarrow> pstate \<Rightarrow> pstate" where
  "on_tables f s = s\<lparr>tables := f (tables s)\<rparr>"

text \<open>The guard every endpoint of the administration shares.\<close>

definition as_admin :: "string list \<Rightarrow> pstate \<Rightarrow> 'a preply \<Rightarrow> 'a preply" where
  "as_admin granted s r = (if ''admin'' \<notin> set granted then (s, Inl (HTTPException 403)) else r)"

definition list_groups :: "pstate \<Rightarrow> (PrincipalGroup \<times> nat) list" where
  "list_groups s = map (\<lambda>g. (g, length (filter (\<lambda>m. fst m = pg_id g) (members (tables s)))))
     (sort_key (\<lambda>g. str_key (pg_name g)) (groups (tables s)))"

definition create_group :: "string list \<Rightarrow> pstate \<Rightarrow> string \<Rightarrow> string option \<Rightarrow> PrincipalGroup preply" where
  "create_group granted s given_name desc = as_admin granted s
     (if given_name = [] then (s, Inl (HTTPException 422))
      else let name = strip is_space given_name
           in if list_ex (\<lambda>g. pg_name g = name) (groups (tables s)) then (s, Inl (HTTPException 409))
              else let g = \<lparr>pg_id = next_row (tables s), pg_name = name, pg_description = desc, pg_source = ''local''\<rparr>
                   in (on_tables (\<lambda>db. db\<lparr>groups := groups db @ [g], next_row := Suc (next_row db)\<rparr>) s, Inr g))"

text \<open>Renaming onto another group's name breaks the unique constraint, which nothing catches.\<close>

definition patch_group :: "string list \<Rightarrow> pstate \<Rightarrow> nat \<Rightarrow> string option \<Rightarrow> string option \<Rightarrow> PrincipalGroup preply" where
  "patch_group granted s k name desc = as_admin granted s
     (if name = Some [] then (s, Inl (HTTPException 422))
      else case find_group (tables s) k of
             None \<Rightarrow> (s, Inl (HTTPException 404))
           | Some g \<Rightarrow>
               if pg_source g \<noteq> ''local'' then (s, Inl (HTTPException 409))
               else let g' = g\<lparr>pg_name := (case name of Some n \<Rightarrow> strip is_space n | None \<Rightarrow> pg_name g),
                              pg_description := (if desc \<noteq> None then desc else pg_description g)\<rparr>
                    in if list_ex (\<lambda>x. pg_id x \<noteq> k \<and> pg_name x = pg_name g') (groups (tables s)) then (s, Inl (HTTPException 500))
                       else (on_tables (\<lambda>db. db\<lparr>groups := map (\<lambda>x. if pg_id x = k then g' else x) (groups db)\<rparr>) s, Inr g'))"

definition delete_group :: "string list \<Rightarrow> pstate \<Rightarrow> nat \<Rightarrow> unit preply" where
  "delete_group granted s k = as_admin granted s
     (case find_group (tables s) k of
        None \<Rightarrow> (s, Inl (HTTPException 404))
      | Some g \<Rightarrow>
          (bump_grants (on_tables (\<lambda>db. db\<lparr>
              grant_rows := filter (\<lambda>r. \<not> (subject_kind r = ToGroup \<and> subject_id r = k)) (grant_rows db),
              groups := filter (\<lambda>x. pg_id x \<noteq> k) (groups db),
              members := filter (\<lambda>m. fst m \<noteq> k) (members db)\<rparr>) s), Inr ()))"

definition list_members :: "pstate \<Rightarrow> nat \<Rightarrow> http_error + (nat \<times> string option \<times> string) list" where
  "list_members s k = (case find_group (tables s) k of
       None \<Rightarrow> Inl (HTTPException 404)
     | Some g \<Rightarrow> Inr (concat (map (\<lambda>m. case find_principal (tables s) (snd m) of
            None \<Rightarrow> []
          | Some p \<Rightarrow> [(snd m, map_of (usernames (tables s)) (snd m), global_role p)])
          (filter (\<lambda>m. fst m = k) (members (tables s))))))"

definition add_member :: "string list \<Rightarrow> pstate \<Rightarrow> nat \<Rightarrow> nat \<Rightarrow> unit preply" where
  "add_member granted s k pid = as_admin granted s
     (if find_group (tables s) k = None then (s, Inl (HTTPException 404))
      else if find_principal (tables s) pid = None then (s, Inl (HTTPException 404))
      else if (k, pid) \<in> set (members (tables s)) then (s, Inr ())
      else (bump_grants (on_tables (\<lambda>db. db\<lparr>members := members db @ [(k, pid)]\<rparr>) s), Inr ()))"

definition remove_member :: "string list \<Rightarrow> pstate \<Rightarrow> nat \<Rightarrow> nat \<Rightarrow> unit preply" where
  "remove_member granted s k pid = as_admin granted s
     (bump_grants (on_tables (\<lambda>db. db\<lparr>members := filter (\<lambda>m. m \<noteq> (k, pid)) (members db)\<rparr>) s), Inr ())"

section \<open>Administration: grants\<close>

fun decode_labels :: "string list \<Rightarrow> py_exn + codepoints list option" where
  "decode_labels [] = Inr (Some [])"
| "decode_labels (l # ls) = bind_res (decode_path_label l) (\<lambda>dec.
     if dec = HASHED_LABEL then Inr None
     else bind_res (decode_labels ls) (\<lambda>r. Inr (map_option (\<lambda>parts. dec # parts) r)))"

definition decode_scope_relpath :: "string \<Rightarrow> nat \<Rightarrow> py_exn + codepoints option" where
  "decode_scope_relpath scope lib =
     (let ls = split_on (CHR ''.'') scope;
          ls = (if ls \<noteq> [] \<and> hd ls = library_label lib then tl ls else ls)
      in bind_res (decode_labels ls) (\<lambda>r. Inr (map_option (join [Rbac.slash]) r)))"

text \<open>A warning names the existing grant and its path; \<open>nfc\<close> is the Unicode normalisation of the standard library.\<close>

fun sibling_warnings :: "(codepoints \<Rightarrow> codepoints) \<Rightarrow> nat \<Rightarrow> codepoints \<Rightarrow> GrantRow list \<Rightarrow> py_exn + (nat \<times> codepoints) list" where
  "sibling_warnings nfc lib new_raw [] = Inr []"
| "sibling_warnings nfc lib new_raw (r # rs) =
     bind_res (decode_scope_relpath (gr_scope r) lib) (\<lambda>other.
       bind_res (sibling_warnings nfc lib new_raw rs) (\<lambda>ws.
         Inr (case other of
                None \<Rightarrow> ws
              | Some oth \<Rightarrow> if oth \<noteq> new_raw \<and> nfc oth = nfc new_raw then (gr_id r, oth) # ws else ws)))"

definition nfc_sibling_warnings :: "(codepoints \<Rightarrow> codepoints) \<Rightarrow> pdb \<Rightarrow> SubjectKind \<Rightarrow> nat \<Rightarrow> nat \<Rightarrow> codepoints
    \<Rightarrow> py_exn + (nat \<times> codepoints) list" where
  "nfc_sibling_warnings nfc db kind sid lib new_rel =
     sibling_warnings nfc lib (strip (\<lambda>c. c = Rbac.slash) new_rel)
       (filter (\<lambda>r. subject_kind r = kind \<and> subject_id r = sid \<and> gr_library r = lib) (grant_rows db))"

definition subject_label :: "pdb \<Rightarrow> SubjectKind \<Rightarrow> nat \<Rightarrow> string option" where
  "subject_label db kind sid = (case kind of
       ToGroup \<Rightarrow> map_option pg_name (find_group db sid)
     | ToPrincipal \<Rightarrow> map_of (usernames db) sid)"

definition list_grants :: "pstate \<Rightarrow> nat option \<Rightarrow> nat option \<Rightarrow> (GrantRow \<times> string option) list" where
  "list_grants s sid lib = map (\<lambda>r. (r, subject_label (tables s) (subject_kind r) (subject_id r)))
     (sort_key (\<lambda>r. str_key (gr_scope r)) (sort_key (\<lambda>r. str_key (gr_action r))
       (filter (\<lambda>r. (sid = None \<or> Some (subject_id r) = sid) \<and> (lib = None \<or> Some (gr_library r) = lib)) (grant_rows (tables s)))))"

record GrantCreateIn =
  gc_kind :: SubjectKind
  gc_subject :: nat
  gc_library :: nat
  gc_rel_path :: codepoints
  gc_action :: string
  gc_allow :: bool

definition grant_subject_error :: "pstate \<Rightarrow> GrantCreateIn \<Rightarrow> http_error option" where
  "grant_subject_error s b = (case gc_kind b of
       ToPrincipal \<Rightarrow> (case find_principal (tables s) (gc_subject b) of
           None \<Rightarrow> Some (HTTPException 404)
         | Some p \<Rightarrow> if gc_action b \<notin> Role.ceiling (role_from_name s (Some (global_role p))) then Some (HTTPException 422) else None)
     | ToGroup \<Rightarrow> if find_group (tables s) (gc_subject b) = None then Some (HTTPException 404) else None)"

definition create_grant :: "(bytes \<Rightarrow> bytes) \<Rightarrow> (codepoints \<Rightarrow> codepoints) \<Rightarrow> string list \<Rightarrow> pstate \<Rightarrow> GrantCreateIn
    \<Rightarrow> (GrantRow \<times> string option \<times> (nat \<times> codepoints) list) preply" where
  "create_grant dig nfc granted s b = as_admin granted s
     (if gc_action b \<notin> ACTIONS then (s, Inl (HTTPException 422))
      else if gc_library b \<notin> set (library_ids (tables s)) then (s, Inl (HTTPException 404))
      else case grant_subject_error s b of
             Some e \<Rightarrow> (s, Inl e)
           | None \<Rightarrow>
               (case bind_res (scope_for dig (gc_library b) (gc_rel_path b)) (\<lambda>scope.
                       bind_res (nfc_sibling_warnings nfc (tables s) (gc_kind b) (gc_subject b) (gc_library b) (gc_rel_path b))
                         (\<lambda>ws. Inr (scope, ws))) of
                  Inl e \<Rightarrow> (s, Inl (HTTPException 500))
                | Inr (scope, ws) \<Rightarrow>
                    (let r = \<lparr>gr_id = next_row (tables s), subject_kind = gc_kind b, subject_id = gc_subject b, gr_library = gc_library b,
                           gr_scope = scope, gr_action = gc_action b, effect_allow = gc_allow b\<rparr>
                     in (bump_grants (on_tables (\<lambda>db. db\<lparr>grant_rows := grant_rows db @ [r], next_row := Suc (next_row db)\<rparr>) s),
                         Inr (r, subject_label (tables s) (gc_kind b) (gc_subject b), ws)))))"

definition delete_grant :: "string list \<Rightarrow> pstate \<Rightarrow> nat \<Rightarrow> unit preply" where
  "delete_grant granted s k = as_admin granted s
     (if find_grant (tables s) k = None then (s, Inl (HTTPException 404))
      else (bump_grants (on_tables (\<lambda>db. db\<lparr>grant_rows := filter (\<lambda>r. gr_id r \<noteq> k) (grant_rows db)\<rparr>) s), Inr ()))"

record PreviewOut =
  pv_decision :: Decision
  pv_action :: string
  pv_role :: string
  pv_scope :: string

definition preview :: "(bytes \<Rightarrow> bytes) \<Rightarrow> string list \<Rightarrow> pstate \<Rightarrow> nat \<Rightarrow> nat \<Rightarrow> codepoints \<Rightarrow> string \<Rightarrow> PreviewOut preply" where
  "preview dig granted s pid lib path action = as_admin granted s
     (if action \<notin> ACTIONS then (s, Inl (HTTPException 422))
      else case resolve_principal_grants s pid of
             Inl e \<Rightarrow> (s, Inl e)
           | Inr (role, gs) \<Rightarrow>
               (case scope_for dig lib path of
                  Inl e \<Rightarrow> (s, Inl (HTTPException 500))
                | Inr scope \<Rightarrow> (s, Inr \<lparr>pv_decision = evaluate gs role scope action, pv_action = action,
                     pv_role = role_name role, pv_scope = scope\<rparr>)))"

section \<open>Administration: roles\<close>

definition SCOPES :: "string list" where "SCOPES = [''read'', ''write'', ''admin'']"

definition sorted_set :: "string list \<Rightarrow> string list" where
  "sorted_set xs = sort_key str_key (remdups xs)"

definition validate_perms :: "string list \<Rightarrow> string list \<Rightarrow> http_error + (string list \<times> string list)" where
  "validate_perms scps acts =
     (let sc = sorted_set scps; ac = sorted_set acts
      in if list_ex (\<lambda>x. x \<notin> set SCOPES) sc then Inl (HTTPException 422)
         else if list_ex (\<lambda>a. a \<notin> ACTIONS) ac then Inl (HTTPException 422)
         else let sc' = (if ''admin'' \<in> set sc then [''admin'', ''read'', ''write'']
                         else if ''write'' \<in> set sc \<and> ''read'' \<notin> set sc then [''read'', ''write''] else sc)
              in Inr (sort_key str_key sc', ac))"

definition role_name_char :: "char \<Rightarrow> bool" where
  "role_name_char c = (let n = cp c in (97 \<le> n \<and> n \<le> 122) \<or> (48 \<le> n \<and> n \<le> 57))"

definition role_name_ok :: "string \<Rightarrow> bool" where
  "role_name_ok name = (let b = chomp name in 2 \<le> length b \<and> length b \<le> 32 \<and> role_name_char (hd b)
     \<and> list_all (\<lambda>c. role_name_char c \<or> c = CHR ''_'' \<or> c = CHR ''-'') (tl b))"

definition user_count :: "pdb \<Rightarrow> string \<Rightarrow> nat" where
  "user_count db n = length (filter (\<lambda>p. global_role p = n) (principals db))"

definition bump_roles :: "bool \<Rightarrow> int \<Rightarrow> pstate \<Rightarrow> pstate" where
  "bump_roles up now s = refresh_roles up now True (bump_grants (s\<lparr>role_registry := bump_generation (role_registry s)\<rparr>))"

definition builtin_order :: "string list" where
  "builtin_order = map role_name BUILTIN_ROLES"

fun index_or :: "nat \<Rightarrow> nat \<Rightarrow> 'a \<Rightarrow> 'a list \<Rightarrow> nat" where
  "index_or d i x [] = d"
| "index_or d i x (y # ys) = (if x = y then i else index_or d (Suc i) x ys)"

definition list_roles :: "pstate \<Rightarrow> (RoleRow \<times> nat) list" where
  "list_roles s = map (\<lambda>r. (r, user_count (tables s) (def_name r)))
     (sort_key (\<lambda>r. index_or 99 0 (def_name r) builtin_order) (sort_key (\<lambda>r. str_key (def_name r)) (role_rows (tables s))))"

record RoleCreateIn =
  rc_name :: string
  rc_display :: string
  rc_description :: string
  rc_scopes :: "string list"
  rc_ceiling :: "string list"
  rc_clone_from :: "string option"

text \<open>The bounds of the body's fields are validated before the handler runs.\<close>

definition role_body_ok :: "RoleCreateIn \<Rightarrow> bool" where
  "role_body_ok b = (2 \<le> length (rc_name b) \<and> length (rc_name b) \<le> 32 \<and> rc_display b \<noteq> [] \<and> length (rc_display b) \<le> 64
     \<and> length (rc_description b) \<le> 500)"

definition role_perms :: "pdb \<Rightarrow> RoleCreateIn \<Rightarrow> http_error + (string list \<times> string list)" where
  "role_perms db b =
     bind_res (if or_default (rc_clone_from b) [] = [] then Inr (rc_scopes b, rc_ceiling b)
               else case find_role db (or_default (rc_clone_from b) []) of
                      None \<Rightarrow> Inl (HTTPException 404)
                    | Some src \<Rightarrow> Inr (def_scopes src, def_ceiling_actions src))
       (\<lambda>(scps, acts). validate_perms scps acts)"

definition new_role :: "RoleCreateIn \<Rightarrow> string \<Rightarrow> string list \<Rightarrow> string list \<Rightarrow> int \<Rightarrow> RoleRow" where
  "new_role b name sc ac now = \<lparr>def_name = name, def_scopes = sc, def_ceiling_actions = ac, display_name = strip is_space (rc_display b),
     role_description = strip is_space (rc_description b), builtin = False, role_updated_at = now\<rparr>"

definition create_role :: "string list \<Rightarrow> pstate \<Rightarrow> RoleCreateIn \<Rightarrow> bool \<Rightarrow> int \<Rightarrow> RoleRow preply" where
  "create_role granted s b up now = as_admin granted s
     (if \<not> role_body_ok b then (s, Inl (HTTPException 422))
      else let name = lower (strip is_space (rc_name b))
           in if \<not> role_name_ok name then (s, Inl (HTTPException 422))
              else if find_role (tables s) name \<noteq> None then (s, Inl (HTTPException 409))
              else case role_perms (tables s) b of
                     Inl e \<Rightarrow> (s, Inl e)
                   | Inr (sc, ac) \<Rightarrow>
                       (let r = new_role b name sc ac now
                        in (bump_roles up now (on_tables (\<lambda>db. db\<lparr>role_rows := role_rows db @ [r]\<rparr>) s), Inr r)))"

record RolePatchIn =
  rp_display :: "string option"
  rp_description :: "string option"
  rp_scopes :: "string list option"
  rp_ceiling :: "string list option"

definition put_role :: "RoleRow \<Rightarrow> pdb \<Rightarrow> pdb" where
  "put_role r db = db\<lparr>role_rows := map (\<lambda>x. if def_name x = def_name r then r else x) (role_rows db)\<rparr>"

definition patched_role :: "RolePatchIn \<Rightarrow> int \<Rightarrow> RoleRow \<Rightarrow> http_error + RoleRow" where
  "patched_role b now row =
     (let row1 = row\<lparr>display_name := (case rp_display b of Some d \<Rightarrow> strip is_space d | None \<Rightarrow> display_name row),
                     role_description := (case rp_description b of Some d \<Rightarrow> strip is_space d | None \<Rightarrow> role_description row),
                     role_updated_at := now\<rparr>
      in if rp_scopes b = None \<and> rp_ceiling b = None then Inr row1
         else bind_res (validate_perms (case rp_scopes b of Some x \<Rightarrow> x | None \<Rightarrow> def_scopes row)
                          (case rp_ceiling b of Some x \<Rightarrow> x | None \<Rightarrow> def_ceiling_actions row)) (\<lambda>(sc, ac).
                if builtin row \<and> def_name row = ''admin'' \<and> ''admin'' \<notin> set sc then Inl (HTTPException 409)
                else Inr (row1\<lparr>def_scopes := sc, def_ceiling_actions := ac\<rparr>)))"

definition patch_role :: "string list \<Rightarrow> pstate \<Rightarrow> string \<Rightarrow> RolePatchIn \<Rightarrow> bool \<Rightarrow> int \<Rightarrow> (RoleRow \<times> nat) preply" where
  "patch_role granted s name b up now = as_admin granted s
     (case find_role (tables s) name of
        None \<Rightarrow> (s, Inl (HTTPException 404))
      | Some row \<Rightarrow>
          (case patched_role b now row of
             Inl e \<Rightarrow> (s, Inl e)
           | Inr row' \<Rightarrow> (bump_roles up now (on_tables (put_role row') s), Inr (row', user_count (tables s) name))))"

definition delete_role :: "string list \<Rightarrow> pstate \<Rightarrow> string \<Rightarrow> bool \<Rightarrow> int \<Rightarrow> unit preply" where
  "delete_role granted s name up now = as_admin granted s
     (case find_role (tables s) name of
        None \<Rightarrow> (s, Inl (HTTPException 404))
      | Some row \<Rightarrow>
          if builtin row \<or> map_of builtins name \<noteq> None then (s, Inl (HTTPException 409))
          else if user_count (tables s) name \<noteq> 0 then (s, Inl (HTTPException 409))
          else (bump_roles up now (on_tables (\<lambda>db. db\<lparr>role_rows := filter (\<lambda>x. def_name x \<noteq> name) (role_rows db)\<rparr>) s), Inr ()))"

section \<open>Administration: users\<close>

definition scope_implies :: "string \<Rightarrow> string list" where
  "scope_implies x = (if x = ''read'' then [''read''] else if x = ''write'' then [''read'', ''write'']
     else if x = ''admin'' then [''read'', ''write'', ''admin''] else [])"

definition expand_scopes :: "string set \<Rightarrow> string set" where
  "expand_scopes xs = (\<Union>x \<in> xs. set (scope_implies x))"

definition require_grant_ceiling :: "string set \<Rightarrow> string set \<Rightarrow> http_error option" where
  "require_grant_ceiling requested granted = (if requested - granted \<noteq> {} then Some (HTTPException 403) else None)"

definition validate_role_name :: "pstate \<Rightarrow> string \<Rightarrow> http_error option" where
  "validate_role_name s name =
     (if name = [] \<or> name \<notin> fst ` set (if reg_roles (role_registry s) \<noteq> [] then reg_roles (role_registry s) else builtins)
      then Some (HTTPException 422) else None)"

text \<open>
  \<open>held\<close> are the expanded scopes of the caller. A role known to the registry but absent from the table
  breaks the foreign key, which nothing catches. Passwords and contact fields are not part of the tables.
\<close>

definition role_assignable :: "pstate \<Rightarrow> string set \<Rightarrow> string \<Rightarrow> http_error option" where
  "role_assignable s held role = (case validate_role_name s role of
       Some e \<Rightarrow> Some e
     | None \<Rightarrow> (case require_grant_ceiling (expand_scopes (scopes (role_from_name s (Some role)))) held of
           Some e \<Rightarrow> Some e
         | None \<Rightarrow> if find_role (tables s) role = None then Some (HTTPException 500) else None))"

definition create_user :: "string list \<Rightarrow> string set \<Rightarrow> pstate \<Rightarrow> string \<Rightarrow> string \<Rightarrow> Principal preply" where
  "create_user granted held s username role = as_admin granted s
     (if username = [] then (s, Inl (HTTPException 422))
      else let normalized = lower (strip is_space username)
           in if normalized \<in> snd ` set (usernames (tables s)) then (s, Inl (HTTPException 409))
              else case role_assignable s held role of
                     Some e \<Rightarrow> (s, Inl e)
                   | None \<Rightarrow>
                       (let p = \<lparr>pr_id = next_row (tables s), global_role = role, disabled_at = None\<rparr>
                        in (on_tables (\<lambda>db. db\<lparr>principals := principals db @ [p], usernames := usernames db @ [(pr_id p, normalized)],
                              next_row := Suc (next_row db)\<rparr>) s, Inr p)))"

definition put_principal :: "Principal \<Rightarrow> pdb \<Rightarrow> pdb" where
  "put_principal p db = db\<lparr>principals := map (\<lambda>x. if pr_id x = pr_id p then p else x) (principals db)\<rparr>"

definition patch_user :: "string list \<Rightarrow> string set \<Rightarrow> pstate \<Rightarrow> nat \<Rightarrow> string option \<Rightarrow> bool option \<Rightarrow> bool \<Rightarrow> int \<Rightarrow> Principal preply" where
  "patch_user granted held s pid role disabled new_password now = as_admin granted s
     (case (find_principal (tables s) pid, map_of (usernames (tables s)) pid) of
        (Some p, Some u) \<Rightarrow>
          (let role_change = (role \<noteq> None \<and> role \<noteq> Some (global_role p)) in
           case (if role_change then role_assignable s held (the role) else None) of
             Some e \<Rightarrow> (s, Inl e)
           | None \<Rightarrow>
               (let p1 = (if role_change then p\<lparr>global_role := the role\<rparr> else p);
                    toggled = (case disabled of None \<Rightarrow> False | Some d \<Rightarrow> d \<noteq> (disabled_at p \<noteq> None));
                    p2 = (if toggled then p1\<lparr>disabled_at := (if disabled = Some True then Some now else None)\<rparr> else p1);
                    s1 = on_tables (put_principal p2) s
                in (if role_change \<or> toggled \<or> new_password then bump_grants s1 else s1, Inr p2)))
      | _ \<Rightarrow> (s, Inl (HTTPException 404)))"

text \<open>Deleting a principal cascades to its user row and memberships; path grants have no foreign key to it.\<close>

definition delete_user :: "string list \<Rightarrow> pstate \<Rightarrow> nat \<Rightarrow> unit preply" where
  "delete_user granted s pid = as_admin granted s
     (case find_principal (tables s) pid of
        None \<Rightarrow> (s, Inl (HTTPException 404))
      | Some p \<Rightarrow>
          if global_role p = ''admin'' \<and> \<not> list_ex (\<lambda>q. global_role q = ''admin'' \<and> pr_id q \<noteq> pid) (principals (tables s))
          then (s, Inl (HTTPException 409))
          else (bump_grants (on_tables (\<lambda>db. db\<lparr>principals := filter (\<lambda>q. pr_id q \<noteq> pid) (principals db),
                  usernames := filter (\<lambda>u. fst u \<noteq> pid) (usernames db), members := filter (\<lambda>m. snd m \<noteq> pid) (members db)\<rparr>) s), Inr ()))"

section \<open>Caches stamped with a generation\<close>

text \<open>
  The contract of a cache whose entries carry the generation they were stored under: raising the
  generation leaves the entries, storing stamps the entry with the generation at that moment.
\<close>

locale stamped_cache =
  fixes gen :: "'s \<Rightarrow> 'g :: linorder" and entry :: "'s \<Rightarrow> 'k \<Rightarrow> ('g \<times> 'v) option"
    and bump :: "'s \<Rightarrow> 's" and store :: "'k \<Rightarrow> 'v \<Rightarrow> 's \<Rightarrow> 's"
  assumes gen_bump: "gen s < gen (bump s)" and entry_bump: "entry (bump s) = entry s"
    and gen_store: "gen (store k v s) = gen s" and entry_store: "entry (store k v s) = (entry s)(k \<mapsto> (gen s, v))"
begin

definition fresh :: "('k \<Rightarrow> 'v) \<Rightarrow> 's \<Rightarrow> bool" where
  "fresh src s = (\<forall>k g v. entry s k = Some (g, v) \<longrightarrow> g \<le> gen s \<and> (g = gen s \<longrightarrow> v = src k))"

lemma fresh_hit: "fresh src s \<Longrightarrow> entry s k = Some (gen s, v) \<Longrightarrow> v = src k"
  by (simp add: fresh_def)

lemma fresh_bump: "fresh src s \<Longrightarrow> fresh src' (bump s)"
  using gen_bump [of s] unfolding fresh_def entry_bump by (meson leD le_less_trans less_imp_le)

lemma fresh_store: "fresh src s \<Longrightarrow> fresh src (store k (src k) s)"
  by (auto simp: fresh_def gen_store entry_store)

lemma fresh_quiet:
  "fresh src s \<Longrightarrow> entry s' = entry s \<Longrightarrow> gen s' = gen s \<Longrightarrow> (\<And>k v. entry s k = Some (gen s, v) \<Longrightarrow> src' k = src k) \<Longrightarrow> fresh src' s'"
  by (fastforce simp: fresh_def)

text \<open>A value stored after the bump that should have retired it is taken for a fresh one.\<close>

lemma late_store_hits: "entry (store k v (bump s)) k = Some (gen (store k v (bump s)), v)"
  by (simp add: gen_store entry_store)

end

definition grant_entry :: "pstate \<Rightarrow> nat \<Rightarrow> (nat \<times> Role \<times> PathGrant list) option" where
  "grant_entry s k = map_option (\<lambda>(g, e, rg). (g, rg)) (map_of (grant_entries s) k)"

interpretation grant_cache: stamped_cache cache_generation grant_entry bump_grants "store_grants now"
  by unfold_locales (auto simp: bump_grants_def store_grants_def grant_entry_def fun_eq_iff)

text \<open>The role registry is such a cache with one entry.\<close>

definition registry_entry :: "registry \<Rightarrow> unit \<Rightarrow> (int \<times> (string \<times> Role) list) option" where
  "registry_entry g u = Some (loaded_generation g, reg_roles g)"

definition registry_store :: "int \<Rightarrow> unit \<Rightarrow> (string \<times> Role) list \<Rightarrow> registry \<Rightarrow> registry" where
  "registry_store now u roles g = g\<lparr>reg_roles := roles, loaded_generation := generation g, loaded_until := now + TTL_SECONDS\<rparr>"

interpretation registry_cache: stamped_cache generation registry_entry bump_generation "registry_store now"
  by unfold_locales (auto simp: registry_entry_def registry_store_def bump_generation_def fun_eq_iff)

section \<open>What the tables say\<close>

definition stored_roles :: "pdb \<Rightarrow> (string \<times> Role) list" where
  "stored_roles db = reg_roles (install (map RoleDef.truncate (role_rows db)) \<lparr>reg_roles = [], generation = 0, loaded_generation = 0, loaded_until = 0\<rparr>)"

definition role_in :: "(string \<times> Role) list \<Rightarrow> string option \<Rightarrow> Role" where
  "role_in roles n = get \<lparr>reg_roles = roles, generation = 0, loaded_generation = 0, loaded_until = 0\<rparr> n"

definition true_grants :: "pdb \<Rightarrow> nat \<Rightarrow> Role \<times> PathGrant list" where
  "true_grants db k = (case find_principal db k of
       None \<Rightarrow> (role_in (stored_roles db) None, [])
     | Some p \<Rightarrow> (role_in (stored_roles db) (Some (global_role p)), effective_grants db k))"

lemma get_role_in: "get g n = role_in (reg_roles g) n"
  by (simp add: get_def role_in_def split: option.splits)

lemma reg_roles_install: "reg_roles (install rows g) = reg_roles (install rows h)"
  by (simp add: install_def)

definition registry_fresh :: "pstate \<Rightarrow> bool" where
  "registry_fresh s = registry_cache.fresh (\<lambda>u. stored_roles (tables s)) (role_registry s)"

definition cache_fresh :: "pstate \<Rightarrow> bool" where
  "cache_fresh s = grant_cache.fresh (true_grants (tables s)) s"

text \<open>Ids of principals and of cached principals come from the counter; the administrator role is in the table.\<close>

definition ids_ok :: "pstate \<Rightarrow> bool" where
  "ids_ok s = (list_all (\<lambda>p. pr_id p < next_row (tables s)) (principals (tables s)) \<and> list_all (\<lambda>e. fst e < next_row (tables s)) (grant_entries s))"

definition admin_row_ok :: "pdb \<Rightarrow> bool" where
  "admin_row_ok db = (list_ex (\<lambda>r. def_name r = ''admin'') (role_rows db)
     \<and> list_all (\<lambda>r. def_name r = ''admin'' \<longrightarrow> builtin r \<and> set SCOPES \<subseteq> set (def_scopes r)) (role_rows db))"

definition perm_ok :: "pstate \<Rightarrow> bool" where
  "perm_ok s = (registry_fresh s \<and> cache_fresh s \<and> ids_ok s \<and> admin_row_ok (tables s))"

lemma perm_okD: "perm_ok s \<Longrightarrow> registry_fresh s" "perm_ok s \<Longrightarrow> cache_fresh s" "perm_ok s \<Longrightarrow> ids_ok s" "perm_ok s \<Longrightarrow> admin_row_ok (tables s)"
  by (simp_all add: perm_ok_def)

lemma refresh_eq:
  "refresh_roles up now force s = (if \<not> up \<or> \<not> force \<and> loaded_generation (role_registry s) = generation (role_registry s) \<and> now < loaded_until (role_registry s) then s
     else s\<lparr>role_registry := registry_store now () (stored_roles (tables s)) (role_registry s)\<rparr>)"
proof -
  have "install rows g = g\<lparr>reg_roles := reg_roles (install rows h)\<rparr>" for rows g h by (simp add: install_def)
  then show ?thesis
    by (auto simp: refresh_roles_def ensure_loaded_def registry_store_def stored_roles_def install_def)
qed

lemma refresh_tables [simp]: "tables (refresh_roles up now force s) = tables s" "grant_entries (refresh_roles up now force s) = grant_entries s"
  "cache_generation (refresh_roles up now force s) = cache_generation s"
  by (simp_all add: refresh_roles_def)

text \<open>The roles a request sees are current: its query succeeds, or the registry was loaded since the last change of a role.\<close>

definition roles_known :: "bool \<Rightarrow> pstate \<Rightarrow> bool" where
  "roles_known up s = (up \<or> loaded_generation (role_registry s) = generation (role_registry s))"

lemma refresh_roles_current:
  assumes "registry_fresh s" "roles_known up s"
  shows "reg_roles (role_registry (refresh_roles up now force s)) = stored_roles (tables s)"
proof (cases "\<not> up \<or> \<not> force \<and> loaded_generation (role_registry s) = generation (role_registry s) \<and> now < loaded_until (role_registry s)")
  case True
  with assms(2) have "loaded_generation (role_registry s) = generation (role_registry s)" by (auto simp: roles_known_def)
  then have "registry_entry (role_registry s) () = Some (generation (role_registry s), reg_roles (role_registry s))" by (simp add: registry_entry_def)
  with assms(1) have "reg_roles (role_registry s) = stored_roles (tables s)"
    unfolding registry_fresh_def by (blast dest: registry_cache.fresh_hit)
  with True show ?thesis unfolding refresh_eq by (simp only: if_True)
next
  case False
  then show ?thesis unfolding refresh_eq by (simp only: if_False) (simp add: registry_store_def)
qed

lemma refresh_ok: "perm_ok s \<Longrightarrow> perm_ok (refresh_roles up now force s)"
proof -
  assume ok: "perm_ok s"
  have "registry_fresh (refresh_roles up now force s)"
    using perm_okD(1) [OF ok] registry_cache.fresh_store [of "\<lambda>u. stored_roles (tables s)" "role_registry s" now "()"]
    by (auto simp: registry_fresh_def refresh_eq)
  moreover have "cache_fresh (refresh_roles up now force s)"
    using perm_okD(2) [OF ok] unfolding cache_fresh_def
    by (rule grant_cache.fresh_quiet) (simp_all add: grant_entry_def fun_eq_iff)
  ultimately show ?thesis using ok by (simp add: perm_ok_def ids_ok_def)
qed

lemma load_current:
  "registry_fresh s \<Longrightarrow> roles_known up s \<Longrightarrow> load_principal_grants (refresh_roles up now force s) k = true_grants (tables s) k"
  by (simp add: load_principal_grants_def true_grants_def role_from_name_def get_role_in refresh_roles_current split: option.split)

section \<open>How operations change the tables\<close>

text \<open>Three ways: no cached answer changes; answers change and the grant cache is retired; roles change and both caches are.\<close>

lemma on_tables_sel [simp]: "tables (on_tables f s) = f (tables s)" "grant_entries (on_tables f s) = grant_entries s"
  "cache_generation (on_tables f s) = cache_generation s" "role_registry (on_tables f s) = role_registry s"
  by (simp_all add: on_tables_def)

lemma bump_grants_sel [simp]: "tables (bump_grants s) = tables s" "grant_entries (bump_grants s) = grant_entries s"
  "role_registry (bump_grants s) = role_registry s"
  by (simp_all add: bump_grants_def)

definition keeps_ids :: "pdb \<Rightarrow> pdb \<Rightarrow> bool" where
  "keeps_ids db db' = (next_row db \<le> next_row db' \<and> (list_all (\<lambda>p. pr_id p < next_row db) (principals db) \<longrightarrow> list_all (\<lambda>p. pr_id p < next_row db') (principals db')))"

lemma ids_kept: "ids_ok s \<Longrightarrow> keeps_ids (tables s) (f (tables s)) \<Longrightarrow> ids_ok (on_tables f s)"
  by (auto simp: ids_ok_def keeps_ids_def list_all_iff)

lemma cached_key: "ids_ok s \<Longrightarrow> grant_entry s k = Some x \<Longrightarrow> k < next_row (tables s)"
  by (force simp: ids_ok_def grant_entry_def list_all_iff dest: map_of_SomeD)

lemma quiet_ok:
  assumes "perm_ok s" "role_rows (f (tables s)) = role_rows (tables s)" "keeps_ids (tables s) (f (tables s))"
    and "\<And>k. k < next_row (tables s) \<Longrightarrow> true_grants (f (tables s)) k = true_grants (tables s) k"
  shows "perm_ok (on_tables f s)"
proof -
  note ok = perm_okD [OF assms(1)]
  have "cache_fresh (on_tables f s)"
    using ok(2) unfolding cache_fresh_def
    by (rule grant_cache.fresh_quiet) (auto simp: grant_entry_def fun_eq_iff intro!: assms(4) cached_key [OF ok(3)])
  then show ?thesis
    using ok ids_kept [of s f, OF ok(3) assms(3)] assms(2) by (simp add: perm_ok_def registry_fresh_def stored_roles_def admin_row_ok_def)
qed

lemma bumped_ok:
  assumes "perm_ok s" "role_rows (f (tables s)) = role_rows (tables s)" "keeps_ids (tables s) (f (tables s))"
  shows "perm_ok (bump_grants (on_tables f s))"
proof -
  note ok = perm_okD [OF assms(1)]
  have "grant_cache.fresh (true_grants (tables s)) (on_tables f s)"
    using ok(2) unfolding cache_fresh_def by (rule grant_cache.fresh_quiet) (simp_all add: grant_entry_def fun_eq_iff)
  then have "cache_fresh (bump_grants (on_tables f s))" unfolding cache_fresh_def by (rule grant_cache.fresh_bump)
  moreover have "ids_ok (bump_grants (on_tables f s))" using ids_kept [of s f, OF ok(3) assms(3)] by (simp add: ids_ok_def)
  ultimately show ?thesis using ok assms(2) by (simp add: perm_ok_def registry_fresh_def stored_roles_def admin_row_ok_def)
qed

lemma roled_ok:
  assumes "perm_ok s" "admin_row_ok (f (tables s))" "keeps_ids (tables s) (f (tables s))"
  shows "perm_ok (bump_roles up now (on_tables f s))"
proof -
  note ok = perm_okD [OF assms(1)]
  let ?s = "bump_grants ((on_tables f s)\<lparr>role_registry := bump_generation (role_registry s)\<rparr>)"
  have "registry_fresh ?s" using registry_cache.fresh_bump ok(1) by (simp add: registry_fresh_def)
  moreover have "grant_cache.fresh (true_grants (tables s)) ((on_tables f s)\<lparr>role_registry := bump_generation (role_registry s)\<rparr>)"
    using ok(2) unfolding cache_fresh_def by (rule grant_cache.fresh_quiet) (simp_all add: grant_entry_def fun_eq_iff)
  then have "cache_fresh ?s" unfolding cache_fresh_def by (rule grant_cache.fresh_bump)
  moreover have "ids_ok ?s" using ids_kept [of s f, OF ok(3) assms(3)] by (simp add: ids_ok_def)
  ultimately have "perm_ok ?s" using assms(2) by (simp add: perm_ok_def)
  then show ?thesis using refresh_ok by (simp add: bump_roles_def)
qed

lemma as_admin_fst: "P s \<Longrightarrow> P (fst r) \<Longrightarrow> P (fst (as_admin granted s r))"
  by (simp add: as_admin_def)

lemma keeps_ids_same: "principals db' = principals db \<Longrightarrow> next_row db \<le> next_row db' \<Longrightarrow> keeps_ids db db'"
  by (auto simp: keeps_ids_def list_all_iff intro: less_le_trans)

lemma true_grants_cong:
  "find_principal db' k = find_principal db k \<Longrightarrow> role_rows db' = role_rows db \<Longrightarrow> grant_rows db' = grant_rows db \<Longrightarrow> members db' = members db
    \<Longrightarrow> true_grants db' k = true_grants db k"
  by (simp add: true_grants_def stored_roles_def effective_grants_def group_ids_def split: option.split)

lemma create_group_ok: "perm_ok s \<Longrightarrow> perm_ok (fst (create_group granted s n d))"
  unfolding create_group_def
  by (rule as_admin_fst) (auto simp: Let_def find_principal_def intro!: quiet_ok true_grants_cong keeps_ids_same)

lemma patch_group_ok: "perm_ok s \<Longrightarrow> perm_ok (fst (patch_group granted s k n d))"
  unfolding patch_group_def
  by (rule as_admin_fst) (auto simp: Let_def find_principal_def intro!: quiet_ok true_grants_cong keeps_ids_same split: option.splits)

lemma delete_group_ok: "perm_ok s \<Longrightarrow> perm_ok (fst (delete_group granted s k))"
  unfolding delete_group_def by (rule as_admin_fst) (auto intro!: bumped_ok keeps_ids_same split: option.splits)

lemma member_ok: "perm_ok s \<Longrightarrow> perm_ok (fst (add_member granted s k pid))" "perm_ok s \<Longrightarrow> perm_ok (fst (remove_member granted s k pid))"
  unfolding add_member_def remove_member_def by (rule as_admin_fst, simp, auto intro!: bumped_ok keeps_ids_same)+

lemma grant_ok: "perm_ok s \<Longrightarrow> perm_ok (fst (create_grant dig nfc granted s b))" "perm_ok s \<Longrightarrow> perm_ok (fst (delete_grant granted s k))"
  unfolding create_grant_def delete_grant_def
  by (rule as_admin_fst, simp, auto simp: Let_def intro!: bumped_ok keeps_ids_same split: option.splits sum.splits)+

lemma role_row_names: "find_role db n = Some r \<Longrightarrow> r \<in> set (role_rows db) \<and> def_name r = n"
  unfolding find_role_def by (drule find_SomeD) simp

lemma admin_row_ok_iff:
  "admin_row_ok db \<longleftrightarrow> (\<exists>r \<in> set (role_rows db). def_name r = ''admin'')
     \<and> (\<forall>r \<in> set (role_rows db). def_name r = ''admin'' \<longrightarrow> builtin r \<and> set SCOPES \<subseteq> set (def_scopes r))"
  by (simp add: admin_row_ok_def list_ex_iff list_all_iff)

lemma add_role_admin:
  assumes "admin_row_ok db" "find_role db (def_name r) = None"
  shows "admin_row_ok (db\<lparr>role_rows := role_rows db @ [r]\<rparr>)"
proof -
  from assms(1) obtain a where a: "a \<in> set (role_rows db)" "def_name a = ''admin''" unfolding admin_row_ok_iff by blast
  have "def_name a \<noteq> def_name r" using find_NoneD [OF assms(2) [unfolded find_role_def] a(1)] .
  with a assms(1) show ?thesis unfolding admin_row_ok_iff by simp
qed

lemma put_role_admin:
  assumes "admin_row_ok db" "find_role db n = Some row" "def_name r = def_name row" "builtin r = builtin row"
    and "builtin row \<and> def_name row = ''admin'' \<longrightarrow> set SCOPES \<subseteq> set (def_scopes r)"
  shows "admin_row_ok (put_role r db)"
proof -
  note row = role_row_names [OF assms(2)]
  from assms(1) obtain a where a: "a \<in> set (role_rows db)" "def_name a = ''admin''" unfolding admin_row_ok_iff by blast
  have "\<exists>x \<in> set (role_rows (put_role r db)). def_name x = ''admin''"
  proof (cases "def_name r = ''admin''")
    case True
    with a have "r \<in> set (role_rows (put_role r db))" by (auto simp: put_role_def)
    with True show ?thesis by blast
  next
    case False
    with a have "a \<in> set (role_rows (put_role r db))" by (auto simp: put_role_def)
    with a(2) show ?thesis by blast
  qed
  moreover have "builtin x \<and> set SCOPES \<subseteq> set (def_scopes x)" if "x \<in> set (role_rows (put_role r db))" "def_name x = ''admin''" for x
  proof (cases "x = r")
    case True
    with that assms(3) row assms(1) have "builtin row" unfolding admin_row_ok_iff by simp
    with True that assms(3-5) show ?thesis by simp
  next
    case False
    with that have "x \<in> set (role_rows db)" by (auto simp: put_role_def split: if_splits)
    with that assms(1) show ?thesis unfolding admin_row_ok_iff by simp
  qed
  ultimately show ?thesis unfolding admin_row_ok_iff by blast
qed

lemma create_role_ok:
  assumes "perm_ok s"
  shows "perm_ok (fst (create_role granted s b up now))"
proof -
  have new: "perm_ok (bump_roles up now (on_tables (\<lambda>db. db\<lparr>role_rows := role_rows db @ [r]\<rparr>) s))"
    if "find_role (tables s) (def_name r) = None" for r
    using assms by (rule roled_ok) (simp_all add: add_role_admin [OF perm_okD(4) [OF assms] that] keeps_ids_same)
  have n: "def_name (new_role b name sc ac now) = name" for name sc ac by (simp add: new_role_def)
  show ?thesis
    unfolding create_role_def
    by (rule as_admin_fst [where P = perm_ok, OF assms]) (simp add: assms Let_def new n split: sum.split prod.split)
qed

lemma validated_scopes:
  assumes "validate_perms xs ys = Inr (sc, ac)"
  shows "''admin'' \<in> set sc \<longrightarrow> set SCOPES \<subseteq> set sc"
  using assms by (auto simp: validate_perms_def sorted_set_def SCOPES_def Let_def split: if_splits)

lemma patched_role_kept:
  assumes "patched_role b now row = Inr row'"
  shows "def_name row' = def_name row \<and> builtin row' = builtin row
    \<and> (def_scopes row' = def_scopes row \<or> (builtin row \<and> def_name row = ''admin'' \<longrightarrow> set SCOPES \<subseteq> set (def_scopes row')))"
proof (cases "rp_scopes b = None \<and> rp_ceiling b = None")
  case True
  with assms show ?thesis by (auto simp: patched_role_def Let_def)
next
  case False
  then obtain xs ys where v: "patched_role b now row = bind_res (validate_perms xs ys) (\<lambda>(sc, ac).
      if builtin row \<and> def_name row = ''admin'' \<and> ''admin'' \<notin> set sc then Inl (HTTPException 409)
      else Inr (row\<lparr>display_name := (case rp_display b of Some d \<Rightarrow> strip is_space d | None \<Rightarrow> display_name row),
             role_description := (case rp_description b of Some d \<Rightarrow> strip is_space d | None \<Rightarrow> role_description row),
             role_updated_at := now, def_scopes := sc, def_ceiling_actions := ac\<rparr>))"
    unfolding patched_role_def Let_def by (simp only: if_False)
  have all: "''admin'' \<in> set sc \<longrightarrow> set SCOPES \<subseteq> set sc" if "validate_perms xs ys = Inr (sc, ac)" for sc ac
    using that by (rule validated_scopes)
  from v assms all show ?thesis by (cases "validate_perms xs ys") (auto split: prod.splits if_splits)
qed

lemma patch_role_ok:
  assumes "perm_ok s"
  shows "perm_ok (fst (patch_role granted s name b up now))"
proof -
  note adm = perm_okD(4) [OF assms]
  have "perm_ok (bump_roles up now (on_tables (put_role row') s))"
    if "find_role (tables s) name = Some row" "patched_role b now row = Inr row'" for row row'
  proof (rule roled_ok [OF assms])
    have "builtin row \<and> def_name row = ''admin'' \<longrightarrow> set SCOPES \<subseteq> set (def_scopes row)"
      using adm role_row_names [OF that(1)] unfolding admin_row_ok_iff by blast
    with patched_role_kept [OF that(2)] show "admin_row_ok (put_role row' (tables s))"
      by (intro put_role_admin [OF adm that(1)]) auto
    show "keeps_ids (tables s) (put_role row' (tables s))" by (rule keeps_ids_same) (simp_all add: put_role_def)
  qed
  then show ?thesis
    unfolding patch_role_def by (intro as_admin_fst [where P = perm_ok, OF assms]) (simp add: assms split: option.split sum.split)
qed

lemma delete_role_ok:
  assumes "perm_ok s"
  shows "perm_ok (fst (delete_role granted s name up now))"
proof -
  have b: "map_of builtins ''admin'' \<noteq> None" by code_simp
  have "perm_ok (bump_roles up now (on_tables (\<lambda>db. db\<lparr>role_rows := filter (\<lambda>x. def_name x \<noteq> name) (role_rows db)\<rparr>) s))" if "map_of builtins name = None"
    using assms
  proof (rule roled_ok)
    from that b have "name \<noteq> ''admin''" by metis
    with perm_okD(4) [OF assms] show "admin_row_ok ((tables s)\<lparr>role_rows := filter (\<lambda>x. def_name x \<noteq> name) (role_rows (tables s))\<rparr>)"
      unfolding admin_row_ok_iff by auto
  qed (simp add: keeps_ids_same)
  then show ?thesis
    unfolding delete_role_def by (intro as_admin_fst [where P = perm_ok, OF assms]) (auto simp: assms split: option.split)
qed

lemma create_user_ok:
  assumes "perm_ok s"
  shows "perm_ok (fst (create_user granted held s u role))"
proof -
  have "perm_ok (on_tables (\<lambda>db. db\<lparr>principals := principals db @ [p], usernames := us db, next_row := Suc (next_row db)\<rparr>) s)"
    if "pr_id p = next_row (tables s)" for p us
    using assms
  proof (rule quiet_ok)
    show "keeps_ids (tables s) ((tables s)\<lparr>principals := principals (tables s) @ [p], usernames := us (tables s), next_row := Suc (next_row (tables s))\<rparr>)"
      using that by (auto simp: keeps_ids_def list_all_iff less_Suc_eq)
    fix k assume "k < next_row (tables s)"
    with that show "true_grants ((tables s)\<lparr>principals := principals (tables s) @ [p], usernames := us (tables s), next_row := Suc (next_row (tables s))\<rparr>) k
        = true_grants (tables s) k"
      by (intro true_grants_cong) (simp_all add: find_principal_def find_append split: option.split)
  qed simp
  then show ?thesis
    unfolding create_user_def by (intro as_admin_fst [where P = perm_ok, OF assms]) (simp add: assms Let_def split: option.split)
qed

lemma find_put_principal: "find_principal db (pr_id p) = Some q \<Longrightarrow> find_principal (put_principal p db) k = (if k = pr_id p then Some p else find_principal db k)"
proof -
  assume "find_principal db (pr_id p) = Some q"
  moreover have "find (\<lambda>x. pr_id x = k) (map (\<lambda>x. if pr_id x = pr_id p then p else x) ps) =
      (if k = pr_id p then (if list_ex (\<lambda>x. pr_id x = pr_id p) ps then Some p else None) else find (\<lambda>x. pr_id x = k) ps)" for ps
    by (induction ps) auto
  moreover have "list_ex (\<lambda>x. pr_id x = pr_id p) (principals db)" if "find (\<lambda>x. pr_id x = pr_id p) (principals db) = Some q"
    using find_SomeD [OF that] by (auto simp: list_ex_iff)
  ultimately show ?thesis by (simp add: find_principal_def put_principal_def)
qed

lemma put_principal_ids: "pr_id p = pr_id q \<Longrightarrow> q \<in> set (principals db) \<Longrightarrow> keeps_ids db (put_principal p db)"
  by (auto simp: keeps_ids_def put_principal_def list_all_iff)

lemma find_principal_SomeD: "find_principal db k = Some p \<Longrightarrow> p \<in> set (principals db) \<and> pr_id p = k"
  unfolding find_principal_def by (drule find_SomeD) simp

lemma patch_user_ok:
  assumes "perm_ok s"
  shows "perm_ok (fst (patch_user granted held s pid role disabled pw now))"
proof -
  have keep: "perm_ok (on_tables (put_principal p) s)" if p: "find_principal (tables s) pid = Some p" for p
    using assms
  proof (rule quiet_ok)
    note f = find_principal_SomeD [OF p]
    show "keeps_ids (tables s) (put_principal p (tables s))" using f by (blast intro: put_principal_ids)
    show "true_grants (put_principal p (tables s)) k = true_grants (tables s) k" for k
      using p f find_put_principal [of "tables s" p p k] by (intro true_grants_cong) (auto simp: put_principal_def)
  qed (simp add: put_principal_def)
  have change: "perm_ok (bump_grants (on_tables (put_principal q) s))" if "find_principal (tables s) pid = Some p" "pr_id q = pr_id p" for p q
    using assms
  proof (rule bumped_ok)
    show "keeps_ids (tables s) (put_principal q (tables s))" using find_principal_SomeD [OF that(1)] that(2) by (blast intro: put_principal_ids)
  qed (simp add: put_principal_def)
  show ?thesis
    unfolding patch_user_def
    by (intro as_admin_fst [where P = perm_ok, OF assms]) (auto simp: assms Let_def intro!: keep change split: option.split)
qed

lemma delete_user_ok:
  assumes "perm_ok s"
  shows "perm_ok (fst (delete_user granted s pid))"
  unfolding delete_user_def
  by (intro as_admin_fst [where P = perm_ok, OF assms]) (auto simp: assms keeps_ids_def list_all_iff intro!: bumped_ok split: option.split)

text \<open>Between two states of the tables nothing changed what the principal may do.\<close>

definition same_access :: "nat \<Rightarrow> pdb \<Rightarrow> pdb \<Rightarrow> bool" where
  "same_access k db db' = (find_principal db' k = find_principal db k \<and> true_grants db' k = true_grants db k)"

lemma store_current_ok:
  assumes "perm_ok s" "k < next_row (tables s)"
  shows "perm_ok (store_grants now k (true_grants (tables s) k) s)"
proof -
  note ok = perm_okD [OF assms(1)]
  define s' where "s' = store_grants now k (true_grants (tables s) k) s"
  have t: "tables s' = tables s" "role_registry s' = role_registry s" by (simp_all add: s'_def store_grants_def)
  have "grant_cache.fresh (true_grants (tables s)) (store_grants now k (true_grants (tables s) k) s)"
    using ok(2) [unfolded cache_fresh_def] by (rule grant_cache.fresh_store)
  then have "cache_fresh s'" unfolding cache_fresh_def t(1) by (simp only: s'_def)
  moreover have sub: "fst ` set (grant_entries s') \<subseteq> insert k (fst ` set (grant_entries s))"
    unfolding s'_def store_grants_def using keys_dict_set [of k _ "grant_entries s"] by (auto simp flip: set_map split: if_splits)
  have "fst e < next_row (tables s)" if "e \<in> set (grant_entries s')" for e
  proof -
    from that sub have "fst e = k \<or> fst e \<in> fst ` set (grant_entries s)" by blast
    then show ?thesis using ok(3) assms(2) by (auto simp: ids_ok_def list_all_iff)
  qed
  then have "ids_ok s'" using ok(3) t(1) by (simp add: ids_ok_def list_all_iff)
  ultimately show ?thesis using ok t by (simp add: perm_ok_def registry_fresh_def flip: s'_def)
qed

lemma load_grants_ok:
  assumes "perm_ok s" "reg_roles (role_registry s) = stored_roles (tables s)" "find_principal (tables s) k \<noteq> None"
    and "load_grants aw now memo s k = (s', memo', rg)" "memo = Some []"
  shows "rg = true_grants (tables s) k \<and> (perm_ok (aw s) \<and> same_access k (tables s) (tables (aw s)) \<longrightarrow> perm_ok s')"
proof -
  note ok = perm_okD [OF assms(1)]
  have l: "load_principal_grants s k = true_grants (tables s) k"
    by (simp add: load_principal_grants_def true_grants_def role_from_name_def get_role_in assms(2) split: option.split)
  show ?thesis
  proof (cases "cached_grants now s k")
    case None
    then have "s' = store_grants now k (true_grants (tables s) k) (aw s)" "rg = true_grants (tables s) k"
      using assms(4,5) l by (auto simp: load_grants_def Let_def)
    moreover have "k < next_row (tables (aw s))" if "perm_ok (aw s)" "same_access k (tables s) (tables (aw s))"
    proof -
      from that(2) assms(3) obtain p where "find_principal (tables (aw s)) k = Some p" by (auto simp: same_access_def)
      from find_principal_SomeD [OF this] perm_okD(3) [OF that(1)] show ?thesis by (auto simp: ids_ok_def list_all_iff)
    qed
    ultimately show ?thesis using store_current_ok [of "aw s" k now] by (auto simp: same_access_def)
  next
    case (Some x)
    then obtain e where e: "map_of (grant_entries s) k = Some (cache_generation s, e, x)"
      by (auto simp: cached_grants_def split: option.splits if_splits)
    then have "grant_entry s k = Some (cache_generation s, x)" by (simp add: grant_entry_def)
    with ok(2) have "x = true_grants (tables s) k" unfolding cache_fresh_def by (rule grant_cache.fresh_hit)
    with Some assms(1,4,5) show ?thesis by (auto simp: load_grants_def)
  qed
qed

section \<open>Requests\<close>

lemma true_grants_find: "find_principal db k = Some p \<Longrightarrow> true_grants db k = (role_in (stored_roles db) (Some (global_role p)), effective_grants db k)"
  by (simp add: true_grants_def)

definition follows_tables :: "pdb \<Rightarrow> nat \<Rightarrow> string \<Rightarrow> PermissionContext \<Rightarrow> bool" where
  "follows_tables db k coarse ctx = (case find_principal db k of
       None \<Rightarrow> False
     | Some p \<Rightarrow> disabled_at p = None
         \<and> (let role = role_in (stored_roles db) (Some (global_role p)) in
            coarse \<in> scopes role
            \<and> (if bypass role then unrestricted ctx
               else \<not> unrestricted ctx \<and> ctx_role ctx = Some role \<and> ctx_grants ctx = effective_grants db k)))"

lemma session_context:
  assumes "perm_ok s" "roles_known up s" "require_permission action coarse True up aw now s (Cookie k) = (s', r)"
  shows "(\<forall>ctx. r = Inr ctx \<longrightarrow> follows_tables (tables s) k (or_default coarse (case map_of ACTION_COARSE_SCOPE action of Some c \<Rightarrow> c | None \<Rightarrow> ''read'')) ctx)
    \<and> (perm_ok (aw (refresh_roles up now False s)) \<and> same_access k (tables s) (tables (aw (refresh_roles up now False s))) \<longrightarrow> perm_ok s')"
proof -
  define s1 where "s1 = refresh_roles up now False s"
  define cs where "cs = or_default coarse (case map_of ACTION_COARSE_SCOPE action of Some c \<Rightarrow> c | None \<Rightarrow> ''read'')"
  have ok1: "perm_ok s1" and t1: "tables s1 = tables s" using assms(1) refresh_ok by (simp_all add: s1_def)
  have reg: "reg_roles (role_registry s1) = stored_roles (tables s1)"
    unfolding s1_def using refresh_roles_current [OF perm_okD(1) [OF assms(1)] assms(2)] by simp
  have role: "role_from_name s1 n = role_in (stored_roles (tables s)) n" for n by (simp add: role_from_name_def get_role_in reg t1)
  show ?thesis
  proof (cases "find_principal (tables s) k")
    case None
    with assms(3) ok1 t1 show ?thesis by (auto simp: require_permission_def resolve_session_principal_def Let_def s1_def [symmetric])
  next
    case (Some p)
    note p = find_principal_SomeD [OF Some]
    have found: "find_principal (tables s1) k \<noteq> None" by (simp add: Some t1)
    obtain s2 memo rg where l: "load_grants aw now (Some []) s1 k = (s2, memo, rg)" by (metis prod_cases3)
    note lok = load_grants_ok [OF ok1 reg found l refl]
    have tg: "true_grants (tables s1) k = (role_in (stored_roles (tables s)) (Some (global_role p)), effective_grants (tables s) k)"
      using true_grants_find [OF Some] by (simp add: t1)
    let ?role = "role_in (stored_roles (tables s)) (Some (global_role p))"
    have r: "(s', r) = (if disabled_at p \<noteq> None then (s1, Inl (HTTPException 401))
        else if cs \<notin> scopes ?role then (s1, Inl (HTTPException 403))
        else if bypass ?role then (s1, Inr (open_context action))
        else (s2, Inr \<lparr>unrestricted = False, ctx_action = action, ctx_role = Some (fst rg), ctx_grants = snd rg\<rparr>))"
      using assms(3) Some l p
      by (auto simp: require_permission_def resolve_session_principal_def Let_def s1_def [symmetric] cs_def [symmetric] t1 role split: prod.splits)
    show ?thesis
      using r ok1 lok tg unfolding s1_def [symmetric] t1 [symmetric]
      by (auto simp: follows_tables_def Some t1 Let_def cs_def [symmetric] open_context_def split: if_splits)
  qed
qed

lemma other_context:
  assumes "perm_ok s" "require_permission action coarse auth up aw now s who = (s', r)" "auth \<and> (\<exists>k. who = Cookie k) \<longrightarrow> False"
  shows "s' = s"
  using assms by (cases who) (auto simp: require_permission_def Let_def split: option.splits if_splits)

section \<open>Reachable states\<close>

text \<open>
  Administration in any order, interleaved with requests that open permission contexts. While such a request waits
  for the query of its grants, any further steps happen, but none that changes what this very principal may do; and the
  roles it sees are current. Without these two provisos the caches can hold stale answers (\<open>revoked_grant_outlives_race\<close>,
  \<open>failed_role_query_serves_old_role\<close>). Role updates reload the registry with or without success.
\<close>

inductive pstep :: "pstate \<Rightarrow> pstate \<Rightarrow> bool" where
  CreateGroup: "create_group granted s n d = (s', rg) \<Longrightarrow> pstep s s'"
| PatchGroup: "patch_group granted s k n' d = (s', rg) \<Longrightarrow> pstep s s'"
| DeleteGroup: "delete_group granted s k = (s', ru) \<Longrightarrow> pstep s s'"
| AddMember: "add_member granted s k pid = (s', ru) \<Longrightarrow> pstep s s'"
| RemoveMember: "remove_member granted s k pid = (s', ru) \<Longrightarrow> pstep s s'"
| CreateGrant: "create_grant dig nfc granted s b = (s', rgr) \<Longrightarrow> pstep s s'"
| DeleteGrant: "delete_grant granted s k = (s', ru) \<Longrightarrow> pstep s s'"
| CreateRole: "create_role granted s rb up now = (s', rr) \<Longrightarrow> pstep s s'"
| PatchRole: "patch_role granted s n pb up now = (s', rp) \<Longrightarrow> pstep s s'"
| DeleteRole: "delete_role granted s n up now = (s', ru) \<Longrightarrow> pstep s s'"
| CreateUser: "create_user granted held s n role = (s', rpr) \<Longrightarrow> pstep s s'"
| PatchUser: "patch_user granted held s k role' dis pw now = (s', rpr) \<Longrightarrow> pstep s s'"
| DeleteUser: "delete_user granted s k = (s', ru) \<Longrightarrow> pstep s s'"
| Open: "require_permission action coarse auth up aw now s who = (s', rc) \<Longrightarrow> roles_known up s
    \<Longrightarrow> pstep\<^sup>*\<^sup>* (refresh_roles up now False s) (aw (refresh_roles up now False s))
    \<Longrightarrow> (\<And>k. who = Cookie k \<Longrightarrow> same_access k (tables s) (tables (aw (refresh_roles up now False s)))) \<Longrightarrow> pstep s s'"

lemma pstep_ok: "pstep s s' \<Longrightarrow> perm_ok s \<Longrightarrow> perm_ok s'"
proof (induction rule: pstep.induct)
  case (Open action coarse auth up aw now s who s' rc)
  let ?s1 = "refresh_roles up now False s"
  have later: "perm_ok y" if "(\<lambda>x y. pstep x y \<and> (perm_ok x \<longrightarrow> perm_ok y))\<^sup>*\<^sup>* ?s1 y" for y
    using that by (induction rule: rtranclp_induct) (use refresh_ok [OF Open.prems] in blast)+
  have waited: "perm_ok (aw ?s1)" by (rule later [OF Open.IH(1)])
  show ?case
  proof (cases "auth \<and> (\<exists>k. who = Cookie k)")
    case True
    then obtain k where k: "who = Cookie k" by blast
    with True Open.hyps(1) have "require_permission action coarse True up aw now s (Cookie k) = (s', rc)" by simp
    from session_context [OF Open.prems Open.hyps(2) this] waited Open.hyps(3) [OF k] show ?thesis by blast
  next
    case False
    with Open.prems other_context [OF Open.prems Open.hyps(1)] show ?thesis by simp
  qed
qed (metis create_group_ok patch_group_ok delete_group_ok member_ok grant_ok create_role_ok patch_role_ok delete_role_ok
      create_user_ok patch_user_ok delete_user_ok fst_conv)+

definition cold_start :: "pstate \<Rightarrow> bool" where
  "cold_start s = (grant_entries s = [] \<and> loaded_generation (role_registry s) < generation (role_registry s)
     \<and> list_all (\<lambda>p. pr_id p < next_row (tables s)) (principals (tables s)) \<and> admin_row_ok (tables s))"

lemma cold_start_ok: "cold_start s \<Longrightarrow> perm_ok s"
  by (auto simp: cold_start_def perm_ok_def ids_ok_def registry_fresh_def registry_cache.fresh_def registry_entry_def
      cache_fresh_def grant_cache.fresh_def grant_entry_def)

lemma quiet_open: "pstep s (fst (require_permission action coarse auth True id now s who))"
  by (rule pstep.Open [OF prod.collapse [symmetric]]) (simp_all add: roles_known_def same_access_def)

lemma psteps_ok: "pstep\<^sup>*\<^sup>* s s' \<Longrightarrow> perm_ok s \<Longrightarrow> perm_ok s'"
  by (induction rule: rtranclp_induct) (auto intro: pstep_ok)

section \<open>Samples\<close>

definition sample_roles :: "RoleRow list" where
  "sample_roles = map (\<lambda>n. \<lparr>def_name = n, def_scopes = (if n = ''admin'' then [''admin'', ''read'', ''write''] else [''read'', ''write'']),
     def_ceiling_actions = [''search_metadata'', ''download''], display_name = n, role_description = [], builtin = True, role_updated_at = 0\<rparr>)
     [''admin'', ''user'', ''viewer'']"

definition sample_tables :: pdb where
  "sample_tables = \<lparr>principals = [\<lparr>pr_id = 1, global_role = ''admin'', disabled_at = None\<rparr>, \<lparr>pr_id = 2, global_role = ''user'', disabled_at = None\<rparr>],
     usernames = [(1, ''root''), (2, ''ann'')], groups = [], members = [],
     grant_rows = [\<lparr>gr_id = 3, subject_kind = ToPrincipal, subject_id = 2, gr_library = 9, gr_scope = library_label 9,
       gr_action = ''download'', effect_allow = True\<rparr>],
     role_rows = sample_roles, library_ids = [9], next_row = 4\<rparr>"

definition sample_perms :: pstate where
  "sample_perms = \<lparr>tables = sample_tables, role_registry = \<lparr>reg_roles = [], generation = 0, loaded_generation = -1, loaded_until = 0\<rparr>,
     cache_generation = 0, grant_entries = []\<rparr>"

lemma sample_perms_cold: "cold_start sample_perms"
  by code_simp

section \<open>Properties of permissions\<close>



text \<open>
  The cache entry is stamped with the generation at the time of storing, not of reading. If a
  grant is deleted while another request of the same principal waits for its query, the revoked grant is
  stored as current, and requests that start after the deletion are still admitted with it until the entry
  expires.
\<close>

theorem revoked_grant_outlives_race:
  "\<exists>s s1 s2 ctx. cold_start s
     \<and> s1 = fst (require_permission ''download'' (Some ''write'') True True (\<lambda>t. fst (delete_grant [''admin''] t 3)) 5 s (Cookie 2))
     \<and> effective_grants (tables s1) 2 = []
     \<and> require_permission ''download'' (Some ''write'') True True id 20000000 s1 (Cookie 2) = (s2, Inr ctx)
     \<and> ctx_allows ctx (Some (library_label 9)) ''download''"
proof -
  let ?s1 = "fst (require_permission ''download'' (Some ''write'') True True (\<lambda>t. fst (delete_grant [''admin''] t 3)) 5 sample_perms (Cookie 2))"
  let ?r = "require_permission ''download'' (Some ''write'') True True id 20000000 ?s1 (Cookie 2)"
  have "effective_grants (tables ?s1) 2 = []" by code_simp
  moreover have "case snd ?r of Inr ctx \<Rightarrow> ctx_allows ctx (Some (library_label 9)) ''download'' | Inl _ \<Rightarrow> False" by code_simp
  then obtain ctx where "?r = (fst ?r, Inr ctx)" "ctx_allows ctx (Some (library_label 9)) ''download''"
    by (auto split: sum.splits) (metis prod.collapse)
  ultimately show ?thesis using sample_perms_cold by blast
qed

text \<open>
  When the role table cannot be read after a role lost an action, a request still serves the old role, also from then
  on: the answer it stores counts as current.
\<close>

theorem failed_role_query_serves_old_role:
  "\<exists>s s1 s2 s3 ctx. cold_start s
     \<and> s1 = fst (patch_role [''admin''] (fst (require_permission ''download'' (Some ''write'') True True id 5 s (Cookie 2))) ''user''
          \<lparr>rp_display = None, rp_description = None, rp_scopes = None, rp_ceiling = Some []\<rparr> False 6)
     \<and> s2 = fst (require_permission ''download'' (Some ''write'') True False id 7 s1 (Cookie 2))
     \<and> require_permission ''download'' (Some ''write'') True True id 8 s2 (Cookie 2) = (s3, Inr ctx)
     \<and> ctx_allows ctx (Some (library_label 9)) ''download''
     \<and> \<not> allowed (evaluate (effective_grants (tables s2) 2) (role_in (stored_roles (tables s2)) (Some ''user'')) (library_label 9) ''download'')"
proof -
  let ?s1 = "fst (patch_role [''admin''] (fst (require_permission ''download'' (Some ''write'') True True id 5 sample_perms (Cookie 2))) ''user''
          \<lparr>rp_display = None, rp_description = None, rp_scopes = None, rp_ceiling = Some []\<rparr> False 6)"
  let ?s2 = "fst (require_permission ''download'' (Some ''write'') True False id 7 ?s1 (Cookie 2))"
  let ?r = "require_permission ''download'' (Some ''write'') True True id 8 ?s2 (Cookie 2)"
  have "case snd ?r of Inr ctx \<Rightarrow> ctx_allows ctx (Some (library_label 9)) ''download'' | Inl _ \<Rightarrow> False" by code_simp
  then obtain ctx where "?r = (fst ?r, Inr ctx)" "ctx_allows ctx (Some (library_label 9)) ''download''"
    by (auto split: sum.splits) (metis prod.collapse)
  moreover have "\<not> allowed (evaluate (effective_grants (tables ?s2) 2) (role_in (stored_roles (tables ?s2)) (Some ''user'')) (library_label 9) ''download'')"
    by code_simp
  ultimately show ?thesis using sample_perms_cold by blast
qed

text \<open>
  The answer of the decision preview for a principal, library, path and action is what a session
  request of that principal is then told about an item at that path.
\<close>

theorem preview_predicts_enforcement:
  assumes "cold_start s0" and "pstep\<^sup>*\<^sup>* s0 s"
    and "roles_known up s" and "preview dig granted (refresh_roles up now False s) k lib path act = (s1, Inr out)"
    and "require_permission action coarse True up aw now s (Cookie k) = (s', Inr ctx)"
  shows "scope_for dig lib path = Inr (pv_scope out) \<and> (allowed (pv_decision out) \<longleftrightarrow> ctx_allows ctx (Some (pv_scope out)) act)"
proof -
  have ok: "perm_ok s" using psteps_ok [OF assms(2)] cold_start_ok [OF assms(1)] by blast
  define s2 where "s2 = refresh_roles up now False s"
  have "role_from_name s2 n = role_in (stored_roles (tables s)) n" for n
    unfolding s2_def by (simp add: role_from_name_def get_role_in refresh_roles_current [OF perm_okD(1) [OF ok] assms(3)])
  moreover have "tables s2 = tables s" by (simp add: s2_def)
  ultimately obtain p scope where p: "find_principal (tables s) k = Some p" "scope_for dig lib path = Inr scope"
    "out = \<lparr>pv_decision = evaluate (effective_grants (tables s) k) (role_in (stored_roles (tables s)) (Some (global_role p))) scope act,
       pv_action = act, pv_role = role_name (role_in (stored_roles (tables s)) (Some (global_role p))), pv_scope = scope\<rparr>"
    using assms(4) unfolding s2_def [symmetric]
    by (auto simp: preview_def as_admin_def resolve_principal_grants_def split: if_splits option.splits sum.splits)
  from session_context [OF ok assms(3,5)] p show ?thesis
    by (auto simp: follows_tables_def Let_def ctx_allows_def evaluate_admits split: if_splits)
qed

theorem preview_predicts_enforcement_witness:
  "\<exists>out s' ctx. preview zero_digest [''admin''] (refresh_roles True 5 False sample_perms) 2 9 [] ''download'' = (refresh_roles True 5 False sample_perms, Inr out)
     \<and> require_permission ''download'' (Some ''write'') True True id 5 sample_perms (Cookie 2) = (s', Inr ctx)
     \<and> allowed (pv_decision out) \<and> ctx_allows ctx (Some (pv_scope out)) ''download''"
proof -
  let ?p = "preview zero_digest [''admin''] (refresh_roles True 5 False sample_perms) 2 9 [] ''download''"
  let ?r = "require_permission ''download'' (Some ''write'') True True id 5 sample_perms (Cookie 2)"
  have "case snd ?p of Inr out \<Rightarrow> allowed (pv_decision out) | Inl _ \<Rightarrow> False" "case snd ?r of Inr _ \<Rightarrow> True | Inl _ \<Rightarrow> False" by code_simp+
  then obtain out ctx where o: "snd ?p = Inr out" "allowed (pv_decision out)" and c: "snd ?r = Inr ctx"
    by (auto split: sum.splits)
  have s: "fst ?p = refresh_roles True 5 False sample_perms" by (simp add: preview_def as_admin_def split: option.split sum.split prod.split)
  have p: "?p = (refresh_roles True 5 False sample_perms, Inr out)" "?r = (fst ?r, Inr ctx)" using o(1) c s by (metis prod.collapse)+
  have k: "roles_known True sample_perms" by (simp add: roles_known_def)
  from preview_predicts_enforcement [OF sample_perms_cold rtranclp.rtrancl_refl k p] o(2) p show ?thesis by blast
qed

text \<open>
  Property C30. The administrator role cannot be weakened away: after any history of administration and requests a
  principal whose role is \<open>admin\<close> and who is not disabled is admitted with an unrestricted context to every request gated
  by a coarse scope \<open>read\<close>, \<open>write\<close> or \<open>admin\<close>, which covers every one the routes ask for, provided the role table
  could be read since the last change of a role.
\<close>

theorem admin_role_kept:
  assumes "cold_start s0" and "pstep\<^sup>*\<^sup>* s0 s" and "roles_known up s"
    and "find_principal (tables s) k = Some p" and "global_role p = ''admin''" and "disabled_at p = None"
    and "or_default coarse (case map_of ACTION_COARSE_SCOPE action of Some c \<Rightarrow> c | None \<Rightarrow> ''read'') \<in> set SCOPES"
  shows "\<exists>s'. require_permission action coarse True up aw now s (Cookie k) = (s', Inr (open_context action))"
proof -
  have ok: "perm_ok s" using psteps_ok [OF assms(2)] cold_start_ok [OF assms(1)] by blast
  define s1 where "s1 = refresh_roles up now False s"
  let ?rows = "map RoleDef.truncate (role_rows (tables s))"
  from perm_okD(4) [OF ok] obtain a where a: "a \<in> set (role_rows (tables s))" "def_name a = ''admin''" unfolding admin_row_ok_iff by blast
  have "''admin'' \<in> fst ` set (rev (map (\<lambda>r. (def_name r, role_of_row r)) ?rows))"
    using a by (force simp: RoleDef.truncate_def)
  then have "map_of (rev (map (\<lambda>r. (def_name r, role_of_row r)) ?rows)) ''admin'' \<noteq> None"
    unfolding map_of_eq_None_iff by blast
  then obtain r where r: "map_of (rev (map (\<lambda>r. (def_name r, role_of_row r)) ?rows)) ''admin'' = Some r" by blast
  from rows_keyed [OF r] obtain t where t: "t \<in> set ?rows" "def_name t = ''admin''" "r = role_of_row t" by blast
  from t(1) obtain row where "row \<in> set (role_rows (tables s))" "t = RoleDef.truncate row" unfolding set_map by blast
  with t have row: "row \<in> set (role_rows (tables s))" "def_name row = ''admin''" "r = role_of_row (RoleDef.truncate row)"
    by (simp_all add: RoleDef.truncate_def)
  then have "set SCOPES \<subseteq> set (def_scopes row)" using perm_okD(4) [OF ok] unfolding admin_row_ok_iff by blast
  then have b: "bypass r" "set SCOPES \<subseteq> scopes r" by (auto simp: row(3) role_of_row_def RoleDef.truncate_def SCOPES_def)
  have "role_in (stored_roles (tables s)) (Some ''admin'') = r"
    using r by (simp add: role_in_def get_def stored_roles_def registry_lookup)
  then have "role_from_name s1 (Some (global_role p)) = r"
    unfolding s1_def by (simp add: role_from_name_def get_role_in refresh_roles_current [OF perm_okD(1) [OF ok] assms(3)] assms(5))
  then have "require_permission action coarse True up aw now s (Cookie k) = (s1, Inr (open_context action))"
    using assms(4,6) subsetD [OF b(2) assms(7)] b(1)
    by (simp add: require_permission_def resolve_session_principal_def Let_def s1_def [symmetric]) (simp add: s1_def)
  then show ?thesis by blast
qed

theorem admin_role_kept_witness:
  "\<exists>s'. require_permission ''download'' None True True id 7
      (fst (patch_role [''admin''] sample_perms ''admin'' \<lparr>rp_display = None, rp_description = None, rp_scopes = Some [], rp_ceiling = Some []\<rparr> True 6)) (Cookie 1)
    = (s', Inr (open_context ''download''))"
proof (rule admin_role_kept [OF sample_perms_cold])
  let ?s = "fst (patch_role [''admin''] sample_perms ''admin'' \<lparr>rp_display = None, rp_description = None, rp_scopes = Some [], rp_ceiling = Some []\<rparr> True 6)"
  show "pstep\<^sup>*\<^sup>* sample_perms ?s" using pstep.PatchRole [OF prod.collapse [symmetric]] by blast
  show "find_principal (tables ?s) 1 = Some \<lparr>pr_id = 1, global_role = ''admin'', disabled_at = None\<rparr>" by code_simp
qed (simp_all add: roles_known_def or_default_def ACTION_COARSE_SCOPE_def SCOPES_def)

text \<open>
  The rule that keeps the last administrator guards only deletion: the account that cannot be
  deleted because it is the last administrator can be demoted (or disabled), after which no account at all
  passes an administrator-only endpoint.
\<close>

theorem last_admin_can_be_demoted:
  "\<exists>s s'. cold_start s \<and> pstep s s'
     \<and> snd (delete_user [''admin''] s 1) = Inl (HTTPException 409)
     \<and> s' = fst (patch_user [''admin''] {''read'', ''write'', ''admin''} s 1 (Some ''viewer'') None False 0)
     \<and> list_all (\<lambda>p. \<not> bypass (role_in (stored_roles (tables s')) (Some (global_role p)))
          \<and> ''admin'' \<notin> scopes (role_in (stored_roles (tables s')) (Some (global_role p)))) (principals (tables s'))"
proof -
  let ?c = sample_perms
  let ?s' = "fst (patch_user [''admin''] {''read'', ''write'', ''admin''} ?c 1 (Some ''viewer'') None False 0)"
  have "cold_start ?c" by (rule sample_perms_cold)
  moreover have "pstep ?c ?s'" by (rule pstep.PatchUser [OF prod.collapse [symmetric]])
  moreover have "snd (delete_user [''admin''] ?c 1) = Inl (HTTPException 409)" by code_simp
  moreover have "list_all (\<lambda>p. \<not> bypass (role_in (stored_roles (tables ?s')) (Some (global_role p)))
      \<and> ''admin'' \<notin> scopes (role_in (stored_roles (tables ?s')) (Some (global_role p)))) (principals (tables ?s'))" by code_simp
  ultimately show ?thesis by blast
qed

text \<open>
  For a restricted context the answer about one item and the listing agree: the item passes a
  plain read exactly when the row filter of listings selects it. An action on it is refused with 403 only if
  the caller can see it, and with 404 otherwise, so a refusal never reveals an item outside the caller's scope.
\<close>

theorem item_check_agrees_with_listing:
  assumes "\<not> unrestricted ctx" and "ctx_role ctx = Some role" and "use_ltree \<longrightarrow> ltree_descendant desc"
    and "list_all (\<lambda>g. grant_action g = VISIBILITY_ACTION \<longrightarrow> valid_scope (grant_path g)) (ctx_grants ctx)"
    and "\<not> bypass role"
  shows "(authorize_item ctx scope (Some VISIBILITY_ACTION) = None \<longleftrightarrow> selected desc (ctx_sql_clause ctx use_ltree None) scope)
    \<and> (authorize_item ctx scope (Some act) = None \<longleftrightarrow> can_item ctx scope (Some act))
    \<and> (authorize_item ctx scope (Some act) = Some (HTTPException 403) \<longrightarrow> selected desc (ctx_sql_clause ctx use_ltree None) scope)
    \<and> authorize_item ctx scope (Some act) \<in> {None, Some (HTTPException 403), Some (HTTPException 404)}"
proof -
  have ne: "or_default None VISIBILITY_ACTION = VISIBILITY_ACTION" "or_default (Some VISIBILITY_ACTION) d = VISIBILITY_ACTION" for d
    by (simp_all add: or_default_def VISIBILITY_ACTION_def)
  have vis: "ctx_allows ctx scope VISIBILITY_ACTION \<longleftrightarrow> selected desc (ctx_sql_clause ctx use_ltree None) scope"
    using sql_scope_evaluate [OF assms(3), of role "ctx_grants ctx" VISIBILITY_ACTION] assms
    by (cases scope) (auto simp: ctx_allows_def ctx_sql_clause_def ne)
  then show ?thesis using assms(1) by (auto simp: authorize_item_def can_item_def Let_def ne)
qed

theorem item_check_agrees_with_listing_witness:
  "\<exists>ctx. authorize_item ctx (Some ''a.b'') (Some ''download'') = Some (HTTPException 403)
     \<and> selected (\<lambda>_ _. False) (ctx_sql_clause ctx False None) (Some ''a.b'')
     \<and> \<not> selected (\<lambda>_ _. False) (ctx_sql_clause ctx False None) (Some ''ab'')"
proof -
  let ?g = "\<lparr>grant_path = ''a'', grant_action = ''search_metadata'', allow = True, group_ref = None, principal_ref = None\<rparr>"
  let ?ctx = "\<lparr>unrestricted = False, ctx_action = ''download'', ctx_role = Some USER, ctx_grants = [?g]\<rparr>"
  have a: "authorize_item ?ctx (Some ''a.b'') (Some ''download'') = Some (HTTPException 403)"
    "authorize_item ?ctx (Some ''ab'') (Some VISIBILITY_ACTION) \<noteq> None" by code_simp+
  have v: "list_all (\<lambda>g. grant_action g = VISIBILITY_ACTION \<longrightarrow> valid_scope (grant_path g)) (ctx_grants ?ctx)" "\<not> bypass USER" by code_simp+
  have "selected (\<lambda>_ _. False) (ctx_sql_clause ?ctx False None) (Some ''a.b'')"
    using item_check_agrees_with_listing [of ?ctx USER False "\<lambda>_ _. False" "Some ''a.b''" "''download''"] a v by simp
  moreover have "\<not> selected (\<lambda>_ _. False) (ctx_sql_clause ?ctx False None) (Some ''ab'')"
    using item_check_agrees_with_listing [of ?ctx USER False "\<lambda>_ _. False" "Some ''ab''" "''download''"] a v by simp
  ultimately show ?thesis using a(1) by blast
qed

text \<open>Deleting an account leaves the grants that name it.\<close>

theorem deleted_user_grants_linger:
  "\<exists>s s'. cold_start s \<and> delete_user [''admin''] s 2 = (s', Inr ()) \<and> find_principal (tables s') 2 = None
     \<and> list_ex (\<lambda>r. subject_kind r = ToPrincipal \<and> subject_id r = 2) (grant_rows (tables s'))"
proof -
  let ?r = "delete_user [''admin''] sample_perms 2"
  have "snd ?r = Inr ()" "find_principal (tables (fst ?r)) 2 = None"
    "list_ex (\<lambda>r. subject_kind r = ToPrincipal \<and> subject_id r = 2) (grant_rows (tables (fst ?r)))" by code_simp+
  moreover from this(1) have "?r = (fst ?r, Inr ())" by (metis prod.collapse)
  ultimately show ?thesis using sample_perms_cold by (intro exI [of _ sample_perms] exI [of _ "fst ?r"]) simp
qed

end
