(* ===== verification/Staging.thy ===== *)
theory Staging
  imports AgentCommands Permissions
begin

text \<open>
  Retrieving a file from an agent: the staging rows of \<open>backend/filearr/models.py\<close>, the resumable upload of
  \<open>backend/filearr/api/agent_staging.py\<close> with the verification of the finished file, the operator's side
  (initiate, status, download, cancel, progress events) of \<open>backend/filearr/api/transfers.py\<close>, and the cleanup
  sweep of \<open>backend/filearr/staging_sweep.py\<close>. The state joins the command queue, the rows and the files under
  the staging directory; what is written to a file stays there when the transaction is rolled back.
  The xxHash digests are parameters. Handlers run one after the other, except that other transactions may
  commit between the checks and the insert of a new row; the audit log is not part of the state.
\<close>

section \<open>Rows, files and settings\<close>

record StagingTransfer =
  st_id :: nat
  st_item :: nat
  st_agent :: nat
  st_command :: nat
  st_state :: TransferState
  bytes_transferred :: nat
  total_bytes :: "int option"
  st_path :: "string option"
  verified_hash :: "string option"
  verified :: bool
  st_expires_at :: int
  last_range_request_at :: "int option"
  st_created_at :: int
  st_updated_at :: int

record staging_settings =
  command_cfg :: command_settings
  staging_dir :: "string option"
  config_dir :: string
  staging_max_chunk_bytes :: nat
  staging_transfer_ttl_seconds :: int
  transfer_ttl_seconds :: int

text \<open>The command queue with the catalogue, the transfer rows, and the files under the staging directory.\<close>

record sdb =
  queue :: cdb
  transfers :: "StagingTransfer list"
  disk :: "(string \<times> bytes) list"

type_synonym 'a sreply = "sdb \<times> (http_error + 'a)"

definition find_transfer :: "sdb \<Rightarrow> nat \<Rightarrow> StagingTransfer option" where
  "find_transfer s k = find (\<lambda>t. st_id t = k) (transfers s)"

definition transfer_of_command :: "sdb \<Rightarrow> nat \<Rightarrow> StagingTransfer option" where
  "transfer_of_command s k = find (\<lambda>t. st_command t = k) (transfers s)"

definition put_transfer :: "StagingTransfer \<Rightarrow> sdb \<Rightarrow> sdb" where
  "put_transfer t s = s\<lparr>transfers := map (\<lambda>x. if st_id x = st_id t then t else x) (transfers s)\<rparr>"

definition active_transfer :: "StagingTransfer \<Rightarrow> bool" where
  "active_transfer t = (st_state t \<in> {t_pending, t_uploading, t_staged})"

definition fits_bigint :: "int \<Rightarrow> bool" where
  "fits_bigint n = (- (2 ^ 63) \<le> n \<and> n < 2 ^ 63)"

text \<open>
  The constraints of the table: the primary key, one transfer per command, one active transfer per
  item, and a declared size that is not negative. Violating one is the \<open>IntegrityError\<close> of the insert.
\<close>

definition insert_ok :: "sdb \<Rightarrow> StagingTransfer \<Rightarrow> bool" where
  "insert_ok s t = (list_all (\<lambda>x. st_id x \<noteq> st_id t \<and> st_command x \<noteq> st_command t
        \<and> \<not> (active_transfer x \<and> active_transfer t \<and> st_item x = st_item t)) (transfers s)
     \<and> (case total_bytes t of None \<Rightarrow> True | Some n \<Rightarrow> 0 \<le> n))"

text \<open>Committing a row stamps \<open>updated_at\<close> only when some column changed.\<close>

definition commit_row :: "int \<Rightarrow> StagingTransfer \<Rightarrow> StagingTransfer \<Rightarrow> StagingTransfer" where
  "commit_row now old new = (if new = old then old else new\<lparr>st_updated_at := now\<rparr>)"

subsection \<open>Paths\<close>

text \<open>\<open>str(Path(root) / name)\<close>: empty and \<open>.\<close> components vanish, exactly two leading slashes stay.\<close>

definition path_anchor :: "string \<Rightarrow> string" where
  "path_anchor p = (if startswith p ''//'' \<and> \<not> startswith p ''///'' then ''//'' else if startswith p ''/'' then ''/'' else [])"

definition path_parts :: "string \<Rightarrow> string list" where
  "path_parts p = filter (\<lambda>s. s \<noteq> [] \<and> s \<noteq> ''.'') (split_on (CHR ''/'') p)"

definition path_join :: "string \<Rightarrow> string \<Rightarrow> string" where
  "path_join d name = path_anchor d @ join ''/'' (path_parts d @ [name])"

definition staging_root :: "staging_settings \<Rightarrow> string" where
  "staging_root cfg = (case staging_dir cfg of
       None \<Rightarrow> config_dir cfg @ ''/staging''
     | Some d \<Rightarrow> if d = [] then config_dir cfg @ ''/staging'' else d)"

definition staged_path :: "staging_settings \<Rightarrow> nat \<Rightarrow> py_exn + string" where
  "staged_path cfg k = bind_res (staging_path_for (uuid_str k)) (\<lambda>p. Inr (path_join (staging_root cfg) (path_name p)))"

definition transfer_file :: "staging_settings \<Rightarrow> StagingTransfer \<Rightarrow> py_exn + string" where
  "transfer_file cfg t = (if or_empty (st_path t) = [] then staged_path cfg (st_id t) else Inr (or_empty (st_path t)))"

text \<open>Removing a file is best effort: \<open>rm\<close> says whether the system call succeeds.\<close>

definition remove_file :: "bool \<Rightarrow> string option \<Rightarrow> sdb \<Rightarrow> sdb" where
  "remove_file rm p s = (if or_empty p = [] \<or> \<not> rm then s else s\<lparr>disk := dict_pop (or_empty p) (disk s)\<rparr>)"

section \<open>Hashes of a staged file\<close>

text \<open>The xxHash library: digests of a byte string, fed incrementally or at once.\<close>

record hashers =
  xxh3_128 :: "bytes \<Rightarrow> string"
  xxh3_64 :: "bytes \<Rightarrow> string"

definition QUICK_CHUNK :: nat where "QUICK_CHUNK = 65536"

text \<open>The reads \<open>f.read(n)\<close> until one is empty.\<close>

function read_chunks :: "nat \<Rightarrow> bytes \<Rightarrow> bytes list" where
  "read_chunks n f = (if f = [] \<or> n = 0 then [] else take n f # read_chunks n (drop n f))"
  by pat_completeness auto
termination by (relation "measure (\<lambda>(n, f). length f)") (auto simp: length_greater_0_conv [symmetric] simp del: length_greater_0_conv)

declare read_chunks.simps [simp del]

definition full_hashes_migration :: "hashers \<Rightarrow> bytes \<Rightarrow> nat \<Rightarrow> string \<times> string" where
  "full_hashes_migration H f sz =
     (let fed = (if sz \<le> QUICK_CHUNK * 2 then f else concat (read_chunks (2 ^ 20) f))
      in (xxh3_128 H fed, xxh3_64 H fed))"

text \<open>\<open>None\<close> is the \<open>OSError\<close> of seeking before the start of the file.\<close>

definition quick_hash_of :: "hashers \<Rightarrow> bytes \<Rightarrow> nat \<Rightarrow> string option" where
  "quick_hash_of H f sz =
     (if sz > QUICK_CHUNK * 2
      then (if length f < QUICK_CHUNK then None
            else Some (xxh3_64 H (take QUICK_CHUNK f @ take QUICK_CHUNK (drop (length f - QUICK_CHUNK) f))))
      else Some (xxh3_64 H f))"

definition compute_staged_hashes :: "hashers \<Rightarrow> bytes \<Rightarrow> (string \<times> string \<times> string \<times> nat) option" where
  "compute_staged_hashes H f =
     (let (h128, h64) = full_hashes_migration H f (length f)
      in map_option (\<lambda>q. (h128, h64, q, length f)) (quick_hash_of H f (length f)))"

definition verify_against_catalog :: "Item \<Rightarrow> string \<Rightarrow> string \<Rightarrow> string \<Rightarrow> nat
    \<Rightarrow> bool \<times> string option \<times> string option \<times> string option" where
  "verify_against_catalog i h128 h64 q sz =
     (if int sz \<noteq> item_size i
      then (False, Some ''size_mismatch'', Some (py_str (JInt (item_size i))), Some (py_str (JInt (int sz))))
      else case content_hash i of
             Some h \<Rightarrow> (let computed = (if length h = 32 then h128 else h64); agrees = (computed = h)
                        in (agrees, if agrees then None else Some ''content_hash_mismatch'', Some h, Some computed))
           | None \<Rightarrow>
               (case quick_hash i of
                  Some h \<Rightarrow> (let agrees = (q = h) in (agrees, if agrees then None else Some ''quick_hash_mismatch'', Some h, Some q))
                | None \<Rightarrow> (False, Some ''no_catalog_hash'', None, Some h128)))"

definition item_library :: "cdb \<Rightarrow> Item \<Rightarrow> Library option" where
  "item_library db i = find (\<lambda>l. lib_id l = library_id i) (libraries (catalogue db))"

definition pending_rehash_exists :: "cdb \<Rightarrow> nat \<Rightarrow> bool" where
  "pending_rehash_exists db k = list_ex (\<lambda>c. cmd_item c = Some k \<and> cmd_kind c = rehash_check
     \<and> (cmd_status c = c_pending \<or> cmd_status c = c_picked_up)) (commands db)"

definition enqueue_rehash_check :: "staging_settings \<Rightarrow> cdb \<Rightarrow> Item \<Rightarrow> nat \<Rightarrow> int \<Rightarrow> cdb \<times> bool" where
  "enqueue_rehash_check cfg db i k now =
     (if pending_rehash_exists db (item_id i) then (db, False)
      else let library_ref = (case item_library db i of Some l \<Rightarrow> root_path l | None \<Rightarrow> [])
           in (add_cmd (new_command db k rehash_check (Some (item_id i))
                 [(''library_ref'', JStr library_ref), (''rel_path'', JStr (item_rel_path i)), (''content'', JBool True)]
                 now (ttl_seconds (command_cfg cfg)) None) db, True))"

definition find_catalog_item :: "cdb \<Rightarrow> nat \<Rightarrow> Item option" where
  "find_catalog_item db k = find (\<lambda>i. item_id i = k) (items (catalogue db))"

text \<open>
  The final byte has arrived. An error is an unhandled exception before anything was removed or queued.
\<close>

definition wants_verify :: "cdb \<Rightarrow> StagingTransfer \<Rightarrow> bool" where
  "wants_verify db t = (case find_cmd db (st_command t) of
       None \<Rightarrow> False
     | Some c \<Rightarrow> (case map_of (payload c) ''verify'' of None \<Rightarrow> False | Some v \<Rightarrow> truthy v))"

definition staged_verdict :: "hashers \<Rightarrow> sdb \<Rightarrow> StagingTransfer \<Rightarrow> string \<Rightarrow> (bool \<times> string) option" where
  "staged_verdict H s t p = (case map_of (disk s) p of
       None \<Rightarrow> None
     | Some f \<Rightarrow> (case compute_staged_hashes H f of
           None \<Rightarrow> None
         | Some (h128, h64, q, sz) \<Rightarrow>
             Some (case find_catalog_item (queue s) (st_item t) of
                     None \<Rightarrow> False
                   | Some i \<Rightarrow> fst (verify_against_catalog i h128 h64 q sz), h128)))"

definition fail_staged :: "staging_settings \<Rightarrow> bool \<Rightarrow> int \<Rightarrow> sdb \<Rightarrow> StagingTransfer \<Rightarrow> string \<Rightarrow> http_error + (sdb \<times> StagingTransfer)" where
  "fail_staged cfg rm now s t p = (case transfer_state_machine (st_state t) ev_fail of
       None \<Rightarrow> Inl (HTTPException 500)
     | Some st \<Rightarrow>
         (let q = (case find_catalog_item (queue s) (st_item t) of
                     None \<Rightarrow> queue s
                   | Some i \<Rightarrow> fst (enqueue_rehash_check cfg (queue s) i (st_agent t) now))
          in Inr (remove_file rm (Some p) (s\<lparr>queue := q\<rparr>), t\<lparr>st_state := st, verified := False\<rparr>)))"

definition finalize_staged :: "staging_settings \<Rightarrow> hashers \<Rightarrow> bool \<Rightarrow> int \<Rightarrow> sdb \<Rightarrow> StagingTransfer \<Rightarrow> http_error + (sdb \<times> StagingTransfer)" where
  "finalize_staged cfg H rm now s t =
     (if \<not> wants_verify (queue s) t
      then (case transfer_state_machine (st_state t) ev_staged of
              None \<Rightarrow> Inl (HTTPException 500)
            | Some st \<Rightarrow> Inr (s, t\<lparr>st_state := st\<rparr>))
      else case transfer_file cfg t of
             Inl e \<Rightarrow> Inl (HTTPException 500)
           | Inr p \<Rightarrow>
               (case staged_verdict H s t p of
                  None \<Rightarrow> Inl (HTTPException 500)
                | Some (agrees, h128) \<Rightarrow>
                    if agrees
                    then (case transfer_state_machine (st_state t) ev_staged of
                            None \<Rightarrow> Inl (HTTPException 500)
                          | Some st \<Rightarrow> Inr (s, t\<lparr>st_state := st, verified := True, verified_hash := Some h128\<rparr>))
                    else fail_staged cfg rm now s t p))"


section \<open>Attaching\<close>

text \<open>Of the authenticated agent's row only the authentication mode rides the caller's commit.\<close>

definition stamp_mode :: "FleetAgent \<Rightarrow> sdb \<Rightarrow> sdb" where
  "stamp_mode a s = s\<lparr>queue := (queue s)\<lparr>fleet := map (\<lambda>x. if fa_id x = fa_id a then x\<lparr>last_auth_mode := last_auth_mode a\<rparr> else x)
     (fleet (queue s))\<rparr>\<rparr>"

definition set_fleet :: "FleetAgent list \<Rightarrow> sdb \<Rightarrow> sdb" where
  "set_fleet flt s = s\<lparr>queue := (queue s)\<lparr>fleet := flt\<rparr>\<rparr>"

definition as_agent :: "staging_settings \<Rightarrow> sdb \<Rightarrow> nat \<Rightarrow> agent_request \<Rightarrow> (sdb \<Rightarrow> FleetAgent \<Rightarrow> 'a sreply) \<Rightarrow> 'a sreply" where
  "as_agent cfg s k rq handler =
     (case authenticate_agent (agent_auth_mode (command_cfg cfg)) (proxy_shared_secret (command_cfg cfg)) (fleet (queue s)) k rq of
        Inl e \<Rightarrow> (s, Inl e)
      | Inr (flt, a) \<Rightarrow> handler (set_fleet flt s) a)"

text \<open>The body \<open>None\<close> is not JSON. A boolean is an \<open>int\<close> for \<open>isinstance\<close>.\<close>

definition attach_command_id :: "dict \<Rightarrow> http_error + nat" where
  "attach_command_id body = (case map_of body ''command_id'' of
       None \<Rightarrow> Inl (HTTPException 422)
     | Some v \<Rightarrow> (case uuid_parse (py_str v) of Inl e \<Rightarrow> Inl (HTTPException 422) | Inr k \<Rightarrow> Inr k))"

definition attach_total :: "dict \<Rightarrow> http_error + int option" where
  "attach_total body = (case map_of body ''total_bytes'' of
       None \<Rightarrow> Inr None
     | Some JNull \<Rightarrow> Inr None
     | Some (JInt n) \<Rightarrow> if n < 0 then Inl (HTTPException 422) else Inr (Some n)
     | Some (JBool b) \<Rightarrow> Inr (Some (if b then 1 else 0))
     | Some _ \<Rightarrow> Inl (HTTPException 422))"

definition attach_body :: "json option \<Rightarrow> http_error + (nat \<times> int option)" where
  "attach_body body = (case body of
       None \<Rightarrow> Inl (HTTPException 500)
     | Some (JObj d) \<Rightarrow> bind_res (attach_command_id d) (\<lambda>k. bind_res (attach_total d) (\<lambda>n. Inr (k, n)))
     | Some _ \<Rightarrow> Inl (HTTPException 422))"

text \<open>The response holds the HTTP status and the row.\<close>

definition reattach :: "sdb \<Rightarrow> FleetAgent \<Rightarrow> StagingTransfer \<Rightarrow> int option \<Rightarrow> int \<Rightarrow> (nat \<times> StagingTransfer) sreply" where
  "reattach s a t declared now = (case declared of
       None \<Rightarrow> (s, Inr (200, t))
     | Some n \<Rightarrow>
         if total_bytes t \<noteq> None \<and> total_bytes t \<noteq> Some n \<and> bytes_transferred t > 0 then (s, Inl (HTTPException 409))
         else if bytes_transferred t = 0
         then (if \<not> fits_bigint n then (s, Inl (HTTPException 500))
               else let t' = commit_row now t (t\<lparr>total_bytes := Some n\<rparr>)
                    in (stamp_mode a (put_transfer t' s), Inr (200, t')))
         else (s, Inr (200, t)))"

definition new_transfer :: "staging_settings \<Rightarrow> nat \<Rightarrow> nat \<Rightarrow> nat \<Rightarrow> nat \<Rightarrow> int option \<Rightarrow> string \<Rightarrow> int \<Rightarrow> int \<Rightarrow> StagingTransfer" where
  "new_transfer cfg tid item k cid declared p expires now =
     \<lparr>st_id = tid, st_item = item, st_agent = k, st_command = cid, st_state = t_pending, bytes_transferred = 0, total_bytes = declared,
       st_path = Some p, verified_hash = None, verified = False, st_expires_at = expires, last_range_request_at = None,
       st_created_at = now, st_updated_at = now\<rparr>"

text \<open>
  \<open>awaited\<close> is what other transactions commit between the checks and the insert. A row without an item
  violates a column constraint, as a clash violates a key: both are the integrity error.
\<close>

definition open_transfer :: "staging_settings \<Rightarrow> (sdb \<Rightarrow> sdb) \<Rightarrow> nat \<Rightarrow> sdb \<Rightarrow> FleetAgent \<Rightarrow> Command \<Rightarrow> int option \<Rightarrow> int
    \<Rightarrow> (nat \<times> StagingTransfer) sreply" where
  "open_transfer cfg awaited tid s a c declared now = (case staged_path cfg tid of
       Inl e \<Rightarrow> (s, Inl (HTTPException 500))
     | Inr p \<Rightarrow>
         (let s1 = awaited s;
              row = map_option (\<lambda>i. new_transfer cfg tid i (fa_id a) (cmd_id c) declared p
                      (now + seconds (staging_transfer_ttl_seconds cfg)) now) (cmd_item c)
          in if (case declared of None \<Rightarrow> False | Some n \<Rightarrow> \<not> fits_bigint n) then (s1, Inl (HTTPException 500))
             else case row of
                    Some t \<Rightarrow>
                      if insert_ok s1 t then (stamp_mode a (s1\<lparr>transfers := transfers s1 @ [t]\<rparr>), Inr (201, t))
                      else (case transfer_of_command s1 (cmd_id c) of
                              Some w \<Rightarrow> (s1, Inr (200, w))
                            | None \<Rightarrow> (s1, Inl (HTTPException 409)))
                  | None \<Rightarrow> (case transfer_of_command s1 (cmd_id c) of
                              Some w \<Rightarrow> (s1, Inr (200, w))
                            | None \<Rightarrow> (s1, Inl (HTTPException 409)))))"

definition attach_as :: "staging_settings \<Rightarrow> (sdb \<Rightarrow> sdb) \<Rightarrow> nat \<Rightarrow> nat \<times> int option \<Rightarrow> int \<Rightarrow> sdb \<Rightarrow> FleetAgent \<Rightarrow> (nat \<times> StagingTransfer) sreply" where
  "attach_as cfg awaited tid body now s a = (case body of (cid, declared) \<Rightarrow>
     (case transfer_of_command s cid of
        Some t \<Rightarrow> reattach s a t declared now
      | None \<Rightarrow>
          (case owned_command (queue s) (fa_id a) cid of
             Inl e \<Rightarrow> (s, Inl e)
           | Inr c \<Rightarrow>
               if cmd_kind c \<noteq> stage_upload then (s, Inl (HTTPException 409))
               else if cmd_status c \<noteq> c_picked_up then (s, Inl (HTTPException 409))
               else open_transfer cfg awaited tid s a c declared now)))"

definition attach_transfer :: "staging_settings \<Rightarrow> (sdb \<Rightarrow> sdb) \<Rightarrow> nat \<Rightarrow> sdb \<Rightarrow> nat \<Rightarrow> json option \<Rightarrow> agent_request \<Rightarrow> int
    \<Rightarrow> (nat \<times> StagingTransfer) sreply" where
  "attach_transfer cfg awaited tid s0 k body rq now =
     as_agent cfg s0 k rq (\<lambda>s a. case attach_body body of
         Inl e \<Rightarrow> (s, Inl e)
       | Inr b \<Rightarrow> attach_as cfg awaited tid b now s a)"

section \<open>The committed offset\<close>

definition load_transfer :: "sdb \<Rightarrow> FleetAgent \<Rightarrow> nat \<Rightarrow> http_error + StagingTransfer" where
  "load_transfer s a tid = (case find_transfer s tid of
       None \<Rightarrow> Inl (HTTPException 404)
     | Some t \<Rightarrow> if st_agent t \<noteq> fa_id a then Inl (HTTPException 404) else Inr t)"

definition head_transfer :: "staging_settings \<Rightarrow> sdb \<Rightarrow> nat \<Rightarrow> nat \<Rightarrow> agent_request \<Rightarrow> StagingTransfer sreply" where
  "head_transfer cfg s0 k tid rq = as_agent cfg s0 k rq (\<lambda>s a. (s, load_transfer s a tid))"

section \<open>Appending\<close>

text \<open>\<open>int(s)\<close>: blanks around, a sign, decimal digits with single underscores between them, at most 4300.\<close>

fun dec_run :: "bool \<Rightarrow> string \<Rightarrow> string option" where
  "dec_run us [] = (if us then None else Some [])"
| "dec_run us (c # s) =
     (if c = CHR ''_'' then (if us then None else dec_run True s)
      else if is_decimal c then map_option (\<lambda>ds. c # ds) (dec_run False s) else None)"

definition int_base10 :: "string \<Rightarrow> py_exn + int" where
  "int_base10 s =
     (let t = strip is_space s; neg = startswith t ''-''; u = (if neg \<or> startswith t ''+'' then tl t else t)
      in case dec_run True u of
           None \<Rightarrow> Inl ValueError
         | Some ds \<Rightarrow> if length ds > int_max_str_digits then Inl ValueError
                      else Inr (if neg then - int (dec_value ds) else int (dec_value ds)))"

text \<open>
  What the request stream yields: a chunk with the outcome of writing it (\<open>None\<close> is an \<open>OSError\<close>; a
  number is how many of its bytes the kernel took, which may be fewer than asked), or a dropped
  connection. Opening the file, the final \<open>fsync\<close> and the removal of a rejected file may fail too.
\<close>

datatype stream_event = Chunk bytes "nat option" | Disconnect

record append_io =
  opened :: bool
  stream :: "stream_event list"
  synced :: bool
  unlinked :: bool

definition resize :: "nat \<Rightarrow> bytes \<Rightarrow> bytes" where
  "resize n f = take n f @ replicate (n - length f) 0"

fun receive :: "nat \<Rightarrow> int option \<Rightarrow> nat \<Rightarrow> nat \<Rightarrow> bytes \<Rightarrow> stream_event list \<Rightarrow> bytes \<times> (http_error + nat)" where
  "receive max_chunk limit offset written f [] = (f, Inr written)"
| "receive max_chunk limit offset written f (Disconnect # es) = (f, Inl (HTTPException 500))"
| "receive max_chunk limit offset written f (Chunk c w # es) =
     (if c = [] then receive max_chunk limit offset written f es
      else let written' = written + length c
           in if written' > max_chunk then (f, Inl (HTTPException 413))
              else if (case limit of None \<Rightarrow> False | Some n \<Rightarrow> int (offset + written') > n) then (f, Inl (HTTPException 409))
              else case w of
                     None \<Rightarrow> (f, Inl (HTTPException 500))
                   | Some n \<Rightarrow> receive max_chunk limit offset written' (f @ take n c) es)"

datatype append_reply = Current StagingTransfer | OffsetMismatch nat

text \<open>Either the reply that ends the request, or the offset to append at.\<close>

definition check_append :: "StagingTransfer \<Rightarrow> string option \<Rightarrow> (http_error + append_reply) + nat" where
  "check_append t hdr =
     (if st_state t = t_staged \<or> st_state t = t_downloaded then Inl (Inr (Current t))
      else if st_state t \<noteq> t_pending \<and> st_state t \<noteq> t_uploading then Inl (Inl (HTTPException 409))
      else case hdr of
             None \<Rightarrow> Inl (Inl (HTTPException 400))
           | Some h \<Rightarrow>
               (case int_base10 h of
                  Inl e \<Rightarrow> Inl (Inl (HTTPException 400))
                | Inr offset \<Rightarrow> if offset \<noteq> int (bytes_transferred t) then Inl (Inr (OffsetMismatch (bytes_transferred t)))
                                else Inr (bytes_transferred t)))"

text \<open>The file after the request and the number of bytes counted, committed or not.\<close>

definition write_upload :: "staging_settings \<Rightarrow> StagingTransfer \<Rightarrow> nat \<Rightarrow> append_io \<Rightarrow> sdb \<Rightarrow> sdb \<times> (http_error + nat)" where
  "write_upload cfg t offset io s = (case transfer_file cfg t of
       Inl e \<Rightarrow> (s, Inl (HTTPException 500))
     | Inr p \<Rightarrow>
         if \<not> opened io then (s, Inl (HTTPException 500))
         else let f0 = (case map_of (disk s) p of None \<Rightarrow> [] | Some f \<Rightarrow> f);
                  (f, r) = receive (staging_max_chunk_bytes cfg) (total_bytes t) offset 0 (resize offset f0) (stream io)
              in (s\<lparr>disk := dict_set p f (disk s)\<rparr>,
                  case r of Inl e \<Rightarrow> Inl e | Inr n \<Rightarrow> if synced io then Inr n else Inl (HTTPException 500)))"

definition advance_upload :: "staging_settings \<Rightarrow> hashers \<Rightarrow> bool \<Rightarrow> int \<Rightarrow> sdb \<Rightarrow> StagingTransfer \<Rightarrow> nat \<Rightarrow> http_error + (sdb \<times> StagingTransfer)" where
  "advance_upload cfg H rm now s t new_offset =
     (case (if st_state t = t_pending then transfer_state_machine (st_state t) ev_start_upload else Some (st_state t)) of
        None \<Rightarrow> Inl (HTTPException 500)
      | Some st \<Rightarrow>
          (let t1 = t\<lparr>bytes_transferred := new_offset, st_state := st\<rparr>
           in case total_bytes t of
                None \<Rightarrow> Inr (s, t1)
              | Some n \<Rightarrow> if int new_offset \<ge> n then finalize_staged cfg H rm now s t1 else Inr (s, t1)))"

definition commit_append :: "staging_settings \<Rightarrow> hashers \<Rightarrow> bool \<Rightarrow> int \<Rightarrow> sdb \<Rightarrow> FleetAgent \<Rightarrow> StagingTransfer \<Rightarrow> nat \<Rightarrow> append_reply sreply" where
  "commit_append cfg H rm now s a t new_offset = (case advance_upload cfg H rm now s t new_offset of
       Inl e \<Rightarrow> (s, Inl e)
     | Inr (s', t1) \<Rightarrow>
         if \<not> fits_bigint (int (bytes_transferred t1)) then (s\<lparr>disk := disk s'\<rparr>, Inl (HTTPException 500))
         else let t' = commit_row now t t1 in (stamp_mode a (put_transfer t' s'), Inr (Current t')))"

definition append_as :: "staging_settings \<Rightarrow> hashers \<Rightarrow> nat \<Rightarrow> string option \<Rightarrow> append_io \<Rightarrow> int \<Rightarrow> sdb \<Rightarrow> FleetAgent \<Rightarrow> append_reply sreply" where
  "append_as cfg H tid hdr io now s a = (case load_transfer s a tid of
       Inl e \<Rightarrow> (s, Inl e)
     | Inr t \<Rightarrow>
         (case check_append t hdr of
            Inl r \<Rightarrow> (s, r)
          | Inr offset \<Rightarrow>
              (case write_upload cfg t offset io s of
                 (s1, Inl e) \<Rightarrow> (s1, Inl e)
               | (s1, Inr n) \<Rightarrow> commit_append cfg H (unlinked io) now s1 a t (offset + n))))"

definition append_transfer :: "staging_settings \<Rightarrow> hashers \<Rightarrow> sdb \<Rightarrow> nat \<Rightarrow> nat \<Rightarrow> string option \<Rightarrow> append_io \<Rightarrow> agent_request \<Rightarrow> int
    \<Rightarrow> append_reply sreply" where
  "append_transfer cfg H s0 k tid hdr io rq now = as_agent cfg s0 k rq (append_as cfg H tid hdr io now)"

section \<open>Initiating, reading and cancelling\<close>

record TransferRequest =
  verify_hash :: bool
  max_bytes_per_sec :: "int option"

definition request_ok :: "TransferRequest \<Rightarrow> bool" where
  "request_ok b = (case max_bytes_per_sec b of None \<Rightarrow> True | Some n \<Rightarrow> 0 < n)"

definition load_item :: "sdb \<Rightarrow> nat \<Rightarrow> http_error + Item" where
  "load_item s k = (case find_catalog_item (queue s) k of None \<Rightarrow> Inl (HTTPException 404) | Some i \<Rightarrow> Inr i)"

definition load_any_transfer :: "sdb \<Rightarrow> nat \<Rightarrow> http_error + StagingTransfer" where
  "load_any_transfer s k = (case find_transfer s k of None \<Rightarrow> Inl (HTTPException 404) | Some t \<Rightarrow> Inr t)"

text \<open>The library that hosts the item on an agent that is not revoked, with the agent's id.\<close>

definition hosting :: "cdb \<Rightarrow> Item \<Rightarrow> http_error + (Library \<times> nat)" where
  "hosting db i = (case item_library db i of
       None \<Rightarrow> Inl (HTTPException 422)
     | Some l \<Rightarrow>
         (case lib_source_agent l of
            None \<Rightarrow> Inl (HTTPException 422)
          | Some k \<Rightarrow>
              (case find_agent (fleet db) k of
                 None \<Rightarrow> Inl (HTTPException 409)
               | Some a \<Rightarrow> if revoked_at a \<noteq> None then Inl (HTTPException 409) else Inr (l, k))))"

definition live_transfer_exists :: "sdb \<Rightarrow> nat \<Rightarrow> int \<Rightarrow> bool" where
  "live_transfer_exists s k now = list_ex (\<lambda>t. st_item t = k \<and> active_transfer t \<and> st_expires_at t > now) (transfers s)"

text \<open>The command and the row are one transaction: after a clash neither exists.\<close>

definition create_transfer :: "staging_settings \<Rightarrow> nat \<Rightarrow> nat option \<Rightarrow> sdb \<Rightarrow> Item \<Rightarrow> Library \<Rightarrow> nat \<Rightarrow> bool \<Rightarrow> int \<Rightarrow> StagingTransfer sreply" where
  "create_transfer cfg tid actor s i l k verify now = (case staged_path cfg tid of
       Inl e \<Rightarrow> (s, Inl (HTTPException 500))
     | Inr p \<Rightarrow>
         (let c = new_command (queue s) k stage_upload (Some (item_id i))
                    [(''library_ref'', JStr (root_path l)), (''rel_path'', JStr (item_rel_path i)), (''verify'', JBool verify)]
                    now (transfer_ttl_seconds cfg) actor;
              t = new_transfer cfg tid (item_id i) k (cmd_id c) (Some (item_size i)) p (expires_at c) now
          in if \<not> fits_bigint (item_size i) then (s, Inl (HTTPException 500))
             else if insert_ok s t then (s\<lparr>queue := add_cmd c (queue s), transfers := transfers s @ [t]\<rparr>, Inr t)
             else (s, Inl (HTTPException 409))))"

definition initiate_transfer :: "staging_settings \<Rightarrow> (sdb \<Rightarrow> sdb) \<Rightarrow> nat \<Rightarrow> nat option \<Rightarrow> PermissionContext \<Rightarrow> sdb \<Rightarrow> nat \<Rightarrow> TransferRequest \<Rightarrow> int
    \<Rightarrow> StagingTransfer sreply" where
  "initiate_transfer cfg awaited tid actor ctx s k body now =
     (if \<not> request_ok body then (s, Inl (HTTPException 422))
      else case load_item s k of
             Inl e \<Rightarrow> (s, Inl e)
           | Inr i \<Rightarrow>
               (case authorize_item ctx (Some (path_scope i)) (Some ''download'') of
                  Some e \<Rightarrow> (s, Inl e)
                | None \<Rightarrow>
                    (case hosting (queue s) i of
                       Inl e \<Rightarrow> (s, Inl e)
                     | Inr (l, ag) \<Rightarrow>
                         if live_transfer_exists s k now then (s, Inl (HTTPException 409))
                         else create_transfer cfg tid actor (awaited s) i l ag (verify_hash body) now)))"

definition get_transfer :: "string list \<Rightarrow> sdb \<Rightarrow> nat \<Rightarrow> http_error + StagingTransfer" where
  "get_transfer granted s k = (if ''read'' \<notin> set granted then Inl (HTTPException 403) else load_any_transfer s k)"

definition end_command :: "CommandEvent \<Rightarrow> int \<Rightarrow> cdb \<Rightarrow> nat \<Rightarrow> py_exn + (cdb \<times> bool)" where
  "end_command ev now db k = (case find_cmd db k of
       None \<Rightarrow> Inr (db, False)
     | Some c \<Rightarrow>
         if command_is_terminal (cmd_status c) then Inr (db, False)
         else case command_state_machine (cmd_status c) ev of
                None \<Rightarrow> Inl ValueError
              | Some st \<Rightarrow> Inr (put_cmd (c\<lparr>cmd_status := st, completed_at := Some now, updated_at := now\<rparr>) db, True))"

definition cancel_transfer :: "string list \<Rightarrow> bool \<Rightarrow> sdb \<Rightarrow> nat \<Rightarrow> int \<Rightarrow> StagingTransfer sreply" where
  "cancel_transfer granted rm s k now =
     (if ''write'' \<notin> set granted then (s, Inl (HTTPException 403))
      else case load_any_transfer s k of
             Inl e \<Rightarrow> (s, Inl e)
           | Inr t \<Rightarrow>
               if transfer_terminal (st_state t) then (s, Inl (HTTPException 409))
               else (case end_command cv_cancel now (queue s) (st_command t) of
                       Inl e \<Rightarrow> (s, Inl (HTTPException 500))
                     | Inr (q, _) \<Rightarrow>
                         (case transfer_state_machine (st_state t) ev_expire of
                            None \<Rightarrow> (s, Inl (HTTPException 500))
                          | Some st \<Rightarrow>
                              (let t' = commit_row now t (t\<lparr>st_state := st\<rparr>)
                               in (remove_file rm (st_path t) (put_transfer t' (s\<lparr>queue := q\<rparr>)), Inr t')))))"

section \<open>Downloading\<close>

definition staged_stat :: "sdb \<Rightarrow> string option \<Rightarrow> nat option" where
  "staged_stat s p = (if or_empty p = [] then None else map_option length (map_of (disk s) (or_empty p)))"

text \<open>\<open>s.partition(c)\<close> without the middle component.\<close>

definition partition_on :: "char \<Rightarrow> string \<Rightarrow> string \<times> string" where
  "partition_on c s = (takeWhile (\<lambda>x. x \<noteq> c) s, tl (dropWhile (\<lambda>x. x \<noteq> c) s))"

text \<open>\<open>None\<close> is the \<open>ValueError\<close> of a range end that is not a number.\<close>

fun covers_parts :: "nat \<Rightarrow> string list \<Rightarrow> bool option" where
  "covers_parts sz [] = Some False"
| "covers_parts sz (q # ps) =
     (let part = strip is_space q
      in if part = [] then covers_parts sz ps
         else let (start_s, end_s) = partition_on (CHR ''-'') part
              in if start_s = [] then Some True
                 else if end_s = [] then Some True
                 else case int_base10 end_s of
                        Inl e \<Rightarrow> None
                      | Inr n \<Rightarrow> if n \<ge> int sz - 1 then Some True else covers_parts sz ps)"

definition range_covers_final_byte :: "string option \<Rightarrow> nat \<Rightarrow> bool" where
  "range_covers_final_byte hdr sz =
     (if or_empty hdr = [] then True
      else if sz = 0 then True
      else let (units, spec) = partition_on (CHR ''='') (or_empty hdr)
           in if lower (strip is_space units) \<noteq> ''bytes'' \<or> spec = [] then False
              else (case covers_parts sz (split_on (CHR '','') spec) of None \<Rightarrow> False | Some b \<Rightarrow> b))"

definition download_refusal :: "StagingTransfer \<Rightarrow> http_error option" where
  "download_refusal t = (if verified t \<and> (st_state t = t_staged \<or> st_state t = t_downloaded) then None else Some (HTTPException 409))"

text \<open>The file handed to the response with the name it is offered under; the range is cut out of it by the server.\<close>

definition download_transfer :: "PermissionContext \<Rightarrow> sdb \<Rightarrow> nat \<Rightarrow> string option \<Rightarrow> int \<Rightarrow> (string \<times> bytes) sreply" where
  "download_transfer ctx s k hdr now = (case load_any_transfer s k of
       Inl e \<Rightarrow> (s, Inl e)
     | Inr t \<Rightarrow>
         (case load_item s (st_item t) of
            Inl e \<Rightarrow> (s, Inl e)
          | Inr i \<Rightarrow>
              (case authorize_item ctx (Some (path_scope i)) (Some ''download'') of
                 Some e \<Rightarrow> (s, Inl e)
               | None \<Rightarrow>
                   (case download_refusal t of
                      Some e \<Rightarrow> (s, Inl e)
                    | None \<Rightarrow>
                        (case staged_stat s (st_path t) of
                           None \<Rightarrow> (s, Inl (HTTPException 409))
                         | Some sz \<Rightarrow>
                             (case (if st_state t = t_staged \<and> range_covers_final_byte hdr sz
                                    then transfer_state_machine (st_state t) ev_download else Some (st_state t)) of
                                None \<Rightarrow> (s, Inl (HTTPException 500))
                              | Some st \<Rightarrow>
                                  (put_transfer (commit_row now t (t\<lparr>last_range_request_at := Some now, st_state := st\<rparr>)) s,
                                   Inr (filename i, the (map_of (disk s) (or_empty (st_path t)))))))))))"

section \<open>Progress events\<close>

definition waiting_for_agent :: "StagingTransfer \<Rightarrow> Command option \<Rightarrow> bool" where
  "waiting_for_agent t c = (st_state t = t_pending \<and> (case c of None \<Rightarrow> False | Some x \<Rightarrow> picked_up_at x = None))"

definition terminal_reason :: "StagingTransfer \<Rightarrow> Command option \<Rightarrow> string" where
  "terminal_reason t c =
     (if st_state t = t_downloaded then ''downloaded''
      else if st_state t = t_failed then ''failed''
      else case c of
             None \<Rightarrow> ''offline_timeout''
           | Some x \<Rightarrow> if cmd_status x = c_cancelled then ''cancelled''
                        else if picked_up_at x = None then ''offline_timeout'' else ''expired'')"

datatype sse = Progress StagingTransfer bool | OfflineTimeout StagingTransfer | VerifyError StagingTransfer
  | NotFound | Done StagingTransfer string

type_synonym progress_fields = "TransferState \<times> nat \<times> int option \<times> bool \<times> bool"

definition progress_key :: "StagingTransfer \<Rightarrow> Command option \<Rightarrow> progress_fields" where
  "progress_key t c = (st_state t, bytes_transferred t, total_bytes t, verified t, waiting_for_agent t c)"

text \<open>One element per poll: the row and its command as read then. The stream ends when the polls do (the client is gone).\<close>

fun transfer_events :: "progress_fields option \<Rightarrow> (StagingTransfer \<times> Command option) option list \<Rightarrow> sse list" where
  "transfer_events last_key [] = []"
| "transfer_events last_key (None # ps) = [NotFound]"
| "transfer_events last_key (Some (t, c) # ps) =
     (if transfer_terminal (st_state t)
      then (let reason = terminal_reason t c
            in (if reason = ''offline_timeout'' then [OfflineTimeout t]
                else if st_state t = t_failed then [VerifyError t] else []) @ [Done t reason])
      else if last_key = Some (progress_key t c) then transfer_events last_key ps
      else Progress t (waiting_for_agent t c) # transfer_events (Some (progress_key t c)) ps)"

section \<open>The cleanup sweep\<close>

definition STAGING_SWEEP_BATCH :: nat where "STAGING_SWEEP_BATCH = 1000"

definition partial_upload :: "StagingTransfer \<Rightarrow> bool" where
  "partial_upload t = (st_state t = t_pending \<or> st_state t = t_uploading)"

definition cleanup_candidate :: "int \<Rightarrow> int \<Rightarrow> StagingTransfer \<Rightarrow> bool" where
  "cleanup_candidate now abandoned_cutoff t =
     (active_transfer t \<and> (st_expires_at t \<le> now \<or> (partial_upload t \<and> st_updated_at t \<le> abandoned_cutoff)))"

record cleanup_counts =
  n_reaped :: nat
  n_ttl_expired :: nat
  n_abandoned :: nat
  n_skipped_active :: nat
  n_commands_expired :: nat

definition still_draining :: "int \<Rightarrow> int \<Rightarrow> int \<Rightarrow> StagingTransfer \<Rightarrow> bool" where
  "still_draining now grace_cutoff abandoned_cutoff t =
     (st_expires_at t \<le> now \<and> \<not> (partial_upload t \<and> st_updated_at t \<le> abandoned_cutoff)
      \<and> (case last_range_request_at t of None \<Rightarrow> False | Some r \<Rightarrow> r > grace_cutoff))"

definition cleanup_row :: "(string \<Rightarrow> bool) \<Rightarrow> int \<Rightarrow> int \<Rightarrow> int \<Rightarrow> StagingTransfer \<Rightarrow> sdb \<times> cleanup_counts \<Rightarrow> py_exn + (sdb \<times> cleanup_counts)" where
  "cleanup_row rm now grace_cutoff abandoned_cutoff t acc = (case acc of (s, n) \<Rightarrow>
     if still_draining now grace_cutoff abandoned_cutoff t
     then Inr (s, n\<lparr>n_skipped_active := Suc (n_skipped_active n)\<rparr>)
     else case transfer_state_machine (st_state t) ev_expire of
            None \<Rightarrow> Inl ValueError
          | Some st \<Rightarrow>
              (case end_command cv_expire now (queue s) (st_command t) of
                 Inl e \<Rightarrow> Inl e
               | Inr (q, ended) \<Rightarrow>
                   (let s' = remove_file (rm (or_empty (st_path t))) (st_path t) (put_transfer (commit_row now t (t\<lparr>st_state := st\<rparr>)) (s\<lparr>queue := q\<rparr>));
                        n1 = n\<lparr>n_commands_expired := n_commands_expired n + (if ended then 1 else 0), n_reaped := Suc (n_reaped n)\<rparr>
                    in Inr (s', if partial_upload t \<and> st_updated_at t \<le> abandoned_cutoff \<and> \<not> st_expires_at t \<le> now
                                then n1\<lparr>n_abandoned := Suc (n_abandoned n)\<rparr> else n1\<lparr>n_ttl_expired := Suc (n_ttl_expired n)\<rparr>))))"

fun cleanup_rows :: "(string \<Rightarrow> bool) \<Rightarrow> int \<Rightarrow> int \<Rightarrow> int \<Rightarrow> StagingTransfer list \<Rightarrow> sdb \<times> cleanup_counts \<Rightarrow> py_exn + (sdb \<times> cleanup_counts)" where
  "cleanup_rows rm now grace_cutoff abandoned_cutoff [] acc = Inr acc"
| "cleanup_rows rm now grace_cutoff abandoned_cutoff (t # ts) acc =
     bind_res (cleanup_row rm now grace_cutoff abandoned_cutoff t acc) (cleanup_rows rm now grace_cutoff abandoned_cutoff ts)"

definition zero_cleanup :: cleanup_counts where
  "zero_cleanup = \<lparr>n_reaped = 0, n_ttl_expired = 0, n_abandoned = 0, n_skipped_active = 0, n_commands_expired = 0\<rparr>"

definition run_staging_cleanup_sweep :: "(string \<Rightarrow> bool) \<Rightarrow> int \<Rightarrow> int \<Rightarrow> int \<Rightarrow> sdb \<Rightarrow> py_exn + (sdb \<times> cleanup_counts)" where
  "run_staging_cleanup_sweep rm now download_grace_seconds abandoned_upload_seconds s =
     (let grace_cutoff = now - seconds download_grace_seconds;
          abandoned_cutoff = now - seconds abandoned_upload_seconds;
          candidates = take STAGING_SWEEP_BATCH (sort_key st_expires_at (filter (cleanup_candidate now abandoned_cutoff) (transfers s)))
      in cleanup_rows rm now grace_cutoff abandoned_cutoff candidates (s, zero_cleanup))"

section \<open>Staging paths\<close>

lemma uuid_str_plain: "c \<in> set (uuid_str k) \<Longrightarrow> hex_char c \<or> c = CHR ''-''"
  using uuid_str_shape(2) [of k] by (auto simp: list_all_iff)

definition staged_name :: "nat \<Rightarrow> string" where
  "staged_name k = uuid_str k @ ''.bin''"

lemma staged_name_plain: "CHR ''/'' \<notin> set (staged_name k)"
  using uuid_str_plain [of "CHR ''/''" k] by (auto simp: staged_name_def hex_char_def)

lemma staged_name_length: "length (staged_name k) = 40"
  using uuid_str_shape(1) [of k] by (simp add: staged_name_def)

lemma path_name_staged: "path_name (STAGING_ROOT @ ''/'' @ staged_name k) = staged_name k"
proof -
  have n: "staged_name k \<noteq> [] \<and> staged_name k \<noteq> ''.''" using staged_name_length [of k] by auto
  have "split_on (CHR ''/'') (STAGING_ROOT @ ''/'' @ staged_name k) = split_on (CHR ''/'') STAGING_ROOT @ [staged_name k]"
    using split_on_append [of "CHR ''/''" STAGING_ROOT "staged_name k"] by (simp add: split_on_no_sep [OF staged_name_plain])
  with n have "filter (\<lambda>s. s \<noteq> [] \<and> s \<noteq> ''.'') (split_on (CHR ''/'') (STAGING_ROOT @ ''/'' @ staged_name k))
      = filter (\<lambda>s. s \<noteq> [] \<and> s \<noteq> ''.'') (split_on (CHR ''/'') STAGING_ROOT) @ [staged_name k]" by simp
  then show ?thesis by (simp only: path_name_def) (simp split: list.split, metis last.simps last_snoc)
qed

definition file_of :: "staging_settings \<Rightarrow> nat \<Rightarrow> string" where
  "file_of cfg k = path_join (staging_root cfg) (staged_name k)"

lemma staged_path_eq: "k < 2 ^ 128 \<Longrightarrow> staged_path cfg k = Inr (file_of cfg k)"
  using path_name_staged [of k]
  by (simp add: staged_path_def staging_path_for_def uuid_parse_str file_of_def staged_name_def)

lemma join_snoc: "join sep (xs @ [x]) = (if xs = [] then x else join sep xs @ sep @ x)"
  by (induction sep xs rule: join.induct) auto

lemma path_join_inj [simp]: "path_join d a = path_join d b \<longleftrightarrow> a = b"
  by (simp add: path_join_def join_snoc)

lemma file_of_inj: "j < 2 ^ 128 \<Longrightarrow> k < 2 ^ 128 \<Longrightarrow> file_of cfg j = file_of cfg k \<longleftrightarrow> j = k"
  by (metis Inr_inject append_same_eq file_of_def path_join_inj staged_name_def uuid_parse_str)

lemma file_of_not_Nil [simp]: "file_of cfg k \<noteq> []"
  using staged_name_length [of k] by (auto simp: file_of_def path_join_def join_snoc)

section \<open>Reading a file in chunks\<close>

lemma concat_read_chunks: "0 < n \<Longrightarrow> concat (read_chunks n f) = f"
proof (induction n f rule: read_chunks.induct)
  case (1 n f)
  then show ?case by (subst read_chunks.simps) auto
qed

lemma full_hashes_whole: "full_hashes_migration H f sz = (xxh3_128 H f, xxh3_64 H f)"
  by (simp add: full_hashes_migration_def concat_read_chunks)

definition sampled :: "bytes \<Rightarrow> bytes" where
  "sampled f = (if length f > QUICK_CHUNK * 2 then take QUICK_CHUNK f @ drop (length f - QUICK_CHUNK) f else f)"

lemma compute_staged_hashes_eq:
  "compute_staged_hashes H f = Some (xxh3_128 H f, xxh3_64 H f, xxh3_64 H (sampled f), length f)"
  by (auto simp: compute_staged_hashes_def full_hashes_whole quick_hash_of_def sampled_def QUICK_CHUNK_def)

text \<open>The catalogue vouches for a file: its size and the strongest hash it has are the file's.\<close>

definition vouches :: "hashers \<Rightarrow> Item \<Rightarrow> bytes \<Rightarrow> bool" where
  "vouches H i f = (item_size i = int (length f)
     \<and> (case content_hash i of
          Some h \<Rightarrow> h = (if length h = 32 then xxh3_128 H f else xxh3_64 H f)
        | None \<Rightarrow> quick_hash i = Some (xxh3_64 H (sampled f))))"

lemma verify_vouches:
  "fst (verify_against_catalog i (xxh3_128 H f) (xxh3_64 H f) (xxh3_64 H (sampled f)) (length f)) \<longleftrightarrow> vouches H i f"
  by (auto simp: verify_against_catalog_def vouches_def Let_def split: option.split)

lemma staged_verdict_eq:
  "staged_verdict H s t p = map_option (\<lambda>f. (case find_catalog_item (queue s) (st_item t) of None \<Rightarrow> False | Some i \<Rightarrow> vouches H i f,
     xxh3_128 H f)) (map_of (disk s) p)"
  by (auto simp: staged_verdict_def compute_staged_hashes_eq verify_vouches split: option.split)


section \<open>What an append writes\<close>

text \<open>The bytes of a request body, and those of them the kernel took.\<close>

definition sent :: "stream_event list \<Rightarrow> bytes" where
  "sent es = concat (map (\<lambda>e. case e of Chunk c w \<Rightarrow> c | Disconnect \<Rightarrow> []) es)"

definition taken :: "stream_event list \<Rightarrow> bytes" where
  "taken es = concat (map (\<lambda>e. case e of Chunk c (Some n) \<Rightarrow> take n c | _ \<Rightarrow> []) es)"

lemma sent_simps [simp]: "sent [] = []" "sent (Chunk c w # es) = c @ sent es"
  by (simp_all add: sent_def)

lemma taken_simps [simp]: "taken [] = []" "taken (Chunk c (Some n) # es) = take n c @ taken es"
  by (simp_all add: taken_def)

lemma taken_empty [simp]: "taken (Chunk [] w # es) = taken es"
  by (simp add: taken_def split: option.split)

lemma receive_Chunk:
  assumes "receive mc bound off w f (Chunk c wr # es) = (f', Inr n)" and "c \<noteq> []"
  obtains k where "wr = Some k" and "w + length c \<le> mc" and "\<forall>l. bound = Some l \<longrightarrow> int (off + (w + length c)) \<le> l"
    and "receive mc bound off (w + length c) (f @ take k c) es = (f', Inr n)"
  using assms by (auto simp: Let_def split: if_splits option.splits)

lemma receive_ok:
  "receive mc bound off w f es = (f', Inr n) \<Longrightarrow>
     f' = f @ taken es \<and> n = w + length (sent es) \<and> (w \<le> mc \<longrightarrow> n \<le> mc)
     \<and> (\<forall>l. bound = Some l \<longrightarrow> int (off + w) \<le> l \<longrightarrow> int (off + n) \<le> l)"
proof (induction es arbitrary: w f)
  case (Cons e es)
  from Cons.prems obtain c wr where e: "e = Chunk c wr" by (cases e) auto
  show ?case
  proof (cases "c = []")
    case True
    with Cons.IH [of w f] Cons.prems e show ?thesis by auto
  next
    case False
    from receive_Chunk [OF Cons.prems [unfolded e] False] obtain k where k: "wr = Some k" "w + length c \<le> mc"
      "\<forall>l. bound = Some l \<longrightarrow> int (off + (w + length c)) \<le> l" "receive mc bound off (w + length c) (f @ take k c) es = (f', Inr n)"
      by metis
    from Cons.IH [OF k(4)] k(1-3) e show ?thesis by auto
  qed
qed simp

text \<open>A body that is received to its end was written without an error.\<close>

definition accepted :: "stream_event \<Rightarrow> bool" where
  "accepted e = (case e of Chunk c w \<Rightarrow> c = [] \<or> w \<noteq> None | Disconnect \<Rightarrow> False)"

lemma receive_accepted: "receive mc bound off w f es = (f', Inr n) \<Longrightarrow> list_all accepted es"
proof (induction es arbitrary: w f)
  case (Cons e es)
  from Cons.prems obtain c wr where e: "e = Chunk c wr" by (cases e) auto
  show ?case
  proof (cases "c = []")
    case True
    with Cons e show ?thesis by (simp add: accepted_def)
  next
    case False
    from receive_Chunk [OF Cons.prems [unfolded e] False] obtain k where "wr = Some k"
      "receive mc bound off (w + length c) (f @ take k c) es = (f', Inr n)" by metis
    with Cons.IH e show ?thesis by (simp add: accepted_def)
  qed
qed simp

lemma receive_prefix: "prefix f (fst (receive mc bound off w f es))"
proof (induction es arbitrary: w f)
  case (Cons e es)
  have "prefix f (fst (receive mc bound off v (f @ x) es))" for v x using Cons.IH append_prefixD by blast
  then show ?case using Cons.IH by (cases e) (auto simp: Let_def split: option.split)
qed simp

lemma length_resize [simp]: "length (resize n f) = n"
  by (simp add: resize_def)

lemma take_resize: "n \<le> length f \<Longrightarrow> resize n f = take n f"
  by (simp add: resize_def)

section \<open>Elementary moves\<close>

text \<open>
  Every handler is a sequence of moves: the queue evolves (with the catalogue as it is, or another one
  in \<open>C\<close>), a row is added, or one row and its file change together. \<open>up\<close> holds of a transfer, an offset, the bytes written there and the number of bytes
  they are counted as.
\<close>

definition uploaded :: "(nat \<Rightarrow> nat \<Rightarrow> bytes \<Rightarrow> nat \<Rightarrow> bool) \<Rightarrow> StagingTransfer \<Rightarrow> bytes option \<Rightarrow> nat \<Rightarrow> bytes \<Rightarrow> bool" where
  "uploaded up t f n g = (partial_upload t \<and> (case total_bytes t of None \<Rightarrow> True | Some l \<Rightarrow> int (bytes_transferred t + n) \<le> l)
     \<and> (\<exists>d. up (st_id t) (bytes_transferred t) d n \<and> g = resize (bytes_transferred t) (case f of None \<Rightarrow> [] | Some x \<Rightarrow> x) @ d))"

inductive row_step :: "hashers \<Rightarrow> (nat \<Rightarrow> nat \<Rightarrow> bytes \<Rightarrow> nat \<Rightarrow> bool) \<Rightarrow> cdb \<Rightarrow> StagingTransfer \<Rightarrow> bytes option \<Rightarrow> StagingTransfer \<Rightarrow> bytes option \<Rightarrow> bool"
  for H up db where
  Same: "row_step H up db t f t f"
| Resized: "bytes_transferred t = 0 \<Longrightarrow> 0 \<le> n \<Longrightarrow> n < 2 ^ 63 \<Longrightarrow> row_step H up db t f (t\<lparr>total_bytes := Some n, st_updated_at := u\<rparr>) f"
| Served: "st_state t = t_staged \<or> st_state t = t_downloaded \<Longrightarrow> verified t \<Longrightarrow> st = st_state t \<or> st = t_downloaded
    \<Longrightarrow> row_step H up db t f (t\<lparr>last_range_request_at := r, st_state := st, st_updated_at := u\<rparr>) f"
| Ended: "active_transfer t \<Longrightarrow> f' = f \<or> f' = None \<Longrightarrow> row_step H up db t f (t\<lparr>st_state := t_expired, st_updated_at := u\<rparr>) f'"
| Torn: "partial_upload t \<Longrightarrow> row_step H up db t f t (Some (resize (bytes_transferred t) (case f of None \<Rightarrow> [] | Some x \<Rightarrow> x) @ d))"
| Grown: "uploaded up t f n g \<Longrightarrow>
    row_step H up db t f (t\<lparr>bytes_transferred := bytes_transferred t + n, st_state := t_uploading, st_updated_at := u\<rparr>) (Some g)"
| Finished: "uploaded up t f n g \<Longrightarrow> total_bytes t = Some (int (bytes_transferred t + n)) \<Longrightarrow>
    row_step H up db t f (t\<lparr>bytes_transferred := bytes_transferred t + n, st_state := t_staged, st_updated_at := u\<rparr>) (Some g)"
| Verified: "uploaded up t f n g \<Longrightarrow> total_bytes t = Some (int (bytes_transferred t + n)) \<Longrightarrow>
    find_catalog_item db (st_item t) = Some i \<Longrightarrow> vouches H i g \<Longrightarrow>
    row_step H up db t f (t\<lparr>bytes_transferred := bytes_transferred t + n, st_state := t_staged, verified := True,
      verified_hash := Some (xxh3_128 H g), st_updated_at := u\<rparr>) (Some g)"
| Rejected: "uploaded up t f n g \<Longrightarrow> total_bytes t = Some (int (bytes_transferred t + n)) \<Longrightarrow> f' = Some g \<or> f' = None \<Longrightarrow>
    row_step H up db t f (t\<lparr>bytes_transferred := bytes_transferred t + n, st_state := t_failed, verified := False, st_updated_at := u\<rparr>) f'"

definition stored :: "staging_settings \<Rightarrow> sdb \<Rightarrow> nat \<Rightarrow> bytes option" where
  "stored cfg s k = map_of (disk s) (file_of cfg k)"

definition size_ok :: "int option \<Rightarrow> nat \<Rightarrow> bool" where
  "size_ok declared n = (case declared of None \<Rightarrow> True | Some l \<Rightarrow> int n \<le> l \<and> l < 2 ^ 63)"

definition fresh_row :: "staging_settings \<Rightarrow> StagingTransfer \<Rightarrow> bool" where
  "fresh_row cfg t = (st_id t < 2 ^ 128 \<and> st_state t = t_pending \<and> bytes_transferred t = 0 \<and> size_ok (total_bytes t) 0
     \<and> st_path t = Some (file_of cfg (st_id t)) \<and> verified_hash t = None \<and> \<not> verified t)"

inductive smove :: "staging_settings \<Rightarrow> hashers \<Rightarrow> nat \<Rightarrow> (central \<Rightarrow> bool) \<Rightarrow> (nat \<Rightarrow> nat \<Rightarrow> bytes \<Rightarrow> nat \<Rightarrow> bool) \<Rightarrow> sdb \<Rightarrow> sdb \<Rightarrow> bool" for cfg H m C up where
  Queue: "evolves m (queue s) q \<Longrightarrow> catalogue q = catalogue (queue s) \<or> C (catalogue q) \<Longrightarrow> smove cfg H m C up s (s\<lparr>queue := q\<rparr>)"
| Insert: "insert_ok s t \<Longrightarrow> fresh_row cfg t \<Longrightarrow> smove cfg H m C up s (s\<lparr>transfers := transfers s @ [t]\<rparr>)"
| Row: "t \<in> set (transfers s) \<Longrightarrow> st_id t' = st_id t \<Longrightarrow> row_step H up (queue s) t (stored cfg s (st_id t)) t' (map_of d (file_of cfg (st_id t)))
    \<Longrightarrow> (\<And>p. p \<noteq> file_of cfg (st_id t) \<Longrightarrow> map_of d p = map_of (disk s) p)
    \<Longrightarrow> smove cfg H m C up s (put_transfer t' (s\<lparr>disk := d\<rparr>))"

abbreviation smoves :: "staging_settings \<Rightarrow> hashers \<Rightarrow> nat \<Rightarrow> (central \<Rightarrow> bool) \<Rightarrow> (nat \<Rightarrow> nat \<Rightarrow> bytes \<Rightarrow> nat \<Rightarrow> bool) \<Rightarrow> sdb \<Rightarrow> sdb \<Rightarrow> bool" where
  "smoves cfg H m C up \<equiv> (smove cfg H m C up)\<^sup>*\<^sup>*"

section \<open>The invariant\<close>

definition complete :: "StagingTransfer \<Rightarrow> bool" where
  "complete t = (st_state t = t_staged \<or> st_state t = t_downloaded)"

definition row_ok :: "staging_settings \<Rightarrow> hashers \<Rightarrow> StagingTransfer \<Rightarrow> bytes option \<Rightarrow> bool" where
  "row_ok cfg H t f = (st_id t < 2 ^ 128 \<and> st_path t = Some (file_of cfg (st_id t)) \<and> size_ok (total_bytes t) (bytes_transferred t)
     \<and> (st_state t = t_pending \<longrightarrow> bytes_transferred t = 0)
     \<and> (complete t \<longrightarrow> bytes_transferred t = 0 \<or> total_bytes t = Some (int (bytes_transferred t)))
     \<and> (verified t \<longrightarrow> st_state t = t_expired \<or> complete t)
     \<and> (verified t \<and> complete t \<longrightarrow> (\<exists>g. f = Some g \<and> verified_hash t = Some (xxh3_128 H g))))"

definition slots_ok :: "StagingTransfer list \<Rightarrow> bool" where
  "slots_ok ts = (\<forall>t\<in>set ts. \<forall>u\<in>set ts. active_transfer t \<and> active_transfer u \<and> st_item t = st_item u \<longrightarrow> st_id t = st_id u)"

definition sdb_ok :: "staging_settings \<Rightarrow> hashers \<Rightarrow> nat \<Rightarrow> sdb \<Rightarrow> bool" where
  "sdb_ok cfg H m s = (distinct (map st_id (transfers s)) \<and> distinct (map st_command (transfers s))
     \<and> slots_ok (transfers s)
     \<and> (\<forall>t\<in>set (transfers s). row_ok cfg H t (stored cfg s (st_id t))) \<and> cdb_ok m (queue s))"

lemma row_step_keeps:
  "row_step H up db t f t' f' \<Longrightarrow> st_id t' = st_id t \<and> st_item t' = st_item t \<and> st_command t' = st_command t
     \<and> st_agent t' = st_agent t \<and> st_path t' = st_path t \<and> (active_transfer t' \<longrightarrow> active_transfer t)"
  by (cases rule: row_step.cases)
     (auto simp: active_transfer_def uploaded_def partial_upload_def)

lemma row_step_ok: "row_step H up db t f t' f' \<Longrightarrow> row_ok cfg H t f \<Longrightarrow> row_ok cfg H t' f'"
proof (induction rule: row_step.induct)
  case (Served t st r u f)
  then show ?case by (auto simp: row_ok_def complete_def)
qed (auto simp: row_ok_def complete_def active_transfer_def partial_upload_def uploaded_def size_ok_def split: option.splits)

lemma put_transfer_sel [simp]:
  "queue (put_transfer t s) = queue s" "disk (put_transfer t s) = disk s"
  "transfers (put_transfer t s) = map (\<lambda>x. if st_id x = st_id t then t else x) (transfers s)"
  by (simp_all add: put_transfer_def)

lemma map_put_ids: "map st_id (map (\<lambda>x. if st_id x = st_id t then t else x) xs) = map st_id xs"
  by (induction xs) auto

lemma map_put_key: "(\<And>x. x \<in> set xs \<Longrightarrow> st_id x = st_id t \<Longrightarrow> g x = g t) \<Longrightarrow> map g (map (\<lambda>x. if st_id x = st_id t then t else x) xs) = map g xs"
  by (induction xs) auto


lemma distinct_ids_eq: "distinct (map st_id xs) \<Longrightarrow> t \<in> set xs \<Longrightarrow> u \<in> set xs \<Longrightarrow> st_id t = st_id u \<Longrightarrow> t = u"
  by (auto simp: distinct_map inj_on_def)

lemma slots_ok_snoc:
  assumes "slots_ok ts" and "\<And>x. x \<in> set ts \<Longrightarrow> \<not> (active_transfer x \<and> active_transfer t \<and> st_item x = st_item t)"
  shows "slots_ok (ts @ [t])"
  unfolding slots_ok_def
proof (intro ballI impI)
  fix x y
  assume "x \<in> set (ts @ [t])" "y \<in> set (ts @ [t])" and a: "active_transfer x \<and> active_transfer y \<and> st_item x = st_item y"
  then consider "x \<in> set ts" "y \<in> set ts" | "x \<in> set ts" "y = t" | "x = t" "y \<in> set ts" | "x = t" "y = t" by auto
  then show "st_id x = st_id y"
  proof cases
    case 1
    with a assms(1) show ?thesis unfolding slots_ok_def by blast
  qed (use a assms(2) in fastforce)+
qed

lemma smove_ok: "smove cfg H m C up s s' \<Longrightarrow> sdb_ok cfg H m s \<Longrightarrow> sdb_ok cfg H m s'"
proof (induction rule: smove.induct)
  case (Queue s q)
  then have "cdb_ok m q" using evolves_ok [OF Queue.hyps(1)] by (simp add: sdb_ok_def)
  with Queue.prems show ?case by (simp add: sdb_ok_def stored_def)
next
  case (Insert s t)
  have "row_ok cfg H t f" for f using Insert.hyps(2) by (simp add: fresh_row_def row_ok_def complete_def)
  moreover have "slots_ok (transfers s @ [t])"
    using Insert.prems Insert.hyps(1) by (intro slots_ok_snoc) (auto simp: sdb_ok_def insert_ok_def list_all_iff)
  ultimately show ?case using Insert.prems Insert.hyps(1) by (auto simp: sdb_ok_def stored_def insert_ok_def list_all_iff)
next
  case (Row t s t' d)
  note keeps = row_step_keeps [OF Row.hyps(3)]
  have ids: "distinct (map st_id (transfers s))" using Row.prems by (simp add: sdb_ok_def)
  have same: "x = t" if "x \<in> set (transfers s)" "st_id x = st_id t" for x
    using distinct_ids_eq [OF ids that(1) Row.hyps(1) that(2)] .
  let ?s' = "put_transfer t' (s\<lparr>disk := d\<rparr>)"
  have "map st_command (transfers ?s') = map st_command (transfers s)"
    using map_put_key [of "transfers s" t' st_command] keeps same by auto
  moreover have "map st_id (transfers ?s') = map st_id (transfers s)" by (simp only: put_transfer_sel map_put_ids) simp
  moreover have "row_ok cfg H x (stored cfg ?s' (st_id x))" if "x \<in> set (transfers ?s')" for x
  proof (cases "st_id x = st_id t")
    case True
    with that have "x = t'" by (auto simp: Row.hyps(2))
    moreover have "row_ok cfg H t (stored cfg s (st_id t))" using Row.prems Row.hyps(1) by (simp add: sdb_ok_def)
    ultimately show ?thesis using row_step_ok [OF Row.hyps(3)] by (simp add: Row.hyps(2) stored_def)
  next
    case False
    with that have x: "x \<in> set (transfers s)" by (auto simp: Row.hyps(2) split: if_splits)
    then have ok: "row_ok cfg H x (stored cfg s (st_id x))" and "row_ok cfg H t (stored cfg s (st_id t))"
      using Row.prems Row.hyps(1) by (simp_all add: sdb_ok_def)
    then have "file_of cfg (st_id x) \<noteq> file_of cfg (st_id t)" using False file_of_inj by (simp add: row_ok_def)
    with ok Row.hyps(4) show ?thesis by (simp add: stored_def)
  qed
  moreover have "slots_ok (transfers ?s')" unfolding slots_ok_def
  proof (intro ballI impI)
    fix x y
    assume xy: "x \<in> set (transfers ?s')" "y \<in> set (transfers ?s')" "active_transfer x \<and> active_transfer y \<and> st_item x = st_item y"
    have old: "\<exists>z\<in>set (transfers s). st_id z = st_id v \<and> st_item z = st_item v \<and> (active_transfer v \<longrightarrow> active_transfer z)"
      if "v \<in> set (transfers ?s')" for v
      using that keeps Row.hyps(1,2) by (auto split: if_splits)
    from old [OF xy(1)] old [OF xy(2)] xy(3) Row.prems show "st_id x = st_id y" unfolding sdb_ok_def slots_ok_def by metis
  qed
  ultimately show ?case using Row.prems unfolding sdb_ok_def by (simp del: put_transfer_sel(3))
qed

lemma smoves_ok: "smoves cfg H m C up s s' \<Longrightarrow> sdb_ok cfg H m s \<Longrightarrow> sdb_ok cfg H m s'"
  by (induction rule: rtranclp_induct) (auto intro: smove_ok)

section \<open>Handlers are moves\<close>

lemma transfer_eval [simp]:
  "transfer_state_machine t_pending ev_start_upload = Some t_uploading"
  "transfer_state_machine t_uploading ev_staged = Some t_staged"
  "transfer_state_machine t_uploading ev_fail = Some t_failed"
  "transfer_state_machine t_staged ev_download = Some t_downloaded"
  by (simp_all add: transfer_steps transfer_terminal_def)

lemma transfer_expire: "active_transfer t \<Longrightarrow> transfer_state_machine (st_state t) ev_expire = Some t_expired"
  by (auto simp: transfer_steps transfer_terminal_def active_transfer_def)

lemma find_transfer_SomeD: "find_transfer s k = Some t \<Longrightarrow> t \<in> set (transfers s) \<and> st_id t = k"
  by (auto simp: find_transfer_def dest: find_SomeD)

lemma transfer_of_command_SomeD: "transfer_of_command s k = Some t \<Longrightarrow> t \<in> set (transfers s) \<and> st_command t = k"
  by (auto simp: transfer_of_command_def dest: find_SomeD)

lemma load_transfer_InrD: "load_transfer s a k = Inr t \<Longrightarrow> t \<in> set (transfers s) \<and> st_id t = k \<and> st_agent t = fa_id a"
  by (auto simp: load_transfer_def dest: find_transfer_SomeD split: option.splits if_splits)

lemma load_any_InrD: "load_any_transfer s k = Inr t \<Longrightarrow> t \<in> set (transfers s) \<and> st_id t = k"
  by (auto simp: load_any_transfer_def dest: find_transfer_SomeD split: option.splits)

lemma sdb_ok_row: "sdb_ok cfg H m s \<Longrightarrow> t \<in> set (transfers s) \<Longrightarrow> row_ok cfg H t (stored cfg s (st_id t))"
  by (simp add: sdb_ok_def)

lemma row_path: "row_ok cfg H t f \<Longrightarrow> or_empty (st_path t) = file_of cfg (st_id t)"
  by (simp add: row_ok_def or_empty_def)

lemma row_file: "row_ok cfg H t f \<Longrightarrow> transfer_file cfg t = Inr (file_of cfg (st_id t))"
  using row_path [of cfg H t f] by (simp add: transfer_file_def)

lemma commit_row_eq: "st_updated_at new = st_updated_at old \<Longrightarrow> \<exists>u. commit_row now old new = new\<lparr>st_updated_at := u\<rparr>"
  by (cases "new = old") (auto simp: commit_row_def intro: exI [of _ "st_updated_at old"])

lemma put_same: "distinct (map st_id (transfers s)) \<Longrightarrow> t \<in> set (transfers s) \<Longrightarrow> put_transfer t s = s"
proof -
  assume d: "distinct (map st_id (transfers s))" and t: "t \<in> set (transfers s)"
  have "map (\<lambda>x. if st_id x = st_id t then t else x) (transfers s) = transfers s"
    using distinct_ids_eq [OF d _ t] by (intro map_idI) auto
  then show ?thesis by (simp add: put_transfer_def)
qed

lemma set_fleet_moves: "smoves cfg H m C up s (set_fleet flt s)"
  unfolding set_fleet_def by (intro r_into_rtranclp smove.Queue evolves_same) simp_all

lemma stamp_mode_moves: "smoves cfg H m C up s s' \<Longrightarrow> smoves cfg H m C up s (stamp_mode a s')"
  unfolding stamp_mode_def by (rule rtranclp.rtrancl_into_rtrancl, assumption, rule smove.Queue, rule evolves_same) simp_all

lemma row_queue_moves:
  assumes "t \<in> set (transfers s)" and "row_step H up (queue s) t (stored cfg s (st_id t)) t' (map_of d (file_of cfg (st_id t)))"
    and "\<And>p. p \<noteq> file_of cfg (st_id t) \<Longrightarrow> map_of d p = map_of (disk s) p" and "evolves m (queue s) q"
    and "catalogue q = catalogue (queue s)"
  shows "smoves cfg H m C up s (put_transfer t' (s\<lparr>disk := d, queue := q\<rparr>))"
proof -
  have "smove cfg H m C up s (put_transfer t' (s\<lparr>disk := d\<rparr>))"
    using assms row_step_keeps [OF assms(2)] by (intro smove.Row) simp_all
  moreover have "smove cfg H m C up (put_transfer t' (s\<lparr>disk := d\<rparr>)) ((put_transfer t' (s\<lparr>disk := d\<rparr>))\<lparr>queue := q\<rparr>)"
    using assms(4,5) by (intro smove.Queue) simp_all
  moreover have "(put_transfer t' (s\<lparr>disk := d\<rparr>))\<lparr>queue := q\<rparr> = put_transfer t' (s\<lparr>disk := d, queue := q\<rparr>)"
    by (simp add: put_transfer_def)
  ultimately show ?thesis by (metis rtranclp.rtrancl_into_rtrancl r_into_rtranclp)
qed

lemma row_moves:
  assumes "t \<in> set (transfers s)" and "row_step H up (queue s) t (stored cfg s (st_id t)) t' (stored cfg s (st_id t))"
  shows "smoves cfg H m C up s (put_transfer t' s)"
  using row_queue_moves [of t s H up cfg t' "disk s" m "queue s"] assms by (simp add: stored_def)

lemma as_agent_cases:
  assumes "as_agent cfg s k rq h = (s', r)"
  obtains e where "s' = s" "r = Inl e" | flt a where "h (set_fleet flt s) a = (s', r)"
    "authenticate_agent (agent_auth_mode (command_cfg cfg)) (proxy_shared_secret (command_cfg cfg)) (fleet (queue s)) k rq = Inr (flt, a)"
  using assms by (auto simp: as_agent_def split: sum.splits)

subsection \<open>Attaching\<close>

lemma attach_body_total: "attach_body body = Inr (cid, Some n) \<Longrightarrow> 0 \<le> n"
  by (auto simp: attach_body_def attach_total_def bind_res_Inr split: option.splits json.splits if_splits)

lemma reattach_moves:
  assumes "t \<in> set (transfers s)" and "\<And>n. declared = Some n \<Longrightarrow> 0 \<le> n" and "reattach s a t declared now = (s', r)"
  shows "smoves cfg H m C up s s'"
proof (cases "\<exists>n. declared = Some n \<and> bytes_transferred t = 0 \<and> fits_bigint n")
  case True
  then obtain n where n: "declared = Some n" "bytes_transferred t = 0" "fits_bigint n" by blast
  from commit_row_eq [of "t\<lparr>total_bytes := Some n\<rparr>" t now] obtain u
    where u: "commit_row now t (t\<lparr>total_bytes := Some n\<rparr>) = t\<lparr>total_bytes := Some n, st_updated_at := u\<rparr>" by auto
  have "0 \<le> n" "n < 2 ^ 63" using assms(2) n by (auto simp: fits_bigint_def)
  then have "smoves cfg H m C up s (put_transfer (commit_row now t (t\<lparr>total_bytes := Some n\<rparr>)) s)"
    unfolding u by (rule row_moves [OF assms(1) row_step.Resized [OF n(2)]])
  with n assms(3) show ?thesis by (auto simp: reattach_def Let_def intro: stamp_mode_moves)
next
  case False
  with assms(3) show ?thesis by (auto simp: reattach_def Let_def split: option.splits if_splits)
qed

lemma fresh_new_transfer:
  "tid < 2 ^ 128 \<Longrightarrow> (\<And>n. declared = Some n \<Longrightarrow> 0 \<le> n \<and> fits_bigint n)
     \<Longrightarrow> fresh_row cfg (new_transfer cfg tid i k cid declared (file_of cfg tid) e now)"
  by (cases declared) (auto simp: fresh_row_def new_transfer_def size_ok_def fits_bigint_def)

lemma open_transfer_moves:
  assumes "tid < 2 ^ 128" and "\<And>n. declared = Some n \<Longrightarrow> 0 \<le> n" and "smoves cfg H m C up s (awaited s)"
    and "open_transfer cfg awaited tid s a c declared now = (s', r)"
  shows "smoves cfg H m C up s s'"
proof (cases "s' = awaited s \<or> s' = s")
  case True
  with assms(3) show ?thesis by auto
next
  case False
  let ?t = "\<lambda>i. new_transfer cfg tid i (fa_id a) (cmd_id c) declared (file_of cfg tid) (now + seconds (staging_transfer_ttl_seconds cfg)) now"
  from False assms(1,4) obtain i where i: "declared = None \<or> fits_bigint (the declared)" and t: "insert_ok (awaited s) (?t i)"
    and s': "s' = stamp_mode a ((awaited s)\<lparr>transfers := transfers (awaited s) @ [?t i]\<rparr>)"
    by (auto simp: open_transfer_def staged_path_eq Let_def split: if_splits option.splits)
  have "fresh_row cfg (?t i)" using assms(1,2) i by (intro fresh_new_transfer) auto
  with t have "smove cfg H m C up (awaited s) ((awaited s)\<lparr>transfers := transfers (awaited s) @ [?t i]\<rparr>)" by (rule smove.Insert)
  with assms(3) show ?thesis unfolding s' by (intro stamp_mode_moves) (rule rtranclp.rtrancl_into_rtrancl)
qed

lemma attach_as_moves:
  assumes "tid < 2 ^ 128" and "\<And>n. declared = Some n \<Longrightarrow> 0 \<le> n" and "smoves cfg H m C up s (awaited s)"
    and "attach_as cfg awaited tid (cid, declared) now s a = (s', r)"
  shows "smoves cfg H m C up s s'"
proof (cases "transfer_of_command s cid")
  case None
  with assms(4) have "s' = s \<or> (\<exists>c. open_transfer cfg awaited tid s a c declared now = (s', r))"
    by (auto simp: attach_as_def split: sum.splits if_splits)
  then show ?thesis using open_transfer_moves [where awaited = awaited and s = s, OF assms(1-3)] by blast
next
  case (Some t)
  with assms(4) have "reattach s a t declared now = (s', r)" by (simp add: attach_as_def)
  with transfer_of_command_SomeD [OF Some] assms(2) show ?thesis by (intro reattach_moves) auto
qed

lemma attach_moves:
  assumes "tid < 2 ^ 128" and "\<And>x. sdb_ok cfg H m x \<Longrightarrow> smoves cfg H m C up x (awaited x)" and "sdb_ok cfg H m s"
    and "attach_transfer cfg awaited tid s k body rq now = (s', r)"
  shows "smoves cfg H m C up s s'"
  using assms(4) unfolding attach_transfer_def
proof (cases rule: as_agent_cases)
  case (2 flt a)
  let ?s = "set_fleet flt s"
  have mv: "smoves cfg H m C up s ?s" by (rule set_fleet_moves)
  have aw: "smoves cfg H m C up ?s (awaited ?s)" using assms(2) smoves_ok [OF mv assms(3)] .
  show ?thesis
  proof (cases "attach_body body")
    case (Inr b)
    then obtain cid declared where b: "attach_body body = Inr (cid, declared)" by (cases b) simp
    with 2(1) have "attach_as cfg awaited tid (cid, declared) now ?s a = (s', r)" by simp
    then have "smoves cfg H m C up ?s s'"
      using attach_body_total b by (intro attach_as_moves [where awaited = awaited and s = ?s, OF assms(1) _ aw]) auto
    with mv show ?thesis by simp
  qed (use 2(1) mv in simp)
qed simp


subsection \<open>Appending\<close>

lemma write_upload_cases:
  assumes "row_ok cfg H t f" and "write_upload cfg t (bytes_transferred t) io s = (s1, r)"
  obtains e where "s1 = s" "r = Inl e"
  | e d where "r = Inl e" "s1 = s\<lparr>disk := dict_set (file_of cfg (st_id t))
        (resize (bytes_transferred t) (case stored cfg s (st_id t) of None \<Rightarrow> [] | Some x \<Rightarrow> x) @ d) (disk s)\<rparr>"
  | n where "r = Inr n" "n = length (sent (stream io))" "n \<le> staging_max_chunk_bytes cfg" "list_all accepted (stream io)"
      "\<forall>l. total_bytes t = Some l \<longrightarrow> int (bytes_transferred t + n) \<le> l"
      "s1 = s\<lparr>disk := dict_set (file_of cfg (st_id t))
        (resize (bytes_transferred t) (case stored cfg s (st_id t) of None \<Rightarrow> [] | Some x \<Rightarrow> x) @ taken (stream io)) (disk s)\<rparr>"
proof -
  let ?f = "resize (bytes_transferred t) (case stored cfg s (st_id t) of None \<Rightarrow> [] | Some x \<Rightarrow> x)"
  obtain g q where g: "receive (staging_max_chunk_bytes cfg) (total_bytes t) (bytes_transferred t) 0 ?f (stream io) = (g, q)"
    by (cases "receive (staging_max_chunk_bytes cfg) (total_bytes t) (bytes_transferred t) 0 ?f (stream io)")
  obtain d where d: "g = ?f @ d"
    using receive_prefix [of ?f "staging_max_chunk_bytes cfg" "total_bytes t" "bytes_transferred t" 0 "stream io"] g by (auto simp: prefix_def)
  have w: "write_upload cfg t (bytes_transferred t) io s = (if \<not> opened io then (s, Inl (HTTPException 500))
      else (s\<lparr>disk := dict_set (file_of cfg (st_id t)) g (disk s)\<rparr>,
        case q of Inl e \<Rightarrow> Inl e | Inr n \<Rightarrow> if synced io then Inr n else Inl (HTTPException 500)))"
    using g by (simp add: write_upload_def row_file [OF assms(1)] stored_def)
  show thesis
  proof (cases r)
    case (Inl e)
    with w assms(2) d show ?thesis using that(1,2) by (auto split: if_splits sum.splits)
  next
    case (Inr n)
    with w assms(2) have "q = Inr n" "s1 = s\<lparr>disk := dict_set (file_of cfg (st_id t)) g (disk s)\<rparr>"
      by (auto split: if_splits sum.splits)
    moreover have "int (bytes_transferred t) \<le> l" if "total_bytes t = Some l" for l
      using assms(1) that by (simp add: row_ok_def size_ok_def)
    ultimately show ?thesis
      using that(3) [OF Inr] receive_ok [OF g [unfolded \<open>q = Inr n\<close>]] receive_accepted [OF g [unfolded \<open>q = Inr n\<close>]] by auto
  qed
qed

lemma enqueue_rehash_catalogue: "catalogue (fst (enqueue_rehash_check cfg db i k now)) = catalogue db"
  by (simp add: enqueue_rehash_check_def add_cmd_def Let_def)

lemma enqueue_rehash_evolves: "evolves m db (fst (enqueue_rehash_check cfg db i k now))"
proof -
  have "rehash_check \<notin> set AGENT_SCOPED_KINDS" by code_simp
  then show ?thesis by (auto simp: enqueue_rehash_check_def Let_def intro: evolves_new)
qed

text \<open>The ways in which the last byte can end: staged, staged and verified, or rejected.\<close>

lemma finalize_cases:
  assumes "row_ok cfg H t0 f" and "st_id t = st_id t0" "st_path t = st_path t0" and "st_state t = t_uploading"
    and "stored cfg s (st_id t) = Some g" and "finalize_staged cfg H rm now s t = Inr (s', t')"
  obtains "s' = s" "t' = t\<lparr>st_state := t_staged\<rparr>"
  | i where "s' = s" "find_catalog_item (queue s) (st_item t) = Some i" "vouches H i g"
      "t' = t\<lparr>st_state := t_staged, verified := True, verified_hash := Some (xxh3_128 H g)\<rparr>"
  | q d where "s' = s\<lparr>disk := d, queue := q\<rparr>" "evolves m (queue s) q" "catalogue q = catalogue (queue s)" "d = disk s \<or> d = dict_pop (file_of cfg (st_id t)) (disk s)"
      "t' = t\<lparr>st_state := t_failed, verified := False\<rparr>"
proof -
  have p: "transfer_file cfg t = Inr (file_of cfg (st_id t))"
    using row_path [OF assms(1)] assms(2,3) by (simp add: transfer_file_def)
  have v: "staged_verdict H s t (file_of cfg (st_id t))
      = Some (case find_catalog_item (queue s) (st_item t) of None \<Rightarrow> False | Some i \<Rightarrow> vouches H i g, xxh3_128 H g)"
    using assms(5) by (simp add: staged_verdict_eq stored_def)
  consider "\<not> wants_verify (queue s) t" | i where "wants_verify (queue s) t" "find_catalog_item (queue s) (st_item t) = Some i" "vouches H i g"
    | "fail_staged cfg rm now s t (file_of cfg (st_id t)) = Inr (s', t')"
    using assms(6) p v by (auto simp: finalize_staged_def split: if_splits option.splits)
  then show thesis
  proof cases
    case 1
    with assms(4,6) that(1) show ?thesis by (simp add: finalize_staged_def )
  next
    case (2 i)
    with assms(4,6) p v that(2) show ?thesis by (simp add: finalize_staged_def )
  next
    case 3
    let ?q = "case find_catalog_item (queue s) (st_item t) of None \<Rightarrow> queue s
       | Some i \<Rightarrow> fst (enqueue_rehash_check cfg (queue s) i (st_agent t) now)"
    have e: "evolves m (queue s) ?q" "catalogue ?q = catalogue (queue s)"
      by (simp_all add: enqueue_rehash_evolves enqueue_rehash_catalogue split: option.split)
    from 3 assms(4) have t': "t' = t\<lparr>st_state := t_failed, verified := False\<rparr>"
      and s': "s' = s\<lparr>disk := if rm then dict_pop (file_of cfg (st_id t)) (disk s) else disk s, queue := ?q\<rparr>"
      by (auto simp: fail_staged_def Let_def remove_file_def or_empty_def)
    show ?thesis by (rule that(3) [OF s' e _ t']) simp
  qed
qed


lemma advance_cases:
  assumes ok: "row_ok cfg H t f" and part: "partial_upload t" and st: "stored cfg s (st_id t) = Some g"
    and le: "\<forall>l. total_bytes t = Some l \<longrightarrow> int (bytes_transferred t + n) \<le> l"
    and adv: "advance_upload cfg H rm now s t (bytes_transferred t + n) = Inr (s', t')"
  obtains "s' = s" "t' = t\<lparr>bytes_transferred := bytes_transferred t + n, st_state := t_uploading\<rparr>"
  | "total_bytes t = Some (int (bytes_transferred t + n))"
      "finalize_staged cfg H rm now s (t\<lparr>bytes_transferred := bytes_transferred t + n, st_state := t_uploading\<rparr>) = Inr (s', t')"
proof -
  have "(if st_state t = t_pending then transfer_state_machine (st_state t) ev_start_upload else Some (st_state t)) = Some t_uploading"
    using part by (auto simp: partial_upload_def)
  with adv le that show thesis
    by (auto simp: advance_upload_def Let_def simp del: of_nat_add split: option.splits if_splits)
qed


lemma torn_moves:
  assumes "sdb_ok cfg H m s" and "t \<in> set (transfers s)" and "partial_upload t"
    and "f = resize (bytes_transferred t) (case stored cfg s (st_id t) of None \<Rightarrow> [] | Some x \<Rightarrow> x) @ d"
  shows "smoves cfg H m C up s (s\<lparr>disk := dict_set (file_of cfg (st_id t)) f (disk s)\<rparr>)"
proof -
  let ?d = "dict_set (file_of cfg (st_id t)) f (disk s)"
  have "row_step H up (queue s) t (stored cfg s (st_id t)) t (map_of ?d (file_of cfg (st_id t)))"
    using row_step.Torn [OF assms(3)] assms(4) by simp
  then have "smoves cfg H m C up s (put_transfer t (s\<lparr>disk := ?d, queue := queue s\<rparr>))"
    using assms(2) by (intro row_queue_moves [where t = t]) simp_all
  moreover have "put_transfer t (s\<lparr>disk := ?d, queue := queue s\<rparr>) = s\<lparr>disk := ?d\<rparr>"
    using put_same [of "s\<lparr>disk := ?d\<rparr>" t] assms(1,2) by (simp add: sdb_ok_def)
  ultimately show ?thesis by simp
qed

lemma commit_moves:
  assumes "t \<in> set (transfers s)"
    and h: "\<And>u. row_step H up (queue s) t (stored cfg s (st_id t)) (t1\<lparr>st_updated_at := u\<rparr>) (map_of e (file_of cfg (st_id t)))"
      "st_updated_at t1 = st_updated_at t" "evolves m (queue s) q" "catalogue q = catalogue (queue s)"
      "\<And>p. p \<noteq> file_of cfg (st_id t) \<Longrightarrow> map_of e p = map_of (disk s) p"
  shows "smoves cfg H m C up s (stamp_mode a (put_transfer (commit_row now t t1) (s\<lparr>disk := e, queue := q\<rparr>)))"
proof -
  obtain u where "commit_row now t t1 = t1\<lparr>st_updated_at := u\<rparr>" using commit_row_eq [OF h(2)] by blast
  then have "smoves cfg H m C up s (put_transfer (commit_row now t t1) (s\<lparr>disk := e, queue := q\<rparr>))"
    using h assms(1) by (intro row_queue_moves [where t = t]) simp_all
  then show ?thesis by (rule stamp_mode_moves)
qed

lemma commit_append_moves:
  assumes ok: "sdb_ok cfg H m s" and t: "t \<in> set (transfers s)" and part: "partial_upload t"
    and g: "g = resize (bytes_transferred t) (case stored cfg s (st_id t) of None \<Rightarrow> [] | Some x \<Rightarrow> x) @ d"
    and s1: "s1 = s\<lparr>disk := dict_set (file_of cfg (st_id t)) g (disk s)\<rparr>"
    and up: "up (st_id t) (bytes_transferred t) d n" and le: "\<forall>l. total_bytes t = Some l \<longrightarrow> int (bytes_transferred t + n) \<le> l"
    and c: "commit_append cfg H rm now s1 a t (bytes_transferred t + n) = (s', r)"
  shows "smoves cfg H m C up s s'"
proof -
  note row = sdb_ok_row [OF ok t]
  have up': "uploaded up t (stored cfg s (st_id t)) n g"
    using part up le g by (auto simp: uploaded_def split: option.split)
  have torn: "smoves cfg H m C up s s1" unfolding s1 by (rule torn_moves [OF ok t part g])
  have st: "stored cfg s1 (st_id t) = Some g" by (simp add: s1 stored_def)
  have step: "smoves cfg H m C up s (stamp_mode a (put_transfer (commit_row now t t1) (s1\<lparr>disk := e, queue := q\<rparr>)))"
    if "\<And>u. row_step H up (queue s) t (stored cfg s (st_id t)) (t1\<lparr>st_updated_at := u\<rparr>) (map_of e (file_of cfg (st_id t)))"
      "st_updated_at t1 = st_updated_at t" "evolves m (queue s) q" "catalogue q = catalogue (queue s)"
      "\<And>p. p \<noteq> file_of cfg (st_id t) \<Longrightarrow> map_of e p = map_of (disk s) p" for t1 e q
    using commit_moves [OF t that] by (simp add: s1)
  show ?thesis
  proof (cases "advance_upload cfg H rm now s1 t (bytes_transferred t + n)")
    case (Inl e)
    with c torn show ?thesis by (simp add: commit_append_def)
  next
    case (Inr x)
    then obtain s2 t1 where adv: "advance_upload cfg H rm now s1 t (bytes_transferred t + n) = Inr (s2, t1)" by (cases x) simp
    from row part st le adv show ?thesis
    proof (cases rule: advance_cases)
      case 1
      have "s' = s1 \<or> s' = stamp_mode a (put_transfer (commit_row now t t1) (s1\<lparr>disk := disk s1, queue := queue s\<rparr>))"
        using c adv 1 by (auto simp: commit_append_def Let_def s1 split: if_splits)
      moreover have "smoves cfg H m C up s (stamp_mode a (put_transfer (commit_row now t t1) (s1\<lparr>disk := disk s1, queue := queue s\<rparr>)))"
        using 1 row_step.Grown [OF up'] by (intro step) (simp_all add: s1)
      ultimately show ?thesis using torn by auto
    next
      case 2
      note whole = 2(1)
      have fits: "fits_bigint (int (bytes_transferred t + n))" using row 2(1) by (auto simp: row_ok_def size_ok_def fits_bigint_def)
      let ?t = "t\<lparr>bytes_transferred := bytes_transferred t + n, st_state := t_uploading\<rparr>"
      have st': "stored cfg s1 (st_id ?t) = Some g" using st by simp
      have same: "st_id ?t = st_id t" "st_path ?t = st_path t" "st_state ?t = t_uploading" by simp_all
      from row same st' 2(2) show ?thesis
      proof (cases rule: finalize_cases [where m = m])
        case 1
        then have "s' = stamp_mode a (put_transfer (commit_row now t t1) (s1\<lparr>disk := disk s1, queue := queue s\<rparr>))"
          using c adv fits by (simp add: commit_append_def Let_def s1 del: of_nat_add)
        moreover have "smoves cfg H m C up s (stamp_mode a (put_transfer (commit_row now t t1) (s1\<lparr>disk := disk s1, queue := queue s\<rparr>)))"
          using 1 row_step.Finished [OF up' whole] by (intro step) (simp_all add: s1)
        ultimately show ?thesis by simp
      next
        case (2 i)
        then have "s' = stamp_mode a (put_transfer (commit_row now t t1) (s1\<lparr>disk := disk s1, queue := queue s\<rparr>))"
          using c adv fits by (simp add: commit_append_def Let_def s1 del: of_nat_add)
        moreover have "find_catalog_item (queue s) (st_item t) = Some i" using 2(2) by (simp add: s1)
        then have "smoves cfg H m C up s (stamp_mode a (put_transfer (commit_row now t t1) (s1\<lparr>disk := disk s1, queue := queue s\<rparr>)))"
          using 2(3,4) row_step.Verified [OF up' whole] by (intro step) (simp_all add: s1)
        ultimately show ?thesis by simp
      next
        case (3 q e)
        then have "s' = stamp_mode a (put_transfer (commit_row now t t1) (s1\<lparr>disk := e, queue := q\<rparr>))"
          using c adv fits by (simp add: commit_append_def Let_def del: of_nat_add)
        moreover have "smoves cfg H m C up s (stamp_mode a (put_transfer (commit_row now t t1) (s1\<lparr>disk := e, queue := q\<rparr>)))"
          using 3(2-5) row_step.Rejected [OF up' whole] by (intro step) (auto simp: s1)
        ultimately show ?thesis by simp
      qed
    qed
  qed
qed


lemma check_append_Inr:
  "check_append t hdr = Inr off \<Longrightarrow> partial_upload t \<and> off = bytes_transferred t \<and> (\<exists>h. hdr = Some h \<and> int_base10 h = Inr (int off))"
  by (cases "st_state t") (auto simp: check_append_def partial_upload_def split: option.splits sum.splits if_splits)

lemma append_as_moves:
  assumes ok: "sdb_ok cfg H m s"
    and up: "\<And>h off. hdr = Some h \<Longrightarrow> int_base10 h = Inr (int off) \<Longrightarrow> list_all accepted (stream io) \<Longrightarrow> up tid off (taken (stream io)) (length (sent (stream io)))"
    and ap: "append_as cfg H tid hdr io now s a = (s', r)"
  shows "smoves cfg H m C up s s'"
proof (cases "\<exists>t off. load_transfer s a tid = Inr t \<and> check_append t hdr = Inr off")
  case False
  with ap have "s' = s" by (auto simp: append_as_def split: sum.splits)
  then show ?thesis by simp
next
  case True
  then obtain t where t: "load_transfer s a tid = Inr t" "check_append t hdr = Inr (bytes_transferred t)" using check_append_Inr by blast
  note in_s = load_transfer_InrD [OF t(1)] and chk = check_append_Inr [OF t(2)]
  then have ts: "t \<in> set (transfers s)"
    and up': "list_all accepted (stream io) \<Longrightarrow> up (st_id t) (bytes_transferred t) (taken (stream io)) (length (sent (stream io)))"
    using up by auto
  obtain s1 w where w: "write_upload cfg t (bytes_transferred t) io s = (s1, w)" by (cases "write_upload cfg t (bytes_transferred t) io s")
  from sdb_ok_row [OF ok ts] w show ?thesis
  proof (cases rule: write_upload_cases)
    case 1
    with ap t w show ?thesis by (simp add: append_as_def)
  next
    case (2 e d)
    with ap t w have "s' = s1" by (simp add: append_as_def)
    with 2(2) torn_moves [OF ok ts] chk show ?thesis by auto
  next
    case (3 n)
    with ap t w have "commit_append cfg H (unlinked io) now s1 a t (bytes_transferred t + n) = (s', r)" by (simp add: append_as_def)
    then show ?thesis using 3(2,4,5,6) chk up' by (intro commit_append_moves [OF ok ts _ refl]) auto
  qed
qed

lemma append_moves:
  assumes "sdb_ok cfg H m s"
    and "\<And>h off. hdr = Some h \<Longrightarrow> int_base10 h = Inr (int off) \<Longrightarrow> list_all accepted (stream io) \<Longrightarrow> up tid off (taken (stream io)) (length (sent (stream io)))"
    and "append_transfer cfg H s k tid hdr io rq now = (s', r)"
  shows "smoves cfg H m C up s s'"
  using assms(3) unfolding append_transfer_def
proof (cases rule: as_agent_cases)
  case (2 flt a)
  have mv: "smoves cfg H m C up s (set_fleet flt s)" by (rule set_fleet_moves)
  have "smoves cfg H m C up (set_fleet flt s) s'"
    using smoves_ok [OF mv assms(1)] assms(2) 2(1) by (intro append_as_moves) auto
  with mv show ?thesis by simp
qed simp

subsection \<open>The operator's side and the sweep\<close>

lemma initiate_moves:
  assumes "tid < 2 ^ 128" and "\<And>x. sdb_ok cfg H m x \<Longrightarrow> smoves cfg H m C up x (awaited x)" and "sdb_ok cfg H m s"
    and "initiate_transfer cfg awaited tid actor ctx s k body now = (s', r)"
  shows "smoves cfg H m C up s s'"
proof (cases "\<exists>i l ag. create_transfer cfg tid actor (awaited s) i l ag (verify_hash body) now = (s', r)")
  case False
  with assms(4) have "s' = s" by (auto simp: initiate_transfer_def split: if_splits sum.splits option.splits)
  then show ?thesis by simp
next
  case True
  then obtain i l ag where c: "create_transfer cfg tid actor (awaited s) i l ag (verify_hash body) now = (s', r)" by blast
  let ?s = "awaited s"
  have aw: "smoves cfg H m C up s ?s" by (rule assms(2) [OF assms(3)])
  show ?thesis
  proof (cases "s' = ?s")
    case False
    with c assms(1) obtain cmd t where cmd: "evolves m (queue ?s) (add_cmd cmd (queue ?s))" and t: "insert_ok ?s t" "fresh_row cfg t"
      and s': "s' = ?s\<lparr>queue := add_cmd cmd (queue ?s), transfers := transfers ?s @ [t]\<rparr>"
    proof -
      have kind: "stage_upload \<notin> set AGENT_SCOPED_KINDS" by code_simp
      let ?c = "new_command (queue ?s) ag stage_upload (Some (item_id i))
          [(''library_ref'', JStr (root_path l)), (''rel_path'', JStr (item_rel_path i)), (''verify'', JBool (verify_hash body))]
          now (transfer_ttl_seconds cfg) actor"
      let ?t = "new_transfer cfg tid (item_id i) ag (cmd_id ?c) (Some (item_size i)) (file_of cfg tid) (expires_at ?c) now"
      from c False assms(1) have f: "fits_bigint (item_size i)" and ins: "insert_ok ?s ?t"
        and s': "s' = ?s\<lparr>queue := add_cmd ?c (queue ?s), transfers := transfers ?s @ [?t]\<rparr>"
        by (auto simp: create_transfer_def staged_path_eq Let_def split: if_splits)
      from ins have "0 \<le> item_size i" by (simp add: insert_ok_def new_transfer_def)
      with f assms(1) have "fresh_row cfg ?t" by (intro fresh_new_transfer) auto
      with evolves_new [of stage_upload "Some (item_id i)"] kind ins s' show thesis by (intro that [of ?c ?t]) auto
    qed
    have "smove cfg H m C up ?s (?s\<lparr>transfers := transfers ?s @ [t]\<rparr>)" using t by (rule smove.Insert)
    moreover have "smove cfg H m C up (?s\<lparr>transfers := transfers ?s @ [t]\<rparr>) (?s\<lparr>transfers := transfers ?s @ [t], queue := add_cmd cmd (queue ?s)\<rparr>)"
      using cmd by (intro smove.Queue) (simp_all add: add_cmd_def)
    moreover have "s' = ?s\<lparr>transfers := transfers ?s @ [t], queue := add_cmd cmd (queue ?s)\<rparr>" using s' by simp
    ultimately show ?thesis using aw by (metis rtranclp.rtrancl_into_rtrancl)
  qed (use aw in simp)
qed

text \<open>Every command with this id has settled.\<close>

definition settled :: "cdb \<Rightarrow> nat \<Rightarrow> bool" where
  "settled db k = (\<forall>c\<in>set (commands db). cmd_id c = k \<longrightarrow> command_is_terminal (cmd_status c))"

lemma put_cmd_settled: "command_is_terminal (cmd_status c) \<Longrightarrow> settled db k \<or> k = cmd_id c \<Longrightarrow> settled (put_cmd c db) k"
  by (auto simp: settled_def put_cmd_def split: if_splits)

lemma end_command_ok:
  assumes "cdb_ok m db" and "ev = cv_cancel \<or> ev = cv_expire"
  obtains q b where "end_command ev now db k = Inr (q, b)" "evolves m db q" "catalogue q = catalogue db" "settled q k" "\<And>j. settled db j \<Longrightarrow> settled q j"
proof (cases "find_cmd db k")
  case None
  then have "settled db k" by (auto simp: settled_def find_cmd_def dest: find_NoneD)
  with None that [of db False] show thesis by (simp add: end_command_def)
next
  case (Some c)
  note c = find_cmd_SomeD [OF Some]
  show thesis
  proof (cases "command_is_terminal (cmd_status c)")
    case True
    then have "settled db k" using c assms(1) by (auto simp: settled_def cdb_ok_def dest: distinct_map_eqD)
    with True Some that [of db False] show ?thesis by (simp add: end_command_def)
  next
    case False
    then obtain st where st: "command_state_machine (cmd_status c) ev = Some st" "command_is_terminal st"
      using assms(2) by (auto simp: command_steps terminal_iff)
    let ?c = "c\<lparr>cmd_status := st, completed_at := Some now, updated_at := now\<rparr>"
    have "moves m c ?c" using False st(2) by (auto simp: moves_def same_identity_def cmd_ok_def terminal_iff)
    then have "evolves m db (put_cmd ?c db)" using assms(1) c by (intro evolves_put) auto
    moreover have "settled (put_cmd ?c db) j" if "settled db j \<or> j = k" for j
      using put_cmd_settled [of ?c db j] st(2) c that by auto
    ultimately show ?thesis using that [of "put_cmd ?c db" True] Some False st(1) by (auto simp: end_command_def)
  qed
qed

definition reap :: "int \<Rightarrow> StagingTransfer \<Rightarrow> StagingTransfer" where
  "reap now t = commit_row now t (t\<lparr>st_state := t_expired\<rparr>)"

lemma reap_sel [simp]: "st_id (reap now t) = st_id t" "st_state (reap now t) = t_expired"
  by (auto simp: reap_def commit_row_def dest: arg_cong [where f = st_state])

lemma remove_file_eq:
  "row_ok cfg H t f \<Longrightarrow> remove_file b (st_path t) (put_transfer t' (s\<lparr>queue := q\<rparr>))
     = put_transfer t' (s\<lparr>disk := if b then dict_pop (file_of cfg (st_id t)) (disk s) else disk s, queue := q\<rparr>)"
  using row_path [of cfg H t f] by (simp add: remove_file_def put_transfer_def)

lemma ended_moves:
  assumes "sdb_ok cfg H m s" and "t \<in> set (transfers s)" and "active_transfer t" and "evolves m (queue s) q" and "catalogue q = catalogue (queue s)"
  shows "smoves cfg H m C up s (remove_file b (st_path t) (put_transfer (reap now t) (s\<lparr>queue := q\<rparr>)))"
proof -
  obtain u where u: "reap now t = t\<lparr>st_state := t_expired, st_updated_at := u\<rparr>"
    using commit_row_eq [of "t\<lparr>st_state := t_expired\<rparr>" t now] by (auto simp: reap_def)
  let ?d = "if b then dict_pop (file_of cfg (st_id t)) (disk s) else disk s"
  have "row_step H up (queue s) t (stored cfg s (st_id t)) (reap now t) (map_of ?d (file_of cfg (st_id t)))"
    unfolding u using assms(3) by (intro row_step.Ended) (auto simp: stored_def)
  then show ?thesis unfolding remove_file_eq [OF sdb_ok_row [OF assms(1,2)]]
    using assms(2,4,5) by (intro row_queue_moves [where t = t]) auto
qed

lemma cancel_moves:
  assumes "sdb_ok cfg H m s" and "cancel_transfer granted rm s k now = (s', r)"
  shows "smoves cfg H m C up s s'"
proof (cases "\<exists>t. load_any_transfer s k = Inr t \<and> \<not> transfer_terminal (st_state t) \<and> s' \<noteq> s")
  case False
  with assms(2) have "s' = s" by (auto simp: cancel_transfer_def split: if_splits sum.splits)
  then show ?thesis by simp
next
  case True
  then obtain t where t: "load_any_transfer s k = Inr t" "\<not> transfer_terminal (st_state t)" "s' \<noteq> s" by blast
  note in_s = load_any_InrD [OF t(1)]
  have act: "active_transfer t" using t(2) by (cases "st_state t") (auto simp: active_transfer_def transfer_terminal_def)
  from assms(1) have "cdb_ok m (queue s)" by (simp add: sdb_ok_def)
  then obtain q b where q: "end_command cv_cancel now (queue s) (st_command t) = Inr (q, b)" "evolves m (queue s) q" "catalogue q = catalogue (queue s)"
    using end_command_ok [of m "queue s" cv_cancel now "st_command t"] by blast
  from assms(2) t q have "s' = remove_file rm (st_path t) (put_transfer (reap now t) (s\<lparr>queue := q\<rparr>))"
    by (auto simp: cancel_transfer_def transfer_expire [OF act] reap_def Let_def split: if_splits)
  with ended_moves [OF assms(1) _ act q(2,3)] in_s show ?thesis by simp
qed

lemma download_cases:
  assumes "download_transfer ctx s k hdr now = (s', r)"
  obtains e where "s' = s" "r = Inl e"
  | t i f st where "r = Inr (filename i, f)" "find_transfer s k = Some t" "find_catalog_item (queue s) (st_item t) = Some i"
      "authorize_item ctx (Some (path_scope i)) (Some ''download'') = None" "verified t" "complete t"
      "map_of (disk s) (or_empty (st_path t)) = Some f" "st = st_state t \<or> st = t_downloaded"
      "s' = put_transfer (commit_row now t (t\<lparr>last_range_request_at := Some now, st_state := st\<rparr>)) s"
proof (cases r)
  case (Inl e)
  with assms have "s' = s" by (auto simp: download_transfer_def split: sum.splits option.splits if_splits)
  with Inl that(1) show ?thesis by blast
next
  case (Inr x)
  then show ?thesis using assms that(2)
    by (auto simp: download_transfer_def load_any_transfer_def load_item_def download_refusal_def complete_def staged_stat_def
        split: sum.splits option.splits if_splits)
qed

lemma download_moves:
  assumes "sdb_ok cfg H m s" and "download_transfer ctx s k hdr now = (s', r)"
  shows "smoves cfg H m C up s s'"
  using assms(2)
proof (cases rule: download_cases)
  case (2 t i f st)
  obtain u where u: "commit_row now t (t\<lparr>last_range_request_at := Some now, st_state := st\<rparr>)
      = t\<lparr>last_range_request_at := Some now, st_state := st, st_updated_at := u\<rparr>"
    using commit_row_eq [of "t\<lparr>last_range_request_at := Some now, st_state := st\<rparr>" t now] by auto
  have "t \<in> set (transfers s)" using find_transfer_SomeD [OF 2(2)] by simp
  then show ?thesis unfolding 2(9) u
    by (rule row_moves) (use 2(5,6,8) in \<open>auto simp: complete_def intro!: row_step.Served\<close>)
qed simp


text \<open>What the sweep does to one row it decided to reclaim.\<close>

lemma cleanup_row_reaps:
  assumes "sdb_ok cfg H m s" and "t \<in> set (transfers s)" and "active_transfer t" and "\<not> still_draining now g a t"
  obtains s' n' q where "cleanup_row rm now g a t (s, n) = Inr (s', n')"
    "s' = put_transfer (reap now t) (s\<lparr>disk := if rm (file_of cfg (st_id t)) then dict_pop (file_of cfg (st_id t)) (disk s) else disk s, queue := q\<rparr>)"
    "settled q (st_command t)" "\<And>j. settled (queue s) j \<Longrightarrow> settled q j"
    "smoves cfg H m C up s s'"
proof -
  from assms(1) have "cdb_ok m (queue s)" by (simp add: sdb_ok_def)
  then obtain q b where q: "end_command cv_expire now (queue s) (st_command t) = Inr (q, b)" "evolves m (queue s) q" "catalogue q = catalogue (queue s)"
    "settled q (st_command t)" "\<And>j. settled (queue s) j \<Longrightarrow> settled q j"
    using end_command_ok [of m "queue s" cv_expire now "st_command t"] by blast
  note row = sdb_ok_row [OF assms(1,2)]
  let ?s = "remove_file (rm (or_empty (st_path t))) (st_path t) (put_transfer (reap now t) (s\<lparr>queue := q\<rparr>))"
  from q(1) assms(3,4) obtain n' where n': "cleanup_row rm now g a t (s, n) = Inr (?s, n')"
    by (auto simp: cleanup_row_def transfer_expire reap_def Let_def)
  have "?s = put_transfer (reap now t) (s\<lparr>disk := if rm (file_of cfg (st_id t)) then dict_pop (file_of cfg (st_id t)) (disk s) else disk s, queue := q\<rparr>)"
    using remove_file_eq [OF row] row_path [OF row] by simp
  then show thesis by (rule that [OF n' _ q(4,5) ended_moves [OF assms(1-3) q(2,3)]])
qed


definition swept_rows :: "int \<Rightarrow> (StagingTransfer \<Rightarrow> bool) \<Rightarrow> StagingTransfer list \<Rightarrow> StagingTransfer list" where
  "swept_rows now reaped ts = map (\<lambda>x. if reaped x then reap now x else x) ts"

definition swept_disk :: "staging_settings \<Rightarrow> (string \<Rightarrow> bool) \<Rightarrow> nat set \<Rightarrow> (string \<Rightarrow> bytes option) \<Rightarrow> string \<Rightarrow> bytes option" where
  "swept_disk cfg rm ks m p = (if rm p \<and> p \<in> file_of cfg ` ks then None else m p)"

lemma swept_step:
  assumes "distinct (map st_id ts)" and "t \<in> set ts" and "\<And>x. reaped x \<Longrightarrow> st_id x \<noteq> st_id t"
  shows "swept_rows now reaped (map (\<lambda>x. if st_id x = st_id (reap now t) then reap now t else x) ts)
    = swept_rows now (\<lambda>x. x = t \<or> reaped x) ts"
  unfolding swept_rows_def map_map
proof (rule map_cong [OF refl])
  fix x
  assume x: "x \<in> set ts"
  have "st_id x = st_id t \<longleftrightarrow> x = t" using distinct_ids_eq [OF assms(1) x assms(2)] by auto
  then show "((\<lambda>x. if reaped x then reap now x else x) \<circ> (\<lambda>x. if st_id x = st_id (reap now t) then reap now t else x)) x
    = (if x = t \<or> reaped x then reap now x else x)" using assms(3) by fastforce
qed

lemma cleanup_rows_spec:
  assumes "sdb_ok cfg H m s" and "set ts \<subseteq> set (transfers s)" and "distinct (map st_id ts)" and "list_all active_transfer ts"
  shows "\<exists>s' n'. cleanup_rows rm now g a ts (s, n) = Inr (s', n') \<and> smoves cfg H m C up s s'
    \<and> transfers s' = swept_rows now (\<lambda>x. x \<in> set ts \<and> \<not> still_draining now g a x) (transfers s)
    \<and> map_of (disk s') = swept_disk cfg rm (st_id ` {x \<in> set ts. \<not> still_draining now g a x}) (map_of (disk s))
    \<and> (\<forall>x\<in>set ts. \<not> still_draining now g a x \<longrightarrow> settled (queue s') (st_command x)) \<and> (\<forall>j. settled (queue s) j \<longrightarrow> settled (queue s') j)"
  using assms
proof (induction ts arbitrary: s n)
  case Nil
  show ?case by (simp add: swept_rows_def swept_disk_def fun_eq_iff)
next
  case (Cons t ts)
  show ?case
  proof (cases "still_draining now g a t")
    case True
    then have st: "cleanup_rows rm now g a (t # ts) (s, n) = cleanup_rows rm now g a ts (s, n\<lparr>n_skipped_active := Suc (n_skipped_active n)\<rparr>)"
      by (simp add: cleanup_row_def)
    have "(\<lambda>x. x \<in> set (t # ts) \<and> \<not> still_draining now g a x) = (\<lambda>x. x \<in> set ts \<and> \<not> still_draining now g a x)"
      "{x \<in> set (t # ts). \<not> still_draining now g a x} = {x \<in> set ts. \<not> still_draining now g a x}" using True by auto
    then show ?thesis unfolding st using Cons.IH [of s] Cons.prems True by (simp only: ) auto
  next
    case False
    have t: "t \<in> set (transfers s)" "active_transfer t" using Cons.prems by auto
    obtain s1 n1 q where s1: "cleanup_row rm now g a t (s, n) = Inr (s1, n1)"
      "s1 = put_transfer (reap now t) (s\<lparr>disk := if rm (file_of cfg (st_id t)) then dict_pop (file_of cfg (st_id t)) (disk s) else disk s, queue := q\<rparr>)"
      "settled q (st_command t)" "\<And>j. settled (queue s) j \<Longrightarrow> settled q j" "smoves cfg H m C up s s1"
      using cleanup_row_reaps [OF Cons.prems(1) t False] by metis
    have ids: "distinct (map st_id (transfers s))" using Cons.prems(1) by (simp add: sdb_ok_def)
    have other: "st_id x \<noteq> st_id t" if "x \<in> set ts" for x using Cons.prems(3) that by (auto simp: image_iff)
    then have sub: "set ts \<subseteq> set (transfers s1)" using Cons.prems(2) by (auto simp: s1(2))
    note sw = swept_step [OF ids t(1), where reaped = "\<lambda>x. x \<in> set ts \<and> \<not> still_draining now g a x" and now = now, OF other [OF conjunct1]]
    obtain s' n' where s': "cleanup_rows rm now g a ts (s1, n1) = Inr (s', n')" "smoves cfg H m C up s1 s'"
      "transfers s' = swept_rows now (\<lambda>x. x \<in> set ts \<and> \<not> still_draining now g a x) (transfers s1)"
      "map_of (disk s') = swept_disk cfg rm (st_id ` {x \<in> set ts. \<not> still_draining now g a x}) (map_of (disk s1))"
      "\<forall>x\<in>set ts. \<not> still_draining now g a x \<longrightarrow> settled (queue s') (st_command x)" "\<forall>j. settled (queue s1) j \<longrightarrow> settled (queue s') j"
      using Cons.IH [OF smoves_ok [OF s1(5) Cons.prems(1)] sub, of n1] Cons.prems(3,4) by auto
    have "transfers s' = swept_rows now (\<lambda>x. x = t \<or> (x \<in> set ts \<and> \<not> still_draining now g a x)) (transfers s)"
      using sw unfolding s'(3) by (simp add: s1(2))
    moreover have "(\<lambda>x. x = t \<or> (x \<in> set ts \<and> \<not> still_draining now g a x)) = (\<lambda>x. x \<in> set (t # ts) \<and> \<not> still_draining now g a x)"
      using False by auto
    moreover have "{x \<in> set (t # ts). \<not> still_draining now g a x} = insert t {x \<in> set ts. \<not> still_draining now g a x}" using False by auto
    then have "map_of (disk s') = swept_disk cfg rm (st_id ` {x \<in> set (t # ts). \<not> still_draining now g a x}) (map_of (disk s))"
      unfolding s'(4) by (auto simp: swept_disk_def s1(2) fun_eq_iff)
    moreover have "settled (queue s') (st_command t)" using s1(2,3) s'(6) by simp
    ultimately show ?thesis using s1 s' by auto
  qed
qed


lemma cleanup_sweep_spec:
  assumes "sdb_ok cfg H m s"
    and "ts = take STAGING_SWEEP_BATCH (sort_key st_expires_at (filter (cleanup_candidate now (now - seconds abd)) (transfers s)))"
  shows "\<exists>s' n. run_staging_cleanup_sweep rm now grace abd s = Inr (s', n) \<and> smoves cfg H m C up s s'
    \<and> transfers s' = swept_rows now (\<lambda>x. x \<in> set ts \<and> \<not> still_draining now (now - seconds grace) (now - seconds abd) x) (transfers s)
    \<and> map_of (disk s') = swept_disk cfg rm (st_id ` {x \<in> set ts. \<not> still_draining now (now - seconds grace) (now - seconds abd) x}) (map_of (disk s))
    \<and> (\<forall>x\<in>set ts. \<not> still_draining now (now - seconds grace) (now - seconds abd) x \<longrightarrow> settled (queue s') (st_command x))"
proof -
  have sub: "set ts \<subseteq> set (filter (cleanup_candidate now (now - seconds abd)) (transfers s))"
    unfolding assms(2) by (auto dest!: in_set_takeD)
  have "distinct (map st_id (transfers s))" using assms(1) by (simp add: sdb_ok_def)
  then have "distinct (map st_id ts)"
    unfolding assms(2) by (simp add: take_map [symmetric] distinct_map inj_on_subset)
       (auto simp: distinct_map intro!: distinct_take inj_on_subset [of st_id "set (transfers s)"] dest!: in_set_takeD)
  moreover have "list_all active_transfer ts" using sub by (auto simp: list_all_iff cleanup_candidate_def)
  moreover have "set ts \<subseteq> set (transfers s)" using sub by auto
  ultimately show ?thesis
    using cleanup_rows_spec [OF assms(1), of ts rm now "now - seconds grace" "now - seconds abd" zero_cleanup C up]
    unfolding run_staging_cleanup_sweep_def Let_def assms(2) by blast
qed

section \<open>Reachable states\<close>

text \<open>
  Anything agents, operators and the sweeps can do, in any order. \<open>Q\<close> restricts the append requests
  (transfer, offset header, stream). Between the checks of a request that opens a transfer and its
  insert, any number of other operations may commit. The catalogue may change at any time, to any one in \<open>C\<close>.
\<close>

inductive sstep :: "staging_settings \<Rightarrow> hashers \<Rightarrow> nat \<Rightarrow> (central \<Rightarrow> bool) \<Rightarrow> (nat \<Rightarrow> string option \<Rightarrow> append_io \<Rightarrow> bool) \<Rightarrow> sdb \<Rightarrow> sdb \<Rightarrow> bool" for cfg H m C Q where
  Attach: "tid < 2 ^ 128 \<Longrightarrow> (\<And>x. (sstep cfg H m C Q)\<^sup>*\<^sup>* x (awaited x)) \<Longrightarrow> attach_transfer cfg awaited tid s k body rq now = (s', r)
    \<Longrightarrow> sstep cfg H m C Q s s'"
| Head: "head_transfer cfg s k tid rq = (s', rh) \<Longrightarrow> sstep cfg H m C Q s s'"
| Append: "Q tid hdr io \<Longrightarrow> append_transfer cfg H s k tid hdr io rq now = (s', ra) \<Longrightarrow> sstep cfg H m C Q s s'"
| Initiate: "tid < 2 ^ 128 \<Longrightarrow> (\<And>x. (sstep cfg H m C Q)\<^sup>*\<^sup>* x (awaited x)) \<Longrightarrow> initiate_transfer cfg awaited tid actor ctx s k b now = (s', ri)
    \<Longrightarrow> sstep cfg H m C Q s s'"
| CancelTransfer: "cancel_transfer granted rm s k now = (s', rc) \<Longrightarrow> sstep cfg H m C Q s s'"
| Download: "download_transfer ctx s k hdr now = (s', rd) \<Longrightarrow> sstep cfg H m C Q s s'"
| Cleanup: "run_staging_cleanup_sweep rmf now grace abd s = Inr (s', n) \<Longrightarrow> sstep cfg H m C Q s s'"
| Commands: "cstep (command_cfg cfg) m (queue s) q \<Longrightarrow> C (catalogue q) \<Longrightarrow> sstep cfg H m C Q s (s\<lparr>queue := q\<rparr>)"
| Catalogue: "C c \<Longrightarrow> sstep cfg H m C Q s (s\<lparr>queue := (queue s)\<lparr>catalogue := c\<rparr>\<rparr>)"

definition admits :: "(nat \<Rightarrow> string option \<Rightarrow> append_io \<Rightarrow> bool) \<Rightarrow> nat \<Rightarrow> nat \<Rightarrow> bytes \<Rightarrow> nat \<Rightarrow> bool" where
  "admits Q tid off d n = (\<exists>h io. Q tid (Some h) io \<and> int_base10 h = Inr (int off) \<and> list_all accepted (stream io) \<and> d = taken (stream io) \<and> n = length (sent (stream io)))"

lemma closure_moves:
  assumes "R\<^sup>*\<^sup>* x y" and "sdb_ok cfg H m x" and "\<And>a b. R a b \<Longrightarrow> sdb_ok cfg H m a \<Longrightarrow> smoves cfg H m C up a b"
  shows "smoves cfg H m C up x y"
  using assms(1)
proof (induction rule: rtranclp_induct)
  case (step y z)
  from step.IH assms(3) [OF step.hyps(2) smoves_ok [OF step.IH assms(2)]] show ?case by (rule rtranclp_trans)
qed simp

lemma sstep_moves: "sstep cfg H m C Q s s' \<Longrightarrow> sdb_ok cfg H m s \<Longrightarrow> smoves cfg H m C (admits Q) s s'"
proof (induction rule: sstep.induct)
  case (Attach tid awaited s k body rq now s' r)
  have aw: "smoves cfg H m C (admits Q) x (awaited x)" if "sdb_ok cfg H m x" for x
    by (rule closure_moves [OF Attach.IH [of x] that]) blast
  show ?case by (rule attach_moves [where awaited = awaited]) (fact Attach.hyps aw Attach.prems)+
next
  case (Head s k tid rq s' rh)
  then show ?case unfolding head_transfer_def by (cases rule: as_agent_cases) (auto intro: set_fleet_moves)
next
  case (Append tid hdr io s k rq now s' ra)
  then show ?case by (intro append_moves) (auto simp: admits_def)
next
  case (Initiate tid awaited actor ctx s k b now s' ri)
  have aw: "smoves cfg H m C (admits Q) x (awaited x)" if "sdb_ok cfg H m x" for x
    by (rule closure_moves [OF Initiate.IH [of x] that]) blast
  show ?case by (rule initiate_moves [where awaited = awaited]) (fact Initiate.hyps aw Initiate.prems)+
next
  case CancelTransfer
  then show ?case using cancel_moves by blast
next
  case Download
  then show ?case using download_moves by blast
next
  case (Cleanup rmf now grace abd s s' n)
  then show ?case using cleanup_sweep_spec [OF Cleanup.prems refl, of rmf now grace abd C "admits Q"] by auto
next
  case (Commands s q)
  then have "evolves m (queue s) q" by (intro cstep_evolves) (auto simp: sdb_ok_def)
  with Commands.hyps(2) show ?case by (intro r_into_rtranclp smove.Queue) auto
next
  case (Catalogue s c)
  then show ?case by (intro r_into_rtranclp smove.Queue evolves_same) simp_all
qed

lemma ssteps_moves: "(sstep cfg H m C Q)\<^sup>*\<^sup>* s s' \<Longrightarrow> sdb_ok cfg H m s \<Longrightarrow> smoves cfg H m C (admits Q) s s'"
  by (rule closure_moves [where R = "sstep cfg H m C Q"]) (simp_all add: sstep_moves)

section \<open>Integrity of uploads\<close>

text \<open>
  A faithful sender of a file: whatever it sends at an offset continues the file from there, and no
  write is cut short. It may send any pieces, in any order, repeat them, or be interrupted.
\<close>

definition whole_write :: "stream_event \<Rightarrow> bool" where
  "whole_write e = (case e of Chunk c (Some n) \<Rightarrow> length c \<le> n | _ \<Rightarrow> True)"

definition faithful :: "nat \<Rightarrow> bytes \<Rightarrow> nat \<Rightarrow> string option \<Rightarrow> append_io \<Rightarrow> bool" where
  "faithful tid src k hdr io = (k = tid \<longrightarrow> list_all whole_write (stream io)
     \<and> (case hdr of None \<Rightarrow> True | Some h \<Rightarrow>
          (case int_base10 h of Inl e \<Rightarrow> True | Inr off \<Rightarrow> prefix (sent (stream io)) (drop (nat off) src))))"

lemma taken_sent: "list_all accepted es \<Longrightarrow> list_all whole_write es \<Longrightarrow> taken es = sent es"
proof (induction es)
  case (Cons e es)
  then obtain c w where "e = Chunk c w" by (cases e) (auto simp: accepted_def)
  with Cons show ?case by (cases w) (auto simp: accepted_def whole_write_def)
qed simp

lemma admits_faithful:
  assumes "admits (faithful tid src) tid off d n"
  shows "length d = n \<and> d = take n (drop off src)"
proof -
  from assms obtain h io where io: "faithful tid src tid (Some h) io" "int_base10 h = Inr (int off)" "list_all accepted (stream io)"
    "d = taken (stream io)" "n = length (sent (stream io))" unfolding admits_def by blast
  then have f: "list_all whole_write (stream io)" "prefix (sent (stream io)) (drop off src)" by (simp_all add: faithful_def)
  with io have "d = sent (stream io)" by (simp add: taken_sent)
  with io f show ?thesis by (auto simp: prefix_def)
qed

definition copied :: "bytes \<Rightarrow> StagingTransfer \<Rightarrow> bytes option \<Rightarrow> bool" where
  "copied src t f = (bytes_transferred t \<le> length src
     \<and> (partial_upload t \<longrightarrow> prefix (take (bytes_transferred t) src) (case f of None \<Rightarrow> [] | Some g \<Rightarrow> g))
     \<and> (complete t \<longrightarrow> f = Some (take (bytes_transferred t) src)))"

lemma resize_prefix: "prefix (take b src) f \<Longrightarrow> b \<le> length src \<Longrightarrow> resize b f = take b src"
  by (auto simp: prefix_def resize_def)

lemma uploaded_copied:
  assumes "uploaded up t f n g" and "copied src t f" and "\<And>off d n. up (st_id t) off d n \<Longrightarrow> length d = n \<and> d = take n (drop off src)"
  shows "bytes_transferred t + n \<le> length src \<and> g = take (bytes_transferred t + n) src"
proof -
  from assms(1) obtain d where p: "partial_upload t" and d: "up (st_id t) (bytes_transferred t) d n"
    "g = resize (bytes_transferred t) (case f of None \<Rightarrow> [] | Some x \<Rightarrow> x) @ d" by (auto simp: uploaded_def)
  from assms(2) p have "resize (bytes_transferred t) (case f of None \<Rightarrow> [] | Some x \<Rightarrow> x) = take (bytes_transferred t) src"
    and le: "bytes_transferred t \<le> length src" by (auto simp: copied_def intro!: resize_prefix)
  moreover have "length (take n (drop (bytes_transferred t) src)) = n" using assms(3) [OF d(1)] by metis
  then have "n \<le> length src - bytes_transferred t" by simp
  ultimately show ?thesis using d(2) le assms(3) [OF d(1)] by (simp add: take_add)
qed

lemma row_step_copied:
  assumes "row_step H up db t f t' f'" and "copied src t f"
    and up: "\<And>off d n. up (st_id t) off d n \<Longrightarrow> length d = n \<and> d = take n (drop off src)"
  shows "copied src t' f'"
  using assms(1)
proof (cases rule: row_step.cases)
  case (Torn d)
  with assms(2) have "resize (bytes_transferred t) (case f of None \<Rightarrow> [] | Some x \<Rightarrow> x) = take (bytes_transferred t) src"
    by (auto simp: copied_def intro!: resize_prefix)
  with Torn assms(2) show ?thesis by (auto simp: copied_def complete_def partial_upload_def)
next
  case (Grown n g u)
  with uploaded_copied [OF Grown(3) assms(2) up] show ?thesis by (simp add: copied_def complete_def partial_upload_def)
next
  case (Finished n g u)
  with uploaded_copied [OF Finished(3) assms(2) up] show ?thesis by (simp add: copied_def complete_def partial_upload_def)
next
  case (Verified n g i u)
  with uploaded_copied [OF Verified(3) assms(2) up] show ?thesis by (simp add: copied_def complete_def partial_upload_def)
next
  case (Rejected n g u)
  with uploaded_copied [OF Rejected(2) assms(2) up] show ?thesis by (simp add: copied_def complete_def partial_upload_def)
qed (use assms(2) in \<open>auto simp: copied_def complete_def partial_upload_def active_transfer_def\<close>)

text \<open>A property of single rows and their files that every change of a row keeps holds of all rows forever.\<close>

lemma smoves_rows:
  assumes "smoves cfg H m C up s s'" and "sdb_ok cfg H m s" and "C (catalogue (queue s))"
    and "\<forall>t\<in>set (transfers s). P t (stored cfg s (st_id t))" and fresh: "\<And>t f. fresh_row cfg t \<Longrightarrow> P t f"
    and step: "\<And>db t f t' f'. C (catalogue db) \<Longrightarrow> row_step H up db t f t' f' \<Longrightarrow> P t f \<Longrightarrow> P t' f'"
  shows "C (catalogue (queue s')) \<and> (\<forall>t\<in>set (transfers s'). P t (stored cfg s' (st_id t)))"
  using assms(1)
proof (induction rule: rtranclp_induct)
  case base
  show ?case using assms(3,4) by blast
next
  case (step s1 s2)
  note ok = smoves_ok [OF step.hyps(1) assms(2)]
  from step.hyps(2) show ?case
  proof (cases rule: smove.cases)
    case (Row t t' d)
    have "P x (stored cfg s2 (st_id x))" if x: "x \<in> set (transfers s2)" for x
    proof (cases "st_id x = st_id t")
      case True
      with x Row have "x = t'" by (auto split: if_splits)
      with assms(6) [OF _ Row(4)] step.IH Row show ?thesis by (simp add: stored_def)
    next
      case False
      with x Row have xs: "x \<in> set (transfers s1)" by (auto split: if_splits)
      with sdb_ok_row [OF ok] Row(2) False have "file_of cfg (st_id x) \<noteq> file_of cfg (st_id t)"
        using file_of_inj unfolding row_ok_def by metis
      with xs step.IH Row show ?thesis by (simp add: stored_def)
    qed
    with step.IH Row(1) show ?thesis by simp
  qed (use step.IH fresh in \<open>auto simp: stored_def\<close>)
qed


section \<open>Properties of retrieval\<close>

lemma staging_start_ok: "transfers s = [] \<Longrightarrow> cdb_ok m (queue s) \<Longrightarrow> sdb_ok cfg H m s"
  by (simp add: sdb_ok_def slots_ok_def)

lemma smoves_terminal:
  "smoves cfg H m C up s s' \<Longrightarrow> c \<in> set (commands (queue s)) \<Longrightarrow> command_is_terminal (cmd_status c) \<Longrightarrow> c \<in> set (commands (queue s'))"
proof (induction rule: rtranclp_induct)
  case (step s1 s2)
  from step.hyps(2) show ?case using step by (cases rule: smove.cases) (auto intro: evolves_terminal)
qed simp

lemma upload_copied:
  assumes "(sstep cfg H m C (faithful tid src))\<^sup>*\<^sup>* s0 s" and "transfers s0 = []" and "cdb_ok m (queue s0)" and "C (catalogue (queue s0))"
    and "t \<in> set (transfers s)" and "st_id t = tid"
  shows "copied src t (stored cfg s tid)"
proof -
  note ok = staging_start_ok [OF assms(2,3), of cfg H]
  have "\<forall>t\<in>set (transfers s). st_id t = tid \<longrightarrow> copied src t (stored cfg s (st_id t))"
  proof (rule conjunct2 [OF smoves_rows [where P = "\<lambda>t f. st_id t = tid \<longrightarrow> copied src t f", OF ssteps_moves [OF assms(1) ok] ok assms(4)]])
    show "st_id t = tid \<longrightarrow> copied src t f" if "fresh_row cfg t" for t f
      using that by (simp add: fresh_row_def copied_def complete_def)
    show "st_id t' = tid \<longrightarrow> copied src t' f'" if "row_step H (admits (faithful tid src)) db t f t' f'" "st_id t = tid \<longrightarrow> copied src t f" for db t f t' f'
    proof
      assume id: "st_id t' = tid"
      with row_step_keeps [OF that(1)] have t: "st_id t = tid" by simp
      show "copied src t' f'"
        by (rule row_step_copied [OF that(1)]) (use that(2) t admits_faithful in auto)
    qed
  qed (simp add: assms(2))
  with assms(5,6) show ?thesis by blast
qed

lemma row_stored: "sdb_ok cfg H m s \<Longrightarrow> t \<in> set (transfers s) \<Longrightarrow> map_of (disk s) (or_empty (st_path t)) = stored cfg s (st_id t)"
  using row_path [OF sdb_ok_row] by (simp add: stored_def)

text \<open>
  Property C25. Uploads are resumable without loss under two conditions on the uploads of this transfer: the
  sender sends at each offset what the file has there, and the operating system writes every piece the server
  hands it in full or fails the call, since the server does not look at the count that \<^verbatim>\<open>os.write\<close> returns.
  Then whatever the sender repeats, reorders or breaks off, and whatever else happens, the committed
  offset never passes the end of the file, the staged bytes up to it are the file's, and a staged or
  downloaded transfer has on disk exactly the file up to its offset, the whole file once the offset is
  the file's length.
\<close>

theorem upload_integrity:
  assumes "(sstep cfg H m C (faithful tid src))\<^sup>*\<^sup>* s0 s" and "transfers s0 = []" and "cdb_ok m (queue s0)" and "C (catalogue (queue s0))"
    and "find_transfer s tid = Some t"
  shows "bytes_transferred t \<le> length src
     \<and> (st_state t = t_uploading \<and> bytes_transferred t > 0 \<longrightarrow>
         (\<exists>g. map_of (disk s) (or_empty (st_path t)) = Some g \<and> take (bytes_transferred t) g = take (bytes_transferred t) src))
     \<and> (st_state t = t_staged \<or> st_state t = t_downloaded \<longrightarrow> map_of (disk s) (or_empty (st_path t)) = Some (take (bytes_transferred t) src))
     \<and> (st_state t = t_staged \<or> st_state t = t_downloaded \<longrightarrow> bytes_transferred t = length src \<longrightarrow> map_of (disk s) (or_empty (st_path t)) = Some src)"
proof -
  note t = find_transfer_SomeD [OF assms(5)]
  have "sdb_ok cfg H m s" using smoves_ok [OF ssteps_moves [OF assms(1)]] staging_start_ok [OF assms(2,3)] by blast
  with t have p: "map_of (disk s) (or_empty (st_path t)) = stored cfg s tid" using row_stored by blast
  have c: "copied src t (stored cfg s tid)" using upload_copied [OF assms(1-4)] t by blast
  then have "\<exists>g. stored cfg s tid = Some g \<and> take (bytes_transferred t) g = take (bytes_transferred t) src"
    if "st_state t = t_uploading" "bytes_transferred t > 0"
    using that by (cases "stored cfg s tid") (auto simp: copied_def partial_upload_def prefix_def)
  with c show ?thesis unfolding p by (auto simp: copied_def complete_def)
qed


text \<open>
  Property C26. Whatever agents, operators, sweeps and the catalogue do, in any order: transfer ids and
  their commands are unique; an item has at most one active transfer; the committed offset never passes
  the declared size; a transfer that has not started has no bytes, a complete one has all it declared
  (or none); only complete transfers, or ones that expired afterwards, are verified, and then the file
  on disk has the recorded hash. The command queue keeps its own invariant and its settled commands
  never change.
\<close>

theorem staging_reachable_ok:
  assumes "(sstep cfg H m C Q)\<^sup>*\<^sup>* s0 s" and "transfers s0 = []" and "cdb_ok m (queue s0)"
  shows "distinct (map st_id (transfers s)) \<and> distinct (map st_command (transfers s))
     \<and> (\<forall>t\<in>set (transfers s). \<forall>u\<in>set (transfers s). active_transfer t \<and> active_transfer u \<and> st_item t = st_item u \<longrightarrow> t = u)
     \<and> (\<forall>t\<in>set (transfers s).
          (\<forall>n. total_bytes t = Some n \<longrightarrow> int (bytes_transferred t) \<le> n)
          \<and> (st_state t = t_pending \<longrightarrow> bytes_transferred t = 0)
          \<and> (st_state t = t_staged \<or> st_state t = t_downloaded \<longrightarrow> bytes_transferred t = 0 \<or> total_bytes t = Some (int (bytes_transferred t)))
          \<and> (verified t \<longrightarrow> st_state t = t_staged \<or> st_state t = t_downloaded \<or> st_state t = t_expired)
          \<and> (verified t \<and> st_state t \<noteq> t_expired \<longrightarrow>
               (\<exists>g. map_of (disk s) (or_empty (st_path t)) = Some g \<and> verified_hash t = Some (xxh3_128 H g))))
     \<and> cdb_ok m (queue s)
     \<and> (\<forall>c\<in>set (commands (queue s0)). command_is_terminal (cmd_status c) \<longrightarrow> c \<in> set (commands (queue s)))"
proof -
  note ok0 = staging_start_ok [OF assms(2,3), of cfg H]
  note mv = ssteps_moves [OF assms(1) ok0]
  note ok = smoves_ok [OF mv ok0]
  have "t = u" if "t \<in> set (transfers s)" "u \<in> set (transfers s)" "active_transfer t \<and> active_transfer u \<and> st_item t = st_item u" for t u
  proof (rule distinct_ids_eq [of "transfers s"])
    show "st_id t = st_id u" using ok that unfolding sdb_ok_def slots_ok_def by blast
  qed (use ok that in \<open>simp_all add: sdb_ok_def\<close>)
  then have slots: "\<forall>t\<in>set (transfers s). \<forall>u\<in>set (transfers s). active_transfer t \<and> active_transfer u \<and> st_item t = st_item u \<longrightarrow> t = u" by blast
  have rows: "(\<forall>n. total_bytes t = Some n \<longrightarrow> int (bytes_transferred t) \<le> n)
      \<and> (st_state t = t_pending \<longrightarrow> bytes_transferred t = 0)
      \<and> (st_state t = t_staged \<or> st_state t = t_downloaded \<longrightarrow> bytes_transferred t = 0 \<or> total_bytes t = Some (int (bytes_transferred t)))
      \<and> (verified t \<longrightarrow> st_state t = t_staged \<or> st_state t = t_downloaded \<or> st_state t = t_expired)
      \<and> (verified t \<and> st_state t \<noteq> t_expired \<longrightarrow>
           (\<exists>g. map_of (disk s) (or_empty (st_path t)) = Some g \<and> verified_hash t = Some (xxh3_128 H g)))"
    if "t \<in> set (transfers s)" for t
    using sdb_ok_row [OF ok that] unfolding row_stored [OF ok that] by (auto simp: row_ok_def size_ok_def complete_def)
  have keep: "\<forall>c\<in>set (commands (queue s0)). command_is_terminal (cmd_status c) \<longrightarrow> c \<in> set (commands (queue s))"
    using smoves_terminal [OF mv] by blast
  from ok have "distinct (map st_id (transfers s))" "distinct (map st_command (transfers s))" "cdb_ok m (queue s)"
    by (simp_all add: sdb_ok_def)
  with slots rows keep show ?thesis by blast
qed

definition vouched :: "hashers \<Rightarrow> (central \<Rightarrow> bool) \<Rightarrow> StagingTransfer \<Rightarrow> bytes option \<Rightarrow> bool" where
  "vouched H C t f = (verified t \<and> complete t \<longrightarrow>
     (\<exists>g c i. f = Some g \<and> C c \<and> i \<in> set (items c) \<and> item_id i = st_item t \<and> vouches H i g))"

lemma row_step_vouched:
  assumes "row_step H up db t f t' f'" and "C (catalogue db)" and "row_ok cfg H t f" and "vouched H C t f"
  shows "vouched H C t' f'"
  using assms(1)
proof (cases rule: row_step.cases)
  case (Verified n g i u)
  then have "i \<in> set (items (catalogue db))" "item_id i = st_item t" by (auto simp: find_catalog_item_def dest: find_SomeD)
  with Verified assms(2) show ?thesis by (auto simp: vouched_def)
qed (use assms(3,4) in \<open>auto simp: vouched_def complete_def row_ok_def uploaded_def partial_upload_def active_transfer_def\<close>)

lemma rows_vouched:
  assumes "(sstep cfg H m C Q)\<^sup>*\<^sup>* s0 s" and "transfers s0 = []" and "cdb_ok m (queue s0)" and "C (catalogue (queue s0))"
    and "t \<in> set (transfers s)"
  shows "vouched H C t (stored cfg s (st_id t))"
proof -
  note ok = staging_start_ok [OF assms(2,3), of cfg H]
  have "\<forall>t\<in>set (transfers s). row_ok cfg H t (stored cfg s (st_id t)) \<and> vouched H C t (stored cfg s (st_id t))"
  proof (rule conjunct2 [OF smoves_rows [where P = "\<lambda>t f. row_ok cfg H t f \<and> vouched H C t f", OF ssteps_moves [OF assms(1) ok] ok assms(4)]])
    show "row_ok cfg H t f \<and> vouched H C t f" if "fresh_row cfg t" for t f
      using that by (simp add: fresh_row_def row_ok_def complete_def vouched_def)
  qed (use assms(2) row_step_ok row_step_vouched in auto)
  with assms(5) show ?thesis by blast
qed

text \<open>
  Property C27. A download is served only to a caller whose permissions allow downloading that item
  now, only for a verified transfer in state staged or downloaded, and the file handed out has the
  hash recorded at verification and is one that some catalogue of the run vouched for: the item had
  that size and that strongest hash. \<open>C\<close> is any set of catalogues that contains those of the run; an item
  that never changes is vouched for by its current row.
\<close>

theorem download_serves_vouched_bytes:
  assumes "(sstep cfg H m C Q)\<^sup>*\<^sup>* s0 s" and "transfers s0 = []" and "cdb_ok m (queue s0)" and "C (catalogue (queue s0))"
    and "download_transfer ctx s k hdr now = (s', Inr (name, g))"
  shows "\<exists>t i. find_transfer s k = Some t \<and> find_catalog_item (queue s) (st_item t) = Some i \<and> name = filename i
     \<and> (unrestricted ctx \<or> ctx_allows ctx (Some (path_scope i)) ''download'')
     \<and> verified t \<and> (st_state t = t_staged \<or> st_state t = t_downloaded) \<and> verified_hash t = Some (xxh3_128 H g)
     \<and> (\<exists>c j. C c \<and> j \<in> set (items c) \<and> item_id j = st_item t \<and> item_size j = int (length g)
         \<and> (case content_hash j of
              Some h \<Rightarrow> h = (if length h = 32 then xxh3_128 H g else xxh3_64 H g)
            | None \<Rightarrow> quick_hash j = Some (xxh3_64 H (sampled g))))"
  using assms(5)
proof (cases rule: download_cases)
  case (2 t i f st)
  have t: "t \<in> set (transfers s)" using find_transfer_SomeD [OF 2(2)] by simp
  have ok: "sdb_ok cfg H m s" using smoves_ok [OF ssteps_moves [OF assms(1)]] staging_start_ok [OF assms(2,3)] by blast
  have f: "stored cfg s (st_id t) = Some g" using 2(1,7) row_stored [OF ok t] by simp
  have "ctx_allows ctx (Some (path_scope i)) ''download'' \<or> unrestricted ctx"
    using 2(4) by (auto simp: authorize_item_def or_default_def VISIBILITY_ACTION_def Let_def split: if_splits)
  moreover have "verified_hash t = Some (xxh3_128 H g)" using sdb_ok_row [OF ok t] 2(5,6) f by (auto simp: row_ok_def)
  moreover obtain c j where "C c" "j \<in> set (items c)" "item_id j = st_item t" "vouches H j g"
    using rows_vouched [OF assms(1-4) t] 2(5,6) f by (auto simp: vouched_def)
  ultimately show ?thesis using 2(1-3,5,6) unfolding complete_def vouches_def [symmetric] by auto
qed simp


section \<open>Bounds of an append\<close>

lemma finalize_keeps:
  "finalize_staged cfg H rm now s t = Inr (s', t') \<Longrightarrow> st_id t' = st_id t \<and> bytes_transferred t' = bytes_transferred t \<and> transfers s' = transfers s"
  by (auto simp: finalize_staged_def fail_staged_def remove_file_def Let_def split: if_splits option.splits sum.splits prod.splits)

lemma advance_keeps:
  "advance_upload cfg H rm now s t n = Inr (s', t') \<Longrightarrow> st_id t' = st_id t \<and> bytes_transferred t' = n \<and> transfers s' = transfers s"
  by (auto simp: advance_upload_def Let_def split: if_splits option.splits dest!: finalize_keeps)

lemma find_put:
  "find (\<lambda>t. st_id t = k) xs = Some t \<Longrightarrow> st_id t' = k \<Longrightarrow> find (\<lambda>t. st_id t = k) (map (\<lambda>x. if st_id x = st_id t' then t' else x) xs) = Some t'"
  by (induction xs) auto

lemma stamp_mode_transfers [simp]: "transfers (stamp_mode a s) = transfers s" "transfers (set_fleet flt s) = transfers s"
  by (simp_all add: stamp_mode_def set_fleet_def)

lemma commit_row_keeps [simp]: "st_id (commit_row now t t1) = st_id (if t1 = t then t else t1)"
  "bytes_transferred (commit_row now t t1) = bytes_transferred t1"
  by (simp_all add: commit_row_def)

lemma commit_append_row:
  assumes "commit_append cfg H rm now s1 a t n = (s', r)" and "find_transfer s1 k = Some t"
  shows "case r of Inr (Current t') \<Rightarrow> find_transfer s' k = Some t' \<and> bytes_transferred t' = n | _ \<Rightarrow> transfers s' = transfers s1"
proof (cases "advance_upload cfg H rm now s1 t n")
  case (Inl e)
  with assms(1) show ?thesis by (auto simp: commit_append_def)
next
  case (Inr x)
  then obtain s2 t1 where adv: "advance_upload cfg H rm now s1 t n = Inr (s2, t1)" by (cases x) simp
  note keep = advance_keeps [OF adv]
  have "st_id (commit_row now t t1) = k" using keep assms(2) by (auto simp: find_transfer_def dest: find_SomeD)
  then have "find_transfer (stamp_mode a (put_transfer (commit_row now t t1) s2)) k = Some (commit_row now t t1)"
    using find_put [of k "transfers s1" t] keep assms(2) by (simp add: find_transfer_def)
  with assms(1) adv keep show ?thesis by (auto simp: commit_append_def Let_def split: if_splits)
qed

lemma append_as_row:
  assumes ok: "sdb_ok cfg H m s" and "append_as cfg H tid hdr io now s a = (s', r)" and t: "find_transfer s tid = Some t"
  shows "case r of Inr (Current t') \<Rightarrow> find_transfer s' tid = Some t' \<and> bytes_transferred t \<le> bytes_transferred t'
        \<and> bytes_transferred t' \<le> bytes_transferred t + staging_max_chunk_bytes cfg
    | _ \<Rightarrow> transfers s' = transfers s"
proof (cases "load_transfer s a tid")
  case (Inl e)
  with assms(2) show ?thesis by (auto simp: append_as_def)
next
  case (Inr u)
  then have l: "load_transfer s a tid = Inr t" using t by (simp add: load_transfer_def split: if_splits)
  show ?thesis
  proof (cases "check_append t hdr")
    case (Inl x)
    with assms(2) l t show ?thesis by (auto simp: append_as_def check_append_def split: if_splits option.splits sum.splits)
  next
    case (Inr off)
    then have off: "check_append t hdr = Inr (bytes_transferred t)" using check_append_Inr by blast
    have ts: "t \<in> set (transfers s)" using find_transfer_SomeD [OF t] by simp
    obtain s1 w where w: "write_upload cfg t (bytes_transferred t) io s = (s1, w)" by (cases "write_upload cfg t (bytes_transferred t) io s")
    from sdb_ok_row [OF ok ts] w show ?thesis
    proof (cases rule: write_upload_cases)
      case (3 n)
      with assms(2) l off w have c: "commit_append cfg H (unlinked io) now s1 a t (bytes_transferred t + n) = (s', r)"
        by (simp add: append_as_def)
      have tr: "transfers s1 = transfers s" using 3 by simp
      then have "find_transfer s1 tid = Some t" using t by (simp add: find_transfer_def)
      from commit_append_row [OF c this] tr 3(3) show ?thesis by (simp split: sum.splits append_reply.splits)
    qed (use assms(2) l off w in \<open>auto simp: append_as_def\<close>)
  qed
qed

text \<open>
  Property C31. Bounds of the upload: an append never moves a committed offset back, moves it by at most the
  configured chunk size, and keeps it within the declared size, which itself fits the 64-bit column;
  every other reply (an error, or the current offset after a mismatch) leaves all rows as they were.
\<close>

theorem append_bounds:
  assumes "(sstep cfg H m C Q)\<^sup>*\<^sup>* s0 s" and "transfers s0 = []" and "cdb_ok m (queue s0)"
    and "append_transfer cfg H s k tid hdr io rq now = (s', r)" and "find_transfer s tid = Some t"
  shows "case r of
      Inr (Current t') \<Rightarrow> find_transfer s' tid = Some t' \<and> bytes_transferred t \<le> bytes_transferred t'
        \<and> bytes_transferred t' \<le> bytes_transferred t + staging_max_chunk_bytes cfg
        \<and> (\<forall>l. total_bytes t' = Some l \<longrightarrow> int (bytes_transferred t') \<le> l \<and> l < 2 ^ 63)
    | _ \<Rightarrow> transfers s' = transfers s"
proof -
  note ok0 = staging_start_ok [OF assms(2,3), of cfg H]
  note ok = smoves_ok [OF ssteps_moves [OF assms(1) ok0] ok0]
  have "smoves cfg H m (\<lambda>_. True) (\<lambda>_ _ _ _. True) s s'" by (rule append_moves [OF ok _ assms(4)]) simp
  then have ok': "sdb_ok cfg H m s'" using ok by (rule smoves_ok)
  have size: "int (bytes_transferred t') \<le> l \<and> l < 2 ^ 63" if "find_transfer s' tid = Some t'" "total_bytes t' = Some l" for t' l
    using sdb_ok_row [OF ok' conjunct1 [OF find_transfer_SomeD [OF that(1)]]] that(2) by (simp add: row_ok_def size_ok_def)
  from assms(4) show ?thesis unfolding append_transfer_def
  proof (cases rule: as_agent_cases)
    case 1
    then show ?thesis by simp
  next
    case (2 flt a)
    have ok1: "sdb_ok cfg H m (set_fleet flt s)" using smoves_ok [OF set_fleet_moves ok] .
    have "find_transfer (set_fleet flt s) tid = Some t" using assms(5) by (simp add: find_transfer_def)
    from append_as_row [OF ok1 2(1) this] size show ?thesis by (auto split: sum.splits append_reply.splits)
  qed
qed


section \<open>The sweep settles\<close>

lemma reaped_not_candidate: "\<not> cleanup_candidate now limit (reap now t)"
  by (simp add: cleanup_candidate_def active_transfer_def)

text \<open>
  Property C32. One run of the cleanup sweep over at most a batch of dead transfers returns and settles all of
  them: afterwards the only rows past their expiry or abandoned are downloads within their grace;
  every reclaimed row is expired, its file is gone if it could be removed, and its command has
  settled; every other row and every other file is as it was.
\<close>

theorem staging_sweep_settles:
  assumes "(sstep cfg H m C Q)\<^sup>*\<^sup>* s0 s" and "transfers s0 = []" and "cdb_ok m (queue s0)"
    and "length (filter (cleanup_candidate now (now - seconds abd)) (transfers s)) \<le> STAGING_SWEEP_BATCH"
  shows "\<exists>s' n. run_staging_cleanup_sweep rm now grace abd s = Inr (s', n)
     \<and> (\<forall>t\<in>set (transfers s'). cleanup_candidate now (now - seconds abd) t \<longrightarrow> still_draining now (now - seconds grace) (now - seconds abd) t)
     \<and> (\<forall>t\<in>set (transfers s). cleanup_candidate now (now - seconds abd) t \<and> \<not> still_draining now (now - seconds grace) (now - seconds abd) t \<longrightarrow>
          reap now t \<in> set (transfers s') \<and> settled (queue s') (st_command t)
          \<and> (rm (or_empty (st_path t)) \<longrightarrow> map_of (disk s') (or_empty (st_path t)) = None))
     \<and> (\<forall>t\<in>set (transfers s). \<not> cleanup_candidate now (now - seconds abd) t \<or> still_draining now (now - seconds grace) (now - seconds abd) t \<longrightarrow>
          t \<in> set (transfers s') \<and> map_of (disk s') (or_empty (st_path t)) = map_of (disk s) (or_empty (st_path t)))"
proof -
  note ok0 = staging_start_ok [OF assms(2,3), of cfg H]
  note ok = smoves_ok [OF ssteps_moves [OF assms(1) ok0] ok0]
  let ?d = "still_draining now (now - seconds grace) (now - seconds abd)" and ?c = "cleanup_candidate now (now - seconds abd)"
  define ts where "ts = take STAGING_SWEEP_BATCH (sort_key st_expires_at (filter ?c (transfers s)))"
  have set: "set ts = {x \<in> set (transfers s). ?c x}" unfolding ts_def using assms(4) by simp
  obtain s' n where s': "run_staging_cleanup_sweep rm now grace abd s = Inr (s', n)"
    "transfers s' = swept_rows now (\<lambda>x. x \<in> set ts \<and> \<not> ?d x) (transfers s)"
    "map_of (disk s') = swept_disk cfg rm (st_id ` {x \<in> set ts. \<not> ?d x}) (map_of (disk s))"
    "\<forall>x\<in>set ts. \<not> ?d x \<longrightarrow> settled (queue s') (st_command x)"
    using cleanup_sweep_spec [OF ok ts_def, of rm grace C "admits Q"] by blast
  have in_s': "t \<in> set (transfers s') \<longleftrightarrow> (\<exists>x\<in>set (transfers s). t = (if x \<in> set ts \<and> \<not> ?d x then reap now x else x))" for t
    unfolding s'(2) swept_rows_def by auto
  have path: "or_empty (st_path t) = file_of cfg (st_id t)" "st_id t < 2 ^ 128" if "t \<in> set (transfers s)" for t
    using row_path [OF sdb_ok_row [OF ok that]] sdb_ok_row [OF ok that] by (simp_all add: row_ok_def)
  have inj: "file_of cfg (st_id t) = file_of cfg (st_id x) \<longleftrightarrow> t = x" if "t \<in> set (transfers s)" "x \<in> set (transfers s)" for t x
    using file_of_inj [OF path(2) [OF that(1)] path(2) [OF that(2)]] distinct_ids_eq [OF _ that] ok by (auto simp: sdb_ok_def)
  have left: "?d t" if "t \<in> set (transfers s')" "?c t" for t
    using that set reaped_not_candidate unfolding in_s' by (metis (mono_tags, lifting) mem_Collect_eq)
  have gone: "reap now t \<in> set (transfers s') \<and> settled (queue s') (st_command t)
      \<and> (rm (or_empty (st_path t)) \<longrightarrow> map_of (disk s') (or_empty (st_path t)) = None)" if "t \<in> set (transfers s)" "?c t \<and> \<not> ?d t" for t
    using that set s'(4) path(1) [OF that(1)] unfolding in_s' s'(3) by (auto simp: swept_disk_def intro!: bexI [of _ t])
  have kept: "t \<in> set (transfers s') \<and> map_of (disk s') (or_empty (st_path t)) = map_of (disk s) (or_empty (st_path t))"
    if "t \<in> set (transfers s)" "\<not> ?c t \<or> ?d t" for t
    using that set inj path(1) [OF that(1)] unfolding in_s' s'(3) by (auto simp: swept_disk_def intro!: bexI [of _ t])
  show ?thesis using s'(1) left gone kept by blast
qed



section \<open>A retrieval\<close>

definition sample_staging :: staging_settings where
  "sample_staging = \<lparr>command_cfg = sample_cmd_settings, staging_dir = None, config_dir = ''/config'', staging_max_chunk_bytes = 2,
     staging_transfer_ttl_seconds = 86400, transfer_ttl_seconds = 21600\<rparr>"

definition sample_hashers :: hashers where
  "sample_hashers = \<lparr>xxh3_128 = \<lambda>b. replicate (length b) (CHR ''w''), xxh3_64 = \<lambda>b. replicate (sum_list b) (CHR ''x'')\<rparr>"

definition hosted_start :: sdb where
  "hosted_start = \<lparr>queue = sample_cdb\<lparr>catalogue := empty_central\<lparr>
      items := [sample_item\<lparr>item_size := 3, content_hash := Some ''xxxxxx''\<rparr>],
      libraries := [\<lparr>lib_id = 2, lib_name = ''l'', root_path = ''/m'', lib_source_agent = Some 7, agent_library_ref = None, lib_enabled = True\<rparr>],
      next_id := 9\<rparr>\<rparr>, transfers = [], disk = []\<rparr>"

definition initiated :: sdb where
  "initiated = fst (initiate_transfer sample_staging id 77 None (open_context ''download'') hosted_start 3
     \<lparr>verify_hash = True, max_bytes_per_sec = None\<rparr> 10)"

definition piece :: "bytes \<Rightarrow> append_io" where
  "piece c = \<lparr>opened = True, stream = [Chunk c (Some (length c))], synced = True, unlinked = True\<rparr>"

definition half_sent :: sdb where
  "half_sent = fst (append_transfer sample_staging sample_hashers initiated 7 77 (Some ''0'') (piece [1, 2]) (bearer_request ''ab12'') 20)"

definition all_sent :: sdb where
  "all_sent = fst (append_transfer sample_staging sample_hashers half_sent 7 77 (Some ''2'') (piece [3]) (bearer_request ''ab12'') 30)"



definition retrieve_row :: StagingTransfer where
  "retrieve_row = \<lparr>st_id = 77, st_item = 3, st_agent = 7, st_command = 1, st_state = t_pending, bytes_transferred = 0, total_bytes = Some 3,
     st_path = Some (file_of sample_staging 77), verified_hash = None, verified = False, st_expires_at = 21600000010,
     last_range_request_at = None, st_created_at = 10, st_updated_at = 10\<rparr>"

lemma initiated_eq:
  "transfers initiated = [retrieve_row] \<and> disk initiated = [] \<and> fleet (queue initiated) = sample_fleet \<and> catalogue (queue initiated) = catalogue (queue hosted_start)
     \<and> map_option (\<lambda>c. map_of (payload c) ''verify'') (find_cmd (queue initiated) 1) = Some (Some (JBool True))"
  by (simp add: initiated_def initiate_transfer_def request_ok_def load_item_def find_catalog_item_def hosted_start_def sample_item_def
      authorize_item_def open_context_def hosting_def item_library_def sample_cdb_def find_agent_def sample_fleet_def live_transfer_exists_def
      create_transfer_def staged_path_eq Let_def insert_ok_def fits_bigint_def new_transfer_def new_command_def add_cmd_def retrieve_row_def
      sample_staging_def seconds_def find_cmd_def)

lemma offsets: "int_base10 ''0'' = Inr 0" "int_base10 ''2'' = Inr 2"
  by (simp_all add: int_base10_def strip_def lstrip_def rstrip_def is_space_def startswith_def is_decimal_def dec_value_def int_max_str_digits_def)

definition met_fleet :: "FleetAgent list" where
  "met_fleet = map (\<lambda>a. a\<lparr>last_auth_mode := Some ''bearer''\<rparr>) sample_fleet"

lemma bearer_ok:
  "flt = sample_fleet \<or> flt = met_fleet \<Longrightarrow>
   authenticate_agent (agent_auth_mode (command_cfg sample_staging)) (proxy_shared_secret (command_cfg sample_staging)) flt 7 (bearer_request ''ab12'')
     = Inr (flt, hd met_fleet)"
  by (elim disjE; hypsubst; code_simp)

lemma agent_7: "fa_id (hd met_fleet) = 7"
  "map (\<lambda>x. if fa_id x = 7 then x\<lparr>last_auth_mode := last_auth_mode (hd met_fleet)\<rparr> else x) sample_fleet = met_fleet"
  "map (\<lambda>x. if fa_id x = 7 then x\<lparr>last_auth_mode := last_auth_mode (hd met_fleet)\<rparr> else x) met_fleet = met_fleet"
  by code_simp+

lemmas append_eval = append_transfer_def as_agent_def bearer_ok append_as_def load_transfer_def find_transfer_def set_fleet_def agent_7
  check_append_def offsets write_upload_def transfer_file_def or_empty_def piece_def resize_def commit_append_def advance_upload_def
  fits_bigint_def commit_row_def Let_def stamp_mode_def put_transfer_def

lemma half_sent_eq:
  "transfers half_sent = [retrieve_row\<lparr>st_state := t_uploading, bytes_transferred := 2, st_updated_at := 20\<rparr>]
     \<and> disk half_sent = [(file_of sample_staging 77, [1, 2])] \<and> fleet (queue half_sent) = met_fleet
     \<and> queue half_sent = (queue initiated)\<lparr>fleet := met_fleet\<rparr>"
proof -
  have c: "staging_max_chunk_bytes sample_staging = 2" by (simp add: sample_staging_def)
  show ?thesis using initiated_eq unfolding half_sent_def
    by (simp add: append_eval retrieve_row_def c)
qed

lemma all_sent_eq:
  "transfers all_sent = [retrieve_row\<lparr>st_state := t_staged, bytes_transferred := 3, verified := True, verified_hash := Some ''www'', st_updated_at := 30\<rparr>]
     \<and> disk all_sent = [(file_of sample_staging 77, [1, 2, 3])] \<and> queue all_sent = queue half_sent"
proof -
  have c: "staging_max_chunk_bytes sample_staging = 2" by (simp add: sample_staging_def)
  have v: "wants_verify ((queue initiated)\<lparr>fleet := x\<rparr>) t" if "st_command t = Suc 0" for t x
    using initiated_eq that by (auto simp: wants_verify_def split: option.split)
  have k: "find_catalog_item ((queue initiated)\<lparr>fleet := x\<rparr>) 3 = find_catalog_item (queue hosted_start) 3" for x
    using initiated_eq by (simp add: find_catalog_item_def)
  have i: "find_catalog_item (queue hosted_start) 3 = Some (sample_item\<lparr>item_size := 3, content_hash := Some ''xxxxxx''\<rparr>)"
    by (simp add: find_catalog_item_def hosted_start_def sample_item_def)
  have h: "vouches sample_hashers (sample_item\<lparr>item_size := 3, content_hash := Some ''xxxxxx''\<rparr>) [Suc 0, 2, 3]"
    "xxh3_128 sample_hashers [Suc 0, 2, 3] = ''www''"
    by (simp_all add: vouches_def sample_hashers_def numeral_eq_Suc)
  show ?thesis using half_sent_eq initiated_eq unfolding all_sent_def
    by (simp add: append_eval retrieve_row_def c finalize_staged_def staged_verdict_eq v k i h)
qed


lemma hosted_ok: "transfers hosted_start = []" "cdb_ok m (queue hosted_start)"
  by (simp_all add: hosted_start_def cdb_ok_def sample_cdb_def)

lemma pieces_faithful: "faithful 77 [1, 2, 3] 77 (Some ''0'') (piece [1, 2])" "faithful 77 [1, 2, 3] 77 (Some ''2'') (piece [3])"
  by (simp_all add: faithful_def piece_def whole_write_def offsets)

lemma retrieval_run:
  assumes "Q 77 (Some ''0'') (piece [1, 2])" and "Q 77 (Some ''2'') (piece [3])"
  shows "(sstep sample_staging sample_hashers m C Q)\<^sup>*\<^sup>* hosted_start initiated" (is "?R\<^sup>*\<^sup>* _ _")
    and "(sstep sample_staging sample_hashers m C Q)\<^sup>*\<^sup>* hosted_start half_sent"
    and "(sstep sample_staging sample_hashers m C Q)\<^sup>*\<^sup>* hosted_start all_sent"
proof -
  have "?R hosted_start initiated" unfolding initiated_def
    by (rule sstep.Initiate [where tid = 77 and awaited = id, OF _ _ prod.collapse [symmetric]]) simp_all
  then show a: "?R\<^sup>*\<^sup>* hosted_start initiated" by blast
  have "?R initiated half_sent" unfolding half_sent_def
    by (rule sstep.Append [where Q = Q, OF assms(1) prod.collapse [symmetric]])
  with a show b: "?R\<^sup>*\<^sup>* hosted_start half_sent" by (rule rtranclp.rtrancl_into_rtrancl)
  have "?R half_sent all_sent" unfolding all_sent_def
    by (rule sstep.Append [where Q = Q, OF assms(2) prod.collapse [symmetric]])
  with b show "?R\<^sup>*\<^sup>* hosted_start all_sent" by (rule rtranclp.rtrancl_into_rtrancl)
qed

theorem upload_integrity_witness:
  "map_of (disk all_sent) (file_of sample_staging 77) = Some [1, 2, 3]
   \<and> (sstep sample_staging sample_hashers 5 (\<lambda>_. True) (faithful 77 [1, 2, 3]))\<^sup>*\<^sup>* hosted_start all_sent"
proof -
  note run = retrieval_run(3) [of "faithful 77 [1, 2, 3]" 5 "\<lambda>_. True", OF pieces_faithful]
  have "find_transfer all_sent 77 = Some (retrieve_row\<lparr>st_state := t_staged, bytes_transferred := 3, verified := True, verified_hash := Some ''www'', st_updated_at := 30\<rparr>)"
    using all_sent_eq by (simp add: find_transfer_def retrieve_row_def)
  from upload_integrity [OF run hosted_ok _ this] run show ?thesis by (simp add: retrieve_row_def or_empty_def)
qed

theorem staging_reachable_ok_witness:
  "distinct (map st_id (transfers all_sent)) \<and> verified (hd (transfers all_sent))
   \<and> (\<exists>g. map_of (disk all_sent) (or_empty (st_path (hd (transfers all_sent)))) = Some g \<and> verified_hash (hd (transfers all_sent)) = Some (xxh3_128 sample_hashers g))"
proof -
  have run: "(sstep sample_staging sample_hashers 5 (\<lambda>_. True) (\<lambda>_ _ _. True))\<^sup>*\<^sup>* hosted_start all_sent" by (rule retrieval_run) simp_all
  from staging_reachable_ok [OF run hosted_ok] all_sent_eq show ?thesis by (simp add: retrieve_row_def)
qed

lemma download_eval:
  "snd (download_transfer (open_context ''download'') all_sent 77 None 40) = Inr (filename sample_item, [1, 2, 3])"
proof -
  have "find_catalog_item (queue all_sent) 3 = find_catalog_item (queue hosted_start) 3"
    using all_sent_eq half_sent_eq initiated_eq by (simp add: find_catalog_item_def)
  then have "find_catalog_item (queue all_sent) 3 = Some (sample_item\<lparr>item_size := 3, content_hash := Some ''xxxxxx''\<rparr>)"
    by (simp add: find_catalog_item_def hosted_start_def sample_item_def)
  then show ?thesis using all_sent_eq
    by (simp add: download_transfer_def load_any_transfer_def find_transfer_def retrieve_row_def load_item_def authorize_item_def
        open_context_def download_refusal_def staged_stat_def or_empty_def range_covers_final_byte_def)
qed

theorem download_serves_vouched_bytes_witness:
  "snd (download_transfer (open_context ''download'') all_sent 77 None 40) = Inr (filename sample_item, [1, 2, 3])
   \<and> (\<exists>t. find_transfer all_sent 77 = Some t \<and> verified t \<and> verified_hash t = Some (xxh3_128 sample_hashers [1, 2, 3]))"
proof -
  have run: "(sstep sample_staging sample_hashers 5 (\<lambda>_. True) (\<lambda>_ _ _. True))\<^sup>*\<^sup>* hosted_start all_sent" by (rule retrieval_run) simp_all
  have "download_transfer (open_context ''download'') all_sent 77 None 40
      = (fst (download_transfer (open_context ''download'') all_sent 77 None 40), Inr (filename sample_item, [1, 2, 3]))"
    using download_eval by (metis prod.collapse)
  from download_serves_vouched_bytes [OF run hosted_ok _ this] download_eval show ?thesis by blast
qed

theorem append_bounds_witness:
  "transfers initiated = [retrieve_row] \<and> find_transfer half_sent 77 = Some (hd (transfers half_sent))
   \<and> bytes_transferred (hd (transfers half_sent)) \<le> 0 + staging_max_chunk_bytes sample_staging"
proof -
  have run: "(sstep sample_staging sample_hashers 5 (\<lambda>_. True) (\<lambda>_ _ _. True))\<^sup>*\<^sup>* hosted_start initiated" by (rule retrieval_run) simp_all
  have f: "find_transfer initiated 77 = Some retrieve_row" using initiated_eq by (simp add: find_transfer_def retrieve_row_def)
  have r: "snd (append_transfer sample_staging sample_hashers initiated 7 77 (Some ''0'') (piece [1, 2]) (bearer_request ''ab12'') 20)
      = Inr (Current (retrieve_row\<lparr>st_state := t_uploading, bytes_transferred := 2, st_updated_at := 20\<rparr>))"
  proof -
    have c: "staging_max_chunk_bytes sample_staging = 2" by (simp add: sample_staging_def)
    show ?thesis using initiated_eq by (simp add: append_eval retrieve_row_def c)
  qed
  have "append_transfer sample_staging sample_hashers initiated 7 77 (Some ''0'') (piece [1, 2]) (bearer_request ''ab12'') 20
      = (half_sent, Inr (Current (retrieve_row\<lparr>st_state := t_uploading, bytes_transferred := 2, st_updated_at := 20\<rparr>)))"
    using r unfolding half_sent_def by (metis prod.collapse)
  from append_bounds [OF run hosted_ok this f] initiated_eq half_sent_eq show ?thesis by (simp add: retrieve_row_def)
qed

theorem staging_sweep_settles_witness:
  "\<exists>s' n. run_staging_cleanup_sweep (\<lambda>_. True) 99999999999 3600 21600 all_sent = Inr (s', n)
     \<and> map_of (disk s') (file_of sample_staging 77) = None \<and> settled (queue s') 1"
proof -
  have run: "(sstep sample_staging sample_hashers 5 (\<lambda>_. True) (\<lambda>_ _ _. True))\<^sup>*\<^sup>* hosted_start all_sent" by (rule retrieval_run) simp_all
  let ?t = "retrieve_row\<lparr>st_state := t_staged, bytes_transferred := 3, verified := True, verified_hash := Some ''www'', st_updated_at := 30\<rparr>"
  have t: "transfers all_sent = [?t]" using all_sent_eq by simp
  have c: "cleanup_candidate 99999999999 (99999999999 - seconds 21600) ?t \<and> \<not> still_draining 99999999999 (99999999999 - seconds 3600) (99999999999 - seconds 21600) ?t"
    by (simp add: cleanup_candidate_def active_transfer_def retrieve_row_def still_draining_def)
  have l: "length (filter (cleanup_candidate 99999999999 (99999999999 - seconds 21600)) (transfers all_sent)) \<le> STAGING_SWEEP_BATCH"
    using t by (simp add: STAGING_SWEEP_BATCH_def)
  from staging_sweep_settles [OF run hosted_ok l, of "\<lambda>_. True" 3600] obtain s' n where s': "run_staging_cleanup_sweep (\<lambda>_. True) 99999999999 3600 21600 all_sent = Inr (s', n)"
    "settled (queue s') (st_command ?t) \<and> map_of (disk s') (or_empty (st_path ?t)) = None"
    using t c by auto
  then show ?thesis by (intro exI [of _ s'] exI [of _ n]) (simp add: retrieve_row_def or_empty_def)
qed

section \<open>Offsets survive the wire\<close>

lemma dec_run_digits: "list_all is_decimal ds \<Longrightarrow> ds \<noteq> [] \<or> \<not> us \<Longrightarrow> dec_run us ds = Some ds"
proof (induction ds arbitrary: us)
  case (Cons c ds)
  then have "c \<noteq> CHR ''_''" by (auto simp: is_decimal_def)
  with Cons show ?case by simp
qed simp

lemma decimal_plain: "is_decimal c \<Longrightarrow> \<not> is_space c \<and> c \<noteq> CHR ''-'' \<and> c \<noteq> CHR ''+''"
  by (auto simp: is_decimal_def is_space_def Let_def)

lemma int_base10_digits: "length (dec_digits n) \<le> int_max_str_digits \<Longrightarrow> int_base10 (dec_digits n) = Inr (int n)"
proof -
  assume len: "length (dec_digits n) \<le> int_max_str_digits"
  have sp: "strip is_space (dec_digits n) = dec_digits n" using decimal_plain dec_digits_in by (intro strip_id) blast
  obtain c ds where c: "dec_digits n = c # ds" by (cases "dec_digits n") auto
  then have "is_decimal c" using dec_digits_in [of c n] by simp
  with c have sgn: "\<not> startswith (dec_digits n) ''-''" "\<not> startswith (dec_digits n) ''+''"
    using decimal_plain by (auto simp: startswith_def)
  have "dec_run True (dec_digits n) = Some (dec_digits n)" using dec_digits_decimal by (intro dec_run_digits) auto
  with sp sgn len show ?thesis by (simp add: int_base10_def Let_def)
qed

section \<open>An upload can always finish\<close>

lemma finalize_total:
  assumes "row_ok cfg H t0 f" and "st_id t = st_id t0" "st_path t = st_path t0" and "st_state t = t_uploading"
    and "stored cfg s (st_id t) = Some g"
  shows "\<exists>s' t'. finalize_staged cfg H rm now s t = Inr (s', t') \<and> (st_state t' = t_staged \<or> st_state t' = t_failed)
    \<and> total_bytes t' = total_bytes t \<and> st_agent t' = st_agent t"
proof -
  have "transfer_file cfg t = Inr (file_of cfg (st_id t))" using row_path [OF assms(1)] assms(2,3) by (simp add: transfer_file_def)
  moreover have "staged_verdict H s t (file_of cfg (st_id t))
      = Some (case find_catalog_item (queue s) (st_item t) of None \<Rightarrow> False | Some i \<Rightarrow> vouches H i g, xxh3_128 H g)"
    using assms(5) by (simp add: staged_verdict_eq stored_def)
  ultimately show ?thesis using assms(4)
    by (cases "wants_verify (queue s) t"; cases "case find_catalog_item (queue s) (st_item t) of None \<Rightarrow> False | Some i \<Rightarrow> vouches H i g")
       (simp_all add: finalize_staged_def fail_staged_def Let_def)
qed

lemma write_piece:
  assumes "row_ok cfg H t f" and "length d \<le> staging_max_chunk_bytes cfg" and "total_bytes t = Some l" and "int (bytes_transferred t + length d) \<le> l"
  shows "\<exists>g. write_upload cfg t (bytes_transferred t) (piece d) s = (s\<lparr>disk := dict_set (file_of cfg (st_id t)) g (disk s)\<rparr>, Inr (length d))"
  using assms by (cases "d = []") (auto simp: write_upload_def row_file [OF assms(1)] piece_def Let_def)

lemma append_progress:
  assumes ok: "sdb_ok cfg H m s" and t: "find_transfer s tid = Some t" "st_agent t = fa_id a" "partial_upload t" "total_bytes t = Some l"
    and d: "length d \<le> staging_max_chunk_bytes cfg" "int (bytes_transferred t + length d) \<le> l" and h: "int_base10 h = Inr (int (bytes_transferred t))"
  shows "\<exists>s' t'. append_as cfg H tid (Some h) (piece d) now s a = (s', Inr (Current t')) \<and> find_transfer s' tid = Some t'
    \<and> bytes_transferred t' = bytes_transferred t + length d \<and> total_bytes t' = Some l \<and> st_agent t' = fa_id a
    \<and> (if l = int (bytes_transferred t') then st_state t' = t_staged \<or> st_state t' = t_failed else st_state t' = t_uploading)"
proof -
  have ts: "t \<in> set (transfers s)" and id: "st_id t = tid" using find_transfer_SomeD [OF t(1)] by auto
  note row = sdb_ok_row [OF ok ts]
  let ?n = "bytes_transferred t + length d"
  obtain g where w: "write_upload cfg t (bytes_transferred t) (piece d) s = (s\<lparr>disk := dict_set (file_of cfg (st_id t)) g (disk s)\<rparr>, Inr (length d))"
    using write_piece [OF row d(1) t(4) d(2)] by blast
  let ?s = "s\<lparr>disk := dict_set (file_of cfg (st_id t)) g (disk s)\<rparr>"
  have chk: "check_append t (Some h) = Inr (bytes_transferred t)" using t(3) h by (auto simp: check_append_def partial_upload_def)
  have load: "load_transfer s a tid = Inr t" using t by (simp add: load_transfer_def)
  let ?t = "t\<lparr>bytes_transferred := ?n, st_state := t_uploading\<rparr>"
  have start: "(if st_state t = t_pending then transfer_state_machine (st_state t) ev_start_upload else Some (st_state t)) = Some t_uploading"
    using t(3) by (auto simp: partial_upload_def)
  have "stored cfg ?s (st_id ?t) = Some g" by (simp add: stored_def)
  then have fin: "\<exists>s2 t2. finalize_staged cfg H True now ?s ?t = Inr (s2, t2) \<and> (st_state t2 = t_staged \<or> st_state t2 = t_failed)
      \<and> total_bytes t2 = total_bytes t \<and> st_agent t2 = st_agent t"
    using finalize_total [OF row, of ?t ?s g True now] by simp
  have "advance_upload cfg H True now ?s t ?n = (if l = int ?n then finalize_staged cfg H True now ?s ?t else Inr (?s, ?t))"
    using start t(4) d(2) by (simp add: advance_upload_def)
  then obtain s1 t1 where adv: "advance_upload cfg H True now ?s t ?n = Inr (s1, t1)"
    and st: "if l = int ?n then st_state t1 = t_staged \<or> st_state t1 = t_failed else st_state t1 = t_uploading"
    and keep: "total_bytes t1 = Some l \<and> st_agent t1 = fa_id a"
    using fin t(2,4) by (cases "l = int ?n") auto
  have "fits_bigint (int ?n)" using row t(4) d(2) by (auto simp: row_ok_def size_ok_def fits_bigint_def)
  then have c: "commit_append cfg H True now ?s a t ?n = (stamp_mode a (put_transfer (commit_row now t t1) s1), Inr (Current (commit_row now t t1)))"
    using adv advance_keeps [OF adv] by (simp add: commit_append_def Let_def)
  have "append_as cfg H tid (Some h) (piece d) now s a = (stamp_mode a (put_transfer (commit_row now t t1) s1), Inr (Current (commit_row now t t1)))"
    using load chk w c by (simp add: append_as_def piece_def)
  moreover have "find_transfer ?s tid = Some t" using t(1) by (simp add: find_transfer_def)
  moreover have "commit_row now t t1 = t1 \<or> commit_row now t t1 = t1\<lparr>st_updated_at := now\<rparr>" by (auto simp: commit_row_def)
  ultimately show ?thesis using commit_append_row [OF c] keep st by auto
qed


lemma length_dec_digits: "n < 10 ^ Suc k \<Longrightarrow> length (dec_digits n) \<le> Suc k"
proof (induction k arbitrary: n)
  case 0
  then show ?case by (subst dec_digits.simps) simp
next
  case (Suc k)
  then have "n div 10 < 10 ^ Suc k" by (simp add: div_less_iff_less_mult)
  with Suc.IH show ?case by (subst dec_digits.simps) simp
qed

lemma offset_text: "n < 2 ^ 63 \<Longrightarrow> int_base10 (dec_digits n) = Inr (int n)"
proof (rule int_base10_digits)
  assume "n < 2 ^ 63"
  then have "n < 10 ^ Suc 18" by simp
  from length_dec_digits [OF this] show "length (dec_digits n) \<le> int_max_str_digits" by (simp add: int_max_str_digits_def)
qed

text \<open>A sender that asks for the offset and sends the next piece from there, at most \<open>n\<close> times.\<close>

fun upload_rounds :: "nat \<Rightarrow> staging_settings \<Rightarrow> hashers \<Rightarrow> nat \<Rightarrow> bytes \<Rightarrow> nat \<Rightarrow> FleetAgent \<Rightarrow> int \<Rightarrow> sdb \<Rightarrow> sdb" where
  "upload_rounds 0 cfg H tid src k a now s = s"
| "upload_rounds (Suc n) cfg H tid src k a now s = (case find_transfer s tid of
       None \<Rightarrow> s
     | Some t \<Rightarrow>
         if \<not> partial_upload t then s
         else upload_rounds n cfg H tid src k a now
           (fst (append_as cfg H tid (Some (dec_digits (bytes_transferred t))) (piece (take k (drop (bytes_transferred t) src))) now s a)))"

lemma rounds_stop: "find_transfer s tid = Some t \<Longrightarrow> \<not> partial_upload t \<Longrightarrow> upload_rounds n cfg H tid src k a now s = s"
  by (cases n) simp_all

lemma next_piece:
  assumes "sdb_ok cfg H m s" and "find_transfer s tid = Some t" "st_agent t = fa_id a" "partial_upload t" "total_bytes t = Some (int (length src))"
    and "k \<le> staging_max_chunk_bytes cfg"
  obtains s' t' where "fst (append_as cfg H tid (Some (dec_digits (bytes_transferred t))) (piece (take k (drop (bytes_transferred t) src))) now s a) = s'"
    "sdb_ok cfg H m s'" "find_transfer s' tid = Some t'" "bytes_transferred t' = min (bytes_transferred t + k) (length src)"
    "total_bytes t' = Some (int (length src))" "st_agent t' = fa_id a"
    "if bytes_transferred t' = length src then st_state t' = t_staged \<or> st_state t' = t_failed else st_state t' = t_uploading"
proof -
  have ts: "t \<in> set (transfers s)" using find_transfer_SomeD [OF assms(2)] by simp
  have b: "bytes_transferred t \<le> length src" "bytes_transferred t < 2 ^ 63"
    using sdb_ok_row [OF assms(1) ts] assms(5) by (auto simp: row_ok_def size_ok_def)
  let ?d = "take k (drop (bytes_transferred t) src)" and ?h = "dec_digits (bytes_transferred t)"
  have d: "length ?d \<le> staging_max_chunk_bytes cfg" "int (bytes_transferred t + length ?d) \<le> int (length src)"
    "bytes_transferred t + length ?d = min (bytes_transferred t + k) (length src)" using assms(6) b(1) by auto
  from append_progress [OF assms(1-5) d(1,2) offset_text [OF b(2)], of now] obtain s' t'
    where ap: "append_as cfg H tid (Some ?h) (piece ?d) now s a = (s', Inr (Current t'))" and t': "find_transfer s' tid = Some t'"
      "bytes_transferred t' = bytes_transferred t + length ?d" "total_bytes t' = Some (int (length src))" "st_agent t' = fa_id a"
      "if int (length src) = int (bytes_transferred t') then st_state t' = t_staged \<or> st_state t' = t_failed else st_state t' = t_uploading"
    by blast
  have "smoves cfg H m (\<lambda>_. True) (\<lambda>_ _ _ _. True) s s'" by (rule append_as_moves [OF assms(1) _ ap]) simp
  with smoves_ok assms(1) have "sdb_ok cfg H m s'" by blast
  moreover have "if bytes_transferred t' = length src then st_state t' = t_staged \<or> st_state t' = t_failed else st_state t' = t_uploading"
    using t'(5) by (auto split: if_splits)
  ultimately show thesis using that ap t' d(3) by simp
qed

lemma rounds_complete:
  assumes "sdb_ok cfg H m s" and "find_transfer s tid = Some t" "st_agent t = fa_id a" "partial_upload t" "total_bytes t = Some (int (length src))"
    and k: "0 < k" "k \<le> staging_max_chunk_bytes cfg" and "length src - bytes_transferred t < n"
  shows "\<exists>t'. find_transfer (upload_rounds n cfg H tid src k a now s) tid = Some t'
    \<and> bytes_transferred t' = length src \<and> (st_state t' = t_staged \<or> st_state t' = t_failed)"
  using assms(1-5,8)
proof (induction n arbitrary: s t)
  case (Suc n)
  from next_piece [OF Suc.prems(1-5) k(2), of now] obtain s' t'
    where ap: "fst (append_as cfg H tid (Some (dec_digits (bytes_transferred t))) (piece (take k (drop (bytes_transferred t) src))) now s a) = s'"
      and ok': "sdb_ok cfg H m s'" and t': "find_transfer s' tid = Some t'" "bytes_transferred t' = min (bytes_transferred t + k) (length src)"
      "total_bytes t' = Some (int (length src))" "st_agent t' = fa_id a"
      "if bytes_transferred t' = length src then st_state t' = t_staged \<or> st_state t' = t_failed else st_state t' = t_uploading"
    by metis
  have r: "upload_rounds (Suc n) cfg H tid src k a now s = upload_rounds n cfg H tid src k a now s'" using Suc.prems(2,4) ap by simp
  show ?case
  proof (cases "bytes_transferred t' = length src")
    case True
    then have "\<not> partial_upload t'" using t'(5) by (auto simp: partial_upload_def)
    with True t' r show ?thesis by (auto simp: rounds_stop)
  next
    case False
    then have "partial_upload t'" and "length src - bytes_transferred t' < n" using t'(2,5) k(1) Suc.prems(6) by (auto simp: partial_upload_def)
    with Suc.IH [OF ok' t'(1,4)] t'(3) r show ?thesis by simp
  qed
qed simp

text \<open>
  Property C28. An upload can always be finished: from any reachable state, a sender of a transfer that is
  not finished and declared the file's size needs only to ask for the committed offset, send the next
  piece of any size up to the chunk limit from there, and repeat. The offset text it is given is
  accepted back, every round is committed, and after at most as many rounds as bytes were missing,
  plus one, the offset is the file's length and the transfer is staged, or failed by the verification.
\<close>

theorem upload_completes:
  assumes "(sstep cfg H m C Q)\<^sup>*\<^sup>* s0 s" and "transfers s0 = []" and "cdb_ok m (queue s0)"
    and "find_transfer s tid = Some t" and "st_agent t = fa_id a" and "st_state t = t_pending \<or> st_state t = t_uploading"
    and "total_bytes t = Some (int (length src))" and "0 < k" and "k \<le> staging_max_chunk_bytes cfg"
  shows "\<exists>t'. find_transfer (upload_rounds (Suc (length src - bytes_transferred t)) cfg H tid src k a now s) tid = Some t'
     \<and> bytes_transferred t' = length src \<and> (st_state t' = t_staged \<or> st_state t' = t_failed)"
proof -
  have "sdb_ok cfg H m s" using smoves_ok [OF ssteps_moves [OF assms(1)]] staging_start_ok [OF assms(2,3)] by blast
  then show ?thesis using assms(4-9) by (intro rounds_complete) (auto simp: partial_upload_def)
qed

theorem upload_completes_witness:
  "\<exists>t'. find_transfer (upload_rounds 4 sample_staging sample_hashers 77 [1, 2, 3] 2 (hd sample_fleet) 20 initiated) 77 = Some t'
     \<and> bytes_transferred t' = 3 \<and> (st_state t' = t_staged \<or> st_state t' = t_failed)"
proof -
  have run: "(sstep sample_staging sample_hashers 5 (\<lambda>_. True) (\<lambda>_ _ _. True))\<^sup>*\<^sup>* hosted_start initiated" by (rule retrieval_run) simp_all
  have f: "find_transfer initiated 77 = Some retrieve_row" using initiated_eq by (simp add: find_transfer_def retrieve_row_def)
  from upload_completes [OF run hosted_ok f, of "hd sample_fleet" "[1, 2, 3]" 2 20] show ?thesis
    by (simp add: retrieve_row_def sample_fleet_def sample_staging_def numeral_eq_Suc)
qed

section \<open>What the reclaim misses\<close>

lemma row_step_downloaded:
  "row_step H up db t f t' f' \<Longrightarrow> st_state t = t_downloaded \<Longrightarrow> st_state t' = t_downloaded \<and> f' = f"
  by (cases rule: row_step.cases) (auto simp: active_transfer_def partial_upload_def uploaded_def)

lemma smove_downloaded:
  assumes "smove cfg H m C up s s'" and "sdb_ok cfg H m s" and "find_transfer s k = Some t" and "st_state t = t_downloaded"
  shows "\<exists>t'. find_transfer s' k = Some t' \<and> st_state t' = t_downloaded \<and> stored cfg s' k = stored cfg s k"
  using assms(1)
proof (cases rule: smove.cases)
  case (Row u u' d)
  have t: "t \<in> set (transfers s)" "st_id t = k" using find_transfer_SomeD [OF assms(3)] by auto
  show ?thesis
  proof (cases "st_id u = k")
    case True
    with distinct_ids_eq [of "transfers s" u t] Row(2) t assms(2) have "u = t" by (simp add: sdb_ok_def)
    with row_step_downloaded [OF Row(4)] assms(4) t have "st_state u' = t_downloaded" "map_of d (file_of cfg k) = stored cfg s k" by auto
    moreover have "find_transfer s' k = Some u'" using find_put [of k "transfers s" t u'] assms(3) Row(1,3) True by (simp add: find_transfer_def)
    ultimately show ?thesis using Row(1) by (simp add: stored_def)
  next
    case False
    with sdb_ok_row [OF assms(2)] Row(2) t have "file_of cfg k \<noteq> file_of cfg (st_id u)" using file_of_inj unfolding row_ok_def by metis
    moreover have "find (\<lambda>t. st_id t = k) (map (\<lambda>x. if st_id x = st_id u' then u' else x) xs) = find (\<lambda>t. st_id t = k) xs" for xs
      using False Row(3) by (induction xs) auto
    ultimately show ?thesis using Row(1,5) assms(3,4) by (simp add: find_transfer_def stored_def)
  qed
qed (use assms(3,4) in \<open>auto simp: find_transfer_def find_append stored_def\<close>)

lemma smoves_downloaded:
  "smoves cfg H m C up s s' \<Longrightarrow> sdb_ok cfg H m s \<Longrightarrow> find_transfer s k = Some t \<Longrightarrow> st_state t = t_downloaded
     \<Longrightarrow> \<exists>t'. find_transfer s' k = Some t' \<and> st_state t' = t_downloaded \<and> stored cfg s' k = stored cfg s k"
proof (induction rule: rtranclp_induct)
  case (step s1 s2)
  then show ?case using smove_downloaded [OF step.hyps(2) smoves_ok [OF step.hyps(1) step.prems(1)]] by metis
qed simp

text \<open>
  A downloaded transfer is never reclaimed: whatever happens after the first complete
  download (cancellation, cleanup sweeps at any later time, other requests), its row stays in state
  downloaded and its file stays on the staging disk.
\<close>

theorem downloaded_file_never_reclaimed:
  assumes "(sstep cfg H m C Q)\<^sup>*\<^sup>* s0 s" and "transfers s0 = []" and "cdb_ok m (queue s0)"
    and "find_transfer s k = Some t" and "st_state t = t_downloaded" and "(sstep cfg H m C Q)\<^sup>*\<^sup>* s s'"
  shows "\<exists>t'. find_transfer s' k = Some t' \<and> st_state t' = t_downloaded
     \<and> map_of (disk s') (or_empty (st_path t)) = map_of (disk s) (or_empty (st_path t))"
proof -
  have ok: "sdb_ok cfg H m s" using smoves_ok [OF ssteps_moves [OF assms(1)]] staging_start_ok [OF assms(2,3)] by blast
  have t: "t \<in> set (transfers s)" "st_id t = k" using find_transfer_SomeD [OF assms(4)] by auto
  from smoves_downloaded [OF ssteps_moves [OF assms(6) ok] ok assms(4,5)] row_path [OF sdb_ok_row [OF ok t(1)]] t(2)
  show ?thesis by (simp add: stored_def)
qed

definition downloaded_sdb :: sdb where
  "downloaded_sdb = fst (download_transfer (open_context ''download'') all_sent 77 None 40)"

lemma downloaded_eq:
  "find_transfer downloaded_sdb 77 = Some (retrieve_row\<lparr>st_state := t_downloaded, bytes_transferred := 3, verified := True, verified_hash := Some ''www'',
     last_range_request_at := Some 40, st_updated_at := 40\<rparr>) \<and> disk downloaded_sdb = disk all_sent"
proof -
  have "find_catalog_item (queue all_sent) 3 = find_catalog_item (queue hosted_start) 3"
    using all_sent_eq half_sent_eq initiated_eq by (simp add: find_catalog_item_def)
  then have "find_catalog_item (queue all_sent) 3 = Some (sample_item\<lparr>item_size := 3, content_hash := Some ''xxxxxx''\<rparr>)"
    by (simp add: find_catalog_item_def hosted_start_def sample_item_def)
  then show ?thesis using all_sent_eq
    by (simp add: downloaded_sdb_def download_transfer_def load_any_transfer_def find_transfer_def retrieve_row_def load_item_def authorize_item_def
        open_context_def download_refusal_def staged_stat_def or_empty_def range_covers_final_byte_def commit_row_def put_transfer_def)
qed

theorem downloaded_file_never_reclaimed_witness:
  "\<exists>s' n. run_staging_cleanup_sweep (\<lambda>_. True) 99999999999 3600 21600 downloaded_sdb = Inr (s', n)
     \<and> map_of (disk s') (file_of sample_staging 77) = Some [1, 2, 3]"
proof -
  have run: "(sstep sample_staging sample_hashers 5 (\<lambda>_. True) (\<lambda>_ _ _. True))\<^sup>*\<^sup>* hosted_start all_sent" by (rule retrieval_run) simp_all
  have "sstep sample_staging sample_hashers 5 (\<lambda>_. True) (\<lambda>_ _ _. True) all_sent downloaded_sdb"
    unfolding downloaded_sdb_def by (rule sstep.Download [OF prod.collapse [symmetric]])
  with run have run: "(sstep sample_staging sample_hashers 5 (\<lambda>_. True) (\<lambda>_ _ _. True))\<^sup>*\<^sup>* hosted_start downloaded_sdb" by (rule rtranclp.rtrancl_into_rtrancl)
  have "sdb_ok sample_staging sample_hashers 5 downloaded_sdb" using smoves_ok [OF ssteps_moves [OF run]] staging_start_ok [OF hosted_ok] by blast
  then obtain s' n where s': "run_staging_cleanup_sweep (\<lambda>_. True) 99999999999 3600 21600 downloaded_sdb = Inr (s', n)"
    using cleanup_sweep_spec [OF _ refl] by blast
  have "(sstep sample_staging sample_hashers 5 (\<lambda>_. True) (\<lambda>_ _ _. True))\<^sup>*\<^sup>* downloaded_sdb s'" using sstep.Cleanup [OF s'] by blast
  from downloaded_file_never_reclaimed [OF run hosted_ok conjunct1 [OF downloaded_eq] _ this]
  have "map_of (disk s') (file_of sample_staging 77) = Some [1, 2, 3]" using downloaded_eq all_sent_eq by (auto simp: retrieve_row_def or_empty_def)
  with s' show ?thesis by blast
qed

section \<open>Uploads across agents and short writes\<close>

definition crowded :: sdb where
  "crowded = set_fleet (sample_fleet @ [(hd sample_fleet)\<lparr>fa_id := 8, cert_fingerprint := Some ''cd34''\<rparr>]) initiated"

text \<open>
  Re-attaching does not check whose transfer it is: agent 8 names the command of agent 7's transfer and
  changes its declared size.
\<close>

theorem reattach_ignores_owner:
  "\<exists>s' t'. attach_transfer sample_staging id 78 crowded 8
       (Some (JObj [(''command_id'', JStr (uuid_str 1)), (''total_bytes'', JInt 2)])) (bearer_request ''cd34'') 15 = (s', Inr (200, t'))
     \<and> st_agent t' = 7 \<and> total_bytes t' = Some 2 \<and> find_transfer s' 77 = Some t'"
proof -
  have auth: "authenticate_agent (agent_auth_mode (command_cfg sample_staging)) (proxy_shared_secret (command_cfg sample_staging))
      (fleet (queue crowded)) 8 (bearer_request ''cd34'') = Inr (fleet (queue crowded), (hd sample_fleet)\<lparr>fa_id := 8, cert_fingerprint := Some ''cd34'', last_auth_mode := Some ''bearer''\<rparr>)"
    unfolding crowded_def set_fleet_def by simp code_simp
  have b: "attach_body (Some (JObj [(''command_id'', JStr (uuid_str 1)), (''total_bytes'', JInt 2)])) = Inr (1, Some 2)"
    using uuid_parse_str [of 1] by (simp add: attach_body_def attach_command_id_def attach_total_def)
  show ?thesis using initiated_eq unfolding attach_transfer_def as_agent_def auth b
    by (simp add: attach_as_def transfer_of_command_def reattach_def Let_def fits_bigint_def commit_row_def retrieve_row_def crowded_def
        set_fleet_def find_transfer_def put_transfer_def)
qed

text \<open>
  A write that the kernel cuts short is counted in full: the committed offset passes the end of the
  staged file, and the next append fills the hole with zero bytes.
\<close>

theorem short_write_breaks_prefix:
  "\<exists>s' t'. append_transfer sample_staging sample_hashers initiated 7 77 (Some ''0'')
       \<lparr>opened = True, stream = [Chunk [1, 2] (Some 1)], synced = True, unlinked = True\<rparr> (bearer_request ''ab12'') 20 = (s', Inr (Current t'))
     \<and> bytes_transferred t' = 2 \<and> map_of (disk s') (or_empty (st_path t')) = Some [1] \<and> resize 2 [1] = [1, 0]"
proof -
  have c: "staging_max_chunk_bytes sample_staging = 2" by (simp add: sample_staging_def)
  show ?thesis using initiated_eq by (simp add: append_eval retrieve_row_def c)
qed

section \<open>Ranges and progress\<close>

text \<open>
  A range header that is malformed or beyond the end is taken to cover the last byte, and the transfer
  becomes downloaded although nothing is served.
\<close>

theorem unsatisfiable_range_counts_as_download:
  "range_covers_final_byte (Some ''bytes=5'') 10 \<and> range_covers_final_byte (Some ''bytes=10-'') 10 \<and> range_covers_final_byte (Some ''bytes=-0'') 10"
  by (simp add: range_covers_final_byte_def or_empty_def partition_on_def strip_def lstrip_def rstrip_def is_space_def lower_def lower_char_def)

definition is_final :: "sse \<Rightarrow> bool" where
  "is_final e = (case e of Done _ _ \<Rightarrow> True | NotFound \<Rightarrow> True | _ \<Rightarrow> False)"

text \<open>
  A progress stream ends with the first poll that finds the transfer gone or in a terminal state: exactly
  then its last event is the final one, no other event is final, and what comes after is not read.
\<close>

theorem progress_stream_ends_once:
  "list_all (\<lambda>e. \<not> is_final e) (butlast (transfer_events key ps))
   \<and> (transfer_events key ps \<noteq> [] \<and> is_final (last (transfer_events key ps))
      \<longleftrightarrow> list_ex (\<lambda>p. case p of None \<Rightarrow> True | Some (t, c) \<Rightarrow> transfer_terminal (st_state t)) ps)"
proof (induction key ps rule: transfer_events.induct)
  case (3 key t c ps)
  show ?case
  proof (cases "transfer_terminal (st_state t)")
    case True
    then show ?thesis by (simp add: is_final_def Let_def)
  next
    case False
    then show ?thesis using 3 by (cases "key = Some (progress_key t c)") (auto simp: is_final_def)
  qed
qed (simp_all add: is_final_def)

end
