(* ===== verification/Moves.thy ===== *)
theory Moves
  imports Staging
begin

text \<open>
  Recognising a renamed file: \<open>backend/filearr/tasks/move.py\<close> and the hashes of
  \<open>backend/filearr/tasks/extract.py\<close> it compares. At the end of a scan a row that vanished and a row that
  appeared are joined when their hashes allow no other reading; the row that vanished keeps its id and what
  users wrote, and takes the place of the new one. The table is a list of rows with the unique index on
  \<open>(library_id, rel_path)\<close> checked after every statement. The contents of files, the xxHash digests and the
  digest of over-long path labels are parameters.
\<close>

section \<open>Rows of the items table\<close>

text \<open>The columns a move leaves on the row it keeps: what users and extractors wrote.\<close>

record item_identity =
  title :: "string option"
  year :: "int option"
  external_ids :: dict
  item_metadata :: dict
  user_metadata :: dict
  tags :: "string list"
  first_seen :: int

record ItemRow =
  row_id :: uuid
  row_library :: uuid
  row_path :: codepoints
  row_rel_path :: codepoints
  row_filename :: codepoints
  row_extension :: "codepoints option"
  row_size :: "int option"
  row_mtime :: int
  row_status :: ItemStatus
  row_last_seen :: int
  row_deleted_at :: "int option"
  row_quick_hash :: "string option"
  row_content_hash :: "string option"
  row_mid_hash :: "string option"
  row_sidecar_of :: "uuid option"
  row_path_scope :: "string option"
  row_category :: "string option"
  row_group :: "string option"
  row_nlink :: "int option"
  row_inode :: "int option"
  row_dev :: "int option"
  row_symlink_target :: "codepoints option"
  row_identity :: item_identity

section \<open>Hashes of a file\<close>

text \<open>A file is opened up to three times; \<open>files k p\<close> is what the k-th opening of path \<open>p\<close> reads,
  \<open>None\<close> an \<open>OSError\<close>.\<close>

type_synonym files = "nat \<Rightarrow> codepoints \<Rightarrow> bytes option"

datatype read_exn = OSError | ReadRaised py_exn

definition quick_hash_file :: "hashers \<Rightarrow> files \<Rightarrow> codepoints \<Rightarrow> int option \<Rightarrow> read_exn + string" where
  "quick_hash_file H files p sz = (case files 0 p of
       None \<Rightarrow> Inl OSError
     | Some f \<Rightarrow> (case sz of
           None \<Rightarrow> Inl (ReadRaised TypeError)
         | Some n \<Rightarrow> (case quick_hash_of H f (nat n) of None \<Rightarrow> Inl OSError | Some h \<Rightarrow> Inr h)))"

definition mid_hash_file :: "hashers \<Rightarrow> files \<Rightarrow> codepoints \<Rightarrow> int option \<Rightarrow> read_exn + string option" where
  "mid_hash_file H files p sz = (case sz of
       None \<Rightarrow> Inr None
     | Some n \<Rightarrow>
         if n \<le> int QUICK_CHUNK * 2 then Inr None
         else case files 1 p of
                None \<Rightarrow> Inl OSError
              | Some f \<Rightarrow> Inr (Some (xxh3_64 H (take QUICK_CHUNK (drop (nat ((n - int QUICK_CHUNK) div 2)) f)))))"

definition full_hash_file :: "hashers \<Rightarrow> files \<Rightarrow> codepoints \<Rightarrow> int option \<Rightarrow> read_exn + string" where
  "full_hash_file H files p sz = (case files 2 p of
       None \<Rightarrow> Inl OSError
     | Some f \<Rightarrow> Inr (xxh3_128 H (case sz of
           Some n \<Rightarrow> if n \<le> int QUICK_CHUNK * 2 then f else concat (read_chunks (2 ^ 20) f)
         | None \<Rightarrow> concat (read_chunks (2 ^ 20) f))))"

text \<open>\<open>except OSError: pass\<close>: the assignments made before the failing read stay.\<close>

definition after_read :: "ItemRow \<Rightarrow> read_exn + 'a \<Rightarrow> ('a \<Rightarrow> py_exn + ItemRow) \<Rightarrow> py_exn + ItemRow" where
  "after_read i r k = (case r of Inl OSError \<Rightarrow> Inr i | Inl (ReadRaised e) \<Rightarrow> Inl e | Inr v \<Rightarrow> k v)"

definition ensure_hashes :: "hashers \<Rightarrow> files \<Rightarrow> int \<Rightarrow> bool \<Rightarrow> ItemRow \<Rightarrow> py_exn + ItemRow" where
  "ensure_hashes H files full_max_bytes compute_content i =
     (if row_quick_hash i \<noteq> None then Inr i
      else after_read i (quick_hash_file H files (row_path i) (row_size i)) (\<lambda>q.
        let i1 = i\<lparr>row_quick_hash := Some q\<rparr> in
        after_read i1 (mid_hash_file H files (row_path i) (row_size i)) (\<lambda>m.
          let i2 = i1\<lparr>row_mid_hash := m\<rparr> in
          if compute_content \<and> (case row_size i of None \<Rightarrow> False | Some n \<Rightarrow> n \<le> full_max_bytes)
          then after_read i2 (full_hash_file H files (row_path i) (row_size i)) (\<lambda>h. Inr (i2\<lparr>row_content_hash := Some h\<rparr>))
          else Inr i2)))"

section \<open>The planner\<close>

record MovePlan =
  survivor :: ItemRow
  duplicate :: ItemRow

record MovedOut =
  survivor_id :: uuid
  survivor_rel_path :: codepoints
  duplicate_id :: uuid
  moved_library :: uuid

definition move_key :: "ItemRow \<Rightarrow> (string \<times> int) option" where
  "move_key i = (case (row_quick_hash i, row_size i) of (Some q, Some n) \<Rightarrow> Some (q, n) | _ \<Rightarrow> None)"

definition content_match :: "ItemRow \<Rightarrow> ItemRow \<Rightarrow> bool option" where
  "content_match a b = (case (row_content_hash a, row_content_hash b) of
       (Some x, Some y) \<Rightarrow> Some (x = y) | _ \<Rightarrow> None)"

definition mid_match :: "ItemRow \<Rightarrow> ItemRow \<Rightarrow> bool option" where
  "mid_match a b = (case (row_mid_hash a, row_mid_hash b) of (Some x, Some y) \<Rightarrow> Some (x = y) | _ \<Rightarrow> None)"

definition match :: "ItemRow \<Rightarrow> ItemRow \<Rightarrow> bool option" where
  "match a b = (case content_match a b of Some v \<Rightarrow> Some v | None \<Rightarrow> mid_match a b)"

text \<open>\<open>buckets.setdefault(k, []).append(i)\<close> over a list.\<close>

definition bucket_add :: "((string \<times> int) \<times> ItemRow list) list \<Rightarrow> ItemRow \<Rightarrow> ((string \<times> int) \<times> ItemRow list) list" where
  "bucket_add d i = (case move_key i of
       None \<Rightarrow> d
     | Some k \<Rightarrow> dict_set k ((case map_of d k of None \<Rightarrow> [] | Some is \<Rightarrow> is) @ [i]) d)"

definition buckets :: "ItemRow list \<Rightarrow> ((string \<times> int) \<times> ItemRow list) list" where
  "buckets is = foldl bucket_add [] is"

text \<open>\<open>m is not n\<close> compares objects; the session holds one object per primary key.\<close>

definition rival_news :: "ItemRow list \<Rightarrow> ItemRow \<Rightarrow> ItemRow \<Rightarrow> ItemRow list" where
  "rival_news news c n = filter (\<lambda>m. row_id m \<noteq> row_id n \<and> match c m = Some True) news"

fun rescue :: "ItemRow list \<Rightarrow> ItemRow list \<Rightarrow> ItemRow list \<Rightarrow> MovePlan list \<times> nat" where
  "rescue news remaining [] = ([], 0)"
| "rescue news remaining (n # ns) =
     (case filter (\<lambda>c. match c n = Some True) remaining of
        [c] \<Rightarrow>
          if rival_news news c n \<noteq> []
          then let (ps, a) = rescue news remaining ns in (ps, Suc a)
          else let (ps, a) = rescue news (remove1 c remaining) ns in (\<lparr>survivor = c, duplicate = n\<rparr> # ps, a)
      | _ \<Rightarrow> let (ps, a) = rescue news remaining ns in (ps, Suc a))"

definition plan_bucket :: "ItemRow list \<Rightarrow> ItemRow list \<Rightarrow> MovePlan list \<times> nat" where
  "plan_bucket cands news =
     (if cands = [] then ([], 0)
      else if length news = 1 \<and> length cands = 1
      then (if match (hd cands) (hd news) = Some False then ([], 1)
            else ([\<lparr>survivor = hd cands, duplicate = hd news\<rparr>], 0))
      else rescue news cands news)"

definition plan_moves :: "ItemRow list \<Rightarrow> ItemRow list \<Rightarrow> MovePlan list \<times> nat" where
  "plan_moves candidates new_items =
     (let cand_buckets = buckets candidates;
          results = map (\<lambda>(key, news). plan_bucket (case map_of cand_buckets key of None \<Rightarrow> [] | Some cs \<Rightarrow> cs) news)
                      (buckets new_items)
      in (concat (map fst results), sum_list (map snd results)))"

section \<open>What the planner pairs\<close>

definition bucket_of :: "(string \<times> int) option \<Rightarrow> ItemRow list \<Rightarrow> ItemRow list" where
  "bucket_of k is = filter (\<lambda>i. move_key i = k) is"

lemma bucket_of_simps [simp]:
  "bucket_of k [] = []"
  "bucket_of k (is @ [i]) = bucket_of k is @ (if move_key i = k then [i] else [])"
  "i \<in> set (bucket_of k is) \<longleftrightarrow> i \<in> set is \<and> move_key i = k"
  by (auto simp: bucket_of_def)

lemma distinct_bucket: "distinct (map row_id is) \<Longrightarrow> distinct (map row_id (bucket_of k is))"
  by (simp add: bucket_of_def distinct_map_filter)

lemma map_of_buckets: "map_of (buckets is) k = (if bucket_of (Some k) is = [] then None else Some (bucket_of (Some k) is))"
  by (induction "is" rule: rev_induct)
    (auto simp: buckets_def bucket_add_def split: option.splits if_splits)

lemma distinct_buckets: "distinct (map fst (buckets is))"
  by (induction "is" rule: rev_induct) (auto simp: buckets_def bucket_add_def split: option.splits)

lemma in_buckets: "(k, is') \<in> set (buckets is) \<longleftrightarrow> is' = bucket_of (Some k) is \<and> is' \<noteq> []"
proof -
  have "(k, is') \<in> set (buckets is) \<longleftrightarrow> map_of (buckets is) k = Some is'"
    by (rule map_of_eq_Some_iff [OF distinct_buckets, symmetric])
  then show ?thesis by (simp only: map_of_buckets) (auto split: if_splits)
qed

lemma mset_dict_append:
  "mset (concat (map snd (dict_set k ((case map_of d k of None \<Rightarrow> [] | Some is \<Rightarrow> is) @ [i]) d)))
    = add_mset i (mset (concat (map snd d)))"
  by (induction d) (auto split: option.splits)

lemma mset_buckets: "mset (concat (map snd (buckets is))) = mset (filter (\<lambda>i. move_key i \<noteq> None) is)"
  by (induction "is" rule: rev_induct) (auto simp: buckets_def bucket_add_def mset_dict_append split: option.split)

definition partner :: "ItemRow list \<Rightarrow> ItemRow list \<Rightarrow> ItemRow \<Rightarrow> MovePlan list" where
  "partner cands news n = (case filter (\<lambda>c. match c n = Some True) cands of
       [c] \<Rightarrow> if rival_news news c n = [] then [\<lparr>survivor = c, duplicate = n\<rparr>] else []
     | _ \<Rightarrow> [])"

text \<open>A candidate that was paired is confirmed by no other new row, so taking it out of
  \<open>remaining_cands\<close> changes nothing for the rows that follow.\<close>

lemma remove_claimed:
  assumes "rival_news news c n = []" and "m \<in> set news" and "row_id m \<noteq> row_id n"
  shows "filter (\<lambda>x. match x m = Some True) (remove1 c cs) = filter (\<lambda>x. match x m = Some True) cs"
proof -
  have "match c m \<noteq> Some True" using assms by (auto simp: rival_news_def filter_empty_conv)
  then show ?thesis by (simp add: filter_remove1 remove1_filter_not)
qed

lemma rescue_partners:
  assumes "distinct (map row_id ns)" and "set ns \<subseteq> set news"
    and "\<And>n. n \<in> set ns \<Longrightarrow> filter (\<lambda>c. match c n = Some True) remaining = filter (\<lambda>c. match c n = Some True) cands"
  shows "rescue news remaining ns
    = (concat (map (partner cands news) ns), length (filter (\<lambda>n. partner cands news n = []) ns))"
  using assms
proof (induction ns arbitrary: remaining)
  case (Cons n ns)
  have skip: "rescue news remaining ns
      = (concat (map (partner cands news) ns), length (filter (\<lambda>n. partner cands news n = []) ns))"
    using Cons.prems by (intro Cons.IH) auto
  have take: "rescue news (remove1 c remaining) ns
      = (concat (map (partner cands news) ns), length (filter (\<lambda>n. partner cands news n = []) ns))"
    if "rival_news news c n = []" for c
  proof (rule Cons.IH)
    fix m assume m: "m \<in> set ns"
    then have "row_id m \<noteq> row_id n" using Cons.prems(1) by (metis distinct.simps(2) image_eqI list.simps(9) set_map)
    then show "filter (\<lambda>c. match c m = Some True) (remove1 c remaining) = filter (\<lambda>c. match c m = Some True) cands"
      using remove_claimed [OF that] Cons.prems(2,3) m by auto
  qed (use Cons.prems in auto)
  have here: "filter (\<lambda>c. match c n = Some True) remaining = filter (\<lambda>c. match c n = Some True) cands"
    using Cons.prems(3) by simp
  show ?case
    by (auto simp: here partner_def [of _ _ n] skip take split: list.split)
qed simp

lemma in_partner:
  assumes "distinct (map row_id news)" "n \<in> set news"
  shows "p \<in> set (partner cands news n) \<longleftrightarrow> duplicate p = n
    \<and> filter (\<lambda>c. match c n = Some True) cands = [survivor p] \<and> rival_news news (survivor p) n = []"
  by (cases p) (auto simp: partner_def split: list.splits)

definition confirmed :: "ItemRow \<Rightarrow> ItemRow \<Rightarrow> bool" where
  "confirmed c n \<longleftrightarrow> match c n = Some True"

text \<open>The pairs the planner is meant to find: the only two rows with a key, unless the hashes contradict
  each other; else two rows the hashes confirm for each other and for no third row with that key.\<close>

definition sole :: "(string \<times> int) option \<Rightarrow> ItemRow list \<Rightarrow> ItemRow \<Rightarrow> bool" where
  "sole k is i \<longleftrightarrow> (\<forall>j \<in> set is. move_key j = k \<longrightarrow> j = i)"

definition sole_confirmed :: "ItemRow list \<Rightarrow> ItemRow list \<Rightarrow> ItemRow \<Rightarrow> ItemRow \<Rightarrow> bool" where
  "sole_confirmed cands news c n \<longleftrightarrow> confirmed c n
     \<and> (\<forall>c' \<in> set cands. move_key c' = move_key n \<and> confirmed c' n \<longrightarrow> c' = c)
     \<and> (\<forall>n' \<in> set news. move_key n' = move_key n \<and> confirmed c n' \<longrightarrow> n' = n)"

definition renamed :: "ItemRow list \<Rightarrow> ItemRow list \<Rightarrow> ItemRow \<Rightarrow> ItemRow \<Rightarrow> bool" where
  "renamed cands news c n \<longleftrightarrow> c \<in> set cands \<and> n \<in> set news \<and> move_key c = move_key n \<and> move_key n \<noteq> None
     \<and> (if sole (move_key n) cands c \<and> sole (move_key n) news n then match c n \<noteq> Some False
        else sole_confirmed cands news c n)"

lemma singleton_filter:
  assumes "distinct xs"
  shows "filter P xs = [x] \<longleftrightarrow> x \<in> set xs \<and> P x \<and> (\<forall>y \<in> set xs. P y \<longrightarrow> y = x)"
proof
  assume "filter P xs = [x]"
  then have "set (filter P xs) = {x}" by simp
  then show "x \<in> set xs \<and> P x \<and> (\<forall>y \<in> set xs. P y \<longrightarrow> y = x)" by auto
next
  assume r: "x \<in> set xs \<and> P x \<and> (\<forall>y \<in> set xs. P y \<longrightarrow> y = x)"
  then have "set (filter P xs) = {x}" by auto
  moreover from calculation have "length (filter P xs) = 1" using assms distinct_card [of "filter P xs"] by simp
  then obtain y where "filter P xs = [y]" by (auto simp: length_Suc_conv)
  ultimately show "filter P xs = [x]" by (metis list.set(1) list.simps(15) singleton_inject)
qed

lemma length_one_sole:
  assumes "distinct xs" and "x \<in> set xs"
  shows "length xs = 1 \<longleftrightarrow> (\<forall>y \<in> set xs. y = x)"
  using singleton_filter [OF assms(1), of "\<lambda>_. True" x] assms(2) by (auto simp: length_Suc_conv)

lemma rescue_iff:
  assumes "distinct (map row_id cands)" "distinct (map row_id news)"
    and "\<And>c. c \<in> set cands \<Longrightarrow> move_key c = k" "\<And>n. n \<in> set news \<Longrightarrow> move_key n = k"
  shows "p \<in> set (fst (rescue news cands news)) \<longleftrightarrow> survivor p \<in> set cands \<and> duplicate p \<in> set news
    \<and> sole_confirmed cands news (survivor p) (duplicate p)"
proof -
  have "p \<in> set (fst (rescue news cands news)) \<longleftrightarrow> (\<exists>n \<in> set news. p \<in> set (partner cands news n))"
    using rescue_partners [OF assms(2) subset_refl, of cands cands] by simp
  also have "\<dots> \<longleftrightarrow> duplicate p \<in> set news \<and> filter (\<lambda>c. match c (duplicate p) = Some True) cands = [survivor p]
      \<and> rival_news news (survivor p) (duplicate p) = []"
    using in_partner [OF assms(2)] by auto
  also have "\<dots> \<longleftrightarrow> survivor p \<in> set cands \<and> duplicate p \<in> set news \<and> sole_confirmed cands news (survivor p) (duplicate p)"
  proof (cases "duplicate p \<in> set news")
    case True
    have "distinct cands" using assms(1) by (simp add: distinct_map)
    then have "filter (\<lambda>c. match c (duplicate p) = Some True) cands = [survivor p]
        \<longleftrightarrow> survivor p \<in> set cands \<and> confirmed (survivor p) (duplicate p)
          \<and> (\<forall>c' \<in> set cands. confirmed c' (duplicate p) \<longrightarrow> c' = survivor p)"
      by (simp only: singleton_filter confirmed_def)
    moreover have "rival_news news (survivor p) (duplicate p) = []
        \<longleftrightarrow> (\<forall>m \<in> set news. confirmed (survivor p) m \<longrightarrow> m = duplicate p)"
      using assms(2) True by (auto simp: rival_news_def filter_empty_conv confirmed_def distinct_map inj_on_def)
    moreover have "sole_confirmed cands news (survivor p) (duplicate p) \<longleftrightarrow> confirmed (survivor p) (duplicate p)
        \<and> (\<forall>c' \<in> set cands. confirmed c' (duplicate p) \<longrightarrow> c' = survivor p)
        \<and> (\<forall>m \<in> set news. confirmed (survivor p) m \<longrightarrow> m = duplicate p)"
      unfolding sole_confirmed_def by (intro conj_cong refl ball_cong) (use assms(3,4) True in simp_all)
    ultimately show ?thesis by blast
  qed simp
  finally show ?thesis .
qed

lemma plan_bucket_iff:
  assumes "distinct (map row_id cands)" "distinct (map row_id news)"
    and "\<And>c. c \<in> set cands \<Longrightarrow> move_key c = Some k" "\<And>n. n \<in> set news \<Longrightarrow> move_key n = Some k"
  shows "p \<in> set (fst (plan_bucket cands news)) \<longleftrightarrow> renamed cands news (survivor p) (duplicate p)"
proof -
  have d: "distinct cands" "distinct news" using assms(1,2) by (simp_all add: distinct_map)
  note keys = assms(3,4)
  show ?thesis
  proof (cases "length news = 1 \<and> length cands = 1")
    case True
    then obtain c n where "cands = [c]" "news = [n]" by (auto simp: length_Suc_conv)
    then show ?thesis using keys by (cases p) (auto simp: plan_bucket_def renamed_def sole_def)
  next
    case False
    have "renamed cands news c n \<longleftrightarrow> c \<in> set cands \<and> n \<in> set news \<and> sole_confirmed cands news c n" for c n
    proof (cases "c \<in> set cands \<and> n \<in> set news")
      case True
      with False length_one_sole [OF d(1), of c] length_one_sole [OF d(2), of n]
      have "\<not> (sole (move_key n) cands c \<and> sole (move_key n) news n)" using keys by (auto simp: sole_def)
      with True keys show ?thesis by (auto simp: renamed_def)
    qed (auto simp: renamed_def)
    with False show ?thesis using rescue_iff [OF assms] by (auto simp: plan_bucket_def)
  qed
qed

lemma renamed_bucket:
  "renamed (bucket_of (Some k) cands) (bucket_of (Some k) news) c n \<longleftrightarrow> renamed cands news c n \<and> move_key n = Some k"
proof (cases "move_key n = Some k")
  case True
  then have "sole (move_key n) (bucket_of (Some k) is) i \<longleftrightarrow> sole (move_key n) is i" for "is" i
    by (auto simp: sole_def)
  moreover from True have "sole_confirmed (bucket_of (Some k) cands) (bucket_of (Some k) news) c n
      \<longleftrightarrow> sole_confirmed cands news c n"
    by (auto simp: sole_confirmed_def)
  ultimately show ?thesis using True by (auto simp: renamed_def)
qed (auto simp: renamed_def)

lemma fst_plan_moves:
  "fst (plan_moves cands news) = concat (map (\<lambda>(k, ns). fst (plan_bucket (bucket_of (Some k) cands) ns)) (buckets news))"
  "snd (plan_moves cands news) = sum_list (map (\<lambda>(k, ns). snd (plan_bucket (bucket_of (Some k) cands) ns)) (buckets news))"
  by (auto simp: plan_moves_def map_of_buckets Let_def comp_def intro!: arg_cong [where f = concat] arg_cong [where f = sum_list])

lemma plan_moves_iff:
  assumes "distinct (map row_id cands)" "distinct (map row_id news)"
  shows "p \<in> set (fst (plan_moves cands news)) \<longleftrightarrow> renamed cands news (survivor p) (duplicate p)"
proof -
  have "p \<in> set (fst (plan_moves cands news))
      \<longleftrightarrow> (\<exists>k. bucket_of (Some k) news \<noteq> [] \<and> p \<in> set (fst (plan_bucket (bucket_of (Some k) cands) (bucket_of (Some k) news))))"
    by (simp add: fst_plan_moves) (metis (no_types, lifting) case_prod_conv in_buckets surj_pair)
  also have "\<dots> \<longleftrightarrow> (\<exists>k. bucket_of (Some k) news \<noteq> [] \<and> renamed cands news (survivor p) (duplicate p) \<and> move_key (duplicate p) = Some k)"
    using plan_bucket_iff [OF distinct_bucket distinct_bucket, OF assms] by (simp add: renamed_bucket)
  also have "\<dots> \<longleftrightarrow> renamed cands news (survivor p) (duplicate p)"
    by (auto simp: renamed_def bucket_of_def filter_empty_conv)
  finally show ?thesis .
qed

lemma renamedD:
  assumes "renamed cands news c n"
  shows "c \<in> set cands" "n \<in> set news" "move_key c = move_key n" "move_key n \<noteq> None"
    and "sole (move_key n) cands c \<and> sole (move_key n) news n \<or> sole_confirmed cands news c n"
    and "match c n \<noteq> Some False"
  using assms by (auto simp: renamed_def sole_confirmed_def confirmed_def split: if_splits)

lemma renamed_same_survivor:
  assumes "renamed cands news c n" "renamed cands news c n'"
  shows "n = n'"
proof -
  note n = renamedD [OF assms(1)] and n' = renamedD [OF assms(2)]
  show ?thesis
  proof (cases "sole_confirmed cands news c n \<and> sole_confirmed cands news c n'")
    case True
    then show ?thesis using n(2,3) n'(2,3) unfolding sole_confirmed_def by metis
  next
    case False
    with n(5) n'(5) show ?thesis using n(2,3) n'(2,3) unfolding sole_def by metis
  qed
qed

lemma renamed_same_duplicate:
  assumes "renamed cands news c n" "renamed cands news c' n"
  shows "c = c'"
proof -
  note n = renamedD [OF assms(1)] and n' = renamedD [OF assms(2)]
  show ?thesis
  proof (cases "sole_confirmed cands news c n \<and> sole_confirmed cands news c' n")
    case True
    then show ?thesis using n(1,3) n'(1,3) unfolding sole_confirmed_def by metis
  next
    case False
    with n(5) n'(5) show ?thesis using n(1,3) n'(1,3) unfolding sole_def by metis
  qed
qed

lemma partner_duplicates: "map duplicate (concat (map (partner cands news) ns)) = filter (\<lambda>n. partner cands news n \<noteq> []) ns"
  by (induction ns) (auto simp: partner_def split: list.splits if_splits)

lemma plan_bucket_duplicates:
  assumes "distinct (map row_id news)"
  obtains Q where "map duplicate (fst (plan_bucket cands news)) = filter Q news"
    and "length (fst (plan_bucket cands news)) + snd (plan_bucket cands news) = (if cands = [] then 0 else length news)"
proof (cases "cands = []")
  case True
  then show thesis by (intro that [of "\<lambda>_. False"]) (simp_all add: plan_bucket_def)
next
  case False
  show thesis
  proof (cases "length news = 1 \<and> length cands = 1")
    case True
    then obtain n where "news = [n]" by (auto simp: length_Suc_conv)
    with True False show thesis
      by (intro that [of "\<lambda>_. match (hd cands) (hd news) \<noteq> Some False"]) (simp_all add: plan_bucket_def)
  next
    case ways: False
    let ?Q = "\<lambda>n. partner cands news n \<noteq> []"
    have r: "plan_bucket cands news = (concat (map (partner cands news) news), length (filter (\<lambda>n. \<not> ?Q n) news))"
      using False ways rescue_partners [OF assms subset_refl, of cands cands] by (auto simp: plan_bucket_def)
    have "length (concat (map (partner cands news) news)) = length (filter ?Q news)"
      using partner_duplicates [of cands news news] by (metis length_map)
    with r False show thesis
      using that [of ?Q] partner_duplicates [of cands news news] sum_length_filter_compl [of ?Q news] by simp
  qed
qed

lemma distinct_keyed_concat:
  assumes "distinct (map fst d)" and "\<And>k xs. (k, xs) \<in> set d \<Longrightarrow> distinct (g k xs) \<and> (\<forall>x \<in> set (g k xs). key x = Some k)"
  shows "distinct (concat (map (\<lambda>(k, xs). g k xs) d))"
  using assms
proof (induction d)
  case (Cons e d)
  obtain k xs where e: "e = (k, xs)" by fastforce
  have "k' \<noteq> k" if "(k', ys) \<in> set d" for k' ys using Cons.prems(1) that by (auto simp: e rev_image_eqI)
  moreover have "key x = Some k'" if "(k', ys) \<in> set d" "x \<in> set (g k' ys)" for x k' ys
    using Cons.prems(2) that by (meson list.set_intros(2))
  ultimately have "set (g k xs) \<inter> (\<Union>(k', ys) \<in> set d. set (g k' ys)) = {}"
    using Cons.prems(2) [of k xs] e by fastforce
  moreover have "distinct (concat (map (\<lambda>(k, xs). g k xs) d))" using Cons.prems by (intro Cons.IH) auto
  ultimately show ?case using Cons.prems(2) [of k xs] by (auto simp: e)
qed simp

lemma plan_moves_distinct:
  assumes "distinct (map row_id cands)" "distinct (map row_id news)"
  shows "distinct (map duplicate (fst (plan_moves cands news)))" "distinct (map survivor (fst (plan_moves cands news)))"
proof -
  let ?ps = "fst (plan_moves cands news)"
  let ?g = "\<lambda>k ns. map duplicate (fst (plan_bucket (bucket_of (Some k) cands) ns))"
  have "map duplicate ?ps = concat (map (\<lambda>(k, ns). ?g k ns) (buckets news))"
    by (simp add: fst_plan_moves map_concat comp_def case_prod_unfold)
  moreover have "distinct (concat (map (\<lambda>(k, ns). ?g k ns) (buckets news)))"
  proof (rule distinct_keyed_concat [where key = move_key, OF distinct_buckets])
    fix k ns assume "(k, ns) \<in> set (buckets news)"
    then have ns: "ns = bucket_of (Some k) news" by (simp add: in_buckets)
    have d: "distinct (map row_id ns)" using assms(2) by (simp add: ns distinct_bucket)
    then obtain Q where "?g k ns = filter Q ns" by (rule plan_bucket_duplicates)
    with d ns show "distinct (?g k ns) \<and> (\<forall>n \<in> set (?g k ns). move_key n = Some k)"
      by (simp add: distinct_map)
  qed
  ultimately show dup: "distinct (map duplicate ?ps)" by simp
  have "inj_on survivor (set ?ps)"
    using plan_moves_iff [OF assms] renamed_same_survivor
    by (intro inj_onI) (metis MovePlan.surjective old.unit.exhaust)
  with dup show "distinct (map survivor ?ps)" by (simp add: distinct_map)
qed

lemma plan_moves_count:
  assumes "distinct (map row_id news)"
  shows "length (fst (plan_moves cands news)) + snd (plan_moves cands news)
    = length (filter (\<lambda>n. move_key n \<noteq> None \<and> (\<exists>c \<in> set cands. move_key c = move_key n)) news)"
proof -
  let ?P = "\<lambda>n. \<exists>c \<in> set cands. move_key c = move_key n"
  let ?r = "\<lambda>(k, ns). plan_bucket (bucket_of (Some k) cands) ns"
  have one: "length (fst (?r e)) + snd (?r e) = length (filter ?P (snd e))" if e: "e \<in> set (buckets news)" for e
  proof -
    obtain k ns where [simp]: "e = (k, ns)" by fastforce
    from e have ns: "ns = bucket_of (Some k) news" by (simp add: in_buckets)
    have "length (fst (?r e)) + snd (?r e) = (if bucket_of (Some k) cands = [] then 0 else length ns)"
    proof -
      have "distinct (map row_id ns)" using assms by (simp add: ns distinct_bucket)
      then obtain Q where "map duplicate (fst (plan_bucket (bucket_of (Some k) cands) ns)) = filter Q ns"
        and "length (fst (plan_bucket (bucket_of (Some k) cands) ns)) + snd (plan_bucket (bucket_of (Some k) cands) ns)
          = (if bucket_of (Some k) cands = [] then 0 else length ns)"
        by (rule plan_bucket_duplicates)
      then show ?thesis by simp
    qed
    also have "\<dots> = length (filter ?P ns)"
    proof -
      have "?P n \<longleftrightarrow> bucket_of (Some k) cands \<noteq> []" if "n \<in> set ns" for n
        using that by (auto simp: ns bucket_of_def filter_empty_conv)
      then show ?thesis by (auto simp: filter_id_conv filter_empty_conv cong: filter_cong)
    qed
    finally show ?thesis by simp
  qed
  have "length (fst (plan_moves cands news)) + snd (plan_moves cands news)
      = sum_list (map (\<lambda>e. length (fst (?r e)) + snd (?r e)) (buckets news))"
    by (simp add: fst_plan_moves length_concat comp_def case_prod_unfold sum_list_addf)
  also have "\<dots> = sum_list (map (\<lambda>e. length (filter ?P (snd e))) (buckets news))"
    using one by (intro arg_cong [where f = sum_list] map_cong refl)
  also have "\<dots> = length (filter ?P (concat (map snd (buckets news))))"
    by (simp add: filter_concat length_concat comp_def)
  also have "\<dots> = length (filter ?P (filter (\<lambda>i. move_key i \<noteq> None) news))"
    by (rule mset_eq_length) (simp only: mset_filter mset_buckets)
  finally show ?thesis by (simp add: conj_commute)
qed

section \<open>The transfer\<close>

datatype move_error = IntegrityError | MoveRaised py_exn

definition index_key :: "ItemRow \<Rightarrow> uuid \<times> codepoints" where
  "index_key r = (row_library r, row_rel_path r)"

text \<open>The unique index \<open>ix_items_library_rel_path\<close>.\<close>

definition unique_rel :: "ItemRow list \<Rightarrow> bool" where
  "unique_rel rows = distinct (map index_key rows)"

definition update_row :: "ItemRow \<Rightarrow> ItemRow list \<Rightarrow> ItemRow list" where
  "update_row u rows = map (\<lambda>r. if row_id r = row_id u then u else r) rows"

text \<open>\<open>session.flush()\<close>: one \<open>UPDATE\<close> per changed row in the order of the primary keys, and the index is
  checked after each.\<close>

fun flush_updates :: "ItemRow list \<Rightarrow> ItemRow list \<Rightarrow> move_error + ItemRow list" where
  "flush_updates [] rows = Inr rows"
| "flush_updates (u # us) rows =
     (let rows' = update_row u rows in if unique_rel rows' then flush_updates us rows' else Inl IntegrityError)"

definition flush :: "ItemRow list \<Rightarrow> ItemRow list \<Rightarrow> move_error + ItemRow list" where
  "flush us rows = flush_updates (sort_key row_id us) rows"

text \<open>The sentinels of the two passes: U+FFFF, a marker, the position in the plan and the id of the row.\<close>

definition MOVE_PENDING :: codepoints where
  "MOVE_PENDING = 65535 # cps ''__filearr_move_pending__/''"

definition XMOVE_PENDING :: codepoints where
  "XMOVE_PENDING = 65535 # cps ''__filearr_xmove_pending__/''"

definition parked :: "codepoints \<Rightarrow> nat \<times> MovePlan \<Rightarrow> ItemRow" where
  "parked mark = (\<lambda>(i, p). (survivor p)\<lparr>row_rel_path :=
     mark @ cps (dec_digits i) @ [Rbac.slash] @ cps (uuid_str (row_id (survivor p)))\<rparr>)"

definition drop_duplicates :: "MovePlan list \<Rightarrow> ItemRow list \<Rightarrow> ItemRow list" where
  "drop_duplicates plans rows = filter (\<lambda>r. row_id r \<notin> row_id ` duplicate ` set plans) rows"

definition transfer :: "codepoints \<Rightarrow> (MovePlan \<Rightarrow> py_exn + ItemRow) \<Rightarrow> MovePlan list \<Rightarrow> ItemRow list \<Rightarrow> move_error + ItemRow list" where
  "transfer mark repoint plans rows =
     bind_res (flush (map (parked mark) (enumerate 0 plans)) (drop_duplicates plans rows)) (\<lambda>rows2.
       case map_res repoint plans of
         Inl e \<Rightarrow> Inl (MoveRaised e)
       | Inr finals \<Rightarrow> flush finals rows2)"

definition repoint_moved :: "(bytes \<Rightarrow> bytes) \<Rightarrow> int \<Rightarrow> MovePlan \<Rightarrow> py_exn + ItemRow" where
  "repoint_moved dig now p = (let s = survivor p; d = duplicate p in
     bind_res (path_to_ltree dig (row_rel_path d) (Some (row_library s))) (\<lambda>sc.
       Inr (s\<lparr>row_path := row_path d, row_rel_path := row_rel_path d, row_path_scope := Some sc,
              row_filename := row_filename d, row_extension := row_extension d, row_size := row_size d,
              row_mtime := row_mtime d, row_status := row_status d, row_last_seen := now,
              row_quick_hash := row_quick_hash d, row_content_hash := row_content_hash d,
              row_mid_hash := row_mid_hash d\<rparr>)))"

definition repoint_cross :: "(bytes \<Rightarrow> bytes) \<Rightarrow> int \<Rightarrow> uuid \<Rightarrow> MovePlan \<Rightarrow> py_exn + ItemRow" where
  "repoint_cross dig now lib p = (let s = survivor p; d = duplicate p in
     bind_res (path_to_ltree dig (row_rel_path d) (Some lib)) (\<lambda>sc.
       Inr (s\<lparr>row_library := lib, row_path := row_path d, row_rel_path := row_rel_path d, row_path_scope := Some sc,
              row_filename := row_filename d, row_extension := row_extension d, row_size := row_size d,
              row_mtime := row_mtime d, row_status := active, row_last_seen := now, row_deleted_at := None,
              row_quick_hash := row_quick_hash d, row_content_hash := row_content_hash d,
              row_mid_hash := row_mid_hash d\<rparr>)))"

definition moved_out_of :: "MovePlan \<Rightarrow> MovedOut" where
  "moved_out_of p = \<lparr>survivor_id = row_id (survivor p), survivor_rel_path = row_rel_path (duplicate p),
     duplicate_id = row_id (duplicate p), moved_library = row_library (survivor p)\<rparr>"

text \<open>\<open>candidates\<close> and \<open>new_items\<close> are rows of the table; what \<open>ensure_hashes\<close> assigns to a new row is
  stored by the flush that follows. The fresh rows have no sidecars yet, so the \<open>ON DELETE CASCADE\<close> of
  \<open>sidecar_of\<close> has nothing to take with them.\<close>

definition detect_moves :: "(bytes \<Rightarrow> bytes) \<Rightarrow> hashers \<Rightarrow> files \<Rightarrow> int \<Rightarrow> ItemRow list \<Rightarrow> ItemRow list \<Rightarrow> int \<Rightarrow> bool
    \<Rightarrow> ItemRow list \<Rightarrow> move_error + (ItemRow list \<times> nat \<times> nat \<times> MovedOut list)" where
  "detect_moves dig H files now candidates new_items full_max_bytes compute_content rows =
     (if candidates = [] \<or> new_items = [] then Inr (rows, 0, 0, [])
      else case map_res (ensure_hashes H files full_max_bytes compute_content) new_items of
             Inl e \<Rightarrow> Inl (MoveRaised e)
           | Inr hashed \<Rightarrow>
               (let (plans, ambiguous) = plan_moves candidates hashed in
                bind_res (transfer MOVE_PENDING (repoint_moved dig now) plans (fold update_row hashed rows)) (\<lambda>rows'.
                  Inr (rows', length plans, ambiguous, map moved_out_of plans))))"

section \<open>The second pass: other libraries\<close>

definition tombstone_elsewhere :: "(uuid \<Rightarrow> bool) \<Rightarrow> uuid \<Rightarrow> ItemRow \<Rightarrow> bool" where
  "tombstone_elsewhere agent_sourced lib r \<longleftrightarrow> row_library r \<noteq> lib \<and> row_status r = missing
     \<and> row_sidecar_of r = None \<and> \<not> agent_sourced (row_library r)"

text \<open>The new rows worth hashing: those of a size some tombstone has.\<close>

fun hash_matching :: "(ItemRow \<Rightarrow> py_exn + ItemRow) \<Rightarrow> int option set \<Rightarrow> ItemRow list \<Rightarrow> py_exn + (ItemRow list \<times> ItemRow list)" where
  "hash_matching ensure sizes [] = Inr ([], [])"
| "hash_matching ensure sizes (n # ns) =
     (if row_size n \<notin> sizes
      then bind_res (hash_matching ensure sizes ns) (\<lambda>(all, hashed). Inr (n # all, hashed))
      else bind_res (ensure n) (\<lambda>n'. bind_res (hash_matching ensure sizes ns) (\<lambda>(all, hashed).
        Inr (n' # all, if move_key n' \<noteq> None then n' # hashed else hashed))))"

fun claim_tombs :: "((string \<times> int) \<times> ItemRow list) list \<Rightarrow> ItemRow list \<Rightarrow> uuid list \<Rightarrow> ItemRow list \<Rightarrow> MovePlan list \<times> nat" where
  "claim_tombs tombs hashed claimed [] = ([], 0)"
| "claim_tombs tombs hashed claimed (n # ns) =
     (let cands = filter (\<lambda>c. row_id c \<notin> set claimed)
                    (case move_key n of None \<Rightarrow> [] | Some k \<Rightarrow> (case map_of tombs k of None \<Rightarrow> [] | Some cs \<Rightarrow> cs)) in
      if cands = [] then claim_tombs tombs hashed claimed ns
      else case filter (\<lambda>c. match c n = Some True) cands of
             [c] \<Rightarrow>
               if rival_news hashed c n \<noteq> []
               then let (ps, a) = claim_tombs tombs hashed claimed ns in (ps, Suc a)
               else let (ps, a) = claim_tombs tombs hashed (row_id c # claimed) ns in (\<lparr>survivor = c, duplicate = n\<rparr> # ps, a)
           | _ \<Rightarrow> let (ps, a) = claim_tombs tombs hashed claimed ns in (ps, Suc a))"

definition detect_cross_library_moves :: "(bytes \<Rightarrow> bytes) \<Rightarrow> hashers \<Rightarrow> files \<Rightarrow> (uuid \<Rightarrow> bool) \<Rightarrow> int \<Rightarrow> ItemRow list \<Rightarrow> uuid
    \<Rightarrow> int \<Rightarrow> bool \<Rightarrow> ItemRow list \<Rightarrow> move_error + (ItemRow list \<times> nat \<times> nat \<times> uuid list)" where
  "detect_cross_library_moves dig H files agent_sourced now new_items lib full_max_bytes compute_content rows =
     (let sizes = row_size ` set (filter (\<lambda>r. tombstone_elsewhere agent_sourced lib r \<and> row_quick_hash r \<noteq> None) rows) in
      if sizes = {} then Inr (rows, 0, 0, [])
      else case hash_matching (ensure_hashes H files full_max_bytes compute_content) sizes new_items of
             Inl e \<Rightarrow> Inl (MoveRaised e)
           | Inr (all, hashed) \<Rightarrow>
               (let rows1 = fold update_row all rows;
                    tombs = filter (\<lambda>r. tombstone_elsewhere agent_sourced lib r \<and> row_quick_hash r \<in> row_quick_hash ` set hashed) rows;
                    (plans, ambiguous) = claim_tombs (buckets tombs) hashed [] hashed in
                if plans = [] then Inr (rows1, 0, ambiguous, [])
                else bind_res (transfer XMOVE_PENDING (repoint_cross dig now lib) plans rows1) (\<lambda>rows'.
                       Inr (rows', length plans, ambiguous, map (\<lambda>p. row_id (survivor p)) plans))))"

section \<open>Flushing updates without a collision\<close>

definition latest :: "ItemRow list \<Rightarrow> ItemRow \<Rightarrow> ItemRow" where
  "latest us r = (case find (\<lambda>u. row_id u = row_id r) us of Some u \<Rightarrow> u | None \<Rightarrow> r)"

lemma latest_simps [simp]:
  "latest [] r = r"
  "latest (u # us) r = (if row_id u = row_id r then u else latest us r)"
  "row_id (latest us r) = row_id r"
  by (auto simp: latest_def find_Some_iff split: option.splits)

lemma latest_no_updates [simp]: "latest [] = (\<lambda>r. r)"
  by (rule ext) simp

lemma latest_None: "row_id r \<notin> row_id ` set us \<Longrightarrow> latest us r = r"
  by (induction us) auto

lemma latest_in: "distinct (map row_id us) \<Longrightarrow> u \<in> set us \<Longrightarrow> row_id u = row_id r \<Longrightarrow> latest us r = u"
  by (induction us) (auto simp: rev_image_eqI)

lemma latest_cases: "latest us r = r \<or> latest us r \<in> set us \<and> row_id (latest us r) = row_id r"
  by (induction us) auto

lemma latest_set_cong:
  assumes "distinct (map row_id us)" "distinct (map row_id vs)" "set us = set vs"
  shows "latest us = latest vs"
proof
  fix r
  show "latest us r = latest vs r"
  proof (cases "row_id r \<in> row_id ` set us")
    case True
    then obtain u where "u \<in> set us" "row_id u = row_id r" by auto
    then show ?thesis using assms latest_in by metis
  qed (simp add: latest_None assms(3))
qed

lemma ids_update_row [simp]: "map row_id (update_row u rows) = map row_id rows"
  by (simp add: update_row_def)

lemma ids_fold_update [simp]: "map row_id (fold update_row us rows) = map row_id rows"
  by (induction us arbitrary: rows) simp_all

lemma map_latest_update: "row_id u \<notin> row_id ` set us \<Longrightarrow> map (latest us) (update_row u rows) = map (latest (u # us)) rows"
  by (auto simp: update_row_def latest_None)

lemma fold_update_latest: "distinct (map row_id us) \<Longrightarrow> fold update_row us rows = map (latest us) rows"
proof (induction us arbitrary: rows)
  case (Cons u us)
  then have "fold update_row us (update_row u rows) = map (latest us) (update_row u rows)" by simp
  also have "\<dots> = map (latest (u # us)) rows" using Cons.prems by (intro map_latest_update) simp
  finally show ?case by simp
qed simp

text \<open>In whatever order the updates are made, two rows never hold the same key: neither the old nor the new
  key of a row is an old or new key of another.\<close>

definition apart :: "ItemRow list \<Rightarrow> ItemRow list \<Rightarrow> bool" where
  "apart us rows \<longleftrightarrow> (\<forall>r \<in> set rows. \<forall>s \<in> set rows. row_id r \<noteq> row_id s \<longrightarrow>
     (\<forall>v \<in> {r, latest us r}. \<forall>w \<in> {s, latest us s}. index_key v \<noteq> index_key w))"

lemma apartD:
  assumes "apart us rows" "r \<in> set rows" "s \<in> set rows" "row_id r \<noteq> row_id s" "v \<in> {r, latest us r}" "w \<in> {s, latest us s}"
  shows "index_key v \<noteq> index_key w"
  using assms unfolding apart_def by blast

lemma distinct_by_id:
  assumes "distinct (map row_id rows)" and "\<And>r s. r \<in> set rows \<Longrightarrow> s \<in> set rows \<Longrightarrow> row_id r \<noteq> row_id s \<Longrightarrow> index_key r \<noteq> index_key s"
  shows "unique_rel rows"
proof -
  have "inj_on index_key (set rows)" using assms by (intro inj_onI) (metis distinct_map inj_onD)
  with assms(1) show ?thesis by (simp add: unique_rel_def distinct_map)
qed

lemma unique_by_id:
  assumes "unique_rel rows" "distinct (map row_id rows)" "r \<in> set rows" "s \<in> set rows" "row_id r \<noteq> row_id s"
  shows "index_key r \<noteq> index_key s"
  using assms by (metis distinct_map inj_onD unique_rel_def)

lemma apart_update:
  assumes "apart (u # us) rows" "row_id u \<notin> row_id ` set us"
  shows "apart us (update_row u rows)"
  unfolding apart_def
proof (intro ballI impI)
  fix r' s' v w
  assume r': "r' \<in> set (update_row u rows)" and s': "s' \<in> set (update_row u rows)" and ne: "row_id r' \<noteq> row_id s'"
    and v: "v \<in> {r', latest us r'}" and w: "w \<in> {s', latest us s'}"
  have src: "\<exists>r \<in> set rows. row_id r = row_id x \<and> {x, latest us x} \<subseteq> {r, latest (u # us) r}" if "x \<in> set (update_row u rows)" for x
  proof -
    obtain r where r: "r \<in> set rows" "x = (if row_id r = row_id u then u else r)"
      using \<open>x \<in> set (update_row u rows)\<close> by (auto simp: update_row_def)
    then show ?thesis using latest_None [OF assms(2)] by (intro bexI [of _ r]) auto
  qed
  obtain r where r: "r \<in> set rows" "row_id r = row_id r'" "{r', latest us r'} \<subseteq> {r, latest (u # us) r}" using src [OF r'] by blast
  obtain s where s: "s \<in> set rows" "row_id s = row_id s'" "{s', latest us s'} \<subseteq> {s, latest (u # us) s}" using src [OF s'] by blast
  show "index_key v \<noteq> index_key w"
    using apartD [OF assms(1) r(1) s(1), of v w] r(2,3) s(2,3) v w ne by auto
qed

lemma flush_updates_ok:
  assumes "distinct (map row_id us)" "distinct (map row_id rows)" "apart us rows"
  shows "flush_updates us rows = Inr (map (latest us) rows)"
  using assms
proof (induction us arbitrary: rows)
  case (Cons u us)
  have new: "row_id u \<notin> row_id ` set us" using Cons.prems(1) by auto
  have ap: "apart us (update_row u rows)" by (rule apart_update [OF Cons.prems(3) new])
  have "unique_rel (update_row u rows)"
    by (rule distinct_by_id) (use Cons.prems(2) apartD [OF ap] in auto)
  moreover have "flush_updates us (update_row u rows) = Inr (map (latest us) (update_row u rows))"
    using Cons.prems ap by (intro Cons.IH) auto
  ultimately show ?case by (simp add: Let_def map_latest_update [OF new] del: latest_simps(2))
qed simp

lemma flush_ok:
  assumes "distinct (map row_id us)" "distinct (map row_id rows)" "apart us rows"
  shows "flush us rows = Inr (map (latest us) rows)"
proof -
  have d: "distinct (map row_id (sort_key row_id us))"
    using assms(1) by (simp add: distinct_map)
  have "latest (sort_key row_id us) = latest us" by (rule latest_set_cong [OF d assms(1)]) simp
  moreover from this have "apart (sort_key row_id us) rows" using assms(3) by (simp add: apart_def)
  ultimately show ?thesis using flush_updates_ok [OF d assms(2)] by (simp add: flush_def)
qed

section \<open>The three phases\<close>

definition plans_ok :: "MovePlan list \<Rightarrow> ItemRow list \<Rightarrow> bool" where
  "plans_ok plans rows \<longleftrightarrow> distinct (map (\<lambda>p. row_id (survivor p)) plans) \<and> distinct (map (\<lambda>p. row_id (duplicate p)) plans)
     \<and> (\<forall>p \<in> set plans. survivor p \<in> set rows \<and> duplicate p \<in> set rows)
     \<and> (\<forall>p \<in> set plans. \<forall>q \<in> set plans. row_id (survivor p) \<noteq> row_id (duplicate q))"

definition table_ok :: "ItemRow list \<Rightarrow> bool" where
  "table_ok rows \<longleftrightarrow> distinct (map row_id rows) \<and> unique_rel rows"

definition unmarked :: "codepoints \<Rightarrow> ItemRow list \<Rightarrow> bool" where
  "unmarked mark rows \<longleftrightarrow> (\<forall>r \<in> set rows. \<not> startswith (row_rel_path r) mark)"

lemma parked_simps [simp]:
  "row_id (parked mark (i, p)) = row_id (survivor p)"
  "startswith (row_rel_path (parked mark (i, p))) mark"
  "row_library (parked mark (i, p)) = row_library (survivor p)"
  by (simp_all add: parked_def)

lemma cps_digits_split:
  assumes "cps (dec_digits i) @ [Rbac.slash] @ x = cps (dec_digits j) @ [Rbac.slash] @ y"
  shows "i = j"
proof -
  have "Rbac.slash \<notin> set (cps (dec_digits k))" for k
    using dec_digits_in [of _ k] by (force simp: Rbac.slash_def is_decimal_def)
  then have "hd (split_on Rbac.slash (cps (dec_digits k) @ [Rbac.slash] @ z)) = cps (dec_digits k)" for k z
    by (simp add: split_on_append_sep)
  from this [of i x] this [of j y] have "cps (dec_digits i) = cps (dec_digits j)" by (simp only: assms)
  then have "dec_digits i = dec_digits j" by (rule inj_map_eq_map [THEN iffD1, rotated]) (simp add: inj_def)
  then show ?thesis by simp
qed

lemma parked_apart:
  assumes "row_rel_path (parked mark (i, p)) = row_rel_path (parked mark (j, q))"
  shows "i = j"
  by (rule cps_digits_split [of i "cps (uuid_str (row_id (survivor p)))" j "cps (uuid_str (row_id (survivor q)))"])
    (use assms in \<open>simp add: parked_def\<close>)

text \<open>All places rows have while the phases run, by the id of the row.\<close>

definition places :: "codepoints \<Rightarrow> MovePlan list \<Rightarrow> ItemRow list \<Rightarrow> (uuid \<times> uuid \<times> codepoints) set" where
  "places mark plans rows = {(row_id r, index_key r) |r. r \<in> set (drop_duplicates plans rows)}
     \<union> {(row_id (survivor p), index_key (parked mark (i, p))) |i p. (i, p) \<in> set (enumerate 0 plans)}
     \<union> {(row_id (survivor p), index_key (duplicate p)) |p. p \<in> set plans}"

lemma in_enumerate: "(i, p) \<in> set (enumerate 0 plans) \<longleftrightarrow> i < length plans \<and> plans ! i = p"
  by (auto simp: in_set_enumerate_eq)

lemma in_drop_duplicates:
  "r \<in> set (drop_duplicates plans rows) \<longleftrightarrow> r \<in> set rows \<and> (\<forall>p \<in> set plans. row_id r \<noteq> row_id (duplicate p))"
  by (auto simp: drop_duplicates_def)

lemma places_functional:
  assumes "table_ok rows" "unmarked mark rows" "plans_ok plans rows"
    and "(i, k) \<in> places mark plans rows" "(j, k) \<in> places mark plans rows"
  shows "i = j"
proof -
  have d: "distinct (map row_id rows)" and u: "unique_rel rows" using assms(1) by (auto simp: table_ok_def)
  have same: "row_id r = row_id s" if "r \<in> set rows" "s \<in> set rows" "index_key r = index_key s" for r s
    using unique_by_id [OF u d that(1,2)] that(3) by blast
  have dup: "p = q" if "p \<in> set plans" "q \<in> set plans" "index_key (duplicate p) = index_key (duplicate q)" for p q
  proof -
    have "row_id (duplicate p) = row_id (duplicate q)" using same that assms(3) by (auto simp: plans_ok_def)
    with that assms(3) show ?thesis by (auto simp: plans_ok_def distinct_map inj_on_def)
  qed
  have out: "index_key r \<noteq> index_key (parked mark e)" if "r \<in> set rows" for r e
    using that assms(2) by (cases e) (auto simp: unmarked_def index_key_def)
  have rd: "index_key r \<noteq> index_key (duplicate p)" if "r \<in> set (drop_duplicates plans rows)" "p \<in> set plans" for r p
    using that same assms(3) by (auto simp: in_drop_duplicates plans_ok_def)
  have park: "p = q" if "(a, p) \<in> set (enumerate 0 plans)" "(b, q) \<in> set (enumerate 0 plans)"
    "index_key (parked mark (a, p)) = index_key (parked mark (b, q))" for a b p q
    using that parked_apart [of mark a p b q] by (auto simp: in_enumerate index_key_def)
  have kept: "r \<in> set rows" if "r \<in> set (drop_duplicates plans rows)" for r using that by (simp add: in_drop_duplicates)
  have dups: "duplicate p \<in> set rows" if "p \<in> set plans" for p using that assms(3) by (auto simp: plans_ok_def)
  have cases: "(\<exists>r \<in> set (drop_duplicates plans rows). m = row_id r \<and> k = index_key r)
      \<or> (\<exists>a p. (a, p) \<in> set (enumerate 0 plans) \<and> m = row_id (survivor p) \<and> k = index_key (parked mark (a, p)))
      \<or> (\<exists>p \<in> set plans. m = row_id (survivor p) \<and> k = index_key (duplicate p))" if "(m, k) \<in> places mark plans rows" for m
    using that unfolding places_def by blast
  from cases [OF assms(4)] show ?thesis
  proof (elim disjE bexE exE conjE)
    fix r assume "r \<in> set (drop_duplicates plans rows)" "i = row_id r" "k = index_key r"
    with cases [OF assms(5)] same out rd kept show ?thesis by metis
  next
    fix a p assume "(a, p) \<in> set (enumerate 0 plans)" "i = row_id (survivor p)" "k = index_key (parked mark (a, p))"
    with cases [OF assms(5)] out park kept dups show ?thesis by metis
  next
    fix p assume "p \<in> set plans" "i = row_id (survivor p)" "k = index_key (duplicate p)"
    with cases [OF assms(5)] out rd dup dups show ?thesis by metis
  qed
qed

lemma apart_by_places:
  assumes "\<And>r. r \<in> set rows \<Longrightarrow> (row_id r, index_key r) \<in> P \<and> (row_id r, index_key (latest us r)) \<in> P"
    and "\<And>i j k. (i, k) \<in> P \<Longrightarrow> (j, k) \<in> P \<Longrightarrow> i = j"
  shows "apart us rows"
  unfolding apart_def by (auto dest!: assms(1) dest: assms(2))

lemma map_res_cases: "(\<exists>e. map_res f xs = Inl e) \<or> (\<exists>ys. map_res f xs = Inr ys)"
  by (cases "map_res f xs") auto

lemma unique_apart: "apart [] rows \<Longrightarrow> distinct (map row_id rows) \<Longrightarrow> unique_rel rows"
  by (rule distinct_by_id) (auto simp: apart_def)

lemma placesI:
  "r \<in> set (drop_duplicates plans rows) \<Longrightarrow> (row_id r, index_key r) \<in> places mark plans rows"
  "(i, p) \<in> set (enumerate 0 plans) \<Longrightarrow> (row_id (survivor p), index_key (parked mark (i, p))) \<in> places mark plans rows"
  "p \<in> set plans \<Longrightarrow> (row_id (survivor p), index_key (duplicate p)) \<in> places mark plans rows"
  unfolding places_def by blast+

abbreviation parkings :: "codepoints \<Rightarrow> MovePlan list \<Rightarrow> ItemRow list" where
  "parkings mark plans \<equiv> map (parked mark) (enumerate 0 plans)"

lemma parked_ids: "map row_id (parkings mark plans) = map (\<lambda>p. row_id (survivor p)) plans"
  by (rule nth_equalityI) (simp_all add: nth_enumerate_eq)

lemma parked_places:
  assumes "r \<in> set (drop_duplicates plans rows)"
  shows "(row_id r, index_key (latest (parkings mark plans) r)) \<in> places mark plans rows"
proof (cases "latest (parkings mark plans) r = r")
  case False
  then have "latest (parkings mark plans) r \<in> set (parkings mark plans)"
    using latest_cases [of "parkings mark plans" r] by blast
  then obtain i p where p: "latest (parkings mark plans) r = parked mark (i, p)" "(i, p) \<in> set (enumerate 0 plans)" by auto
  then have "row_id r = row_id (survivor p)" by (metis latest_simps(3) parked_simps(1))
  with p placesI(2) [OF p(2)] show ?thesis by simp
qed (simp add: placesI assms)

definition lands :: "MovePlan list \<Rightarrow> ItemRow list \<Rightarrow> bool" where
  "lands plans finals = list_all2 (\<lambda>p f. row_id f = row_id (survivor p) \<and> index_key f = index_key (duplicate p)) plans finals"

lemma lands_ids: "lands plans finals \<Longrightarrow> map row_id finals = map (\<lambda>p. row_id (survivor p)) plans"
  by (auto simp: lands_def list_all2_conv_all_nth intro!: nth_equalityI)

lemma landed_places:
  assumes "lands plans finals" and "(row_id r, index_key r) \<in> places mark plans rows"
  shows "(row_id r, index_key (latest finals r)) \<in> places mark plans rows"
proof (cases "latest finals r = r")
  case False
  then have "latest finals r \<in> set finals" using latest_cases [of finals r] by blast
  then obtain p where p: "p \<in> set plans" "row_id (latest finals r) = row_id (survivor p)"
    "index_key (latest finals r) = index_key (duplicate p)"
    using list_all2_in_set2 [OF assms(1) [unfolded lands_def]] by blast
  then show ?thesis using placesI(3) [OF p(1)] by simp
qed (simp add: assms)

lemma latest_again:
  assumes "distinct (map row_id finals)" "row_id ` set us = row_id ` set finals"
  shows "latest finals (latest us r) = latest finals r"
proof (cases "row_id r \<in> row_id ` set finals")
  case True
  then show ?thesis using latest_in [OF assms(1)] by (metis image_iff latest_simps(3))
next
  case False
  then show ?thesis by (simp add: latest_None assms(2))
qed

lemma park_then_land:
  assumes "table_ok rows" "unmarked mark rows" "plans_ok plans rows" "lands plans finals"
  shows "flush (parkings mark plans) (drop_duplicates plans rows) = Inr (map (latest (parkings mark plans)) (drop_duplicates plans rows))"
    and "flush finals (map (latest (parkings mark plans)) (drop_duplicates plans rows)) = Inr (map (latest finals) (drop_duplicates plans rows))"
    and "table_ok (map (latest finals) (drop_duplicates plans rows))"
proof -
  let ?kept = "drop_duplicates plans rows" and ?us = "parkings mark plans" and ?P = "places mark plans rows"
  note fn = places_functional [OF assms(1-3)] and by_places = apart_by_places [where P = ?P, OF _ places_functional [OF assms(1-3)]]
  have d: "distinct (map row_id ?us)" "distinct (map row_id finals)"
    using assms(3) lands_ids [OF assms(4)] parked_ids [of mark plans] by (simp_all only: plans_ok_def)
  have dk: "distinct (map row_id ?kept)" using assms(1) by (simp add: drop_duplicates_def table_ok_def distinct_map_filter)
  have "apart ?us ?kept" by (rule by_places) (auto simp: placesI parked_places)
  then show "flush ?us ?kept = Inr (map (latest ?us) ?kept)" using d dk by (intro flush_ok)
  have ids: "row_id ` set ?us = row_id ` set finals"
    using parked_ids [of mark plans] lands_ids [OF assms(4)] by (metis set_map)
  then have again: "map (latest finals) (map (latest ?us) ?kept) = map (latest finals) ?kept"
    by (simp add: latest_again [OF d(2)])
  have "apart finals (map (latest ?us) ?kept)"
  proof (rule by_places)
    fix r assume "r \<in> set (map (latest ?us) ?kept)"
    then obtain r0 where "r0 \<in> set ?kept" "r = latest ?us r0" by auto
    then have "(row_id r, index_key r) \<in> ?P" using parked_places [of r0 plans rows mark] by simp
    then show "(row_id r, index_key r) \<in> ?P \<and> (row_id r, index_key (latest finals r)) \<in> ?P"
      using landed_places [OF assms(4)] by blast
  qed
  then show "flush finals (map (latest ?us) ?kept) = Inr (map (latest finals) ?kept)"
    using flush_ok [OF d(2), of "map (latest ?us) ?kept"] dk again by (simp add: comp_def)
  have "apart [] (map (latest finals) ?kept)"
  proof (rule by_places)
    fix r assume "r \<in> set (map (latest finals) ?kept)"
    then obtain r0 where "r0 \<in> set ?kept" "r = latest finals r0" by auto
    then show "(row_id r, index_key r) \<in> ?P \<and> (row_id r, index_key (latest [] r)) \<in> ?P"
      using landed_places [OF assms(4) placesI(1)] by simp
  qed
  then show "table_ok (map (latest finals) ?kept)"
    using dk unique_apart [of "map (latest finals) ?kept"] by (simp add: table_ok_def comp_def)
qed

lemma parking_ok:
  assumes "table_ok rows" "unmarked mark rows" "plans_ok plans rows"
  shows "flush (parkings mark plans) (drop_duplicates plans rows) = Inr (map (latest (parkings mark plans)) (drop_duplicates plans rows))"
proof -
  have "lands plans (map (\<lambda>p. (duplicate p)\<lparr>row_id := row_id (survivor p)\<rparr>) plans)"
    by (simp add: lands_def index_key_def list_all2_conv_all_nth)
  from park_then_land(1) [OF assms this] show ?thesis .
qed

lemma transfer_cases:
  assumes "table_ok rows" "unmarked mark rows" "plans_ok plans rows"
    and "\<And>p f. p \<in> set plans \<Longrightarrow> repoint p = Inr f \<Longrightarrow> row_id f = row_id (survivor p) \<and> index_key f = index_key (duplicate p)"
  obtains (raised) e where "map_res repoint plans = Inl e" "transfer mark repoint plans rows = Inl (MoveRaised e)"
    | (moved) finals where "map_res repoint plans = Inr finals" "distinct (map row_id finals)"
      "transfer mark repoint plans rows = Inr (map (latest finals) (drop_duplicates plans rows))"
      "table_ok (map (latest finals) (drop_duplicates plans rows))"
proof (cases "map_res repoint plans")
  case (Inl e)
  with raised show thesis by (simp add: transfer_def parking_ok [OF assms(1-3)])
next
  case (Inr finals)
  then have "list_all2 (\<lambda>p f. repoint p = Inr f) plans finals" by (simp add: map_res_Inr_list_all2)
  then have l: "lands plans finals" using assms(4) by (auto simp: lands_def list_all2_conv_all_nth)
  have "distinct (map row_id finals)" using assms(3) lands_ids [OF l] by (simp only: plans_ok_def)
  with Inr moved park_then_land [OF assms(1-3) l] show thesis by (simp add: transfer_def)
qed

section \<open>What a transfer leaves in the table\<close>

definition transferred :: "(MovePlan \<Rightarrow> py_exn + ItemRow) \<Rightarrow> MovePlan list \<Rightarrow> ItemRow list \<Rightarrow> ItemRow list \<Rightarrow> bool" where
  "transferred repoint plans rows rows' \<longleftrightarrow> table_ok rows'
     \<and> (\<forall>p \<in> set plans. \<exists>f \<in> set rows'. repoint p = Inr f)
     \<and> (\<forall>r \<in> set rows. (\<forall>p \<in> set plans. row_id r \<noteq> row_id (survivor p) \<and> row_id r \<noteq> row_id (duplicate p)) \<longrightarrow> r \<in> set rows')
     \<and> row_id ` set rows' = row_id ` set rows - (\<lambda>p. row_id (duplicate p)) ` set plans"

lemma transfer_result:
  assumes "table_ok rows" "unmarked mark rows" "plans_ok plans rows"
    and "\<And>p. p \<in> set plans \<Longrightarrow> \<exists>f. repoint p = Inr f \<and> row_id f = row_id (survivor p) \<and> index_key f = index_key (duplicate p)"
  obtains rows' where "transfer mark repoint plans rows = Inr rows'" "transferred repoint plans rows rows'"
proof -
  have rp: "row_id f = row_id (survivor p) \<and> index_key f = index_key (duplicate p)" if "p \<in> set plans" "repoint p = Inr f" for p f
    using assms(4) [OF that(1)] that(2) by auto
  show thesis
  proof (rule transfer_cases [OF assms(1-3) rp])
    fix e assume "map_res repoint plans = Inl e"
    moreover have "map_res repoint plans = Inr (map (\<lambda>p. SOME f. repoint p = Inr f) plans)"
      by (rule map_res_total) (metis (mono_tags, lifting) assms(4) someI_ex)
    ultimately show thesis by simp
  next
    fix finals
    assume fs: "map_res repoint plans = Inr finals" "distinct (map row_id finals)"
      and tr: "transfer mark repoint plans rows = Inr (map (latest finals) (drop_duplicates plans rows))"
      and ok: "table_ok (map (latest finals) (drop_duplicates plans rows))"
    let ?rows' = "map (latest finals) (drop_duplicates plans rows)"
    have l2: "list_all2 (\<lambda>p f. repoint p = Inr f) plans finals" using fs(1) by (simp add: map_res_Inr_list_all2)
    have moved: "\<exists>f \<in> set ?rows'. repoint p = Inr f" if p: "p \<in> set plans" for p
    proof -
      obtain f where f: "f \<in> set finals" "repoint p = Inr f" using list_all2_in_set1 [OF l2 p] by blast
      have "survivor p \<in> set (drop_duplicates plans rows)" using p assms(3) by (auto simp: in_drop_duplicates plans_ok_def)
      moreover have "latest finals (survivor p) = f" using latest_in [OF fs(2) f(1)] rp [OF p f(2)] by simp
      ultimately show ?thesis using f(2) by force
    qed
    have kept: "r \<in> set ?rows'"
      if r: "r \<in> set rows" "\<forall>p \<in> set plans. row_id r \<noteq> row_id (survivor p) \<and> row_id r \<noteq> row_id (duplicate p)" for r
    proof -
      have "row_id r \<notin> row_id ` set finals"
      proof
        assume "row_id r \<in> row_id ` set finals"
        then obtain f where "f \<in> set finals" "row_id f = row_id r" by auto
        then show False using list_all2_in_set2 [OF l2] rp r(2) by metis
      qed
      then have "latest finals r = r" by (rule latest_None)
      with r show ?thesis by (force simp: in_drop_duplicates)
    qed
    have "row_id ` set ?rows' = row_id ` set rows - (\<lambda>p. row_id (duplicate p)) ` set plans"
      by (simp add: image_image) (auto simp: drop_duplicates_def)
    with moved kept ok show thesis using that [OF tr] unfolding transferred_def by blast
  qed
qed

text \<open>Hashing changes nothing but the hash columns, and cannot fail on a row with a size.\<close>

definition rehashed :: "ItemRow \<Rightarrow> ItemRow \<Rightarrow> bool" where
  "rehashed i i' \<longleftrightarrow> i' = i\<lparr>row_quick_hash := row_quick_hash i', row_mid_hash := row_mid_hash i', row_content_hash := row_content_hash i'\<rparr>"

lemma ensure_hashes_frame: "ensure_hashes H files m c i = Inr i' \<Longrightarrow> rehashed i i'"
  by (auto simp: rehashed_def ensure_hashes_def after_read_def Let_def split: if_splits sum.splits read_exn.splits)

lemma ensure_hashes_total:
  assumes "row_size i \<noteq> None"
  shows "\<exists>i'. ensure_hashes H files m c i = Inr i'"
  using assms by (auto simp: ensure_hashes_def after_read_def Let_def quick_hash_file_def mid_hash_file_def full_hash_file_def
      split: sum.splits read_exn.splits option.splits if_splits)

lemma rehashed_columns:
  assumes "rehashed i i'"
  shows "row_id i' = row_id i" "index_key i' = index_key i" "row_size i' = row_size i" "row_library i' = row_library i"
    "row_rel_path i' = row_rel_path i" "row_path i' = row_path i" "row_filename i' = row_filename i"
    "row_extension i' = row_extension i" "row_mtime i' = row_mtime i" "row_status i' = row_status i"
    "row_category i' = row_category i" "row_identity i' = row_identity i"
  by (subst assms [unfolded rehashed_def], simp add: index_key_def)+

lemma store_hashed:
  assumes "distinct (map row_id rows)" "set news \<subseteq> set rows" "distinct (map row_id news)" "list_all2 rehashed news hashed"
  shows "map row_id hashed = map row_id news" "fold update_row hashed rows = map (latest hashed) rows"
    and "set hashed \<subseteq> set (map (latest hashed) rows)"
    and "map index_key (map (latest hashed) rows) = map index_key rows"
proof -
  show ids: "map row_id hashed = map row_id news"
    using assms(4) by (auto simp: list_all2_conv_all_nth rehashed_columns intro!: nth_equalityI)
  then have d: "distinct (map row_id hashed)" using assms(3) by simp
  then show "fold update_row hashed rows = map (latest hashed) rows" by (rule fold_update_latest)
  show "set hashed \<subseteq> set (map (latest hashed) rows)"
  proof
    fix n' assume n': "n' \<in> set hashed"
    then obtain n where "n \<in> set news" "rehashed n n'" using list_all2_in_set2 [OF assms(4)] by blast
    with latest_in [OF d n', of n] assms(2) show "n' \<in> set (map (latest hashed) rows)"
      by (force simp: rehashed_columns)
  qed
  have "index_key (latest hashed r) = index_key r" if r: "r \<in> set rows" for r
  proof (cases "latest hashed r = r")
    case False
    then have "latest hashed r \<in> set hashed" using latest_cases [of hashed r] by blast
    then obtain n where n: "n \<in> set news" "rehashed n (latest hashed r)" using list_all2_in_set2 [OF assms(4)] by blast
    then have "row_id n = row_id r" using rehashed_columns(1) [OF n(2)] by simp
    then have "n = r" using assms(1,2) n(1) r by (auto simp: distinct_map inj_on_def)
    then show ?thesis using rehashed_columns(2) [OF n(2)] by simp
  qed simp
  then show "map index_key (map (latest hashed) rows) = map index_key rows" by simp
qed

text \<open>The arguments the scan passes: candidates and new rows are rows of one library, no row is both, and
  the file system gave no path that looks like a sentinel.\<close>

definition move_args :: "codepoints \<Rightarrow> uuid \<Rightarrow> ItemRow list \<Rightarrow> ItemRow list \<Rightarrow> ItemRow list \<Rightarrow> bool" where
  "move_args mark lib cands news rows \<longleftrightarrow> table_ok rows \<and> unmarked mark rows
     \<and> set cands \<subseteq> set rows \<and> set news \<subseteq> set rows \<and> distinct (map row_id cands) \<and> distinct (map row_id news)
     \<and> row_id ` set cands \<inter> row_id ` set news = {}
     \<and> (\<forall>n \<in> set news. row_library n = lib)"

definition encodable :: "(bytes \<Rightarrow> bytes) \<Rightarrow> uuid \<Rightarrow> ItemRow \<Rightarrow> bool" where
  "encodable dig lib n \<longleftrightarrow> row_size n \<noteq> None \<and> (\<exists>sc. path_to_ltree dig (row_rel_path n) (Some lib) = Inr sc)"

lemma hash_all:
  assumes "\<And>n. n \<in> set news \<Longrightarrow> encodable dig lib n"
  obtains hashed where "map_res (ensure_hashes H files m c) news = Inr hashed" "list_all2 rehashed news hashed"
proof (cases "map_res (ensure_hashes H files m c) news")
  case (Inl e)
  have "map_res (ensure_hashes H files m c) news = Inr (map (\<lambda>n. SOME i. ensure_hashes H files m c n = Inr i) news)"
    using assms ensure_hashes_total by (intro map_res_total) (metis (mono_tags, lifting) encodable_def someI_ex)
  with Inl show thesis by simp
next
  case (Inr hashed)
  then have "list_all2 rehashed news hashed"
    by (auto simp: map_res_Inr_list_all2 elim!: list_all2_mono intro: ensure_hashes_frame)
  with that Inr show thesis by blast
qed

lemma hashed_args:
  assumes "move_args mark lib cands news rows" "list_all2 rehashed news hashed"
  shows "move_args mark lib cands hashed (map (latest hashed) rows)" "fold update_row hashed rows = map (latest hashed) rows"
    "row_id ` set hashed = row_id ` set news"
proof -
  note args = assms(1) [unfolded move_args_def table_ok_def]
  have *: "map row_id hashed = map row_id news" "fold update_row hashed rows = map (latest hashed) rows"
    "set hashed \<subseteq> set (map (latest hashed) rows)" "map index_key (map (latest hashed) rows) = map index_key rows"
    using store_hashed [OF _ _ _ assms(2), of rows] args by auto
  show "fold update_row hashed rows = map (latest hashed) rows" by fact
  show ids: "row_id ` set hashed = row_id ` set news" using *(1) by (metis set_map)
  have "table_ok (map (latest hashed) rows)" 
  proof -
    have "unique_rel (map (latest hashed) rows)" unfolding unique_rel_def *(4) using args by (simp add: unique_rel_def)
    then show ?thesis using args by (simp add: table_ok_def comp_def)
  qed
  moreover have "unmarked mark (map (latest hashed) rows)"
  proof -
    have "snd ` set (map index_key (map (latest hashed) rows)) = snd ` set (map index_key rows)" using *(4) by simp
    then have "row_rel_path ` set (map (latest hashed) rows) = row_rel_path ` set rows" by (simp add: image_image index_key_def)
    with args show ?thesis unfolding unmarked_def by (metis (no_types, opaque_lifting) imageE imageI)
  qed
  moreover have "c \<in> set (map (latest hashed) rows)" if c: "c \<in> set cands" for c
  proof -
    have "row_id c \<notin> row_id ` set hashed" using c args ids by auto
    then have "latest hashed c = c" by (rule latest_None)
    moreover have "c \<in> set rows" using args c by blast
    then have "latest hashed c \<in> set (map (latest hashed) rows)" by simp
    ultimately show ?thesis by simp
  qed
  moreover have "row_library n = lib" if "n \<in> set hashed" for n
    using that list_all2_in_set2 [OF assms(2)] args rehashed_columns(4) by metis
  ultimately show "move_args mark lib cands hashed (map (latest hashed) rows)"
    using args *(1,3) ids by (auto simp: move_args_def)
qed

lemma distinct_ids_of:
  assumes "distinct (map f ps)" "\<And>p. p \<in> set ps \<Longrightarrow> f p \<in> set xs" "distinct (map row_id xs)"
  shows "distinct (map (\<lambda>p. row_id (f p)) ps)"
  using assms by (auto simp: distinct_map inj_on_def)

lemma planned_ok:
  assumes "move_args mark lib cands news rows"
  shows "plans_ok (fst (plan_moves cands news)) rows"
proof -
  note args = assms [unfolded move_args_def]
  have iff: "p \<in> set (fst (plan_moves cands news)) \<longleftrightarrow> renamed cands news (survivor p) (duplicate p)" for p
    using args by (intro plan_moves_iff) auto
  then have mem: "survivor p \<in> set cands" "duplicate p \<in> set news" if "p \<in> set (fst (plan_moves cands news))" for p
    using that renamedD(1,2) by blast+
  have "distinct (map (\<lambda>p. row_id (survivor p)) (fst (plan_moves cands news)))"
    "distinct (map (\<lambda>p. row_id (duplicate p)) (fst (plan_moves cands news)))"
    using plan_moves_distinct [of cands news] args mem by (auto intro: distinct_ids_of)
  then show ?thesis using args mem unfolding plans_ok_def by (metis IntI empty_iff imageI subsetD)
qed

lemma repoint_moved_columns:
  assumes "repoint_moved dig now p = Inr s'"
  shows "row_id s' = row_id (survivor p)" "row_library s' = row_library (survivor p)" "row_rel_path s' = row_rel_path (duplicate p)"
    "row_path s' = row_path (duplicate p)" "row_filename s' = row_filename (duplicate p)" "row_extension s' = row_extension (duplicate p)"
    "row_size s' = row_size (duplicate p)" "row_mtime s' = row_mtime (duplicate p)" "row_status s' = row_status (duplicate p)"
    "row_quick_hash s' = row_quick_hash (duplicate p)" "row_content_hash s' = row_content_hash (duplicate p)"
    "row_identity s' = row_identity (survivor p)" "row_category s' = row_category (survivor p)"
    "row_sidecar_of s' = row_sidecar_of (survivor p)" "row_last_seen s' = now"
    "\<exists>sc. path_to_ltree dig (row_rel_path (duplicate p)) (Some (row_library (survivor p))) = Inr sc \<and> row_path_scope s' = Some sc"
  using assms by (auto simp: repoint_moved_def Let_def bind_res_Inr)

lemma detect_moves_result:
  assumes args: "move_args MOVE_PENDING lib cands news rows" and lib: "\<forall>c \<in> set cands. row_library c = lib"
    and enc: "\<forall>n \<in> set news. encodable dig lib n" and some: "cands \<noteq> []" "news \<noteq> []"
  obtains hashed rows' where "list_all2 rehashed news hashed" "move_args MOVE_PENDING lib cands hashed (map (latest hashed) rows)"
    and "detect_moves dig H files now cands news m c rows
      = Inr (rows', length (fst (plan_moves cands hashed)), snd (plan_moves cands hashed), map moved_out_of (fst (plan_moves cands hashed)))"
    and "transferred (repoint_moved dig now) (fst (plan_moves cands hashed)) (map (latest hashed) rows) rows'"
proof -
  obtain hashed where h: "map_res (ensure_hashes H files m c) news = Inr hashed" "list_all2 rehashed news hashed"
    using hash_all enc by metis
  let ?rows = "map (latest hashed) rows" and ?plans = "fst (plan_moves cands hashed)"
  note args' = hashed_args [OF args h(2)]
  have d: "distinct (map row_id cands)" "distinct (map row_id hashed)" "table_ok ?rows" "unmarked MOVE_PENDING ?rows"
    using args'(1) by (simp_all add: move_args_def)
  have repoint: "\<exists>f. repoint_moved dig now p = Inr f \<and> row_id f = row_id (survivor p) \<and> index_key f = index_key (duplicate p)"
    if p: "p \<in> set ?plans" for p
  proof -
    have mem: "survivor p \<in> set cands" "duplicate p \<in> set hashed" using p plan_moves_iff [OF d(1,2)] renamedD(1,2) by blast+
    then obtain n where n: "n \<in> set news" "rehashed n (duplicate p)" using list_all2_in_set2 [OF h(2)] by blast
    obtain sc where sc: "path_to_ltree dig (row_rel_path n) (Some lib) = Inr sc" using enc n(1) by (auto simp: encodable_def)
    then obtain f where f: "repoint_moved dig now p = Inr f"
      using lib mem rehashed_columns(5) [OF n(2)] by (simp add: repoint_moved_def Let_def)
    have "row_library (duplicate p) = lib" using args'(1) mem(2) by (simp add: move_args_def)
    then have "index_key f = index_key (duplicate p)"
      using repoint_moved_columns(2,3) [OF f] lib mem(1) by (simp add: index_key_def)
    with f show ?thesis using repoint_moved_columns(1) [OF f] by blast
  qed
  obtain rows' where r: "transfer MOVE_PENDING (repoint_moved dig now) ?plans ?rows = Inr rows'"
    "transferred (repoint_moved dig now) ?plans ?rows rows'"
    by (rule transfer_result [OF d(3,4) planned_ok [OF args'(1)] repoint])
  have run: "detect_moves dig H files now cands news m c rows
      = Inr (rows', length ?plans, snd (plan_moves cands hashed), map moved_out_of ?plans)"
    using some h(1) r(1) by (simp add: detect_moves_def args'(2) case_prod_unfold Let_def)
  show thesis by (rule that [OF h(2) args'(1) run r(2)])
qed

section \<open>The second pass\<close>

lemma rehashed_refl [simp]: "rehashed i i"
  by (simp add: rehashed_def)

lemma hash_matching_all:
  assumes "hash_matching (ensure_hashes H files m c) sizes news = Inr (everyone, hashed)"
  shows "list_all2 rehashed news everyone" "subseq hashed everyone" "\<forall>n \<in> set hashed. move_key n \<noteq> None"
proof -
  have "list_all2 rehashed news everyone \<and> subseq hashed everyone \<and> (\<forall>n \<in> set hashed. move_key n \<noteq> None)"
    using assms by (induction news arbitrary: everyone hashed)
      (auto simp: bind_res_Inr ensure_hashes_frame split: if_splits)
  then show "list_all2 rehashed news everyone" "subseq hashed everyone" "\<forall>n \<in> set hashed. move_key n \<noteq> None" by auto
qed

text \<open>A new row as the pass compares it: hashed if its size is among those of the tombstones.\<close>

definition hashed_for_cross :: "hashers \<Rightarrow> files \<Rightarrow> int \<Rightarrow> bool \<Rightarrow> int option set \<Rightarrow> ItemRow \<Rightarrow> ItemRow \<Rightarrow> bool" where
  "hashed_for_cross H files m c sizes n h = (if row_size n \<in> sizes then ensure_hashes H files m c n = Inr h else h = n)"

lemma hashed_for_crossI:
  "row_size n \<notin> sizes \<Longrightarrow> hashed_for_cross H files m c sizes n n"
  "row_size n \<in> sizes \<Longrightarrow> ensure_hashes H files m c n = Inr h \<Longrightarrow> hashed_for_cross H files m c sizes n h"
  by (simp_all add: hashed_for_cross_def)

lemma hash_matching_each:
  assumes "hash_matching (ensure_hashes H files m c) sizes news = Inr (everyone, hashed)"
  shows "list_all2 (hashed_for_cross H files m c sizes) news everyone"
    and "h \<in> set everyone \<Longrightarrow> row_size h \<in> sizes \<Longrightarrow> move_key h \<noteq> None \<Longrightarrow> h \<in> set hashed"
proof -
  have "list_all2 (hashed_for_cross H files m c sizes) news everyone
    \<and> (\<forall>h \<in> set everyone. row_size h \<in> sizes \<and> move_key h \<noteq> None \<longrightarrow> h \<in> set hashed)"
    using assms by (induction news arbitrary: everyone hashed) (auto simp: bind_res_Inr hashed_for_crossI split: if_splits)
  then show "list_all2 (hashed_for_cross H files m c sizes) news everyone"
    and "h \<in> set everyone \<Longrightarrow> row_size h \<in> sizes \<Longrightarrow> move_key h \<noteq> None \<Longrightarrow> h \<in> set hashed" by blast+
qed

lemma hash_matching_total:
  assumes "\<And>n. n \<in> set news \<Longrightarrow> row_size n \<noteq> None"
  shows "\<exists>everyone hashed. hash_matching (ensure_hashes H files m c) sizes news = Inr (everyone, hashed)"
  using assms
proof (induction news)
  case (Cons n ns)
  then obtain e h where "hash_matching (ensure_hashes H files m c) sizes ns = Inr (e, h)" by auto
  moreover obtain n' where "ensure_hashes H files m c n = Inr n'" using Cons.prems ensure_hashes_total [of n H files m c] by auto
  ultimately show ?case by simp
qed simp

definition cross_partner :: "ItemRow list \<Rightarrow> ItemRow list \<Rightarrow> ItemRow \<Rightarrow> MovePlan list" where
  "cross_partner tombs hashed n = partner (bucket_of (move_key n) tombs) hashed n"

lemma claim_partners:
  assumes "distinct (map row_id ns)" "set ns \<subseteq> set hashed" "\<forall>n \<in> set hashed. move_key n \<noteq> None" "distinct (map row_id tombs)"
    and "\<And>n c. n \<in> set ns \<Longrightarrow> c \<in> set tombs \<Longrightarrow> row_id c \<in> set claimed \<Longrightarrow> match c n \<noteq> Some True"
  shows "fst (claim_tombs (buckets tombs) hashed claimed ns) = concat (map (cross_partner tombs hashed) ns)"
  using assms
proof (induction ns arbitrary: claimed)
  case (Cons n ns)
  let ?all = "bucket_of (move_key n) tombs" and ?cands = "filter (\<lambda>c. row_id c \<notin> set claimed) (bucket_of (move_key n) tombs)"
  let ?conf = "filter (\<lambda>c. match c n = Some True)"
  obtain k where k: "move_key n = Some k" using Cons.prems(2,3) by auto
  have found: "(case map_of (buckets tombs) k of None \<Rightarrow> [] | Some cs \<Rightarrow> cs) = ?all" by (simp add: map_of_buckets k)
  have conf: "?conf ?cands = ?conf ?all"
    using Cons.prems(5) [of n] by (auto simp: bucket_of_def intro!: filter_cong)
  have skip: "fst (claim_tombs (buckets tombs) hashed claimed ns) = concat (map (cross_partner tombs hashed) ns)"
    using Cons.prems by (intro Cons.IH) auto
  have take: "fst (claim_tombs (buckets tombs) hashed (row_id c # claimed) ns) = concat (map (cross_partner tombs hashed) ns)"
    if "rival_news hashed c n = []" "c \<in> set tombs" for c
  proof (rule Cons.IH)
    fix m c' assume m: "m \<in> set ns" "c' \<in> set tombs" "row_id c' \<in> set (row_id c # claimed)"
    have ne: "row_id m \<noteq> row_id n" using Cons.prems(1) m(1) by (metis distinct.simps(2) image_eqI list.simps(9) set_map)
    show "match c' m \<noteq> Some True"
    proof (cases "row_id c' = row_id c")
      case True
      then have "c' = c" using Cons.prems(4) m(2) that(2) by (auto simp: distinct_map inj_on_def)
      then show ?thesis using that(1) m(1) ne Cons.prems(2) by (auto simp: rival_news_def filter_empty_conv)
    next
      case False
      then show ?thesis using Cons.prems(5) [of m c'] m by auto
    qed
  qed (use Cons.prems in auto)
  have step: "fst (claim_tombs (buckets tombs) hashed claimed (n # ns)) = (if ?cands = [] then fst (claim_tombs (buckets tombs) hashed claimed ns)
      else case ?conf ?all of
          [c] \<Rightarrow> if rival_news hashed c n = [] then \<lparr>survivor = c, duplicate = n\<rparr> # fst (claim_tombs (buckets tombs) hashed (row_id c # claimed) ns)
                 else fst (claim_tombs (buckets tombs) hashed claimed ns)
        | _ \<Rightarrow> fst (claim_tombs (buckets tombs) hashed claimed ns))"
    by (simp only: claim_tombs.simps Let_def k option.case found [unfolded k] conf [unfolded k]) (auto simp: case_prod_unfold split: list.split)
  have none: "?conf ?all = []" if "?cands = []" using that conf by (metis filter.simps(1))
  have one: "c \<in> set tombs" if "?conf ?all = [c]" for c
  proof -
    have "c \<in> set (?conf ?all)" by (simp only: that list.set_intros)
    then show ?thesis by simp
  qed
  have here: "cross_partner tombs hashed n = (case ?conf ?all of
      [c] \<Rightarrow> if rival_news hashed c n = [] then [\<lparr>survivor = c, duplicate = n\<rparr>] else [] | _ \<Rightarrow> [])"
    by (simp only: cross_partner_def partner_def)
  obtain xs where xs: "?conf ?all = xs" by blast
  show ?case
  proof (cases "?cands = []")
    case True
    with none skip step here show ?thesis by (simp only: True if_True xs list.map concat.simps) simp
  next
    case False
    have "(case xs of [c] \<Rightarrow> if rival_news hashed c n = [] then \<lparr>survivor = c, duplicate = n\<rparr> # fst (claim_tombs (buckets tombs) hashed (row_id c # claimed) ns)
          else fst (claim_tombs (buckets tombs) hashed claimed ns) | _ \<Rightarrow> fst (claim_tombs (buckets tombs) hashed claimed ns))
        = (case xs of [c] \<Rightarrow> if rival_news hashed c n = [] then [\<lparr>survivor = c, duplicate = n\<rparr>] else [] | _ \<Rightarrow> [])
          @ concat (map (cross_partner tombs hashed) ns)"
      using take skip one xs by (auto split: list.split)
    with False show ?thesis by (simp only: step here xs if_False list.map concat.simps)
  qed
qed simp

definition revived :: "ItemRow list \<Rightarrow> ItemRow list \<Rightarrow> ItemRow \<Rightarrow> ItemRow \<Rightarrow> bool" where
  "revived tombs hashed c n \<longleftrightarrow> c \<in> set tombs \<and> n \<in> set hashed \<and> move_key c = move_key n \<and> confirmed c n
     \<and> (\<forall>c' \<in> set tombs. move_key c' = move_key n \<and> confirmed c' n \<longrightarrow> c' = c)
     \<and> (\<forall>n' \<in> set hashed. confirmed c n' \<longrightarrow> n' = n)"

lemma claims_iff:
  assumes "distinct (map row_id hashed)" "\<forall>n \<in> set hashed. move_key n \<noteq> None" "distinct (map row_id tombs)"
  shows "p \<in> set (fst (claim_tombs (buckets tombs) hashed [] hashed)) \<longleftrightarrow> revived tombs hashed (survivor p) (duplicate p)"
proof -
  have "fst (claim_tombs (buckets tombs) hashed [] hashed) = concat (map (cross_partner tombs hashed) hashed)"
    using assms by (intro claim_partners) auto
  then have "p \<in> set (fst (claim_tombs (buckets tombs) hashed [] hashed))
      \<longleftrightarrow> (\<exists>n \<in> set hashed. p \<in> set (partner (bucket_of (move_key n) tombs) hashed n))" by (simp add: cross_partner_def)
  also have "\<dots> \<longleftrightarrow> duplicate p \<in> set hashed
      \<and> filter (\<lambda>c. match c (duplicate p) = Some True) (bucket_of (move_key (duplicate p)) tombs) = [survivor p]
      \<and> rival_news hashed (survivor p) (duplicate p) = []"
    using in_partner [OF assms(1)] by auto
  also have "\<dots> \<longleftrightarrow> revived tombs hashed (survivor p) (duplicate p)"
  proof (cases "duplicate p \<in> set hashed")
    case True
    have "distinct (bucket_of (move_key (duplicate p)) tombs)" using distinct_bucket [OF assms(3)] by (simp add: distinct_map)
    then have "filter (\<lambda>c. match c (duplicate p) = Some True) (bucket_of (move_key (duplicate p)) tombs) = [survivor p]
        \<longleftrightarrow> survivor p \<in> set tombs \<and> move_key (survivor p) = move_key (duplicate p) \<and> confirmed (survivor p) (duplicate p)
          \<and> (\<forall>c' \<in> set tombs. move_key c' = move_key (duplicate p) \<and> confirmed c' (duplicate p) \<longrightarrow> c' = survivor p)"
      by (simp only: singleton_filter confirmed_def Ball_def bucket_of_simps) blast
    moreover have "rival_news hashed (survivor p) (duplicate p) = [] \<longleftrightarrow> (\<forall>m \<in> set hashed. confirmed (survivor p) m \<longrightarrow> m = duplicate p)"
      using assms(1) True by (auto simp: rival_news_def filter_empty_conv confirmed_def distinct_map inj_on_def)
    ultimately show ?thesis unfolding revived_def using True by blast
  qed (simp add: revived_def)
  finally show ?thesis .
qed

lemma claims_distinct:
  assumes "distinct (map row_id hashed)" "\<forall>n \<in> set hashed. move_key n \<noteq> None" "distinct (map row_id tombs)"
  shows "distinct (map duplicate (fst (claim_tombs (buckets tombs) hashed [] hashed)))"
    and "distinct (map survivor (fst (claim_tombs (buckets tombs) hashed [] hashed)))"
proof -
  let ?ps = "fst (claim_tombs (buckets tombs) hashed [] hashed)"
  have "?ps = concat (map (cross_partner tombs hashed) hashed)" using assms by (intro claim_partners) auto
  moreover have "map duplicate (concat (map (cross_partner tombs hashed) ns)) = filter (\<lambda>n. cross_partner tombs hashed n \<noteq> []) ns" for ns
    by (induction ns) (auto simp: cross_partner_def partner_def split: list.splits if_splits)
  ultimately show dup: "distinct (map duplicate ?ps)" using assms(1) by (simp add: distinct_map)
  have "p = q" if "p \<in> set ?ps" "q \<in> set ?ps" "survivor p = survivor q" for p q
  proof -
    have "revived tombs hashed (survivor p) (duplicate p)" "revived tombs hashed (survivor q) (duplicate q)"
      using that(1,2) claims_iff [OF assms] by blast+
    then have "duplicate p = duplicate q" using that(3) unfolding revived_def by metis
    with that(3) show ?thesis by (cases p, cases q) simp
  qed
  with dup show "distinct (map survivor ?ps)" by (auto simp: distinct_map inj_on_def)
qed

lemma repoint_cross_columns:
  assumes "repoint_cross dig now lib p = Inr s'"
  shows "row_id s' = row_id (survivor p)" "row_library s' = lib" "row_rel_path s' = row_rel_path (duplicate p)"
    "row_path s' = row_path (duplicate p)" "row_size s' = row_size (duplicate p)" "row_mtime s' = row_mtime (duplicate p)"
    "row_status s' = active" "row_deleted_at s' = None" "row_identity s' = row_identity (survivor p)"
    "row_quick_hash s' = row_quick_hash (duplicate p)" "row_content_hash s' = row_content_hash (duplicate p)"
    "row_mid_hash s' = row_mid_hash (duplicate p)"
  using assms by (auto simp: repoint_cross_def Let_def bind_res_Inr)

text \<open>Positive evidence: equal keys, and equal content hashes or, where one is missing, equal midpoint samples.\<close>

definition same_bytes :: "ItemRow \<Rightarrow> ItemRow \<Rightarrow> bool" where
  "same_bytes a b \<longleftrightarrow> move_key a = move_key b \<and> move_key a \<noteq> None
     \<and> (row_content_hash a = row_content_hash b \<and> row_content_hash a \<noteq> None
        \<or> (row_content_hash a = None \<or> row_content_hash b = None) \<and> row_mid_hash a = row_mid_hash b \<and> row_mid_hash a \<noteq> None)"

lemma confirmed_same_bytes:
  "confirmed a b \<Longrightarrow> move_key a = move_key b \<Longrightarrow> move_key b \<noteq> None \<Longrightarrow> same_bytes a b"
  by (auto simp: confirmed_def match_def content_match_def mid_match_def same_bytes_def split: option.splits)

lemma same_bytes_confirmed: "same_bytes a b \<Longrightarrow> confirmed a b"
  by (auto simp: confirmed_def match_def content_match_def mid_match_def same_bytes_def split: option.splits)

text \<open>The sizes that are worth hashing.\<close>

definition tomb_sizes :: "(uuid \<Rightarrow> bool) \<Rightarrow> uuid \<Rightarrow> ItemRow list \<Rightarrow> int option set" where
  "tomb_sizes agent lib rows = row_size ` set (filter (\<lambda>r. tombstone_elsewhere agent lib r \<and> row_quick_hash r \<noteq> None) rows)"

text \<open>The tombstone and the new file match each other and nothing else.\<close>

definition only_match :: "(uuid \<Rightarrow> bool) \<Rightarrow> uuid \<Rightarrow> ItemRow list \<Rightarrow> ItemRow list \<Rightarrow> ItemRow \<Rightarrow> ItemRow \<Rightarrow> bool" where
  "only_match agent lib rows everyone t n \<longleftrightarrow> same_bytes t n
     \<and> (\<forall>t' \<in> set rows. tombstone_elsewhere agent lib t' \<and> same_bytes t' n \<longrightarrow> t' = t)
     \<and> (\<forall>n' \<in> set everyone. same_bytes t n' \<longrightarrow> n' = n)"

lemma move_key_parts: "move_key a = move_key b \<Longrightarrow> move_key a \<noteq> None \<Longrightarrow> row_quick_hash a = row_quick_hash b \<and> row_size a = row_size b \<and> row_quick_hash a \<noteq> None"
  by (auto simp: move_key_def split: option.splits)

lemma revived_only:
  assumes "revived (filter (\<lambda>r. tombstone_elsewhere agent lib r \<and> row_quick_hash r \<in> row_quick_hash ` set hashed) rows) hashed t n"
    and "\<forall>h \<in> set hashed. move_key h \<noteq> None"
    and every: "\<And>h. h \<in> set everyone \<Longrightarrow> row_size h \<in> row_size ` set (filter (\<lambda>r. tombstone_elsewhere agent lib r \<and> row_quick_hash r \<noteq> None) rows)
      \<Longrightarrow> move_key h \<noteq> None \<Longrightarrow> h \<in> set hashed"
  shows "only_match agent lib rows everyone t n"
proof -
  from assms(1) have t: "t \<in> set rows" "tombstone_elsewhere agent lib t" "n \<in> set hashed" "move_key t = move_key n" "confirmed t n"
    and one: "\<And>t'. t' \<in> set rows \<Longrightarrow> tombstone_elsewhere agent lib t' \<Longrightarrow> row_quick_hash t' \<in> row_quick_hash ` set hashed
      \<Longrightarrow> move_key t' = move_key n \<Longrightarrow> confirmed t' n \<Longrightarrow> t' = t"
    and sole: "\<And>n'. n' \<in> set hashed \<Longrightarrow> confirmed t n' \<Longrightarrow> n' = n"
    unfolding revived_def by auto
  have "same_bytes t n" using t assms(2) by (intro confirmed_same_bytes) auto
  moreover have "t' = t" if "t' \<in> set rows" "tombstone_elsewhere agent lib t'" "same_bytes t' n" for t'
  proof -
    have k: "move_key t' = move_key n" "move_key t' \<noteq> None" using that(3) unfolding same_bytes_def by blast+
    have "row_quick_hash t' = row_quick_hash n" using move_key_parts [OF k] by blast
    then show ?thesis using one [OF that(1,2) _ k(1)] t(3) same_bytes_confirmed [OF that(3)] by auto
  qed
  moreover have "n' = n" if "n' \<in> set everyone" "same_bytes t n'" for n'
  proof -
    have mk: "move_key t = move_key n'" "move_key t \<noteq> None" using that(2) unfolding same_bytes_def by blast+
    have k: "move_key n' \<noteq> None" "row_size t = row_size n'" "row_quick_hash t \<noteq> None" using mk move_key_parts [OF mk] by metis+
    then have "row_size n' \<in> row_size ` set (filter (\<lambda>r. tombstone_elsewhere agent lib r \<and> row_quick_hash r \<noteq> None) rows)" using t(1,2) by (intro image_eqI [of _ _ t]) simp_all
    then show ?thesis using sole every that(1) k(1) same_bytes_confirmed [OF that(2)] by blast
  qed
  ultimately show ?thesis by (simp add: only_match_def)
qed

lemma subseq_subset: "subseq xs ys \<Longrightarrow> set xs \<subseteq> set ys"
  by (induction rule: list_emb.induct) auto

lemma subseq_distinct_ids: "subseq xs ys \<Longrightarrow> distinct (map row_id ys) \<Longrightarrow> distinct (map row_id xs)"
  by (induction rule: list_emb.induct) (auto dest!: subseq_subset)

lemma same_row: "distinct (map row_id rows) \<Longrightarrow> r \<in> set rows \<Longrightarrow> s \<in> set rows \<Longrightarrow> row_id r = row_id s \<Longrightarrow> r = s"
  by (auto simp: distinct_map inj_on_def)

lemma latest_own_rows:
  assumes "distinct (map row_id rows)" "set us \<subseteq> set rows"
  shows "map (latest us) rows = rows"
proof -
  have "latest us r = r" if "r \<in> set rows" for r
    using latest_cases [of us r] same_row [OF assms(1) _ that] assms(2) by blast
  then show ?thesis by (simp add: map_idI)
qed

lemma tombs_not_new:
  assumes "move_args mark lib [] news rows" "row_id ` set everyone = row_id ` set news" "\<forall>t \<in> set tombs. t \<in> set rows \<and> row_library t \<noteq> lib"
  shows "set tombs \<subseteq> set (map (latest everyone) rows)"
proof
  fix t assume t: "t \<in> set tombs"
  note args = assms(1) [unfolded move_args_def table_ok_def]
  have "row_id t \<notin> row_id ` set news"
  proof
    assume "row_id t \<in> row_id ` set news"
    then obtain n where n: "n \<in> set news" "row_id n = row_id t" by auto
    then have "n = t" using same_row [of rows n t] args assms(3) t by blast
    with n t args assms(3) show False by blast
  qed
  then have "latest everyone t = t" using assms(2) by (simp add: latest_None)
  with t assms(3) show "t \<in> set (map (latest everyone) rows)" by force
qed

lemma repoint_cross_lands:
  assumes "encodable dig lib n" "rehashed n (duplicate p)" "row_library n = lib"
  shows "\<exists>f. repoint_cross dig now lib p = Inr f \<and> row_id f = row_id (survivor p) \<and> index_key f = index_key (duplicate p)"
proof -
  obtain sc where "path_to_ltree dig (row_rel_path n) (Some lib) = Inr sc" using assms(1) by (auto simp: encodable_def)
  then obtain f where f: "repoint_cross dig now lib p = Inr f"
    using rehashed_columns(5) [OF assms(2)] by (simp add: repoint_cross_def Let_def)
  with repoint_cross_columns(1-3) [OF f] rehashed_columns(4) [OF assms(2)] assms(3) show ?thesis by (simp add: index_key_def)
qed

lemma claims_ok:
  assumes "move_args mark lib [] everyone rows" "subseq hashed everyone" "\<forall>n \<in> set hashed. move_key n \<noteq> None"
    and "set tombs \<subseteq> set rows" "distinct (map row_id tombs)" "\<forall>t \<in> set tombs. row_library t \<noteq> lib"
  shows "plans_ok (fst (claim_tombs (buckets tombs) hashed [] hashed)) rows"
proof -
  let ?ps = "fst (claim_tombs (buckets tombs) hashed [] hashed)"
  note args = assms(1) [unfolded move_args_def table_ok_def]
  have sub: "set hashed \<subseteq> set everyone" using assms(2) by (rule subseq_subset)
  have d: "distinct (map row_id hashed)" using args subseq_distinct_ids [OF assms(2)] by blast
  have mem: "survivor p \<in> set tombs" "duplicate p \<in> set hashed" if "p \<in> set ?ps" for p
    using that claims_iff [OF d assms(3,5)] by (auto simp: revived_def)
  have "row_id t \<noteq> row_id n" if "t \<in> set tombs" "n \<in> set hashed" for t n
  proof
    assume "row_id t = row_id n"
    moreover have "t \<in> set rows" "n \<in> set rows" using that args assms(4) sub by auto
    ultimately have "t = n" using args by (auto simp: distinct_map inj_on_def)
    then show False using that assms(6) args sub by auto
  qed
  then have "row_id (survivor p) \<noteq> row_id (duplicate q)" if "p \<in> set ?ps" "q \<in> set ?ps" for p q using mem that by blast
  moreover have "survivor p \<in> set rows" "duplicate p \<in> set rows" if "p \<in> set ?ps" for p
    using mem [OF that] args assms(4) sub by blast+
  moreover have "distinct (map (\<lambda>p. row_id (survivor p)) ?ps)" "distinct (map (\<lambda>p. row_id (duplicate p)) ?ps)"
    using claims_distinct [OF d assms(3,5)] mem d assms(5) by (auto intro: distinct_ids_of)
  ultimately show ?thesis by (simp add: plans_ok_def)
qed

lemma cross_result_unique:
  assumes args: "move_args XMOVE_PENDING lib [] news rows" and enc: "\<forall>n \<in> set news. encodable dig lib n"
  obtains rows' plans ambiguous hashed everyone where
    "detect_cross_library_moves dig H files agent now news lib m c rows = Inr (rows', length plans, ambiguous, map (\<lambda>p. row_id (survivor p)) plans)"
    "transferred (repoint_cross dig now lib) plans (map (latest everyone) rows) rows'"
    "list_all2 rehashed news everyone" "set hashed \<subseteq> set everyone"
    "\<forall>p \<in> set plans. survivor p \<in> set rows \<and> tombstone_elsewhere agent lib (survivor p) \<and> duplicate p \<in> set hashed
       \<and> same_bytes (survivor p) (duplicate p)"
    "plans_ok plans (map (latest everyone) rows)" "list_all2 (hashed_for_cross H files m c (tomb_sizes agent lib rows)) news everyone"
    "\<forall>p \<in> set plans. only_match agent lib rows everyone (survivor p) (duplicate p)"
proof -
  let ?sizes = "row_size ` set (filter (\<lambda>r. tombstone_elsewhere agent lib r \<and> row_quick_hash r \<noteq> None) rows)"
  show thesis
  proof (cases "?sizes = {}")
    case True
    have "table_ok rows" using args by (simp add: move_args_def)
    then have "transferred (repoint_cross dig now lib) [] (map (latest []) rows) rows" by (simp add: transferred_def)
    moreover have "fold update_row news rows = map (latest news) rows" by (rule fold_update_latest) (use args in \<open>simp add: move_args_def\<close>)
    moreover have "map (latest news) rows = rows" by (rule latest_own_rows) (use args in \<open>simp_all add: move_args_def table_ok_def\<close>)
    moreover have "tomb_sizes agent lib rows = {}" unfolding tomb_sizes_def by (rule True)
    then have "list_all2 (hashed_for_cross H files m c (tomb_sizes agent lib rows)) news news" by (simp add: list_all2_refl hashed_for_cross_def)
    ultimately show thesis using that [of rows "[]" 0 news "[]"] True
      by (simp add: detect_cross_library_moves_def Let_def list_all2_refl plans_ok_def)
  next
    case False
    obtain everyone hashed where h: "hash_matching (ensure_hashes H files m c) ?sizes news = Inr (everyone, hashed)"
    proof -
      have "\<forall>n \<in> set news. row_size n \<noteq> None" using enc unfolding encodable_def by blast
      then show thesis using hash_matching_total that by blast
    qed
    note hm = hash_matching_all [OF h]
    let ?rows = "map (latest everyone) rows"
    let ?tombs = "filter (\<lambda>r. tombstone_elsewhere agent lib r \<and> row_quick_hash r \<in> row_quick_hash ` set hashed) rows"
    let ?plans = "fst (claim_tombs (buckets ?tombs) hashed [] hashed)"
    let ?amb = "snd (claim_tombs (buckets ?tombs) hashed [] hashed)"
    note args' = hashed_args [OF args hm(1)]
    have sub: "set hashed \<subseteq> set everyone" using hm(2) by (rule subseq_subset)
    have dt: "distinct (map row_id ?tombs)" using args by (simp add: move_args_def table_ok_def distinct_map_filter)
    have ts: "set ?tombs \<subseteq> set ?rows"
      by (rule tombs_not_new [OF args args'(3)]) (simp add: tombstone_elsewhere_def)
    have dh: "distinct (map row_id hashed)"
      using args'(1) subseq_distinct_ids [OF hm(2)] unfolding move_args_def by blast
    have pl: "survivor p \<in> set ?tombs \<and> duplicate p \<in> set hashed \<and> same_bytes (survivor p) (duplicate p)" if "p \<in> set ?plans" for p
      using that claims_iff [OF dh hm(3) dt] hm(3) confirmed_same_bytes unfolding revived_def by blast
    have ok: "plans_ok ?plans ?rows"
      using claims_ok [OF args'(1) hm(2,3) ts dt] by (simp add: tombstone_elsewhere_def)
    have repoint: "\<exists>f. repoint_cross dig now lib p = Inr f \<and> row_id f = row_id (survivor p) \<and> index_key f = index_key (duplicate p)"
      if p: "p \<in> set ?plans" for p
    proof -
      obtain n where n: "n \<in> set news" "rehashed n (duplicate p)" using list_all2_in_set2 [OF hm(1)] pl [OF p] sub by blast
      then show ?thesis using enc args by (intro repoint_cross_lands [of dig lib n]) (auto simp: move_args_def)
    qed
    have tok: "table_ok ?rows" "unmarked XMOVE_PENDING ?rows" using args'(1) by (simp_all add: move_args_def)
    obtain rows' where r: "transfer XMOVE_PENDING (repoint_cross dig now lib) ?plans ?rows = Inr rows'"
      "transferred (repoint_cross dig now lib) ?plans ?rows rows'"
      by (rule transfer_result [OF tok ok repoint])
    have "detect_cross_library_moves dig H files agent now news lib m c rows
        = Inr (if ?plans = [] then ?rows else rows', length ?plans, ?amb, map (\<lambda>p. row_id (survivor p)) ?plans)"
      using False h r(1) args'(2) by (simp add: detect_cross_library_moves_def Let_def case_prod_unfold) force
    moreover have "transferred (repoint_cross dig now lib) ?plans ?rows (if ?plans = [] then ?rows else rows')"
      using r(2) tok by (auto simp: transferred_def)
    moreover have "list_all2 (hashed_for_cross H files m c (tomb_sizes agent lib rows)) news everyone"
      unfolding tomb_sizes_def by (rule hash_matching_each(1) [OF h])
    moreover have "only_match agent lib rows everyone (survivor p) (duplicate p)" if "p \<in> set ?plans" for p
      using that claims_iff [OF dh hm(3) dt] by (intro revived_only [OF _ hm(3) hash_matching_each(2) [OF h]]) simp_all
    ultimately show thesis using that hm(1) sub pl ok by simp
  qed
qed

lemma cross_result:
  assumes "move_args XMOVE_PENDING lib [] news rows" and "\<forall>n \<in> set news. encodable dig lib n"
  obtains rows' plans ambiguous hashed everyone where
    "detect_cross_library_moves dig H files agent now news lib m c rows = Inr (rows', length plans, ambiguous, map (\<lambda>p. row_id (survivor p)) plans)"
    "transferred (repoint_cross dig now lib) plans (map (latest everyone) rows) rows'"
    "list_all2 rehashed news everyone" "set hashed \<subseteq> set everyone"
    "\<forall>p \<in> set plans. survivor p \<in> set rows \<and> tombstone_elsewhere agent lib (survivor p) \<and> duplicate p \<in> set hashed
       \<and> same_bytes (survivor p) (duplicate p)"
    "plans_ok plans (map (latest everyone) rows)"
  by (rule cross_result_unique [OF assms]) (rule that; assumption)

text \<open>\<open>s'\<close> is the item \<open>s\<close> at the place of \<open>n\<close>.\<close>

definition takes_place :: "ItemRow \<Rightarrow> ItemRow \<Rightarrow> ItemRow \<Rightarrow> bool" where
  "takes_place s n s' \<longleftrightarrow> row_id s' = row_id s \<and> row_identity s' = row_identity s
     \<and> row_library s' = row_library n \<and> row_rel_path s' = row_rel_path n \<and> row_path s' = row_path n
     \<and> row_size s' = row_size n \<and> row_mtime s' = row_mtime n"

lemma planned_members:
  assumes "move_args mark lib cands news rows" "p \<in> set (fst (plan_moves cands news))"
  shows "survivor p \<in> set cands" "duplicate p \<in> set news"
proof -
  have "distinct (map row_id cands)" "distinct (map row_id news)" using assms(1) by (simp_all add: move_args_def)
  from plan_moves_iff [OF this, of p] assms(2) have r: "renamed cands news (survivor p) (duplicate p)" by blast
  show "survivor p \<in> set cands" "duplicate p \<in> set news" by (fact renamedD(1,2) [OF r])+
qed

lemma transferred_others:
  assumes "transferred repoint plans (map (latest us) rows) rows'" "r \<in> set rows" "row_id r \<notin> row_id ` set us"
    and "\<And>p. p \<in> set plans \<Longrightarrow> duplicate p \<in> set us \<and> row_id r \<noteq> row_id (survivor p)"
  shows "r \<in> set rows'"
proof -
  have "r \<in> set (map (latest us) rows)" using assms(2,3) latest_None by force
  moreover have "row_id r \<noteq> row_id (survivor p) \<and> row_id r \<noteq> row_id (duplicate p)" if "p \<in> set plans" for p
    using assms(3,4) that by (metis imageI)
  ultimately show ?thesis using assms(1) unfolding transferred_def by blast
qed

lemma repoint_takes_place:
  assumes "repoint_moved dig now p = Inr s'" "rehashed n (duplicate p)" "row_library (survivor p) = row_library n"
  shows "takes_place (survivor p) n s' \<and> row_filename s' = row_filename n \<and> row_extension s' = row_extension n
    \<and> row_status s' = row_status n \<and> row_category s' = row_category (survivor p)"
  using repoint_moved_columns [OF assms(1)] rehashed_columns [OF assms(2)] assms(3) by (simp add: takes_place_def)

section \<open>Properties\<close>

text \<open>Property C34. The planner pairs a vanished row and a new row exactly when they are the only rows with their
  quick hash and size and their hashes do not contradict each other, or when the hashes confirm the pair and
  confirm neither of the two with any other row of that key; the order of the rows makes no difference. No row
  is used twice, and every new row that has a vanished twin is either paired or counted as ambiguous.\<close>

theorem plan_moves_exact:
  assumes "distinct (map row_id cands)" "distinct (map row_id news)"
  shows "(\<lambda>p. (survivor p, duplicate p)) ` set (fst (plan_moves cands news)) = {(c, n). renamed cands news c n}
    \<and> distinct (map survivor (fst (plan_moves cands news))) \<and> distinct (map duplicate (fst (plan_moves cands news)))
    \<and> length (fst (plan_moves cands news)) + snd (plan_moves cands news)
      = length (filter (\<lambda>n. move_key n \<noteq> None \<and> (\<exists>c \<in> set cands. move_key c = move_key n)) news)"
proof -
  have "(\<lambda>p. (survivor p, duplicate p)) ` set (fst (plan_moves cands news)) = {(c, n). renamed cands news c n}"
  proof (intro set_eqI iffI)
    fix e assume "e \<in> {(c, n). renamed cands news c n}"
    then obtain c n where e: "e = (c, n)" "renamed cands news c n" by auto
    then have "\<lparr>survivor = c, duplicate = n\<rparr> \<in> set (fst (plan_moves cands news))"
      by (simp add: plan_moves_iff [OF assms])
    then show "e \<in> (\<lambda>p. (survivor p, duplicate p)) ` set (fst (plan_moves cands news))" unfolding e(1) by force
  qed (auto simp: plan_moves_iff [OF assms])
  then show ?thesis using plan_moves_distinct [OF assms] plan_moves_count [OF assms(2)] by simp
qed

definition sample_identity :: item_identity where
  "sample_identity = \<lparr>title = None, year = None, external_ids = [], item_metadata = [], user_metadata = [(''note'', JStr ''mine'')],
     tags = [''keep''], first_seen = 5\<rparr>"

definition sample_row :: ItemRow where
  "sample_row = \<lparr>row_id = 1, row_library = 9, row_path = cps ''/m/a.txt'', row_rel_path = cps ''a.txt'', row_filename = cps ''a.txt'',
     row_extension = Some (cps ''txt''), row_size = Some 2, row_mtime = 10, row_status = active, row_last_seen = 20,
     row_deleted_at = None, row_quick_hash = Some ''q1'', row_content_hash = Some ''c1'', row_mid_hash = None,
     row_sidecar_of = None, row_path_scope = None, row_category = Some ''document'', row_group = Some ''text'',
     row_nlink = Some 1, row_inode = Some 4, row_dev = Some 1, row_symlink_target = None, row_identity = sample_identity\<rparr>"

definition fresh_file_row :: ItemRow where
  "fresh_file_row = sample_row\<lparr>row_id := 2, row_path := cps ''/m/b.jpg'', row_rel_path := cps ''b.jpg'', row_filename := cps ''b.jpg'',
     row_extension := Some (cps ''jpg''), row_category := Some ''image'', row_group := Some ''photo'',
     row_identity := sample_identity\<lparr>user_metadata := [], tags := [], first_seen := 30\<rparr>\<rparr>"

lemmas sample_row_defs = sample_row_def fresh_file_row_def sample_identity_def

theorem plan_moves_exact_witness:
  "plan_moves [sample_row] [fresh_file_row] = ([\<lparr>survivor = sample_row, duplicate = fresh_file_row\<rparr>], 0)
    \<and> renamed [sample_row] [fresh_file_row] sample_row fresh_file_row"
proof -
  have "distinct (map row_id [sample_row])" "distinct (map row_id [fresh_file_row])" by simp_all
  note ex = plan_moves_exact [OF this]
  have run: "plan_moves [sample_row] [fresh_file_row] = ([\<lparr>survivor = sample_row, duplicate = fresh_file_row\<rparr>], 0)"
    by (simp add: plan_moves_def buckets_def bucket_add_def move_key_def sample_row_defs plan_bucket_def match_def content_match_def)
  from ex have "(sample_row, fresh_file_row) \<in> {(c, n). renamed [sample_row] [fresh_file_row] c n}" by (auto simp: run)
  with run show ?thesis by simp
qed

text \<open>Property C24. A rename keeps the identity of an item. Whatever the order of the statements, no statement
  violates the unique index, also when files swap or rotate names; the rows that disappear are the duplicates
  of the moved items, every moved item keeps its id and what users wrote about it and takes the location, the
  size and the hashes of its duplicate, and a row that is neither a candidate nor new is not changed.\<close>

theorem rename_keeps_identity:
  assumes "move_args MOVE_PENDING lib cands news rows" "\<forall>c \<in> set cands. row_library c = lib"
    and "\<forall>n \<in> set news. encodable dig lib n"
  shows "\<exists>rows' ambiguous outs. detect_moves dig H files now cands news full_max compute rows = Inr (rows', length outs, ambiguous, outs)
    \<and> table_ok rows'
    \<and> row_id ` set rows' = row_id ` set rows - duplicate_id ` set outs
    \<and> distinct (map survivor_id outs)
    \<and> (\<forall>out \<in> set outs. \<exists>s \<in> set cands. \<exists>n \<in> set news. \<exists>s' \<in> set rows'.
        survivor_id out = row_id s \<and> duplicate_id out = row_id n \<and> takes_place s n s' \<and> row_filename s' = row_filename n
        \<and> row_extension s' = row_extension n \<and> row_status s' = row_status n \<and> row_category s' = row_category s)
    \<and> (\<forall>r \<in> set rows. row_id r \<notin> row_id ` set cands \<and> row_id r \<notin> row_id ` set news \<longrightarrow> r \<in> set rows')"
proof (cases "cands = [] \<or> news = []")
  case True
  then have "detect_moves dig H files now cands news full_max compute rows = Inr (rows, 0, 0, [])" by (simp add: detect_moves_def)
  moreover have "table_ok rows" using assms(1) by (simp add: move_args_def)
  ultimately show ?thesis by (intro exI [of _ rows] exI [of _ 0] exI [of _ "[]"]) simp
next
  case False
  then have some: "cands \<noteq> []" "news \<noteq> []" by auto
  obtain hashed rows' where h: "list_all2 rehashed news hashed" and a: "move_args MOVE_PENDING lib cands hashed (map (latest hashed) rows)"
    and run: "detect_moves dig H files now cands news full_max compute rows
      = Inr (rows', length (fst (plan_moves cands hashed)), snd (plan_moves cands hashed), map moved_out_of (fst (plan_moves cands hashed)))"
    and tr: "transferred (repoint_moved dig now) (fst (plan_moves cands hashed)) (map (latest hashed) rows) rows'"
    by (rule detect_moves_result [OF assms some])
  let ?plans = "fst (plan_moves cands hashed)"
  note mem = planned_members [OF a]
  have moved: "\<exists>n \<in> set news. \<exists>s' \<in> set rows'. row_id (duplicate p) = row_id n \<and> takes_place (survivor p) n s'
      \<and> row_filename s' = row_filename n \<and> row_extension s' = row_extension n \<and> row_status s' = row_status n
      \<and> row_category s' = row_category (survivor p)" if p: "p \<in> set ?plans" for p
  proof -
    obtain n where n: "n \<in> set news" "rehashed n (duplicate p)" using list_all2_in_set2 [OF h mem(2) [OF p]] by blast
    obtain s' where s': "s' \<in> set rows'" "repoint_moved dig now p = Inr s'" using tr p unfolding transferred_def by blast
    have "row_library (survivor p) = row_library n" using assms(1,2) mem(1) [OF p] n(1) by (simp add: move_args_def)
    from repoint_takes_place [OF s'(2) n(2) this] n(1) s'(1) rehashed_columns(1) [OF n(2)] show ?thesis by metis
  qed
  have ids: "row_id ` set rows' = row_id ` set rows - duplicate_id ` set (map moved_out_of ?plans)"
    using tr by (simp add: transferred_def image_image moved_out_of_def)
  have other: "r \<in> set rows'" if r: "r \<in> set rows" "row_id r \<notin> row_id ` set cands \<and> row_id r \<notin> row_id ` set news" for r
    by (rule transferred_others [OF tr r(1)]) (use r(2) hashed_args(3) [OF assms(1) h] mem in auto)
  have "distinct (map survivor_id (map moved_out_of ?plans))"
    using planned_ok [OF a] by (simp add: plans_ok_def moved_out_of_def comp_def)
  moreover have "\<exists>s \<in> set cands. \<exists>n \<in> set news. \<exists>s' \<in> set rows'. survivor_id out = row_id s \<and> duplicate_id out = row_id n
      \<and> takes_place s n s' \<and> row_filename s' = row_filename n \<and> row_extension s' = row_extension n \<and> row_status s' = row_status n
      \<and> row_category s' = row_category s" if "out \<in> set (map moved_out_of ?plans)" for out
    using that moved mem(1) by (force simp: moved_out_of_def)
  moreover have "table_ok rows'" using tr by (simp add: transferred_def)
  ultimately show ?thesis using run ids other
    by (intro exI [of _ rows'] exI [of _ "snd (plan_moves cands hashed)"] exI [of _ "map moved_out_of ?plans"]) simp
qed

lemma fresh_encodable: "encodable zero_digest 9 fresh_file_row"
proof -
  have "(case path_to_ltree zero_digest (row_rel_path fresh_file_row) (Some 9) of Inl e \<Rightarrow> False | Inr x \<Rightarrow> True)" by code_simp
  then show ?thesis by (auto simp: encodable_def sample_row_defs split: sum.splits)
qed

definition no_files :: files where "no_files k p = None"

lemma sample_args: "move_args MOVE_PENDING 9 [sample_row] [fresh_file_row] [sample_row, fresh_file_row]"
  by (simp add: move_args_def table_ok_def unique_rel_def index_key_def unmarked_def sample_row_defs MOVE_PENDING_def startswith_def)

theorem rename_keeps_identity_witness:
  "\<exists>rows' a out. detect_moves zero_digest sample_hashers no_files 99 [sample_row] [fresh_file_row] 0 False [sample_row, fresh_file_row]
      = Inr (rows', 1, a, [out]) \<and> survivor_id out = 1 \<and> (\<exists>s' \<in> set rows'. takes_place sample_row fresh_file_row s')"
proof -
  have lib: "\<forall>c \<in> set [sample_row]. row_library c = 9" and enc: "\<forall>n \<in> set [fresh_file_row]. encodable zero_digest 9 n"
    using fresh_encodable by (simp_all add: sample_row_def)
  from rename_keeps_identity [OF sample_args lib enc, of sample_hashers no_files 99 0 False]
  obtain rows' a outs where r: "detect_moves zero_digest sample_hashers no_files 99 [sample_row] [fresh_file_row] 0 False [sample_row, fresh_file_row]
      = Inr (rows', length outs, a, outs)"
    "\<forall>out \<in> set outs. \<exists>s \<in> set [sample_row]. \<exists>n \<in> set [fresh_file_row]. \<exists>s' \<in> set rows'. survivor_id out = row_id s \<and> duplicate_id out = row_id n \<and> takes_place s n s'"
    by (elim exE conjE) (rule that, assumption, fast)
  have "ensure_hashes sample_hashers no_files 0 False fresh_file_row = Inr fresh_file_row" by (simp add: ensure_hashes_def sample_row_defs)
  moreover have "fst (plan_moves [sample_row] [fresh_file_row]) = [\<lparr>survivor = sample_row, duplicate = fresh_file_row\<rparr>]"
    by (simp add: plan_moves_def buckets_def bucket_add_def move_key_def sample_row_defs plan_bucket_def match_def content_match_def)
  ultimately obtain out where out: "outs = [out]" using r(1)
    by (auto simp: detect_moves_def case_prod_unfold bind_res_Inr)
  with r show ?thesis by (auto simp: sample_row_def)
qed

text \<open>Property C35. A tombstone of another library is revived only on positive evidence: its size and quick hash are
  those of the new file and the content hashes agree, or the midpoint samples where a content hash is missing; no
  other eligible tombstone matches the file like this, and no other new file the tombstone. It is a missing row of a
  library that no agent owns and not a sidecar. The revived item keeps its id and what users wrote and is active at the
  new location, in the place of the new row. Every new row whose place no revived item took stays, with the hashes
  computed for it; every other row stays as it was; the table keeps its unique index, and no statement on the way
  violates it.\<close>

theorem cross_move_needs_evidence:
  assumes "move_args XMOVE_PENDING lib [] news rows" "\<forall>n \<in> set news. encodable dig lib n"
  shows "\<exists>rows' ambiguous ids hashed. detect_cross_library_moves dig H files agent now news lib full_max compute rows
      = Inr (rows', length ids, ambiguous, ids)
    \<and> list_all2 (hashed_for_cross H files full_max compute (tomb_sizes agent lib rows)) news hashed
    \<and> table_ok rows' \<and> distinct ids
    \<and> (\<forall>i \<in> set ids. \<exists>t \<in> set rows. \<exists>n \<in> set hashed. \<exists>s' \<in> set rows'. row_id t = i \<and> tombstone_elsewhere agent lib t
        \<and> only_match agent lib rows hashed t n \<and> takes_place t n s' \<and> row_status s' = active \<and> row_deleted_at s' = None)
    \<and> (\<forall>n \<in> set hashed. n \<in> set rows' \<or> (\<exists>s' \<in> set rows'. row_id s' \<in> set ids \<and> index_key s' = index_key n))
    \<and> (\<forall>r \<in> set rows. row_id r \<notin> set ids \<and> row_id r \<notin> row_id ` set news \<longrightarrow> r \<in> set rows')"
proof -
  obtain rows' plans ambiguous hashed everyone where run:
    "detect_cross_library_moves dig H files agent now news lib full_max compute rows = Inr (rows', length plans, ambiguous, map (\<lambda>p. row_id (survivor p)) plans)"
    and tr: "transferred (repoint_cross dig now lib) plans (map (latest everyone) rows) rows'"
    and h: "list_all2 rehashed news everyone" "set hashed \<subseteq> set everyone"
    and pl: "\<forall>p \<in> set plans. survivor p \<in> set rows \<and> tombstone_elsewhere agent lib (survivor p) \<and> duplicate p \<in> set hashed
       \<and> same_bytes (survivor p) (duplicate p)" and ok: "plans_ok plans (map (latest everyone) rows)"
    and hc: "list_all2 (hashed_for_cross H files full_max compute (tomb_sizes agent lib rows)) news everyone"
    and om: "\<forall>p \<in> set plans. only_match agent lib rows everyone (survivor p) (duplicate p)"
    by (rule cross_result_unique [OF assms])
  have moved: "\<exists>s' \<in> set rows'. takes_place (survivor p) (duplicate p) s' \<and> row_status s' = active \<and> row_deleted_at s' = None
      \<and> index_key s' = index_key (duplicate p)" if p: "p \<in> set plans" for p
  proof -
    obtain n where n: "n \<in> set news" "rehashed n (duplicate p)" using list_all2_in_set2 [OF h(1)] pl p h(2) by blast
    obtain s' where s': "s' \<in> set rows'" "repoint_cross dig now lib p = Inr s'" using tr p unfolding transferred_def by blast
    have "row_library (duplicate p) = lib" using assms(1) n rehashed_columns(4) [OF n(2)] by (simp add: move_args_def)
    then show ?thesis
      using repoint_cross_columns [OF s'(2)] s'(1) by (intro bexI [of _ s']) (simp_all add: takes_place_def index_key_def)
  qed
  have other: "r \<in> set rows'" if r: "r \<in> set rows" "row_id r \<notin> set (map (\<lambda>p. row_id (survivor p)) plans) \<and> row_id r \<notin> row_id ` set news" for r
    by (rule transferred_others [OF tr r(1)]) (use r(2) hashed_args(3) [OF assms(1) h(1)] h(2) pl in auto)
  have new: "n \<in> set rows' \<or> (\<exists>s' \<in> set rows'. row_id s' \<in> set (map (\<lambda>p. row_id (survivor p)) plans) \<and> index_key s' = index_key n)"
    if n: "n \<in> set everyone" for n
  proof (cases "\<exists>p \<in> set plans. row_id n = row_id (duplicate p)")
    case True
    then obtain p where p: "p \<in> set plans" "row_id n = row_id (duplicate p)" by blast
    have "distinct (map row_id everyone)" using hashed_args(1) [OF assms(1) h(1)] by (simp add: move_args_def)
    then have "n = duplicate p" using same_row [of everyone n "duplicate p"] n p pl h(2) by blast
    with moved [OF p(1)] p(1) show ?thesis by (auto simp: takes_place_def)
  next
    case False
    have "n \<in> set (map (latest everyone) rows)" using hashed_args(1) [OF assms(1) h(1)] n by (auto simp: move_args_def)
    moreover have "row_id n \<noteq> row_id (survivor p)" if p: "p \<in> set plans" for p
    proof
      assume e: "row_id n = row_id (survivor p)"
      obtain m where m: "m \<in> set news" "rehashed m n" using list_all2_in_set2 [OF h(1) n] by blast
      have "m \<in> set rows" "row_library m = lib" "distinct (map row_id rows)" using assms(1) m(1) by (auto simp: move_args_def table_ok_def)
      then have "m = survivor p" using same_row [of rows m "survivor p"] pl p e rehashed_columns(1) [OF m(2)] by simp
      with \<open>row_library m = lib\<close> pl p show False by (auto simp: tombstone_elsewhere_def)
    qed
    ultimately show ?thesis using tr False unfolding transferred_def by blast
  qed
  have "\<exists>t \<in> set rows. \<exists>n \<in> set everyone. \<exists>s' \<in> set rows'. row_id t = i \<and> tombstone_elsewhere agent lib t
        \<and> only_match agent lib rows everyone t n \<and> takes_place t n s' \<and> row_status s' = active \<and> row_deleted_at s' = None"
    if "i \<in> set (map (\<lambda>p. row_id (survivor p)) plans)" for i
  proof -
    from that obtain p where p: "p \<in> set plans" "i = row_id (survivor p)" by auto
    from moved [OF p(1)] obtain s' where "s' \<in> set rows'" "takes_place (survivor p) (duplicate p) s'" "row_status s' = active" "row_deleted_at s' = None" by blast
    moreover have "survivor p \<in> set rows" "duplicate p \<in> set everyone" "tombstone_elsewhere agent lib (survivor p)" using pl p(1) h(2) by blast+
    moreover have "only_match agent lib rows everyone (survivor p) (duplicate p)" using om p(1) by blast
    ultimately show ?thesis unfolding p(2)
      by (intro bexI [of _ "survivor p"] bexI [of _ "duplicate p"] bexI [of _ s']) simp_all
  qed
  moreover have "table_ok rows'" using tr by (simp add: transferred_def)
  moreover have "distinct (map (\<lambda>p. row_id (survivor p)) plans)" using ok by (simp add: plans_ok_def)
  ultimately show ?thesis using run other new hc
    by (intro exI [of _ rows'] exI [of _ ambiguous] exI [of _ "map (\<lambda>p. row_id (survivor p)) plans"] exI [of _ everyone]) simp
qed

definition lost_row :: ItemRow where
  "lost_row = sample_row\<lparr>row_id := 3, row_library := 8, row_status := missing, row_deleted_at := Some 40\<rparr>"

theorem cross_move_needs_evidence_witness:
  "\<exists>rows' a. detect_cross_library_moves zero_digest sample_hashers no_files (\<lambda>_. False) 99 [fresh_file_row] 9 0 False [lost_row, fresh_file_row]
      = Inr (rows', 1, a, [3]) \<and> table_ok rows' \<and> (\<exists>s' \<in> set rows'. takes_place lost_row fresh_file_row s' \<and> row_status s' = active)"
proof -
  have args: "move_args XMOVE_PENDING 9 [] [fresh_file_row] [lost_row, fresh_file_row]"
    by (simp add: move_args_def table_ok_def unique_rel_def index_key_def unmarked_def lost_row_def sample_row_defs XMOVE_PENDING_def startswith_def)
  have enc: "\<forall>n \<in> set [fresh_file_row]. encodable zero_digest 9 n" by (simp add: fresh_encodable)
  from cross_move_needs_evidence [OF args enc, of sample_hashers no_files "\<lambda>_. False" 99 0 False]
  obtain rows' a ids hashed where r: "detect_cross_library_moves zero_digest sample_hashers no_files (\<lambda>_. False) 99 [fresh_file_row] 9 0 False [lost_row, fresh_file_row]
      = Inr (rows', length ids, a, ids)" "table_ok rows'"
    "\<forall>i \<in> set ids. \<exists>t \<in> set [lost_row, fresh_file_row]. \<exists>n \<in> set hashed. \<exists>s' \<in> set rows'. row_id t = i
      \<and> tombstone_elsewhere (\<lambda>_. False) 9 t \<and> only_match (\<lambda>_. False) 9 [lost_row, fresh_file_row] hashed t n
      \<and> takes_place t n s' \<and> row_status s' = active \<and> row_deleted_at s' = None"
    and hc: "list_all2 (hashed_for_cross sample_hashers no_files 0 False (tomb_sizes (\<lambda>_. False) 9 [lost_row, fresh_file_row])) [fresh_file_row] hashed" by blast
  have size: "row_size fresh_file_row \<in> tomb_sizes (\<lambda>_. False) 9 [lost_row, fresh_file_row]"
    by (simp add: tomb_sizes_def tombstone_elsewhere_def lost_row_def sample_row_defs)
  have "ensure_hashes sample_hashers no_files 0 False fresh_file_row = Inr fresh_file_row"
    by (simp add: ensure_hashes_def move_key_def sample_row_defs)
  then have hashed: "hashed = [fresh_file_row]" using hc size by (auto simp: list_all2_Cons1 hashed_for_cross_def)
  have "hash_matching (ensure_hashes sample_hashers no_files 0 False) (row_size ` {lost_row}) [fresh_file_row] = Inr ([fresh_file_row], [fresh_file_row])"
    by (simp add: ensure_hashes_def move_key_def lost_row_def sample_row_defs)
  moreover have "filter (\<lambda>r. tombstone_elsewhere (\<lambda>_. False) 9 r \<and> row_quick_hash r \<noteq> None) [lost_row, fresh_file_row] = [lost_row]"
    "filter (\<lambda>r. tombstone_elsewhere (\<lambda>_. False) 9 r \<and> row_quick_hash r \<in> row_quick_hash ` set [fresh_file_row]) [lost_row, fresh_file_row] = [lost_row]"
    by (simp_all add: tombstone_elsewhere_def lost_row_def sample_row_defs)
  moreover have "fst (claim_tombs (buckets [lost_row]) [fresh_file_row] [] [fresh_file_row]) = [\<lparr>survivor = lost_row, duplicate = fresh_file_row\<rparr>]"
    by (simp add: buckets_def bucket_add_def move_key_def lost_row_def sample_row_defs match_def content_match_def rival_news_def)
  moreover have "row_id lost_row = 3" by (simp add: lost_row_def)
  ultimately have ids: "ids = [3]" using r(1)
    by (auto simp only: detect_cross_library_moves_def case_prod_unfold Let_def bind_res_Inr fst_conv snd_conv sum.case list.map
        set_simps image_is_empty insert_not_empty if_False Inr_inject prod.inject list.distinct sum.inject length_map MovePlan.simps split: if_splits)
  from r(3) have "\<exists>s' \<in> set rows'. takes_place lost_row fresh_file_row s' \<and> row_status s' = active"
    unfolding ids hashed by (auto simp: tombstone_elsewhere_def sample_row_defs)
  with r(1,2) ids show ?thesis by auto
qed

end
