(* ===== verification/Sidecars.thy ===== *)
theory Sidecars
  imports Moves
begin

text \<open>
  Sidecar files: \<open>backend/filearr/sidecar.py\<close>, which tells by the shape of a path whether a file decorates
  another one, and the linking of \<open>backend/filearr/tasks/associate.py\<close>, which points every sidecar of a library at
  its parent item. Lower-casing a string is a parameter. Folding the contents of NFO and JRiver files into
  the parent's metadata is not modelled.
\<close>

section \<open>Paths\<close>

text \<open>\<open>os.path.dirname\<close>, \<open>os.path.basename\<close> and \<open>os.path.splitext\<close> of \<open>posixpath\<close>.\<close>

definition basename :: "codepoints \<Rightarrow> codepoints" where
  "basename p = rev (takeWhile (\<lambda>c. c \<noteq> Rbac.slash) (rev p))"

definition dirname :: "codepoints \<Rightarrow> codepoints" where
  "dirname p = (let head = take (length p - length (basename p)) p in
     if list_all (\<lambda>c. c = Rbac.slash) head then head else rstrip (\<lambda>c. c = Rbac.slash) head)"

definition dot :: nat where "dot = 46"

definition splitext_name :: "codepoints \<Rightarrow> codepoints \<times> codepoints" where
  "splitext_name name =
     (let suf = takeWhile (\<lambda>c. c \<noteq> dot) (rev name);
          stem = take (length name - length suf - 1) name
      in if dot \<in> set name \<and> \<not> list_all (\<lambda>c. c = dot) stem then (stem, drop (length stem) name) else (name, []))"

definition endswith :: "'a list \<Rightarrow> 'a list \<Rightarrow> bool" where
  "endswith s t \<longleftrightarrow> length t \<le> length s \<and> drop (length s - length t) s = t"

section \<open>Which files are sidecars\<close>

text \<open>\<open>str.lower\<close> is a parameter: it depends on the Unicode tables of the interpreter.\<close>

type_synonym lowercase = "codepoints \<Rightarrow> codepoints"

definition DIR_ARTWORK_NAMES :: "codepoints set" where
  "DIR_ARTWORK_NAMES = cps ` {
     ''poster.jpg'', ''poster.png'', ''poster.jpeg'', ''folder.jpg'', ''folder.png'', ''folder.jpeg'',
     ''cover.jpg'', ''cover.png'', ''cover.jpeg'', ''fanart.jpg'', ''fanart.png'', ''fanart.jpeg'',
     ''banner.jpg'', ''banner.png'', ''banner.jpeg'', ''clearart.jpg'', ''clearart.png'',
     ''clearlogo.jpg'', ''clearlogo.png'', ''landscape.jpg'', ''landscape.png'', ''thumb.jpg'', ''thumb.png'',
     ''logo.jpg'', ''logo.png'', ''disc.jpg'', ''disc.png'', ''season-all-poster.jpg'', ''season-all-banner.jpg''}"

definition ALWAYS_SIDECAR_EXTS :: "codepoints set" where
  "ALWAYS_SIDECAR_EXTS = {cps ''.nfo''}"

definition STEM_SIDECAR_EXTS :: "(codepoints \<times> string) list" where
  "STEM_SIDECAR_EXTS = [(cps ''.xmp'', ''xmp''), (cps ''.thm'', ''artwork'')]"

definition STEM_SUFFIXES :: "codepoints list" where
  "STEM_SUFFIXES = map cps [''-thumb'', ''-poster'', ''-fanart'', ''-banner'', ''-landscape'', ''-clearart'',
     ''-clearlogo'', ''-disc'', ''-logo'']"

definition ART_EXTS :: "codepoints set" where
  "ART_EXTS = cps ` {''.jpg'', ''.jpeg'', ''.png'', ''.webp'', ''.tbn''}"

record SidecarInfo =
  kind :: string
  parent_stem :: "codepoints option"
  directory :: codepoints

definition split_path :: "lowercase \<Rightarrow> codepoints \<Rightarrow> codepoints \<times> codepoints \<times> codepoints \<times> codepoints" where
  "split_path lw rel = (let fname = basename rel; (stem, ext) = splitext_name fname in (dirname rel, fname, stem, lw ext))"

text \<open>\<open>stem[: -len(suffix)]\<close>; an empty stem stands for no stem.\<close>

definition cut_suffix :: "codepoints \<Rightarrow> nat \<Rightarrow> codepoints option" where
  "cut_suffix stem n = (let base = take (length stem - n) stem in if base = [] then None else Some base)"

definition classify_artwork :: "lowercase \<Rightarrow> codepoints \<Rightarrow> codepoints \<Rightarrow> codepoints \<Rightarrow> SidecarInfo option" where
  "classify_artwork lw dir fname stem =
     (if lw fname \<in> DIR_ARTWORK_NAMES then Some \<lparr>kind = ''artwork'', parent_stem = None, directory = dir\<rparr>
      else case find (\<lambda>suf. endswith (lw stem) suf) STEM_SUFFIXES of
             Some suf \<Rightarrow> Some \<lparr>kind = ''artwork'', parent_stem = cut_suffix stem (length suf), directory = dir\<rparr>
           | None \<Rightarrow>
               if startswith (lw stem) (cps ''season'') \<and> (contains (cps ''poster'') (lw stem) \<or> contains (cps ''banner'') (lw stem))
               then Some \<lparr>kind = ''artwork'', parent_stem = None, directory = dir\<rparr>
               else None)"

definition classify :: "lowercase \<Rightarrow> codepoints \<Rightarrow> SidecarInfo option" where
  "classify lw rel = (case split_path lw rel of (dir, fname, stem, ext) \<Rightarrow>
     if endswith (lw fname) (cps ''_jrsidecar.xml'')
     then Some \<lparr>kind = ''jriver'',
            parent_stem = (if endswith (lw stem) (cps ''_jrsidecar'') then cut_suffix stem (length ''_JRSidecar'') else None),
            directory = dir\<rparr>
     else if ext \<in> ALWAYS_SIDECAR_EXTS
     then Some \<lparr>kind = ''nfo'',
            parent_stem = (if lw stem \<in> cps ` {''movie'', ''tvshow'', ''season'', ''album'', ''artist''} then None else Some stem),
            directory = dir\<rparr>
     else case map_of STEM_SIDECAR_EXTS ext of
            Some k \<Rightarrow> if stem \<noteq> [] then Some \<lparr>kind = k, parent_stem = Some stem, directory = dir\<rparr>
                      else if ext \<in> ART_EXTS then classify_artwork lw dir fname stem else None
          | None \<Rightarrow> if ext \<in> ART_EXTS then classify_artwork lw dir fname stem else None)"

section \<open>Which item a sidecar belongs to\<close>

record LightItem =
  li_id :: uuid
  li_rel_path :: codepoints
  li_category :: "string option"
  li_size :: nat
  li_sidecar_of :: "uuid option"

definition PRIMARY_CATEGORIES :: "string set" where
  "PRIMARY_CATEGORIES = {''video'', ''audio'', ''image'', ''document'', ''three-d-cad''}"

definition is_primary :: "LightItem \<Rightarrow> bool" where
  "is_primary it = (case li_category it of None \<Rightarrow> False | Some c \<Rightarrow> c \<in> PRIMARY_CATEGORIES)"

definition dir_of :: "codepoints \<Rightarrow> codepoints" where "dir_of rel = dirname rel"

definition stem_of :: "lowercase \<Rightarrow> codepoints \<Rightarrow> codepoints" where
  "stem_of lw rel = lw (fst (splitext_name (basename rel)))"

type_synonym stem_index = "((codepoints \<times> codepoints) \<times> LightItem) list"

text \<open>The first pass: candidates by directory and stem, and the primary its of each directory.\<close>

definition index_stem :: "lowercase \<Rightarrow> stem_index \<Rightarrow> LightItem \<Rightarrow> stem_index" where
  "index_stem lw d it =
     (if classify lw (li_rel_path it) \<noteq> None then d
      else let key = (dir_of (li_rel_path it), stem_of lw (li_rel_path it)) in
           case map_of d key of
             None \<Rightarrow> dict_set key it d
           | Some old \<Rightarrow> if is_primary it \<and> \<not> is_primary old then dict_set key it d else d)"

definition by_dir_stem :: "lowercase \<Rightarrow> LightItem list \<Rightarrow> stem_index" where
  "by_dir_stem lw its = foldl (index_stem lw) [] its"

definition dir_primaries :: "lowercase \<Rightarrow> LightItem list \<Rightarrow> codepoints \<Rightarrow> LightItem list" where
  "dir_primaries lw its dir =
     filter (\<lambda>it. classify lw (li_rel_path it) = None \<and> is_primary it \<and> dir_of (li_rel_path it) = dir) its"

definition primary_for :: "lowercase \<Rightarrow> LightItem list \<Rightarrow> codepoints \<Rightarrow> bool \<Rightarrow> LightItem option" where
  "primary_for lw its dir directory_level = (case dir_primaries lw its dir of
       [] \<Rightarrow> None
     | c # cs \<Rightarrow>
         (let best = max_by (\<lambda>i. li_size i # li_rel_path i) c cs in
          if directory_level \<and> cs \<noteq> []
          then let runner_up = fold max (map li_size (filter (\<lambda>i. li_id i \<noteq> li_id best) (c # cs))) 0
               in if runner_up \<noteq> 0 \<and> li_size best < 2 * runner_up then None else Some best
          else Some best))"

definition find_parent :: "lowercase \<Rightarrow> LightItem list \<Rightarrow> SidecarInfo \<Rightarrow> LightItem option" where
  "find_parent lw its info = (case parent_stem info of
       None \<Rightarrow> primary_for lw its (directory info) True
     | Some stem \<Rightarrow>
         (case map_of (by_dir_stem lw its) (directory info, lw stem) of
            Some p \<Rightarrow> Some p
          | None \<Rightarrow>
              (let trimmed = fst (splitext_name stem);
                   second = (if trimmed \<noteq> [] \<and> trimmed \<noteq> stem then map_of (by_dir_stem lw its) (directory info, lw trimmed) else None)
               in case second of Some p \<Rightarrow> Some p | None \<Rightarrow> primary_for lw its (directory info) False)))"

definition resolve_links :: "lowercase \<Rightarrow> LightItem list \<Rightarrow> (uuid \<times> uuid option) list" where
  "resolve_links lw its = concat (map (\<lambda>it. case classify lw (li_rel_path it) of
       None \<Rightarrow> []
     | Some info \<Rightarrow> [(li_id it, case find_parent lw its info of
           None \<Rightarrow> None
         | Some p \<Rightarrow> if li_id p \<noteq> li_id it then Some (li_id p) else None)]) its)"

definition light :: "ItemRow \<Rightarrow> LightItem" where
  "light r = \<lparr>li_id = row_id r, li_rel_path = row_rel_path r, li_category = row_category r,
     li_size = (case row_size r of None \<Rightarrow> 0 | Some n \<Rightarrow> nat n), li_sidecar_of = row_sidecar_of r\<rparr>"

definition active_light :: "uuid \<Rightarrow> ItemRow list \<Rightarrow> LightItem list" where
  "active_light lib rows = map light (filter (\<lambda>r. row_library r = lib \<and> row_status r = active) rows)"

text \<open>The links that differ from the stored column, and the table with them stored.\<close>

definition changed_links :: "lowercase \<Rightarrow> LightItem list \<Rightarrow> (uuid \<times> uuid option) list" where
  "changed_links lw ls = filter (\<lambda>(sid, pid). map_of (map (\<lambda>l. (li_id l, li_sidecar_of l)) ls) sid \<noteq> Some pid) (resolve_links lw ls)"

definition store_links :: "(uuid \<times> uuid option) list \<Rightarrow> ItemRow list \<Rightarrow> ItemRow list" where
  "store_links ch rows = map (\<lambda>r. case map_of ch (row_id r) of None \<Rightarrow> r | Some pid \<Rightarrow> r\<lparr>row_sidecar_of := pid\<rparr>) rows"

record link_stats =
  sidecars :: nat
  linked :: nat
  changed :: "uuid list"

definition associate_sidecars_light :: "lowercase \<Rightarrow> uuid \<Rightarrow> ItemRow list \<Rightarrow> ItemRow list \<times> link_stats" where
  "associate_sidecars_light lw lib rows =
     (let ls = active_light lib rows; links = resolve_links lw ls; ch = changed_links lw ls
      in (store_links ch rows,
          \<lparr>sidecars = length links, linked = length (filter (\<lambda>l. snd l \<noteq> None) links), changed = map fst ch\<rparr>))"

section \<open>Links point from sidecars to items\<close>

lemma by_dir_stem_entry:
  "map_of (by_dir_stem lw its) k = Some p \<Longrightarrow>
     p \<in> set its \<and> classify lw (li_rel_path p) = None \<and> k = (dir_of (li_rel_path p), stem_of lw (li_rel_path p))"
proof (induction its rule: rev_induct)
  case (snoc it its)
  then show ?case
    by (auto simp: by_dir_stem_def index_stem_def Let_def split: if_splits option.splits)
qed (simp add: by_dir_stem_def)

lemma fold_max_ge: "x \<in> set xs \<Longrightarrow> x \<le> fold max xs (a::nat)" "a \<le> fold max xs a"
proof (induction xs arbitrary: a)
  case (Cons y ys)
  { case 1
    then show ?case using Cons.IH(1) [of "max y a"] Cons.IH(2) [of "max y a"] by auto
  next
    case 2
    show ?case using Cons.IH(2) [of "max y a"] by simp }
qed auto

lemma primary_for_entry:
  assumes "primary_for lw its dir lvl = Some p"
  shows "p \<in> set (dir_primaries lw its dir)"
    and "lvl \<Longrightarrow> q \<in> set (dir_primaries lw its dir) \<Longrightarrow> li_id q \<noteq> li_id p \<Longrightarrow> 2 * li_size q \<le> li_size p"
proof -
  obtain c cs where c: "dir_primaries lw its dir = c # cs"
    using assms by (auto simp: primary_for_def split: list.splits)
  let ?best = "max_by (\<lambda>i. li_size i # li_rel_path i) c cs"
  have p: "p = ?best" using assms by (auto simp: primary_for_def c Let_def split: if_splits)
  then show "p \<in> set (dir_primaries lw its dir)" using max_by_in [of _ c cs] by (simp only: c)
  assume lvl: lvl and q: "q \<in> set (dir_primaries lw its dir)" "li_id q \<noteq> li_id p"
  let ?others = "map li_size (filter (\<lambda>i. li_id i \<noteq> li_id ?best) (c # cs))"
  have "cs \<noteq> []" using p q c by auto
  then have dom: "fold max ?others 0 = 0 \<or> 2 * fold max ?others 0 \<le> li_size p"
    using assms lvl by (auto simp only: primary_for_def c Let_def list.case p not_less split: if_splits)
  have "li_size q \<in> set ?others" using q by (simp only: c p set_map set_filter) blast
  then have "li_size q \<le> fold max ?others 0" by (rule fold_max_ge)
  with dom show "2 * li_size q \<le> li_size p" by linarith
qed

lemma in_dir_primaries:
  "p \<in> set (dir_primaries lw its dir) \<longleftrightarrow> p \<in> set its \<and> classify lw (li_rel_path p) = None \<and> is_primary p \<and> dir_of (li_rel_path p) = dir"
  by (auto simp: dir_primaries_def)

lemma find_parent_entry:
  assumes "find_parent lw its info = Some p"
  shows "p \<in> set its" "classify lw (li_rel_path p) = None" "dir_of (li_rel_path p) = directory info"
    and "parent_stem info = None \<Longrightarrow> q \<in> set (dir_primaries lw its (directory info)) \<Longrightarrow> li_id q \<noteq> li_id p \<Longrightarrow> 2 * li_size q \<le> li_size p"
proof -
  have "p \<in> set its \<and> classify lw (li_rel_path p) = None \<and> dir_of (li_rel_path p) = directory info"
    using assms by (auto simp: find_parent_def Let_def in_dir_primaries dest!: by_dir_stem_entry primary_for_entry(1)
        split: option.splits if_splits)
  then show "p \<in> set its" "classify lw (li_rel_path p) = None" "dir_of (li_rel_path p) = directory info" by auto
  show "2 * li_size q \<le> li_size p" if "parent_stem info = None" "q \<in> set (dir_primaries lw its (directory info))" "li_id q \<noteq> li_id p"
    using assms primary_for_entry(2) [of lw its "directory info" True p q] that by (simp add: find_parent_def)
qed

lemma classify_directory: "classify lw rel = Some info \<Longrightarrow> directory info = dir_of rel"
  by (auto simp: classify_def classify_artwork_def split_path_def dir_of_def Let_def case_prod_unfold split: if_splits option.splits)

text \<open>The link of a sidecar.\<close>

definition link_of :: "lowercase \<Rightarrow> LightItem list \<Rightarrow> LightItem \<Rightarrow> SidecarInfo \<Rightarrow> uuid option" where
  "link_of lw its it info = (case find_parent lw its info of
     None \<Rightarrow> None | Some p \<Rightarrow> if li_id p \<noteq> li_id it then Some (li_id p) else None)"

lemma resolve_links_eq:
  "resolve_links lw its = map (\<lambda>it. (li_id it, link_of lw its it (the (classify lw (li_rel_path it)))))
     (filter (\<lambda>it. classify lw (li_rel_path it) \<noteq> None) its)"
proof -
  have "concat (map (\<lambda>it. case classify lw (li_rel_path it) of None \<Rightarrow> [] | Some info \<Rightarrow> [(li_id it, link_of lw its it info)]) xs)
    = map (\<lambda>it. (li_id it, link_of lw its it (the (classify lw (li_rel_path it))))) (filter (\<lambda>it. classify lw (li_rel_path it) \<noteq> None) xs)" for xs
    by (induction xs) (auto split: option.split)
  then show ?thesis by (simp only: resolve_links_def link_of_def)
qed

lemma map_of_links:
  assumes "distinct (map li_id its)" "it \<in> set its"
  shows "map_of (resolve_links lw its) (li_id it)
    = (case classify lw (li_rel_path it) of None \<Rightarrow> None | Some info \<Rightarrow> Some (link_of lw its it info))"
proof -
  let ?sc = "filter (\<lambda>it. classify lw (li_rel_path it) \<noteq> None) its"
  have inj: "li_id x = li_id it \<longleftrightarrow> x = it" if "x \<in> set its" for x using assms that by (auto simp: distinct_map inj_on_def)
  show ?thesis
  proof (cases "classify lw (li_rel_path it)")
    case None
    have "li_id it \<notin> li_id ` set ?sc"
    proof
      assume "li_id it \<in> li_id ` set ?sc"
      then obtain x where x: "x \<in> set its" "classify lw (li_rel_path x) \<noteq> None" "li_id x = li_id it" by auto
      with inj [OF x(1)] None show False by simp
    qed
    then show ?thesis using None by (simp add: resolve_links_eq map_of_eq_None_iff image_image)
  next
    case (Some info)
    have "distinct (map fst (resolve_links lw its))" using assms(1) by (simp add: resolve_links_eq comp_def distinct_map_filter)
    moreover have "(li_id it, link_of lw its it info) \<in> set (resolve_links lw its)" using assms(2) Some by (force simp: resolve_links_eq)
    ultimately show ?thesis using Some by simp
  qed
qed

text \<open>Storing the changed links is storing all links.\<close>

definition relinked :: "(uuid \<times> uuid option) list \<Rightarrow> ItemRow \<Rightarrow> ItemRow" where
  "relinked links r = (case map_of links (row_id r) of None \<Rightarrow> r | Some pid \<Rightarrow> r\<lparr>row_sidecar_of := pid\<rparr>)"

definition in_library :: "uuid \<Rightarrow> ItemRow \<Rightarrow> bool" where
  "in_library lib r \<longleftrightarrow> row_library r = lib \<and> row_status r = active"

lemma active_light_eq: "active_light lib rows = map light (filter (in_library lib) rows)"
  by (simp add: active_light_def in_library_def [abs_def])

lemma light_simps [simp]: "li_id (light r) = row_id r" "li_rel_path (light r) = row_rel_path r" "li_sidecar_of (light r) = row_sidecar_of r"
  by (simp_all add: light_def)

lemma distinct_light: "distinct (map row_id rows) \<Longrightarrow> distinct (map li_id (active_light lib rows))"
  by (simp add: active_light_eq comp_def distinct_map_filter)

lemma links_in_library:
  assumes "distinct (map row_id rows)" "r \<in> set rows" "map_of (resolve_links lw (active_light lib rows)) (row_id r) = Some pid"
  shows "in_library lib r" "map_of (map (\<lambda>l. (li_id l, li_sidecar_of l)) (active_light lib rows)) (row_id r) = Some (row_sidecar_of r)"
proof -
  have "row_id r \<in> li_id ` set (active_light lib rows)"
    using map_of_SomeD [OF assms(3)] by (force simp: resolve_links_eq)
  then obtain s where s: "s \<in> set rows" "in_library lib s" "row_id s = row_id r" by (auto simp: active_light_eq)
  then have "s = r" using same_row [OF assms(1) s(1) assms(2)] by simp
  then show l: "in_library lib r" using s(2) by simp
  have "distinct (map fst (map (\<lambda>l. (li_id l, li_sidecar_of l)) (active_light lib rows)))"
    using distinct_light [OF assms(1), of lib] by (simp add: comp_def)
  moreover have "(row_id r, row_sidecar_of r) \<in> set (map (\<lambda>l. (li_id l, li_sidecar_of l)) (active_light lib rows))"
    using l assms(2) by (force simp: active_light_eq)
  ultimately show "map_of (map (\<lambda>l. (li_id l, li_sidecar_of l)) (active_light lib rows)) (row_id r) = Some (row_sidecar_of r)"
    by (rule map_of_is_SomeI)
qed

lemma map_of_filter_keys:
  assumes "distinct (map fst xs)"
  shows "map_of (filter P xs) k = (case map_of xs k of None \<Rightarrow> None | Some v \<Rightarrow> if P (k, v) then Some v else None)"
  using assms by (induction xs) (auto split: option.splits simp: map_of_eq_None_iff rev_image_eqI)

lemma store_changed:
  assumes "distinct (map row_id rows)"
  shows "store_links (changed_links lw (active_light lib rows)) rows = map (relinked (resolve_links lw (active_light lib rows))) rows"
proof -
  let ?ls = "active_light lib rows" let ?links = "resolve_links lw ?ls"
  have d: "distinct (map fst ?links)" using distinct_light [OF assms, of lib] by (simp add: resolve_links_eq comp_def distinct_map_filter)
  have "(case map_of (changed_links lw ?ls) (row_id r) of None \<Rightarrow> r | Some pid \<Rightarrow> r\<lparr>row_sidecar_of := pid\<rparr>) = relinked ?links r"
    if r: "r \<in> set rows" for r
  proof (cases "map_of ?links (row_id r)")
    case None
    then show ?thesis by (simp add: changed_links_def map_of_filter_keys [OF d] relinked_def)
  next
    case (Some pid)
    with links_in_library(2) [OF assms r Some] show ?thesis
      by (simp add: changed_links_def map_of_filter_keys [OF d] relinked_def)
  qed
  then show ?thesis by (simp add: store_links_def)
qed

text \<open>The links do not depend on the stored column, so a second pass changes nothing.\<close>

definition blank :: "LightItem \<Rightarrow> LightItem" where "blank l = l\<lparr>li_sidecar_of := None\<rparr>"

lemma blank_simps [simp]:
  "li_id (blank l) = li_id l" "li_rel_path (blank l) = li_rel_path l" "li_size (blank l) = li_size l" "is_primary (blank l) = is_primary l"
  by (simp_all add: blank_def is_primary_def)

lemma dict_set_map: "dict_set k (f v) (map (\<lambda>(k, v). (k, f v)) d) = map (\<lambda>(k, v). (k, f v)) (dict_set k v d)"
  by (induction d) auto

lemma by_dir_stem_blank: "by_dir_stem lw (map blank its) = map (\<lambda>(k, v). (k, blank v)) (by_dir_stem lw its)"
  by (induction its rule: rev_induct)
    (auto simp: by_dir_stem_def index_stem_def Let_def map_of_map dict_set_map split: option.splits)

lemma max_by_map: "(\<And>x. k (f x) = k x) \<Longrightarrow> max_by k (f b) (map f xs) = f (max_by k b xs)"
proof (induction xs arbitrary: b)
  case (Cons x xs)
  then show ?case by (cases "k b < k x") simp_all
qed simp

lemma dir_primaries_blank: "dir_primaries lw (map blank its) dir = map blank (dir_primaries lw its dir)"
  by (simp add: dir_primaries_def filter_map comp_def)

lemma primary_for_blank: "primary_for lw (map blank its) dir lvl = map_option blank (primary_for lw its dir lvl)"
proof (cases "dir_primaries lw its dir")
  case (Cons c cs)
  have best: "max_by (\<lambda>i. li_size i # li_rel_path i) (blank c) (map blank cs) = blank (max_by (\<lambda>i. li_size i # li_rel_path i) c cs)"
    by (rule max_by_map) simp
  have "map li_size (filter (\<lambda>i. li_id i \<noteq> m) (map blank xs)) = map li_size (filter (\<lambda>i. li_id i \<noteq> m) xs)" for m xs
    by (simp add: filter_map comp_def)
  from this [of _ "c # cs"] best Cons show ?thesis
    by (simp only: primary_for_def dir_primaries_blank list.map list.case Let_def blank_simps map_is_Nil_conv) auto
qed (simp add: primary_for_def dir_primaries_blank)

lemma find_parent_blank: "find_parent lw (map blank its) info = map_option blank (find_parent lw its info)"
  by (auto simp: find_parent_def primary_for_blank by_dir_stem_blank map_of_map Let_def split: option.split)

lemma resolve_links_blank: "resolve_links lw (map blank its) = resolve_links lw its"
proof -
  have "link_of lw (map blank its) (blank it) info = link_of lw its it info" for it info
    by (auto simp: link_of_def find_parent_blank split: option.split)
  then show ?thesis by (simp add: resolve_links_eq filter_map comp_def)
qed

lemma relinked_simps [simp]:
  "row_id (relinked links r) = row_id r" "row_library (relinked links r) = row_library r" "row_status (relinked links r) = row_status r"
  "row_rel_path (relinked links r) = row_rel_path r" "in_library lib (relinked links r) = in_library lib r"
  "blank (light (relinked links r)) = blank (light r)"
  by (auto simp: relinked_def in_library_def blank_def light_def split: option.split)

lemma links_after:
  "resolve_links lw (active_light lib (map (relinked links) rows)) = resolve_links lw (active_light lib rows)"
proof -
  have "map blank (active_light lib (map (relinked links) rows)) = map blank (active_light lib rows)"
    by (simp add: active_light_eq filter_map comp_def)
  then show ?thesis using resolve_links_blank by metis
qed

lemma relinked_twice [simp]: "relinked links (relinked links r) = relinked links r"
  by (auto simp: relinked_def split: option.split)

lemma associate_rows:
  "distinct (map row_id rows) \<Longrightarrow>
     fst (associate_sidecars_light lw lib rows) = map (relinked (resolve_links lw (active_light lib rows))) rows"
  by (simp add: associate_sidecars_light_def Let_def store_changed)

lemma associate_twice:
  assumes "distinct (map row_id rows)" and run: "rows' = fst (associate_sidecars_light lw lib rows)"
  shows "fst (associate_sidecars_light lw lib rows') = rows'" "changed (snd (associate_sidecars_light lw lib rows')) = []"
proof -
  let ?links = "resolve_links lw (active_light lib rows)"
  have r': "rows' = map (relinked ?links) rows" using associate_rows [OF assms(1)] by (simp add: run)
  then have d: "distinct (map row_id rows')" using assms(1) by (simp add: comp_def)
  have links: "resolve_links lw (active_light lib rows') = ?links" by (simp add: r' links_after)
  show "fst (associate_sidecars_light lw lib rows') = rows'" by (simp only: associate_rows [OF d] links) (simp add: r')
  have "map_of (map (\<lambda>l. (li_id l, li_sidecar_of l)) (active_light lib rows')) sid = Some pid" if l: "(sid, pid) \<in> set ?links" for sid pid
  proof -
    have "distinct (map fst ?links)" using distinct_light [OF assms(1), of lib] by (simp add: resolve_links_eq comp_def distinct_map_filter)
    then have m: "map_of ?links sid = Some pid" using l by simp
    obtain r where r: "r \<in> set rows" "row_id r = sid" using l by (auto simp: resolve_links_eq active_light_eq)
    have "row_sidecar_of (relinked ?links r) = pid" using m r by (simp add: relinked_def)
    then show ?thesis
      using links_in_library(2) [OF d, of "relinked ?links r" lw lib pid] links m r by (simp add: r')
  qed
  then show "changed (snd (associate_sidecars_light lw lib rows')) = []"
    by (auto simp: associate_sidecars_light_def Let_def changed_links_def links filter_empty_conv)
qed

text \<open>What a link of a row may be: nothing, or an active item of the library in the same directory that is no
  sidecar; for artwork of a whole directory the item must be twice as large as every other primary item there.\<close>

definition link_ok :: "lowercase \<Rightarrow> uuid \<Rightarrow> ItemRow list \<Rightarrow> ItemRow \<Rightarrow> uuid option \<Rightarrow> bool" where
  "link_ok lw lib rows r link = (case link of None \<Rightarrow> True | Some pid \<Rightarrow>
     (\<exists>p \<in> set rows. row_id p = pid \<and> in_library lib p \<and> classify lw (row_rel_path p) = None
        \<and> dir_of (row_rel_path p) = dir_of (row_rel_path r)
        \<and> (\<forall>info. classify lw (row_rel_path r) = Some info \<and> parent_stem info = None \<longrightarrow>
             (\<forall>q \<in> set rows. in_library lib q \<and> classify lw (row_rel_path q) = None \<and> is_primary (light q)
                \<and> dir_of (row_rel_path q) = dir_of (row_rel_path r) \<and> row_id q \<noteq> pid
                \<longrightarrow> 2 * li_size (light q) \<le> li_size (light p)))))"

lemma link_of_ok:
  assumes "r \<in> set rows" "classify lw (row_rel_path r) = Some info"
  shows "link_ok lw lib rows r (link_of lw (active_light lib rows) (light r) info)"
proof (cases "find_parent lw (active_light lib rows) info")
  case (Some l)
  note l = find_parent_entry [OF Some]
  have dir: "directory info = dir_of (row_rel_path r)" by (rule classify_directory [OF assms(2)])
  obtain p where p: "p \<in> set rows" "in_library lib p" "l = light p" using l(1) by (auto simp: active_light_eq)
  have dom: "2 * li_size (light q) \<le> li_size (light p)"
    if "parent_stem info = None" "q \<in> set rows" "in_library lib q" "classify lw (row_rel_path q) = None" "is_primary (light q)"
      "dir_of (row_rel_path q) = dir_of (row_rel_path r)" "row_id q \<noteq> row_id p" for q
    using l(4) [of "light q"] that p dir by (simp add: in_dir_primaries active_light_eq)
  show ?thesis using l(2,3) p dir assms(2) dom Some
    by (auto simp: link_ok_def link_of_def intro!: bexI [of _ p])
qed (simp add: link_ok_def link_of_def)

section \<open>Metadata from sidecar files\<close>

text \<open>\<open>associate_sidecars\<close> of a scan: the same links, then the NFO and JRiver files among the linked sidecars are read and
  folded into their parents. The parsers (\<open>nfo.py\<close>, \<open>jriver.py\<close>, which rest on an XML library) are a parameter that
  gives the parsed keys in order; both give \<open>title\<close> as text and \<open>year\<close> as a whole number, or not at all.\<close>

record sidecar_env =
  parse_sidecar :: "string \<Rightarrow> bytes \<Rightarrow> dict"
  read_sidecar :: "codepoints \<Rightarrow> bytes option"
  sidecar_priority :: bool

definition parse_pairs :: "lowercase \<Rightarrow> LightItem list \<Rightarrow> (uuid \<times> uuid \<times> string) list" where
  "parse_pairs lw ls = concat (map (\<lambda>(sid, link). case link of
       None \<Rightarrow> []
     | Some pid \<Rightarrow> (case map_of (map (\<lambda>l. (li_id l, li_rel_path l)) ls) sid of
           None \<Rightarrow> []
         | Some rel \<Rightarrow> (case classify lw rel of
               None \<Rightarrow> []
             | Some info \<Rightarrow> if kind info \<in> {''nfo'', ''jriver''} then [(sid, pid, kind info)] else []))) (resolve_links lw ls))"

definition merge_keys :: "dict \<Rightarrow> dict \<Rightarrow> dict" where
  "merge_keys d new = fold (\<lambda>(k, v). dict_set k v) new d"

definition put_title :: "bool \<Rightarrow> dict \<Rightarrow> item_identity \<Rightarrow> item_identity" where
  "put_title override parsed p = (case map_of parsed ''title'' of
       Some (JStr s) \<Rightarrow> if s \<noteq> [] \<and> (override \<or> title p = None \<or> title p = Some []) then p\<lparr>title := Some s\<rparr> else p
     | _ \<Rightarrow> p)"

definition put_year :: "bool \<Rightarrow> dict \<Rightarrow> item_identity \<Rightarrow> item_identity" where
  "put_year override parsed p = (case map_of parsed ''year'' of
       Some (JInt n) \<Rightarrow> if n \<noteq> 0 \<and> (override \<or> year p = None \<or> year p = Some 0) then p\<lparr>year := Some n\<rparr> else p
     | _ \<Rightarrow> p)"

definition put_ids :: "json option \<Rightarrow> item_identity \<Rightarrow> item_identity" where
  "put_ids ext p = (case ext of Some (JObj ids) \<Rightarrow> p\<lparr>external_ids := merge_keys (external_ids p) ids\<rparr> | _ \<Rightarrow> p)"

definition fold_parsed :: "bool \<Rightarrow> string \<Rightarrow> dict \<Rightarrow> item_identity \<Rightarrow> item_identity" where
  "fold_parsed override pre parsed p =
     (let rest = filter (\<lambda>kv. fst kv \<noteq> ''external_ids'') parsed;
          p1 = p\<lparr>item_metadata := merge_keys (item_metadata p) (map (\<lambda>(k, v). (pre @ k, v)) rest)\<rparr>
      in put_ids (map_of parsed ''external_ids'') (put_year override rest (put_title override rest p1)))"

record fold_state =
  fs_rows :: "ItemRow list"
  nfo_parsed :: nat
  jriver_parsed :: nat
  touched_parents :: "uuid list"

definition find_row :: "uuid \<Rightarrow> ItemRow list \<Rightarrow> ItemRow option" where
  "find_row k rows = find (\<lambda>r. row_id r = k) rows"

definition fold_sidecar :: "sidecar_env \<Rightarrow> uuid \<times> uuid \<times> string \<Rightarrow> fold_state \<Rightarrow> fold_state" where
  "fold_sidecar S = (\<lambda>(sid, pid, knd) st.
     case (find_row sid (fs_rows st), find_row pid (fs_rows st)) of
       (Some sidecar, Some parent) \<Rightarrow>
         (case read_sidecar S (row_path sidecar) of
            None \<Rightarrow> st
          | Some bs \<Rightarrow>
              let parsed = parse_sidecar S knd bs; pre = (if knd = ''nfo'' then ''nfo_'' else ''jr_'') in
              if parsed = [] then st
              else st\<lparr>fs_rows := update_row (parent\<lparr>row_identity := fold_parsed (sidecar_priority S) pre parsed (row_identity parent)\<rparr>) (fs_rows st),
                      nfo_parsed := nfo_parsed st + (if knd = ''nfo'' then 1 else 0),
                      jriver_parsed := jriver_parsed st + (if knd = ''nfo'' then 0 else 1),
                      touched_parents := (if pid \<in> set (touched_parents st) then touched_parents st else touched_parents st @ [pid])\<rparr>)
     | _ \<Rightarrow> st)"

text \<open>The column \<open>year\<close> is a 32-bit integer; the changed parents are flushed with the query of the next chunk and with
  the commit after the last one.\<close>

definition year_fits :: "item_identity \<Rightarrow> bool" where
  "year_fits p = (case year p of None \<Rightarrow> True | Some n \<Rightarrow> - (2 ^ 31) \<le> n \<and> n < 2 ^ 31)"

definition flushes :: "fold_state \<Rightarrow> bool" where
  "flushes st = list_all (\<lambda>r. row_id r \<in> set (touched_parents st) \<longrightarrow> year_fits (row_identity r)) (fs_rows st)"

datatype link_error = DataError

function fold_chunks :: "sidecar_env \<Rightarrow> (uuid \<times> uuid \<times> string) list \<Rightarrow> fold_state \<Rightarrow> link_error + fold_state" where
  "fold_chunks S ps st = (if ps = [] then Inr st
     else let st1 = fold (fold_sidecar S) (take 500 ps) st in
          if flushes st1 then fold_chunks S (drop 500 ps) st1 else Inl DataError)"
  by pat_completeness auto
termination by (relation "measure (\<lambda>(S, ps, st). length ps)") auto

declare fold_chunks.simps [simp del]

definition associate_sidecars :: "lowercase \<Rightarrow> sidecar_env \<Rightarrow> uuid \<Rightarrow> ItemRow list \<Rightarrow> link_error + (fold_state \<times> link_stats)" where
  "associate_sidecars lw S lib rows =
     (let (rows1, stats) = associate_sidecars_light lw lib rows in
      bind_res (fold_chunks S (parse_pairs lw (active_light lib rows)) \<lparr>fs_rows = rows1, nfo_parsed = 0, jriver_parsed = 0, touched_parents = []\<rparr>)
        (\<lambda>st. Inr (st, stats)))"

text \<open>What users wrote, which no sidecar changes.\<close>

definition user_data :: "item_identity \<Rightarrow> dict \<times> string list \<times> int" where
  "user_data p = (user_metadata p, tags p, first_seen p)"

text \<open>A row after the pass: only an active row of the library may change, and of it only the link, the title, the year, the
  external ids and the extracted metadata.\<close>

definition associated :: "uuid \<Rightarrow> ItemRow \<Rightarrow> ItemRow \<Rightarrow> bool" where
  "associated lib r r' \<longleftrightarrow> (if in_library lib r
     then r'\<lparr>row_sidecar_of := row_sidecar_of r, row_identity := row_identity r\<rparr> = r \<and> user_data (row_identity r') = user_data (row_identity r)
     else r' = r)"

lemma associated_refl: "associated lib r r"
  by (simp add: associated_def)

lemma associated_columns:
  assumes "associated lib r r'"
  shows "row_id r' = row_id r" "index_key r' = index_key r" "row_library r' = row_library r" "row_rel_path r' = row_rel_path r"
    "row_size r' = row_size r" "row_mtime r' = row_mtime r" "row_path r' = row_path r" "row_status r' = row_status r"
    "user_data (row_identity r') = user_data (row_identity r)"
proof -
  let ?r = "r'\<lparr>row_sidecar_of := row_sidecar_of r, row_identity := row_identity r\<rparr>"
  have "?r = r" "user_data (row_identity r') = user_data (row_identity r)" using assms by (auto simp: associated_def split: if_splits)
  moreover have "row_id ?r = row_id r'" "index_key ?r = index_key r'" "row_library ?r = row_library r'" "row_rel_path ?r = row_rel_path r'"
    "row_size ?r = row_size r'" "row_mtime ?r = row_mtime r'" "row_path ?r = row_path r'" "row_status ?r = row_status r'"
    by (simp_all add: index_key_def)
  ultimately show "row_id r' = row_id r" "index_key r' = index_key r" "row_library r' = row_library r" "row_rel_path r' = row_rel_path r"
    "row_size r' = row_size r" "row_mtime r' = row_mtime r" "row_path r' = row_path r" "row_status r' = row_status r"
    "user_data (row_identity r') = user_data (row_identity r)" by metis+
qed

lemma put_user:
  "user_data (put_title override parsed p) = user_data p" "user_data (put_year override parsed p) = user_data p" "user_data (put_ids ext p) = user_data p"
  by (simp_all add: put_title_def put_year_def put_ids_def user_data_def split: option.split json.split)

lemma fold_parsed_user: "user_data (fold_parsed override pre parsed p) = user_data p"
  by (simp add: fold_parsed_def Let_def put_user) (simp add: user_data_def)

lemma associated_described:
  assumes "associated lib r r'" "in_library lib r"
  shows "associated lib r (r'\<lparr>row_identity := fold_parsed override pre parsed (row_identity r')\<rparr>)"
  using assms by (simp add: associated_def fold_parsed_user)

text \<open>The parents of the sidecars to read are active items of the library.\<close>

definition parents_in :: "uuid \<Rightarrow> ItemRow list \<Rightarrow> (uuid \<times> uuid \<times> string) list \<Rightarrow> bool" where
  "parents_in lib rows ps = (\<forall>p \<in> set ps. \<forall>r \<in> set rows. row_id r = fst (snd p) \<longrightarrow> in_library lib r)"

lemma parse_pairs_parents:
  assumes "distinct (map row_id rows)"
  shows "parents_in lib rows (parse_pairs lw (active_light lib rows))"
proof -
  have "in_library lib r" if p: "p \<in> set (parse_pairs lw (active_light lib rows))" and r: "r \<in> set rows" "row_id r = fst (snd p)" for p r
  proof -
    from p obtain sid where "(sid, Some (fst (snd p))) \<in> set (resolve_links lw (active_light lib rows))"
      by (auto simp: parse_pairs_def split: option.splits if_splits)
    then obtain l info where "find_parent lw (active_light lib rows) info = Some l" "li_id l = fst (snd p)"
      by (auto simp: resolve_links_eq link_of_def split: option.splits if_splits)
    with find_parent_entry(1) obtain q where q: "q \<in> set rows" "in_library lib q" "row_id q = fst (snd p)"
      by (fastforce simp: active_light_eq light_def)
    then show ?thesis using same_row [OF assms r(1) q(1)] r(2) by simp
  qed
  then show ?thesis by (simp add: parents_in_def)
qed

lemma fold_sidecar_associated:
  assumes "list_all2 (associated lib) rows (fs_rows st)" "distinct (map row_id rows)" "parents_in lib rows [p]"
  shows "list_all2 (associated lib) rows (fs_rows (fold_sidecar S p st))"
proof -
  have ids: "map row_id (fs_rows st) = map row_id rows"
    using assms(1) by (auto simp: list_all2_conv_all_nth associated_columns(1) intro!: nth_equalityI)
  have d: "distinct (map row_id (fs_rows st))" using assms(2) by (simp add: ids)
  obtain sid pid knd where p: "p = (sid, pid, knd)" by (cases p) auto
  have upd: "list_all2 (associated lib) rows (update_row (q\<lparr>row_identity := fold_parsed ov pre parsed (row_identity q)\<rparr>) (fs_rows st))"
    if q: "find_row pid (fs_rows st) = Some q" for q ov pre parsed
  proof -
    have q': "q \<in> set (fs_rows st)" using q by (auto simp: find_row_def find_Some_iff)
    show ?thesis unfolding update_row_def list_all2_map2
    proof (rule list.rel_mono_strong [OF assms(1)])
      fix r r' assume r: "r' \<in> set (fs_rows st)" "associated lib r r'" and mem: "r \<in> set rows"
      show "associated lib r (if row_id r' = row_id (q\<lparr>row_identity := fold_parsed ov pre parsed (row_identity q)\<rparr>)
          then q\<lparr>row_identity := fold_parsed ov pre parsed (row_identity q)\<rparr> else r')"
      proof (cases "row_id r' = row_id q")
        case True
        then have "r' = q" using same_row [OF d r(1) q'] by blast
        moreover have "row_id r = pid" using True q associated_columns(1) [OF r(2)] by (auto simp: find_row_def find_Some_iff)
        then have "in_library lib r" using assms(3) mem p by (simp add: parents_in_def)
        ultimately show ?thesis using associated_described [OF r(2)] by simp
      qed (use r(2) in simp)
    qed
  qed
  show ?thesis using assms(1) upd by (auto simp: p fold_sidecar_def Let_def split: option.split)
qed

lemma fold_chunks_associated:
  assumes "fold_chunks S ps st = Inr st'" "list_all2 (associated lib) rows (fs_rows st)" "distinct (map row_id rows)" "parents_in lib rows ps"
  shows "list_all2 (associated lib) rows (fs_rows st')"
  using assms
proof (induction S ps st rule: fold_chunks.induct)
  case (1 S ps st)
  have step: "list_all2 (associated lib) rows (fs_rows (fold (fold_sidecar S) qs st))" if "parents_in lib rows qs" for qs
    using 1(3,4) that by (induction qs arbitrary: st) (simp_all add: fold_sidecar_associated parents_in_def)
  have sub: "parents_in lib rows (take 500 ps)" "parents_in lib rows (drop 500 ps)"
    using 1(5) by (auto simp: parents_in_def dest: in_set_takeD in_set_dropD)
  show ?case
  proof (cases "ps = []")
    case True
    with 1(2,3) show ?thesis by (simp add: fold_chunks.simps [of S "[]"])
  next
    case False
    from 1(2) False have f: "flushes (fold (fold_sidecar S) (take 500 ps) st)" "fold_chunks S (drop 500 ps) (fold (fold_sidecar S) (take 500 ps) st) = Inr st'"
      by (simp_all add: fold_chunks.simps [of S ps] Let_def split: if_splits)
    from 1(1) [OF False refl f(1,2) step [OF sub(1)] 1(4) sub(2)] show ?thesis .
  qed
qed

lemma associate_confined:
  assumes "associate_sidecars lw S lib rows = Inr (st, stats)" "distinct (map row_id rows)"
  shows "list_all2 (associated lib) rows (fs_rows st)"
proof -
  have "list_all2 (associated lib) rows (fst (associate_sidecars_light lw lib rows))"
    unfolding associate_rows [OF assms(2)] list_all2_map2
    using links_in_library(1) [OF assms(2)] by (auto simp: list_all2_same associated_def relinked_def split: option.split)
  with fold_chunks_associated [OF _ _ assms(2) parse_pairs_parents [OF assms(2)]] assms(1) show ?thesis
    by (auto simp: associate_sidecars_def case_prod_unfold Let_def bind_res_Inr)
qed

text \<open>The pass fails only on a year that does not fit its column.\<close>

definition years_fit :: "sidecar_env \<Rightarrow> ItemRow list \<Rightarrow> bool" where
  "years_fit S rows \<longleftrightarrow> list_all (\<lambda>r. year_fits (row_identity r)) rows
     \<and> (\<forall>knd p bs n. read_sidecar S p = Some bs \<and> map_of (parse_sidecar S knd bs) ''year'' = Some (JInt n) \<longrightarrow> - (2 ^ 31) \<le> n \<and> n < 2 ^ 31)"

lemma fold_parsed_year:
  assumes "year_fits p" "\<And>n. map_of parsed ''year'' = Some (JInt n) \<Longrightarrow> - (2 ^ 31) \<le> n \<and> n < 2 ^ 31"
  shows "year_fits (fold_parsed override pre parsed p)"
proof -
  have y: "map_of (filter (\<lambda>kv. fst kv \<noteq> ''external_ids'') parsed) ''year'' = map_of parsed ''year''" by (induction parsed) auto
  have ids: "year_fits (put_ids ext q) = year_fits q" for ext q by (simp add: put_ids_def year_fits_def split: option.split json.split)
  have titled: "year_fits (put_title ov d q) = year_fits q" for ov d q
    by (simp add: put_title_def year_fits_def split: option.split json.split)
  have "year_fits (put_year ov (filter (\<lambda>kv. fst kv \<noteq> ''external_ids'') parsed) q)" if "year_fits q" for ov q
    using that assms(2) by (auto simp: put_year_def y year_fits_def split: option.splits json.splits)
  moreover have "year_fits (p\<lparr>item_metadata := m\<rparr>)" for m using assms(1) by (simp add: year_fits_def)
  ultimately show ?thesis by (simp add: fold_parsed_def Let_def ids titled)
qed

lemma fold_sidecar_years:
  assumes "years_fit S (fs_rows st)"
  shows "years_fit S (fs_rows (fold_sidecar S p st))"
proof -
  obtain sid pid knd where p: "p = (sid, pid, knd)" by (cases p) auto
  have upd: "years_fit S (update_row (q\<lparr>row_identity := fold_parsed ov pre (parse_sidecar S knd bs) (row_identity q)\<rparr>) (fs_rows st))"
    if q: "find_row pid (fs_rows st) = Some q" "read_sidecar S path = Some bs" for q ov pre bs path
  proof -
    have "q \<in> set (fs_rows st)" using q(1) by (auto simp: find_row_def find_Some_iff)
    then have "year_fits (fold_parsed ov pre (parse_sidecar S knd bs) (row_identity q))"
      using assms q(2) by (intro fold_parsed_year) (auto simp: years_fit_def list_all_iff)
    then show ?thesis using assms by (auto simp: years_fit_def list_all_iff update_row_def)
  qed
  show ?thesis using assms upd by (auto simp: p fold_sidecar_def Let_def split: option.split)
qed

lemma fold_chunks_total: "years_fit S (fs_rows st) \<Longrightarrow> \<exists>st'. fold_chunks S ps st = Inr st'"
proof (induction S ps st rule: fold_chunks.induct)
  case (1 S ps st)
  have "years_fit S (fs_rows (fold (fold_sidecar S) qs st))" for qs
    using 1(2) by (induction qs arbitrary: st) (simp_all add: fold_sidecar_years)
  moreover from this have "flushes (fold (fold_sidecar S) (take 500 ps) st)" by (auto simp: flushes_def years_fit_def list_all_iff)
  ultimately show ?case using 1(1) by (cases "ps = []") (simp_all add: fold_chunks.simps [of S ps] fold_chunks.simps [of S "[]"] Let_def)
qed

lemma associate_total:
  assumes "years_fit S rows" "distinct (map row_id rows)"
  shows "\<exists>st stats. associate_sidecars lw S lib rows = Inr (st, stats)"
proof -
  have "years_fit S (fst (associate_sidecars_light lw lib rows))"
    using assms by (auto simp: associate_rows [OF assms(2)] years_fit_def list_all_iff relinked_def split: option.split)
  from fold_chunks_total [of S "\<lparr>fs_rows = fst (associate_sidecars_light lw lib rows), nfo_parsed = 0, jriver_parsed = 0, touched_parents = []\<rparr>"] this
  show ?thesis by (fastforce simp: associate_sidecars_def case_prod_unfold Let_def bind_res_Inr)
qed

section \<open>Properties\<close>

text \<open>Property C36. Linking touches nothing but the link column of the active sidecars of the library, and a link
  leads to an active item of the same library and directory that is no sidecar itself, so links form no chains
  and no cycles; artwork of a whole directory is linked only to an item that dominates it. A second pass over
  the table changes nothing.\<close>

theorem sidecar_links_sound:
  assumes "distinct (map row_id rows)" and "associate_sidecars_light lw lib rows = (rows', st)"
  shows "list_all2 (\<lambda>r r'. if in_library lib r \<and> classify lw (row_rel_path r) \<noteq> None
      then r' = r\<lparr>row_sidecar_of := row_sidecar_of r'\<rparr> \<and> link_ok lw lib rows r (row_sidecar_of r') else r' = r) rows rows'
    \<and> fst (associate_sidecars_light lw lib rows') = rows'
    \<and> changed (snd (associate_sidecars_light lw lib rows')) = []"
proof -
  let ?ls = "active_light lib rows"
  have "if in_library lib r \<and> classify lw (row_rel_path r) \<noteq> None
      then relinked (resolve_links lw ?ls) r = r\<lparr>row_sidecar_of := row_sidecar_of (relinked (resolve_links lw ?ls) r)\<rparr>
        \<and> link_ok lw lib rows r (row_sidecar_of (relinked (resolve_links lw ?ls) r))
      else relinked (resolve_links lw ?ls) r = r" if r: "r \<in> set rows" for r
  proof (cases "in_library lib r")
    case True
    then have "light r \<in> set ?ls" using r by (simp add: active_light_eq)
    from map_of_links [OF distinct_light [OF assms(1)] this, of lw] r True show ?thesis
      by (cases "classify lw (row_rel_path r)") (simp_all add: relinked_def link_of_ok)
  next
    case False
    then have "map_of (resolve_links lw ?ls) (row_id r) = None"
      using links_in_library(1) [OF assms(1) r] by (cases "map_of (resolve_links lw ?ls) (row_id r)") auto
    with False show ?thesis by (simp add: relinked_def)
  qed
  then show ?thesis
    using associate_rows [OF assms(1), of lw lib] associate_twice [OF assms(1), of rows' lw lib]
    by (simp add: assms(2) list_all2_map2 list_all2_same)
qed

definition clip_row :: ItemRow where
  "clip_row = sample_row\<lparr>row_rel_path := cps ''m/a.mkv'', row_category := Some ''video''\<rparr>"

definition nfo_row :: ItemRow where
  "nfo_row = sample_row\<lparr>row_id := 2, row_rel_path := cps ''m/a.nfo'', row_category := None\<rparr>"

lemma nfo_linked: "map row_sidecar_of (fst (associate_sidecars_light id 9 [clip_row, nfo_row])) = [None, Some 1]"
  by code_simp

theorem sidecar_links_sound_witness:
  "row_sidecar_of (fst (associate_sidecars_light id 9 [clip_row, nfo_row]) ! 1) = Some 1 \<and> link_ok id 9 [clip_row, nfo_row] nfo_row (Some 1)"
proof -
  have "distinct (map row_id [clip_row, nfo_row])" by (simp add: clip_row_def nfo_row_def sample_row_def)
  from sidecar_links_sound [OF this surjective_pairing, of 9 id] obtain c n where
    r: "fst (associate_sidecars_light id 9 [clip_row, nfo_row]) = [c, n]"
    and ok: "in_library 9 nfo_row \<and> classify id (row_rel_path nfo_row) \<noteq> None \<longrightarrow> link_ok id 9 [clip_row, nfo_row] nfo_row (row_sidecar_of n)"
    by (auto simp: list_all2_Cons1)
  have "row_sidecar_of n = Some 1" using nfo_linked by (simp add: r)
  moreover have "in_library 9 nfo_row \<and> classify id (row_rel_path nfo_row) \<noteq> None" by code_simp
  ultimately show ?thesis using r ok by simp
qed

text \<open>Two items of one stem: the parent is the one the unordered query returns first.\<close>

lemma link_depends_on_order:
  "resolve_links id (map light [clip_row, clip_row\<lparr>row_id := 3, row_rel_path := cps ''m/a.mp4''\<rparr>, nfo_row]) = [(2, Some 1)]"
  "resolve_links id (map light [clip_row\<lparr>row_id := 3, row_rel_path := cps ''m/a.mp4''\<rparr>, clip_row, nfo_row]) = [(2, Some 3)]"
  by code_simp+

text \<open>A year of eleven digits in one sidecar fails the pass: the links of the whole library are rolled back.\<close>

lemma long_year_fails_association:
  "associate_sidecars id \<lparr>parse_sidecar = (\<lambda>k bs. [(''nfo_kind'', JStr ''movie''), (''year'', JInt 20230115123)]), read_sidecar = (\<lambda>p. Some []), sidecar_priority = False\<rparr>
     9 [clip_row\<lparr>row_identity := sample_identity\<rparr>, nfo_row] = Inl DataError"
  by code_simp

end
