(* ===== verification/FileWalk.thy ===== *)
theory FileWalk
  imports Sidecars
begin

text \<open>
  Walking a library: \<open>walk\<close>, \<open>_walk_one_file\<close> and the scopes of \<open>backend/filearr/tasks/scan.py\<close>. The file system is a finite
  tree with the errors its calls may raise; pattern matching and the check of \<open>CACHEDIR.TAG\<close> are parameters. The
  lemmas show that the walk lists the tree as a recursive definition does, that its audit accounts for every
  file, and that it stays in its scope.
\<close>

section \<open>The file system\<close>

datatype fs_error = PermissionError | OtherOSError

text \<open>What \<open>lstat\<close> returns, whether it is a regular file (\<open>S_ISREG\<close>), with the target of a symbolic link: \<open>Some None\<close> is a link that cannot be read.
  Times are microseconds.\<close>

record lstat =
  st_size :: int
  st_mtime :: int
  st_nlink :: int
  st_ino :: int
  st_dev :: int
  st_regular :: bool
  st_link :: "codepoints option option"

text \<open>A directory lists its entries in some order and then ends, or fails before the rest is read; \<open>stat\<close> of a
  file may fail. A link to a directory is a file, since links are not followed.\<close>

datatype fsnode = FileNode "fs_error + lstat" | DirNode "(codepoints \<times> fsnode) list" "fs_error option"

fun is_dir :: "fsnode \<Rightarrow> bool" where
  "is_dir (DirNode es err) = True"
| "is_dir (FileNode st) = False"

fun children :: "fsnode \<Rightarrow> (codepoints \<times> fsnode) list" where
  "children (DirNode es err) = es"
| "children (FileNode st) = []"

section \<open>The walk\<close>

record WalkAudit =
  excluded_filtered :: nat
  pruned_dirs :: nat
  permission_denied :: nat
  pruned_files :: nat
  pruned_paths :: "codepoints list"
  count_pruned :: bool

definition fresh_audit :: "bool \<Rightarrow> WalkAudit" where
  "fresh_audit cnt = \<lparr>excluded_filtered = 0, pruned_dirs = 0, permission_denied = 0, pruned_files = 0, pruned_paths = [], count_pruned = cnt\<rparr>"

definition PRUNED_PATH_SAMPLE :: nat where "PRUNED_PATH_SAMPLE = 25"

fun nodes :: "fsnode \<Rightarrow> nat" where
  "nodes (FileNode st) = 1"
| "nodes (DirNode es err) = Suc (sum_list (map (\<lambda>e. nodes (snd e)) es))"

definition subdirs :: "(codepoints \<times> fsnode) list \<Rightarrow> fsnode list" where
  "subdirs es = filter is_dir (map snd es)"

lemma nodes_subdirs: "sum_list (map nodes (subdirs es)) \<le> sum_list (map (\<lambda>e. nodes (snd e)) es)"
  by (induction es) (auto simp: subdirs_def)

text \<open>\<open>_count_tree_files\<close>: a stack of directories. An unreadable directory counts for what it listed.\<close>

function count_loop :: "nat \<Rightarrow> fsnode list \<Rightarrow> nat" where
  "count_loop n [] = n"
| "count_loop n (d # stack) =
     count_loop (n + length (filter (\<lambda>e. \<not> is_dir (snd e)) (children d))) (rev (subdirs (children d)) @ stack)"
  by pat_completeness auto
termination
proof (relation "measure (\<lambda>(t, stack). sum_list (map nodes stack))", goal_cases)
  case (2 n d stack)
  have "sum_list (map nodes (subdirs (children d))) < nodes d"
    using nodes_subdirs [of "children d"] by (cases d) (auto simp: subdirs_def)
  then show ?case by (simp flip: rev_map)
qed simp

definition count_tree_files :: "fsnode \<Rightarrow> nat" where
  "count_tree_files d = count_loop 0 [d]"

text \<open>The environment of a walk: the library's exclusion spec (\<open>GitIgnoreSpec.match_file\<close>), the signature check
  of \<open>CACHEDIR.TAG\<close> by directory, and the lower-casing of strings.\<close>

record walk_env =
  match_file :: "codepoints \<Rightarrow> bool"
  cachedir_tagged :: "codepoints \<Rightarrow> bool"
  lowering :: lowercase

definition prune_dir :: "walk_env \<Rightarrow> codepoints \<Rightarrow> bool" where
  "prune_dir E rel \<longleftrightarrow> match_file E (rel @ [Rbac.slash]) \<or> cachedir_tagged E rel"

definition path_join :: "codepoints \<Rightarrow> codepoints \<Rightarrow> codepoints" where
  "path_join a b = (if startswith b [Rbac.slash] then b else if a = [] \<or> last a = Rbac.slash then a @ b else a @ [Rbac.slash] @ b)"

definition int64 :: "int \<Rightarrow> int" where
  "int64 v = (if v \<ge> 2 ^ 63 then v - 2 ^ 64 else v)"

record walk_entry =
  we_path :: codepoints
  we_rel :: codepoints
  we_size :: int
  we_mtime :: int
  we_nlink :: int
  we_inode :: int
  we_dev :: int
  we_symlink :: "codepoints option"

definition fs_identity :: "lstat \<Rightarrow> int \<times> int \<times> int \<times> codepoints option" where
  "fs_identity st = (st_nlink st, int64 (st_ino st), int64 (st_dev st),
     case st_link st of None \<Rightarrow> None | Some None \<Rightarrow> Some [] | Some (Some t) \<Rightarrow> Some t)"

definition emitted :: "codepoints \<Rightarrow> codepoints \<Rightarrow> lstat \<Rightarrow> walk_entry" where
  "emitted p rel st = (case fs_identity st of (nl, ino, dev, target) \<Rightarrow>
     \<lparr>we_path = p, we_rel = rel, we_size = st_size st, we_mtime = st_mtime st, we_nlink = nl, we_inode = ino, we_dev = dev, we_symlink = target\<rparr>)"

definition rel_join :: "codepoints \<Rightarrow> codepoints \<Rightarrow> codepoints" where
  "rel_join rel_dir name = (if rel_dir \<noteq> [] then rel_dir @ [Rbac.slash] @ name else name)"

definition spec_drops :: "walk_env \<Rightarrow> codepoints \<Rightarrow> bool" where
  "spec_drops E rel \<longleftrightarrow> match_file E rel \<and> classify (lowering E) rel = None"

definition audit_prune :: "codepoints \<Rightarrow> fsnode \<Rightarrow> WalkAudit \<Rightarrow> WalkAudit" where
  "audit_prune rel d a = a\<lparr>pruned_dirs := Suc (pruned_dirs a),
     pruned_paths := (if length (pruned_paths a) < PRUNED_PATH_SAMPLE then pruned_paths a @ [rel] else pruned_paths a),
     pruned_files := pruned_files a + (if count_pruned a then count_tree_files d else 0)\<rparr>"

text \<open>One directory: what it emits, the audit, the subdirectories pushed (last one on top), and how it ended.\<close>

fun walk_dir :: "walk_env \<Rightarrow> codepoints \<Rightarrow> bool \<Rightarrow> codepoints \<Rightarrow> (codepoints \<times> fsnode) list \<Rightarrow> fs_error option \<Rightarrow> WalkAudit
    \<Rightarrow> walk_entry list \<times> (codepoints \<times> fsnode) list \<times> WalkAudit \<times> fs_error option" where
  "walk_dir E rt recursive rel_dir [] err a = ([], [], a, err)"
| "walk_dir E rt recursive rel_dir ((name, node) # es) err a =
     (let rel = rel_join rel_dir name in
      case node of
        DirNode sub suberr \<Rightarrow>
          if recursive \<and> \<not> prune_dir E rel
          then let (out, pushed, a', e) = walk_dir E rt recursive rel_dir es err a in (out, pushed @ [(rel, node)], a', e)
          else walk_dir E rt recursive rel_dir es err (if recursive then audit_prune rel node a else a)
      | FileNode st \<Rightarrow>
          if spec_drops E rel
          then walk_dir E rt recursive rel_dir es err (a\<lparr>excluded_filtered := Suc (excluded_filtered a)\<rparr>)
          else (case st of
                 Inl e \<Rightarrow> ([], [], a, Some e)
               | Inr s \<Rightarrow>
                   (let p = path_join (if rel_dir \<noteq> [] then path_join rt rel_dir else rt) name;
                        (out, pushed, a', e) = walk_dir E rt recursive rel_dir es err a
                    in (emitted p rel s # out, pushed, a', e))))"

lemma walk_dir_pushed:
  "sum_list (map (\<lambda>p. nodes (snd p)) (fst (snd (walk_dir E rt recursive rel_dir es err a)))) \<le> sum_list (map (\<lambda>p. nodes (snd p)) es)"
proof (induction es arbitrary: a)
  case (Cons x es)
  obtain name node where x: "x = (name, node)" by fastforce
  show ?case
  proof (cases node)
    case (FileNode st)
    then show ?thesis by (cases st) (auto simp: x Let_def case_prod_unfold intro: le_SucI Cons.IH)
  next
    case (DirNode sub suberr)
    then show ?thesis using Cons.IH [of a] Cons.IH [of "audit_prune (rel_join rel_dir name) node a"]
      by (auto simp: x Let_def case_prod_unfold)
  qed
qed simp

fun dir_error :: "fsnode \<Rightarrow> fs_error option" where
  "dir_error (DirNode es err) = err"
| "dir_error (FileNode st) = Some OtherOSError"

text \<open>The loop over the stack. A \<open>PermissionError\<close> ends the directory and is counted; any other error ends the
  walk. \<open>err\<close> is the error the generator raises at the end, if any.\<close>

function walk_loop :: "walk_env \<Rightarrow> codepoints \<Rightarrow> bool \<Rightarrow> WalkAudit \<Rightarrow> (codepoints \<times> fsnode) list
    \<Rightarrow> walk_entry list \<times> WalkAudit \<times> fs_error option" where
  "walk_loop E rt recursive a [] = ([], a, None)"
| "walk_loop E rt recursive a ((rel_dir, d) # stack) =
     (let (out, pushed, a1, e) = walk_dir E rt recursive rel_dir (children d) (dir_error d) a in
      if e = Some OtherOSError then (out, a1, e)
      else let a2 = (if e = Some PermissionError then a1\<lparr>permission_denied := Suc (permission_denied a1)\<rparr> else a1);
               (rest, a3, e') = walk_loop E rt recursive a2 (pushed @ stack)
           in (out @ rest, a3, e'))"
  by pat_completeness auto
termination
proof (relation "measure (\<lambda>(E, rt, r, a, stack). sum_list (map (\<lambda>p. nodes (snd p)) stack))", goal_cases)
  case (2 E rt recursive a rel_dir d stack x out y pushed z a1 e a2)
  have "sum_list (map (\<lambda>p. nodes (snd p)) (children d)) < nodes d" by (cases d) auto
  moreover have "pushed = fst (snd (walk_dir E rt recursive rel_dir (children d) (dir_error d) a))" using 2 by (metis fst_conv snd_conv)
  ultimately show ?case using walk_dir_pushed [of E rt recursive rel_dir "children d" "dir_error d" a] by simp
qed simp

definition walk :: "walk_env \<Rightarrow> codepoints \<Rightarrow> codepoints \<Rightarrow> bool \<Rightarrow> WalkAudit \<Rightarrow> fsnode
    \<Rightarrow> walk_entry list \<times> WalkAudit \<times> fs_error option" where
  "walk E rt start_rel recursive a d = walk_loop E rt recursive a [(start_rel, d)]"

text \<open>\<open>_walk_one_file\<close>: \<open>node\<close> is what the scope names, \<open>None\<close> when it is gone. Only regular files are emitted.\<close>

definition walk_one_file :: "walk_env \<Rightarrow> codepoints \<Rightarrow> codepoints \<Rightarrow> fsnode option \<Rightarrow> walk_entry list" where
  "walk_one_file E rt rel node = (case node of
       Some (FileNode (Inr st)) \<Rightarrow>
         if \<not> st_regular st \<or> spec_drops E rel then [] else [emitted (path_join rt rel) rel st]
     | _ \<Rightarrow> [])"

section \<open>Scopes\<close>

definition norm_scope :: "codepoints option \<Rightarrow> codepoints" where
  "norm_scope p = strip (\<lambda>c. c = Rbac.slash) (case p of None \<Rightarrow> [] | Some x \<Rightarrow> x)"

definition under_scope :: "codepoints \<Rightarrow> codepoints \<Rightarrow> bool" where
  "under_scope rel scope \<longleftrightarrow> scope = [] \<or> rel = scope \<or> startswith rel (scope @ [Rbac.slash])"

definition in_scanned_set :: "codepoints \<Rightarrow> codepoints \<Rightarrow> bool \<Rightarrow> bool \<Rightarrow> bool" where
  "in_scanned_set rel scope is_file recursive =
     (if is_file then rel = scope
      else if recursive then under_scope rel scope
      else if scope = [] then Rbac.slash \<notin> set rel
      else if \<not> startswith rel (scope @ [Rbac.slash]) then False
      else Rbac.slash \<notin> set (drop (length scope + 1) rel))"
section \<open>The walk lists the tree\<close>

text \<open>The files of a tree by recursion, with the paths the walk gives them.\<close>

fun listing :: "walk_env \<Rightarrow> codepoints \<Rightarrow> bool \<Rightarrow> codepoints \<Rightarrow> codepoints \<Rightarrow> fsnode \<Rightarrow> walk_entry list" where
  "listing E rt recursive rel_dir name (FileNode st) =
     (if spec_drops E (rel_join rel_dir name) then []
      else case st of Inl e \<Rightarrow> [] | Inr s \<Rightarrow> [emitted (path_join (if rel_dir \<noteq> [] then path_join rt rel_dir else rt) name) (rel_join rel_dir name) s])"
| "listing E rt recursive rel_dir name (DirNode es err) =
     (if recursive \<and> \<not> prune_dir E (rel_join rel_dir name)
      then concat (map (\<lambda>e. listing E rt recursive (rel_join rel_dir name) (fst e) (snd e)) es) else [])"

definition below :: "walk_env \<Rightarrow> codepoints \<Rightarrow> bool \<Rightarrow> codepoints \<Rightarrow> (codepoints \<times> fsnode) list \<Rightarrow> walk_entry list" where
  "below E rt recursive rel_dir es = concat (map (\<lambda>e. listing E rt recursive rel_dir (fst e) (snd e)) es)"

definition below_all :: "walk_env \<Rightarrow> codepoints \<Rightarrow> bool \<Rightarrow> (codepoints \<times> fsnode) list \<Rightarrow> walk_entry list" where
  "below_all E rt recursive stack = concat (map (\<lambda>p. below E rt recursive (fst p) (children (snd p))) stack)"

lemma below_simps [simp]:
  "below E rt recursive rel_dir [] = []" "below E rt recursive rel_dir (x # es) = listing E rt recursive rel_dir (fst x) (snd x) @ below E rt recursive rel_dir es"
  "below_all E rt recursive [] = []" "below_all E rt recursive (p # ps) = below E rt recursive (fst p) (children (snd p)) @ below_all E rt recursive ps"
  "below_all E rt recursive (ps @ qs) = below_all E rt recursive ps @ below_all E rt recursive qs"
  by (simp_all add: below_def below_all_def)

lemma walk_dir_lists:
  assumes "walk_dir E rt recursive rel_dir es err a = (out, pushed, a', e)"
  shows "mset out + mset (below_all E rt recursive pushed) \<subseteq># mset (below E rt recursive rel_dir es)"
    and "e = None \<Longrightarrow> mset out + mset (below_all E rt recursive pushed) = mset (below E rt recursive rel_dir es)"
    and "permission_denied a' = permission_denied a \<and> count_pruned a' = count_pruned a"
proof -
  have "mset out + mset (below_all E rt recursive pushed) \<subseteq># mset (below E rt recursive rel_dir es)
    \<and> (e = None \<longrightarrow> mset out + mset (below_all E rt recursive pushed) = mset (below E rt recursive rel_dir es))
    \<and> permission_denied a' = permission_denied a \<and> count_pruned a' = count_pruned a"
    using assms
  proof (induction es arbitrary: a out pushed a' e)
    case (Cons x es)
    obtain name node where x: "x = (name, node)" by fastforce
    obtain out1 pushed1 a1 e1 where r: "walk_dir E rt recursive rel_dir es err a = (out1, pushed1, a1, e1)" by (metis prod_cases4)
    show ?case
    proof (cases node)
      case (FileNode st)
      show ?thesis
      proof (cases "spec_drops E (rel_join rel_dir name)")
        case True
        with Cons.IH [of "a\<lparr>excluded_filtered := Suc (excluded_filtered a)\<rparr>"] Cons.prems FileNode x show ?thesis by simp
      next
        case False
        with Cons.prems FileNode x r Cons.IH [OF r] show ?thesis
          by (cases st) (auto simp: Let_def)
      qed
    next
      case (DirNode sub suberr)
      show ?thesis
      proof (cases "recursive \<and> \<not> prune_dir E (rel_join rel_dir name)")
        case True
        then have "out = out1" "pushed = pushed1 @ [(rel_join rel_dir name, node)]" "a' = a1" "e = e1" using Cons.prems DirNode x r by (simp_all add: Let_def)
        moreover have "listing E rt recursive rel_dir name node = below E rt recursive (rel_join rel_dir name) (children node)"
          using True DirNode by (simp add: below_def)
        then have "mset (below E rt recursive rel_dir (x # es)) = mset (below E rt recursive rel_dir es) + mset (below E rt recursive (rel_join rel_dir name) (children node))"
          using x by (simp add: add.commute)
        ultimately show ?thesis using Cons.IH [OF r] by (simp add: add.assoc [symmetric] del: below_simps(2))
      next
        case False
        let ?a = "if recursive then audit_prune (rel_join rel_dir name) node a else a"
        have "walk_dir E rt recursive rel_dir es err ?a = (out, pushed, a', e)" using Cons.prems DirNode x False by (cases recursive) simp_all
        note ih = Cons.IH [OF this]
        have "listing E rt recursive rel_dir name node = []" using False DirNode by auto
        moreover have "permission_denied ?a = permission_denied a" "count_pruned ?a = count_pruned a" by (simp_all add: audit_prune_def)
        ultimately show ?thesis using ih x by simp
      qed
    qed
  qed simp
  then show "mset out + mset (below_all E rt recursive pushed) \<subseteq># mset (below E rt recursive rel_dir es)"
    "e = None \<Longrightarrow> mset out + mset (below_all E rt recursive pushed) = mset (below E rt recursive rel_dir es)"
    "permission_denied a' = permission_denied a \<and> count_pruned a' = count_pruned a" by blast+
qed

lemma mset_subset_eq_trans_left: "A + B \<subseteq># C \<Longrightarrow> A \<subseteq># C"
  by (meson mset_subset_eq_add_left subset_mset.order_trans)

lemma mset_subset_eq_add_right_intro: "A \<subseteq># B \<Longrightarrow> A \<subseteq># B + C"
  by (meson mset_subset_eq_add_left subset_mset.order_trans)

lemma walk_loop_lists:
  assumes "walk_loop E rt recursive a stack = (out, a', err)"
  shows "mset out \<subseteq># mset (below_all E rt recursive stack) \<and> permission_denied a \<le> permission_denied a'
    \<and> (err = None \<and> permission_denied a' = permission_denied a \<longrightarrow> mset out = mset (below_all E rt recursive stack))"
  using assms
proof (induction E rt recursive a stack arbitrary: out a' err rule: walk_loop.induct)
  case (2 E rt recursive a rel_dir d stack)
  obtain out1 pushed a1 e where r: "walk_dir E rt recursive rel_dir (children d) (dir_error d) a = (out1, pushed, a1, e)" by (metis prod_cases4)
  note w = walk_dir_lists [OF r]
  show ?case
  proof (cases "e = Some OtherOSError")
    case True
    then have res: "out = out1" "a' = a1" "err = e" using 2(2) r by auto
    have "mset out1 \<subseteq># mset (below E rt recursive rel_dir (children d))" using w(1) by (rule mset_subset_eq_trans_left)
    then have "mset out1 \<subseteq># mset (below_all E rt recursive ((rel_dir, d) # stack))" by (simp add: mset_subset_eq_add_right_intro)
    with res True w(3) show ?thesis by simp
  next
    case False
    define a2 where "a2 = (if e = Some PermissionError then a1\<lparr>permission_denied := Suc (permission_denied a1)\<rparr> else a1)"
    obtain rest a3 e' where r2: "walk_loop E rt recursive a2 (pushed @ stack) = (rest, a3, e')" by (metis prod_cases3)
    have res: "out = out1 @ rest" "a' = a3" "err = e'" using 2(2) r r2 False by (simp_all add: a2_def)
    have ih: "mset rest \<subseteq># mset (below_all E rt recursive (pushed @ stack)) \<and> permission_denied a2 \<le> permission_denied a3
      \<and> (e' = None \<and> permission_denied a3 = permission_denied a2 \<longrightarrow> mset rest = mset (below_all E rt recursive (pushed @ stack)))"
      using 2(1) [OF r [symmetric] refl refl refl False a2_def] r2 by simp
    have "mset out \<subseteq># mset out1 + mset (below_all E rt recursive pushed) + mset (below_all E rt recursive stack)"
      using ih by (simp add: res add.assoc)
    also have "\<dots> \<subseteq># mset (below_all E rt recursive ((rel_dir, d) # stack))" using w(1) by simp
    finally have sub: "mset out \<subseteq># mset (below_all E rt recursive ((rel_dir, d) # stack))" .
    have pm: "permission_denied a1 = permission_denied a" "permission_denied a \<le> permission_denied a2"
      "permission_denied a2 = permission_denied a \<Longrightarrow> e = None"
    proof -
      show "permission_denied a1 = permission_denied a" "permission_denied a \<le> permission_denied a2" using w(3) by (simp_all add: a2_def)
      show "e = None" if "permission_denied a2 = permission_denied a"
        using that w(3) False fs_error.exhaust by (cases e) (auto simp: a2_def split: if_splits)
    qed
    have "mset out = mset (below_all E rt recursive ((rel_dir, d) # stack))" if q: "err = None" "permission_denied a' = permission_denied a"
    proof -
      have "permission_denied a3 = permission_denied a2" "permission_denied a2 = permission_denied a" using q(2) ih pm(2) res(2) by simp_all
      then have "mset rest = mset (below_all E rt recursive (pushed @ stack))" "e = None" using ih q(1) res(3) pm(3) by auto
      then show ?thesis using w(2) by (simp add: res add.assoc)
    qed
    with sub ih pm(2) res(2) show ?thesis by auto
  qed
qed simp

text \<open>The audit accounts for every file.\<close>

fun files_in :: "fsnode \<Rightarrow> nat" where
  "files_in (FileNode st) = 1"
| "files_in (DirNode es err) = sum_list (map (\<lambda>e. files_in (snd e)) es)"

lemma files_in_children: "is_dir d \<Longrightarrow> files_in d = sum_list (map (\<lambda>e. files_in (snd e)) (children d))"
  by (cases d) simp_all

lemma files_by_kind:
  "sum_list (map (\<lambda>e. files_in (snd e)) es) = length (filter (\<lambda>e. \<not> is_dir (snd e)) es) + sum_list (map files_in (subdirs es))"
proof (induction es)
  case (Cons x es)
  then show ?case by (cases "snd x") (simp_all add: subdirs_def)
qed (simp add: subdirs_def)

lemma count_loop_files:
  assumes "\<forall>d \<in> set stack. is_dir d"
  shows "count_loop n stack = n + sum_list (map files_in stack)"
  using assms
proof (induction n stack rule: count_loop.induct)
  case (2 n d stack)
  have "\<forall>d \<in> set (rev (subdirs (children d)) @ stack). is_dir d" using 2(2) by (auto simp: subdirs_def)
  with 2(1) show ?case using files_in_children [of d] files_by_kind [of "children d"] 2(2) by (simp flip: rev_map)
qed simp

lemma count_tree_files_eq: "is_dir d \<Longrightarrow> count_tree_files d = files_in d"
  using count_loop_files [of "[d]" 0] by (simp add: count_tree_files_def del: count_loop.simps)

lemma walk_dir_accounts:
  assumes "walk_dir E rt True rel_dir es err a = (out, pushed, a', None)" "count_pruned a"
  shows "length out + excluded_filtered a' + pruned_files a' + sum_list (map (\<lambda>p. files_in (snd p)) pushed)
    = excluded_filtered a + pruned_files a + sum_list (map (\<lambda>e. files_in (snd e)) es) \<and> (\<forall>p \<in> set pushed. is_dir (snd p))"
  using assms
proof (induction es arbitrary: a out pushed a')
  case (Cons x es)
  obtain name node where x: "x = (name, node)" by fastforce
  obtain out1 pushed1 a1 e1 where r: "walk_dir E rt True rel_dir es err a = (out1, pushed1, a1, e1)" by (metis prod_cases4)
  show ?case
  proof (cases node)
    case (FileNode st)
    show ?thesis
    proof (cases "spec_drops E (rel_join rel_dir name)")
      case True
      with Cons.IH [of "a\<lparr>excluded_filtered := Suc (excluded_filtered a)\<rparr>"] Cons.prems FileNode x show ?thesis by simp
    next
      case False
      with Cons.prems(1) FileNode x r obtain s where "st = Inr s" "e1 = None" "pushed = pushed1" "a' = a1"
        "length out = Suc (length out1)" by (cases st) (auto simp: Let_def)
      then show ?thesis using Cons.IH [of a out1 pushed1 a1] Cons.prems(2) r FileNode x by simp
    qed
  next
    case (DirNode sub suberr)
    show ?thesis
    proof (cases "prune_dir E (rel_join rel_dir name)")
      case False
      then have "out = out1" "pushed = pushed1 @ [(rel_join rel_dir name, node)]" "a' = a1" "e1 = None" using Cons.prems DirNode x r by (simp_all add: Let_def)
      then show ?thesis using Cons.IH [of a out1 pushed1 a1] Cons.prems(2) r x DirNode by simp
    next
      case True
      let ?a = "audit_prune (rel_join rel_dir name) node a"
      have "walk_dir E rt True rel_dir es err ?a = (out, pushed, a', None)" using Cons.prems DirNode x True by simp
      moreover have "count_pruned ?a" "excluded_filtered ?a = excluded_filtered a" "pruned_files ?a = pruned_files a + files_in node"
        using Cons.prems(2) count_tree_files_eq [of node] DirNode by (simp_all add: audit_prune_def)
      ultimately show ?thesis using Cons.IH [of ?a out pushed a'] x by simp
    qed
  qed
qed simp

lemma walk_loop_accounts:
  assumes "walk_loop E rt True a stack = (out, a', None)" "permission_denied a' = permission_denied a" "count_pruned a"
    and "\<forall>p \<in> set stack. is_dir (snd p)"
  shows "length out + excluded_filtered a' + pruned_files a' = excluded_filtered a + pruned_files a + sum_list (map (\<lambda>p. files_in (snd p)) stack)"
  using assms
proof (induction stack arbitrary: a out a' rule: measure_induct_rule [where f = "\<lambda>stack. sum_list (map (\<lambda>p. nodes (snd p)) stack)"])
  case (less stack)
  show ?case
  proof (cases stack)
    case Nil
    with less.prems(1) show ?thesis by simp
  next
    case (Cons p rest)
    obtain rel_dir d where p: "p = (rel_dir, d)" by fastforce
    obtain out1 pushed a1 e where r: "walk_dir E rt True rel_dir (children d) (dir_error d) a = (out1, pushed, a1, e)" by (metis prod_cases4)
    note pd = walk_dir_lists(3) [OF r]
    have ne: "e \<noteq> Some OtherOSError" using less.prems(1) Cons p r by auto
    define a2 where "a2 = (if e = Some PermissionError then a1\<lparr>permission_denied := Suc (permission_denied a1)\<rparr> else a1)"
    obtain out2 a3 e3 where r3: "walk_loop E rt True a2 (pushed @ rest) = (out2, a3, e3)" by (metis prod_cases3)
    then have r2: "walk_loop E rt True a2 (pushed @ rest) = (out2, a', None)" "out = out1 @ out2"
      using less.prems(1) Cons p r ne by (simp_all add: a2_def)
    have "permission_denied a2 \<le> permission_denied a'" using walk_loop_lists [OF r2(1)] by blast
    then have en: "e = None" using less.prems(2) pd ne fs_error.exhaust by (cases e) (auto simp: a2_def split: if_splits)
    then have a2: "a2 = a1" by (simp add: a2_def)
    note acc = walk_dir_accounts [OF r [unfolded en] less.prems(3)]
    have "sum_list (map (\<lambda>p. nodes (snd p)) (children d)) < nodes d" by (cases d) auto
    then have m: "sum_list (map (\<lambda>p. nodes (snd p)) (pushed @ rest)) < sum_list (map (\<lambda>p. nodes (snd p)) stack)"
      using walk_dir_pushed [of E rt True rel_dir "children d" "dir_error d" a] r Cons p by simp
    have "length out2 + excluded_filtered a' + pruned_files a' = excluded_filtered a1 + pruned_files a1 + sum_list (map (\<lambda>p. files_in (snd p)) (pushed @ rest))"
      using less.IH [OF m r2(1) [unfolded a2]] less.prems pd acc Cons by auto
    then show ?thesis using acc files_in_children [of d] less.prems(4) Cons p r2(2) by simp
  qed
qed

section \<open>The walk stays in its scope\<close>

text \<open>Names of a directory are distinct, not empty and free of slashes.\<close>

fun proper_names :: "fsnode \<Rightarrow> bool" where
  "proper_names (FileNode st) = True"
| "proper_names (DirNode es err) \<longleftrightarrow> distinct (map fst es) \<and> (\<forall>e \<in> set es. fst e \<noteq> [] \<and> Rbac.slash \<notin> set (fst e) \<and> proper_names (snd e))"

lemma under_scope_join: "name \<noteq> [] \<Longrightarrow> under_scope rel (rel_join rel_dir name) \<Longrightarrow> under_scope rel rel_dir"
  by (auto simp: under_scope_def rel_join_def startswith_iff)

lemma listing_under:
  assumes "proper_names node" "name \<noteq> []" "w \<in> set (listing E rt recursive rel_dir name node)"
  shows "under_scope (we_rel w) (rel_join rel_dir name)"
  using assms
proof (induction E rt recursive rel_dir name node rule: listing.induct)
  case (1 E rt recursive rel_dir name st)
  then show ?case by (auto simp: emitted_def fs_identity_def under_scope_def split: if_splits sum.splits)
next
  case (2 E rt recursive rel_dir name es err)
  have c: "recursive \<and> \<not> prune_dir E (rel_join rel_dir name)" using 2(4) by (auto split: if_splits)
  then obtain x where x: "x \<in> set es" "w \<in> set (listing E rt recursive (rel_join rel_dir name) (fst x) (snd x))" using 2(4) by auto
  with 2(1) [OF c x(1)] 2(2) have "under_scope (we_rel w) (rel_join (rel_join rel_dir name) (fst x))" by auto
  then show ?case using under_scope_join 2(2) x(1) by auto
qed

lemma before_slash: "Rbac.slash \<notin> set a \<Longrightarrow> t = [] \<or> (\<exists>u. t = Rbac.slash # u) \<Longrightarrow> takeWhile (\<lambda>c. c \<noteq> Rbac.slash) (a @ t) = a"
  by (induction a) auto

lemma rel_join_append: "rel_join rel_dir c = rel_join rel_dir [] @ c"
  by (simp add: rel_join_def)

lemma under_join_tail:
  assumes "under_scope rel (rel_join rel_dir c)" "c \<noteq> []"
  obtains t where "rel = rel_join rel_dir [] @ c @ t" "t = [] \<or> (\<exists>u. t = Rbac.slash # u)"
proof -
  have "rel_join rel_dir c \<noteq> []" using assms(2) by (simp add: rel_join_append [of rel_dir c])
  with assms(1) consider "rel = rel_join rel_dir c" | u where "rel = rel_join rel_dir c @ [Rbac.slash] @ u"
    by (auto simp: under_scope_def startswith_iff)
  then show thesis by cases (use that [of "[]"] that rel_join_append [of rel_dir c] in auto)
qed

lemma under_join_same:
  assumes "under_scope rel (rel_join rel_dir a)" "under_scope rel (rel_join rel_dir b)"
    and "a \<noteq> []" "b \<noteq> []" "Rbac.slash \<notin> set a" "Rbac.slash \<notin> set b"
  shows "a = b"
proof -
  obtain t where t: "rel = rel_join rel_dir [] @ a @ t" "t = [] \<or> (\<exists>u. t = Rbac.slash # u)" by (rule under_join_tail [OF assms(1,3)])
  obtain u where u: "rel = rel_join rel_dir [] @ b @ u" "u = [] \<or> (\<exists>v. u = Rbac.slash # v)" by (rule under_join_tail [OF assms(2,4)])
  show ?thesis using t(1) u(1) before_slash [OF assms(5) t(2)] before_slash [OF assms(6) u(2)] by simp
qed

lemma below_distinct:
  assumes "distinct (map fst es)" "\<forall>e \<in> set es. fst e \<noteq> [] \<and> Rbac.slash \<notin> set (fst e) \<and> proper_names (snd e)"
    and "\<forall>e \<in> set es. distinct (map we_rel (listing E rt recursive rel_dir (fst e) (snd e)))"
  shows "distinct (map we_rel (below E rt recursive rel_dir es))"
  using assms
proof (induction es)
  case (Cons x es)
  have "we_rel v \<noteq> we_rel w" if v: "v \<in> set (listing E rt recursive rel_dir (fst x) (snd x))" and w: "w \<in> set (below E rt recursive rel_dir es)" for v w
  proof
    assume same: "we_rel v = we_rel w"
    obtain y where y: "y \<in> set es" "w \<in> set (listing E rt recursive rel_dir (fst y) (snd y))" using w by (auto simp: below_def)
    have "under_scope (we_rel v) (rel_join rel_dir (fst x))" by (rule listing_under [OF _ _ v]) (use Cons.prems(2) in auto)
    moreover have "under_scope (we_rel w) (rel_join rel_dir (fst y))" by (rule listing_under [OF _ _ y(2)]) (use Cons.prems(2) y(1) in auto)
    ultimately have "fst x = fst y" using under_join_same [of "we_rel v" rel_dir "fst x" "fst y"] same Cons.prems(2) y(1) by auto
    with y(1) Cons.prems(1) show False by (metis distinct.simps(2) imageI list.simps(9) set_map)
  qed
  then have "we_rel ` set (listing E rt recursive rel_dir (fst x) (snd x)) \<inter> we_rel ` set (below E rt recursive rel_dir es) = {}" by fastforce
  with Cons show ?case by simp
qed simp

lemma listing_distinct: "proper_names node \<Longrightarrow> distinct (map we_rel (listing E rt recursive rel_dir name node))"
proof (induction E rt recursive rel_dir name node rule: listing.induct)
  case (2 E rt recursive rel_dir name es err)
  show ?case
  proof (cases "recursive \<and> \<not> prune_dir E (rel_join rel_dir name)")
    case True
    have "\<forall>e \<in> set es. distinct (map we_rel (listing E rt recursive (rel_join rel_dir name) (fst e) (snd e)))" using 2(1) [OF True] 2(2) by simp
    then have "distinct (map we_rel (below E rt recursive (rel_join rel_dir name) es))" using 2(2) by (intro below_distinct) simp_all
    then show ?thesis using True by (simp add: below_def)
  qed auto
qed (auto split: sum.splits)

text \<open>What a walk of a directory gives.\<close>

lemma walk_result:
  assumes "walk E rt rel recursive a d = (out, a', err)" "proper_names d"
  shows "distinct (map we_rel out)" "w \<in> set out \<Longrightarrow> w \<in> set (below E rt recursive rel (children d))"
proof -
  have "mset out \<subseteq># mset (below E rt recursive rel (children d))" using walk_loop_lists [OF assms(1) [unfolded walk_def]] by simp
  then obtain M where "mset (below E rt recursive rel (children d)) = mset out + M" by (metis subset_mset.le_iff_add)
  moreover obtain rest where "mset rest = M" using ex_mset by blast
  ultimately have m: "mset (below E rt recursive rel (children d)) = mset (out @ rest)" by simp
  from mset_eq_setD [OF m] show "w \<in> set out \<Longrightarrow> w \<in> set (below E rt recursive rel (children d))" by simp
  have "distinct (map we_rel (below E rt recursive rel (children d)))"
    using assms(2) listing_distinct by (cases d) (auto intro!: below_distinct)
  moreover have "mset (map we_rel (below E rt recursive rel (children d))) = mset (map we_rel (out @ rest))" using m by simp
  ultimately have "distinct (map we_rel (out @ rest))" by (metis mset_eq_imp_distinct_iff)
  then show "distinct (map we_rel out)" by simp
qed

lemma below_in_scope:
  assumes "w \<in> set (below E rt recursive rel (children d))" "proper_names d"
  shows "in_scanned_set (we_rel w) rel False recursive"
proof -
  obtain x where x: "x \<in> set (children d)" "w \<in> set (listing E rt recursive rel (fst x) (snd x))" using assms(1) by (auto simp: below_def)
  have n: "fst x \<noteq> []" "Rbac.slash \<notin> set (fst x)" "proper_names (snd x)" using assms(2) x(1) by (cases d; auto)+
  show ?thesis
  proof (cases recursive)
    case True
    then show ?thesis using listing_under [OF n(3,1) x(2)] under_scope_join [OF n(1)] by (simp add: in_scanned_set_def)
  next
    case False
    then have "we_rel w = rel_join rel (fst x)"
      using x(2) by (cases "snd x") (auto simp: emitted_def fs_identity_def split: if_splits sum.splits)
    with False n(2) show ?thesis by (auto simp: in_scanned_set_def rel_join_def startswith_iff)
  qed
qed
section \<open>Properties\<close>

text \<open>Property C33. A walk that meets no error and no denied directory lists exactly the files of the tree, each once:
  those no exclusion drops, outside the directories it prunes, as the recursive definition lists them. For a
  recursive walk of a directory with the counting of pruned trees on (it is off by default), the entries, the excluded files and
  the files of the pruned trees add up to the files of the tree; a non-recursive walk or one without that counting
  makes no such claim.\<close>

theorem walk_exact:
  assumes "walk E rt rel recursive (fresh_audit cnt) d = (out, a, None)" "permission_denied a = 0"
  shows "mset out = mset (below E rt recursive rel (children d))
    \<and> (recursive \<and> cnt \<and> is_dir d \<longrightarrow> length out + excluded_filtered a + pruned_files a = files_in d)"
proof
  have w: "walk_loop E rt recursive (fresh_audit cnt) [(rel, d)] = (out, a, None)" using assms(1) by (simp add: walk_def)
  have a0: "permission_denied a = permission_denied (fresh_audit cnt)" using assms(2) by (simp add: fresh_audit_def)
  from walk_loop_lists [OF w] a0 show "mset out = mset (below E rt recursive rel (children d))" by simp
  show "recursive \<and> cnt \<and> is_dir d \<longrightarrow> length out + excluded_filtered a + pruned_files a = files_in d"
  proof
    assume c: "recursive \<and> cnt \<and> is_dir d"
    then have w': "walk_loop E rt True (fresh_audit cnt) [(rel, d)] = (out, a, None)" using w by simp
    from walk_loop_accounts [OF w' a0] c show "length out + excluded_filtered a + pruned_files a = files_in d" by (simp add: fresh_audit_def)
  qed
qed

definition sample_stat :: lstat where
  "sample_stat = \<lparr>st_size = 2, st_mtime = 10, st_nlink = 1, st_ino = 4, st_dev = 1, st_regular = True, st_link = None\<rparr>"

definition sample_env :: walk_env where
  "sample_env = \<lparr>match_file = (\<lambda>rel. rel = cps ''x.tmp''), cachedir_tagged = (\<lambda>rel. rel = cps ''cache''), lowering = id\<rparr>"

definition sample_tree :: fsnode where
  "sample_tree = DirNode [(cps ''a.txt'', FileNode (Inr sample_stat)), (cps ''x.tmp'', FileNode (Inr sample_stat)),
     (cps ''cache'', DirNode [(cps ''y'', FileNode (Inr sample_stat))] None), (cps ''sub'', DirNode [(cps ''c'', FileNode (Inr sample_stat))] None)] None"

lemma sample_walk: "walk sample_env (cps ''/m'') [] True (fresh_audit True) sample_tree =
   ([emitted (cps ''/m/a.txt'') (cps ''a.txt'') sample_stat, emitted (cps ''/m/sub/c'') (cps ''sub/c'') sample_stat],
    \<lparr>excluded_filtered = 1, pruned_dirs = 1, permission_denied = 0, pruned_files = 1, pruned_paths = [cps ''cache''], count_pruned = True\<rparr>, None)"
  by code_simp

theorem walk_exact_witness:
  "\<exists>out a. walk sample_env (cps ''/m'') [] True (fresh_audit True) sample_tree = (out, a, None)
    \<and> length out + excluded_filtered a + pruned_files a = files_in sample_tree \<and> files_in sample_tree = 4"
proof -
  have "files_in sample_tree = 4" by code_simp
  moreover have "is_dir sample_tree" by (simp add: sample_tree_def)
  ultimately show ?thesis using walk_exact [OF sample_walk] sample_walk by auto
qed

end
