(* ===== verification/Scanner.thy ===== *)
theory Scanner
  imports FileWalk
begin

text \<open>
  Scanning a library: \<open>scan_library\<close> and its helpers in \<open>backend/filearr/tasks/scan.py\<close>. The diff creates and
  refreshes rows for the entries of the walk, in batches that are committed on the way; the end of the scan
  detects moves, marks what is gone as missing and links the sidecars. The taxonomy, digests and file contents
  are parameters. One reading of the clock serves the whole scan. Alert capture, search documents and the progress
  statistics are not modelled. The lemmas give the invariant of the diff.
\<close>

section \<open>The diff\<close>

text \<open>The library, the settings and the services a scan uses: the taxonomy snapshot, the digests, the contents of
  files, the resolved hash policy, and which libraries agents own.\<close>

text \<open>
  How the job queue answers the deferrals at the end of a run: it takes them all, or the \<open>n\<close>-th chunk of extraction jobs
  raises, or an index job does.
\<close>

datatype queue_state = QueueUp | ExtractDown nat | IndexDown

record scan_cfg =
  sc_lib :: uuid
  sc_root :: codepoints
  sc_categories :: "string set"
  sc_groups :: "string set"
  sc_count_pruned :: bool
  sc_taxonomy :: "codepoints \<Rightarrow> string \<times> string"
  sc_env :: walk_env
  sc_digest :: "bytes \<Rightarrow> bytes"
  sc_hashers :: hashers
  sc_files :: files
  sc_full_max :: int
  sc_compute_content :: bool
  sc_empty_guard :: bool
  sc_cross_moves :: bool
  sc_staged :: bool
  sc_sidecars :: sidecar_env
  sc_agent_sourced :: "uuid \<Rightarrow> bool"
  sc_queue :: queue_state

record walk_state =
  ws_rows :: "ItemRow list"
  ws_committed :: "ItemRow list"
  ws_next :: uuid
  ws_seen :: "codepoints list"
  ws_new_ids :: "uuid list"
  ws_pending :: "uuid list"
  ws_deferred :: "uuid list"
  ws_new :: nat
  ws_changed :: nat
  ws_gate :: nat
  ws_bytes :: int

definition gated :: "scan_cfg \<Rightarrow> walk_entry \<Rightarrow> bool" where
  "gated cfg e \<longleftrightarrow> (sc_categories cfg \<noteq> {} \<or> sc_groups cfg \<noteq> {}) \<and> classify (lowering (sc_env cfg)) (we_rel e) = None
     \<and> fst (sc_taxonomy cfg (we_path e)) \<notin> sc_categories cfg \<and> snd (sc_taxonomy cfg (we_path e)) \<notin> sc_groups cfg"

definition extension_of :: "lowercase \<Rightarrow> codepoints \<Rightarrow> codepoints option" where
  "extension_of lw p = (let x = lw (lstrip (\<lambda>c. c = dot) (snd (splitext_name (basename p)))) in if x = [] then None else Some x)"

definition no_identity :: "int \<Rightarrow> item_identity" where
  "no_identity now = \<lparr>title = None, year = None, external_ids = [], item_metadata = [], user_metadata = [], tags = [], first_seen = now\<rparr>"

definition new_row :: "scan_cfg \<Rightarrow> int \<Rightarrow> uuid \<Rightarrow> string \<Rightarrow> walk_entry \<Rightarrow> ItemRow" where
  "new_row cfg now k sc e = \<lparr>row_id = k, row_library = sc_lib cfg, row_path = we_path e, row_rel_path = we_rel e,
     row_filename = basename (we_path e), row_extension = extension_of (lowering (sc_env cfg)) (we_path e),
     row_size = Some (we_size e), row_mtime = we_mtime e, row_status = active, row_last_seen = now, row_deleted_at = None,
     row_quick_hash = None, row_content_hash = None, row_mid_hash = None, row_sidecar_of = None, row_path_scope = Some sc,
     row_category = Some (fst (sc_taxonomy cfg (we_path e))), row_group = Some (snd (sc_taxonomy cfg (we_path e))),
     row_nlink = Some (we_nlink e), row_inode = Some (we_inode e), row_dev = Some (we_dev e), row_symlink_target = we_symlink e,
     row_identity = no_identity now\<rparr>"

definition row_differs :: "walk_entry \<Rightarrow> ItemRow \<Rightarrow> bool" where
  "row_differs e r \<longleftrightarrow> row_size r \<noteq> Some (we_size e) \<or> row_mtime r \<noteq> we_mtime e \<or> row_symlink_target r \<noteq> we_symlink e"

definition refresh_changed :: "int \<Rightarrow> walk_entry \<Rightarrow> ItemRow \<Rightarrow> ItemRow" where
  "refresh_changed now e r = r\<lparr>row_size := Some (we_size e), row_mtime := we_mtime e, row_path := we_path e,
     row_nlink := Some (we_nlink e), row_inode := Some (we_inode e), row_dev := Some (we_dev e),
     row_symlink_target := we_symlink e, row_status := active, row_last_seen := now\<rparr>"

text \<open>The walk always has an inode, so \<open>inode is not None\<close> holds.\<close>

definition refresh_same :: "int \<Rightarrow> walk_entry \<Rightarrow> ItemRow \<Rightarrow> ItemRow" where
  "refresh_same now e r = r\<lparr>row_last_seen := now, row_path := we_path e, row_nlink := Some (we_nlink e),
     row_inode := Some (we_inode e), row_dev := Some (we_dev e), row_symlink_target := we_symlink e,
     row_status := (if row_status r = missing then active else row_status r)\<rparr>"

definition add_seen :: "codepoints \<Rightarrow> codepoints list \<Rightarrow> codepoints list" where
  "add_seen rel seen = (if rel \<in> set seen then seen else seen @ [rel])"

definition insert_entry :: "scan_cfg \<Rightarrow> int \<Rightarrow> walk_entry \<Rightarrow> walk_state \<Rightarrow> move_error + walk_state" where
  "insert_entry cfg now e st = (case path_to_ltree (sc_digest cfg) (we_rel e) (Some (sc_lib cfg)) of
       Inl x \<Rightarrow> Inl (MoveRaised x)
     | Inr sc \<Rightarrow>
         (let k = ws_next st; rows = ws_rows st @ [new_row cfg now k sc e];
              plain = (classify (lowering (sc_env cfg)) (we_rel e) = None \<and> we_symlink e = None)
          in if \<not> unique_rel rows then Inl IntegrityError
             else Inr (st\<lparr>ws_rows := rows, ws_next := Suc k, ws_new := Suc (ws_new st),
                    ws_new_ids := ws_new_ids st @ (if plain then [k] else []),
                    ws_pending := ws_pending st @ (if plain then [k] else [])\<rparr>)))"

definition refresh_entry :: "scan_cfg \<Rightarrow> int \<Rightarrow> uuid list \<Rightarrow> walk_entry \<Rightarrow> ItemRow \<Rightarrow> walk_state \<Rightarrow> walk_state" where
  "refresh_entry cfg now already_queued e r st =
     (let plain = (classify (lowering (sc_env cfg)) (we_rel e) = None \<and> we_symlink e = None) in
      if row_differs e r
      then st\<lparr>ws_rows := update_row (refresh_changed now e r) (ws_rows st), ws_changed := Suc (ws_changed st),
              ws_pending := ws_pending st @ (if plain then [row_id r] else [])\<rparr>
      else st\<lparr>ws_rows := update_row (refresh_same now e r) (ws_rows st),
              ws_pending := ws_pending st @ (if row_quick_hash r = None \<and> plain \<and> row_id r \<notin> set already_queued then [row_id r] else [])\<rparr>)"

text \<open>\<open>existing\<close> maps the paths of the library at the start of the scan to its rows, here by their ids.\<close>

definition existing_map :: "uuid \<Rightarrow> ItemRow list \<Rightarrow> (codepoints \<times> uuid) list" where
  "existing_map lib rows = map (\<lambda>r. (row_rel_path r, row_id r)) (filter (\<lambda>r. row_library r = lib) rows)"

definition row_of :: "uuid \<Rightarrow> ItemRow list \<Rightarrow> ItemRow option" where
  "row_of k rows = find (\<lambda>r. row_id r = k) rows"

definition process_entry :: "scan_cfg \<Rightarrow> int \<Rightarrow> (codepoints \<times> uuid) list \<Rightarrow> uuid list \<Rightarrow> walk_entry \<Rightarrow> walk_state \<Rightarrow> move_error + walk_state" where
  "process_entry cfg now existing queued e st =
     (let st1 = st\<lparr>ws_seen := add_seen (we_rel e) (ws_seen st), ws_bytes := ws_bytes st + we_size e\<rparr> in
      if \<not> representable (we_mtime e) then Inl (MoveRaised ValueError)
      else case map_of existing (we_rel e) of
        None \<Rightarrow> insert_entry cfg now e st1
      | Some k \<Rightarrow> (case row_of k (ws_rows st1) of
            None \<Rightarrow> Inr st1
          | Some r \<Rightarrow> Inr (refresh_entry cfg now queued e r st1)))"

text \<open>\<open>publish_progress\<close>: commit, then hand out the extraction of committed rows unless the run is staged.\<close>

definition publish :: "scan_cfg \<Rightarrow> walk_state \<Rightarrow> walk_state" where
  "publish cfg st = (if sc_staged cfg then st\<lparr>ws_committed := ws_rows st\<rparr>
     else st\<lparr>ws_committed := ws_rows st, ws_deferred := ws_deferred st @ ws_pending st, ws_pending := []\<rparr>)"

text \<open>What a flush meets: the status of the run, or a job queue that refuses the extraction jobs of the batch.\<close>

datatype signal = Running | Stopping | Cancelled | QueueRefused

datatype scan_error = ScanRootError | ScanOSError fs_error | ScanDbError move_error | ScanQueueError

datatype loop_end = Through | StopRequested | Aborted | Crashed scan_error

definition FLUSH_EVERY :: nat where "FLUSH_EVERY = 250"

fun scan_loop :: "scan_cfg \<Rightarrow> int \<Rightarrow> (codepoints \<times> uuid) list \<Rightarrow> uuid list \<Rightarrow> (nat \<Rightarrow> signal) \<Rightarrow> walk_entry list \<Rightarrow> walk_state
    \<Rightarrow> walk_state \<times> loop_end" where
  "scan_loop cfg now existing queued sig [] st = (st, Through)"
| "scan_loop cfg now existing queued sig (e # es) st =
     (if gated cfg e then scan_loop cfg now existing queued sig es (st\<lparr>ws_gate := Suc (ws_gate st)\<rparr>)
      else case process_entry cfg now existing queued e st of
             Inl x \<Rightarrow> (st, Crashed (ScanDbError x))
           | Inr st1 \<Rightarrow>
               if length (ws_seen st1) mod FLUSH_EVERY \<noteq> 0 then scan_loop cfg now existing queued sig es st1
               else (case sig (length (ws_seen st1)) of
                       Running \<Rightarrow> scan_loop cfg now existing queued sig es (publish cfg st1)
                     | Stopping \<Rightarrow> (publish cfg st1, StopRequested)
                     | Cancelled \<Rightarrow> (publish cfg st1, Aborted)
                     | QueueRefused \<Rightarrow>
                         if sc_staged cfg \<or> ws_pending st1 = [] then scan_loop cfg now existing queued sig es (publish cfg st1)
                         else (st1\<lparr>ws_committed := ws_rows st1\<rparr>, Crashed ScanQueueError)))"

text \<open>\<open>_iter_walk_threaded\<close> pulls 250 entries at a time: when the generator raises, the entries pulled with the
  failing batch are lost.\<close>

definition pulled :: "walk_entry list \<Rightarrow> fs_error option \<Rightarrow> walk_entry list" where
  "pulled es err = (if err = None then es else take (length es div 250 * 250) es)"

section \<open>The end of a scan\<close>

text \<open>The guard against a dead mount that shows up as an empty directory.\<close>

definition empty_tree :: "scan_cfg \<Rightarrow> bool \<Rightarrow> codepoints \<Rightarrow> WalkAudit \<Rightarrow> walk_state \<Rightarrow> (codepoints \<times> uuid) list \<Rightarrow> bool" where
  "empty_tree cfg force_empty scope a st existing \<longleftrightarrow> scope = [] \<and> \<not> force_empty \<and> sc_empty_guard cfg \<and> ws_seen st = []
     \<and> ws_gate st + excluded_filtered a + pruned_dirs a = 0
     \<and> (\<exists>(rel, k) \<in> set existing. case row_of k (ws_rows st) of None \<Rightarrow> False | Some r \<Rightarrow> row_status r = active)"

definition move_candidates :: "(codepoints \<times> uuid) list \<Rightarrow> codepoints \<Rightarrow> bool \<Rightarrow> bool \<Rightarrow> codepoints list \<Rightarrow> ItemRow list \<Rightarrow> ItemRow list" where
  "move_candidates existing scope is_file recursive seen rows =
     filter (\<lambda>r. row_status r = active \<and> row_quick_hash r \<noteq> None)
       (concat (map (\<lambda>(rel, k). if in_scanned_set rel scope is_file recursive \<and> rel \<notin> set seen
                               then (case row_of k rows of None \<Rightarrow> [] | Some r \<Rightarrow> [r]) else []) existing))"

definition rows_by_id :: "uuid list \<Rightarrow> ItemRow list \<Rightarrow> ItemRow list" where
  "rows_by_id ks rows = filter (\<lambda>r. row_id r \<in> set ks) rows"

record tail_stats =
  n_missing :: nat
  n_moved :: nat
  n_ambiguous :: nat
  n_cross :: nat
  n_cross_ambiguous :: nat

definition intra_moves :: "scan_cfg \<Rightarrow> int \<Rightarrow> ItemRow list \<Rightarrow> uuid list \<Rightarrow> ItemRow list
    \<Rightarrow> move_error + (ItemRow list \<times> nat \<times> nat \<times> MovedOut list)" where
  "intra_moves cfg now cands new_ids rows =
     (if cands \<noteq> [] \<and> new_ids \<noteq> []
      then detect_moves (sc_digest cfg) (sc_hashers cfg) (sc_files cfg) now cands (rows_by_id new_ids rows)
             (sc_full_max cfg) (sc_compute_content cfg) rows
      else Inr (rows, 0, 0, []))"

definition cross_moves :: "scan_cfg \<Rightarrow> int \<Rightarrow> uuid list \<Rightarrow> ItemRow list \<Rightarrow> move_error + (ItemRow list \<times> nat \<times> nat \<times> uuid list)" where
  "cross_moves cfg now new_ids rows =
     (if new_ids \<noteq> [] \<and> sc_cross_moves cfg \<and> rows_by_id new_ids rows \<noteq> []
      then detect_cross_library_moves (sc_digest cfg) (sc_hashers cfg) (sc_files cfg) (sc_agent_sourced cfg) now
             (rows_by_id new_ids rows) (sc_lib cfg) (sc_full_max cfg) (sc_compute_content cfg) rows
      else Inr (rows, 0, 0, []))"

definition tombstones :: "(codepoints \<times> uuid) list \<Rightarrow> codepoints \<Rightarrow> bool \<Rightarrow> bool \<Rightarrow> codepoints list \<Rightarrow> ItemRow list \<Rightarrow> uuid list" where
  "tombstones existing scope is_file recursive seen rows =
     map snd (filter (\<lambda>(rel, k). in_scanned_set rel scope is_file recursive \<and> rel \<notin> set seen
       \<and> (case row_of k rows of None \<Rightarrow> False | Some r \<Rightarrow> row_rel_path r \<notin> set seen \<and> row_status r = active)) existing)"

definition mark_missing :: "uuid list \<Rightarrow> ItemRow list \<Rightarrow> ItemRow list" where
  "mark_missing ks rows = map (\<lambda>r. if row_id r \<in> set ks then r\<lparr>row_status := missing\<rparr> else r) rows"

text \<open>After the walk: moves, moves from other libraries, tombstones. A stopped walk skips all of it. The result
  is the table and the ids whose extraction is due.\<close>

definition wrap_up :: "scan_cfg \<Rightarrow> int \<Rightarrow> bool \<Rightarrow> (codepoints \<times> uuid) list \<Rightarrow> codepoints \<Rightarrow> bool \<Rightarrow> bool \<Rightarrow> walk_state
    \<Rightarrow> move_error + (ItemRow list \<times> uuid list \<times> tail_stats)" where
  "wrap_up cfg now stopped existing scope is_file recursive st =
     (if stopped then Inr (ws_rows st, ws_pending st, \<lparr>n_missing = 0, n_moved = 0, n_ambiguous = 0, n_cross = 0, n_cross_ambiguous = 0\<rparr>)
      else bind_res (intra_moves cfg now (move_candidates existing scope is_file recursive (ws_seen st) (ws_rows st)) (ws_new_ids st) (ws_rows st))
        (\<lambda>(rows1, moved, amb, outs).
          bind_res (cross_moves cfg now (ws_new_ids st) rows1) (\<lambda>(rows2, crossed, camb, cross_survivors).
            let pending1 = filter (\<lambda>k. k \<notin> duplicate_id ` set outs) (ws_pending st);
                pending2 = (if crossed \<noteq> 0
                  then filter (\<lambda>k. k \<in> row_id ` set rows2 \<or> k \<notin> set (ws_new_ids st)) pending1 @ cross_survivors else pending1);
                gone = tombstones existing scope is_file recursive (ws_seen st) rows2
            in Inr (mark_missing gone rows2, pending2,
                    \<lparr>n_missing = length gone, n_moved = moved, n_ambiguous = amb, n_cross = crossed, n_cross_ambiguous = camb\<rparr>))))"

section \<open>A scan\<close>

datatype scope_kind = ScopeFile | ScopeDir | ScopeAbsent

text \<open>What the file system answers: the root directory, what \<open>isfile\<close> and \<open>isdir\<close> (which follow links) say of the
  scope, and the entry \<open>scandir\<close> or \<open>lstat\<close> find there.\<close>

record scan_fs =
  fs_root :: "fsnode option"
  fs_kind :: scope_kind
  fs_scope :: "fsnode option"

definition scannable_root :: "fsnode option \<Rightarrow> bool" where
  "scannable_root d = (case d of Some (DirNode es err) \<Rightarrow> es \<noteq> [] \<or> err = None | _ \<Rightarrow> False)"

text \<open>\<open>LinkingFailed\<close> is a run marked failed by an error of the sidecar pass, \<open>JobsFailed\<close> one marked failed by the job queue,
  both after its own work was committed, for a stopped and for a complete walk.\<close>

datatype run_status = Finished | Stopped | RunCancelled | Failed scan_error | ScopeMissing | LinkingFailed bool link_error | JobsFailed bool

record scan_result =
  out_rows :: "ItemRow list"
  out_status :: run_status
  out_deferred :: "uuid list"
  out_stats :: "tail_stats option"

definition start_state :: "ItemRow list \<Rightarrow> uuid \<Rightarrow> walk_state" where
  "start_state rows k = \<lparr>ws_rows = rows, ws_committed = rows, ws_next = k, ws_seen = [], ws_new_ids = [], ws_pending = [],
     ws_deferred = [], ws_new = 0, ws_changed = 0, ws_gate = 0, ws_bytes = 0\<rparr>"

definition crashed :: "walk_state \<Rightarrow> scan_error \<Rightarrow> scan_result" where
  "crashed st x = \<lparr>out_rows = ws_committed st, out_status = Failed x, out_deferred = ws_deferred st, out_stats = None\<rparr>"

text \<open>The last commit, the extraction jobs, the links of the sidecars, and the index jobs for what these or a rename
  changed.\<close>

definition DEFER_CHUNK :: nat where "DEFER_CHUNK = 1000"

definition needs_index :: "fold_state \<Rightarrow> link_stats \<Rightarrow> tail_stats \<Rightarrow> bool" where
  "needs_index folded counts stats \<longleftrightarrow> touched_parents folded \<noteq> [] \<or> changed counts \<noteq> [] \<or> n_moved stats \<noteq> 0"

definition linking :: "scan_cfg \<Rightarrow> bool \<Rightarrow> uuid list \<Rightarrow> ItemRow list \<Rightarrow> tail_stats \<Rightarrow> scan_result" where
  "linking cfg stopped jobs rows stats =
     (case associate_sidecars (lowering (sc_env cfg)) (sc_sidecars cfg) (sc_lib cfg) rows of
        Inl x \<Rightarrow> \<lparr>out_rows = rows, out_status = LinkingFailed stopped x, out_deferred = jobs, out_stats = Some stats\<rparr>
      | Inr (folded, counts) \<Rightarrow>
          \<lparr>out_rows = fs_rows folded,
           out_status = (if sc_queue cfg = IndexDown \<and> needs_index folded counts stats then JobsFailed stopped
                         else if stopped then Stopped else Finished),
           out_deferred = jobs, out_stats = Some stats\<rparr>)"

definition finished :: "scan_cfg \<Rightarrow> bool \<Rightarrow> walk_state \<Rightarrow> ItemRow list \<times> uuid list \<times> tail_stats \<Rightarrow> scan_result" where
  "finished cfg stopped st = (\<lambda>(rows, pending, stats).
     case sc_queue cfg of
       ExtractDown n \<Rightarrow>
         if n * DEFER_CHUNK < length pending
         then \<lparr>out_rows = rows, out_status = JobsFailed stopped, out_deferred = ws_deferred st @ take (n * DEFER_CHUNK) pending, out_stats = Some stats\<rparr>
         else linking cfg stopped (ws_deferred st @ pending) rows stats
     | _ \<Rightarrow> linking cfg stopped (ws_deferred st @ pending) rows stats)"

definition scan_walk :: "scan_cfg \<Rightarrow> scan_fs \<Rightarrow> codepoints \<Rightarrow> bool \<Rightarrow> bool \<Rightarrow> walk_entry list \<times> WalkAudit \<times> fs_error option" where
  "scan_walk cfg fs scope is_file recursive =
     (let a = fresh_audit (sc_count_pruned cfg) in
      if is_file then (walk_one_file (sc_env cfg) (sc_root cfg) scope (fs_scope fs), a, None)
      else case (if scope = [] then fs_root fs else fs_scope fs) of
             None \<Rightarrow> ([], a, Some OtherOSError)
           | Some d \<Rightarrow> walk (sc_env cfg) (sc_root cfg) scope recursive a d)"

definition scan_library :: "scan_cfg \<Rightarrow> int \<Rightarrow> scan_fs \<Rightarrow> (nat \<Rightarrow> signal) \<Rightarrow> uuid list \<Rightarrow> codepoints option \<Rightarrow> bool \<Rightarrow> bool
    \<Rightarrow> ItemRow list \<Rightarrow> uuid \<Rightarrow> scan_result" where
  "scan_library cfg now fs sig queued scope_rel recursive force_empty rows k =
     (let scope = norm_scope scope_rel; st0 = start_state rows k; existing = existing_map (sc_lib cfg) rows in
      if \<not> scannable_root (fs_root fs) then crashed st0 ScanRootError
      else if scope \<noteq> [] \<and> fs_kind fs = ScopeAbsent \<and> map_of existing scope = None
      then \<lparr>out_rows = rows, out_status = ScopeMissing, out_deferred = [], out_stats = None\<rparr>
      else let is_file = (scope \<noteq> [] \<and> fs_kind fs \<noteq> ScopeDir);
               (es, audit, err) = scan_walk cfg fs scope is_file recursive;
               (st, fin) = scan_loop cfg now existing queued sig (pulled es err) st0
           in case fin of
                Crashed x \<Rightarrow> crashed st x
              | Aborted \<Rightarrow> \<lparr>out_rows = ws_committed st, out_status = RunCancelled, out_deferred = ws_deferred st, out_stats = None\<rparr>
              | StopRequested \<Rightarrow>
                  (case wrap_up cfg now True existing scope is_file recursive st of
                     Inl x \<Rightarrow> crashed st (ScanDbError x) | Inr r \<Rightarrow> finished cfg True st r)
              | Through \<Rightarrow>
                  (case err of
                     Some x \<Rightarrow> crashed st (ScanOSError x)
                   | None \<Rightarrow>
                       if empty_tree cfg force_empty scope audit st existing then crashed st ScanRootError
                       else (case wrap_up cfg now False existing scope is_file recursive st of
                               Inl x \<Rightarrow> crashed st (ScanDbError x) | Inr r \<Rightarrow> finished cfg False st r)))"

section \<open>What the walk does to the table\<close>

definition kept_row :: "ItemRow \<Rightarrow> ItemRow \<Rightarrow> bool" where
  "kept_row r r' \<longleftrightarrow> row_id r' = row_id r \<and> row_library r' = row_library r \<and> row_rel_path r' = row_rel_path r
     \<and> row_identity r' = row_identity r \<and> (row_status r' = row_status r \<or> row_status r' = active)"

definition as_seen :: "walk_entry \<Rightarrow> ItemRow \<Rightarrow> bool" where
  "as_seen e r \<longleftrightarrow> row_size r = Some (we_size e) \<and> row_mtime r = we_mtime e \<and> row_path r = we_path e \<and> row_symlink_target r = we_symlink e"

definition renewed :: "int \<Rightarrow> walk_entry \<Rightarrow> ItemRow \<Rightarrow> ItemRow" where
  "renewed now e r = (if row_differs e r then refresh_changed now e r else refresh_same now e r)"

lemma renewed_facts:
  "kept_row r (renewed now e r)" "as_seen e (renewed now e r)" "row_status (renewed now e r) \<noteq> missing" "row_id (renewed now e r) = row_id r"
  by (auto simp: renewed_def kept_row_def as_seen_def refresh_changed_def refresh_same_def row_differs_def)

lemma kept_row_refl [simp]: "kept_row r r" by (simp add: kept_row_def)

lemma kept_row_trans: "kept_row a b \<Longrightarrow> kept_row b c \<Longrightarrow> kept_row a c"
  by (auto simp: kept_row_def)

lemma kept_row_key: "kept_row r r' \<Longrightarrow> index_key r' = index_key r \<and> row_id r' = row_id r"
  by (simp add: kept_row_def index_key_def)

text \<open>An old row during the walk: changed only if its path was seen, and then no longer missing.\<close>

definition touched :: "uuid \<Rightarrow> codepoints set \<Rightarrow> ItemRow \<Rightarrow> ItemRow \<Rightarrow> bool" where
  "touched lib S r r' \<longleftrightarrow> kept_row r r' \<and> (if index_key r \<in> {lib} \<times> S then row_status r' \<noteq> missing else r' = r)"

definition born :: "scan_cfg \<Rightarrow> ItemRow list \<Rightarrow> codepoints set \<Rightarrow> uuid \<Rightarrow> uuid \<Rightarrow> ItemRow \<Rightarrow> bool" where
  "born cfg R0 S k m n \<longleftrightarrow> year (row_identity n) = None \<and> row_library n = sc_lib cfg \<and> row_status n = active \<and> row_rel_path n \<in> S
     \<and> index_key n \<notin> index_key ` set R0 \<and> k \<le> row_id n \<and> row_id n < m \<and> encodable (sc_digest cfg) (sc_lib cfg) n"

definition loop_inv :: "scan_cfg \<Rightarrow> ItemRow list \<Rightarrow> uuid \<Rightarrow> walk_entry list \<Rightarrow> walk_state \<Rightarrow> bool" where
  "loop_inv cfg R0 k seen st \<longleftrightarrow> (\<exists>olds news. ws_rows st = olds @ news
     \<and> list_all2 (touched (sc_lib cfg) (we_rel ` set seen)) R0 olds
     \<and> (\<forall>n \<in> set news. born cfg R0 (we_rel ` set seen) k (ws_next st) n)
     \<and> set (ws_new_ids st) \<subseteq> row_id ` set news)
     \<and> table_ok (ws_rows st) \<and> k \<le> ws_next st \<and> set (ws_seen st) = we_rel ` set seen
     \<and> (\<forall>e \<in> set seen. \<exists>r \<in> set (ws_rows st). index_key r = (sc_lib cfg, we_rel e) \<and> as_seen e r)"

lemma map_of_existing:
  assumes "unique_rel R0"
  shows "map_of (existing_map lib R0) rel = Some k \<longleftrightarrow> (\<exists>r \<in> set R0. index_key r = (lib, rel) \<and> row_id r = k)"
    and "map_of (existing_map lib R0) rel = None \<longleftrightarrow> (lib, rel) \<notin> index_key ` set R0"
proof -
  have "distinct (map row_rel_path (filter (\<lambda>r. row_library r = lib) R0))"
  proof -
    have "inj_on row_rel_path (set (filter (\<lambda>r. row_library r = lib) R0))" "distinct R0"
      using assms by (auto simp: unique_rel_def distinct_map inj_on_def index_key_def)
    then show ?thesis by (simp add: distinct_map)
  qed
  then have d: "distinct (map fst (existing_map lib R0))" by (simp add: existing_map_def comp_def)
  show "map_of (existing_map lib R0) rel = Some k \<longleftrightarrow> (\<exists>r \<in> set R0. index_key r = (lib, rel) \<and> row_id r = k)"
    using map_of_eq_Some_iff [OF d] by (auto simp: existing_map_def index_key_def)
  show "map_of (existing_map lib R0) rel = None \<longleftrightarrow> (lib, rel) \<notin> index_key ` set R0"
    by (auto simp: map_of_eq_None_iff existing_map_def index_key_def image_iff)
qed

lemma row_of_Some:
  assumes "distinct (map row_id rows)"
  shows "row_of k rows = Some r \<longleftrightarrow> r \<in> set rows \<and> row_id r = k"
proof
  assume "row_of k rows = Some r"
  then show "r \<in> set rows \<and> row_id r = k" by (auto simp: row_of_def find_Some_iff)
next
  assume r: "r \<in> set rows \<and> row_id r = k"
  then obtain x where x: "row_of k rows = Some x" by (cases "row_of k rows") (auto simp: row_of_def find_None_iff)
  then have "x \<in> set rows" "row_id x = k" by (auto simp: row_of_def find_Some_iff)
  with r x same_row [OF assms] show "row_of k rows = Some r" by metis
qed

lemma update_row_fun:
  assumes "distinct (map row_id rows)" "r \<in> set rows" "row_id (f r) = row_id r"
  shows "update_row (f r) rows = map (\<lambda>x. if row_id x = row_id r then f x else x) rows"
  using same_row [OF assms(1) _ assms(2)] assms(3) by (auto simp: update_row_def)

lemma refresh_entry_rows:
  assumes "distinct (map row_id (ws_rows st))" "r \<in> set (ws_rows st)"
  shows "ws_rows (refresh_entry cfg now q e r st) = map (\<lambda>x. if row_id x = row_id r then renewed now e x else x) (ws_rows st)"
proof -
  have "ws_rows (refresh_entry cfg now q e r st) = update_row (renewed now e r) (ws_rows st)"
    by (simp add: refresh_entry_def renewed_def Let_def)
  also have "\<dots> = map (\<lambda>x. if row_id x = row_id r then renewed now e x else x) (ws_rows st)"
    by (rule update_row_fun [where f = "renewed now e", OF assms renewed_facts(4)])
  finally show ?thesis .
qed

lemma refresh_entry_other [simp]:
  "ws_seen (refresh_entry cfg now q e r st) = ws_seen st" "ws_next (refresh_entry cfg now q e r st) = ws_next st"
  "ws_new_ids (refresh_entry cfg now q e r st) = ws_new_ids st" "ws_committed (refresh_entry cfg now q e r st) = ws_committed st"
  "ws_deferred (refresh_entry cfg now q e r st) = ws_deferred st"
  by (simp_all add: refresh_entry_def Let_def)

definition old_table :: "ItemRow list \<Rightarrow> uuid \<Rightarrow> bool" where
  "old_table R0 k \<longleftrightarrow> table_ok R0 \<and> (\<forall>r \<in> set R0. row_id r < k)"

lemma touched_grow:
  assumes "touched lib S r r'" "index_key r \<noteq> (lib, rel)"
  shows "touched lib (insert rel S) r r'"
proof -
  have "index_key r \<in> {lib} \<times> insert rel S \<longleftrightarrow> index_key r \<in> {lib} \<times> S" using assms(2) by (cases "index_key r") auto
  with assms(1) show ?thesis unfolding touched_def by simp
qed

lemma touched_renewed:
  assumes "touched lib S r r'" "index_key r = (lib, rel)"
  shows "touched lib (insert rel S) r (renewed now e r')"
  using assms renewed_facts(1) [of r' now e] renewed_facts(3) [of now e r'] kept_row_trans [of r r'] by (simp add: touched_def)

lemma touched_id: "touched lib S r r' \<Longrightarrow> row_id r' = row_id r \<and> index_key r' = index_key r"
  by (simp add: touched_def kept_row_key)

lemma loop_invE:
  assumes "loop_inv cfg R0 k seen st"
  obtains olds news where "ws_rows st = olds @ news" "list_all2 (touched (sc_lib cfg) (we_rel ` set seen)) R0 olds"
    "\<forall>n \<in> set news. born cfg R0 (we_rel ` set seen) k (ws_next st) n" "set (ws_new_ids st) \<subseteq> row_id ` set news"
    "table_ok (ws_rows st)" "k \<le> ws_next st" "set (ws_seen st) = we_rel ` set seen"
    "\<forall>e \<in> set seen. \<exists>r \<in> set (ws_rows st). index_key r = (sc_lib cfg, we_rel e) \<and> as_seen e r"
  using assms unfolding loop_inv_def by blast

lemma born_grow: "born cfg R0 S k m n \<Longrightarrow> S \<subseteq> S' \<Longrightarrow> m \<le> m' \<Longrightarrow> born cfg R0 S' k m' n"
  by (auto simp: born_def)

lemma insert_step:
  assumes inv: "loop_inv cfg R0 k seen st" and old: "old_table R0 k" and new: "map_of (existing_map (sc_lib cfg) R0) (we_rel e) = None"
    and fresh: "we_rel e \<notin> we_rel ` set seen" and run: "insert_entry cfg now e (st\<lparr>ws_seen := add_seen (we_rel e) (ws_seen st), ws_bytes := b\<rparr>) = Inr st1"
  shows "loop_inv cfg R0 k (seen @ [e]) st1"
  using inv
proof (rule loop_invE)
  fix olds news
  assume rows: "ws_rows st = olds @ news" and t: "list_all2 (touched (sc_lib cfg) (we_rel ` set seen)) R0 olds"
    and b: "\<forall>n \<in> set news. born cfg R0 (we_rel ` set seen) k (ws_next st) n" and ids: "set (ws_new_ids st) \<subseteq> row_id ` set news"
    and ok: "table_ok (ws_rows st)" and k: "k \<le> ws_next st" and sn: "set (ws_seen st) = we_rel ` set seen"
    and at: "\<forall>e \<in> set seen. \<exists>r \<in> set (ws_rows st). index_key r = (sc_lib cfg, we_rel e) \<and> as_seen e r"
  obtain sc where sc: "path_to_ltree (sc_digest cfg) (we_rel e) (Some (sc_lib cfg)) = Inr sc"
    using run by (auto simp: insert_entry_def split: sum.splits)
  let ?n = "new_row cfg now (ws_next st) sc e"
  have uq: "unique_rel (ws_rows st @ [?n])" and st1: "ws_rows st1 = ws_rows st @ [?n]" "ws_next st1 = Suc (ws_next st)"
    "set (ws_new_ids st1) \<subseteq> insert (ws_next st) (set (ws_new_ids st))" "ws_seen st1 = add_seen (we_rel e) (ws_seen st)"
    using run by (auto simp: insert_entry_def sc Let_def split: if_splits)
  have key: "(sc_lib cfg, we_rel e) \<notin> index_key ` set R0" using new map_of_existing(2) [of R0] old by (simp add: old_table_def table_ok_def)
  have nk: "index_key ?n = (sc_lib cfg, we_rel e)" "row_id ?n = ws_next st" "as_seen e ?n"
    by (simp_all add: new_row_def index_key_def as_seen_def)
  have bn: "born cfg R0 (we_rel ` set (seen @ [e])) k (ws_next st1) ?n"
    using k sc key st1(2) by (simp add: born_def no_identity_def new_row_def encodable_def index_key_def)
  have low: "row_id r < ws_next st" if "r \<in> set (ws_rows st)" for r
  proof (cases "r \<in> set news")
    case False
    then have "r \<in> set olds" using that rows by simp
    then obtain r0 where "r0 \<in> set R0" "touched (sc_lib cfg) (we_rel ` set seen) r0 r" using list_all2_in_set2 [OF t] by blast
    then show ?thesis using old k touched_id by (fastforce simp: old_table_def)
  qed (use b in \<open>simp add: born_def\<close>)
  have "ws_next st \<notin> row_id ` set (ws_rows st)" using low by fastforce
  then have "table_ok (ws_rows st1)" using ok uq st1(1) nk(2) by (simp add: table_ok_def)
  moreover have "list_all2 (touched (sc_lib cfg) (we_rel ` set (seen @ [e]))) R0 olds"
    using key by (intro list.rel_mono_strong [OF t]) (simp, metis imageI touched_grow)
  moreover have "\<forall>n \<in> set (news @ [?n]). born cfg R0 (we_rel ` set (seen @ [e])) k (ws_next st1) n"
    using b bn st1(2) by (auto intro: born_grow)
  moreover have "set (ws_new_ids st1) \<subseteq> row_id ` set (news @ [?n])" using st1(3) ids nk(2) by auto
  moreover have "\<forall>e' \<in> set (seen @ [e]). \<exists>r \<in> set (ws_rows st1). index_key r = (sc_lib cfg, we_rel e') \<and> as_seen e' r"
    using at nk st1(1) by auto
  moreover have "set (ws_seen st1) = we_rel ` set (seen @ [e])" using sn st1(4) by (auto simp: add_seen_def)
  moreover have "ws_rows st1 = olds @ (news @ [?n])" "k \<le> ws_next st1" using rows st1 k by simp_all
  ultimately show ?thesis unfolding loop_inv_def by blast
qed

lemma refresh_step:
  assumes inv: "loop_inv cfg R0 k seen st" and old: "old_table R0 k" and hit: "map_of (existing_map (sc_lib cfg) R0) (we_rel e) = Some i"
    and fresh: "we_rel e \<notin> we_rel ` set seen" and r: "row_of i (ws_rows st) = Some r"
  shows "loop_inv cfg R0 k (seen @ [e]) (refresh_entry cfg now q e r (st\<lparr>ws_seen := add_seen (we_rel e) (ws_seen st), ws_bytes := b\<rparr>))"
  using inv
proof (rule loop_invE)
  fix olds news
  let ?st = "refresh_entry cfg now q e r (st\<lparr>ws_seen := add_seen (we_rel e) (ws_seen st), ws_bytes := b\<rparr>)"
  let ?f = "\<lambda>x. if row_id x = row_id r then renewed now e x else x"
  assume rows: "ws_rows st = olds @ news" and t: "list_all2 (touched (sc_lib cfg) (we_rel ` set seen)) R0 olds"
    and b: "\<forall>n \<in> set news. born cfg R0 (we_rel ` set seen) k (ws_next st) n" and ids: "set (ws_new_ids st) \<subseteq> row_id ` set news"
    and ok: "table_ok (ws_rows st)" and k: "k \<le> ws_next st" and sn: "set (ws_seen st) = we_rel ` set seen"
    and at: "\<forall>e \<in> set seen. \<exists>r \<in> set (ws_rows st). index_key r = (sc_lib cfg, we_rel e) \<and> as_seen e r"
  have d: "distinct (map row_id (ws_rows st))" using ok by (simp add: table_ok_def)
  have uq: "unique_rel R0" and dR: "distinct (map row_id R0)" using old by (simp_all add: old_table_def table_ok_def)
  have mem: "r \<in> set (ws_rows st)" "row_id r = i" using row_of_Some [OF d] r by auto
  obtain r0 where r0: "r0 \<in> set R0" "index_key r0 = (sc_lib cfg, we_rel e)" "row_id r0 = i"
    using hit map_of_existing(1) [OF uq] by blast
  then have low: "row_id r < k" using old mem(2) by (auto simp: old_table_def)
  have st1: "ws_rows ?st = map ?f (ws_rows st)" using refresh_entry_rows [of "st\<lparr>ws_seen := add_seen (we_rel e) (ws_seen st), ws_bytes := b\<rparr>" r] d mem by simp
  have news: "map ?f news = news" using b low by (intro map_idI) (auto simp: born_def)
  have kf: "kept_row x (?f x)" for x using renewed_facts(1) by simp
  have fkey: "index_key (?f x) = index_key x \<and> row_id (?f x) = row_id x" for x using kept_row_key [OF kf] .
  have keys: "map index_key (map ?f (ws_rows st)) = map index_key (ws_rows st)" "map row_id (map ?f (ws_rows st)) = map row_id (ws_rows st)"
    using fkey by (simp_all del: if_image_distrib)
  have "table_ok (ws_rows ?st)" using ok unfolding st1 table_ok_def unique_rel_def keys .
  moreover have "list_all2 (touched (sc_lib cfg) (we_rel ` set (seen @ [e]))) R0 (map ?f olds)"
    unfolding list_all2_map2
  proof (rule list.rel_mono_strong [OF t])
    fix x x' assume x: "x \<in> set R0" "touched (sc_lib cfg) (we_rel ` set seen) x x'"
    show "touched (sc_lib cfg) (we_rel ` set (seen @ [e])) x (?f x')"
    proof (cases "row_id x' = row_id r")
      case True
      then have "x = r0" using same_row [OF dR x(1) r0(1)] touched_id [OF x(2)] mem(2) r0(3) by simp
      with True touched_renewed [OF x(2)] r0(2) show ?thesis by simp
    next
      case False
      then have "row_id x \<noteq> row_id r0" using touched_id [OF x(2)] mem(2) r0(3) by simp
      then have "index_key x \<noteq> (sc_lib cfg, we_rel e)" using unique_by_id [OF uq dR x(1) r0(1)] r0(2) by simp
      with False touched_grow [OF x(2)] show ?thesis by simp
    qed
  qed
  moreover have "\<forall>n \<in> set news. born cfg R0 (we_rel ` set (seen @ [e])) k (ws_next ?st) n" using b by (auto intro: born_grow)
  moreover have "set (ws_new_ids ?st) \<subseteq> row_id ` set news" using ids by simp
  moreover have "\<exists>x \<in> set (ws_rows ?st). index_key x = (sc_lib cfg, we_rel e') \<and> as_seen e' x" if e': "e' \<in> set (seen @ [e])" for e'
  proof (cases "e' = e")
    case True
    obtain x where x: "x \<in> set olds" "touched (sc_lib cfg) (we_rel ` set seen) r0 x" using list_all2_in_set1 [OF t r0(1)] by blast
    then have "row_id x = row_id r" "index_key (?f x) = (sc_lib cfg, we_rel e)" using touched_id [OF x(2)] r0 mem(2) fkey [of x] by auto
    then show ?thesis using x(1) rows st1 True renewed_facts(2) by (intro bexI [of _ "?f x"]) auto
  next
    case False
    then obtain x where x: "x \<in> set (ws_rows st)" "index_key x = (sc_lib cfg, we_rel e')" "as_seen e' x" using at e' by auto
    have "e' \<in> set seen" using e' False by simp
    then have "we_rel e' \<noteq> we_rel e" using fresh by (metis imageI)
    have "row_id x \<noteq> row_id r"
    proof
      assume "row_id x = row_id r"
      then have "x = r" using same_row [OF d x(1) mem(1)] by simp
      obtain y where y: "y \<in> set olds" "touched (sc_lib cfg) (we_rel ` set seen) r0 y" using list_all2_in_set1 [OF t r0(1)] by blast
      then have "y = r" using same_row [OF d _ mem(1), of y] touched_id [OF y(2)] r0(3) mem(2) rows by simp
      then have "index_key x = (sc_lib cfg, we_rel e)" using \<open>x = r\<close> touched_id [OF y(2)] r0(2) by simp
      with x(2) \<open>we_rel e' \<noteq> we_rel e\<close> show False by simp
    qed
    then have "x \<in> set (ws_rows ?st)" using x(1) st1 by force
    with x show ?thesis by blast
  qed
  moreover have "set (ws_seen ?st) = we_rel ` set (seen @ [e])" using sn by (auto simp: add_seen_def)
  moreover have "ws_rows ?st = map ?f olds @ news" "k \<le> ws_next ?st" using rows st1 news k by simp_all
  ultimately show ?thesis unfolding loop_inv_def by blast
qed

section \<open>The loop\<close>

lemma process_step:
  assumes "loop_inv cfg R0 k seen st" "old_table R0 k" "we_rel e \<notin> we_rel ` set seen"
    and run: "process_entry cfg now (existing_map (sc_lib cfg) R0) q e st = Inr st1"
  shows "loop_inv cfg R0 k (seen @ [e]) st1"
proof (cases "map_of (existing_map (sc_lib cfg) R0) (we_rel e)")
  case None
  with run insert_step [OF assms(1,2) None assms(3)] show ?thesis by (auto simp: process_entry_def Let_def split: if_splits)
next
  case (Some i)
  obtain r0 where r0: "r0 \<in> set R0" "row_id r0 = i"
    using Some map_of_existing(1) [of R0] assms(2) by (auto simp: old_table_def table_ok_def)
  from assms(1) obtain olds news where rows: "ws_rows st = olds @ news" "table_ok (ws_rows st)"
    and t: "list_all2 (touched (sc_lib cfg) (we_rel ` set seen)) R0 olds" by (rule loop_invE)
  obtain r where "r \<in> set olds" "row_id r = i" using list_all2_in_set1 [OF t r0(1)] touched_id r0(2) by metis
  then have r: "row_of i (ws_rows st) = Some r" using rows row_of_Some [of "ws_rows st"] by (simp add: table_ok_def)
  from refresh_step [OF assms(1,2) Some assms(3) r, of now q "ws_bytes st + we_size e"] run Some r show ?thesis by (simp add: process_entry_def Let_def split: if_splits)
qed

lemma process_frame:
  assumes "process_entry cfg now ex q e st = Inr st1"
  shows "ws_committed st1 = ws_committed st" "ws_deferred st1 = ws_deferred st"
  using assms by (auto simp: process_entry_def Let_def insert_entry_def split: option.splits sum.splits if_splits)

text \<open>A committed table is one the walk had at some earlier point.\<close>

definition snapshot :: "scan_cfg \<Rightarrow> ItemRow list \<Rightarrow> uuid \<Rightarrow> walk_entry set \<Rightarrow> ItemRow list \<Rightarrow> bool" where
  "snapshot cfg R0 k E rows \<longleftrightarrow> (\<exists>st seen. loop_inv cfg R0 k seen st \<and> rows = ws_rows st \<and> set seen \<subseteq> E)"

lemma snapshotI: "loop_inv cfg R0 k seen st \<Longrightarrow> set seen \<subseteq> E \<Longrightarrow> snapshot cfg R0 k E (ws_rows st)"
  unfolding snapshot_def by blast

lemma snapshot_mono: "snapshot cfg R0 k E rows \<Longrightarrow> E \<subseteq> E' \<Longrightarrow> snapshot cfg R0 k E' rows"
  unfolding snapshot_def by blast

lemma publish_simps [simp]:
  "ws_rows (publish cfg st) = ws_rows st" "ws_committed (publish cfg st) = ws_rows st" "ws_next (publish cfg st) = ws_next st"
  "ws_seen (publish cfg st) = ws_seen st" "ws_new_ids (publish cfg st) = ws_new_ids st" "ws_gate (publish cfg st) = ws_gate st"
  by (simp_all add: publish_def)

lemma loop_inv_cong:
  "ws_rows st' = ws_rows st \<Longrightarrow> ws_next st' = ws_next st \<Longrightarrow> ws_seen st' = ws_seen st \<Longrightarrow> ws_new_ids st' = ws_new_ids st
    \<Longrightarrow> loop_inv cfg R0 k seen st' = loop_inv cfg R0 k seen st"
  by (simp add: loop_inv_def)

lemma scan_loop_inv:
  assumes "loop_inv cfg R0 k seen st" "old_table R0 k" "snapshot cfg R0 k (set seen) (ws_committed st)"
    and "distinct (map we_rel (seen @ filter (\<lambda>e. \<not> gated cfg e) es))"
    and "scan_loop cfg now (existing_map (sc_lib cfg) R0) q sig es st = (st', fin)"
  obtains dn where "loop_inv cfg R0 k dn st'" "snapshot cfg R0 k (set dn) (ws_committed st')"
    "set dn \<subseteq> set seen \<union> set (filter (\<lambda>e. \<not> gated cfg e) es)"
    "fin = Through \<Longrightarrow> dn = seen @ filter (\<lambda>e. \<not> gated cfg e) es"
  using assms
proof (induction es arbitrary: seen st thesis)
  case Nil
  then show ?case by auto
next
  case (Cons e es)
  let ?ex = "existing_map (sc_lib cfg) R0"
  show ?case
  proof (cases "gated cfg e")
    case True
    have "loop_inv cfg R0 k seen (st\<lparr>ws_gate := Suc (ws_gate st)\<rparr>)" using Cons.prems(2) by (simp add: loop_inv_def)
    from Cons.IH [OF _ this Cons.prems(3)] Cons.prems True show ?thesis by auto
  next
    case False
    then have fresh: "we_rel e \<notin> we_rel ` set seen" using Cons.prems(5) by auto
    show ?thesis
    proof (cases "process_entry cfg now ?ex q e st")
      case (Inl x)
      with False Cons.prems show ?thesis by (intro Cons.prems(1) [of seen]) auto
    next
      case (Inr st1)
      have inv: "loop_inv cfg R0 k (seen @ [e]) st1" by (rule process_step [OF Cons.prems(2,3) fresh Inr])
      have snap: "snapshot cfg R0 k (set (seen @ [e])) (ws_committed st1)"
        using snapshot_mono [OF Cons.prems(4)] process_frame(1) [OF Inr] by auto
      have pub: "loop_inv cfg R0 k (seen @ [e]) (publish cfg st1)" using inv by (simp cong: loop_inv_cong add: loop_inv_def)
      have psnap: "snapshot cfg R0 k (set (seen @ [e])) (ws_committed (publish cfg st1))"
        using snapshotI [OF inv subset_refl] by simp
      have d: "distinct (map we_rel ((seen @ [e]) @ filter (\<lambda>e. \<not> gated cfg e) es))" using Cons.prems(5) False by simp
      note next1 = Cons.IH [OF _ inv Cons.prems(3) snap d] and next2 = Cons.IH [OF _ pub Cons.prems(3) psnap d]
      show ?thesis
      proof (cases "length (ws_seen st1) mod FLUSH_EVERY \<noteq> 0")
        case True
        then have "scan_loop cfg now ?ex q sig es st1 = (st', fin)" using Cons.prems(6) False Inr by simp
        with next1 Cons.prems(1) False show ?thesis by auto
      next
        case mod0: False
        show ?thesis
        proof (cases "sig (length (ws_seen st1))")
          case Running
          then have "scan_loop cfg now ?ex q sig es (publish cfg st1) = (st', fin)" using Cons.prems(6) False Inr mod0 by simp
          with next2 Cons.prems(1) False show ?thesis by auto
        next
          case Stopping
          then have "st' = publish cfg st1 \<and> fin = StopRequested" using Cons.prems(6) False Inr mod0 by simp
          with pub psnap False show ?thesis by (intro Cons.prems(1) [of "seen @ [e]"]) auto
        next
          case Cancelled
          then have "st' = publish cfg st1 \<and> fin = Aborted" using Cons.prems(6) False Inr mod0 by simp
          with pub psnap False show ?thesis by (intro Cons.prems(1) [of "seen @ [e]"]) auto
        next
          case QueueRefused
          show ?thesis
          proof (cases "sc_staged cfg \<or> ws_pending st1 = []")
            case True
            with QueueRefused have "scan_loop cfg now ?ex q sig es (publish cfg st1) = (st', fin)" using Cons.prems(6) False Inr mod0 by simp
            with next2 Cons.prems(1) False show ?thesis by auto
          next
            case held: False
            let ?st = "st1\<lparr>ws_committed := ws_rows st1\<rparr>"
            have "st' = ?st \<and> fin = Crashed ScanQueueError" using QueueRefused held Cons.prems(6) False Inr mod0 by auto
            moreover have "loop_inv cfg R0 k (seen @ [e]) ?st" using inv by (simp add: loop_inv_def)
            moreover have "snapshot cfg R0 k (set (seen @ [e])) (ws_committed ?st)" using snapshotI [OF inv subset_refl] by simp
            ultimately show ?thesis using False by (intro Cons.prems(1) [of "seen @ [e]"]) auto
          qed
        qed
      qed
    qed
  qed
qed

end
