(* ===== verification/ScanOutcome.thy ===== *)
theory ScanOutcome
  imports Scanner
begin

text \<open>
  What a scan leaves in the table: move detection relocates rows, tombstones mark what the walk did not see, and
  every way to end is either a finished scan or a prefix of the diff. The properties of the scanner are here.
\<close>

section \<open>What a pass of move detection does to the table\<close>

definition relocation :: "ItemRow set \<Rightarrow> ItemRow list \<Rightarrow> ItemRow list \<Rightarrow> ItemRow list \<Rightarrow> bool" where
  "relocation C N rows rows' \<longleftrightarrow> table_ok rows'
     \<and> (\<forall>r' \<in> set rows'. (\<exists>r \<in> set rows. rehashed r r') \<or> (\<exists>c \<in> C. \<exists>n \<in> set N. takes_place c n r' \<and> row_status r' = active))
     \<and> (\<forall>r \<in> set rows. row_id r \<notin> row_id ` set N \<longrightarrow>
          (\<exists>r' \<in> set rows'. row_id r' = row_id r \<and> row_identity r' = row_identity r \<and> (r' = r \<or> r \<in> C)))
     \<and> (\<forall>r \<in> set rows. r \<notin> C \<longrightarrow> (\<exists>r' \<in> set rows'. index_key r' = index_key r \<and> row_size r' = row_size r
          \<and> row_mtime r' = row_mtime r \<and> row_path r' = row_path r \<and> row_status r' = row_status r))"

lemma relocation_refl: "table_ok rows \<Longrightarrow> relocation C N rows rows"
  unfolding relocation_def using rehashed_refl by blast

lemma latest_rehashed:
  assumes "distinct (map row_id rows)" "set news \<subseteq> set rows" "distinct (map row_id hashed)" "list_all2 rehashed news hashed" "r \<in> set rows"
  shows "rehashed r (latest hashed r)" "row_id r \<notin> row_id ` set news \<Longrightarrow> latest hashed r = r"
proof -
  have "map row_id hashed = map row_id news" using assms(4) by (auto simp: list_all2_conv_all_nth rehashed_columns intro!: nth_equalityI)
  then have ids: "row_id ` set hashed = row_id ` set news" by (metis set_map)
  show "rehashed r (latest hashed r)"
  proof (cases "latest hashed r = r")
    case False
    then have "latest hashed r \<in> set hashed" using latest_cases [of hashed r] by blast
    then obtain n where n: "n \<in> set news" "rehashed n (latest hashed r)" using list_all2_in_set2 [OF assms(4)] by blast
    then have "row_id n = row_id r" using rehashed_columns(1) [OF n(2)] by simp
    then have "n = r" using same_row [OF assms(1) _ assms(5)] n(1) assms(2) by blast
    with n(2) show ?thesis by simp
  qed simp
  show "latest hashed r = r" if "row_id r \<notin> row_id ` set news" using that ids by (simp add: latest_None)
qed

lemma relocation_of_transfer:
  assumes ok: "table_ok rows" and sub: "set news \<subseteq> set rows" and dn: "distinct (map row_id news)"
    and h: "list_all2 rehashed news hashed" and pl: "plans_ok plans (map (latest hashed) rows)"
    and dup: "\<And>p. p \<in> set plans \<Longrightarrow> duplicate p \<in> set hashed" and surv: "\<And>p. p \<in> set plans \<Longrightarrow> survivor p \<in> C"
    and C: "C \<subseteq> set rows" "\<And>c. c \<in> C \<Longrightarrow> row_id c \<notin> row_id ` set news" and act: "\<And>n. n \<in> set news \<Longrightarrow> row_status n = active"
    and tr: "transferred repoint plans (map (latest hashed) rows) rows'"
    and rp: "\<And>p f. p \<in> set plans \<Longrightarrow> repoint p = Inr f \<Longrightarrow> takes_place (survivor p) (duplicate p) f \<and> row_status f = active"
  shows "relocation C news rows rows'"
proof -
  let ?H = "map (latest hashed) rows"
  have d: "distinct (map row_id rows)" using ok by (simp add: table_ok_def)
  have dh: "distinct (map row_id hashed)"
  proof -
    have "map row_id hashed = map row_id news" using h by (auto simp: list_all2_conv_all_nth rehashed_columns intro!: nth_equalityI)
    then show ?thesis using dn by simp
  qed
  have dH: "distinct (map row_id ?H)" using d by (simp add: comp_def)
  note lh = latest_rehashed [OF d sub dh h]
  have tok: "table_ok rows'" and ex: "\<And>p. p \<in> set plans \<Longrightarrow> \<exists>f \<in> set rows'. repoint p = Inr f"
    and stay: "\<And>r. r \<in> set ?H \<Longrightarrow> \<forall>p \<in> set plans. row_id r \<noteq> row_id (survivor p) \<and> row_id r \<noteq> row_id (duplicate p) \<Longrightarrow> r \<in> set rows'"
    and ids: "row_id ` set rows' = row_id ` set ?H - (\<lambda>p. row_id (duplicate p)) ` set plans"
    using tr unfolding transferred_def by blast+
  have inH: "survivor p \<in> set ?H" "duplicate p \<in> set ?H" if "p \<in> set plans" for p using pl that by (auto simp: plans_ok_def)
  have of_new: "\<exists>n \<in> set news. rehashed n (duplicate p) \<and> (\<forall>f. takes_place s (duplicate p) f \<longrightarrow> takes_place s n f)" if p: "p \<in> set plans" for p s
  proof -
    obtain n where n: "n \<in> set news" "rehashed n (duplicate p)" using list_all2_in_set2 [OF h dup [OF p]] by blast
    have "takes_place s n f" if "takes_place s (duplicate p) f" for f using that rehashed_columns [OF n(2)] by (simp add: takes_place_def)
    with n show ?thesis by blast
  qed
  have src: "(\<exists>p \<in> set plans. repoint p = Inr r') \<or> r' \<in> set ?H" if r': "r' \<in> set rows'" for r'
  proof -
    have i: "row_id r' \<in> row_id ` set ?H - (\<lambda>p. row_id (duplicate p)) ` set plans" unfolding ids [symmetric] using r' by (rule imageI)
    then obtain r where r: "r \<in> set ?H" "row_id r = row_id r'" by (metis DiffD1 imageE)
    with i have "\<forall>p \<in> set plans. row_id r \<noteq> row_id (duplicate p)" by (metis DiffD2 imageI)
    note r = r this
    show ?thesis
    proof (cases "\<exists>p \<in> set plans. row_id r = row_id (survivor p)")
      case True
      then obtain p where p: "p \<in> set plans" "row_id r = row_id (survivor p)" by blast
      obtain f where f: "f \<in> set rows'" "repoint p = Inr f" using ex [OF p(1)] by blast
      then have "row_id f = row_id r'" using rp [OF p(1) f(2)] p(2) r(2) by (simp add: takes_place_def)
      then have "f = r'" using same_row [of rows' f r'] tok f(1) r' by (simp add: table_ok_def)
      with p(1) f(2) show ?thesis by blast
    next
      case False
      then have "r \<in> set rows'" using stay r by blast
      then have "r = r'" using same_row [of rows' r r'] tok r' r(2) by (simp add: table_ok_def)
      with r(1) show ?thesis by blast
    qed
  qed
  have c1: "(\<exists>r \<in> set rows. rehashed r r') \<or> (\<exists>c \<in> C. \<exists>n \<in> set news. takes_place c n r' \<and> row_status r' = active)" if r': "r' \<in> set rows'" for r'
    using src [OF r']
  proof
    assume "\<exists>p \<in> set plans. repoint p = Inr r'"
    then obtain p where p: "p \<in> set plans" "repoint p = Inr r'" by blast
    from of_new [OF p(1), of "survivor p"] rp [OF p] surv [OF p(1)] show ?thesis by blast
  next
    assume "r' \<in> set ?H"
    then show ?thesis using lh(1) by auto
  qed
  have c2: "\<exists>r' \<in> set rows'. row_id r' = row_id r \<and> row_identity r' = row_identity r \<and> (r' = r \<or> r \<in> C)"
    if r: "r \<in> set rows" "row_id r \<notin> row_id ` set news" for r
  proof (cases "\<exists>p \<in> set plans. row_id r = row_id (survivor p)")
    case True
    then obtain p f where p: "p \<in> set plans" "row_id r = row_id (survivor p)" "f \<in> set rows'" "repoint p = Inr f" using ex by blast
    have "survivor p = r" using same_row [OF d] C(1) surv [OF p(1)] r(1) p(2) by auto
    then show ?thesis using rp [OF p(1,4)] p(3) surv [OF p(1)] by (auto simp: takes_place_def)
  next
    case False
    have "row_id r \<noteq> row_id (duplicate p)" if "p \<in> set plans" for p
      using of_new [OF that] r(2) rehashed_columns(1) by (metis imageI)
    moreover have "r \<in> set ?H" using lh(2) [OF r(1) r(2)] r(1) by force
    ultimately show ?thesis using stay False by blast
  qed
  have c3: "\<exists>r' \<in> set rows'. index_key r' = index_key r \<and> row_size r' = row_size r \<and> row_mtime r' = row_mtime r \<and> row_path r' = row_path r \<and> row_status r' = row_status r"
    if r: "r \<in> set rows" "r \<notin> C" for r
  proof (cases "\<exists>p \<in> set plans. row_id r = row_id (duplicate p)")
    case True
    then obtain p f where p: "p \<in> set plans" "row_id r = row_id (duplicate p)" "f \<in> set rows'" "repoint p = Inr f" using ex by blast
    obtain n where n: "n \<in> set news" "rehashed n (duplicate p)" using of_new [OF p(1)] by blast
    then have "n = r" using same_row [OF d _ r(1)] sub p(2) rehashed_columns(1) [OF n(2)] by auto
    then have "row_status r = active" "rehashed r (duplicate p)" using act n by auto
    then show ?thesis using rp [OF p(1,4)] p(3) rehashed_columns [of r "duplicate p"]
      by (intro bexI [of _ f]) (auto simp: takes_place_def index_key_def)
  next
    case False
    have "row_id r \<noteq> row_id (survivor p)" if "p \<in> set plans" for p
      using same_row [OF d _ r(1), of "survivor p"] C(1) surv [OF that] r(2) by auto
    moreover have "latest hashed r \<in> set ?H" using r(1) by simp
    ultimately have "latest hashed r \<in> set rows'" using stay [of "latest hashed r"] False by auto
    then show ?thesis using rehashed_columns [OF lh(1) [OF r(1)]] by blast
  qed
  show ?thesis unfolding relocation_def using tok c1 c2 c3 by blast
qed

text \<open>No path of the table starts with the character of the sentinels.\<close>

definition sentinel_free :: "ItemRow list \<Rightarrow> bool" where
  "sentinel_free rows \<longleftrightarrow> (\<forall>r \<in> set rows. \<not> startswith (row_rel_path r) [65535])"

lemma sentinel_free_unmarked:
  assumes "sentinel_free rows"
  shows "unmarked MOVE_PENDING rows" "unmarked XMOVE_PENDING rows"
proof -
  have "startswith rel [c]" if "startswith rel (c # mark)" for c and rel mark :: codepoints
    using that by (cases rel) (simp_all add: startswith_def)
  with assms show "unmarked MOVE_PENDING rows" "unmarked XMOVE_PENDING rows"
    unfolding sentinel_free_def unmarked_def MOVE_PENDING_def XMOVE_PENDING_def by blast+
qed

definition new_rows_ok :: "scan_cfg \<Rightarrow> uuid list \<Rightarrow> ItemRow list \<Rightarrow> bool" where
  "new_rows_ok cfg ids rows \<longleftrightarrow> (\<forall>n \<in> set rows. row_id n \<in> set ids \<longrightarrow>
     row_library n = sc_lib cfg \<and> row_status n = active \<and> encodable (sc_digest cfg) (sc_lib cfg) n)"

lemma relocation_sentinel_free:
  assumes "relocation C N rows rows'" "set N \<subseteq> set rows" "sentinel_free rows"
  shows "sentinel_free rows'"
  unfolding sentinel_free_def
proof
  fix r' assume "r' \<in> set rows'"
  then consider r where "r \<in> set rows" "rehashed r r'" | c n where "n \<in> set N" "takes_place c n r'"
    using assms(1) unfolding relocation_def by blast
  then show "\<not> startswith (row_rel_path r') [65535]"
  proof cases
    case 1
    then show ?thesis using assms(3) rehashed_columns(5) [OF 1(2)] by (simp add: sentinel_free_def)
  next
    case 2
    then show ?thesis using assms(2,3) by (auto simp: sentinel_free_def takes_place_def)
  qed
qed

lemma relocation_new_rows:
  assumes "relocation C N rows rows'" "new_rows_ok cfg ids rows" "\<forall>c \<in> C. row_id c \<notin> set ids"
  shows "new_rows_ok cfg ids rows'"
  unfolding new_rows_ok_def
proof (intro ballI impI)
  fix r' assume r': "r' \<in> set rows'" "row_id r' \<in> set ids"
  have "\<not> (\<exists>c \<in> C. \<exists>n \<in> set N. takes_place c n r' \<and> row_status r' = active)" using r'(2) assms(3) by (auto simp: takes_place_def)
  then obtain r where r: "r \<in> set rows" "rehashed r r'" using assms(1) r'(1) unfolding relocation_def by blast
  then show "row_library r' = sc_lib cfg \<and> row_status r' = active \<and> encodable (sc_digest cfg) (sc_lib cfg) r'"
    using assms(2) r'(2) rehashed_columns [OF r(2)] by (simp add: new_rows_ok_def encodable_def)
qed

lemma rows_by_id_simps:
  "set (rows_by_id ks rows) = {r \<in> set rows. row_id r \<in> set ks}" "distinct (map row_id rows) \<Longrightarrow> distinct (map row_id (rows_by_id ks rows))"
  by (auto simp: rows_by_id_def distinct_map_filter)

lemma intra_relocation:
  assumes ok: "table_ok rows" "sentinel_free rows" "new_rows_ok cfg ids rows" "set ids \<subseteq> row_id ` set rows"
    and c: "set cands \<subseteq> set rows" "distinct (map row_id cands)" "\<forall>c \<in> set cands. row_library c = sc_lib cfg \<and> row_id c \<notin> set ids"
  shows "\<exists>rows' m a outs. intra_moves cfg now cands ids rows = Inr (rows', m, a, outs) \<and> relocation (set cands) (rows_by_id ids rows) rows rows'"
proof (cases "cands \<noteq> [] \<and> ids \<noteq> []")
  case True
  let ?news = "rows_by_id ids rows"
  have d: "distinct (map row_id rows)" using ok(1) by (simp add: table_ok_def)
  have dn: "distinct (map row_id ?news)" by (rule rows_by_id_simps(2) [OF d])
  have ne: "?news \<noteq> []"
  proof -
    obtain r where "r \<in> set rows" "row_id r \<in> set ids" using True ok(4) by (cases ids) auto
    then have "r \<in> set ?news" by (simp add: rows_by_id_simps(1))
    then show ?thesis by auto
  qed
  have args: "move_args MOVE_PENDING (sc_lib cfg) cands ?news rows"
    unfolding move_args_def using ok c dn sentinel_free_unmarked(1) [OF ok(2)] by (auto simp: rows_by_id_simps(1) new_rows_ok_def)
  have enc: "\<forall>n \<in> set ?news. encodable (sc_digest cfg) (sc_lib cfg) n" using ok(3) by (simp add: rows_by_id_simps(1) new_rows_ok_def)
  have clib: "\<forall>x \<in> set cands. row_library x = sc_lib cfg" using c(3) by blast
  obtain hashed rows' where h: "list_all2 rehashed ?news hashed" "move_args MOVE_PENDING (sc_lib cfg) cands hashed (map (latest hashed) rows)"
    and run: "detect_moves (sc_digest cfg) (sc_hashers cfg) (sc_files cfg) now cands ?news (sc_full_max cfg) (sc_compute_content cfg) rows
      = Inr (rows', length (fst (plan_moves cands hashed)), snd (plan_moves cands hashed), map moved_out_of (fst (plan_moves cands hashed)))"
    and tr: "transferred (repoint_moved (sc_digest cfg) now) (fst (plan_moves cands hashed)) (map (latest hashed) rows) rows'"
    by (rule detect_moves_result [OF args clib enc conjunct1 [OF True] ne])
  note mem = planned_members [OF h(2)]
  have act: "row_status n = active \<and> row_library n = sc_lib cfg" if "n \<in> set ?news" for n using that ok(3) by (simp add: rows_by_id_simps(1) new_rows_ok_def)
  have "relocation (set cands) ?news rows rows'"
  proof (rule relocation_of_transfer [OF ok(1) _ dn h(1) planned_ok [OF h(2)] mem(2) mem(1) c(1) _ _ tr])
    show "set ?news \<subseteq> set rows" by (auto simp: rows_by_id_simps(1))
    show "row_id x \<notin> row_id ` set ?news" if "x \<in> set cands" for x using c(3) that by (auto simp: rows_by_id_simps(1))
    show "row_status n = active" if "n \<in> set ?news" for n using act [OF that] by simp
    fix p f assume p: "p \<in> set (fst (plan_moves cands hashed))" "repoint_moved (sc_digest cfg) now p = Inr f"
    obtain n where n: "n \<in> set ?news" "rehashed n (duplicate p)" using list_all2_in_set2 [OF h(1) mem(2) [OF p(1)]] by blast
    have "row_library (survivor p) = row_library (duplicate p)" "row_status (duplicate p) = active"
      using clib mem(1) [OF p(1)] act [OF n(1)] rehashed_columns [OF n(2)] by auto
    then show "takes_place (survivor p) (duplicate p) f \<and> row_status f = active"
      using repoint_moved_columns [OF p(2)] by (simp add: takes_place_def)
  qed
  then show ?thesis using True run by (simp add: intra_moves_def)
next
  case False
  then have "intra_moves cfg now cands ids rows = Inr (rows, 0, 0, [])" by (auto simp: intra_moves_def)
  with relocation_refl [OF ok(1)] show ?thesis by blast
qed

definition strays :: "scan_cfg \<Rightarrow> ItemRow list \<Rightarrow> ItemRow set" where
  "strays cfg rows = {t \<in> set rows. tombstone_elsewhere (sc_agent_sourced cfg) (sc_lib cfg) t}"

lemma cross_relocation:
  assumes ok: "table_ok rows" "sentinel_free rows" "new_rows_ok cfg ids rows"
  shows "\<exists>rows' m a ks. cross_moves cfg now ids rows = Inr (rows', m, a, ks) \<and> relocation (strays cfg rows) (rows_by_id ids rows) rows rows'"
proof (cases "ids \<noteq> [] \<and> sc_cross_moves cfg \<and> rows_by_id ids rows \<noteq> []")
  case True
  let ?news = "rows_by_id ids rows" and ?lib = "sc_lib cfg"
  have d: "distinct (map row_id rows)" using ok(1) by (simp add: table_ok_def)
  have dn: "distinct (map row_id ?news)" by (rule rows_by_id_simps(2) [OF d])
  have args: "move_args XMOVE_PENDING ?lib [] ?news rows"
    unfolding move_args_def using ok dn sentinel_free_unmarked(2) [OF ok(2)] by (auto simp: rows_by_id_simps(1) new_rows_ok_def)
  have enc: "\<forall>n \<in> set ?news. encodable (sc_digest cfg) ?lib n" using ok(3) by (simp add: rows_by_id_simps(1) new_rows_ok_def)
  have act: "row_status n = active \<and> row_library n = ?lib" if "n \<in> set ?news" for n using that ok(3) by (simp add: rows_by_id_simps(1) new_rows_ok_def)
  obtain rows' plans amb hashed everyone where
    run: "detect_cross_library_moves (sc_digest cfg) (sc_hashers cfg) (sc_files cfg) (sc_agent_sourced cfg) now ?news ?lib (sc_full_max cfg)
      (sc_compute_content cfg) rows = Inr (rows', length plans, amb, map (\<lambda>p. row_id (survivor p)) plans)"
    and tr: "transferred (repoint_cross (sc_digest cfg) now ?lib) plans (map (latest everyone) rows) rows'"
    and h: "list_all2 rehashed ?news everyone" "set hashed \<subseteq> set everyone"
    and pl: "\<forall>p \<in> set plans. survivor p \<in> set rows \<and> tombstone_elsewhere (sc_agent_sourced cfg) ?lib (survivor p) \<and> duplicate p \<in> set hashed
       \<and> same_bytes (survivor p) (duplicate p)"
    and pok: "plans_ok plans (map (latest everyone) rows)"
    by (rule cross_result [OF args enc])
  have "relocation (strays cfg rows) ?news rows rows'"
  proof (rule relocation_of_transfer [OF ok(1) _ dn h(1) pok _ _ _ _ _ tr])
    show "set ?news \<subseteq> set rows" by (auto simp: rows_by_id_simps(1))
    show "strays cfg rows \<subseteq> set rows" by (auto simp: strays_def)
    show "row_id x \<notin> row_id ` set ?news" if x: "x \<in> strays cfg rows" for x
    proof
      assume "row_id x \<in> row_id ` set ?news"
      then obtain n where n: "n \<in> set ?news" "row_id n = row_id x" by auto
      then have "n = x" using same_row [OF d, of n x] x by (simp add: strays_def rows_by_id_simps(1))
      with act [OF n(1)] x show False by (simp add: strays_def tombstone_elsewhere_def)
    qed
    show "row_status n = active" if "n \<in> set ?news" for n using act [OF that] by simp
    show "duplicate p \<in> set everyone" if "p \<in> set plans" for p using pl h(2) that by blast
    show "survivor p \<in> strays cfg rows" if "p \<in> set plans" for p using pl that by (simp add: strays_def)
    fix p f assume p: "p \<in> set plans" "repoint_cross (sc_digest cfg) now ?lib p = Inr f"
    have "duplicate p \<in> set everyone" using pl p(1) h(2) by blast
    then obtain n where n: "n \<in> set ?news" "rehashed n (duplicate p)" using list_all2_in_set2 [OF h(1)] by blast
    have "row_library (duplicate p) = ?lib" using act [OF n(1)] rehashed_columns(4) [OF n(2)] by simp
    then show "takes_place (survivor p) (duplicate p) f \<and> row_status f = active"
      using repoint_cross_columns [OF p(2)] by (simp add: takes_place_def)
  qed
  then show ?thesis using True run by (simp add: cross_moves_def)
next
  case False
  then have "cross_moves cfg now ids rows = Inr (rows, 0, 0, [])" by (auto simp: cross_moves_def)
  with relocation_refl [OF ok(1)] show ?thesis by blast
qed

section \<open>The table after the walk\<close>

lemma walked_rows:
  assumes inv: "loop_inv cfg R0 k seen st" and old: "old_table R0 k" and r: "r \<in> set (ws_rows st)"
  shows "(\<exists>r0 \<in> set R0. touched (sc_lib cfg) (we_rel ` set seen) r0 r \<and> row_id r < k) \<or> born cfg R0 (we_rel ` set seen) k (ws_next st) r"
  using inv
proof (rule loop_invE)
  fix olds news
  assume rows: "ws_rows st = olds @ news" and t: "list_all2 (touched (sc_lib cfg) (we_rel ` set seen)) R0 olds"
    and b: "\<forall>n \<in> set news. born cfg R0 (we_rel ` set seen) k (ws_next st) n"
  show ?thesis
  proof (cases "r \<in> set olds")
    case True
    then obtain r0 where r0: "r0 \<in> set R0" "touched (sc_lib cfg) (we_rel ` set seen) r0 r" using list_all2_in_set2 [OF t] by blast
    then show ?thesis using old touched_id [OF r0(2)] by (auto simp: old_table_def)
  qed (use r rows b in auto)
qed

lemma old_row_walked:
  assumes inv: "loop_inv cfg R0 k seen st" and r0: "r0 \<in> set R0"
  obtains r where "r \<in> set (ws_rows st)" "touched (sc_lib cfg) (we_rel ` set seen) r0 r"
  using inv
proof (rule loop_invE)
  fix olds news
  assume rows: "ws_rows st = olds @ news" and t: "list_all2 (touched (sc_lib cfg) (we_rel ` set seen)) R0 olds"
  from list_all2_in_set1 [OF t r0] rows show thesis by (auto intro: that)
qed

lemma new_ids_walked:
  assumes inv: "loop_inv cfg R0 k seen st" and old: "old_table R0 k"
  shows "set (ws_new_ids st) \<subseteq> row_id ` set (ws_rows st)" "i \<in> set (ws_new_ids st) \<Longrightarrow> k \<le> i" "new_rows_ok cfg (ws_new_ids st) (ws_rows st)"
proof -
  from inv have sub: "set (ws_new_ids st) \<subseteq> row_id ` {n \<in> set (ws_rows st). born cfg R0 (we_rel ` set seen) k (ws_next st) n}"
    by (rule loop_invE) auto
  then show "set (ws_new_ids st) \<subseteq> row_id ` set (ws_rows st)" by auto
  show low: "k \<le> i" if "i \<in> set (ws_new_ids st)" for i using sub that by (auto simp: born_def)
  show "new_rows_ok cfg (ws_new_ids st) (ws_rows st)"
    unfolding new_rows_ok_def
  proof (intro ballI impI)
    fix n assume "n \<in> set (ws_rows st)" "row_id n \<in> set (ws_new_ids st)"
    with walked_rows [OF inv old] low have "born cfg R0 (we_rel ` set seen) k (ws_next st) n" by fastforce
    then show "row_library n = sc_lib cfg \<and> row_status n = active \<and> encodable (sc_digest cfg) (sc_lib cfg) n" by (simp add: born_def)
  qed
qed

text \<open>A row of the library is at a path the walk saw or is an old row at its old path.\<close>

definition accounted :: "scan_cfg \<Rightarrow> ItemRow list \<Rightarrow> codepoints set \<Rightarrow> ItemRow list \<Rightarrow> bool" where
  "accounted cfg R0 S rows \<longleftrightarrow> (\<forall>r \<in> set rows. row_library r = sc_lib cfg \<longrightarrow>
     row_rel_path r \<in> S \<or> (\<exists>r0 \<in> set R0. row_id r0 = row_id r \<and> index_key r0 = index_key r))"

lemma accounted_walk:
  assumes "loop_inv cfg R0 k seen st" "old_table R0 k"
  shows "accounted cfg R0 (we_rel ` set seen) (ws_rows st)"
  unfolding accounted_def using walked_rows [OF assms] touched_id by (metis born_def)

lemma accounted_relocation:
  assumes "relocation C (rows_by_id ids rows) rows rows'" "accounted cfg R0 S rows" "\<forall>r0 \<in> set R0. row_id r0 \<notin> set ids"
    and "new_rows_ok cfg ids rows"
  shows "accounted cfg R0 S rows'"
  unfolding accounted_def
proof (intro ballI impI)
  fix r' assume r': "r' \<in> set rows'" "row_library r' = sc_lib cfg"
  then consider r where "r \<in> set rows" "rehashed r r'" | c n where "n \<in> set rows" "row_id n \<in> set ids" "takes_place c n r'"
    using assms(1) unfolding relocation_def rows_by_id_simps(1) by blast
  then show "row_rel_path r' \<in> S \<or> (\<exists>r0 \<in> set R0. row_id r0 = row_id r' \<and> index_key r0 = index_key r')"
  proof cases
    case 1
    then show ?thesis using assms(2) r'(2) rehashed_columns [OF 1(2)] by (simp add: accounted_def)
  next
    case 2
    then have "row_library n = sc_lib cfg" using assms(4) by (simp add: new_rows_ok_def)
    then have "row_rel_path n \<in> S" using assms(2,3) 2 by (metis accounted_def)
    then show ?thesis using 2(3) by (simp add: takes_place_def)
  qed
qed

lemma distinct_looked_up:
  assumes "distinct (map snd xs)" "\<forall>x \<in> set xs. f x = [] \<or> (\<exists>r. f x = [r] \<and> row_id r = snd x)"
  shows "distinct (map row_id (concat (map f xs)))"
proof -
  have sub: "\<forall>x \<in> set ys. f x = [] \<or> (\<exists>r. f x = [r] \<and> row_id r = snd x) \<Longrightarrow> row_id ` set (concat (map f ys)) \<subseteq> snd ` set ys" for ys
    by (induction ys) auto
  from assms show ?thesis
  proof (induction xs)
    case (Cons x xs)
    then have ih: "distinct (map row_id (concat (map f xs)))" and "row_id ` set (concat (map f xs)) \<subseteq> snd ` set xs" using sub [of xs] by auto
    then have nx: "snd x \<notin> row_id ` set (concat (map f xs))" using Cons.prems(1) by auto
    consider "f x = []" | r where "f x = [r]" "row_id r = snd x" using Cons.prems(2) by auto
    then show ?case by cases (use ih nx in auto)
  qed simp
qed

lemma candidates_walked:
  assumes inv: "loop_inv cfg R0 k seen st" and old: "old_table R0 k"
    and cands: "cands = move_candidates (existing_map (sc_lib cfg) R0) scope is_file recursive (ws_seen st) (ws_rows st)"
  shows "set cands \<subseteq> set (ws_rows st)" "distinct (map row_id cands)"
    and "\<forall>c \<in> set cands. row_library c = sc_lib cfg \<and> row_id c \<notin> set (ws_new_ids st) \<and> row_rel_path c \<notin> we_rel ` set seen
      \<and> in_scanned_set (row_rel_path c) scope is_file recursive"
proof -
  from inv have ok: "table_ok (ws_rows st)" and sn: "set (ws_seen st) = we_rel ` set seen" by (auto elim: loop_invE)
  have d: "distinct (map row_id (ws_rows st))" using ok by (simp add: table_ok_def)
  have dR: "distinct (map row_id R0)" using old by (simp add: old_table_def table_ok_def)
  then have "distinct (map snd (existing_map (sc_lib cfg) R0))" by (simp add: existing_map_def comp_def distinct_map_filter)
  note ids = distinct_looked_up [OF this, where f = "\<lambda>(rel, i). if in_scanned_set rel scope is_file recursive \<and> rel \<notin> set (ws_seen st)
      then (case row_of i (ws_rows st) of None \<Rightarrow> [] | Some r \<Rightarrow> [r]) else []"]
  have "distinct (map row_id (concat (map (\<lambda>(rel, i). if in_scanned_set rel scope is_file recursive \<and> rel \<notin> set (ws_seen st)
      then (case row_of i (ws_rows st) of None \<Rightarrow> [] | Some r \<Rightarrow> [r]) else []) (existing_map (sc_lib cfg) R0))))"
  proof (intro ids ballI, goal_cases)
    case (1 x)
    obtain rel i where x: "x = (rel, i)" by fastforce
    show ?case
    proof (cases "row_of i (ws_rows st)")
      case (Some r)
      then have "row_id r = i" using row_of_Some [OF d] by blast
      with Some x show ?thesis by simp
    qed (simp add: x)
  qed
  note ids = this
  show "distinct (map row_id cands)" unfolding cands move_candidates_def by (rule distinct_map_filter [OF ids])
  have c: "c \<in> set (ws_rows st) \<and> (\<exists>r0 \<in> set R0. row_library r0 = sc_lib cfg \<and> row_id r0 = row_id c
      \<and> in_scanned_set (row_rel_path r0) scope is_file recursive \<and> row_rel_path r0 \<notin> we_rel ` set seen)" if "c \<in> set cands" for c
    using that row_of_Some [OF d, THEN iffD1, OF sym] sn by (fastforce simp: cands move_candidates_def existing_map_def split: if_splits option.splits)
  then show "set cands \<subseteq> set (ws_rows st)" by blast
  show "\<forall>c \<in> set cands. row_library c = sc_lib cfg \<and> row_id c \<notin> set (ws_new_ids st) \<and> row_rel_path c \<notin> we_rel ` set seen
      \<and> in_scanned_set (row_rel_path c) scope is_file recursive"
  proof
    fix x assume "x \<in> set cands"
    with c obtain r0 where r0: "x \<in> set (ws_rows st)" "r0 \<in> set R0" "row_library r0 = sc_lib cfg" "row_id r0 = row_id x"
      "in_scanned_set (row_rel_path r0) scope is_file recursive" "row_rel_path r0 \<notin> we_rel ` set seen" by blast
    obtain y where y: "y \<in> set (ws_rows st)" "touched (sc_lib cfg) (we_rel ` set seen) r0 y" by (rule old_row_walked [OF inv r0(2)])
    have "y = x" using same_row [OF d y(1) r0(1)] touched_id [OF y(2)] r0(4) by simp
    then have "index_key x = index_key r0" using touched_id [OF y(2)] by simp
    moreover have "row_id x < k" using old r0(2,4) by (auto simp: old_table_def)
    then have "row_id x \<notin> set (ws_new_ids st)" using new_ids_walked(2) [OF inv old] by fastforce
    ultimately show "row_library x = sc_lib cfg \<and> row_id x \<notin> set (ws_new_ids st) \<and> row_rel_path x \<notin> we_rel ` set seen
      \<and> in_scanned_set (row_rel_path x) scope is_file recursive" using r0 by (simp add: index_key_def)
  qed
qed

section \<open>The table at the end\<close>

text \<open>The row of a listed file is active; a trashed row stays trashed when the file is as it was.\<close>

definition listed_status :: "uuid \<Rightarrow> ItemRow list \<Rightarrow> codepoints \<Rightarrow> ItemStatus \<Rightarrow> bool" where
  "listed_status lib R0 rel s \<longleftrightarrow> s = active \<or> s = trashed \<and> (\<exists>r0 \<in> set R0. index_key r0 = (lib, rel) \<and> row_status r0 = trashed)"

definition present_as :: "uuid \<Rightarrow> ItemRow list \<Rightarrow> ItemRow list \<Rightarrow> walk_entry \<Rightarrow> bool" where
  "present_as lib R0 rows e \<longleftrightarrow> (\<exists>r \<in> set rows. index_key r = (lib, we_rel e) \<and> row_size r = Some (we_size e) \<and> row_mtime r = we_mtime e
     \<and> row_path r = we_path e \<and> listed_status lib R0 (we_rel e) (row_status r))"

definition survives :: "ItemRow list \<Rightarrow> ItemRow \<Rightarrow> bool" where
  "survives rows r0 \<longleftrightarrow> (\<exists>r \<in> set rows. row_id r = row_id r0 \<and> user_data (row_identity r) = user_data (row_identity r0))"

lemma walk_present:
  assumes inv: "loop_inv cfg R0 k seen st" and old: "old_table R0 k" and e: "e \<in> set seen"
  shows "present_as (sc_lib cfg) R0 (ws_rows st) e"
proof -
  from inv e obtain r where r: "r \<in> set (ws_rows st)" "index_key r = (sc_lib cfg, we_rel e)" "as_seen e r" by (auto elim!: loop_invE)
  have "listed_status (sc_lib cfg) R0 (we_rel e) (row_status r)"
    using walked_rows [OF inv old r(1)]
  proof
    assume "\<exists>r0 \<in> set R0. touched (sc_lib cfg) (we_rel ` set seen) r0 r \<and> row_id r < k"
    then obtain r0 where r0: "r0 \<in> set R0" and t: "touched (sc_lib cfg) (we_rel ` set seen) r0 r" by blast
    then have key: "index_key r0 = (sc_lib cfg, we_rel e)" using touched_id [OF t] r(2) by simp
    then have "row_status r \<noteq> missing" using t e by (simp add: touched_def)
    moreover have "row_status r = row_status r0 \<or> row_status r = active" using t by (simp add: touched_def kept_row_def)
    ultimately show ?thesis using r0 key by (cases "row_status r") (auto simp: listed_status_def)
  qed (simp add: born_def listed_status_def)
  with r show ?thesis by (auto simp: present_as_def as_seen_def)
qed

lemma walk_survives:
  assumes "loop_inv cfg R0 k seen st" "r0 \<in> set R0"
  shows "survives (ws_rows st) r0"
proof -
  obtain r where "r \<in> set (ws_rows st)" "touched (sc_lib cfg) (we_rel ` set seen) r0 r" by (rule old_row_walked [OF assms])
  then show ?thesis by (auto simp: survives_def touched_def kept_row_def)
qed

lemma relocation_present:
  assumes "relocation C N rows rows'" "present_as lib R0 rows e" "\<forall>c \<in> C. index_key c \<noteq> (lib, we_rel e)"
  shows "present_as lib R0 rows' e"
proof -
  from assms(2) obtain r where r: "r \<in> set rows" "index_key r = (lib, we_rel e)" "row_size r = Some (we_size e)" "row_mtime r = we_mtime e"
    "row_path r = we_path e" "listed_status lib R0 (we_rel e) (row_status r)" by (auto simp: present_as_def)
  then have "r \<notin> C" using assms(3) by blast
  then obtain r' where "r' \<in> set rows'" "index_key r' = index_key r" "row_size r' = row_size r" "row_mtime r' = row_mtime r"
    "row_path r' = row_path r" "row_status r' = row_status r" using assms(1) r(1) unfolding relocation_def by blast
  with r show ?thesis by (auto simp: present_as_def)
qed

lemma relocation_survives:
  assumes "relocation C N rows rows'" "survives rows r0" "row_id r0 \<notin> row_id ` set N"
  shows "survives rows' r0"
proof -
  from assms(2) obtain r where r: "r \<in> set rows" "row_id r = row_id r0" "user_data (row_identity r) = user_data (row_identity r0)" by (auto simp: survives_def)
  then have "row_id r \<notin> row_id ` set N" using assms(3) by simp
  then obtain r' where "r' \<in> set rows'" "row_id r' = row_id r" "row_identity r' = row_identity r" using assms(1) r(1) unfolding relocation_def by blast
  with r show ?thesis by (auto simp: survives_def)
qed

lemma relocation_unchanged:
  assumes "relocation C N rows rows'" "r0 \<in> set rows" "row_id r0 \<notin> row_id ` set N" "r0 \<notin> C"
  shows "r0 \<in> set rows'"
  using assms unfolding relocation_def by blast

section \<open>Tombstones\<close>

definition marked :: "uuid list \<Rightarrow> ItemRow \<Rightarrow> ItemRow" where
  "marked ks r = (if row_id r \<in> set ks then r\<lparr>row_status := missing\<rparr> else r)"

lemma marked_simps [simp]:
  "row_id (marked ks r) = row_id r" "index_key (marked ks r) = index_key r" "row_identity (marked ks r) = row_identity r"
  "row_library (marked ks r) = row_library r" "row_rel_path (marked ks r) = row_rel_path r" "row_size (marked ks r) = row_size r"
  "row_mtime (marked ks r) = row_mtime r" "row_path (marked ks r) = row_path r"
  by (simp_all add: marked_def index_key_def)

lemma mark_missing_map: "mark_missing ks rows = map (marked ks) rows"
  by (simp add: mark_missing_def marked_def)

lemma table_ok_cong: "map row_id rows' = map row_id rows \<Longrightarrow> map index_key rows' = map index_key rows \<Longrightarrow> table_ok rows' = table_ok rows"
  by (simp add: table_ok_def unique_rel_def)

lemma tombstones_iff:
  assumes d: "distinct (map row_id rows)" and r: "r \<in> set rows"
  shows "row_id r \<in> set (tombstones (existing_map lib R0) scope is_file recursive seen rows) \<longleftrightarrow>
    row_status r = active \<and> row_rel_path r \<notin> set seen
    \<and> (\<exists>r0 \<in> set R0. row_id r0 = row_id r \<and> row_library r0 = lib \<and> row_rel_path r0 \<notin> set seen \<and> in_scanned_set (row_rel_path r0) scope is_file recursive)"
proof -
  have "row_of (row_id r) rows = Some r" using row_of_Some [OF d] r by blast
  then show ?thesis by (auto simp: tombstones_def existing_map_def image_iff) (metis option.simps(5))+
qed

text \<open>What a finished walk over the entries \<open>dn\<close> leaves: nothing is deleted, nothing outside the scanned set is
  touched, every entry is there, and every active row of the scanned set is one of the entries.\<close>

definition stored_years :: "ItemRow list \<Rightarrow> ItemRow list \<Rightarrow> bool" where
  "stored_years R0 rows \<longleftrightarrow> (list_all (\<lambda>r. year_fits (row_identity r)) R0 \<longrightarrow> list_all (\<lambda>r. year_fits (row_identity r)) rows)"

lemma walk_years: "loop_inv cfg R0 k seen st \<Longrightarrow> old_table R0 k \<Longrightarrow> stored_years R0 (ws_rows st)"
  using walked_rows by (fastforce simp: stored_years_def list_all_iff touched_def kept_row_def born_def year_fits_def)

lemma relocation_years:
  assumes "relocation C N rows rows'" "C \<subseteq> set rows" "stored_years R0 rows"
  shows "stored_years R0 rows'"
  unfolding stored_years_def list_all_iff
proof (intro impI ballI)
  fix r' assume R0: "\<forall>r \<in> set R0. year_fits (row_identity r)" and "r' \<in> set rows'"
  then have "(\<exists>r \<in> set rows. rehashed r r') \<or> (\<exists>c \<in> C. \<exists>n \<in> set N. takes_place c n r')" using assms(1) unfolding relocation_def by blast
  then obtain r where "r \<in> set rows" "row_identity r' = row_identity r"
    using assms(2) rehashed_columns(12) by (auto simp: takes_place_def)
  then show "year_fits (row_identity r')" using assms(3) R0 by (simp add: stored_years_def list_all_iff)
qed

definition settled :: "scan_cfg \<Rightarrow> ItemRow list \<Rightarrow> codepoints \<Rightarrow> bool \<Rightarrow> bool \<Rightarrow> walk_entry list \<Rightarrow> ItemRow list \<Rightarrow> bool" where
  "settled cfg R0 scope is_file recursive dn rows \<longleftrightarrow> table_ok rows
     \<and> (\<forall>r0 \<in> set R0. survives rows r0) \<and> stored_years R0 rows
     \<and> (\<forall>r0 \<in> set R0. index_key r0 \<notin> {sc_lib cfg} \<times> we_rel ` set dn
          \<and> \<not> (row_library r0 = sc_lib cfg \<and> in_scanned_set (row_rel_path r0) scope is_file recursive)
          \<and> \<not> tombstone_elsewhere (sc_agent_sourced cfg) (sc_lib cfg) r0 \<longrightarrow> r0 \<in> set rows)
     \<and> (\<forall>e \<in> set dn. present_as (sc_lib cfg) R0 rows e)
     \<and> (\<forall>r \<in> set rows. row_library r = sc_lib cfg \<and> row_status r = active \<and> in_scanned_set (row_rel_path r) scope is_file recursive
          \<longrightarrow> row_rel_path r \<in> we_rel ` set dn)"

lemma settled_marked:
  assumes ok: "table_ok rows" and S: "set seen = we_rel ` set dn" and sv: "\<forall>r0 \<in> set R0. survives rows r0"
    and un: "\<forall>r0 \<in> set R0. index_key r0 \<notin> {sc_lib cfg} \<times> we_rel ` set dn
          \<and> \<not> (row_library r0 = sc_lib cfg \<and> in_scanned_set (row_rel_path r0) scope is_file recursive)
          \<and> \<not> tombstone_elsewhere (sc_agent_sourced cfg) (sc_lib cfg) r0 \<longrightarrow> r0 \<in> set rows"
    and yr: "stored_years R0 rows" and pr: "\<forall>e \<in> set dn. present_as (sc_lib cfg) R0 rows e" and ac: "accounted cfg R0 (we_rel ` set dn) rows" and R: "distinct (map row_id R0)"
  shows "settled cfg R0 scope is_file recursive dn (mark_missing (tombstones (existing_map (sc_lib cfg) R0) scope is_file recursive seen rows) rows)"
proof -
  let ?ks = "tombstones (existing_map (sc_lib cfg) R0) scope is_file recursive seen rows"
  have d: "distinct (map row_id rows)" using ok by (simp add: table_ok_def)
  note iff = tombstones_iff [OF d, of _ "sc_lib cfg" R0 scope is_file recursive seen]
  have "table_ok (map (marked ?ks) rows)" using ok by (subst table_ok_cong [of _ rows]) simp_all
  moreover have "survives (map (marked ?ks) rows) r0" if "r0 \<in> set R0" for r0 using sv that by (auto simp: survives_def)
  moreover have "stored_years R0 (map (marked ?ks) rows)" using yr by (auto simp: stored_years_def list_all_iff marked_def)
  moreover have "r0 \<in> set (map (marked ?ks) rows)" if r0: "r0 \<in> set R0" "index_key r0 \<notin> {sc_lib cfg} \<times> we_rel ` set dn"
    "\<not> (row_library r0 = sc_lib cfg \<and> in_scanned_set (row_rel_path r0) scope is_file recursive)"
    "\<not> tombstone_elsewhere (sc_agent_sourced cfg) (sc_lib cfg) r0" for r0
  proof -
    have mem: "r0 \<in> set rows" using un r0 by blast
    have "row_id r0 \<notin> set ?ks" using iff [OF mem] same_row [OF R _ r0(1)] r0(3) by metis
    then have "marked ?ks r0 = r0" by (simp add: marked_def)
    with mem show ?thesis by force
  qed
  moreover have "present_as (sc_lib cfg) R0 (map (marked ?ks) rows) e" if e: "e \<in> set dn" for e
  proof -
    obtain r where r: "r \<in> set rows" "index_key r = (sc_lib cfg, we_rel e)" "row_size r = Some (we_size e)" "row_mtime r = we_mtime e"
      "row_path r = we_path e" "listed_status (sc_lib cfg) R0 (we_rel e) (row_status r)" using pr e by (auto simp: present_as_def)
    then have "row_id r \<notin> set ?ks" using iff [OF r(1)] S e by (auto simp: index_key_def)
    then have "row_status (marked ?ks r) = row_status r" by (simp add: marked_def)
    with r show ?thesis unfolding present_as_def by (intro bexI [of _ "marked ?ks r"]) simp_all
  qed
  moreover have "row_rel_path r' \<in> we_rel ` set dn" if r': "r' \<in> set (map (marked ?ks) rows)" "row_library r' = sc_lib cfg"
    "row_status r' = active" "in_scanned_set (row_rel_path r') scope is_file recursive" for r'
  proof (rule ccontr)
    assume n: "row_rel_path r' \<notin> we_rel ` set dn"
    obtain r where r: "r \<in> set rows" "r' = marked ?ks r" using r'(1) by auto
    then have nk: "row_id r \<notin> set ?ks" "row_status r = active" using r'(3) by (auto simp: marked_def split: if_splits)
    have "row_library r = sc_lib cfg" "row_rel_path r \<notin> we_rel ` set dn" using r'(2) n r(2) by simp_all
    then obtain r0 where "r0 \<in> set R0" "row_id r0 = row_id r" "index_key r0 = index_key r" using ac r(1) by (auto simp: accounted_def)
    moreover have "row_rel_path r \<notin> set seen" "in_scanned_set (row_rel_path r) scope is_file recursive" using n r'(4) r(2) S by simp_all
    ultimately have "\<exists>r0 \<in> set R0. row_id r0 = row_id r \<and> row_library r0 = sc_lib cfg \<and> row_rel_path r0 \<notin> set seen
        \<and> in_scanned_set (row_rel_path r0) scope is_file recursive"
      using r'(2) r(2) by (intro bexI [of _ r0]) (simp_all add: index_key_def)
    then have "row_id r \<in> set ?ks" using iff [OF r(1)] nk(2) n r(2) S by simp
    with nk show False by simp
  qed
  ultimately show ?thesis unfolding settled_def mark_missing_map by blast
qed

lemma wrap_up_settles:
  assumes inv: "loop_inv cfg R0 k dn st" and old: "old_table R0 k" and free: "sentinel_free (ws_rows st)"
  shows "\<exists>rows pending stats. wrap_up cfg now False (existing_map (sc_lib cfg) R0) scope is_file recursive st = Inr (rows, pending, stats)
    \<and> settled cfg R0 scope is_file recursive dn rows"
proof -
  let ?lib = "sc_lib cfg" and ?rows = "ws_rows st" and ?ids = "ws_new_ids st" and ?S = "we_rel ` set dn"
  let ?cands = "move_candidates (existing_map ?lib R0) scope is_file recursive (ws_seen st) ?rows"
  from inv have ok: "table_ok ?rows" and sn: "set (ws_seen st) = ?S" by (auto elim: loop_invE)
  note new = new_ids_walked [OF inv old] and cand = candidates_walked [OF inv old refl]
  have low: "row_id r0 \<notin> set ?ids" if "r0 \<in> set R0" for r0 using that old new(2) by (fastforce simp: old_table_def)
  have lowN: "row_id r0 \<notin> row_id ` set (rows_by_id ?ids rs)" if "r0 \<in> set R0" for r0 rs using low [OF that] by (auto simp: rows_by_id_simps(1))
  obtain rows1 m a outs where run1: "intra_moves cfg now ?cands ?ids ?rows = Inr (rows1, m, a, outs)"
    and rel1: "relocation (set ?cands) (rows_by_id ?ids ?rows) ?rows rows1"
    using intra_relocation [OF ok free new(3,1) cand(1,2)] cand(3) by blast
  have ok1: "table_ok rows1" using rel1 by (simp add: relocation_def)
  have free1: "sentinel_free rows1" by (rule relocation_sentinel_free [OF rel1 _ free]) (auto simp: rows_by_id_simps(1))
  have new1: "new_rows_ok cfg ?ids rows1" by (rule relocation_new_rows [OF rel1 new(3)]) (use cand(3) in blast)
  obtain rows2 m2 a2 ks where run2: "cross_moves cfg now ?ids rows1 = Inr (rows2, m2, a2, ks)"
    and rel2: "relocation (strays cfg rows1) (rows_by_id ?ids rows1) rows1 rows2"
    using cross_relocation [OF ok1 free1 new1] by blast
  have "accounted cfg R0 ?S rows2"
    using accounted_relocation [OF rel2 accounted_relocation [OF rel1 accounted_walk [OF inv old] _ new(3)] _ new1] low by blast
  moreover have "survives rows2 r0" if "r0 \<in> set R0" for r0
    using relocation_survives [OF rel2 relocation_survives [OF rel1 walk_survives [OF inv that]]] lowN that by blast
  moreover have "present_as ?lib R0 rows2 e" if "e \<in> set dn" for e
  proof (rule relocation_present [OF rel2 relocation_present [OF rel1 walk_present [OF inv old that]]])
    show "\<forall>c \<in> set ?cands. index_key c \<noteq> (?lib, we_rel e)" using cand(3) [of scope is_file recursive] imageI [OF that, of we_rel]
      unfolding index_key_def by (metis prod.inject)
    show "\<forall>c \<in> strays cfg rows1. index_key c \<noteq> (?lib, we_rel e)" by (auto simp: strays_def tombstone_elsewhere_def index_key_def)
  qed
  moreover have "r0 \<in> set rows2" if r0: "r0 \<in> set R0" "index_key r0 \<notin> {?lib} \<times> ?S"
    "\<not> (row_library r0 = ?lib \<and> in_scanned_set (row_rel_path r0) scope is_file recursive)"
    "\<not> tombstone_elsewhere (sc_agent_sourced cfg) ?lib r0" for r0
  proof -
    obtain r where r: "r \<in> set ?rows" "touched ?lib ?S r0 r" by (rule old_row_walked [OF inv r0(1)])
    then have "r = r0" using r0(2) by (simp add: touched_def)
    then have "r0 \<in> set ?rows" "r0 \<notin> set ?cands" using r cand(3) [of scope is_file recursive] r0(3) by auto
    then have "r0 \<in> set rows1" using relocation_unchanged [OF rel1 _ lowN [OF r0(1)]] by blast
    moreover have "r0 \<notin> strays cfg rows1" using r0(4) by (simp add: strays_def)
    ultimately show ?thesis using relocation_unchanged [OF rel2 _ lowN [OF r0(1)]] by blast
  qed
  moreover have "stored_years R0 rows2"
    using relocation_years [OF rel2 _ relocation_years [OF rel1 cand(1) walk_years [OF inv old]]] by (auto simp: strays_def)
  moreover have "table_ok rows2" "distinct (map row_id R0)" using rel2 old by (simp_all add: relocation_def old_table_def table_ok_def)
  ultimately have "settled cfg R0 scope is_file recursive dn (mark_missing (tombstones (existing_map ?lib R0) scope is_file recursive (ws_seen st) rows2) rows2)"
    by (intro settled_marked sn) blast+
  then show ?thesis using run1 run2 by (simp add: wrap_up_def Let_def)
qed

definition proper_fs :: "scan_fs \<Rightarrow> bool" where
  "proper_fs fs \<longleftrightarrow> pred_option proper_names (fs_root fs) \<and> pred_option proper_names (fs_scope fs)"

lemma scan_walk_result:
  assumes "scan_walk cfg fs scope is_file recursive = (es, audit, err)" "proper_fs fs"
  shows "distinct (map we_rel es)" "w \<in> set es \<Longrightarrow> in_scanned_set (we_rel w) scope is_file recursive"
proof -
  have "distinct (map we_rel es) \<and> (w \<in> set es \<longrightarrow> in_scanned_set (we_rel w) scope is_file recursive)"
  proof (cases is_file)
    case True
    then have "es = walk_one_file (sc_env cfg) (sc_root cfg) scope (fs_scope fs)" using assms(1) by (simp add: scan_walk_def Let_def)
    moreover have "we_rel (emitted q rel stat) = rel" for q rel stat by (simp add: emitted_def case_prod_unfold)
    ultimately show ?thesis using True
      by (auto simp: walk_one_file_def in_scanned_set_def split: option.splits fsnode.splits sum.splits if_splits)
  next
    case False
    let ?n = "if scope = [] then fs_root fs else fs_scope fs"
    show ?thesis
    proof (cases ?n)
      case None
      then show ?thesis using assms(1) False by (simp add: scan_walk_def Let_def)
    next
      case (Some d)
      then have r: "walk (sc_env cfg) (sc_root cfg) scope recursive (fresh_audit (sc_count_pruned cfg)) d = (es, audit, err)"
        using assms(1) False by (simp add: scan_walk_def Let_def)
      have "proper_names d" using assms(2) Some by (auto simp: proper_fs_def split: if_splits)
      from walk_result(1) [OF r this] below_in_scope [OF walk_result(2) [OF r this] this] False show ?thesis by simp
    qed
  qed
  then show "distinct (map we_rel es)" "w \<in> set es \<Longrightarrow> in_scanned_set (we_rel w) scope is_file recursive" by blast+
qed

section \<open>Outcomes\<close>

definition names_file :: "scan_fs \<Rightarrow> codepoints \<Rightarrow> bool" where
  "names_file fs scope \<longleftrightarrow> scope \<noteq> [] \<and> fs_kind fs \<noteq> ScopeDir"

text \<open>The entries of the walk that reach the diff.\<close>

definition admitted :: "scan_cfg \<Rightarrow> scan_fs \<Rightarrow> codepoints \<Rightarrow> bool \<Rightarrow> walk_entry list" where
  "admitted cfg fs scope recursive = filter (\<lambda>w. \<not> gated cfg w) (fst (scan_walk cfg fs scope (names_file fs scope) recursive))"

definition scan_ready :: "scan_cfg \<Rightarrow> scan_fs \<Rightarrow> codepoints \<Rightarrow> bool \<Rightarrow> ItemRow list \<Rightarrow> uuid \<Rightarrow> bool" where
  "scan_ready cfg fs scope recursive R0 k \<longleftrightarrow> old_table R0 k \<and> sentinel_free R0 \<and> proper_fs fs
     \<and> (\<forall>w \<in> set (admitted cfg fs scope recursive). \<not> startswith (we_rel w) [65535])"

lemma start_inv: "old_table R0 k \<Longrightarrow> loop_inv cfg R0 k [] (start_state R0 k)"
proof -
  assume "old_table R0 k"
  moreover have "list_all2 (touched (sc_lib cfg) {}) R0 R0" by (simp add: touched_def list_all2_refl)
  ultimately show ?thesis unfolding loop_inv_def by (intro conjI exI [of _ R0] exI [of _ "[]"]) (simp_all add: start_state_def old_table_def)
qed

lemma pulled_prefix: "\<exists>n. pulled es err = take n es"
  unfolding pulled_def by (metis take_all order_refl)

lemma walk_sentinel_free:
  assumes "loop_inv cfg R0 k dn st" "old_table R0 k" "sentinel_free R0" "\<forall>w \<in> set dn. \<not> startswith (we_rel w) [65535]"
  shows "sentinel_free (ws_rows st)"
  unfolding sentinel_free_def
proof
  fix r assume "r \<in> set (ws_rows st)"
  from walked_rows [OF assms(1,2) this] show "\<not> startswith (row_rel_path r) [65535]"
  proof
    assume "\<exists>r0 \<in> set R0. touched (sc_lib cfg) (we_rel ` set dn) r0 r \<and> row_id r < k"
    then show ?thesis using assms(3) by (auto simp: touched_def kept_row_def sentinel_free_def)
  qed (use assms(4) in \<open>auto simp: born_def\<close>)
qed

definition interrupted :: "scan_cfg \<Rightarrow> ItemRow list \<Rightarrow> uuid \<Rightarrow> walk_entry set \<Rightarrow> ItemRow list \<Rightarrow> bool" where
  "interrupted cfg R0 k A rows \<longleftrightarrow> (\<exists>rows1. snapshot cfg R0 k A rows1 \<and> list_all2 (associated (sc_lib cfg)) rows1 rows)"

definition complete :: "scan_cfg \<Rightarrow> ItemRow list \<Rightarrow> codepoints \<Rightarrow> bool \<Rightarrow> bool \<Rightarrow> walk_entry list \<Rightarrow> ItemRow list \<Rightarrow> bool" where
  "complete cfg R0 scope is_file recursive dn rows \<longleftrightarrow> (\<exists>rows1. settled cfg R0 scope is_file recursive dn rows1 \<and> list_all2 (associated (sc_lib cfg)) rows1 rows)"

text \<open>The scan has committed its own work, the diff, moves and tombstones of a complete walk: it finished, or only what
  follows, the sidecar pass or the hand-over of jobs, failed.\<close>

definition work_committed :: "run_status \<Rightarrow> bool" where
  "work_committed s = (case s of Finished \<Rightarrow> True | LinkingFailed stopped x \<Rightarrow> \<not> stopped | JobsFailed stopped \<Rightarrow> \<not> stopped | _ \<Rightarrow> False)"

lemma finished_associated:
  assumes "table_ok rows"
  shows "list_all2 (associated (sc_lib cfg)) rows (out_rows (finished cfg stopped st (rows, pending, stats)))"
    and "work_committed (out_status (finished cfg stopped st (rows, pending, stats))) \<longleftrightarrow> \<not> stopped"
  using associate_confined [of "lowering (sc_env cfg)" "sc_sidecars cfg" "sc_lib cfg" rows] assms associated_refl
  by (auto simp: finished_def linking_def work_committed_def table_ok_def list_all2_refl split: sum.split queue_state.split)

lemma finished_quietly:
  assumes "table_ok rows" "years_fit (sc_sidecars cfg) rows" "sc_queue cfg = QueueUp"
  shows "out_status (finished cfg False st (rows, pending, stats)) = Finished"
  using associate_total [OF assms(2), of "lowering (sc_env cfg)" "sc_lib cfg"] assms(1,3)
  by (auto simp: finished_def linking_def table_ok_def)

lemma scan_outcome:
  assumes ready: "scan_ready cfg fs (norm_scope scope_rel) recursive R0 k"
    and res: "res = scan_library cfg now fs sig queued scope_rel recursive force_empty R0 k"
  shows "if work_committed (out_status res)
    then complete cfg R0 (norm_scope scope_rel) (names_file fs (norm_scope scope_rel)) recursive (admitted cfg fs (norm_scope scope_rel) recursive) (out_rows res)
    else interrupted cfg R0 k (set (admitted cfg fs (norm_scope scope_rel) recursive)) (out_rows res)"
proof -
  let ?scope = "norm_scope scope_rel" and ?ex = "existing_map (sc_lib cfg) R0"
  let ?file = "names_file fs ?scope" and ?A = "admitted cfg fs ?scope recursive"
  have old: "old_table R0 k" "sentinel_free R0" "proper_fs fs" "\<forall>w \<in> set ?A. \<not> startswith (we_rel w) [65535]"
    using ready by (simp_all add: scan_ready_def)
  have snap0: "snapshot cfg R0 k A R0" for A
    using snapshotI [OF start_inv [OF old(1)], of A cfg] by (simp add: start_state_def)
  have selfr: "list_all2 (associated (sc_lib cfg)) rs rs" for rs by (simp add: list_all2_refl associated_refl)
  have int0: "interrupted cfg R0 k A R0" for A unfolding interrupted_def using snap0 selfr by blast
  obtain es audit err where w: "scan_walk cfg fs ?scope ?file recursive = (es, audit, err)" by (metis prod_cases3)
  obtain n where n: "pulled es err = take n es" using pulled_prefix by blast
  have A: "?A = filter (\<lambda>w. \<not> gated cfg w) es" by (simp add: admitted_def w)
  have d: "distinct (map we_rel ([] @ filter (\<lambda>e. \<not> gated cfg e) (pulled es err)))"
    using scan_walk_result(1) [OF w old(3)] n by (simp add: distinct_map_filter take_map [symmetric])
  have sub: "set (filter (\<lambda>e. \<not> gated cfg e) (pulled es err)) \<subseteq> set ?A" unfolding A n by (auto dest: in_set_takeD)
  obtain st fin where l: "scan_loop cfg now ?ex queued sig (pulled es err) (start_state R0 k) = (st, fin)" by fastforce
  have c0: "snapshot cfg R0 k (set []) (ws_committed (start_state R0 k))" using snap0 by (simp add: start_state_def)
  obtain dn where dn: "loop_inv cfg R0 k dn st" "snapshot cfg R0 k (set dn) (ws_committed st)"
    "set dn \<subseteq> set [] \<union> set (filter (\<lambda>e. \<not> gated cfg e) (pulled es err))"
    "fin = Through \<Longrightarrow> dn = [] @ filter (\<lambda>e. \<not> gated cfg e) (pulled es err)"
    by (rule scan_loop_inv [OF start_inv [OF old(1)] old(1) c0 d l]) blast
  have dA: "set dn \<subseteq> set ?A" using dn(3) sub by auto
  have com: "interrupted cfg R0 k (set ?A) (ws_committed st)" unfolding interrupted_def using snapshot_mono [OF dn(2) dA] selfr by blast
  have cur: "snapshot cfg R0 k (set ?A) (ws_rows st)" by (rule snapshotI [OF dn(1) dA])
  have free: "sentinel_free (ws_rows st)" by (rule walk_sentinel_free [OF dn(1) old(1,2)]) (use old(4) dA in blast)
  from wrap_up_settles [OF dn(1) old(1) free, of now ?scope ?file recursive] obtain rows1 pend stats where
    wr: "wrap_up cfg now False ?ex ?scope ?file recursive st = Inr (rows1, pend, stats)"
    and se: "settled cfg R0 ?scope ?file recursive dn rows1" by blast
  show ?thesis
  proof (cases "\<not> scannable_root (fs_root fs) \<or> ?scope \<noteq> [] \<and> fs_kind fs = ScopeAbsent \<and> map_of ?ex ?scope = None")
    case True
    then have "out_rows res = R0" "\<not> work_committed (out_status res)" using res
      by (auto simp: scan_library_def Let_def crashed_def start_state_def work_committed_def)
    then show ?thesis using int0 by simp
  next
    case False
    have run: "res = (case fin of
                Crashed x \<Rightarrow> crashed st x
              | Aborted \<Rightarrow> \<lparr>out_rows = ws_committed st, out_status = RunCancelled, out_deferred = ws_deferred st, out_stats = None\<rparr>
              | StopRequested \<Rightarrow> finished cfg True st (ws_rows st, ws_pending st, \<lparr>n_missing = 0, n_moved = 0, n_ambiguous = 0, n_cross = 0, n_cross_ambiguous = 0\<rparr>)
              | Through \<Rightarrow> (case err of Some x \<Rightarrow> crashed st (ScanOSError x)
                   | None \<Rightarrow> if empty_tree cfg force_empty ?scope audit st ?ex then crashed st ScanRootError else finished cfg False st (rows1, pend, stats)))"
    proof -
      have f: "scannable_root (fs_root fs)" "(?scope \<noteq> [] \<and> fs_kind fs = ScopeAbsent \<and> map_of ?ex ?scope = None) = False" using False by blast+
      have stop: "wrap_up cfg now True ?ex ?scope b recursive st
          = Inr (ws_rows st, ws_pending st, \<lparr>n_missing = 0, n_moved = 0, n_ambiguous = 0, n_cross = 0, n_cross_ambiguous = 0\<rparr>)" for b
        by (simp add: wrap_up_def)
      show ?thesis unfolding res scan_library_def Let_def f
        using f(1) w l wr stop unfolding names_file_def by (simp split: loop_end.split option.split)
    qed
    show ?thesis
    proof (cases "fin = Through \<and> err = None \<and> \<not> empty_tree cfg force_empty ?scope audit st ?ex")
      case True
      then have "res = finished cfg False st (rows1, pend, stats)" using run by simp
      moreover have "dn = ?A" using dn(4) True A by (simp add: pulled_def)
      moreover have "table_ok rows1" using se by (simp add: settled_def)
      ultimately show ?thesis using se finished_associated [of rows1 cfg False st pend stats] by (auto simp: complete_def)
    next
      case False
      have ok: "table_ok (ws_rows st)" using dn(1) by (auto elim: loop_invE)
      let ?r = "finished cfg True st (ws_rows st, ws_pending st, \<lparr>n_missing = 0, n_moved = 0, n_ambiguous = 0, n_cross = 0, n_cross_ambiguous = 0\<rparr>)"
      have stop: "interrupted cfg R0 k (set ?A) (out_rows ?r)" "\<not> work_committed (out_status ?r)"
        unfolding interrupted_def using cur finished_associated [OF ok, of cfg True st] by blast+
      have "fin = StopRequested \<and> res = ?r \<or> out_rows res = ws_committed st \<and> \<not> work_committed (out_status res)"
        using False run by (auto simp: crashed_def work_committed_def split: loop_end.splits option.splits if_splits)
      with com stop show ?thesis by auto
    qed
  qed
qed

section \<open>The sidecar pass leaves the rest alone\<close>

lemma associated_table:
  assumes "list_all2 (associated (sc_lib cfg)) rows rows'"
  shows "table_ok rows' = table_ok rows"
proof (rule table_ok_cong)
  show "map row_id rows' = map row_id rows" "map index_key rows' = map index_key rows"
    using assms by (auto simp: list_all2_conv_all_nth associated_columns(1,2) intro!: nth_equalityI)
qed

lemma present_associated:
  assumes "list_all2 (associated (sc_lib cfg)) rows rows'" "present_as lib R0 rows w"
  shows "present_as lib R0 rows' w"
proof -
  from assms(2) obtain r where r: "r \<in> set rows" "index_key r = (lib, we_rel w)" "row_size r = Some (we_size w)" "row_mtime r = we_mtime w"
    "row_path r = we_path w" "listed_status lib R0 (we_rel w) (row_status r)" by (auto simp: present_as_def)
  from list_all2_in_set1 [OF assms(1) r(1)] obtain r' where r': "r' \<in> set rows'" "associated (sc_lib cfg) r r'" by blast
  with r associated_columns [OF r'(2)] show ?thesis unfolding present_as_def by (intro bexI [of _ r']) simp_all
qed

lemma survives_associated:
  assumes "list_all2 (associated (sc_lib cfg)) rows rows'" "survives rows r0"
  shows "survives rows' r0"
proof -
  from assms(2) obtain r where r: "r \<in> set rows" "row_id r = row_id r0" "user_data (row_identity r) = user_data (row_identity r0)" by (auto simp: survives_def)
  from list_all2_in_set1 [OF assms(1) r(1)] obtain r' where r': "r' \<in> set rows'" "associated (sc_lib cfg) r r'" by blast
  with r associated_columns(1,9) [OF r'(2)] show ?thesis unfolding survives_def by (intro bexI [of _ r']) simp_all
qed

definition untouched :: "uuid \<Rightarrow> ItemRow list \<Rightarrow> ItemRow \<Rightarrow> bool" where
  "untouched lib rows r0 \<longleftrightarrow> (\<exists>r \<in> set rows. associated lib r0 r)"

lemma untouched_associated: "list_all2 (associated (sc_lib cfg)) rows rows' \<Longrightarrow> r0 \<in> set rows \<Longrightarrow> untouched (sc_lib cfg) rows' r0"
  unfolding untouched_def by (drule (1) list_all2_in_set1) blast

lemma interrupted_rows:
  assumes "interrupted cfg R0 k A rows"
  obtains st seen where "loop_inv cfg R0 k seen st" "set seen \<subseteq> A" "list_all2 (associated (sc_lib cfg)) (ws_rows st) rows"
  using assms by (auto simp: interrupted_def snapshot_def)

lemma interrupted_survives:
  assumes "interrupted cfg R0 k A rows" "r0 \<in> set R0"
  shows "survives rows r0" "table_ok rows"
proof -
  obtain st seen where i: "loop_inv cfg R0 k seen st" "list_all2 (associated (sc_lib cfg)) (ws_rows st) rows" by (rule interrupted_rows [OF assms(1)])
  show "survives rows r0" by (rule survives_associated [OF i(2) walk_survives [OF i(1) assms(2)]])
  show "table_ok rows" using i associated_table [OF i(2)] by (auto elim: loop_invE)
qed

lemma interrupted_untouched:
  assumes "interrupted cfg R0 k A rows" "r0 \<in> set R0" "index_key r0 \<notin> {sc_lib cfg} \<times> we_rel ` A"
  shows "untouched (sc_lib cfg) rows r0"
proof -
  obtain st seen where i: "loop_inv cfg R0 k seen st" "set seen \<subseteq> A" "list_all2 (associated (sc_lib cfg)) (ws_rows st) rows" by (rule interrupted_rows [OF assms(1)])
  obtain r where r: "r \<in> set (ws_rows st)" "touched (sc_lib cfg) (we_rel ` set seen) r0 r" by (rule old_row_walked [OF i(1) assms(2)])
  have "index_key r0 \<notin> {sc_lib cfg} \<times> we_rel ` set seen" using assms(3) image_mono [OF i(2), of we_rel] by (cases "index_key r0") auto
  then have "r = r0" using r(2) by (simp add: touched_def)
  with untouched_associated [OF i(3)] r(1) show ?thesis by simp
qed

section \<open>An undisturbed scan\<close>

lemma process_total:
  assumes inv: "loop_inv cfg R0 k seen st" and old: "old_table R0 k" and fresh: "we_rel e \<notin> we_rel ` set seen"
    and enc: "\<exists>sc. path_to_ltree (sc_digest cfg) (we_rel e) (Some (sc_lib cfg)) = Inr sc" and tm: "representable (we_mtime e)"
  shows "\<exists>st1. process_entry cfg now (existing_map (sc_lib cfg) R0) q e st = Inr st1"
proof (cases "map_of (existing_map (sc_lib cfg) R0) (we_rel e)")
  case (Some i)
  then show ?thesis using tm by (auto simp: process_entry_def Let_def split: option.split)
next
  case None
  then have key: "(sc_lib cfg, we_rel e) \<notin> index_key ` set R0" using map_of_existing(2) [of R0] old by (simp add: old_table_def table_ok_def)
  from enc obtain sc where sc: "path_to_ltree (sc_digest cfg) (we_rel e) (Some (sc_lib cfg)) = Inr sc" by blast
  have "(sc_lib cfg, we_rel e) \<notin> index_key ` set (ws_rows st)"
  proof
    assume "(sc_lib cfg, we_rel e) \<in> index_key ` set (ws_rows st)"
    then obtain r where r: "r \<in> set (ws_rows st)" "index_key r = (sc_lib cfg, we_rel e)" by auto
    from walked_rows [OF inv old r(1)] show False
    proof
      assume "\<exists>r0 \<in> set R0. touched (sc_lib cfg) (we_rel ` set seen) r0 r \<and> row_id r < k"
      then show False using touched_id r(2) key by (metis imageI)
    qed (use r(2) fresh in \<open>auto simp: born_def index_key_def\<close>)
  qed
  moreover have "unique_rel (ws_rows st)" using inv by (auto elim!: loop_invE simp: table_ok_def)
  ultimately have "unique_rel (ws_rows st @ [new_row cfg now (ws_next st) sc e])" by (simp add: unique_rel_def new_row_def index_key_def)
  then show ?thesis using None sc tm by (simp add: process_entry_def insert_entry_def Let_def)
qed

lemma scan_loop_through:
  assumes "loop_inv cfg R0 k seen st" "old_table R0 k"
    and "distinct (map we_rel (seen @ filter (\<lambda>e. \<not> gated cfg e) es))"
    and "\<forall>e \<in> set (filter (\<lambda>e. \<not> gated cfg e) es). (\<exists>sc. path_to_ltree (sc_digest cfg) (we_rel e) (Some (sc_lib cfg)) = Inr sc) \<and> representable (we_mtime e)"
  shows "snd (scan_loop cfg now (existing_map (sc_lib cfg) R0) q (\<lambda>n. Running) es st) = Through"
  using assms
proof (induction es arbitrary: seen st)
  case (Cons e es)
  show ?case
  proof (cases "gated cfg e")
    case True
    have "loop_inv cfg R0 k seen (st\<lparr>ws_gate := Suc (ws_gate st)\<rparr>)" using Cons.prems(1) by (simp add: loop_inv_def)
    from Cons.IH [OF this Cons.prems(2)] Cons.prems True show ?thesis by simp
  next
    case False
    then have fresh: "we_rel e \<notin> we_rel ` set seen" using Cons.prems(3) by auto
    have "\<exists>sc. path_to_ltree (sc_digest cfg) (we_rel e) (Some (sc_lib cfg)) = Inr sc" "representable (we_mtime e)" using Cons.prems(4) False by simp_all
    from process_total [OF Cons.prems(1,2) fresh this] obtain st1 where
      s: "process_entry cfg now (existing_map (sc_lib cfg) R0) q e st = Inr st1" by blast
    have inv: "loop_inv cfg R0 k (seen @ [e]) st1" by (rule process_step [OF Cons.prems(1,2) fresh s])
    then have pub: "loop_inv cfg R0 k (seen @ [e]) (publish cfg st1)" by (simp add: loop_inv_def)
    have d: "distinct (map we_rel ((seen @ [e]) @ filter (\<lambda>e. \<not> gated cfg e) es))" using Cons.prems(3) False by simp
    from Cons.IH [OF inv Cons.prems(2) d] Cons.IH [OF pub Cons.prems(2) d] Cons.prems(4) False s show ?thesis by simp
  qed
qed simp

lemma admitted_files:
  assumes "\<not> names_file fs scope \<and> (if scope = [] then fs_root fs else fs_scope fs) = Some d
    \<and> scan_walk cfg fs scope False recursive = (es, audit, None) \<and> permission_denied audit = 0"
  shows "set (admitted cfg fs scope recursive) = {w \<in> set (below (sc_env cfg) (sc_root cfg) recursive scope (children d)). \<not> gated cfg w}"
proof -
  have w: "walk (sc_env cfg) (sc_root cfg) scope recursive (fresh_audit (sc_count_pruned cfg)) d = (es, audit, None)"
  proof -
    have d: "(if scope = [] then fs_root fs else fs_scope fs) = Some d" and w: "scan_walk cfg fs scope False recursive = (es, audit, None)"
      using assms by blast+
    show ?thesis using w unfolding scan_walk_def Let_def d by simp
  qed
  have "permission_denied audit = permission_denied (fresh_audit (sc_count_pruned cfg))" using assms by (simp add: fresh_audit_def)
  with walk_loop_lists [OF w [unfolded walk_def]] have "mset es = mset (below (sc_env cfg) (sc_root cfg) recursive scope (children d))" by simp
  then have "set es = set (below (sc_env cfg) (sc_root cfg) recursive scope (children d))" by (rule mset_eq_setD)
  then show ?thesis using assms by (auto simp: admitted_def)
qed

lemma finished_scan:
  assumes "scan_ready cfg fs (norm_scope scope_rel) recursive R0 k"
    and "res = scan_library cfg now fs sig queued scope_rel recursive force_empty R0 k" and "work_committed (out_status res)"
  obtains rows where "list_all2 (associated (sc_lib cfg)) rows (out_rows res)"
    and "settled cfg R0 (norm_scope scope_rel) (names_file fs (norm_scope scope_rel)) recursive (admitted cfg fs (norm_scope scope_rel) recursive) rows"
  using scan_outcome [OF assms(1,2)] assms(3) by (auto simp: complete_def)

lemma unfinished_scan:
  assumes "scan_ready cfg fs (norm_scope scope_rel) recursive R0 k"
    and "res = scan_library cfg now fs sig queued scope_rel recursive force_empty R0 k" and "\<not> work_committed (out_status res)"
  shows "interrupted cfg R0 k (set (admitted cfg fs (norm_scope scope_rel) recursive)) (out_rows res)"
  using scan_outcome [OF assms(1,2)] assms(3) by simp

section \<open>Properties\<close>

text \<open>Property C16. A scan that commits its work after a complete walk (whether or not the sidecar pass or the hand-over of
  jobs fails later), on a table with distinct ids and paths of which none begins with the sentinel of moves, leaves the scanned part of the library as the walk listed it: every admitted entry has a row
  at its path, with its size and time, that is active, or trashed if the row there was trashed before (an
  unchanged trashed file is not revived); and every active row of the scanned set is at the path of an admitted
  entry. When no directory was denied, the admitted entries are exactly the files of the tree that exclusions,
  pruning and the type filter leave. A denied directory lists nothing, so the items below it are among those
  that go missing. New files, changed files, renames inside the library, arrivals from other libraries and vanished
  files are all covered.\<close>

theorem scan_converges:
  assumes "scan_ready cfg fs (norm_scope scope_rel) recursive R0 k"
    and "res = scan_library cfg now fs sig queued scope_rel recursive force_empty R0 k" and "work_committed (out_status res)"
  shows "(\<forall>w \<in> set (admitted cfg fs (norm_scope scope_rel) recursive). present_as (sc_lib cfg) R0 (out_rows res) w)
    \<and> (\<forall>r \<in> set (out_rows res). row_library r = sc_lib cfg \<and> row_status r = active
         \<and> in_scanned_set (row_rel_path r) (norm_scope scope_rel) (names_file fs (norm_scope scope_rel)) recursive
         \<longrightarrow> row_rel_path r \<in> we_rel ` set (admitted cfg fs (norm_scope scope_rel) recursive))
    \<and> (\<forall>d es audit. \<not> names_file fs (norm_scope scope_rel) \<and> (if norm_scope scope_rel = [] then fs_root fs else fs_scope fs) = Some d
         \<and> scan_walk cfg fs (norm_scope scope_rel) False recursive = (es, audit, None) \<and> permission_denied audit = 0
         \<longrightarrow> set (admitted cfg fs (norm_scope scope_rel) recursive)
           = {w \<in> set (below (sc_env cfg) (sc_root cfg) recursive (norm_scope scope_rel) (children d)). \<not> gated cfg w})"
proof -
  let ?A = "admitted cfg fs (norm_scope scope_rel) recursive"
  obtain rows where as: "list_all2 (associated (sc_lib cfg)) rows (out_rows res)"
    and s: "settled cfg R0 (norm_scope scope_rel) (names_file fs (norm_scope scope_rel)) recursive ?A rows"
    by (rule finished_scan [OF assms])
  have "row_rel_path r' \<in> we_rel ` set ?A"
    if r': "r' \<in> set (out_rows res)" "row_library r' = sc_lib cfg" "row_status r' = active"
      "in_scanned_set (row_rel_path r') (norm_scope scope_rel) (names_file fs (norm_scope scope_rel)) recursive" for r'
  proof -
    from list_all2_in_set2 [OF as r'(1)] obtain r where r: "r \<in> set rows" "associated (sc_lib cfg) r r'" by blast
    with s r' associated_columns [OF r(2)] show ?thesis by (auto simp: settled_def)
  qed
  moreover have "present_as (sc_lib cfg) R0 (out_rows res) w" if "w \<in> set ?A" for w
    using s that by (intro present_associated [OF as]) (simp add: settled_def)
  ultimately show ?thesis using admitted_files by blast
qed

text \<open>Property C17. However a scan ends, it deletes no item that was there when it started: each is still in the
  table under its id with the metadata and tags users wrote and the time it was first seen, ids stay distinct and no library has two rows for one path.\<close>

theorem scan_never_deletes:
  assumes "scan_ready cfg fs (norm_scope scope_rel) recursive R0 k"
    and "res = scan_library cfg now fs sig queued scope_rel recursive force_empty R0 k" and "r0 \<in> set R0"
  shows "survives (out_rows res) r0 \<and> table_ok (out_rows res)"
proof (cases "work_committed (out_status res)")
  case True
  obtain rows where as: "list_all2 (associated (sc_lib cfg)) rows (out_rows res)"
    and s: "settled cfg R0 (norm_scope scope_rel) (names_file fs (norm_scope scope_rel)) recursive (admitted cfg fs (norm_scope scope_rel) recursive) rows"
    by (rule finished_scan [OF assms(1,2) True])
  then show ?thesis using assms(3) survives_associated [OF as] associated_table [OF as] by (simp add: settled_def)
next
  case False
  from interrupted_survives [OF unfinished_scan [OF assms(1,2) False] assms(3)] show ?thesis by simp
qed

text \<open>Property C18. A scan that does not complete, because it was stopped or cancelled, the scope is gone, the root is
  empty or unreadable, the walk raised, a row could not be written or the job queue refused a batch on the way, marks nothing missing and moves nothing:
  each row of the table is an old one at its old path, with its old status or active again, or a new active one
  at the path of an admitted entry.\<close>

theorem interrupted_scan_marks_nothing:
  assumes "scan_ready cfg fs (norm_scope scope_rel) recursive R0 k"
    and "res = scan_library cfg now fs sig queued scope_rel recursive force_empty R0 k" and "\<not> work_committed (out_status res)" "r \<in> set (out_rows res)"
  shows "(\<exists>r0 \<in> set R0. row_id r = row_id r0 \<and> index_key r = index_key r0 \<and> (row_status r = row_status r0 \<or> row_status r = active))
    \<or> k \<le> row_id r \<and> row_status r = active \<and> row_library r = sc_lib cfg
      \<and> row_rel_path r \<in> we_rel ` set (admitted cfg fs (norm_scope scope_rel) recursive)"
proof -
  have old: "old_table R0 k" using assms(1) by (simp add: scan_ready_def)
  from unfinished_scan [OF assms(1-3)] obtain st seen where i: "loop_inv cfg R0 k seen st" "set seen \<subseteq> set (admitted cfg fs (norm_scope scope_rel) recursive)"
    "list_all2 (associated (sc_lib cfg)) (ws_rows st) (out_rows res)" by (rule interrupted_rows)
  from list_all2_in_set2 [OF i(3) assms(4)] obtain x where x: "x \<in> set (ws_rows st)" "associated (sc_lib cfg) x r" by blast
  note x = x(1) associated_columns(1,2,8) [OF x(2)]
  from walked_rows [OF i(1) old x(1)] show ?thesis
  proof
    assume "\<exists>r0 \<in> set R0. touched (sc_lib cfg) (we_rel ` set seen) r0 x \<and> row_id x < k"
    then obtain r0 where r0: "r0 \<in> set R0" "kept_row r0 x" by (auto simp: touched_def)
    then have "row_id r = row_id r0 \<and> index_key r = index_key r0 \<and> (row_status r = row_status r0 \<or> row_status r = active)"
      using x kept_row_key [OF r0(2)] by (simp add: kept_row_def)
    with r0(1) show ?thesis by blast
  next
    assume "born cfg R0 (we_rel ` set seen) k (ws_next st) x"
    then show ?thesis using x i(2) by (auto simp: born_def index_key_def)
  qed
qed

text \<open>Property C19. A scan leaves alone what it was not asked to look at. A row of another library, unless it is a missing one
  that may have moved here, and a row of the library outside the scanned set that is not active stay exactly as they were.
  An active row of the library outside the scanned set keeps every column but two: the link of a sidecar, and of
  its identity the title, year, external ids and extracted metadata, which the sidecar pass at the end of
  every scan recomputes for the whole library; its user metadata, tags and time of first sight stay.\<close>

theorem scan_stays_in_scope:
  assumes "scan_ready cfg fs (norm_scope scope_rel) recursive R0 k"
    and "res = scan_library cfg now fs sig queued scope_rel recursive force_empty R0 k" and "r0 \<in> set R0"
    and "if row_library r0 = sc_lib cfg then \<not> in_scanned_set (row_rel_path r0) (norm_scope scope_rel) (names_file fs (norm_scope scope_rel)) recursive
      else \<not> tombstone_elsewhere (sc_agent_sourced cfg) (sc_lib cfg) r0"
  shows "\<exists>r \<in> set (out_rows res). if row_library r0 = sc_lib cfg \<and> row_status r0 = active
    then r\<lparr>row_sidecar_of := row_sidecar_of r0, row_identity := row_identity r0\<rparr> = r0 \<and> user_metadata (row_identity r) = user_metadata (row_identity r0)
      \<and> tags (row_identity r) = tags (row_identity r0) \<and> first_seen (row_identity r) = first_seen (row_identity r0)
    else r = r0"
proof -
  let ?A = "admitted cfg fs (norm_scope scope_rel) recursive"
  obtain es audit err where w: "scan_walk cfg fs (norm_scope scope_rel) (names_file fs (norm_scope scope_rel)) recursive = (es, audit, err)" by (metis prod_cases3)
  have "in_scanned_set (we_rel x) (norm_scope scope_rel) (names_file fs (norm_scope scope_rel)) recursive" if "x \<in> set ?A" for x
    using scan_walk_result(2) [OF w] that assms(1) w by (auto simp: admitted_def scan_ready_def)
  then have key: "index_key r0 \<notin> {sc_lib cfg} \<times> we_rel ` set ?A" using assms(4) by (auto simp: index_key_def)
  have "untouched (sc_lib cfg) (out_rows res) r0"
  proof (cases "work_committed (out_status res)")
    case True
    obtain rows where s: "list_all2 (associated (sc_lib cfg)) rows (out_rows res)"
      "settled cfg R0 (norm_scope scope_rel) (names_file fs (norm_scope scope_rel)) recursive ?A rows" by (rule finished_scan [OF assms(1,2) True])
    have "r0 \<in> set rows" using s(2) key assms(3,4) unfolding settled_def tombstone_elsewhere_def by (metis (no_types, lifting))
    then show ?thesis by (rule untouched_associated [OF s(1)])
  next
    case False
    from unfinished_scan [OF assms(1,2) False] show ?thesis by (rule interrupted_untouched [OF _ assms(3) key])
  qed
  then obtain r where "r \<in> set (out_rows res)" "associated (sc_lib cfg) r0 r" by (auto simp: untouched_def)
  then show ?thesis by (intro bexI [of _ r]) (auto simp: associated_def in_library_def user_data_def split: if_splits)
qed


section \<open>A sample library\<close>

definition sample_cfg :: scan_cfg where
  "sample_cfg = \<lparr>sc_lib = 9, sc_root = cps ''/m'', sc_categories = {}, sc_groups = {}, sc_count_pruned = True,
     sc_taxonomy = (\<lambda>p. (''document'', ''text'')), sc_env = sample_env, sc_digest = zero_digest, sc_hashers = sample_hashers,
     sc_files = no_files, sc_full_max = 0, sc_compute_content = False, sc_empty_guard = True, sc_cross_moves = False,
     sc_staged = False,
     sc_sidecars = \<lparr>parse_sidecar = (\<lambda>k bs. []), read_sidecar = (\<lambda>p. None), sidecar_priority = False\<rparr>, sc_agent_sourced = (\<lambda>l. False), sc_queue = QueueUp\<rparr>"

definition sample_fs :: scan_fs where
  "sample_fs = \<lparr>fs_root = Some sample_tree, fs_kind = ScopeDir, fs_scope = Some (DirNode [(cps ''c'', FileNode (Inr sample_stat))] None)\<rparr>"

definition gone_row :: ItemRow where
  "gone_row = sample_row\<lparr>row_id := 2, row_rel_path := cps ''old'', row_path := cps ''/m/old'', row_quick_hash := None\<rparr>"

lemma sample_rels: "map we_rel (admitted sample_cfg sample_fs [] True) = [cps ''a.txt'', cps ''sub/c'']"
  "map we_rel (admitted sample_cfg sample_fs (cps ''sub'') True) = [cps ''sub/c'']"
  by code_simp+

lemma sample_scan:
  "map (\<lambda>r. (row_id r, row_rel_path r, row_status r)) (out_rows (scan_library sample_cfg 99 sample_fs (\<lambda>n. Running) [] None True False [sample_row, gone_row] 3))
    = [(1, cps ''a.txt'', active), (2, cps ''old'', missing), (3, cps ''sub/c'', active)]"
  by code_simp

lemma sample_ready:
  "scan_ready sample_cfg sample_fs (norm_scope None) True [sample_row, gone_row] 3"
  "scan_ready sample_cfg sample_fs (norm_scope (Some (cps ''sub''))) True [sample_row, gone_row] 3"
proof -
  have base: "old_table [sample_row, gone_row] 3" "sentinel_free [sample_row, gone_row]" "proper_fs sample_fs"
    by (simp_all add: old_table_def table_ok_def unique_rel_def index_key_def sentinel_free_def startswith_def gone_row_def sample_row_defs
        proper_fs_def sample_fs_def sample_tree_def Rbac.slash_def)
  have sc: "norm_scope None = []" "norm_scope (Some (cps ''sub'')) = cps ''sub''" by code_simp+
  have free: "\<forall>w \<in> set ws. \<not> startswith (we_rel w) [65535]" if "\<forall>rel \<in> set (map we_rel ws). \<not> startswith rel [65535]" for ws
    using that by simp
  show "scan_ready sample_cfg sample_fs (norm_scope None) True [sample_row, gone_row] 3"
    using base free [of "admitted sample_cfg sample_fs [] True"] unfolding scan_ready_def sc sample_rels by (simp add: startswith_def)
  show "scan_ready sample_cfg sample_fs (norm_scope (Some (cps ''sub''))) True [sample_row, gone_row] 3"
    using base free [of "admitted sample_cfg sample_fs (cps ''sub'') True"] unfolding scan_ready_def sc sample_rels by (simp add: startswith_def)
qed

lemma sample_finished:
  "work_committed (out_status (scan_library sample_cfg 99 sample_fs (\<lambda>n. Running) [] None True False [sample_row, gone_row] 3))"
  by code_simp

theorem scan_converges_witness:
  "\<exists>rows. rows = out_rows (scan_library sample_cfg 99 sample_fs (\<lambda>n. Running) [] None True False [sample_row, gone_row] 3)
    \<and> (\<exists>r \<in> set rows. index_key r = (9, cps ''sub/c'') \<and> row_status r = active)
    \<and> (\<forall>r \<in> set rows. row_library r = 9 \<and> row_status r = active \<longrightarrow> row_rel_path r \<in> {cps ''a.txt'', cps ''sub/c''})"
proof -
  note c = scan_converges [OF sample_ready(1) refl sample_finished]
  have s: "norm_scope None = []" by code_simp
  have "cps ''sub/c'' \<in> set (map we_rel (admitted sample_cfg sample_fs [] True))" unfolding sample_rels by simp
  then obtain w where w: "w \<in> set (admitted sample_cfg sample_fs [] True)" "we_rel w = cps ''sub/c''" by auto
  with c s have "present_as 9 [sample_row, gone_row] (out_rows (scan_library sample_cfg 99 sample_fs (\<lambda>n. Running) [] None True False [sample_row, gone_row] 3)) w"
    by (simp add: sample_cfg_def)
  then have "\<exists>r \<in> set (out_rows (scan_library sample_cfg 99 sample_fs (\<lambda>n. Running) [] None True False [sample_row, gone_row] 3)).
      index_key r = (9, cps ''sub/c'') \<and> row_status r = active"
    using w(2) by (auto simp: present_as_def listed_status_def index_key_def gone_row_def sample_row_def)
  moreover have "we_rel ` set (admitted sample_cfg sample_fs [] True) = {cps ''a.txt'', cps ''sub/c''}"
    unfolding set_map [symmetric] sample_rels by simp
  ultimately show ?thesis using c s by (auto simp: sample_cfg_def in_scanned_set_def under_scope_def names_file_def)
qed

theorem scan_never_deletes_witness:
  "survives (out_rows (scan_library sample_cfg 99 sample_fs (\<lambda>n. Running) [] None True False [sample_row, gone_row] 3)) gone_row"
  using scan_never_deletes [OF sample_ready(1) refl, of gone_row] by simp

definition broken_fs :: scan_fs where
  "broken_fs = \<lparr>fs_root = Some (DirNode [(cps ''a.txt'', FileNode (Inl OtherOSError))] None), fs_kind = ScopeDir, fs_scope = None\<rparr>"

theorem interrupted_scan_marks_nothing_witness:
  "\<exists>rows. rows = out_rows (scan_library sample_cfg 99 broken_fs (\<lambda>n. Running) [] None True False [sample_row, gone_row] 3)
    \<and> (\<forall>r \<in> set rows. row_status r = active)"
proof -
  have none: "admitted sample_cfg broken_fs [] True = []" "norm_scope None = []" by code_simp+
  have ready: "scan_ready sample_cfg broken_fs (norm_scope None) True [sample_row, gone_row] 3"
    using sample_ready(1) by (simp add: scan_ready_def none) (simp add: proper_fs_def broken_fs_def Rbac.slash_def)
  have bad: "\<not> work_committed (out_status (scan_library sample_cfg 99 broken_fs (\<lambda>n. Running) [] None True False [sample_row, gone_row] 3))" by code_simp
  have "row_status r = active" if "r \<in> set (out_rows (scan_library sample_cfg 99 broken_fs (\<lambda>n. Running) [] None True False [sample_row, gone_row] 3))" for r
    using interrupted_scan_marks_nothing [OF ready refl bad that] by (auto simp: gone_row_def sample_row_def)
  then show ?thesis by blast
qed

theorem scan_stays_in_scope_witness:
  "\<exists>r \<in> set (out_rows (scan_library sample_cfg 99 sample_fs (\<lambda>n. Running) [] (Some (cps ''sub'')) True False [sample_row, gone_row] 3)).
     row_id r = 2 \<and> row_status r = active \<and> row_rel_path r = cps ''old''"
proof -
  have "\<not> in_scanned_set (row_rel_path gone_row) (norm_scope (Some (cps ''sub''))) (names_file sample_fs (norm_scope (Some (cps ''sub'')))) True" by code_simp
  then have out: "if row_library gone_row = sc_lib sample_cfg then \<not> in_scanned_set (row_rel_path gone_row) (norm_scope (Some (cps ''sub'')))
      (names_file sample_fs (norm_scope (Some (cps ''sub'')))) True
    else \<not> tombstone_elsewhere (sc_agent_sourced sample_cfg) (sc_lib sample_cfg) gone_row"
    by (simp add: gone_row_def sample_row_def sample_cfg_def)
  have act: "row_library gone_row = sc_lib sample_cfg \<and> row_status gone_row = active" and mem: "gone_row \<in> set [sample_row, gone_row]"
    by (simp_all add: gone_row_def sample_row_def sample_cfg_def)
  obtain r where r: "r \<in> set (out_rows (scan_library sample_cfg 99 sample_fs (\<lambda>n. Running) [] (Some (cps ''sub'')) True False [sample_row, gone_row] 3))"
    "r\<lparr>row_sidecar_of := row_sidecar_of gone_row, row_identity := row_identity gone_row\<rparr> = gone_row"
    using scan_stays_in_scope [OF sample_ready(2) refl mem out] unfolding if_P [OF act] by blast
  have "row_id r = row_id gone_row" "row_status r = row_status gone_row" "row_rel_path r = row_rel_path gone_row"
    using arg_cong [OF r(2), of row_id] arg_cong [OF r(2), of row_status] arg_cong [OF r(2), of row_rel_path] by simp_all
  with r(1) show ?thesis by (intro bexI [of _ r]) (simp_all add: gone_row_def sample_row_def)
qed


text \<open>A subdirectory that answers with a permission error is only counted: the scan finishes and marks the item in it
  as missing, although it never saw that directory.\<close>

definition denied_fs :: scan_fs where
  "denied_fs = \<lparr>fs_root = Some (DirNode [(cps ''a.txt'', FileNode (Inr sample_stat)), (cps ''sub'', DirNode [] (Some PermissionError))] None),
     fs_kind = ScopeDir, fs_scope = None\<rparr>"

definition hidden_row :: ItemRow where
  "hidden_row = gone_row\<lparr>row_rel_path := cps ''sub/c'', row_path := cps ''/m/sub/c''\<rparr>"

lemma denied_directory_marked_missing:
  "out_status (scan_library sample_cfg 99 denied_fs (\<lambda>n. Running) [] None True False [sample_row, hidden_row] 3) = Finished"
  "map row_status (out_rows (scan_library sample_cfg 99 denied_fs (\<lambda>n. Running) [] None True False [sample_row, hidden_row] 3)) = [active, missing]"
  by code_simp+

text \<open>A targeted scan of a symbolic link to a regular file marks its item missing: the file exists, but only regular
  entries are emitted.\<close>

definition link_fs :: scan_fs where
  "link_fs = \<lparr>fs_root = Some sample_tree, fs_kind = ScopeFile, fs_scope = Some (FileNode (Inr (sample_stat\<lparr>st_regular := False, st_link := Some (Some (cps ''t''))\<rparr>)))\<rparr>"

lemma targeted_link_marked_missing:
  "map row_status (out_rows (scan_library sample_cfg 99 link_fs (\<lambda>n. Running) [] (Some (cps ''old'')) True False [sample_row, gone_row] 3)) = [active, missing]"
  by code_simp

text \<open>One new file whose name is not valid UTF-8 (a lone surrogate in Python) ends the scan of the whole library: its
  path cannot be encoded and nothing catches the error. What the last commit holds is what the scan leaves.\<close>

lemma surrogate_raises: "path_to_ltree dig [56448] (Some lib) = Inl UnicodeError"
  by (simp add: path_to_ltree_def encode_rel_path_def encode_path_label_def encode_char_def is_passthrough_def utf8_char_def is_scalar_def Rbac.slash_def)

lemma unencodable_name_ends_scan:
  assumes "we_rel e = [56448]" "representable (we_mtime e)" "\<not> gated cfg e" "map_of existing [56448] = None"
  shows "scan_loop cfg now existing queued sig (e # es) st = (st, Crashed (ScanDbError (MoveRaised UnicodeError)))"
  using assms surrogate_raises by (simp add: process_entry_def insert_entry_def Let_def)

text \<open>So does one file with a time outside the years 1 to 9999, new or known.\<close>

lemma odd_time_ends_scan:
  "\<not> representable (we_mtime e) \<Longrightarrow> \<not> gated cfg e \<Longrightarrow>
     scan_loop cfg now existing queued sig (e # es) st = (st, Crashed (ScanDbError (MoveRaised ValueError)))"
  by (simp add: process_entry_def Let_def)

end
