(* ===== verification/Alerts.thy ===== *)
theory Alerts
  imports Moves
begin

text \<open>
  Alerts on file events: \<open>backend/filearr/alerts/rules.py\<close>, \<open>windows.py\<close> and \<open>pipeline.py\<close>, the dispatch pump of
  \<open>backend/filearr/tasks/alerts.py\<close> and the purge of \<open>worker.py\<close>. A scan records a row per match of a rule; the pump
  groups the undelivered rows by rule and key, decides from the rows alone which groups are due, and sends or
  mutes or holds each group as a whole. Glob matching, SHA-256, ISO times and the channel drivers are parameters;
  what a message says and the detectors of operational rules are not modelled.
\<close>


section \<open>Rules and events\<close>

definition EVENT_TYPES :: "string set" where
  "EVENT_TYPES = {''created'', ''modified'', ''deleted'', ''moved''}"

definition GROUP_BY :: "string list" where
  "GROUP_BY = [''event_type'', ''library_id'', ''rule_id'']"

definition GROUP_BY_EXTRAS :: "string set" where
  "GROUP_BY_EXTRAS = {''folder'', ''extension'', ''file''}"

definition DIGEST_WINDOWS :: "string set" where
  "DIGEST_WINDOWS = {''hourly'', ''daily''}"

record FileEvent =
  fe_type :: string
  fe_library :: uuid
  fe_rel_path :: codepoints
  old_hash :: "string option"
  new_hash :: "string option"

definition file_event :: "string \<Rightarrow> uuid \<Rightarrow> codepoints \<Rightarrow> string option \<Rightarrow> string option \<Rightarrow> py_exn + FileEvent" where
  "file_event t lib rel oldh newh = (if t \<notin> EVENT_TYPES then Inl ValueError
     else Inr \<lparr>fe_type = t, fe_library = lib, fe_rel_path = rel, old_hash = oldh, new_hash = newh\<rparr>)"

text \<open>A row of \<open>alert_rules\<close>; the dataclass of the engine has the same columns. The thresholds of the operational rules
  are read by their detectors only.\<close>

record AlertRule =
  ru_id :: uuid
  ru_name :: string
  event_types :: "string list"
  ru_enabled :: bool
  is_system :: bool
  ru_library :: "uuid option"
  path_glob :: "string option"
  hash_change_only :: bool
  group_by :: "string list"
  group_wait_s :: int
  digest_window :: "string option"
  repeat_interval_s :: "int option"
  inhibited_by :: "uuid list"
  inhibit_window_s :: int

definition rule_from_row :: "(string \<Rightarrow> bool) \<Rightarrow> AlertRule \<Rightarrow> py_exn + AlertRule" where
  "rule_from_row glob_ok row =
     (let r = row\<lparr>group_by := (if group_by row = [] then GROUP_BY else group_by row)\<rparr> in
      if (case path_glob row of None \<Rightarrow> False | Some p \<Rightarrow> p \<noteq> [] \<and> \<not> glob_ok p) then Inl ValueError
      else if \<not> set (event_types r) \<subseteq> EVENT_TYPES then Inl ValueError
      else if event_types r = [] then Inl ValueError
      else if \<not> set GROUP_BY \<subseteq> set (group_by r) \<or> \<not> set (group_by r) \<subseteq> set GROUP_BY \<union> GROUP_BY_EXTRAS then Inl ValueError
      else if (case digest_window r of None \<Rightarrow> False | Some w \<Rightarrow> w \<notin> DIGEST_WINDOWS) then Inl ValueError
      else Inr r)"

text \<open>One row that cannot be read, or whose glob does not compile, empties the whole set: the scan takes an error here
  as no rules.\<close>

definition load_enabled_rules :: "(string \<Rightarrow> bool) \<Rightarrow> AlertRule list \<Rightarrow> py_exn + AlertRule list" where
  "load_enabled_rules glob_ok rows = map_res (rule_from_row glob_ok) (filter (\<lambda>r. ru_enabled r \<and> \<not> is_system r) rows)"

definition path_matches :: "(string \<Rightarrow> codepoints \<Rightarrow> bool) \<Rightarrow> string option \<Rightarrow> codepoints \<Rightarrow> bool" where
  "path_matches glob pat rel = (case pat of None \<Rightarrow> True | Some p \<Rightarrow> p = [] \<or> glob p rel)"

definition match_rule :: "(string \<Rightarrow> codepoints \<Rightarrow> bool) \<Rightarrow> AlertRule \<Rightarrow> FileEvent \<Rightarrow> bool" where
  "match_rule glob rule event =
     (if \<not> ru_enabled rule then False
      else if fe_type event \<notin> set (event_types rule) then False
      else if ru_library rule \<noteq> None \<and> ru_library rule \<noteq> Some (fe_library event) then False
      else if hash_change_only rule \<and> fe_type event = ''modified''
           \<and> (old_hash event = None \<or> new_hash event = None \<or> old_hash event = new_hash event) then False
      else path_matches glob (path_glob rule) (fe_rel_path event))"

definition group_key :: "AlertRule \<Rightarrow> FileEvent \<Rightarrow> string \<times> uuid \<times> uuid" where
  "group_key rule event = (fe_type event, fe_library event, ru_id rule)"

definition folder_of :: "codepoints \<Rightarrow> codepoints" where
  "folder_of rel = (let norm = map (\<lambda>c. if c = 92 then Rbac.slash else c) rel in
     if Rbac.slash \<in> set norm then hd (split_on Rbac.slash norm) else [])"

definition suffix_of :: "(codepoints \<Rightarrow> codepoints) \<Rightarrow> codepoints \<Rightarrow> codepoints" where
  "suffix_of lw rel = (let name = last (split_on Rbac.slash rel) in if 46 \<in> set name then lw (last (split_on 46 name)) else [])"

text \<open>In the order of the code: folder, extension, file.\<close>

definition group_extras :: "(codepoints \<Rightarrow> codepoints) \<Rightarrow> AlertRule \<Rightarrow> FileEvent \<Rightarrow> (string \<times> codepoints) list" where
  "group_extras lw rule event =
     (if ''folder'' \<in> set (group_by rule) then [(''folder'', folder_of (fe_rel_path event))] else [])
     @ (if ''extension'' \<in> set (group_by rule) then [(''extension'', suffix_of lw (fe_rel_path event))] else [])
     @ (if ''file'' \<in> set (group_by rule) then [(''file'', fe_rel_path event)] else [])"

section \<open>Windows\<close>

definition HOUR :: int where "HOUR = 3600000000"

definition DAY :: int where "DAY = 86400000000"

definition assign_window :: "int \<Rightarrow> string \<Rightarrow> py_exn + int" where
  "assign_window ts window = (if window \<notin> DIGEST_WINDOWS then Inl ValueError
     else Inr (if window = ''hourly'' then ts - ts mod HOUR else ts - ts mod DAY))"

record GroupState =
  first_match_at :: "int option"
  last_notified_at :: "int option"
  has_new_matches :: bool
  firing :: bool

definition seconds :: "int \<Rightarrow> int" where "seconds s = s * 1000000"

definition should_fire_now :: "GroupState \<Rightarrow> int \<Rightarrow> int \<Rightarrow> int option \<Rightarrow> int \<Rightarrow> bool" where
  "should_fire_now st group_wait group_interval repeat_interval now =
     (if \<not> firing st then False
      else case last_notified_at st of
        None \<Rightarrow> (case first_match_at st of
            None \<Rightarrow> False
          | Some t \<Rightarrow> has_new_matches st \<and> t + seconds group_wait \<le> now)
      | Some t \<Rightarrow>
          if has_new_matches st then t + seconds group_interval \<le> now
          else (case repeat_interval of None \<Rightarrow> False | Some r \<Rightarrow> t + seconds r \<le> now))"

definition ceiling_exceeded :: "nat \<Rightarrow> nat option \<Rightarrow> bool" where
  "ceiling_exceeded count_last_hour limit = (case limit of None \<Rightarrow> False | Some n \<Rightarrow> n \<le> count_last_hour)"

section \<open>Recording matches\<close>

record alert_env =
  glob_match :: "string \<Rightarrow> codepoints \<Rightarrow> bool"
  alert_lower :: "codepoints \<Rightarrow> codepoints"
  sha256_hex :: "bytes \<Rightarrow> string"
  iso_time :: "int \<Rightarrow> string"

definition dedup_parts :: "alert_env \<Rightarrow> string \<Rightarrow> uuid \<Rightarrow> uuid \<Rightarrow> int option \<Rightarrow> (string \<times> codepoints) list \<Rightarrow> codepoints list" where
  "dedup_parts A et lib rid window_start extras =
     [cps et, cps (uuid_str lib), cps (uuid_str rid)]
     @ (case window_start of None \<Rightarrow> [] | Some w \<Rightarrow> [cps (iso_time A w)])
     @ map (\<lambda>k. cps k @ [61] @ (case map_of extras k of None \<Rightarrow> [] | Some v \<Rightarrow> v))
         (filter (\<lambda>k. k \<in> fst ` set extras) [''extension'', ''file'', ''folder''])"

definition compute_dedup_key :: "alert_env \<Rightarrow> string \<Rightarrow> uuid \<Rightarrow> uuid \<Rightarrow> int option \<Rightarrow> (string \<times> codepoints) list \<Rightarrow> py_exn + string" where
  "compute_dedup_key A et lib rid window_start extras =
     bind_res (utf8_encode (join [0] (dedup_parts A et lib rid window_start extras))) (\<lambda>bs. Inr (sha256_hex A bs))"

record AlertDraft =
  dr_rule :: uuid
  dr_type :: string
  dr_key :: string
  dr_item :: "uuid option"
  dr_library :: "uuid option"
  dr_rel_path :: codepoints
  dr_occurred :: int

definition build_draft :: "alert_env \<Rightarrow> AlertRule \<Rightarrow> FileEvent \<Rightarrow> uuid option \<Rightarrow> int \<Rightarrow> py_exn + AlertDraft" where
  "build_draft A rule event item now =
     bind_res (case digest_window rule of
                 None \<Rightarrow> Inr None
               | Some w \<Rightarrow> if w = [] then Inr None else bind_res (assign_window now w) (\<lambda>t. Inr (Some t))) (\<lambda>start.
       case group_key rule event of (et, lib, rid) \<Rightarrow>
         bind_res (compute_dedup_key A et lib rid start (group_extras (alert_lower A) rule event)) (\<lambda>k.
           Inr \<lparr>dr_rule = ru_id rule, dr_type = fe_type event, dr_key = k, dr_item = item, dr_library = Some (fe_library event),
                dr_rel_path = fe_rel_path event, dr_occurred = now\<rparr>))"

text \<open>A rule that raises is skipped.\<close>

definition evaluate_event :: "alert_env \<Rightarrow> AlertRule list \<Rightarrow> FileEvent \<Rightarrow> uuid option \<Rightarrow> int \<Rightarrow> AlertDraft list" where
  "evaluate_event A rules event item now = concat (map (\<lambda>rule.
     if match_rule (glob_match A) rule event
     then (case build_draft A rule event item now of Inl x \<Rightarrow> [] | Inr d \<Rightarrow> [d]) else []) rules)"

text \<open>A transition of the walk: its kind, path, item and the quick hash of the row. The new content hash does not exist
  yet, and an unknown kind is dropped.\<close>

type_synonym transition = "string \<times> codepoints \<times> uuid \<times> string option"

definition capture :: "alert_env \<Rightarrow> (string \<Rightarrow> bool) \<Rightarrow> AlertRule list \<Rightarrow> uuid \<Rightarrow> int \<Rightarrow> transition \<Rightarrow> AlertDraft list" where
  "capture A glob_ok rows lib now = (\<lambda>(t, rel, item, oldh).
     case load_enabled_rules glob_ok rows of
       Inl x \<Rightarrow> []
     | Inr rules \<Rightarrow> if rules = [] then []
         else (case file_event t lib rel oldh None of Inl x \<Rightarrow> [] | Inr ev \<Rightarrow> evaluate_event A rules ev (Some item) now))"

text \<open>\<open>last_error\<close> is kept as its cause, not as text.\<close>

datatype alert_note = InhibitedBy string | CeilingHit | SecretHeld | DeliveryFailed

record AlertEvent =
  ev_id :: nat
  ev_rule :: uuid
  ev_item :: "uuid option"
  ev_library :: "uuid option"
  ev_type :: string
  ev_key :: string
  ev_rel_path :: codepoints
  occurred_at :: int
  delivered :: bool
  delivered_at :: "int option"
  delivery_attempts :: nat
  last_error :: "alert_note option"

definition pending_key :: "AlertEvent \<Rightarrow> uuid \<times> string \<times> uuid option" where
  "pending_key e = (ev_rule e, ev_key e, ev_item e)"

definition draft_key :: "AlertDraft \<Rightarrow> uuid \<times> string \<times> uuid option" where
  "draft_key d = (dr_rule d, dr_key d, dr_item d)"

definition pending_keys :: "AlertEvent list \<Rightarrow> (uuid \<times> string \<times> uuid option) list" where
  "pending_keys evs = map pending_key (filter (\<lambda>e. \<not> delivered e) evs)"

text \<open>The drafts whose key is neither pending in the table the query saw nor earlier in the batch.\<close>

fun fresh_drafts :: "(uuid \<times> string \<times> uuid option) list \<Rightarrow> AlertDraft list \<Rightarrow> AlertDraft list" where
  "fresh_drafts seen [] = []"
| "fresh_drafts seen (d # ds) =
     (if draft_key d \<in> set seen then fresh_drafts seen ds else d # fresh_drafts (draft_key d # seen) ds)"

definition event_of :: "nat \<Rightarrow> AlertDraft \<Rightarrow> AlertEvent" where
  "event_of k d = \<lparr>ev_id = k, ev_rule = dr_rule d, ev_item = dr_item d, ev_library = dr_library d, ev_type = dr_type d,
     ev_key = dr_key d, ev_rel_path = dr_rel_path d, occurred_at = dr_occurred d, delivered = False, delivered_at = None,
     delivery_attempts = 0, last_error = None\<rparr>"

text \<open>\<open>INSERT ... ON CONFLICT DO NOTHING\<close> against the partial unique index, over the table at that moment, which another
  writer may have changed since the query.\<close>

fun insert_events :: "AlertDraft list \<Rightarrow> AlertEvent list \<times> nat \<Rightarrow> AlertEvent list \<times> nat" where
  "insert_events [] t = t"
| "insert_events (d # ds) (evs, k) =
     (if draft_key d \<in> set (pending_keys evs) then insert_events ds (evs, k) else insert_events ds (evs @ [event_of k d], Suc k))"

definition persist_drafts :: "AlertEvent list \<Rightarrow> AlertDraft list \<Rightarrow> AlertEvent list \<times> nat \<Rightarrow> AlertEvent list \<times> nat" where
  "persist_drafts seen_table drafts t = insert_events (fresh_drafts (pending_keys seen_table) drafts) t"


section \<open>The dispatch pump\<close>

text \<open>What a channel driver reports: delivered, a secret that cannot be decrypted, a failure worth another try, a
  permanent one. What a message says is not modelled.\<close>

datatype send_outcome = Accepted | SecretProblem | Retryable | Permanent

record AlertChannel =
  ch_id :: uuid
  ch_enabled :: bool
  ch_central :: bool

record alert_settings =
  alert_max_delivery_attempts :: nat
  alert_group_interval_s :: int
  alert_rule_max_per_hour :: "nat option"

record alert_tables =
  alert_rules :: "AlertRule list"
  alert_channels :: "AlertChannel list"
  rule_channels :: "(uuid \<times> uuid) list"

record dispatch_stats =
  n_groups :: nat
  n_delivered :: nat
  n_held :: nat
  n_failed :: nat
  n_retried :: nat
  n_skipped :: nat
  n_inhibited :: nat

text \<open>The state of a run: the events, the messages channels accepted, the counters.\<close>

record pump =
  events :: "AlertEvent list"
  outbox :: "(uuid \<times> uuid \<times> string) list"
  pstats :: dispatch_stats

definition min_list :: "int list \<Rightarrow> int" where "min_list ts = fold min (tl ts) (hd ts)"

definition digest_delta :: "string \<Rightarrow> int" where
  "digest_delta w = (if w = ''hourly'' then HOUR else DAY)"

text \<open>\<open>_should_fire\<close>; \<open>KeyError\<close> and \<open>ValueError\<close> do not occur, the column has a check constraint.\<close>

definition group_due :: "AlertRule \<Rightarrow> AlertEvent list \<Rightarrow> int option \<Rightarrow> int \<Rightarrow> int \<Rightarrow> bool" where
  "group_due rule grp prior now group_interval =
     (let first = min_list (map occurred_at grp);
          immediate = should_fire_now \<lparr>first_match_at = Some first, last_notified_at = prior, has_new_matches = True, firing = True\<rparr>
            (group_wait_s rule) group_interval (repeat_interval_s rule) now in
      case digest_window rule of
        None \<Rightarrow> immediate
      | Some w \<Rightarrow> if w = [] then immediate
          else (case assign_window first w of Inl x \<Rightarrow> False | Inr start \<Rightarrow> start + digest_delta w \<le> now))"

definition inhibitor :: "alert_tables \<Rightarrow> AlertRule \<Rightarrow> AlertEvent list \<Rightarrow> AlertEvent list \<Rightarrow> int \<Rightarrow> string option" where
  "inhibitor T rule grp evs now =
     (if inhibited_by rule = [] \<or> inhibit_window_s rule \<le> 0 then None
      else map_option (\<lambda>e. case find (\<lambda>r. ru_id r = ev_rule e) (alert_rules T) of None \<Rightarrow> [] | Some r \<Rightarrow> ru_name r)
             (find (\<lambda>e. ev_rule e \<in> set (inhibited_by rule) \<and> now - seconds (inhibit_window_s rule) \<le> occurred_at e
                 \<and> (ev_library e = None \<or> ev_library e \<in> ev_library ` set grp) \<and> ev_rule e \<in> ru_id ` set (alert_rules T)) evs))"

definition central_channels :: "alert_tables \<Rightarrow> uuid \<Rightarrow> AlertChannel list" where
  "central_channels T rid = filter (\<lambda>c. ch_enabled c \<and> ch_central c \<and> (rid, ch_id c) \<in> set (rule_channels T)) (alert_channels T)"

definition prior_delivered_at :: "uuid \<Rightarrow> string \<Rightarrow> AlertEvent list \<Rightarrow> int option" where
  "prior_delivered_at rid key evs =
     fold (\<lambda>t m. case (t, m) of (None, _) \<Rightarrow> m | (Some a, None) \<Rightarrow> Some a | (Some a, Some b) \<Rightarrow> Some (max a b))
       (map delivered_at (filter (\<lambda>e. ev_rule e = rid \<and> ev_key e = key \<and> delivered e) evs)) None"

definition delivered_last_hour :: "uuid \<Rightarrow> int \<Rightarrow> AlertEvent list \<Rightarrow> nat" where
  "delivered_last_hour rid now evs =
     length (remdups (map ev_key (filter (\<lambda>e. ev_rule e = rid \<and> delivered e
       \<and> (case delivered_at e of None \<Rightarrow> False | Some t \<Rightarrow> now - HOUR < t)) evs)))"

fun send_all :: "(uuid \<Rightarrow> send_outcome) \<Rightarrow> uuid list \<Rightarrow> uuid list \<times> send_outcome" where
  "send_all send [] = ([], Accepted)"
| "send_all send (c # cs) =
     (if send c = Accepted then (let (ok_channels, r) = send_all send cs in (c # ok_channels, r)) else ([], send c))"

definition group_rows :: "nat \<Rightarrow> uuid \<times> string \<Rightarrow> AlertEvent list \<Rightarrow> AlertEvent list" where
  "group_rows max_attempts k evs = filter (\<lambda>e. \<not> delivered e \<and> delivery_attempts e < max_attempts \<and> (ev_rule e, ev_key e) = k) evs"

definition on_rows :: "AlertEvent list \<Rightarrow> (AlertEvent \<Rightarrow> AlertEvent) \<Rightarrow> pump \<Rightarrow> pump" where
  "on_rows grp f p = p\<lparr>events := map (\<lambda>e. if ev_id e \<in> ev_id ` set grp then f e else e) (events p)\<rparr>"

definition count_with :: "(dispatch_stats \<Rightarrow> dispatch_stats) \<Rightarrow> pump \<Rightarrow> pump" where
  "count_with f p = p\<lparr>pstats := f (pstats p)\<rparr>"

definition skipped :: "dispatch_stats \<Rightarrow> dispatch_stats" where "skipped s = s\<lparr>n_skipped := Suc (n_skipped s)\<rparr>"

text \<open>After the channels have been tried: \<open>grp\<close> are the rows the run loaded.\<close>

definition settle_group :: "alert_settings \<Rightarrow> int \<Rightarrow> AlertEvent list \<Rightarrow> send_outcome \<Rightarrow> pump \<Rightarrow> pump" where
  "settle_group S now grp r p = (case r of
       Accepted \<Rightarrow> count_with (\<lambda>s. s\<lparr>n_delivered := Suc (n_delivered s)\<rparr>)
         (on_rows grp (\<lambda>e. e\<lparr>delivered := True, delivered_at := Some now, last_error := None\<rparr>) p)
     | SecretProblem \<Rightarrow> count_with (\<lambda>s. s\<lparr>n_held := Suc (n_held s)\<rparr>) (on_rows grp (\<lambda>e. e\<lparr>last_error := Some SecretHeld\<rparr>) p)
     | Retryable \<Rightarrow> count_with (\<lambda>s. s\<lparr>n_retried := Suc (n_retried s),
           n_failed := n_failed s + (if alert_max_delivery_attempts S \<le> Suc (delivery_attempts (hd grp)) then 1 else 0)\<rparr>)
         (on_rows grp (\<lambda>e. e\<lparr>delivery_attempts := Suc (delivery_attempts e), last_error := Some DeliveryFailed\<rparr>) p)
     | Permanent \<Rightarrow> count_with (\<lambda>s. s\<lparr>n_failed := Suc (n_failed s)\<rparr>)
         (on_rows grp (\<lambda>e. e\<lparr>delivery_attempts := alert_max_delivery_attempts S, last_error := Some DeliveryFailed\<rparr>) p))"

definition dispatch_group :: "alert_settings \<Rightarrow> alert_tables \<Rightarrow> (uuid \<Rightarrow> uuid \<times> string \<Rightarrow> send_outcome) \<Rightarrow> int
    \<Rightarrow> (uuid \<times> string) \<times> AlertEvent list \<Rightarrow> pump \<Rightarrow> pump" where
  "dispatch_group S T send now = (\<lambda>((rid, key), grp) p0.
     let p = count_with (\<lambda>s. s\<lparr>n_groups := Suc (n_groups s)\<rparr>) p0 in
     case find (\<lambda>r. ru_id r = rid) (alert_rules T) of
       None \<Rightarrow> count_with skipped p
     | Some rule \<Rightarrow>
         if \<not> ru_enabled rule then count_with skipped p
         else if \<not> group_due rule grp (prior_delivered_at rid key (events p)) now (alert_group_interval_s S) then count_with skipped p
         else case inhibitor T rule grp (events p) now of
           Some name \<Rightarrow> count_with (\<lambda>s. s\<lparr>n_inhibited := Suc (n_inhibited s)\<rparr>)
             (on_rows grp (\<lambda>e. e\<lparr>delivered := True, delivered_at := Some now, last_error := Some (InhibitedBy name)\<rparr>) p)
         | None \<Rightarrow>
             if ceiling_exceeded (delivered_last_hour rid now (events p)) (alert_rule_max_per_hour S)
             then count_with (\<lambda>s. s\<lparr>n_held := Suc (n_held s)\<rparr>) (on_rows grp (\<lambda>e. e\<lparr>last_error := Some CeilingHit\<rparr>) p)
             else if central_channels T rid = [] then count_with skipped p
             else (let (ok_channels, r) = send_all (\<lambda>c. send c (rid, key)) (map ch_id (central_channels T rid))
                   in settle_group S now grp r (p\<lparr>outbox := outbox p @ map (\<lambda>c. (c, rid, key)) ok_channels\<rparr>)))"

text \<open>The groups in the order in which their first row comes.\<close>

definition pending_groups :: "nat \<Rightarrow> AlertEvent list \<Rightarrow> ((uuid \<times> string) \<times> AlertEvent list) list" where
  "pending_groups max_attempts evs =
     map (\<lambda>k. (k, group_rows max_attempts k evs))
       (rev (remdups (rev (map (\<lambda>e. (ev_rule e, ev_key e)) (filter (\<lambda>e. \<not> delivered e \<and> delivery_attempts e < max_attempts) evs)))))"

definition no_stats :: dispatch_stats where
  "no_stats = \<lparr>n_groups = 0, n_delivered = 0, n_held = 0, n_failed = 0, n_retried = 0, n_skipped = 0, n_inhibited = 0\<rparr>"

definition run_pending_dispatch :: "alert_settings \<Rightarrow> alert_tables \<Rightarrow> (uuid \<Rightarrow> uuid \<times> string \<Rightarrow> send_outcome) \<Rightarrow> int \<Rightarrow> AlertEvent list \<Rightarrow> pump" where
  "run_pending_dispatch S T send now evs =
     fold (dispatch_group S T send now) (pending_groups (alert_max_delivery_attempts S) evs) \<lparr>events = evs, outbox = [], pstats = no_stats\<rparr>"

definition purge_alert_events :: "alert_settings \<Rightarrow> int \<Rightarrow> AlertEvent list \<Rightarrow> AlertEvent list" where
  "purge_alert_events S cutoff evs =
     filter (\<lambda>e. \<not> (occurred_at e < cutoff \<and> (delivered e \<or> alert_max_delivery_attempts S \<le> delivery_attempts e))) evs"

text \<open>A scan that recognises a move drops the undelivered \<open>created\<close> events of the new paths.\<close>

definition drop_created :: "uuid \<Rightarrow> codepoints list \<Rightarrow> AlertEvent list \<Rightarrow> AlertEvent list" where
  "drop_created lib paths evs =
     filter (\<lambda>e. \<not> (ev_type e = ''created'' \<and> \<not> delivered e \<and> ev_library e = Some lib \<and> ev_rel_path e \<in> set paths)) evs"

section \<open>What a run does to the rows\<close>

definition pending :: "alert_settings \<Rightarrow> AlertEvent \<Rightarrow> bool" where
  "pending S e \<longleftrightarrow> \<not> delivered e \<and> delivery_attempts e < alert_max_delivery_attempts S"

definition ev_group :: "AlertEvent \<Rightarrow> uuid \<times> string" where
  "ev_group e = (ev_rule e, ev_key e)"

text \<open>A row of a group that was tried: delivered, held with a note, or one attempt or all attempts used up.\<close>

definition tried :: "alert_settings \<Rightarrow> int \<Rightarrow> AlertEvent \<Rightarrow> AlertEvent \<Rightarrow> bool" where
  "tried S now e e' \<longleftrightarrow> (\<exists>note. e' = e\<lparr>delivered := True, delivered_at := Some now, last_error := note\<rparr>
     \<or> e' = e\<lparr>last_error := note\<rparr> \<or> e' = e\<lparr>delivery_attempts := Suc (delivery_attempts e), last_error := note\<rparr>
     \<or> e' = e\<lparr>delivery_attempts := alert_max_delivery_attempts S, last_error := note\<rparr>)"

lemma tried_fixed:
  assumes "tried S now e e'"
  shows "ev_id e' = ev_id e" "ev_group e' = ev_group e" "ev_rule e' = ev_rule e" "ev_key e' = ev_key e" "ev_item e' = ev_item e"
    "ev_library e' = ev_library e" "occurred_at e' = occurred_at e" "pending_key e' = pending_key e"
  using assms by (auto simp: tried_def ev_group_def pending_key_def)

lemma on_rows_simps [simp]:
  "events (on_rows grp f p) = map (\<lambda>e. if ev_id e \<in> ev_id ` set grp then f e else e) (events p)"
  "outbox (on_rows grp f p) = outbox p" "events (count_with g p) = events p" "outbox (count_with g p) = outbox p"
  by (simp_all add: on_rows_def count_with_def)

lemma on_no_rows [simp]: "map (\<lambda>e. if ev_id e \<in> I then e else e) evs = evs"
  by (simp add: map_idI)

lemma settle_rows:
  "\<exists>f. events (settle_group S now grp r p) = map (\<lambda>e. if ev_id e \<in> ev_id ` set grp then f e else e) (events p)
     \<and> (\<forall>e. tried S now e (f e)) \<and> (if r = Accepted then \<forall>e. f e = e\<lparr>delivered := True, delivered_at := Some now, last_error := None\<rparr>
          else \<forall>e. delivered (f e) = delivered e)
     \<and> outbox (settle_group S now grp r p) = outbox p"
proof (cases r)
  case Accepted
  then show ?thesis by (intro exI [of _ "\<lambda>e. e\<lparr>delivered := True, delivered_at := Some now, last_error := None\<rparr>"]) (auto simp: settle_group_def tried_def)
next
  case SecretProblem
  then show ?thesis by (intro exI [of _ "\<lambda>e. e\<lparr>last_error := Some SecretHeld\<rparr>"]) (auto simp: settle_group_def tried_def)
next
  case Retryable
  then show ?thesis
    by (intro exI [of _ "\<lambda>e. e\<lparr>delivery_attempts := Suc (delivery_attempts e), last_error := Some DeliveryFailed\<rparr>"]) (auto simp: settle_group_def tried_def)
next
  case Permanent
  then show ?thesis
    by (intro exI [of _ "\<lambda>e. e\<lparr>delivery_attempts := alert_max_delivery_attempts S, last_error := Some DeliveryFailed\<rparr>"]) (auto simp: settle_group_def tried_def)
qed

lemma send_all_accepted: "snd (send_all send cs) = Accepted \<longleftrightarrow> (\<forall>c \<in> set cs. send c = Accepted)"
  by (induction cs) (auto simp: case_prod_unfold Let_def)

lemma send_all_complete: "snd (send_all send cs) = Accepted \<Longrightarrow> fst (send_all send cs) = cs"
  by (induction cs) (auto simp: case_prod_unfold Let_def split: if_splits)

text \<open>When a group leaves as delivered: its rule exists and is enabled, it is due, and it is muted by another rule or
  every central channel took it.\<close>

definition fires :: "alert_settings \<Rightarrow> alert_tables \<Rightarrow> (uuid \<Rightarrow> uuid \<times> string \<Rightarrow> send_outcome) \<Rightarrow> int \<Rightarrow> AlertEvent list \<Rightarrow> uuid \<times> string \<Rightarrow> bool" where
  "fires S T send now evs k = (case find (\<lambda>r. ru_id r = fst k) (alert_rules T) of
       None \<Rightarrow> False
     | Some rule \<Rightarrow> ru_enabled rule
         \<and> group_due rule (group_rows (alert_max_delivery_attempts S) k evs) (prior_delivered_at (fst k) (snd k) evs) now (alert_group_interval_s S)
         \<and> (inhibitor T rule (group_rows (alert_max_delivery_attempts S) k evs) evs now \<noteq> None
            \<or> central_channels T (fst k) \<noteq> [] \<and> (\<forall>c \<in> set (central_channels T (fst k)). send (ch_id c) k = Accepted)))"

definition muted :: "alert_settings \<Rightarrow> alert_tables \<Rightarrow> int \<Rightarrow> AlertEvent list \<Rightarrow> uuid \<times> string \<Rightarrow> bool" where
  "muted S T now evs k = (case find (\<lambda>r. ru_id r = fst k) (alert_rules T) of
       None \<Rightarrow> False | Some rule \<Rightarrow> inhibitor T rule (group_rows (alert_max_delivery_attempts S) k evs) evs now \<noteq> None)"

definition under_ceiling :: "alert_settings \<Rightarrow> int \<Rightarrow> AlertEvent list \<Rightarrow> uuid \<Rightarrow> bool" where
  "under_ceiling S now evs rid \<longleftrightarrow> \<not> ceiling_exceeded (delivered_last_hour rid now evs) (alert_rule_max_per_hour S)"

text \<open>The decision of a group on the events of the run equals the decision on the events at its start.\<close>

definition same_view :: "AlertEvent list \<Rightarrow> AlertEvent list \<Rightarrow> uuid \<times> string \<Rightarrow> bool" where
  "same_view evs evs' k \<longleftrightarrow> list_all2 (\<lambda>e e'. ev_rule e' = ev_rule e \<and> ev_library e' = ev_library e \<and> occurred_at e' = occurred_at e
     \<and> ev_key e' = ev_key e \<and> (ev_group e = k \<longrightarrow> e' = e)) evs evs'"

lemma prior_same: "same_view evs evs' (rid, key) \<Longrightarrow> prior_delivered_at rid key evs' = prior_delivered_at rid key evs"
proof -
  assume v: "same_view evs evs' (rid, key)"
  have "filter (\<lambda>e. ev_rule e = rid \<and> ev_key e = key \<and> delivered e) evs' = filter (\<lambda>e. ev_rule e = rid \<and> ev_key e = key \<and> delivered e) evs"
    using v unfolding same_view_def by (induction rule: list_all2_induct) (auto simp: ev_group_def)
  then show ?thesis by (simp add: prior_delivered_at_def)
qed

lemma find_same:
  assumes "list_all2 R xs ys" "\<And>x y. R x y \<Longrightarrow> P y = P x" "\<And>x y. R x y \<Longrightarrow> g y = g x"
  shows "map_option g (find P ys) = map_option g (find P xs)"
  using assms(1) by (induction rule: list_all2_induct) (simp_all add: assms(2,3))

lemma inhibitor_same:
  assumes "same_view evs evs' k"
  shows "inhibitor T rule grp evs' now = inhibitor T rule grp evs now"
proof -
  let ?P = "\<lambda>e. ev_rule e \<in> set (inhibited_by rule) \<and> now - seconds (inhibit_window_s rule) \<le> occurred_at e
      \<and> (ev_library e = None \<or> ev_library e \<in> ev_library ` set grp) \<and> ev_rule e \<in> ru_id ` set (alert_rules T)"
  let ?g = "\<lambda>e. case find (\<lambda>r. ru_id r = ev_rule e) (alert_rules T) of None \<Rightarrow> [] | Some r \<Rightarrow> ru_name r"
  have "map_option ?g (find ?P evs') = map_option ?g (find ?P evs)"
  proof (rule find_same [OF assms [unfolded same_view_def]])
    fix e e' assume c: "ev_rule e' = ev_rule e \<and> ev_library e' = ev_library e \<and> occurred_at e' = occurred_at e
      \<and> ev_key e' = ev_key e \<and> (ev_group e = k \<longrightarrow> e' = e)"
    then have f: "ev_rule e' = ev_rule e" "ev_library e' = ev_library e" "occurred_at e' = occurred_at e" by blast+
    show "?P e' = ?P e" "?g e' = ?g e" unfolding f by (rule refl)+
  qed
  then show ?thesis unfolding inhibitor_def by simp
qed

definition group_effect :: "alert_settings \<Rightarrow> alert_tables \<Rightarrow> (uuid \<Rightarrow> uuid \<times> string \<Rightarrow> send_outcome) \<Rightarrow> int \<Rightarrow> AlertEvent list \<Rightarrow> uuid \<times> string
    \<Rightarrow> pump \<Rightarrow> pump \<Rightarrow> (AlertEvent \<Rightarrow> AlertEvent) \<Rightarrow> bool" where
  "group_effect S T send now evs k p p' f \<longleftrightarrow>
     events p' = map (\<lambda>e. if ev_id e \<in> ev_id ` set (group_rows (alert_max_delivery_attempts S) k evs) then f e else e) (events p)
     \<and> (\<forall>e. f e = e \<or> tried S now e (f e))
     \<and> ((\<forall>e. delivered (f e) = delivered e)
        \<or> fires S T send now evs k \<and> (\<forall>e. delivered (f e) \<and> delivered_at (f e) = Some now)
          \<and> (muted S T now evs k \<or> (\<forall>c \<in> set (central_channels T (fst k)). (ch_id c, k) \<in> set (outbox p'))))
     \<and> (fires S T send now evs k \<and> (muted S T now evs k \<or> under_ceiling S now (events p) (fst k)) \<longrightarrow> (\<forall>e. delivered (f e)))
     \<and> set (outbox p) \<subseteq> set (outbox p')"

lemma dispatch_rows:
  assumes view: "same_view evs (events p) k" and grp: "grp = group_rows (alert_max_delivery_attempts S) k evs"
  shows "\<exists>f. group_effect S T send now evs k p (dispatch_group S T send now (k, grp) p) f"
    (is "\<exists>f. ?Q f")
proof -
  obtain rid key where k: "k = (rid, key)" by fastforce
  let ?p = "count_with (\<lambda>s. s\<lparr>n_groups := Suc (n_groups s)\<rparr>) p"
  note same = prior_same [OF view [unfolded k]] inhibitor_same [OF view]
  show ?thesis
  proof (cases "find (\<lambda>r. ru_id r = rid) (alert_rules T)")
    case None
    then have "?Q (\<lambda>e. e)" by (simp add: group_effect_def dispatch_group_def k Let_def fires_def)
    then show ?thesis by blast
  next
    case (Some rule)
    let ?due = "group_due rule grp (prior_delivered_at rid key evs) now (alert_group_interval_s S)"
    show ?thesis
    proof (cases "ru_enabled rule \<and> ?due")
      case False
      then have "?Q (\<lambda>e. e)" using Some grp by (auto simp: group_effect_def dispatch_group_def k Let_def fires_def same)
      then show ?thesis by blast
    next
      case due: True
      show ?thesis
      proof (cases "inhibitor T rule grp evs now")
        case (Some name)
        then have "?Q (\<lambda>e. e\<lparr>delivered := True, delivered_at := Some now, last_error := Some (InhibitedBy name)\<rparr>)"
          using due \<open>find _ _ = Some rule\<close> grp by (auto simp: group_effect_def dispatch_group_def k Let_def fires_def muted_def same tried_def)
        then show ?thesis by blast
      next
        case None
        note base = due \<open>find _ _ = Some rule\<close> None
        show ?thesis
        proof (cases "ceiling_exceeded (delivered_last_hour rid now (events p)) (alert_rule_max_per_hour S)")
          case True
          then have "?Q (\<lambda>e. e\<lparr>last_error := Some CeilingHit\<rparr>)"
            using base grp by (auto simp: group_effect_def dispatch_group_def k Let_def same tried_def under_ceiling_def muted_def)
          then show ?thesis by blast
        next
          case False
          show ?thesis
          proof (cases "central_channels T rid = []")
            case True
            then have "?Q (\<lambda>e. e)" using False base grp by (auto simp: group_effect_def dispatch_group_def k Let_def fires_def same)
            then show ?thesis by blast
          next
            case chans: False
            let ?cs = "map ch_id (central_channels T rid)"
            obtain okc r where s: "send_all (\<lambda>c. send c (rid, key)) ?cs = (okc, r)" by fastforce
            let ?p2 = "?p\<lparr>outbox := outbox ?p @ map (\<lambda>c. (c, rid, key)) okc\<rparr>"
            have run: "dispatch_group S T send now (k, grp) p = settle_group S now grp r ?p2"
              using base False chans s by (simp add: dispatch_group_def k Let_def same)
            obtain f where f: "events (settle_group S now grp r ?p2) = map (\<lambda>e. if ev_id e \<in> ev_id ` set grp then f e else e) (events p)"
              "\<forall>e. tried S now e (f e)" "if r = Accepted then \<forall>e. f e = e\<lparr>delivered := True, delivered_at := Some now, last_error := None\<rparr>
                 else \<forall>e. delivered (f e) = delivered e" "outbox (settle_group S now grp r ?p2) = outbox p @ map (\<lambda>c. (c, rid, key)) okc"
              using settle_rows [of S now grp r ?p2] by auto
            have acc: "r = Accepted \<longleftrightarrow> (\<forall>c \<in> set (central_channels T rid). send (ch_id c) (rid, key) = Accepted)"
              using send_all_accepted [of "\<lambda>c. send c (rid, key)" ?cs] s by simp
            have all: "okc = ?cs" if "r = Accepted" using send_all_complete [of "\<lambda>c. send c (rid, key)" ?cs] s that by simp
            have dl: "fires S T send now evs k \<longleftrightarrow> r = Accepted" using base chans acc grp by (auto simp: fires_def k)
            have "?Q f" unfolding group_effect_def run f(1,4) dl grp [symmetric] using f(2,3) all by (cases "r = Accepted") (auto simp: k)
            then show ?thesis by blast
          qed
        qed
      qed
    qed
  qed
qed

end
