(* ===== verification/AlertPump.thy ===== *)
theory AlertPump
  imports Alerts
begin

text \<open>
  What the alert pipeline guarantees (definitions in \<open>Alerts\<close>): a run of the pump as a whole, what it sends and what it
  marks, the invariant of the event table under every step that writes it, that no match is lost and none is recorded
  twice, and that keys group events as the rule says.
\<close>

section \<open>What a run does as a whole\<close>

definition row_outcome :: "alert_settings \<Rightarrow> alert_tables \<Rightarrow> (uuid \<Rightarrow> uuid \<times> string \<Rightarrow> send_outcome) \<Rightarrow> int \<Rightarrow> AlertEvent list
    \<Rightarrow> pump \<Rightarrow> AlertEvent \<Rightarrow> AlertEvent \<Rightarrow> bool" where
  "row_outcome S T send now evs p e e' \<longleftrightarrow> (e' = e \<or> tried S now e e')
     \<and> (delivered e' \<longrightarrow> fires S T send now evs (ev_group e) \<and> delivered_at e' = Some now
          \<and> (muted S T now evs (ev_group e) \<or> (\<forall>c \<in> set (central_channels T (ev_rule e)). (ch_id c, ev_group e) \<in> set (outbox p))))
     \<and> (fires S T send now evs (ev_group e) \<and> (muted S T now evs (ev_group e) \<or> under_ceiling S now (events p) (ev_rule e)) \<longrightarrow> delivered e')"

text \<open>Later in a run the delivered rows are the same and more.\<close>

definition later :: "AlertEvent list \<Rightarrow> AlertEvent list \<Rightarrow> bool" where
  "later evs evs' \<longleftrightarrow> list_all2 (\<lambda>e e'. ev_rule e' = ev_rule e \<and> ev_key e' = ev_key e \<and> (delivered e \<longrightarrow> e' = e)) evs evs'"

lemma later_count:
  assumes "later evs evs'"
  shows "delivered_last_hour rid now evs \<le> delivered_last_hour rid now evs'"
proof -
  let ?P = "\<lambda>e. ev_rule e = rid \<and> delivered e \<and> (case delivered_at e of None \<Rightarrow> False | Some t \<Rightarrow> now - HOUR < t)"
  have "set (filter ?P evs) \<subseteq> set (filter ?P evs')"
    using assms unfolding later_def by (induction rule: list_all2_induct) auto
  then show ?thesis unfolding delivered_last_hour_def length_remdups_card_conv set_map by (intro card_mono image_mono) auto
qed

lemma later_ceiling: "later evs evs' \<Longrightarrow> under_ceiling S now evs' rid \<Longrightarrow> under_ceiling S now evs rid"
  using later_count [of evs evs' rid now] by (auto simp: under_ceiling_def ceiling_exceeded_def split: option.splits)

lemma row_outcome_mono:
  assumes "row_outcome S T send now evs p e e'" "set (outbox p) \<subseteq> set (outbox p')" "later (events p) (events p')"
  shows "row_outcome S T send now evs p' e e'"
  using assms(1,2) later_ceiling [OF assms(3), of S now "ev_rule e"] unfolding row_outcome_def by blast

lemma untried_columns:
  assumes "e' = e \<or> tried S now e e'" "\<not> delivered e'"
  shows "\<exists>n note. e' = e\<lparr>delivery_attempts := n, last_error := note\<rparr>
    \<and> n \<in> {delivery_attempts e, Suc (delivery_attempts e), alert_max_delivery_attempts S}"
proof -
  from assms obtain msg where
    "e' = e\<lparr>delivery_attempts := delivery_attempts e, last_error := last_error e\<rparr>
     \<or> e' = e\<lparr>delivery_attempts := delivery_attempts e, last_error := msg\<rparr>
     \<or> e' = e\<lparr>delivery_attempts := Suc (delivery_attempts e), last_error := msg\<rparr>
     \<or> e' = e\<lparr>delivery_attempts := alert_max_delivery_attempts S, last_error := msg\<rparr>"
    unfolding tried_def by auto
  then show ?thesis by blast
qed

lemma row_outcome_fixed:
  assumes "row_outcome S T send now evs p e e'"
  shows "ev_id e' = ev_id e \<and> ev_rule e' = ev_rule e \<and> ev_library e' = ev_library e \<and> occurred_at e' = occurred_at e \<and> ev_key e' = ev_key e"
  using assms tried_fixed [of S now e e'] by (auto simp: row_outcome_def)

definition run_inv :: "alert_settings \<Rightarrow> alert_tables \<Rightarrow> (uuid \<Rightarrow> uuid \<times> string \<Rightarrow> send_outcome) \<Rightarrow> int \<Rightarrow> AlertEvent list
    \<Rightarrow> (uuid \<times> string) set \<Rightarrow> pump \<Rightarrow> bool" where
  "run_inv S T send now evs ks p \<longleftrightarrow>
     list_all2 (\<lambda>e e'. if pending S e \<and> ev_group e \<in> ks then row_outcome S T send now evs p e e' else e' = e) evs (events p)"

lemma in_group_rows:
  assumes "distinct (map ev_id evs)" "e \<in> set evs"
  shows "ev_id e \<in> ev_id ` set (group_rows (alert_max_delivery_attempts S) k evs) \<longleftrightarrow> pending S e \<and> ev_group e = k"
proof
  assume "ev_id e \<in> ev_id ` set (group_rows (alert_max_delivery_attempts S) k evs)"
  then obtain x where x: "x \<in> set evs" "ev_id x = ev_id e" "pending S x" "ev_group x = k" by (auto simp: group_rows_def pending_def ev_group_def)
  then have "x = e" using assms by (auto simp: distinct_map inj_on_def)
  with x show "pending S e \<and> ev_group e = k" by simp
qed (use assms(2) in \<open>auto simp: group_rows_def pending_def ev_group_def\<close>)

lemma run_inv_view:
  assumes "run_inv S T send now evs ks p" "k \<notin> ks"
  shows "same_view evs (events p) k"
  unfolding same_view_def
proof (rule list.rel_mono_strong [OF assms(1) [unfolded run_inv_def]])
  fix e e' assume "if pending S e \<and> ev_group e \<in> ks then row_outcome S T send now evs p e e' else e' = e"
  then show "ev_rule e' = ev_rule e \<and> ev_library e' = ev_library e \<and> occurred_at e' = occurred_at e \<and> ev_key e' = ev_key e \<and> (ev_group e = k \<longrightarrow> e' = e)"
    using row_outcome_fixed assms(2) by (metis (full_types))
qed

lemma run_step:
  assumes inv: "run_inv S T send now evs ks p" and k: "k \<notin> ks" and d: "distinct (map ev_id evs)"
  shows "run_inv S T send now evs (insert k ks) (dispatch_group S T send now (k, group_rows (alert_max_delivery_attempts S) k evs) p)"
proof -
  let ?grp = "group_rows (alert_max_delivery_attempts S) k evs"
  let ?p = "dispatch_group S T send now (k, ?grp) p"
  obtain f where f: "group_effect S T send now evs k p ?p f" using dispatch_rows [OF run_inv_view [OF inv k] refl] by blast
  note ge = f [unfolded group_effect_def]
  have ev: "events ?p = map (\<lambda>e. if ev_id e \<in> ev_id ` set ?grp then f e else e) (events p)" using ge by blast
  have sub: "set (outbox p) \<subseteq> set (outbox ?p)" using ge by blast
  have old_row: "\<exists>x \<in> set evs. ev_id x = ev_id e \<and> ev_rule x = ev_rule e \<and> ev_key x = ev_key e \<and> (pending S x \<and> ev_group x = k \<longrightarrow> x = e)"
    if e: "e \<in> set (events p)" for e
  proof -
    obtain x where "x \<in> set evs" "if pending S x \<and> ev_group x \<in> ks then row_outcome S T send now evs p x e else e = x"
      using list_all2_in_set2 [OF inv [unfolded run_inv_def] e] by blast
    then show ?thesis using row_outcome_fixed k by (metis (full_types))
  qed
  have lat: "later (events p) (events ?p)"
    unfolding later_def ev list_all2_map2
  proof (rule list.rel_refl_strong)
    fix e assume e: "e \<in> set (events p)"
    obtain x where x: "x \<in> set evs" "ev_id x = ev_id e" "pending S x \<and> ev_group x = k \<longrightarrow> x = e" using old_row [OF e] by blast
    have undelivered: "\<not> delivered e" if "ev_id e \<in> ev_id ` set ?grp"
    proof -
      have "ev_id x \<in> ev_id ` set ?grp" unfolding x(2) by (rule that)
      then have "pending S x" "x = e" using in_group_rows [OF d x(1), of S k] x(3) by blast+
      then show ?thesis by (simp add: pending_def)
    qed
    have "f e = e \<or> tried S now e (f e)" using ge by blast
    then have "ev_rule (f e) = ev_rule e \<and> ev_key (f e) = ev_key e" using tried_fixed by metis
    then show "ev_rule (if ev_id e \<in> ev_id ` set ?grp then f e else e) = ev_rule e \<and> ev_key (if ev_id e \<in> ev_id ` set ?grp then f e else e) = ev_key e
       \<and> (delivered e \<longrightarrow> (if ev_id e \<in> ev_id ` set ?grp then f e else e) = e)" using undelivered by auto
  qed
  have own: "row_outcome S T send now evs ?p e (f e)" if "pending S e" "ev_group e = k" for e
  proof -
    have nd: "\<not> delivered e" and rk: "ev_rule e = fst k" using that by (auto simp: pending_def ev_group_def)
    show ?thesis unfolding row_outcome_def that(2) rk using ge nd later_ceiling [OF lat, of S now "fst k"] by blast
  qed
  show ?thesis unfolding run_inv_def ev list_all2_map2
  proof (rule list.rel_mono_strong [OF inv [unfolded run_inv_def]])
    fix e e' assume e: "e \<in> set evs"
      and old: "if pending S e \<and> ev_group e \<in> ks then row_outcome S T send now evs p e e' else e' = e"
    have id: "ev_id e' = ev_id e" using old row_outcome_fixed by (metis (full_types))
    show "if pending S e \<and> ev_group e \<in> insert k ks
        then row_outcome S T send now evs ?p e (if ev_id e' \<in> ev_id ` set ?grp then f e' else e')
        else (if ev_id e' \<in> ev_id ` set ?grp then f e' else e') = e"
    proof (cases "pending S e \<and> ev_group e = k")
      case True
      then have "e' = e" using old k by (auto split: if_splits)
      with True own in_group_rows [OF d e, of S k] show ?thesis by auto
    next
      case False
      then have "ev_id e' \<notin> ev_id ` set ?grp" unfolding id using in_group_rows [OF d e, of S k] by blast
      with False old row_outcome_mono [OF _ sub lat] show ?thesis by (auto split: if_splits)
    qed
  qed
qed

lemma run_groups:
  assumes "run_inv S T send now evs ks p" "distinct gs" "set gs \<inter> ks = {}" "distinct (map ev_id evs)"
  shows "run_inv S T send now evs (ks \<union> set gs)
    (fold (dispatch_group S T send now) (map (\<lambda>k. (k, group_rows (alert_max_delivery_attempts S) k evs)) gs) p)"
  using assms
proof (induction gs arbitrary: ks p)
  case (Cons k gs)
  have "k \<notin> ks" using Cons.prems(3) by auto
  note step = run_step [OF Cons.prems(1) this Cons.prems(4)]
  have "set gs \<inter> insert k ks = {}" using Cons.prems(2,3) by auto
  from Cons.IH [OF step _ this Cons.prems(4)] Cons.prems(2) show ?case by simp
qed simp

lemma run_rows:
  assumes "distinct (map ev_id evs)"
  shows "list_all2 (\<lambda>e e'. if pending S e then row_outcome S T send now evs (run_pending_dispatch S T send now evs) e e' else e' = e)
    evs (events (run_pending_dispatch S T send now evs))"
proof -
  let ?m = "alert_max_delivery_attempts S"
  let ?gs = "rev (remdups (rev (map (\<lambda>e. (ev_rule e, ev_key e)) (filter (\<lambda>e. \<not> delivered e \<and> delivery_attempts e < ?m) evs))))"
  let ?p = "\<lparr>events = evs, outbox = [], pstats = no_stats\<rparr>"
  have "run_inv S T send now evs {} ?p" by (simp add: run_inv_def list_all2_refl)
  from run_groups [OF this _ _ assms, of ?gs] have inv: "run_inv S T send now evs (set ?gs) (run_pending_dispatch S T send now evs)"
    by (simp add: run_pending_dispatch_def pending_groups_def)
  show ?thesis
  proof (rule list.rel_mono_strong [OF inv [unfolded run_inv_def]])
    fix e e' assume e: "e \<in> set evs" and o: "if pending S e \<and> ev_group e \<in> set ?gs
      then row_outcome S T send now evs (run_pending_dispatch S T send now evs) e e' else e' = e"
    have "ev_group e \<in> set ?gs" if "pending S e" using that e by (auto simp: pending_def ev_group_def)
    with o show "if pending S e then row_outcome S T send now evs (run_pending_dispatch S T send now evs) e e' else e' = e" by auto
  qed
qed

section \<open>The invariant of the event table\<close>

definition events_ok :: "alert_settings \<Rightarrow> AlertEvent list \<times> nat \<Rightarrow> bool" where
  "events_ok S = (\<lambda>(evs, k). distinct (map ev_id evs) \<and> distinct (pending_keys evs)
     \<and> (\<forall>e \<in> set evs. ev_id e < k \<and> delivery_attempts e \<le> alert_max_delivery_attempts S \<and> (delivered e \<longleftrightarrow> delivered_at e \<noteq> None)))"

lemma pending_keys_simps [simp]:
  "pending_keys [] = []" "pending_keys (e # evs) = (if delivered e then pending_keys evs else pending_key e # pending_keys evs)"
  "pending_keys (evs @ evs') = pending_keys evs @ pending_keys evs'"
  by (simp_all add: pending_keys_def)

lemma event_of_key [simp]: "pending_key (event_of k d) = draft_key d" "ev_id (event_of k d) = k" "\<not> delivered (event_of k d)"
  by (simp_all add: event_of_def pending_key_def draft_key_def)

lemma insert_events_ok:
  assumes "events_ok S t"
  shows "events_ok S (insert_events ds t)"
  using assms
proof (induction ds t rule: insert_events.induct)
  case (2 d ds evs k)
  show ?case
  proof (cases "draft_key d \<in> set (pending_keys evs)")
    case True
    then show ?thesis using 2 by simp
  next
    case False
    note ok = 2(3) [unfolded events_ok_def split]
    have "k \<notin> ev_id ` set evs" using ok by fastforce
    moreover have "ev_id e < Suc k" if "e \<in> set evs" for e using ok that less_SucI by blast
    ultimately have "events_ok S (evs @ [event_of k d], Suc k)" using ok False
      by (simp add: events_ok_def) (simp add: event_of_def)
    then show ?thesis using 2(2) False by simp
  qed
qed simp

lemma subseq_distinct: "subseq xs ys \<Longrightarrow> distinct ys \<Longrightarrow> distinct xs"
  by (auto simp: subseq_conv_nths)

lemma pending_keys_map:
  assumes "list_all2 (\<lambda>e e'. pending_key e' = pending_key e \<and> (delivered e \<longrightarrow> delivered e')) evs evs'"
  shows "subseq (pending_keys evs') (pending_keys evs)"
  using assms by (induction rule: list_all2_induct) auto

lemma filter_events_ok:
  assumes "events_ok S (evs, k)"
  shows "events_ok S (filter P evs, k)"
proof -
  have "subseq (pending_keys (filter P evs)) (pending_keys evs)" by (induction evs) auto
  then show ?thesis using assms subseq_distinct by (auto simp: events_ok_def distinct_map_filter)
qed

lemma run_events_ok:
  assumes "events_ok S (evs, k)"
  shows "events_ok S (events (run_pending_dispatch S T send now evs), k)"
proof -
  let ?p = "run_pending_dispatch S T send now evs"
  note ok = assms [unfolded events_ok_def split]
  have rel: "list_all2 (\<lambda>e e'. ev_id e' = ev_id e \<and> pending_key e' = pending_key e \<and> (delivered e \<longrightarrow> delivered e')
      \<and> ev_id e' < k \<and> delivery_attempts e' \<le> alert_max_delivery_attempts S \<and> (delivered e' \<longleftrightarrow> delivered_at e' \<noteq> None)) evs (events ?p)"
  proof (rule list.rel_mono_strong [OF run_rows])
    show "distinct (map ev_id evs)" using ok by blast
    fix e e' assume e: "e \<in> set evs" and o: "if pending S e then row_outcome S T send now evs ?p e e' else e' = e"
    have b: "ev_id e < k" "delivery_attempts e \<le> alert_max_delivery_attempts S" "delivered e \<longleftrightarrow> delivered_at e \<noteq> None" using ok e by blast+
    show "ev_id e' = ev_id e \<and> pending_key e' = pending_key e \<and> (delivered e \<longrightarrow> delivered e')
      \<and> ev_id e' < k \<and> delivery_attempts e' \<le> alert_max_delivery_attempts S \<and> (delivered e' \<longleftrightarrow> delivered_at e' \<noteq> None)"
    proof (cases "e' = e")
      case False
      then have "pending S e" "tried S now e e'" using o by (auto simp: row_outcome_def split: if_splits)
      then show ?thesis using b by (auto simp: tried_def pending_def pending_key_def)
    qed (use b in simp)
  qed
  have "map ev_id (events ?p) = map ev_id evs" using rel by (auto simp: list_all2_conv_all_nth intro!: nth_equalityI)
  moreover have "subseq (pending_keys (events ?p)) (pending_keys evs)" by (rule pending_keys_map [OF list_all2_mono [OF rel]]) blast
  then have "distinct (pending_keys (events ?p))" using ok subseq_distinct by blast
  moreover have "ev_id e' < k \<and> delivery_attempts e' \<le> alert_max_delivery_attempts S \<and> (delivered e' \<longleftrightarrow> delivered_at e' \<noteq> None)"
    if "e' \<in> set (events ?p)" for e' using list_all2_in_set2 [OF rel that] by blast
  ultimately show ?thesis using ok by (simp add: events_ok_def)
qed

section \<open>What a run sends\<close>

text \<open>When a group may be sent at all: its rule exists and is enabled, the group is due, no other rule mutes it and the rule is below its hourly ceiling.\<close>

definition sendable :: "alert_settings \<Rightarrow> alert_tables \<Rightarrow> int \<Rightarrow> AlertEvent list \<Rightarrow> uuid \<times> string \<Rightarrow> bool" where
  "sendable S T now evs k = (case find (\<lambda>r. ru_id r = fst k) (alert_rules T) of
       None \<Rightarrow> False
     | Some rule \<Rightarrow> ru_enabled rule
         \<and> group_due rule (group_rows (alert_max_delivery_attempts S) k evs) (prior_delivered_at (fst k) (snd k) evs) now (alert_group_interval_s S)
         \<and> inhibitor T rule (group_rows (alert_max_delivery_attempts S) k evs) evs now = None
         \<and> under_ceiling S now evs (fst k))"

definition sent_ok :: "alert_settings \<Rightarrow> alert_tables \<Rightarrow> (uuid \<Rightarrow> uuid \<times> string \<Rightarrow> send_outcome) \<Rightarrow> int \<Rightarrow> AlertEvent list
    \<Rightarrow> (uuid \<times> string) set \<Rightarrow> (uuid \<times> uuid \<times> string) list \<Rightarrow> bool" where
  "sent_ok S T send now evs ks out \<longleftrightarrow> distinct out \<and> (\<forall>(c, k) \<in> set out. k \<in> ks \<and> sendable S T now evs k
     \<and> c \<in> ch_id ` set (central_channels T (fst k)) \<and> send c k = Accepted)"

lemma send_all_prefix: "fst (send_all send cs) = takeWhile (\<lambda>c. send c = Accepted) cs"
  by (induction cs) (auto simp: case_prod_unfold Let_def)

lemma settle_outbox [simp]: "outbox (settle_group S now grp r p) = outbox p"
  using settle_rows [of S now grp r p] by blast

lemma run_inv_later:
  assumes "run_inv S T send now evs ks p"
  shows "later evs (events p)"
  unfolding later_def
proof (rule list.rel_mono_strong [OF assms [unfolded run_inv_def]])
  fix e e' assume "if pending S e \<and> ev_group e \<in> ks then row_outcome S T send now evs p e e' else e' = e"
  then show "ev_rule e' = ev_rule e \<and> ev_key e' = ev_key e \<and> (delivered e \<longrightarrow> e' = e)"
    using row_outcome_fixed pending_def by (metis (full_types))
qed

lemma dispatch_outbox:
  assumes view: "same_view evs (events p) k" and lat: "later evs (events p)" and grp: "grp = group_rows (alert_max_delivery_attempts S) k evs"
  shows "outbox (dispatch_group S T send now (k, grp) p) = outbox p \<or> sendable S T now evs k
    \<and> outbox (dispatch_group S T send now (k, grp) p)
        = outbox p @ map (\<lambda>c. (c, k)) (takeWhile (\<lambda>c. send c k = Accepted) (map ch_id (central_channels T (fst k))))"
proof -
  obtain rid key where k: "k = (rid, key)" by fastforce
  note same = prior_same [OF view [unfolded k]] inhibitor_same [OF view]
  have "\<not> ceiling_exceeded (delivered_last_hour rid now (events p)) (alert_rule_max_per_hour S) \<Longrightarrow> under_ceiling S now evs rid"
    using later_ceiling [OF lat] by (simp add: under_ceiling_def)
  then show ?thesis
    by (cases "find (\<lambda>r. ru_id r = rid) (alert_rules T)")
      (auto simp: dispatch_group_def k Let_def same sendable_def case_prod_unfold send_all_prefix grp split: option.splits)
qed

lemma dispatch_sent_ok:
  assumes view: "same_view evs (events p) k" and lat: "later evs (events p)" and k: "k \<notin> ks" and ids: "distinct (map ch_id (alert_channels T))"
    and ok: "sent_ok S T send now evs ks (outbox p)"
  shows "sent_ok S T send now evs (insert k ks) (outbox (dispatch_group S T send now (k, group_rows (alert_max_delivery_attempts S) k evs) p))"
proof -
  have mono: "sent_ok S T send now evs (insert k ks) (outbox p)" using ok by (auto simp: sent_ok_def)
  let ?cs = "takeWhile (\<lambda>c. send c k = Accepted) (map ch_id (central_channels T (fst k)))"
  have d: "distinct ?cs" using ids by (simp add: central_channels_def distinct_map_filter distinct_takeWhile)
  have new: "sent_ok S T send now evs (insert k ks) (outbox p @ map (\<lambda>c. (c, k)) ?cs)" if s: "sendable S T now evs k"
  proof -
    have "distinct (map (\<lambda>c. (c, k)) ?cs)" using d by (auto simp: distinct_map inj_on_def)
    moreover have "(c, k) \<notin> set (outbox p)" for c using ok k by (auto simp: sent_ok_def)
    moreover have "c \<in> set (map ch_id (central_channels T (fst k))) \<and> send c k = Accepted" if "c \<in> set ?cs" for c
      using that set_takeWhileD by fastforce
    ultimately show ?thesis using mono s by (fastforce simp: sent_ok_def)
  qed
  show ?thesis using dispatch_outbox [OF view lat refl, of S T send now] mono new by auto
qed

lemma run_groups_sent:
  assumes "run_inv S T send now evs ks p" "distinct gs" "set gs \<inter> ks = {}" "distinct (map ev_id evs)"
    "distinct (map ch_id (alert_channels T))" "sent_ok S T send now evs ks (outbox p)"
  shows "sent_ok S T send now evs (ks \<union> set gs)
    (outbox (fold (dispatch_group S T send now) (map (\<lambda>k. (k, group_rows (alert_max_delivery_attempts S) k evs)) gs) p))"
  using assms
proof (induction gs arbitrary: ks p)
  case (Cons k gs)
  have k: "k \<notin> ks" using Cons.prems(3) by auto
  note step = run_step [OF Cons.prems(1) k Cons.prems(4)]
  note sent = dispatch_sent_ok [OF run_inv_view [OF Cons.prems(1) k] run_inv_later [OF Cons.prems(1)] k Cons.prems(5,6)]
  have "set gs \<inter> insert k ks = {}" using Cons.prems(2,3) by auto
  from Cons.IH [OF step _ this Cons.prems(4,5) sent] Cons.prems(2) show ?case by simp
qed simp

lemma run_sent:
  assumes "distinct (map ev_id evs)" "distinct (map ch_id (alert_channels T))"
  shows "sent_ok S T send now evs (ev_group ` {e \<in> set evs. pending S e}) (outbox (run_pending_dispatch S T send now evs))"
proof -
  let ?m = "alert_max_delivery_attempts S"
  let ?gs = "rev (remdups (rev (map (\<lambda>e. (ev_rule e, ev_key e)) (filter (\<lambda>e. \<not> delivered e \<and> delivery_attempts e < ?m) evs))))"
  let ?p = "\<lparr>events = evs, outbox = [], pstats = no_stats\<rparr>"
  have "run_inv S T send now evs {} ?p" "sent_ok S T send now evs {} (outbox ?p)" by (simp_all add: run_inv_def list_all2_refl sent_ok_def)
  from run_groups_sent [OF this(1) _ _ assms this(2), of ?gs]
  have "sent_ok S T send now evs (set ?gs) (outbox (run_pending_dispatch S T send now evs))"
    by (simp add: run_pending_dispatch_def pending_groups_def)
  moreover have "set ?gs = ev_group ` {e \<in> set evs. pending S e}" by (auto simp: ev_group_def pending_def image_iff)
  ultimately show ?thesis by simp
qed

section \<open>Steps of the event table\<close>

text \<open>The foreign keys of the table: an event goes with its item and with its rule, and forgets a library that is deleted.\<close>

definition cascade_item :: "uuid \<Rightarrow> AlertEvent list \<Rightarrow> AlertEvent list" where
  "cascade_item i evs = filter (\<lambda>e. ev_item e \<noteq> Some i) evs"

definition cascade_rule :: "uuid \<Rightarrow> AlertEvent list \<Rightarrow> AlertEvent list" where
  "cascade_rule r evs = filter (\<lambda>e. ev_rule e \<noteq> r) evs"

definition unlink_library :: "uuid \<Rightarrow> AlertEvent list \<Rightarrow> AlertEvent list" where
  "unlink_library lib evs = map (\<lambda>e. if ev_library e = Some lib then e\<lparr>ev_library := None\<rparr> else e) evs"

inductive astep :: "alert_settings \<Rightarrow> AlertEvent list \<times> nat \<Rightarrow> AlertEvent list \<times> nat \<Rightarrow> bool" for S where
  recorded: "astep S t (persist_drafts seen drafts t)"
| dispatch: "astep S (evs, k) (events (run_pending_dispatch S T send now evs), k)"
| purge: "astep S (evs, k) (purge_alert_events S cutoff evs, k)"
| moved: "astep S (evs, k) (drop_created lib paths evs, k)"
| item_gone: "astep S (evs, k) (cascade_item i evs, k)"
| rule_gone: "astep S (evs, k) (cascade_rule r evs, k)"
| library_gone: "astep S (evs, k) (unlink_library lib evs, k)"

lemma unlink_columns:
  "map ev_id (unlink_library lib evs) = map ev_id evs" "pending_keys (unlink_library lib evs) = pending_keys evs"
  "e' \<in> set (unlink_library lib evs) \<Longrightarrow> \<exists>e \<in> set evs. e' = e \<or> e' = e\<lparr>ev_library := None\<rparr>"
proof -
  show "map ev_id (unlink_library lib evs) = map ev_id evs" by (simp add: unlink_library_def)
  show "pending_keys (unlink_library lib evs) = pending_keys evs" 
    by (induction evs) (simp_all add: unlink_library_def pending_key_def)
qed (auto simp: unlink_library_def)

lemma unlink_ok: "events_ok S (evs, k) \<Longrightarrow> events_ok S (unlink_library lib evs, k)"
  unfolding events_ok_def split_conv unlink_columns(1,2)
  by (intro conjI ballI) (fastforce dest: unlink_columns(3))+

lemma astep_ok:
  assumes "astep S t t'" "events_ok S t"
  shows "events_ok S t'"
  using assms
  by cases (simp_all add: persist_drafts_def insert_events_ok run_events_ok purge_alert_events_def drop_created_def cascade_item_def
      cascade_rule_def filter_events_ok unlink_ok)

lemma insert_events_extends: "\<exists>new. fst (insert_events ds t) = fst t @ new \<and> (\<forall>e \<in> set new. \<exists>d \<in> set ds. \<exists>k. snd t \<le> k \<and> e = event_of k d)"
proof (induction ds t rule: insert_events.induct)
  case (2 d ds evs k)
  show ?case
  proof (cases "draft_key d \<in> set (pending_keys evs)")
    case True
    with 2(1) show ?thesis by fastforce
  next
    case False
    with 2(2) obtain new where n: "fst (insert_events ds (evs @ [event_of k d], Suc k)) = (evs @ [event_of k d]) @ new"
      "\<forall>e \<in> set new. \<exists>d \<in> set ds. \<exists>j. Suc k \<le> j \<and> e = event_of j d" by auto
    have "\<forall>e \<in> set (event_of k d # new). \<exists>x \<in> set (d # ds). \<exists>j. k \<le> j \<and> e = event_of j x" using n(2) by (metis Suc_leD list.set_intros order_refl set_ConsD)
    with n(1) False show ?thesis by (intro exI [of _ "event_of k d # new"]) simp
  qed
qed simp

text \<open>A delivered or given-up row stays or goes; at most it forgets a deleted library.\<close>

definition frozen :: "alert_settings \<Rightarrow> AlertEvent list \<Rightarrow> AlertEvent list \<Rightarrow> bool" where
  "frozen S evs evs' \<longleftrightarrow> (\<forall>e \<in> set evs. \<not> pending S e \<longrightarrow> (\<forall>e' \<in> set evs'. ev_id e' = ev_id e \<longrightarrow> e' = e \<or> e' = e\<lparr>ev_library := None\<rparr>))"

lemma frozen_filter: "distinct (map ev_id evs) \<Longrightarrow> frozen S evs (filter P evs)"
  by (auto simp: frozen_def distinct_map inj_on_def)

lemma frozen_run:
  assumes "distinct (map ev_id evs)"
  shows "frozen S evs (events (run_pending_dispatch S T send now evs))"
  unfolding frozen_def
proof (intro ballI impI)
  let ?p = "run_pending_dispatch S T send now evs"
  fix e e' assume e: "e \<in> set evs" "\<not> pending S e" "e' \<in> set (events ?p)" "ev_id e' = ev_id e"
  obtain x where x: "x \<in> set evs" "if pending S x then row_outcome S T send now evs ?p x e' else e' = x"
    using list_all2_in_set2 [OF run_rows [OF assms] e(3)] by blast
  then have "ev_id x = ev_id e" using row_outcome_fixed e(4) by (metis (full_types))
  then have "x = e" using assms x(1) e(1) by (auto simp: distinct_map inj_on_def)
  with x(2) e(2) show "e' = e \<or> e' = e\<lparr>ev_library := None\<rparr>" by simp
qed

lemma frozen_unlink: "distinct (map ev_id evs) \<Longrightarrow> frozen S evs (unlink_library lib evs)"
  unfolding frozen_def
proof (intro ballI impI)
  fix e e' assume d: "distinct (map ev_id evs)" and e: "e \<in> set evs" "e' \<in> set (unlink_library lib evs)" "ev_id e' = ev_id e"
  from unlink_columns(3) [OF e(2)] obtain x where x: "x \<in> set evs" "e' = x \<or> e' = x\<lparr>ev_library := None\<rparr>" by blast
  then have "x = e" using d e by (auto simp: distinct_map inj_on_def)
  with x(2) show "e' = e \<or> e' = e\<lparr>ev_library := None\<rparr>" by simp
qed

lemma frozen_record:
  assumes "events_ok S t"
  shows "frozen S (fst t) (fst (persist_drafts seen drafts t))"
proof -
  obtain evs k where t: "t = (evs, k)" by fastforce
  let ?ds = "fresh_drafts (pending_keys seen) drafts"
  obtain new where n: "fst (insert_events ?ds t) = evs @ new" "\<forall>e \<in> set new. \<exists>d \<in> set ?ds. \<exists>j. k \<le> j \<and> e = event_of j d"
    using insert_events_extends [of ?ds t] t by auto
  have d: "distinct (map ev_id evs)" "\<forall>e \<in> set evs. ev_id e < k" using assms t by (auto simp: events_ok_def)
  have "ev_id e' \<noteq> ev_id e" if "e \<in> set evs" "e' \<in> set new" for e e'
    using n(2) that d(2) by fastforce
  then show ?thesis using d(1) t n(1) unfolding frozen_def persist_drafts_def by (auto simp: distinct_map inj_on_def)
qed

lemma astep_frozen:
  assumes "astep S t t'" "events_ok S t"
  shows "frozen S (fst t) (fst t')"
proof -
  have d: "distinct (map ev_id (fst t))" using assms(2) by (auto simp: events_ok_def case_prod_unfold)
  from assms(1) show ?thesis
    by cases (use d frozen_record [OF assms(2)] in \<open>simp_all add: frozen_run purge_alert_events_def drop_created_def cascade_item_def
        cascade_rule_def frozen_filter frozen_unlink\<close>)
qed

section \<open>No match is lost\<close>

lemma insert_events_keeps: "x \<in> set (pending_keys (fst t)) \<Longrightarrow> x \<in> set (pending_keys (fst (insert_events ds t)))"
  using insert_events_extends [of ds t] by (elim exE conjE) simp

lemma insert_events_has: "d \<in> set ds \<Longrightarrow> draft_key d \<in> set (pending_keys (fst (insert_events ds t)))"
proof (induction ds t rule: insert_events.induct)
  case (2 a ds evs k)
  let ?s = "if draft_key a \<in> set (pending_keys evs) then (evs, k) else (evs @ [event_of k a], Suc k)"
  have run: "insert_events (a # ds) (evs, k) = insert_events ds ?s" by simp
  show ?case
  proof (cases "d = a")
    case True
    then have "draft_key d \<in> set (pending_keys (fst ?s))" by simp
    then show ?thesis unfolding run by (rule insert_events_keeps)
  next
    case False
    then have "d \<in> set ds" using 2(3) by simp
    then have "draft_key d \<in> set (pending_keys (fst (insert_events ds ?s)))" using 2(1,2) by (cases "draft_key a \<in> set (pending_keys evs)") auto
    then show ?thesis unfolding run .
  qed
qed simp

lemma fresh_drafts_cover: "d \<in> set ds \<Longrightarrow> draft_key d \<in> set seen \<or> (\<exists>d' \<in> set (fresh_drafts seen ds). draft_key d' = draft_key d)"
  by (induction seen ds rule: fresh_drafts.induct) auto

lemma fresh_drafts_sub: "set (fresh_drafts seen ds) \<subseteq> set ds"
  by (induction seen ds rule: fresh_drafts.induct) auto

lemma persist_has:
  assumes "d \<in> set ds"
  shows "draft_key d \<in> set (pending_keys (fst (persist_drafts evs ds (evs, k))))"
  using fresh_drafts_cover [OF assms, of "pending_keys evs"] insert_events_has insert_events_keeps [of _ "(evs, k)"]
  unfolding persist_drafts_def by (metis fst_conv)

lemma persist_extends:
  "\<exists>new. fst (persist_drafts seen ds (evs, k)) = evs @ new \<and> (\<forall>e \<in> set new. \<exists>d \<in> set ds. \<exists>j. e = event_of j d)"
  using insert_events_extends [of "fresh_drafts (pending_keys seen) ds" "(evs, k)"] fresh_drafts_sub [of "pending_keys seen" ds]
  unfolding persist_drafts_def by (metis fst_conv subsetD)

lemma evaluate_event_iff:
  "d \<in> set (evaluate_event A rules ev item now) \<longleftrightarrow> (\<exists>rule \<in> set rules. match_rule (glob_match A) rule ev \<and> build_draft A rule ev item now = Inr d)"
proof (induction rules)
  case (Cons r rs)
  then show ?case
    by (cases "build_draft A r ev item now"; cases "match_rule (glob_match A) r ev") (auto simp: evaluate_event_def)
qed (simp add: evaluate_event_def)

text \<open>The matches of a batch of transitions.\<close>

definition matched :: "alert_env \<Rightarrow> AlertRule list \<Rightarrow> uuid \<Rightarrow> int \<Rightarrow> transition list \<Rightarrow> AlertDraft \<Rightarrow> bool" where
  "matched A rules lib now caps d \<longleftrightarrow> (\<exists>(t, rel, item, oldh) \<in> set caps. \<exists>rule \<in> set rules.
     t \<in> EVENT_TYPES \<and> match_rule (glob_match A) rule \<lparr>fe_type = t, fe_library = lib, fe_rel_path = rel, old_hash = oldh, new_hash = None\<rparr>
     \<and> build_draft A rule \<lparr>fe_type = t, fe_library = lib, fe_rel_path = rel, old_hash = oldh, new_hash = None\<rparr> (Some item) now = Inr d)"

lemma capture_one:
  assumes "load_enabled_rules glob_ok rows = Inr rules"
  shows "d \<in> set (capture A glob_ok rows lib now (t, rel, item, oldh)) \<longleftrightarrow> (\<exists>rule \<in> set rules.
     t \<in> EVENT_TYPES \<and> match_rule (glob_match A) rule \<lparr>fe_type = t, fe_library = lib, fe_rel_path = rel, old_hash = oldh, new_hash = None\<rparr>
     \<and> build_draft A rule \<lparr>fe_type = t, fe_library = lib, fe_rel_path = rel, old_hash = oldh, new_hash = None\<rparr> (Some item) now = Inr d)"
  by (cases "rules = []") (simp_all add: capture_def assms file_event_def evaluate_event_iff)

lemma capture_iff:
  assumes "load_enabled_rules glob_ok rows = Inr rules"
  shows "d \<in> set (concat (map (capture A glob_ok rows lib now) caps)) \<longleftrightarrow> matched A rules lib now caps d"
proof -
  have "d \<in> set (concat (map (capture A glob_ok rows lib now) caps)) \<longleftrightarrow> (\<exists>c \<in> set caps. d \<in> set (capture A glob_ok rows lib now c))" by simp
  also have "\<dots> \<longleftrightarrow> matched A rules lib now caps d"
    unfolding matched_def
  proof (rule bex_cong [OF refl])
    fix c assume "c \<in> set caps"
    obtain t rel item oldh where c: "c = (t, rel, item, oldh)" by (cases c) auto
    show "d \<in> set (capture A glob_ok rows lib now c) \<longleftrightarrow> (case c of (t, rel, item, oldh) \<Rightarrow> \<exists>rule \<in> set rules.
        t \<in> EVENT_TYPES \<and> match_rule (glob_match A) rule \<lparr>fe_type = t, fe_library = lib, fe_rel_path = rel, old_hash = oldh, new_hash = None\<rparr>
        \<and> build_draft A rule \<lparr>fe_type = t, fe_library = lib, fe_rel_path = rel, old_hash = oldh, new_hash = None\<rparr> (Some item) now = Inr d)"
      unfolding c split by (rule capture_one [OF assms])
  qed
  finally show ?thesis .
qed

text \<open>Property C22. With at least one delivery attempt allowed, after a batch of transitions has been recorded every match of
  an enabled rule has a row that waits to be sent, with one exception: a row of the same rule, key and item that was
  given up before, undelivered and out of attempts, takes its place, and then the match is lost. The rows that were
  there are kept as they are and the new ones are matches of the batch; no rule, key and item is undelivered twice.\<close>

theorem match_recorded:
  assumes rules: "load_enabled_rules glob_ok rows = Inr rules" and ok: "events_ok S (evs, k)" and limit: "0 < alert_max_delivery_attempts S"
  shows "(\<forall>d. matched A rules lib now caps d \<longrightarrow>
            (\<exists>e \<in> set (fst (persist_drafts evs (concat (map (capture A glob_ok rows lib now) caps)) (evs, k))). pending S e \<and> pending_key e = draft_key d)
            \<or> (\<exists>e \<in> set evs. \<not> delivered e \<and> alert_max_delivery_attempts S \<le> delivery_attempts e \<and> pending_key e = draft_key d))
     \<and> (\<exists>new. fst (persist_drafts evs (concat (map (capture A glob_ok rows lib now) caps)) (evs, k)) = evs @ new
          \<and> (\<forall>e \<in> set new. \<exists>d j. matched A rules lib now caps d \<and> e = event_of j d))
     \<and> distinct (pending_keys (fst (persist_drafts evs (concat (map (capture A glob_ok rows lib now) caps)) (evs, k))))"
proof -
  let ?ds = "concat (map (capture A glob_ok rows lib now) caps)"
  note iff = capture_iff [OF rules, of _ A lib now caps]
  have ext: "\<exists>new. fst (persist_drafts evs ?ds (evs, k)) = evs @ new \<and> (\<forall>e \<in> set new. \<exists>d j. matched A rules lib now caps d \<and> e = event_of j d)"
    using persist_extends [of evs ?ds evs k] iff by metis
  have "(\<exists>e \<in> set (fst (persist_drafts evs ?ds (evs, k))). pending S e \<and> pending_key e = draft_key d)
      \<or> (\<exists>e \<in> set evs. \<not> delivered e \<and> alert_max_delivery_attempts S \<le> delivery_attempts e \<and> pending_key e = draft_key d)"
    if "matched A rules lib now caps d" for d
  proof -
    from persist_has [of d ?ds evs k] that iff [of d] obtain e where
      e: "e \<in> set (fst (persist_drafts evs ?ds (evs, k)))" "\<not> delivered e" "pending_key e = draft_key d" by (auto simp: pending_keys_def)
    have new: "delivery_attempts (event_of j d) = 0" for j d by (simp add: event_of_def)
    from ext e(1) have "e \<in> set evs \<or> (\<exists>d j. e = event_of j d)" by (metis UnE set_append)
    then have "e \<in> set evs \<or> delivery_attempts e = 0" by (auto simp: new)
    then show ?thesis using e limit by (cases "pending S e") (auto simp: pending_def)
  qed
  moreover note ext
  moreover have "events_ok S (persist_drafts evs ?ds (evs, k))" using ok by (simp add: persist_drafts_def insert_events_ok)
  then have "distinct (pending_keys (fst (persist_drafts evs ?ds (evs, k))))" by (auto simp: events_ok_def case_prod_unfold)
  ultimately show ?thesis by blast
qed

section \<open>Properties of the pump\<close>

text \<open>Property C23. In every state the event table reaches, rows have unique ids and unique pending keys, no row has more
  attempts than the limit, a delivered row and only that has a delivery time; and no step changes a row that was
  delivered or given up: it stays as it is or is removed, but for its library, which is cleared when that library is
  deleted. The steps are the writer, the pump, the purge, the clean-up of moves and the foreign keys to items, rules
  and libraries.\<close>

theorem alerts_reachable_ok:
  assumes "(astep S)\<^sup>*\<^sup>* ([], 0) t"
  shows "events_ok S t \<and> (\<forall>t'. astep S t t' \<longrightarrow> frozen S (fst t) (fst t'))"
proof -
  have "events_ok S ([], 0)" by (simp add: events_ok_def)
  with assms have "events_ok S t" by (induction rule: rtranclp_induct) (auto intro: astep_ok)
  then show ?thesis using astep_frozen by blast
qed

text \<open>Property C21. A run of the pump changes no row that is not waiting. A row it marks delivered belongs to a group that
  fires: its rule exists and is enabled, the group is due, and either another rule mutes it or every central channel of
  the rule accepted it in this run. Every waiting row of a group that fires is marked delivered, unless
  its rule ends the run at its hourly ceiling. A waiting row that is not delivered keeps every column but two: the note of the
  last error, and the attempts, which stay, grow by one or jump to the limit. Each message a channel accepts in the run
  belongs to a waiting group that is due and not muted, of a rule below its ceiling, goes to a central channel of its
  rule, and goes there once in this run. Such a group need not fire: when a later channel of the rule fails, its rows
  stay waiting and a later run sends to the earlier channels again.\<close>

theorem pump_delivers_exactly:
  assumes ok: "events_ok S (evs, k)" and chans: "distinct (map ch_id (alert_channels T))"
    and p: "p = run_pending_dispatch S T send now evs"
  shows "length (events p) = length evs
    \<and> (\<forall>i < length evs. if pending S (evs ! i)
        then (delivered (events p ! i) \<longrightarrow> fires S T send now evs (ev_group (evs ! i)) \<and> delivered_at (events p ! i) = Some now
               \<and> (muted S T now evs (ev_group (evs ! i))
                  \<or> (\<forall>c \<in> set (central_channels T (ev_rule (evs ! i))). (ch_id c, ev_group (evs ! i)) \<in> set (outbox p))))
          \<and> (fires S T send now evs (ev_group (evs ! i)) \<and> (muted S T now evs (ev_group (evs ! i)) \<or> under_ceiling S now (events p) (ev_rule (evs ! i)))
              \<longrightarrow> delivered (events p ! i))
          \<and> (\<not> delivered (events p ! i) \<longrightarrow> (\<exists>n note. events p ! i = (evs ! i)\<lparr>delivery_attempts := n, last_error := note\<rparr>
               \<and> n \<in> {delivery_attempts (evs ! i), Suc (delivery_attempts (evs ! i)), alert_max_delivery_attempts S}))
        else events p ! i = evs ! i)
    \<and> distinct (outbox p)
    \<and> (\<forall>(c, g) \<in> set (outbox p). g \<in> ev_group ` {e \<in> set evs. pending S e} \<and> sendable S T now evs g
         \<and> c \<in> ch_id ` set (central_channels T (fst g)) \<and> send c g = Accepted)"
proof -
  have d: "distinct (map ev_id evs)" using ok by (simp add: events_ok_def)
  note rows = run_rows [OF d, of S T send now, folded p, unfolded list_all2_conv_all_nth row_outcome_def]
  note sent = run_sent [OF d chans, of S send now, folded p, unfolded sent_ok_def]
  have kept: "\<exists>n note. events p ! i = (evs ! i)\<lparr>delivery_attempts := n, last_error := note\<rparr>
      \<and> n \<in> {delivery_attempts (evs ! i), Suc (delivery_attempts (evs ! i)), alert_max_delivery_attempts S}"
    if "i < length evs" "pending S (evs ! i)" "\<not> delivered (events p ! i)" for i
    using rows that by (intro untried_columns [where now = now]) auto
  show ?thesis using rows sent kept by auto
qed

section \<open>The key of a group\<close>

definition window_of :: "AlertRule \<Rightarrow> int \<Rightarrow> int option" where
  "window_of rule now = (case digest_window rule of None \<Rightarrow> None
     | Some w \<Rightarrow> if w = [] then None else (case assign_window now w of Inl x \<Rightarrow> None | Inr t \<Rightarrow> Some t))"

text \<open>The text whose hash is the key.\<close>

definition dedup_text :: "alert_env \<Rightarrow> AlertRule \<Rightarrow> FileEvent \<Rightarrow> int \<Rightarrow> codepoints" where
  "dedup_text A rule ev now = join [0] (dedup_parts A (fe_type ev) (fe_library ev) (ru_id rule) (window_of rule now)
     (group_extras (alert_lower A) rule ev))"

text \<open>Lower-casing and ISO times bring in no NUL, and ISO times tell instants apart.\<close>

definition text_ok :: "alert_env \<Rightarrow> bool" where
  "text_ok A \<longleftrightarrow> (\<forall>s. 0 \<notin> set s \<longrightarrow> 0 \<notin> set (alert_lower A s)) \<and> (\<forall>t. 0 \<notin> set (cps (iso_time A t))) \<and> inj (iso_time A)"

lemma utf8_encode_scalar: "utf8_encode s = Inr bs \<Longrightarrow> list_all is_scalar s \<and> bs = concat (map utf8_bytes s)"
proof -
  assume e: "utf8_encode s = Inr bs"
  have "map_res utf8_char s = Inr bss \<Longrightarrow> list_all is_scalar s" for bss
    by (induction s arbitrary: bss) (auto simp: utf8_char_def bind_res_Inr split: if_splits)
  then have "list_all is_scalar s" using e by (auto simp: utf8_encode_def bind_res_Inr)
  then show ?thesis using utf8_encode_eq e by auto
qed

lemma utf8_encode_inj: "utf8_encode s = Inr bs \<Longrightarrow> utf8_encode s' = Inr bs \<Longrightarrow> s = s'"
  using utf8_decode_encode utf8_encode_scalar by (metis sum.inject(2))

lemma build_draft_key:
  assumes "build_draft A rule ev item now = Inr d"
  shows "\<exists>bs. utf8_encode (dedup_text A rule ev now) = Inr bs \<and> dr_key d = sha256_hex A bs"
  using assms
  by (auto simp: build_draft_def dedup_text_def window_of_def group_key_def compute_dedup_key_def bind_res_Inr
      split: option.splits sum.splits if_splits)

lemma cps_inj [simp]: "cps s = cps s' \<longleftrightarrow> s = s'"
  by (simp add: inj_map_eq_map inj_on_def)

lemma uuid_str_inj: "n < 2 ^ 128 \<Longrightarrow> m < 2 ^ 128 \<Longrightarrow> uuid_str n = uuid_str m \<longleftrightarrow> n = m"
  using uuid_parse_str by (metis sum.inject(2))

lemma folder_no_nul: "0 \<notin> set rel \<Longrightarrow> 0 \<notin> set (folder_of rel)"
proof -
  assume z: "0 \<notin> set rel"
  let ?n = "map (\<lambda>c. if c = 92 then Rbac.slash else c) rel"
  have "0 \<notin> set ?n" using z by (auto simp: Rbac.slash_def)
  moreover have "set (hd (split_on Rbac.slash ?n)) \<subseteq> set ?n" by (rule set_split_on_subset [OF hd_in_set [OF split_on_not_Nil]])
  ultimately show ?thesis unfolding folder_of_def Let_def by auto
qed

lemma suffix_no_nul: "text_ok A \<Longrightarrow> 0 \<notin> set rel \<Longrightarrow> 0 \<notin> set (suffix_of (alert_lower A) rel)"
proof -
  assume t: "text_ok A" and z: "0 \<notin> set rel"
  let ?name = "last (split_on Rbac.slash rel)"
  have "set ?name \<subseteq> set rel" by (rule set_split_on_subset [OF last_in_set [OF split_on_not_Nil]])
  moreover have "set (last (split_on 46 ?name)) \<subseteq> set ?name" by (rule set_split_on_subset [OF last_in_set [OF split_on_not_Nil]])
  ultimately have "0 \<notin> set (last (split_on 46 ?name))" using z by blast
  then show ?thesis using t by (simp add: suffix_of_def Let_def text_ok_def)
qed

lemma uuid_no_nul: "0 \<notin> set (cps (uuid_str n))"
proof
  assume "0 \<in> set (cps (uuid_str n))"
  then obtain c where c: "c \<in> set (uuid_str n)" "of_char c = (0::nat)" by auto
  have "c = char_of (0::nat)" using char_of_char [where 'a = nat, of c] unfolding c(2) by (rule sym)
  then have "\<not> (hex_char c \<or> c = CHR ''-'')" by (simp add: hex_char_def char_of_def)
  with c(1) uuid_str_shape(2) [of n] show False by (auto simp: list_all_iff)
qed

lemma event_type_no_nul: "t \<in> EVENT_TYPES \<Longrightarrow> 0 \<notin> set (cps t)"
  by (auto simp: EVENT_TYPES_def)

lemma parts_no_nul:
  assumes "text_ok A" "fe_type ev \<in> EVENT_TYPES" "0 \<notin> set (fe_rel_path ev)"
    "x \<in> set (dedup_parts A (fe_type ev) (fe_library ev) (ru_id rule) w (group_extras (alert_lower A) rule ev))"
  shows "0 \<notin> set x"
proof -
  have iso: "0 \<notin> set (cps (iso_time A t))" for t using assms(1) by (simp add: text_ok_def)
  have val: "0 \<notin> set v" if "(a, v) \<in> set (group_extras (alert_lower A) rule ev)" for a v
    using that folder_no_nul [OF assms(3)] suffix_no_nul [OF assms(1,3)] assms(3) by (auto simp: group_extras_def split: if_splits)
  have ext: "0 \<notin> set (case map_of (group_extras (alert_lower A) rule ev) a of None \<Rightarrow> [] | Some v \<Rightarrow> v)" for a
    using val map_of_SomeD [of "group_extras (alert_lower A) rule ev" a] by (cases "map_of (group_extras (alert_lower A) rule ev) a") auto
  from assms(4) consider "x = cps (fe_type ev)" | n where "x = cps (uuid_str n)" | t where "x = cps (iso_time A t)"
    | a where "x = cps a @ [61] @ (case map_of (group_extras (alert_lower A) rule ev) a of None \<Rightarrow> [] | Some v \<Rightarrow> v)"
        "a \<in> {''extension'', ''file'', ''folder''}"
    unfolding dedup_parts_def by (auto simp del: filter.simps split: option.splits)
  then show ?thesis
  proof cases
    case (4 a)
    then have "0 \<notin> set (cps a)" by auto
    then show ?thesis using 4(1) ext [of a] by auto
  qed (use event_type_no_nul [OF assms(2)] uuid_no_nul iso in simp_all)
qed

text \<open>The extra values are read back from the parts.\<close>

lemma extras_from_parts:
  assumes "map (\<lambda>k. cps k @ [61] @ (case map_of (group_extras lw rule ev) k of None \<Rightarrow> [] | Some v \<Rightarrow> v))
      (filter (\<lambda>k. k \<in> fst ` set (group_extras lw rule ev)) [''extension'', ''file'', ''folder''])
    = map (\<lambda>k. cps k @ [61] @ (case map_of (group_extras lw rule ev') k of None \<Rightarrow> [] | Some v \<Rightarrow> v))
      (filter (\<lambda>k. k \<in> fst ` set (group_extras lw rule ev')) [''extension'', ''file'', ''folder''])"
  shows "group_extras lw rule ev = group_extras lw rule ev'"
  using assms
  by (cases "''folder'' \<in> set (group_by rule)"; cases "''extension'' \<in> set (group_by rule)"; cases "''file'' \<in> set (group_by rule)")
    (simp_all add: group_extras_def)

lemma same_rule_parts:
  assumes "dedup_parts A et lib rid (window_of rule now) (group_extras lw rule ev)
      = dedup_parts A et lib rid (window_of rule now') (group_extras lw rule ev')" "inj (iso_time A)"
  shows "window_of rule now = window_of rule now' \<and> group_extras lw rule ev = group_extras lw rule ev'"
proof -
  have shape: "(window_of rule now = None) = (window_of rule now' = None)"
    by (auto simp: window_of_def assign_window_def split: option.splits sum.splits if_splits)
  show ?thesis
  proof (cases "window_of rule now")
    case None
    then show ?thesis using assms shape extras_from_parts [of lw rule ev ev'] by (simp add: dedup_parts_def)
  next
    case (Some t)
    then obtain t' where t': "window_of rule now' = Some t'" using shape by fastforce
    then show ?thesis using assms Some extras_from_parts [of lw rule ev ev'] by (simp add: dedup_parts_def inj_eq)
  qed
qed

text \<open>Property C38. Two matches get the same key, and so go out in one message, exactly when they are of one rule, one
  kind of event and one library, in the same digest window, with the same values of what else the rule groups by;
  SHA-256 is only asked to tell the two texts apart.\<close>

theorem groups_follow_rule:
  assumes A: "text_ok A"
    and d: "build_draft A rule ev item now = Inr d" and d': "build_draft A rule' ev' item' now' = Inr d'"
    and same: "ru_id rule = ru_id rule' \<longrightarrow> rule = rule'"
    and types: "fe_type ev \<in> EVENT_TYPES" "fe_type ev' \<in> EVENT_TYPES"
    and paths: "0 \<notin> set (fe_rel_path ev)" "0 \<notin> set (fe_rel_path ev')"
    and ids: "ru_id rule < 2 ^ 128" "ru_id rule' < 2 ^ 128" "fe_library ev < 2 ^ 128" "fe_library ev' < 2 ^ 128"
    and sha: "\<forall>bs bs'. utf8_encode (dedup_text A rule ev now) = Inr bs \<and> utf8_encode (dedup_text A rule' ev' now') = Inr bs'
       \<and> sha256_hex A bs = sha256_hex A bs' \<longrightarrow> bs = bs'"
  shows "dr_key d = dr_key d' \<longleftrightarrow> rule = rule' \<and> fe_type ev = fe_type ev' \<and> fe_library ev = fe_library ev'
    \<and> window_of rule now = window_of rule' now' \<and> group_extras (alert_lower A) rule ev = group_extras (alert_lower A) rule' ev'"
proof -
  let ?ps = "\<lambda>r e n. dedup_parts A (fe_type e) (fe_library e) (ru_id r) (window_of r n) (group_extras (alert_lower A) r e)"
  obtain bs bs' where b: "utf8_encode (dedup_text A rule ev now) = Inr bs" "dr_key d = sha256_hex A bs"
    "utf8_encode (dedup_text A rule' ev' now') = Inr bs'" "dr_key d' = sha256_hex A bs'"
    using build_draft_key [OF d] build_draft_key [OF d'] by blast
  have ne: "?ps rule ev now \<noteq> []" "?ps rule' ev' now' \<noteq> []" by (simp_all add: dedup_parts_def)
  have split1: "split_on 0 (dedup_text A rule ev now) = ?ps rule ev now"
    unfolding dedup_text_def by (rule split_on_join [OF ne(1)]) (rule parts_no_nul [OF A types(1) paths(1)])
  have split2: "split_on 0 (dedup_text A rule' ev' now') = ?ps rule' ev' now'"
    unfolding dedup_text_def by (rule split_on_join [OF ne(2)]) (rule parts_no_nul [OF A types(2) paths(2)])
  have "dr_key d = dr_key d' \<longleftrightarrow> dedup_text A rule ev now = dedup_text A rule' ev' now'"
    using b sha utf8_encode_inj by (metis sum.inject(2))
  also have "\<dots> \<longleftrightarrow> ?ps rule ev now = ?ps rule' ev' now'" using split1 split2 by (metis dedup_text_def)
  also have "\<dots> \<longleftrightarrow> rule = rule' \<and> fe_type ev = fe_type ev' \<and> fe_library ev = fe_library ev'
    \<and> window_of rule now = window_of rule' now' \<and> group_extras (alert_lower A) rule ev = group_extras (alert_lower A) rule' ev'"
  proof
    assume eq: "?ps rule ev now = ?ps rule' ev' now'"
    then have u: "uuid_str (fe_library ev) = uuid_str (fe_library ev')" "uuid_str (ru_id rule) = uuid_str (ru_id rule')"
      and et: "fe_type ev = fe_type ev'" by (simp_all add: dedup_parts_def)
    have lib: "fe_library ev = fe_library ev'" and r: "rule = rule'" using u uuid_str_inj ids same by blast+
    have "inj (iso_time A)" using A by (simp add: text_ok_def)
    with same_rule_parts [of A "fe_type ev" "fe_library ev" "ru_id rule" rule now "alert_lower A" ev now' ev'] eq et lib r
    show "rule = rule' \<and> fe_type ev = fe_type ev' \<and> fe_library ev = fe_library ev'
      \<and> window_of rule now = window_of rule' now' \<and> group_extras (alert_lower A) rule ev = group_extras (alert_lower A) rule' ev'" by simp
  qed (clarify, simp)
  finally show ?thesis .
qed

section \<open>Samples\<close>

definition sample_alert_env :: alert_env where
  "sample_alert_env = \<lparr>glob_match = (\<lambda>p rel. True), alert_lower = (\<lambda>s. s), sha256_hex = map char_of,
     iso_time = (\<lambda>t. if t < 0 then replicate (nat (- t)) CHR ''-'' else replicate (nat t) CHR ''+'')\<rparr>"

definition folder_rule :: AlertRule where
  "folder_rule = \<lparr>ru_id = 1, ru_name = ''new files'', event_types = [''created''], ru_enabled = True, is_system = False,
     ru_library = None, path_glob = None, hash_change_only = False, group_by = [''event_type'', ''library_id'', ''rule_id'', ''folder''],
     group_wait_s = 0, digest_window = None, repeat_interval_s = None, inhibited_by = [], inhibit_window_s = 0\<rparr>"

definition created_in :: "string \<Rightarrow> FileEvent" where
  "created_in rel = \<lparr>fe_type = ''created'', fe_library = 2, fe_rel_path = cps rel, old_hash = None, new_hash = None\<rparr>"

definition sample_alert_settings :: alert_settings where
  "sample_alert_settings = \<lparr>alert_max_delivery_attempts = 3, alert_group_interval_s = 300, alert_rule_max_per_hour = None\<rparr>"

definition sample_alert_tables :: alert_tables where
  "sample_alert_tables = \<lparr>alert_rules = [folder_rule], alert_channels = [\<lparr>ch_id = 7, ch_enabled = True, ch_central = True\<rparr>], rule_channels = [(1, 7)]\<rparr>"

definition sample_draft :: AlertDraft where
  "sample_draft = \<lparr>dr_rule = 1, dr_type = ''created'', dr_key = ''k'', dr_item = Some 5, dr_library = Some 2, dr_rel_path = cps ''a/x'', dr_occurred = 0\<rparr>"

lemma ascii_encode: "list_all (\<lambda>c. c < 128) s \<Longrightarrow> utf8_encode s = Inr s"
proof -
  assume a: "list_all (\<lambda>c. c < 128) s"
  then have "list_all is_scalar s" by (auto simp: list_all_iff is_scalar_def)
  moreover have "concat (map utf8_bytes s) = s" using a by (induction s) (simp_all add: utf8_bytes_def)
  ultimately show ?thesis using utf8_encode_eq by simp
qed

lemma sample_build:
  assumes "list_all (\<lambda>c. c < 128) (dedup_text sample_alert_env folder_rule (created_in rel) 0)"
  shows "build_draft sample_alert_env folder_rule (created_in rel) item 0
    = Inr \<lparr>dr_rule = 1, dr_type = ''created'', dr_key = map char_of (dedup_text sample_alert_env folder_rule (created_in rel) 0),
           dr_item = item, dr_library = Some 2, dr_rel_path = cps rel, dr_occurred = 0\<rparr>"
  using ascii_encode [OF assms]
  by (simp add: build_draft_def dedup_text_def window_of_def group_key_def compute_dedup_key_def folder_rule_def sample_alert_env_def created_in_def)

lemma sample_ascii:
  "list_all (\<lambda>c. c < 128) (dedup_text sample_alert_env folder_rule (created_in ''a/x'') 0)"
  "list_all (\<lambda>c. c < 128) (dedup_text sample_alert_env folder_rule (created_in ''b/x'') 0)"
  by code_simp+

lemma sample_text_ok: "text_ok sample_alert_env"
proof -
  have "inj (iso_time sample_alert_env)"
    by (rule injI) (auto simp: sample_alert_env_def replicate_eq_replicate split: if_splits)
  then show ?thesis by (auto simp: text_ok_def sample_alert_env_def)
qed

theorem match_recorded_witness:
  "\<exists>e \<in> set (fst (persist_drafts [] (concat (map (capture sample_alert_env (\<lambda>p. True) [folder_rule] 2 0) [(''created'', cps ''a/x'', 5, None)])) ([], 0))).
     pending sample_alert_settings e \<and> ev_item e = Some 5"
proof -
  have r: "load_enabled_rules (\<lambda>p. True) [folder_rule] = Inr [folder_rule]" by code_simp
  note b = sample_build [OF sample_ascii(1), of "Some 5"]
  have m: "match_rule (glob_match sample_alert_env) folder_rule (created_in ''a/x'')" by code_simp
  obtain d where d: "matched sample_alert_env [folder_rule] 2 0 [(''created'', cps ''a/x'', 5, None)] d" "dr_item d = Some 5"
    using b m by (auto simp: matched_def created_in_def EVENT_TYPES_def)
  have ok: "events_ok sample_alert_settings ([], 0)" by (simp add: events_ok_def)
  have l: "0 < alert_max_delivery_attempts sample_alert_settings" by (simp add: sample_alert_settings_def)
  show ?thesis using match_recorded [OF r ok l, of sample_alert_env 2 0 "[(''created'', cps ''a/x'', 5, None)]"] d
    by (fastforce simp: pending_key_def draft_key_def)
qed

theorem alerts_reachable_ok_witness:
  "events_ok sample_alert_settings (persist_drafts [] [sample_draft] ([], 0)) \<and> length (fst (persist_drafts [] [sample_draft] ([], 0))) = 1"
proof -
  have "length (fst (persist_drafts [] [sample_draft] ([], 0))) = 1" by code_simp
  moreover have "(astep sample_alert_settings)\<^sup>*\<^sup>* ([], 0) (persist_drafts [] [sample_draft] ([], 0))" by (rule r_into_rtranclp) (rule recorded)
  from alerts_reachable_ok [OF this] have "events_ok sample_alert_settings (persist_drafts [] [sample_draft] ([], 0))" by blast
  ultimately show ?thesis by blast
qed

definition waiting_events :: "AlertEvent list" where
  "waiting_events = fst (persist_drafts [] [sample_draft] ([], 0))"

theorem pump_delivers_exactly_witness:
  "delivered (events (run_pending_dispatch sample_alert_settings sample_alert_tables (\<lambda>c g. Accepted) 10 waiting_events) ! 0)
   \<and> (7, ev_group (waiting_events ! 0)) \<in> set (outbox (run_pending_dispatch sample_alert_settings sample_alert_tables (\<lambda>c g. Accepted) 10 waiting_events))"
proof -
  have len: "length waiting_events = 1" by code_simp
  have pend: "pending sample_alert_settings (waiting_events ! 0)" by code_simp
  have "fires sample_alert_settings sample_alert_tables (\<lambda>c g. Accepted) 10 waiting_events (ev_group (waiting_events ! 0))" by code_simp
  moreover have "\<not> muted sample_alert_settings sample_alert_tables 10 waiting_events (ev_group (waiting_events ! 0))" by code_simp
  moreover have "7 \<in> ch_id ` set (central_channels sample_alert_tables (ev_rule (waiting_events ! 0)))" by code_simp
  moreover have "under_ceiling sample_alert_settings 10 es rid" for es rid
    by (simp add: sample_alert_settings_def under_ceiling_def ceiling_exceeded_def)
  moreover have ok: "events_ok sample_alert_settings (waiting_events, 1)" by code_simp
  moreover have ch: "distinct (map ch_id (alert_channels sample_alert_tables))" by code_simp
  ultimately show ?thesis using pump_delivers_exactly [OF ok ch refl, of "\<lambda>c g. Accepted" 10] len pend by auto
qed

theorem groups_follow_rule_witness:
  "\<exists>d d'. build_draft sample_alert_env folder_rule (created_in ''a/x'') None 0 = Inr d
     \<and> build_draft sample_alert_env folder_rule (created_in ''b/x'') None 0 = Inr d' \<and> dr_key d \<noteq> dr_key d'"
proof -
  let ?A = sample_alert_env and ?x = "created_in ''a/x''" and ?y = "created_in ''b/x''"
  obtain d d' where d: "build_draft ?A folder_rule ?x None 0 = Inr d" "build_draft ?A folder_rule ?y None 0 = Inr d'"
    using sample_build [OF sample_ascii(1)] sample_build [OF sample_ascii(2)] by blast
  have sha: "\<forall>bs bs'. utf8_encode (dedup_text ?A folder_rule ?x 0) = Inr bs \<and> utf8_encode (dedup_text ?A folder_rule ?y 0) = Inr bs'
      \<and> sha256_hex ?A bs = sha256_hex ?A bs' \<longrightarrow> bs = bs'"
  proof -
    have "map char_of (dedup_text ?A folder_rule ?x 0) \<noteq> map char_of (dedup_text ?A folder_rule ?y 0)" by code_simp
    then show ?thesis using ascii_encode [OF sample_ascii(1)] ascii_encode [OF sample_ascii(2)] by (auto simp: sample_alert_env_def)
  qed
  have t: "fe_type ?x \<in> EVENT_TYPES" "fe_type ?y \<in> EVENT_TYPES" "0 \<notin> set (fe_rel_path ?x)" "0 \<notin> set (fe_rel_path ?y)"
    "ru_id folder_rule < 2 ^ 128" "fe_library ?x < 2 ^ 128" "fe_library ?y < 2 ^ 128"
    by (simp_all add: created_in_def EVENT_TYPES_def folder_rule_def)
  have "group_extras (alert_lower ?A) folder_rule ?x \<noteq> group_extras (alert_lower ?A) folder_rule ?y" by code_simp
  with groups_follow_rule [OF sample_text_ok d _ t(1-5) t(5-7) sha] have "dr_key d \<noteq> dr_key d'" by simp
  with d show ?thesis by blast
qed

section \<open>Where the pump and its documentation part\<close>

text \<open>A row that was given up still counts as pending for the writer: the next event of the same rule, key and item is
  dropped, and the pump never takes the old row up again, until the purge removes it.\<close>

lemma failed_row_blocks:
  assumes "e \<in> set evs" "\<not> delivered e" "alert_max_delivery_attempts S \<le> delivery_attempts e" "draft_key d = pending_key e"
    "distinct (map ev_id evs)"
  shows "persist_drafts evs [d] (evs, k) = (evs, k) \<and> e \<in> set (events (run_pending_dispatch S T send now evs))"
proof
  have "draft_key d \<in> set (pending_keys evs)" using assms(1,2,4) by (auto simp: pending_keys_def)
  then show "persist_drafts evs [d] (evs, k) = (evs, k)" by (simp add: persist_drafts_def)
  obtain i where i: "i < length evs" "evs ! i = e" using assms(1) by (metis in_set_conv_nth)
  note rows = run_rows [OF assms(5), of S T send now, unfolded list_all2_conv_all_nth]
  have "\<not> pending S e" using assms(3) by (simp add: pending_def)
  then have "events (run_pending_dispatch S T send now evs) ! i = e" using rows i by auto
  then show "e \<in> set (events (run_pending_dispatch S T send now evs))" using rows i(1) nth_mem by metis
qed

text \<open>The repeat interval of a rule never matters, and a rule that asks for a changed hash matches no modified file the
  walk reports.\<close>

lemma repeat_interval_ignored: "group_due (rule\<lparr>repeat_interval_s := x\<rparr>) grp prior now gi = group_due rule grp prior now gi"
  by (simp add: group_due_def should_fire_now_def Let_def split: option.splits)

lemma hash_rule_silent:
  "hash_change_only rule \<Longrightarrow> \<not> match_rule glob rule \<lparr>fe_type = ''modified'', fe_library = lib, fe_rel_path = rel, old_hash = oldh, new_hash = None\<rparr>"
  by (simp add: match_rule_def)

end
