(* ===== verification/Spec2Isabelle.thy ===== *)
theory Spec2Isabelle
  imports QueryDSL Rbac Scopes PyFloat Manifest AgentSync Reconcile ShareMap Transfers AgentPlane AgentCommands Permissions Staging Moves Sidecars FileWalk Scanner ScanOutcome Alerts AlertPump
begin

text \<open>
  Verification of the core of Filearr, a self-hosted catalogue of files: a central server (Python,
  \<open>src/backend/filearr\<close>) keeps one row per file of its libraries; agents on other machines replicate
  their local indexes to it, are driven by commands it queues for them, and are restricted by role and
  path grants; users search with a small query language and open files through network shares.

  \<^bold>\<open>Parts and theories.\<close>

  \<^item> Prelude: Python strings, exceptions as sums, JSON values, dictionaries, decimal numbers, and the
    interfaces several components implement as locales: \<open>lifecycle\<close> and \<open>ranked_lifecycle\<close> (state
    machines with terminal states), \<open>codec\<close> (encoders with a left inverse) and \<open>best_scan\<close> (loops that
    keep the best entry seen). Theory Permissions adds \<open>stamped_cache\<close>. Each is interpreted on the code's own definitions: \<open>codec\<close> on the path
    labels, \<open>ranked_lifecycle\<close> on transfers, \<open>lifecycle\<close> on commands, \<open>best_scan\<close> on share mappings and
    on the mount map.
  \<^item> QueryDSL: \<open>querydsl.py\<close>. Lexer, parser, syntax tree and printer. Printing and parsing are inverse
    under stated conditions (with the gaps exhibited), errors are of the documented kind with a position
    inside the input, and filter keys are allow-listed.
  \<^item> Rbac: \<open>rbac.py\<close>, \<open>roles.py\<close> and the grant flattening of \<open>policy.py\<close>. Path labels, tree scopes,
    grants and decisions: the codec round trips, scopes are injective and cover exactly subtrees, a
    decision is deny-overrides, and the globs sent to an agent decide the same paths when the agent applies
    them: its \<open>applyScope\<close> (\<open>compile.go\<close>) is modelled, with an empty list as no restriction and SQLite's \<open>GLOB\<close>
    as a parameter, of which only the documented behaviour on plain patterns is used.
  \<^item> Scopes: \<open>rbac_sql.py\<close> and \<open>tenant_tokens.py\<close>. The SQL predicate of listings and the filter of the search
    engine that are compiled from grants; both admit exactly what the decision of Rbac allows, except that
    the search filter does not apply the role's ceiling, which is exhibited.
  \<^item> PyFloat: IEEE doubles as rationals with correct rounding, and the three time conversions of
    \<open>agentsync.py\<close>. Manifest: the canonical JSON manifest and its digest, faithful up to hash collisions.
  \<^item> AgentSync: the replication protocol of \<open>agentsync.py\<close> and its endpoint. The state is the record
    \<open>central\<close> (items, libraries, ledger as lists of rows); \<open>apply_batch\<close> plans, provisions libraries,
    upserts, tombstones and logs. It refines the event-by-event replay, with path, hashes, size and
    modification time of every live row, keeps unique keys, and is applied exactly once.
  \<^item> Reconcile: \<open>reconcile_start\<close>, \<open>reconcile_stage_rows\<close> and \<open>reconcile_finish\<close> over \<open>central\<close>, sessions and
    staging. A finish makes the catalogue equal to the manifest except for trashed paths, the next start
    then matches, sessions are isolated, and the invariants hold in every state reachable by
    interleaved reconciliation and replication (step relation \<open>rstep\<close>).
  \<^item> ShareMap: the share resolution of \<open>transfers.py\<close> and \<open>share_map.py\<close>. The chosen mapping is the most
    specific one, URL and UNC renderings convert into each other, the cache is transparent.
  \<^item> Transfers: the transfer state machine and the staging path of \<open>transfers.py\<close>, bounded and confined.
  \<^item> AgentPlane: authentication of agents in \<open>api/agent_commands.py\<close>.
  \<^item> Permissions: \<open>grant_cache.py\<close>, \<open>search_scope.py\<close>, the permission contexts of \<open>security.py\<close>, and the
    administration endpoints of \<open>api/rbac.py\<close>, \<open>api/roles.py\<close> and \<open>api/auth.py\<close> over the tables of principals,
    groups, grants and roles. The grant cache and the role registry implement the locale \<open>stamped_cache\<close>;
    along the step relation \<open>pstep\<close>, where anything may happen while a request waits for the database, a
    decision follows the tables as long as nothing of the same principal changes during such a wait and the
    role query succeeds, the preview predicts it, and the administrator role survives. The relation is that of one
    process. The interleaving that defeats the cache, a failed role query that serves an old role and an
    account change that locks administration out are exhibited.
  \<^item> AgentCommands: the command queue of \<open>agentsync.py\<close> and \<open>api/agent_commands.py\<close> with item verification
    (\<open>verify.py\<close>). Every handler and the sweep evolve the queue by legal moves; invariants and the
    immutability of terminal commands hold along the step relation \<open>cstep\<close>; a sweep settles the queue.
  \<^item> Staging: retrieving a file from an agent (\<open>api/agent_staging.py\<close>, \<open>api/transfers.py\<close>, \<open>staging_sweep.py\<close>) over
    the command queue, the transfer rows and the files of the staging directory, with short and failed
    writes and dropped connections. Every handler is a sequence of elementary moves (\<open>smove\<close>) of the queue
    or of one row with its file; along the step relation \<open>sstep\<close>, which contains the one of the queue,
    uploads resume without loss and can be finished, offsets stay in bounds, downloads serve only bytes
    the catalogue vouched for, and a sweep settles what has expired. Resumption without loss assumes that
    the operating system writes each piece in full; a short write that is counted in full, a file that is
    never reclaimed and a foreign re-attach are exhibited.
  \<^item> Moves: rename detection at the end of a scan (\<open>tasks/move.py\<close>). The planner is equal to an order-independent
    specification; the three phases of the transfer never violate the unique index and keep the identity of
    the item; across libraries a row moves only to the one new file, for the one tombstone, with equal bytes,
    and all other rows stay.
  \<^item> Sidecars: which files decorate others (\<open>sidecar.py\<close>), the links from them to their items and the metadata
    folded into those (\<open>tasks/associate.py\<close>): links are sound, form no chains, a second pass changes nothing,
    and what users wrote is never touched.
  \<^item> FileWalk: the walk of a library over a finite tree whose calls may fail (\<open>tasks/scan.py\<close>). It equals a
    recursive listing, stays in its scope and, when it descends and counts pruned directories, accounts for
    every file.
  \<^item> Scanner and ScanOutcome: a scan (\<open>scan_library\<close> of \<open>tasks/scan.py\<close>), with batch commits, stop and cancel
    requests, failures of the file system, the database, the job queue and of \<open>datetime\<close> on odd times, moves,
    tombstones and the sidecar pass. A scan that committed its work (\<open>work_committed\<close>: it finished, or failed only
    afterwards in the sidecar pass or the job queue) gives every admitted file its row, active unless
    it was trashed, and leaves no other active row in the scanned set; an interrupted one marks nothing missing, no scan deletes an item, rows
    outside its scope change at most in what the library-wide sidecar pass writes, and an undisturbed scan
    finishes. Scans that lose sight of files without noticing are exhibited.
  \<^item> Alerts and AlertPump: alert rules on file events (\<open>alerts/rules.py\<close>, \<open>windows.py\<close>, \<open>pipeline.py\<close>), the pump that
    sends the recorded events in groups (\<open>tasks/alerts.py\<close>) and their purge (\<open>worker.py\<close>). The events are the only
    state. No match is recorded twice, and none is lost but for one whose key a given-up row occupies; keys
    group events as the rule says; a run marks exactly the groups that fire and sends only waiting groups
    that are due; along the step relation \<open>astep\<close>, which includes the foreign keys to items, rules and libraries,
    the table keeps its keys and settled rows stay or go, and only forget a deleted library. A given-up row
    that silences later events and options without effect are exhibited.
    A run of the pump is one step; the outcome of a channel is a parameter.

  \<^bold>\<open>How the state corresponds.\<close> A table is a list of records, in insertion order; a query without an
  order sees that order. Database ids are numbers from a counter, except that agent and library ids are
  the 128-bit numbers of their UUIDs where their text matters. Times are microseconds since the epoch. A
  transaction that raises leaves the state as it was before it, except for what the code committed
  earlier, which the model returns with the error. Row locks of concurrent transactions are predicates.

  \<^bold>\<open>Parameters.\<close> BLAKE2b and SHA-256 are functions; where a theorem needs that two given texts do not
  collide, it says so. JSON decoding, schema validation by pydantic, the taxonomy snapshot, the settings
  and the clock are arguments. Strings are Latin-1 outside the path codec, which works on all code
  points. The xxHash digests of files are functions of their bytes; gitignore matching and the XML parsers
  of sidecar files are functions too. A modification time outside the range of \<open>datetime\<close> raises
  where the code converts it (scans, replication, reconciliation, item verification). The theorems that
  compare manifests hold for times from 1970 to 2041 (\<open>2 ^ 51\<close> microseconds), and say so: beyond,
  a stored time need not convert back to the quantum it came from.

  \<^bold>\<open>Termination.\<close> All definitions are total functions; the loops that are not structural
  (the free-name search of library provisioning, string splitting, reading a file in chunks, the stack of
  directories of a walk, decimal digits) come with their measures. No fuel is used; that an upload ends is the theorem
  \<open>upload_completes\<close>, with the number of rounds it takes.

  \<^bold>\<open>Not modelled.\<close> Channel drivers and message texts of alerts, operational alerts, audit records, the jobs a scan queues (only that
  queueing them can fail), extraction, search, reports, login and
  sessions, configuration groups, the worker and framework wiring, the Go agent (but for \<open>applyScope\<close>)
  and the web frontend: they are I/O, third-party services, SQL, or other programs. Enrolment
  rests on X.509 and secrets, schedules on a cron library.
\<close>

end
